(* ===== verification/Prelude.thy ===== *)
theory Prelude
  imports Main "HOL-Library.Word" "HOL-Library.Monad_Syntax"
begin

text \<open>
  Shared vocabulary of the development: the machine types of the sources, the outcomes of an
  operation, and the generic facts on lists, options and machine words that several
  components use.

  An operation that can leave the defined behaviour of C++ (a dereference of a null or dangling
  pointer, an access outside an allocated block, a read of an indeterminate value, a double
  \<open>delete\<close>) has the result type \<open>'a option\<close>, where \<open>None\<close> is undefined
  behaviour.  An operation that can also throw has the result type \<open>'a outcome\<close>: inside
  the option, \<open>Inl\<close> is the way it stops and \<open>Inr\<close> its normal result.
\<close>

type_synonym uint = "32 word"
type_synonym usize = "64 word"
type_synonym byte = "8 word"
type_synonym addr = nat

abbreviation (input) null :: addr where
  "null \<equiv> 0"

text \<open>How an operation can stop without returning: a propagated \<open>std::out_of_range\<close> or
  \<open>std::bad_alloc\<close> (with its subclass for a bad array length), an exception that reaches a
  \<open>noexcept\<close> function (\<open>std::terminate\<close>), a failed \<open>assert\<close>.\<close>

datatype stop = OutOfRange | BadAlloc | Terminate | AssertFailed

type_synonym 'a outcome = "(stop + 'a) option"

text \<open>Sequencing of operations that may stop: the continuation runs on a normal result only.\<close>

definition bind_outcome :: "'a outcome \<Rightarrow> ('a \<Rightarrow> 'b outcome) \<Rightarrow> 'b outcome" where
  "bind_outcome m f =
     (case m of None \<Rightarrow> None | Some (Inl e) \<Rightarrow> Some (Inl e) | Some (Inr x) \<Rightarrow> f x)"

text \<open>A function declared \<open>noexcept\<close>: an exception that would leave it terminates the
  program.\<close>

definition noexcept :: "'a outcome \<Rightarrow> 'a outcome" where
  "noexcept m = (case m of
     Some (Inl e) \<Rightarrow> Some (Inl (if e = AssertFailed then e else Terminate)) | _ \<Rightarrow> m)"

named_theorems effect_simps "evaluation of loads, stores and of sequenced operations"

lemma bind_outcome_simps [simp, effect_simps]:
  "bind_outcome None f = None"
  "bind_outcome (Some (Inl e)) f = Some (Inl e)"
  "bind_outcome (Some (Inr x)) f = f x"
  by (simp_all add: bind_outcome_def)

lemma bind_outcome_eq_Inr:
  "bind_outcome m f = Some (Inr y) \<longleftrightarrow> (\<exists>x. m = Some (Inr x) \<and> f x = Some (Inr y))"
  by (auto simp: bind_outcome_def split: option.splits sum.splits)

text \<open>Loops over such operations are monotone, so that \<open>partial_function (option)\<close> accepts
  them.\<close>

lemma bind_outcome_mono [partial_function_mono]:
  assumes "mono_option B" "\<And>y. mono_option (\<lambda>f. C y f)"
  shows "mono_option (\<lambda>f. bind_outcome (B f) (\<lambda>y. C y f))"
proof -
  have "bind_outcome m g = Option.bind m (\<lambda>r. case r of Inl e \<Rightarrow> Some (Inl e) | Inr x \<Rightarrow> g x)"
    for m :: "'c outcome" and g :: "'c \<Rightarrow> 'd outcome"
    by (auto simp: bind_outcome_def split: option.splits sum.splits)
  moreover have "mono_option (\<lambda>f. case r of Inl e \<Rightarrow> Some (Inl e) | Inr x \<Rightarrow> C x f)" for r
    by (cases r) (auto intro: assms(2) option.const_mono)
  ultimately show ?thesis by (simp add: bind_mono [OF assms(1)])
qed

lemma noexcept_simps [simp, effect_simps]:
  "noexcept None = None"
  "noexcept (Some (Inr x)) = Some (Inr x)"
  "noexcept (Some (Inl e)) = Some (Inl (if e = AssertFailed then e else Terminate))"
  by (simp_all add: noexcept_def)

text \<open>An operation that cannot throw, among ones that can.\<close>

definition lift :: "'a option \<Rightarrow> 'a outcome" where
  "lift = map_option Inr"

lemma lift_simps [simp, effect_simps]: "lift None = None" "lift (Some x) = Some (Inr x)"
  by (simp_all add: lift_def)

text \<open>A string literal as bytes.\<close>

definition lit :: "string \<Rightarrow> byte list" where
  "lit s = map of_char s"

subsection \<open>The constants of containerBase.h\<close>

definition m_maxSize :: uint where
  "m_maxSize = 0xFF000000"

definition m_npos :: int where
  "m_npos = -1"

subsection \<open>Words\<close>

lemma unat_maxSize [simp]: "unat m_maxSize = 4278190080"
  by (simp add: m_maxSize_def)

lemma unat_inc:
  fixes x :: uint
  assumes "Suc (unat x) < 4294967296"
  shows "unat (x + 1) = Suc (unat x)"
  using assms by (simp add: unat_word_ariths)

lemma unat_dec:
  fixes x :: "'a::len word"
  assumes "0 < unat x"
  shows "unat (x - 1) = unat x - 1"
  using assms unat_minus_one [of x] by fastforce

lemma unat_add_small:
  fixes x y :: uint
  assumes "unat x + unat y < 4294967296"
  shows "unat (x + y) = unat x + unat y"
  using assms by (simp add: unat_word_ariths)

lemma unat_sub_small:
  fixes x y :: "'a::len word"
  assumes "unat y \<le> unat x"
  shows "unat (x - y) = unat x - unat y"
  using assms by (simp add: unat_sub word_le_nat_alt)

lemma unat_uint_less [simp]: "unat (x :: uint) < 4294967296"
  using unsigned_less [where ?'a = nat, of x] by simp

lemma unat_minus_one_uint [simp]: "unat (- 1 :: uint) = 4294967295"
  by (simp add: unsigned_minus_1_eq_mask mask_eq_exp_minus_1)

lemma unat_minus_one_uint64: "unat (- 1 :: usize) = 18446744073709551615"
  by (simp add: unsigned_minus_1_eq_mask mask_eq_exp_minus_1)

lemma uint_eq_iff_unat: "(x :: uint) = y \<longleftrightarrow> unat x = unat y"
  by (simp add: word_unat_eq_iff)

lemma of_nat_eq_uint:
  assumes "i < 4294967296"
  shows "of_nat i = (w :: uint) \<longleftrightarrow> i = unat w"
  using assms by (auto simp: word_unat_eq_iff unat_of_nat)

lemma unat_add_usize:
  fixes x y :: usize
  assumes "unat x + unat y < 18446744073709551616"
  shows "unat (x + y) = unat x + unat y"
  using assms by (simp add: unat_word_ariths)

lemma unat_usize_less [simp]: "unat (x :: usize) < 18446744073709551616"
  using unsigned_less [where ?'a = nat, of x] by simp

lemma unat_inc_below:
  fixes x y :: "'a::len word"
  assumes "unat x < unat y"
  shows "unat (x + 1) = Suc (unat x)"
proof -
  have "unat x + 1 < 2 ^ LENGTH('a)" using assms unsigned_less [where ?'a = nat, of y] by linarith
  then show ?thesis by (simp add: unat_word_ariths)
qed

lemma sint_int32:
  fixes k :: usize
  assumes "unat k < 2147483648"
  shows "sint (ucast k :: 32 word) = int (unat k)"
proof -
  have s: "signed_take_bit 31 (int n) = int n" if "n < 2147483648" for n
    by (rule signed_take_bit_int_eq_self) (use that in simp_all)
  have u: "uint k = int (unat k)" by simp
  have "sint (ucast k :: 32 word) = signed_take_bit 31 (int (unat k))"
    unfolding signed_ucast_eq u by simp
  then show ?thesis using s [OF assms] by (simp only:)
qed

subsection \<open>Lists\<close>

lemma nth_append_Cons_length [simp]: "(xs @ y # ys) ! length xs = y"
  by simp

lemma split_at:
  assumes "i < length xs"
  shows "xs = take i xs @ xs ! i # drop (Suc i) xs"
  using assms by (simp add: id_take_nth_drop [symmetric])

lemma last_take_Cons: "0 < i \<Longrightarrow> i \<le> length as \<Longrightarrow> last (take i as) = as ! (i - 1)"
  by (cases "take i as = []") (auto simp: last_conv_nth)

lemma map_eq_map_Some_nth:
  "map f as = map Some xs \<Longrightarrow> i < length as \<Longrightarrow> f (as ! i) = Some (xs ! i)"
  by (metis length_map nth_map)

lemma map_eq_map_Some_length: "map f as = map Some xs \<Longrightarrow> length xs = length as"
  by (metis length_map)

end
