(* ===== verification/Chain.thy ===== *)
theory Chain
  imports Prelude
begin

text \<open>
  The heap of linked nodes that List.hpp, Queue.hpp and LRU.hpp allocate with \<open>new\<close> and
  release with \<open>delete\<close>, and the two shapes the sources build in it: a chain behind a
  head node that ends in a null pointer (List, Queue), and a ring through a sentry node (LRU).

  The heap is split by field, so that a store to \<open>next\<close> leaves \<open>previous\<close> and
  \<open>data\<close> alone.  \<open>alive\<close> says which addresses hold an allocated node: every access
  to a dead address is undefined behaviour (\<open>None\<close>).  \<open>new\<close> hands out addresses in
  increasing order and none twice, so that a use after \<open>delete\<close> is always seen.  Data is
  \<open>None\<close> while indeterminate (\<open>new NodeT\<close> leaves a \<open>T data\<close> of a built-in type
  uninitialised).
\<close>

record 'a mem =
  alive :: "addr \<Rightarrow> bool"
  nextOf :: "addr \<Rightarrow> addr"
  prevOf :: "addr \<Rightarrow> addr"
  dataOf :: "addr \<Rightarrow> 'a option"
  brk :: addr

definition empty_mem :: "'a mem" where
  "empty_mem = \<lparr>alive = (\<lambda>_. False), nextOf = (\<lambda>_. null), prevOf = (\<lambda>_. null),
     dataOf = (\<lambda>_. None), brk = 1\<rparr>"

definition load_next :: "'a mem \<Rightarrow> addr \<Rightarrow> addr option" where
  "load_next h p = (if alive h p then Some (nextOf h p) else None)"

definition load_prev :: "'a mem \<Rightarrow> addr \<Rightarrow> addr option" where
  "load_prev h p = (if alive h p then Some (prevOf h p) else None)"

definition load_data :: "'a mem \<Rightarrow> addr \<Rightarrow> 'a option" where
  "load_data h p = (if alive h p then dataOf h p else None)"

definition store_next :: "'a mem \<Rightarrow> addr \<Rightarrow> addr \<Rightarrow> 'a mem option" where
  "store_next h p q = (if alive h p then Some (h\<lparr>nextOf := (nextOf h)(p := q)\<rparr>) else None)"

definition store_prev :: "'a mem \<Rightarrow> addr \<Rightarrow> addr \<Rightarrow> 'a mem option" where
  "store_prev h p q = (if alive h p then Some (h\<lparr>prevOf := (prevOf h)(p := q)\<rparr>) else None)"

definition store_data :: "'a mem \<Rightarrow> addr \<Rightarrow> 'a \<Rightarrow> 'a mem option" where
  "store_data h p x = (if alive h p then Some (h\<lparr>dataOf := (dataOf h)(p := Some x)\<rparr>) else None)"

definition new_node :: "'a mem \<Rightarrow> addr \<times> 'a mem" where
  "new_node h = (brk h, h\<lparr>alive := (alive h)(brk h := True), nextOf := (nextOf h)(brk h := null),
     prevOf := (prevOf h)(brk h := null), dataOf := (dataOf h)(brk h := None), brk := Suc (brk h)\<rparr>)"

definition delete_node :: "'a mem \<Rightarrow> addr \<Rightarrow> 'a mem option" where
  "delete_node h p =
     (if p = null then Some h
      else if alive h p then Some (h\<lparr>alive := (alive h)(p := False)\<rparr>) else None)"

lemmas mem_ops_def =
  load_next_def load_prev_def load_data_def store_next_def store_prev_def store_data_def
  new_node_def delete_node_def

lemma load_store_alive [effect_simps]:
  "alive h p \<Longrightarrow> load_next h p = Some (nextOf h p)"
  "alive h p \<Longrightarrow> load_prev h p = Some (prevOf h p)"
  "alive h p \<Longrightarrow> load_data h p = dataOf h p"
  "alive h p \<Longrightarrow> store_next h p q = Some (h\<lparr>nextOf := (nextOf h)(p := q)\<rparr>)"
  "alive h p \<Longrightarrow> store_prev h p q = Some (h\<lparr>prevOf := (prevOf h)(p := q)\<rparr>)"
  "alive h p \<Longrightarrow> store_data h p x = Some (h\<lparr>dataOf := (dataOf h)(p := Some x)\<rparr>)"
  "alive h p \<Longrightarrow> p \<noteq> null \<Longrightarrow> delete_node h p = Some (h\<lparr>alive := (alive h)(p := False)\<rparr>)"
  by (simp_all add: mem_ops_def)

lemma load_store_dead [effect_simps]:
  "\<not> alive h p \<Longrightarrow> load_next h p = None"
  "\<not> alive h p \<Longrightarrow> load_prev h p = None"
  "\<not> alive h p \<Longrightarrow> load_data h p = None"
  "\<not> alive h p \<Longrightarrow> store_next h p q = None"
  "\<not> alive h p \<Longrightarrow> store_prev h p q = None"
  "\<not> alive h p \<Longrightarrow> store_data h p x = None"
  "\<not> alive h p \<Longrightarrow> p \<noteq> null \<Longrightarrow> delete_node h p = None"
  by (simp_all add: mem_ops_def)

text \<open>The release loops of the sources, \<open>while (node != stop) { next = node->next; delete
  node; node = next; }\<close>.\<close>

partial_function (option) delete_until :: "'a mem \<Rightarrow> addr \<Rightarrow> addr \<Rightarrow> 'a mem option" where
  "delete_until h node stop =
     (if node = stop then Some h
      else do {
        nx \<leftarrow> load_next h node;
        h1 \<leftarrow> delete_node h node;
        delete_until h1 nx stop
      })"

declare delete_until.simps [code]

lemma delete_until_same [simp]: "delete_until h p p = Some h"
  by (simp add: delete_until.simps)

text \<open>Null is never allocated and every allocated address is below the break.\<close>

definition mem_ok :: "'a mem \<Rightarrow> bool" where
  "mem_ok h \<longleftrightarrow> 0 < brk h \<and> (\<forall>p. alive h p \<longrightarrow> 0 < p \<and> p < brk h)"

lemma mem_ok_empty [simp]: "mem_ok empty_mem"
  by (simp add: mem_ok_def empty_mem_def)

lemma mem_ok_not_null: "mem_ok h \<Longrightarrow> alive h p \<Longrightarrow> p \<noteq> null"
  by (auto simp: mem_ok_def)

lemma mem_ok_not_brk: "mem_ok h \<Longrightarrow> alive h p \<Longrightarrow> p \<noteq> brk h"
  by (auto simp: mem_ok_def)

subsection \<open>Doubly linked address sequences\<close>

fun linked :: "(addr \<Rightarrow> addr) \<Rightarrow> (addr \<Rightarrow> addr) \<Rightarrow> addr list \<Rightarrow> bool" where
  "linked nx pv (x # y # zs) \<longleftrightarrow> nx x = y \<and> pv y = x \<and> linked nx pv (y # zs)"
| "linked nx pv _ \<longleftrightarrow> True"

lemma linked_Cons:
  "linked nx pv (x # xs) \<longleftrightarrow>
    (xs \<noteq> [] \<longrightarrow> nx x = hd xs \<and> pv (hd xs) = x \<and> linked nx pv xs)"
  by (cases xs) auto

lemma linked_append:
  "linked nx pv (xs @ y # ys) \<longleftrightarrow> linked nx pv (xs @ [y]) \<and> linked nx pv (y # ys)"
proof (induction xs)
  case (Cons x xs)
  then show ?case by (cases xs) auto
qed simp

lemma linked_snoc:
  "linked nx pv (ys @ [z]) \<longleftrightarrow> linked nx pv ys \<and> (ys \<noteq> [] \<longrightarrow> nx (last ys) = z \<and> pv z = last ys)"
proof (induction ys)
  case (Cons y ys)
  then show ?case by (cases ys) auto
qed simp

lemma linked_cong:
  assumes "\<forall>a\<in>set (butlast xs). nx' a = nx a" "\<forall>a\<in>set (tl xs). pv' a = pv a"
  shows "linked nx' pv' xs \<longleftrightarrow> linked nx pv xs"
  using assms
proof (induction xs)
  case (Cons x xs)
  then show ?case by (cases xs) (auto split: if_splits)
qed simp

lemma linked_nth:
  assumes "linked nx pv xs" "Suc i < length xs"
  shows "nx (xs ! i) = xs ! Suc i \<and> pv (xs ! Suc i) = xs ! i"
  using assms
proof (induction xs arbitrary: i)
  case (Cons x xs)
  then show ?case by (cases xs; cases i) auto
qed simp

text \<open>Two halves of a sequence that meet at \<open>x\<close>: distinct but for the ends, so that the
  same lemmas serve a chain (all addresses distinct) and a ring (the sentry at both ends).\<close>

definition halves :: "addr list \<Rightarrow> addr list \<Rightarrow> bool" where
  "halves as bs \<longleftrightarrow> distinct as \<and> distinct bs \<and> set (tl as) \<inter> set bs = {} \<and>
     set as \<inter> set (butlast bs) = {}"

lemma halves_distinct: "distinct (as @ bs) \<Longrightarrow> halves as bs"
  unfolding halves_def by (cases as) (auto dest: in_set_butlastD)

lemma linked_insert:
  assumes l: "linked nx pv (xs @ x # ys)" and d: "halves (xs @ [x]) ys"
    and n: "n \<notin> set (xs @ x # ys)"
    and nx: "nx' x = n" "ys \<noteq> [] \<Longrightarrow> nx' n = hd ys"
      "\<And>a. a \<in> set (xs @ ys) \<Longrightarrow> a \<noteq> x \<Longrightarrow> nx' a = nx a"
    and pv: "pv' n = x" "ys \<noteq> [] \<Longrightarrow> pv' (hd ys) = n"
      "\<And>a. a \<in> set (xs @ x # ys) \<Longrightarrow> (ys \<noteq> [] \<Longrightarrow> a \<noteq> hd ys) \<Longrightarrow> pv' a = pv a"
  shows "linked nx' pv' (xs @ x # n # ys)"
proof -
  have l1: "linked nx pv (xs @ [x])" and l2: "linked nx pv (x # ys)"
    using l by (simp_all add: linked_append [of _ _ xs x ys])
  have "nx' a = nx a" if "a \<in> set xs" for a
    using that d by (intro nx(3)) (auto simp: halves_def)
  moreover have "pv' a = pv a" if a: "a \<in> set (tl (xs @ [x]))" for a
  proof (rule pv(3))
    have "a \<in> set (xs @ [x])" using a list.set_sel(2) [of "xs @ [x]" a] by simp
    then show "a \<in> set (xs @ x # ys)" by auto
    show "a \<noteq> hd ys" if "ys \<noteq> []"
      using a d that hd_in_set [of ys] by (auto simp: halves_def)
  qed
  ultimately have left: "linked nx' pv' (xs @ [x])"
    using l1 linked_cong [of "xs @ [x]" nx' nx pv' pv] by simp
  have right: "linked nx' pv' (n # ys)"
  proof (cases ys)
    case (Cons y zs)
    have "\<forall>a\<in>set (butlast (y # zs)). nx' a = nx a"
      using d Cons by (auto simp: halves_def intro!: nx(3) dest: in_set_butlastD split: if_splits)
    moreover have "\<forall>a\<in>set (tl (y # zs)). pv' a = pv a"
      using d Cons by (auto simp: halves_def intro!: pv(3))
    ultimately have "linked nx' pv' (y # zs)"
      using l2 Cons linked_cong [of "y # zs" nx' nx pv' pv] by simp
    then show ?thesis using nx(2) pv(2) Cons by simp
  qed simp
  show ?thesis
    using left right nx(1) pv(1) by (simp add: linked_append [of _ _ xs x "n # ys"])
qed

lemma linked_remove:
  assumes l: "linked nx pv (xs @ x # n # ys)" and d: "halves (xs @ [x]) ys"
    and nx: "ys \<noteq> [] \<Longrightarrow> nx' x = hd ys" "\<And>a. a \<in> set (xs @ ys) \<Longrightarrow> a \<noteq> x \<Longrightarrow> nx' a = nx a"
    and pv: "ys \<noteq> [] \<Longrightarrow> pv' (hd ys) = x"
      "\<And>a. a \<in> set (xs @ x # ys) \<Longrightarrow> (ys \<noteq> [] \<Longrightarrow> a \<noteq> hd ys) \<Longrightarrow> pv' a = pv a"
  shows "linked nx' pv' (xs @ x # ys)"
proof -
  have l1: "linked nx pv (xs @ [x])" and l2: "linked nx pv (x # n # ys)"
    using l by (simp_all add: linked_append [of _ _ xs x "n # ys"])
  have "nx' a = nx a" if "a \<in> set xs" for a
    using that d by (intro nx(2)) (auto simp: halves_def)
  moreover have "pv' a = pv a" if a: "a \<in> set (tl (xs @ [x]))" for a
  proof (rule pv(2))
    have "a \<in> set (xs @ [x])" using a list.set_sel(2) [of "xs @ [x]" a] by simp
    then show "a \<in> set (xs @ x # ys)" by auto
    show "a \<noteq> hd ys" if "ys \<noteq> []"
      using a d that hd_in_set [of ys] by (auto simp: halves_def)
  qed
  ultimately have left: "linked nx' pv' (xs @ [x])"
    using l1 linked_cong [of "xs @ [x]" nx' nx pv' pv] by simp
  have right: "linked nx' pv' (x # ys)"
  proof (cases ys)
    case (Cons y zs)
    have "\<forall>a\<in>set (butlast (y # zs)). nx' a = nx a"
      using d Cons by (auto simp: halves_def intro!: nx(2) dest: in_set_butlastD split: if_splits)
    moreover have "\<forall>a\<in>set (tl (y # zs)). pv' a = pv a"
      using d Cons by (auto simp: halves_def intro!: pv(2))
    ultimately have "linked nx' pv' (y # zs)"
      using l2 Cons linked_cong [of "y # zs" nx' nx pv' pv] by simp
    then show ?thesis using nx(1) pv(1) Cons by simp
  qed simp
  show ?thesis
    using left right by (simp add: linked_append [of _ _ xs x ys])
qed

subsection \<open>Chains: a head node, data nodes, a null pointer at the end\<close>

text \<open>\<open>chain h hn as xs\<close>: from the head node \<open>hn\<close> the nodes \<open>as\<close> follow in both
  directions, the last one points to null, and they hold the values \<open>xs\<close>.\<close>

definition chain :: "'a mem \<Rightarrow> addr \<Rightarrow> addr list \<Rightarrow> 'a list \<Rightarrow> bool" where
  "chain h hn as xs \<longleftrightarrow> mem_ok h \<and> distinct (hn # as) \<and> (\<forall>a\<in>set (hn # as). alive h a) \<and>
     linked (nextOf h) (prevOf h) (hn # as) \<and> nextOf h (last (hn # as)) = null \<and>
     map (dataOf h) as = map Some xs"

lemma chain_mem_ok: "chain h hn as xs \<Longrightarrow> mem_ok h"
  by (simp add: chain_def)

lemma chain_length: "chain h hn as xs \<Longrightarrow> length xs = length as"
  by (auto simp: chain_def dest: map_eq_map_Some_length)

lemma chain_alive: "chain h hn as xs \<Longrightarrow> a \<in> set (hn # as) \<Longrightarrow> alive h a"
  by (auto simp: chain_def)

lemma chain_alive_hd: "chain h hn as xs \<Longrightarrow> alive h hn"
  by (simp add: chain_def)

lemma chain_not_null: "chain h hn as xs \<Longrightarrow> a \<in> set (hn # as) \<Longrightarrow> a \<noteq> null"
  by (metis chain_alive chain_mem_ok mem_ok_not_null)

lemma chain_nth_node: "chain h hn as xs \<Longrightarrow> i < length as \<Longrightarrow> alive h (as ! i) \<and> 0 < as ! i"
  using chain_alive [of h hn as xs "as ! i"] chain_not_null [of h hn as xs "as ! i"] by simp

lemma chain_nth_data: "chain h hn as xs \<Longrightarrow> i < length as \<Longrightarrow> dataOf h (as ! i) = Some (xs ! i)"
  by (auto simp: chain_def dest: map_eq_map_Some_nth)

lemma chain_nth_next:
  "chain h hn as xs \<Longrightarrow> i < length as \<Longrightarrow>
    nextOf h (as ! i) = (if Suc i < length as then as ! Suc i else null)"
proof -
  assume c: "chain h hn as xs" and i: "i < length as"
  show ?thesis
  proof (cases "Suc i < length as")
    case True
    then show ?thesis
      using c linked_nth [of "nextOf h" "prevOf h" "hn # as" "Suc i"] by (simp add: chain_def)
  next
    case False
    then have "i = length as - 1" "as \<noteq> []" using i by auto
    then show ?thesis using c False by (simp add: chain_def last_conv_nth)
  qed
qed

lemma chain_nth_prev:
  "chain h hn as xs \<Longrightarrow> i < length as \<Longrightarrow>
    prevOf h (as ! i) = (if i = 0 then hn else as ! (i - 1))"
  using linked_nth [of "nextOf h" "prevOf h" "hn # as" i]
  by (cases i) (auto simp: chain_def)

lemma chain_hd_next: "chain h hn as xs \<Longrightarrow> nextOf h hn = (if as = [] then null else as ! 0)"
  by (cases as) (auto simp: chain_def)

text \<open>A chain depends on its own nodes only.\<close>

lemma chain_frame:
  assumes "chain h hn as xs" "mem_ok h'"
    and "\<And>a. a \<in> set (hn # as) \<Longrightarrow> alive h' a \<and> nextOf h' a = nextOf h a \<and>
      prevOf h' a = prevOf h a \<and> dataOf h' a = dataOf h a"
  shows "chain h' hn as xs"
proof -
  have "linked (nextOf h') (prevOf h') (hn # as)"
    by (rule linked_cong [THEN iffD2, of _ _ "nextOf h" _ "prevOf h"])
      (use assms in \<open>auto simp: chain_def dest: in_set_butlastD split: if_splits\<close>)
  moreover have "map (dataOf h') as = map (dataOf h) as" using assms by simp
  then have "map (dataOf h') as = map Some xs" using assms(1) by (simp only: chain_def)
  ultimately show ?thesis using assms by (simp add: chain_def)
qed

lemma chain_new_node:
  assumes "chain h hn as xs"
  shows "chain (snd (new_node h)\<lparr>dataOf := (dataOf (snd (new_node h)))(brk h := d)\<rparr>) hn as xs"
proof (rule chain_frame [OF assms])
  show "mem_ok (snd (new_node h)\<lparr>dataOf := (dataOf (snd (new_node h)))(brk h := d)\<rparr>)"
    using chain_mem_ok [OF assms] by (auto simp: mem_ok_def new_node_def less_Suc_eq)
  fix a assume a: "a \<in> set (hn # as)"
  then have "a \<noteq> brk h" using assms by (metis chain_alive chain_mem_ok mem_ok_not_brk)
  then show "alive (snd (new_node h)\<lparr>dataOf := (dataOf (snd (new_node h)))(brk h := d)\<rparr>) a \<and>
      nextOf (snd (new_node h)\<lparr>dataOf := (dataOf (snd (new_node h)))(brk h := d)\<rparr>) a = nextOf h a \<and>
      prevOf (snd (new_node h)\<lparr>dataOf := (dataOf (snd (new_node h)))(brk h := d)\<rparr>) a = prevOf h a \<and>
      dataOf (snd (new_node h)\<lparr>dataOf := (dataOf (snd (new_node h)))(brk h := d)\<rparr>) a = dataOf h a"
    using chain_alive [OF assms a] by (simp add: new_node_def)
qed

text \<open>A node fresh in the heap: where \<open>new\<close> put it.\<close>

lemma fresh_not_in: "chain h hn as xs \<Longrightarrow> brk h \<notin> set (hn # as)"
  by (metis chain_alive chain_mem_ok mem_ok_not_brk)

lemma mem_ok_new: "mem_ok h \<Longrightarrow> mem_ok (snd (new_node h))"
  by (auto simp: mem_ok_def new_node_def less_Suc_eq)

text \<open>Inserting a node: \<open>n\<close> goes between node \<open>i\<close> of \<open>hn # as\<close> and what
  followed it.  The premises are the loads of the new heap, so that any order of the stores
  satisfies them.\<close>

lemma chain_insert_node:
  assumes c: "chain h hn as xs" and i: "i \<le> length as" and n: "n \<notin> set (hn # as)"
    and ok: "mem_ok h'" and al: "\<And>a. a \<in> set (n # hn # as) \<Longrightarrow> alive h' a"
    and nx: "nextOf h' ((hn # as) ! i) = n"
      "nextOf h' n = (if i < length as then as ! i else null)"
      "\<And>a. a \<in> set (hn # as) \<Longrightarrow> a \<noteq> (hn # as) ! i \<Longrightarrow> nextOf h' a = nextOf h a"
    and pv: "prevOf h' n = (hn # as) ! i" "i < length as \<Longrightarrow> prevOf h' (as ! i) = n"
      "\<And>a. a \<in> set (hn # as) \<Longrightarrow> (i < length as \<Longrightarrow> a \<noteq> as ! i) \<Longrightarrow>
        prevOf h' a = prevOf h a"
    and dt: "dataOf h' n = Some v" "\<And>a. a \<in> set as \<Longrightarrow> dataOf h' a = dataOf h a"
  shows "chain h' hn (take i as @ n # drop i as) (take i xs @ v # drop i xs)"
proof -
  let ?L = "hn # as"
  have L: "take i ?L @ ?L ! i # drop i as = ?L"
    using i id_take_nth_drop [of i ?L] by simp
  have dist: "distinct ?L" and lk: "linked (nextOf h) (prevOf h) ?L"
    using c by (auto simp: chain_def)
  have "linked (nextOf h') (prevOf h') (take i ?L @ ?L ! i # n # drop i as)"
  proof (rule linked_insert [of "nextOf h" "prevOf h"])
    show "linked (nextOf h) (prevOf h) (take i ?L @ ?L ! i # drop i as)"
      using lk L by simp
    show "halves (take i ?L @ [?L ! i]) (drop i as)"
      by (rule halves_distinct) (use dist L in simp)
    show "n \<notin> set (take i ?L @ ?L ! i # drop i as)"
      unfolding L by (rule n)
    show "nextOf h' (?L ! i) = n" by (rule nx(1))
    show "nextOf h' n = hd (drop i as)" if "drop i as \<noteq> []"
      using that nx(2) i by (simp add: hd_drop_conv_nth)
    show "nextOf h' a = nextOf h a" if "a \<in> set (take i ?L @ drop i as)" "a \<noteq> ?L ! i" for a
      using that L by (intro nx(3)) (metis Un_iff set_append set_ConsD list.set_intros(2))
    show "prevOf h' n = ?L ! i" by (rule pv(1))
    show "prevOf h' (hd (drop i as)) = n" if "drop i as \<noteq> []"
      using that pv(2) i by (simp add: hd_drop_conv_nth)
    show "prevOf h' a = prevOf h a"
      if "a \<in> set (take i ?L @ ?L ! i # drop i as)" "drop i as \<noteq> [] \<Longrightarrow> a \<noteq> hd (drop i as)" for a
      using that L by (intro pv(3)) (auto simp: hd_drop_conv_nth)
  qed
  moreover have "take i ?L @ ?L ! i # n # drop i as = hn # (take i as @ n # drop i as)"
  proof -
    have "take i ?L @ [?L ! i] = hn # take i as"
      using i by (simp add: take_Suc_conv_app_nth [symmetric])
    then have "(take i ?L @ [?L ! i]) @ n # drop i as = (hn # take i as) @ n # drop i as" by simp
    then show ?thesis by simp
  qed
  moreover have "distinct (hn # (take i as @ n # drop i as))"
    using dist n by (auto simp: set_take_disj_set_drop_if_distinct dest: in_set_takeD in_set_dropD)
  moreover have "nextOf h' (last (hn # (take i as @ n # drop i as))) = null"
  proof (cases "i < length as")
    case True
    then have ne: "drop i as \<noteq> []" by simp
    then have m: "last (drop i as) \<in> set (drop i as)" by (rule last_in_set)
    have d: "distinct (take i ?L @ ?L ! i # drop i as)" using dist L by simp
    have "last ?L = last (drop i as)" by (subst L [symmetric]) (use ne in simp)
    moreover have "nextOf h' (last (drop i as)) = nextOf h (last (drop i as))"
      by (rule nx(3)) (use m d in \<open>auto dest: in_set_dropD\<close>)
    ultimately show ?thesis using c ne by (simp add: chain_def)
  next
    case False
    then show ?thesis using nx(2) by simp
  qed
  moreover have "map (dataOf h') (take i as @ n # drop i as) =
      map Some (take i xs @ v # drop i xs)"
  proof -
    have "map (dataOf h') as = map (dataOf h) as" using dt(2) by simp
    also have "\<dots> = map Some xs" using c by (simp add: chain_def)
    finally have "map (dataOf h') as = map Some xs" .
    then show ?thesis using dt(1) by (simp add: take_map [symmetric] drop_map [symmetric])
  qed
  ultimately show ?thesis
    using ok al by (auto simp: chain_def dest: in_set_takeD in_set_dropD)
qed

lemma chain_distinct_nth:
  "chain h hn as xs \<Longrightarrow> i < length as \<Longrightarrow> j < length as \<Longrightarrow> as ! i = as ! j \<longleftrightarrow> i = j"
  by (auto simp: chain_def nth_eq_iff_index_eq)

lemma chain_hd_neq: "chain h hn as xs \<Longrightarrow> i < length as \<Longrightarrow> as ! i \<noteq> hn"
  by (auto simp: chain_def)

lemma chain_pred_neq: "chain h hn as xs \<Longrightarrow> i < length as \<Longrightarrow> (hn # as) ! i \<noteq> as ! i"
  using nth_eq_iff_index_eq [of "hn # as" i "Suc i"] by (simp add: chain_def)

lemma chain_remove_node:
  assumes c: "chain h hn as xs" and i: "i < length as"
    and ok: "mem_ok h'" and al: "\<And>a. a \<in> set (hn # as) \<Longrightarrow> a \<noteq> as ! i \<Longrightarrow> alive h' a"
    and nx: "nextOf h' ((hn # as) ! i) = (if Suc i < length as then as ! Suc i else null)"
      "\<And>a. a \<in> set (hn # as) \<Longrightarrow> a \<noteq> (hn # as) ! i \<Longrightarrow> a \<noteq> as ! i \<Longrightarrow>
        nextOf h' a = nextOf h a"
    and pv: "Suc i < length as \<Longrightarrow> prevOf h' (as ! Suc i) = (hn # as) ! i"
      "\<And>a. a \<in> set (hn # as) \<Longrightarrow> a \<noteq> as ! i \<Longrightarrow> (Suc i < length as \<Longrightarrow> a \<noteq> as ! Suc i) \<Longrightarrow>
        prevOf h' a = prevOf h a"
    and dt: "\<And>a. a \<in> set as \<Longrightarrow> a \<noteq> as ! i \<Longrightarrow> dataOf h' a = dataOf h a"
  shows "chain h' hn (take i as @ drop (Suc i) as) (take i xs @ drop (Suc i) xs)"
proof -
  let ?L = "hn # as" and ?x = "(hn # as) ! i" and ?n = "as ! i" and ?ys = "drop (Suc i) as"
  have L: "take i ?L @ ?x # ?n # ?ys = ?L"
    using i id_take_nth_drop [of i ?L] by (simp add: Cons_nth_drop_Suc)
  have Ls: "set ?L = set (take i ?L @ ?x # ?ys) \<union> {?n}"
    by (subst L [symmetric]) auto
  have dist: "distinct ?L" and lk: "linked (nextOf h) (prevOf h) ?L"
    using c by (auto simp: chain_def)
  have "distinct (take i ?L @ ?x # ?n # ?ys)" using dist L by simp
  then have dn: "?n \<notin> set (take i ?L @ ?x # ?ys)" and d2: "distinct (take i ?L @ ?x # ?ys)"
    by auto
  have "linked (nextOf h') (prevOf h') (take i ?L @ ?x # ?ys)"
  proof (rule linked_remove [of "nextOf h" "prevOf h" _ _ ?n])
    show "linked (nextOf h) (prevOf h) (take i ?L @ ?x # ?n # ?ys)"
      using lk L by simp
    show "halves (take i ?L @ [?x]) ?ys"
      by (rule halves_distinct) (use d2 in simp)
    show "nextOf h' ?x = hd ?ys" if "?ys \<noteq> []"
      using that nx(1) by (simp add: hd_drop_conv_nth)
    show "nextOf h' a = nextOf h a" if "a \<in> set (take i ?L @ ?ys)" "a \<noteq> ?x" for a
      using that dn Ls by (intro nx(2)) auto
    show "prevOf h' (hd ?ys) = ?x" if "?ys \<noteq> []"
      using that pv(1) by (simp add: hd_drop_conv_nth)
    show "prevOf h' a = prevOf h a"
      if "a \<in> set (take i ?L @ ?x # ?ys)" "?ys \<noteq> [] \<Longrightarrow> a \<noteq> hd ?ys" for a
      using that dn Ls by (intro pv(2)) (auto simp: hd_drop_conv_nth)
  qed
  moreover have seq: "take i ?L @ ?x # ?ys = hn # (take i as @ ?ys)"
  proof -
    have "take i ?L @ [?x] = hn # take i as"
      using i by (simp add: take_Suc_conv_app_nth [symmetric])
    then have "(take i ?L @ [?x]) @ ?ys = (hn # take i as) @ ?ys" by simp
    then show ?thesis by simp
  qed
  moreover have "nextOf h' (last (hn # (take i as @ ?ys))) = null"
  proof (cases "Suc i < length as")
    case True
    then have ne: "?ys \<noteq> []" by simp
    then have m: "last ?ys \<in> set ?ys" by (rule last_in_set)
    have "last ?L = last ?ys" by (subst L [symmetric]) (use ne in simp)
    moreover have "nextOf h' (last ?ys) = nextOf h (last ?ys)"
      by (rule nx(2)) (use m d2 dn in \<open>auto dest: in_set_dropD\<close>)
    ultimately show ?thesis using c ne by (simp add: chain_def)
  next
    case False
    then have "?ys = []" by simp
    then have "last (hn # (take i as @ ?ys)) = ?x"
      using i by (cases i) (auto simp: take_Suc_conv_app_nth)
    then show ?thesis using nx(1) False by simp
  qed
  moreover have "map (dataOf h') (take i as @ ?ys) = map Some (take i xs @ drop (Suc i) xs)"
  proof -
    have "map (dataOf h') (take i as @ ?ys) = map (dataOf h) (take i as @ ?ys)"
      using dn seq dt by (auto dest: in_set_takeD in_set_dropD)
    also have "\<dots> = map Some (take i xs @ drop (Suc i) xs)"
      using c by (simp add: chain_def take_map drop_map flip: map_append) (metis take_map drop_map map_append)
    finally show ?thesis .
  qed
  moreover have "alive h' a" if "a \<in> set (hn # (take i as @ ?ys))" for a
    using that [folded seq] dn Ls by (intro al) blast+
  ultimately show ?thesis
    using ok d2 unfolding seq by (simp add: chain_def)
qed

lemma chain_alive_upd:
  "mem_ok h \<Longrightarrow> mem_ok (h\<lparr>alive := (alive h)(p := False)\<rparr>)"
  by (auto simp: mem_ok_def)

text \<open>Releasing a linked sequence up to the node or null pointer \<open>z\<close> behind it leaves
  exactly its nodes dead.\<close>

lemma delete_until_seg:
  assumes "distinct as" "\<forall>a\<in>set as. alive h a" "mem_ok h" "linked (nextOf h) (prevOf h) as"
    "as \<noteq> [] \<Longrightarrow> nextOf h (last as) = z" "z \<notin> set as"
  shows "delete_until h (if as = [] then z else hd as) z =
    Some (h\<lparr>alive := (\<lambda>a. a \<notin> set as \<and> alive h a)\<rparr>)"
  using assms
proof (induction as arbitrary: h)
  case Nil
  then show ?case by (simp add: delete_until.simps)
next
  case (Cons a as)
  let ?h = "h\<lparr>alive := (alive h)(a := False)\<rparr>"
  have a: "alive h a" "0 < a" "a \<noteq> z" using Cons.prems by (auto dest: mem_ok_not_null)
  have nx: "nextOf h a = (if as = [] then z else hd as)"
    using Cons.prems by (cases as) auto
  have "delete_until ?h (if as = [] then z else hd as) z =
      Some (?h\<lparr>alive := (\<lambda>b. b \<notin> set as \<and> alive ?h b)\<rparr>)"
    using Cons.prems by (intro Cons.IH) (auto simp: linked_Cons chain_alive_upd split: if_splits)
  then show ?case
    using a nx by (subst delete_until.simps) (auto simp: effect_simps fun_eq_iff)
qed

lemma linked_drop: "linked nx pv as \<Longrightarrow> linked nx pv (drop i as)"
proof (induction i arbitrary: as)
  case (Suc i)
  then show ?case by (cases as) (auto simp: linked_Cons)
qed simp

lemma linked_take: "linked nx pv as \<Longrightarrow> linked nx pv (take i as)"
proof (induction i arbitrary: as)
  case (Suc i)
  then show ?case by (cases as) (auto simp del: linked.simps simp add: linked_Cons hd_take)
qed simp

text \<open>Cutting a chain after node \<open>i\<close> of \<open>hn # as\<close>.\<close>

lemma chain_truncate:
  assumes c: "chain h hn as xs" and i: "i \<le> length as" and ok: "mem_ok h'"
    and al: "\<And>a. a \<in> set (hn # take i as) \<Longrightarrow> alive h' a \<and> dataOf h' a = dataOf h a \<and>
      prevOf h' a = prevOf h a"
    and nx: "nextOf h' ((hn # as) ! i) = null"
      "\<And>a. a \<in> set (hn # take i as) \<Longrightarrow> a \<noteq> (hn # as) ! i \<Longrightarrow> nextOf h' a = nextOf h a"
  shows "chain h' hn (take i as) (take i xs)"
proof -
  have d: "distinct (hn # take i as)" using c by (auto simp: chain_def dest: in_set_takeD)
  have la: "last (hn # take i as) = (hn # as) ! i"
    using i by (cases i) (auto simp: last_conv_nth)
  have "linked (nextOf h) (prevOf h) (take (Suc i) (hn # as))"
    using c linked_take [of _ _ "hn # as" "Suc i"] by (simp add: chain_def)
  then have "linked (nextOf h') (prevOf h') (hn # take i as)"
  proof (subst linked_cong [of _ "nextOf h'" "nextOf h" "prevOf h'" "prevOf h"])
    show "\<forall>a\<in>set (butlast (hn # take i as)). nextOf h' a = nextOf h a"
    proof
      fix a assume a: "a \<in> set (butlast (hn # take i as))"
      have "distinct (butlast (hn # take i as) @ [last (hn # take i as)])"
        using d by (metis append_butlast_last_id list.distinct(1))
      then have "a \<noteq> (hn # as) ! i" using a la by auto
      then show "nextOf h' a = nextOf h a" using a nx(2) by (blast dest: in_set_butlastD)
    qed
    show "\<forall>a\<in>set (tl (hn # take i as)). prevOf h' a = prevOf h a" using al by simp
  qed simp
  moreover have "map (dataOf h') (take i as) = map (dataOf h) (take i as)" using al by simp
  then have "map (dataOf h') (take i as) = map Some (take i xs)"
    using c by (simp only: chain_def take_map [symmetric])
  ultimately show ?thesis using d ok al nx(1) la by (simp add: chain_def)
qed

lemma chain_nth_last:
  assumes "chain h hn as xs" "i < length as"
  shows "as ! i = last as \<longleftrightarrow> Suc i = length as"
proof -
  have "last as = as ! (length as - 1)" using assms(2) by (intro last_conv_nth) auto
  then show ?thesis using chain_distinct_nth [OF assms, of "length as - 1"] assms(2) by auto
qed

text \<open>The nodes of a chain are determined by its links.\<close>

lemma linked_unique:
  assumes "linked nx pv (c # cs)" "linked nx pv' (c # ds)"
    "nx (last (c # cs)) = null" "nx (last (c # ds)) = null" "null \<notin> set cs" "null \<notin> set ds"
  shows "cs = ds"
  using assms
proof (induction cs arbitrary: c ds)
  case Nil
  then show ?case by (cases ds) (simp_all add: linked_Cons)
next
  case (Cons x cs)
  obtain y ds' where ds: "ds = y # ds'" using Cons.prems by (cases ds) (auto simp: linked_Cons)
  then have "y = x" using Cons.prems by (simp add: linked_Cons)
  moreover have "cs = ds'"
    by (rule Cons.IH [of x]) (use Cons.prems ds \<open>y = x\<close> in \<open>simp_all add: linked_Cons\<close>)
  ultimately show ?case using ds by simp
qed

lemma chain_unique:
  assumes "chain h hn as xs" "chain h hn bs ys"
  shows "as = bs"
proof -
  have "null \<notin> set as" "null \<notin> set bs"
    using chain_not_null [OF assms(1), of null] chain_not_null [OF assms(2), of null] by auto
  then show ?thesis
    by (rule linked_unique [of "nextOf h" "prevOf h" hn as "prevOf h" bs, rotated 4])
      (use assms in \<open>simp_all only: chain_def\<close>)
qed

end
