(* ===== verification/Sequence.thy ===== *)
theory Sequence
  imports Prelude "HOL-Library.Signed_Division"
begin

text \<open>
  The interface that the function template \<open>verify\<close> of Data Structure/DataStructure/
  DataStructure.cpp demands of a container, and \<open>verify\<close> itself: it applies one script of
  random operations to two containers and compares what they hold.  \<open>List\<close> and
  \<open>Vector\<close> both provide the interface; theories ListHpp and VectorHpp interpret the locales
  below on their models.
\<close>

text \<open>The members of the template parameter.  An iterator that is dereferenced or advanced
  outside its container is undefined behaviour.\<close>

record ('s, 'i, 'a) container =
  op_size :: "'s \<Rightarrow> uint"
  op_append :: "'s \<Rightarrow> 'a \<Rightarrow> 's outcome"
  op_insert :: "'s \<Rightarrow> uint \<Rightarrow> 'a \<Rightarrow> 's outcome"
  op_removeAt :: "'s \<Rightarrow> uint \<Rightarrow> 's outcome"
  op_begin :: "'s \<Rightarrow> 'i option"
  op_end :: "'s \<Rightarrow> 'i option"
  op_ne :: "'s \<Rightarrow> 'i \<Rightarrow> 'i \<Rightarrow> bool option"
  op_deref :: "'s \<Rightarrow> 'i \<Rightarrow> 'a option"
  op_incr :: "'s \<Rightarrow> 'i \<Rightarrow> 'i option"

subsection \<open>verify\<close>

text \<open>One round of the first loop, for the random \<open>number\<close> (an \<open>int\<close>; a comparison
  with \<open>size()\<close> and a position argument convert it to \<open>uint\<close>).\<close>

definition verify_step :: "('s, 'i, int) container \<Rightarrow> ('t, 'j, int) container \<Rightarrow> int \<Rightarrow>
    's \<times> 't \<Rightarrow> ('s \<times> 't) outcome" where
  "verify_step c1 c2 number = (\<lambda>(t1, t2).
     if number smod 3 = 0 then
       bind_outcome (op_append c1 t1 number) (\<lambda>t1.
       bind_outcome (op_append c2 t2 number) (\<lambda>t2. Some (Inr (t1, t2))))
     else if number smod 3 = 1 \<and> word_of_int number < op_size c2 t2 then
       bind_outcome (op_insert c1 t1 (word_of_int number) number) (\<lambda>t1.
       bind_outcome (op_insert c2 t2 (word_of_int number) number) (\<lambda>t2. Some (Inr (t1, t2))))
     else if word_of_int number < op_size c2 t2 then
       bind_outcome (op_removeAt c1 t1 (word_of_int number)) (\<lambda>t1.
       bind_outcome (op_removeAt c2 t2 (word_of_int number)) (\<lambda>t2. Some (Inr (t1, t2))))
     else Some (Inr (t1, t2)))"

fun verify_loop :: "('s, 'i, int) container \<Rightarrow> ('t, 'j, int) container \<Rightarrow> int list \<Rightarrow>
    's \<times> 't \<Rightarrow> ('s \<times> 't) outcome" where
  "verify_loop c1 c2 [] t = Some (Inr t)"
| "verify_loop c1 c2 (number # rng) t = bind_outcome (verify_step c1 c2 number t) (verify_loop c1 c2 rng)"

text \<open>The second loop counts the \<open>Value !=\<close> messages it prints.\<close>

partial_function (option) verify_compare :: "('s, 'i, int) container \<Rightarrow> ('t, 'j, int) container \<Rightarrow>
    's \<Rightarrow> 't \<Rightarrow> 'i \<Rightarrow> 'j \<Rightarrow> nat option" where
  "verify_compare c1 c2 t1 t2 it1 it2 = do {
     e \<leftarrow> op_end c1 t1;
     go \<leftarrow> op_ne c1 t1 it1 e;
     if go then do {
       value1 \<leftarrow> op_deref c1 t1 it1;
       value2 \<leftarrow> op_deref c2 t2 it2;
       it1 \<leftarrow> op_incr c1 t1 it1;
       it2 \<leftarrow> op_incr c2 t2 it2;
       n \<leftarrow> verify_compare c1 c2 t1 t2 it1 it2;
       Some (if value1 \<noteq> value2 then Suc n else n)
     } else Some 0
   }"

declare verify_compare.simps [code]

text \<open>What \<open>verify\<close> prints: \<open>size != \<close>, or the number of differing values.\<close>

datatype verdict = SizeDiffers | Compared nat

text \<open>The random generator is the list of the numbers it draws, one per round.\<close>

definition verify :: "('s, 'i, int) container \<Rightarrow> ('t, 'j, int) container \<Rightarrow> int list \<Rightarrow>
    's \<times> 't \<Rightarrow> (('s \<times> 't) \<times> verdict) outcome" where
  "verify c1 c2 rng t = bind_outcome (verify_loop c1 c2 rng t) (\<lambda>(t1, t2).
     if op_size c1 t1 \<noteq> op_size c2 t2 then Some (Inr ((t1, t2), SizeDiffers))
     else do {
       it1 \<leftarrow> op_begin c1 t1;
       it2 \<leftarrow> op_begin c2 t2;
       n \<leftarrow> verify_compare c1 c2 t1 t2 it1 it2;
       Some (Inr ((t1, t2), Compared n))
     })"

text \<open>The same script on a mathematical list.\<close>

definition script_step :: "int \<Rightarrow> int list \<Rightarrow> int list" where
  "script_step number xs =
     (if number smod 3 = 0 then xs @ [number]
      else if unat (word_of_int number :: uint) < length xs then
        (let i = unat (word_of_int number :: uint) in
         if number smod 3 = 1 then take i xs @ number # drop i xs
         else take i xs @ drop (Suc i) xs)
      else xs)"

definition script :: "int list \<Rightarrow> int list \<Rightarrow> int list" where
  "script rng xs = fold script_step rng xs"

lemma script_simps [simp]:
  "script [] xs = xs" "script (n # rng) xs = script rng (script_step n xs)"
  by (simp_all add: script_def)

lemma script_step_length: "length (script_step n xs) \<le> Suc (length xs)"
  by (auto simp: script_step_def Let_def)

lemma insert_pos:
  assumes "number smod 3 = 1" "0 \<le> number" "number < 2147483648"
  shows "0 < unat (word_of_int number :: uint)"
proof -
  have "number \<noteq> 0" using assms(1) by (auto simp: signed_modulo_int_def)
  then show ?thesis
    using assms(2,3) by (simp add: unsigned_of_int take_bit_int_eq_self)
qed

subsection \<open>The interface\<close>

text \<open>\<open>at s it i\<close>: the iterator \<open>it\<close> of \<open>s\<close> stands at element \<open>i\<close>, or behind
  the last one.\<close>

locale sequence =
  fixes ops :: "('s, 'i, 'a) container"
    and rep :: "'s \<Rightarrow> 'a list \<Rightarrow> bool"
    and cap :: nat
    and at :: "'s \<Rightarrow> 'i \<Rightarrow> nat \<Rightarrow> bool"
  assumes size_rep: "rep s xs \<Longrightarrow> unat (op_size ops s) = length xs"
    and append_rep: "rep s xs \<Longrightarrow> length xs < cap \<Longrightarrow>
      \<exists>s'. op_append ops s t = Some (Inr s') \<and> rep s' (xs @ [t])"
    and insert_rep: "rep s xs \<Longrightarrow> length xs < cap \<Longrightarrow> 0 < unat pos \<Longrightarrow> unat pos < length xs \<Longrightarrow>
      \<exists>s'. op_insert ops s pos t = Some (Inr s') \<and>
        rep s' (take (unat pos) xs @ t # drop (unat pos) xs)"
    and removeAt_rep: "rep s xs \<Longrightarrow> unat pos < length xs \<Longrightarrow>
      \<exists>s'. op_removeAt ops s pos = Some (Inr s') \<and>
        rep s' (take (unat pos) xs @ drop (Suc (unat pos)) xs)"
    and begin_at: "rep s xs \<Longrightarrow> \<exists>it. op_begin ops s = Some it \<and> at s it 0"
    and deref_at: "rep s xs \<Longrightarrow> at s it i \<Longrightarrow> i < length xs \<Longrightarrow> op_deref ops s it = Some (xs ! i)"
    and incr_at: "rep s xs \<Longrightarrow> at s it i \<Longrightarrow> i < length xs \<Longrightarrow>
      \<exists>it'. op_incr ops s it = Some it' \<and> at s it' (Suc i)"

text \<open>A container whose iterators find its end.\<close>

locale iterable = sequence +
  assumes ne_at: "rep s xs \<Longrightarrow> at s it i \<Longrightarrow> i \<le> length xs \<Longrightarrow>
    \<exists>e. op_end ops s = Some e \<and> op_ne ops s it e = Some (i \<noteq> length xs)"

locale two_sequences = c1: sequence c1 rep1 cap1 at1 + c2: sequence c2 rep2 cap2 at2
  for c1 :: "('s, 'i, int) container" and rep1 cap1 at1
    and c2 :: "('t, 'j, int) container" and rep2 cap2 at2
begin

lemma step_rep:
  assumes r: "rep1 t1 xs" "rep2 t2 xs" and room: "length xs < cap1" "length xs < cap2"
    and n: "0 \<le> number" "number < 2147483648"
  shows "\<exists>t1' t2'. verify_step c1 c2 number (t1, t2) = Some (Inr (t1', t2')) \<and>
    rep1 t1' (script_step number xs) \<and> rep2 t2' (script_step number xs)"
proof -
  have lt: "(word_of_int number :: uint) < op_size c2 t2 \<longleftrightarrow>
      unat (word_of_int number :: uint) < length xs"
    by (simp add: word_less_nat_alt c2.size_rep [OF r(2)])
  consider (app) "number smod 3 = 0"
    | (ins) "number smod 3 = 1" "unat (word_of_int number :: uint) < length xs"
    | (rem) "number smod 3 \<noteq> 0" "number smod 3 \<noteq> 1" "unat (word_of_int number :: uint) < length xs"
    | (skip) "number smod 3 \<noteq> 0" "\<not> unat (word_of_int number :: uint) < length xs"
    by blast
  then show ?thesis
  proof cases
    case app
    then show ?thesis
      using c1.append_rep [OF r(1) room(1), of number] c2.append_rep [OF r(2) room(2), of number]
      by (auto simp: verify_step_def script_step_def)
  next
    case ins
    then show ?thesis
      using c1.insert_rep [OF r(1) room(1) insert_pos [OF ins(1) n] ins(2), of number]
        c2.insert_rep [OF r(2) room(2) insert_pos [OF ins(1) n] ins(2), of number]
      by (auto simp: verify_step_def script_step_def lt Let_def)
  next
    case rem
    then show ?thesis
      using c1.removeAt_rep [OF r(1) rem(3)] c2.removeAt_rep [OF r(2) rem(3)]
      by (auto simp: verify_step_def script_step_def lt Let_def)
  next
    case skip
    then show ?thesis using r by (auto simp: verify_step_def script_step_def lt)
  qed
qed

lemma loop_rep:
  assumes "rep1 t1 xs" "rep2 t2 xs" "length xs + length rng \<le> cap1" "length xs + length rng \<le> cap2"
    "\<forall>n\<in>set rng. 0 \<le> n \<and> n < 2147483648"
  shows "\<exists>t1' t2'. verify_loop c1 c2 rng (t1, t2) = Some (Inr (t1', t2')) \<and>
    rep1 t1' (script rng xs) \<and> rep2 t2' (script rng xs)"
  using assms
proof (induction rng arbitrary: t1 t2 xs)
  case (Cons n rng)
  obtain t1' t2' where s: "verify_step c1 c2 n (t1, t2) = Some (Inr (t1', t2'))"
    "rep1 t1' (script_step n xs)" "rep2 t2' (script_step n xs)"
    using step_rep [of t1 xs t2 n] Cons.prems by auto
  then show ?case
    using Cons.IH [OF s(2,3)] Cons.prems script_step_length [of n xs] by auto
qed auto

end

text \<open>The comparison loop asks the first container for its end only.\<close>

locale two_sequences_compared = two_sequences c1 rep1 cap1 at1 c2 rep2 cap2 at2 +
  c1: iterable c1 rep1 cap1 at1
  for c1 :: "('s, 'i, int) container" and rep1 cap1 at1
    and c2 :: "('t, 'j, int) container" and rep2 cap2 at2
begin

lemma compare_rep:
  assumes r: "rep1 t1 xs" "rep2 t2 xs"
  shows "i \<le> length xs \<Longrightarrow> at1 t1 it1 i \<Longrightarrow> at2 t2 it2 i \<Longrightarrow>
    verify_compare c1 c2 t1 t2 it1 it2 = Some 0"
proof (induction "length xs - i" arbitrary: i it1 it2)
  case 0
  then show ?case
    using c1.ne_at [OF r(1), of it1 i] by (subst verify_compare.simps) auto
next
  case (Suc k)
  have i: "i < length xs" using Suc by simp
  obtain it1' it2' where "op_incr c1 t1 it1 = Some it1'" "at1 t1 it1' (Suc i)"
    "op_incr c2 t2 it2 = Some it2'" "at2 t2 it2' (Suc i)"
    using c1.incr_at [OF r(1) Suc.prems(2) i] c2.incr_at [OF r(2) Suc.prems(3) i] by auto
  moreover from this have "verify_compare c1 c2 t1 t2 it1' it2' = Some 0"
    using Suc i by (intro Suc.hyps(1) [of "Suc i"]) auto
  ultimately show ?case
    using c1.ne_at [OF r(1) Suc.prems(2)] Suc.prems(1) i
      c1.deref_at [OF r(1) Suc.prems(2) i] c2.deref_at [OF r(2) Suc.prems(3) i]
    by (subst verify_compare.simps) auto
qed

lemma verify_agrees:
  assumes "rep1 t1 xs" "rep2 t2 xs" "length xs + length rng \<le> cap1" "length xs + length rng \<le> cap2"
    "\<forall>n\<in>set rng. 0 \<le> n \<and> n < 2147483648"
  shows "\<exists>t1' t2'. verify c1 c2 rng (t1, t2) = Some (Inr ((t1', t2'), Compared 0)) \<and>
    rep1 t1' (script rng xs) \<and> rep2 t2' (script rng xs)"
proof -
  obtain t1' t2' where l: "verify_loop c1 c2 rng (t1, t2) = Some (Inr (t1', t2'))"
    and r: "rep1 t1' (script rng xs)" "rep2 t2' (script rng xs)"
    using loop_rep [OF assms] by blast
  obtain it1 it2 where "op_begin c1 t1' = Some it1" "at1 t1' it1 0"
    "op_begin c2 t2' = Some it2" "at2 t2' it2 0"
    using c1.begin_at [OF r(1)] c2.begin_at [OF r(2)] by blast
  moreover from this have "verify_compare c1 c2 t1' t2' it1 it2 = Some 0"
    using compare_rep [OF r, of 0] by simp
  moreover have "op_size c1 t1' = op_size c2 t2'"
    using c1.size_rep [OF r(1)] c2.size_rep [OF r(2)] by (simp add: uint_eq_iff_unat)
  ultimately show ?thesis using l r by (auto simp: verify_def)
qed

end

end
