(* ===== verification/ListHpp.thy ===== *)
theory ListHpp
  imports Chain Sequence
begin

text \<open>
  \<open>List<T>\<close> of Data Structure/DataStructure/List.hpp: a doubly linked list behind a head node
  that stores no data.  The object is a record of its three fields; its nodes live in the heap
  of theory Chain.  The copy and move operations of the class name undeclared variables and
  are not modelled (they do not compile once instantiated).
\<close>

record dlist =
  lst_head :: addr
  lst_tail :: addr
  lst_size :: uint

definition list_new :: "'a mem \<Rightarrow> 'a mem \<times> dlist" where
  "list_new h = (let (p, h1) = new_node h
     in (h1, \<lparr>lst_head = p, lst_tail = null, lst_size = 0\<rparr>))"

text \<open>\<open>findNode\<close> walks from the nearer end; \<open>node_pos\<close> counts along.\<close>

function findNode_loop :: "'a mem \<Rightarrow> uint \<Rightarrow> bool \<Rightarrow> addr \<Rightarrow> uint \<Rightarrow> addr option" where
  "findNode_loop h pos nextMove ptr node_pos =
     (if ptr = null then Some null
      else if node_pos = pos then Some ptr
      else if nextMove then do {
        ptr \<leftarrow> load_next h ptr;
        findNode_loop h pos nextMove ptr (node_pos + 1)
      } else do {
        ptr \<leftarrow> load_prev h ptr;
        findNode_loop h pos nextMove ptr (node_pos - 1)
      })"
  by pat_completeness auto
termination
proof (relation "measure (\<lambda>(h, pos, nextMove, ptr, np).
    if nextMove then unat (pos - np) else unat (np - pos))", goal_cases)
  case (2 h pos nextMove ptr np p)
  then have "0 < unat (pos - np)" by (simp add: word_neq_0_conv unat_gt_0)
  moreover from this have "unat (pos - (np + 1)) = unat (pos - np) - 1"
    by (metis unat_dec diff_diff_eq)
  ultimately show ?case using 2 by simp
next
  case (3 h pos nextMove ptr np p)
  then have "0 < unat (np - pos)" by (simp add: word_neq_0_conv unat_gt_0)
  moreover from this have "unat (np - 1 - pos) = unat (np - pos) - 1"
    by (metis unat_dec diff_right_commute)
  ultimately show ?case using 3 by simp
qed simp

declare findNode_loop.simps [simp del]

definition findNode :: "'a mem \<Rightarrow> dlist \<Rightarrow> uint \<Rightarrow> addr option" where
  "findNode h l pos =
     (if lst_size l \<le> pos then Some null
      else if pos < lst_size l div 2 then do {
        ptr \<leftarrow> load_next h (lst_head l);
        findNode_loop h pos True ptr 0
      } else findNode_loop h pos False (lst_tail l) (lst_size l - 1))"

definition list_append :: "'a mem \<Rightarrow> dlist \<Rightarrow> 'a \<Rightarrow> ('a mem \<times> dlist) option" where
  "list_append h l t =
     (if m_maxSize \<le> lst_size l + 1 then Some (h, l)
      else do {
        let (node, h) = new_node h;
        h \<leftarrow> store_data h node t;
        if lst_size l = 0 then do {
          h \<leftarrow> store_next h (lst_head l) node;
          h \<leftarrow> store_prev h node (lst_head l);
          Some (h, l\<lparr>lst_tail := node, lst_size := lst_size l + 1\<rparr>)
        } else do {
          h \<leftarrow> store_next h (lst_tail l) node;
          h \<leftarrow> store_prev h node (lst_tail l);
          Some (h, l\<lparr>lst_tail := node, lst_size := lst_size l + 1\<rparr>)
        }
      })"

definition list_insert :: "'a mem \<Rightarrow> dlist \<Rightarrow> uint \<Rightarrow> 'a \<Rightarrow> ('a mem \<times> dlist) option" where
  "list_insert h l pos t =
     (if lst_size l + 1 \<le> pos then Some (h, l)
      else if m_maxSize \<le> lst_size l + 1 then Some (h, l)
      else do {
        let (node, h) = new_node h;
        h \<leftarrow> store_data h node t;
        (h, l) \<leftarrow>
          (if pos = 0 then do {
             nextPtr \<leftarrow> load_next h (lst_head l);
             (h, l) \<leftarrow>
               (if nextPtr = null then do {
                  h \<leftarrow> store_next h (lst_head l) node;
                  Some (h, l\<lparr>lst_tail := node\<rparr>)
                } else do {
                  h \<leftarrow> store_next h node nextPtr;
                  h \<leftarrow> store_prev h nextPtr node;
                  Some (h, l)
                });
             h \<leftarrow> store_prev h node (lst_head l);
             Some (h, l)
           } else if pos = lst_size l then do {
             h \<leftarrow> store_next h (lst_tail l) node;
             h \<leftarrow> store_prev h node (lst_tail l);
             Some (h, l\<lparr>lst_tail := node\<rparr>)
           } else do {
             posNode \<leftarrow> findNode h l pos;
             prv \<leftarrow> load_prev h posNode;
             h \<leftarrow> store_next h prv node;
             prv \<leftarrow> load_prev h posNode;
             h \<leftarrow> store_prev h node prv;
             h \<leftarrow> store_prev h posNode node;
             h \<leftarrow> store_next h node posNode;
             Some (h, l)
           });
        Some (h, l\<lparr>lst_size := lst_size l + 1\<rparr>)
      })"

definition list_removeAt :: "'a mem \<Rightarrow> dlist \<Rightarrow> uint \<Rightarrow> ('a mem \<times> dlist) option" where
  "list_removeAt h l pos =
     (if lst_size l \<le> pos then Some (h, l)
      else do {
        ptr \<leftarrow> findNode h l pos;
        l \<leftarrow>
          (if ptr = lst_tail l then do {
             prv \<leftarrow> load_prev h ptr;
             Some (if prv \<noteq> lst_head l then l\<lparr>lst_tail := prv\<rparr> else l\<lparr>lst_tail := null\<rparr>)
           } else Some l);
        prv \<leftarrow> load_prev h ptr;
        nxt \<leftarrow> load_next h ptr;
        h \<leftarrow> store_next h prv nxt;
        nxt \<leftarrow> load_next h ptr;
        h \<leftarrow>
          (if nxt \<noteq> null then do {
             prv \<leftarrow> load_prev h ptr;
             store_prev h nxt prv
           } else Some h);
        h \<leftarrow> delete_node h ptr;
        Some (h, l\<lparr>lst_size := lst_size l - 1\<rparr>)
      })"

text \<open>The overload with a length.  Its scan assigns \<open>ptr = node->next\<close> in every round without
  moving \<open>node\<close>.\<close>

fun removeRange_scan :: "'a mem \<Rightarrow> addr \<Rightarrow> addr \<Rightarrow> nat \<Rightarrow> addr option" where
  "removeRange_scan h node ptr 0 = Some ptr"
| "removeRange_scan h node ptr (Suc moveLen) = do {
     ptr \<leftarrow> load_next h node;
     removeRange_scan h node ptr moveLen
   }"

definition list_removeRange ::
    "'a mem \<Rightarrow> dlist \<Rightarrow> uint \<Rightarrow> uint \<Rightarrow> ('a mem \<times> dlist) option" where
  "list_removeRange h l pos len =
     (if lst_size l \<le> pos then Some (h, l)
      else do {
        let len = (if lst_size l \<le> pos + len then lst_size l - pos else len);
        node \<leftarrow> findNode h l pos;
        tail \<leftarrow> (if pos + len = lst_size l then Some (lst_tail l)
                  else removeRange_scan h node node (unat len));
        l \<leftarrow>
          (if tail = lst_tail l then do {
             prv \<leftarrow> load_prev h node;
             Some (if prv = lst_head l then l\<lparr>lst_tail := null\<rparr> else l\<lparr>lst_tail := prv\<rparr>)
           } else Some l);
        prv \<leftarrow> load_prev h node;
        nxt \<leftarrow> load_next h tail;
        h \<leftarrow> store_next h prv nxt;
        nxt \<leftarrow> load_next h tail;
        h \<leftarrow>
          (if nxt \<noteq> null then do {
             prv \<leftarrow> load_prev h node;
             store_prev h tail prv
           } else Some h);
        h \<leftarrow> delete_until h node tail;
        h \<leftarrow> delete_node h tail;
        Some (h, l\<lparr>lst_size := lst_size l - len\<rparr>)
      })"

definition list_at :: "'a mem \<Rightarrow> dlist \<Rightarrow> uint \<Rightarrow> 'a outcome" where
  "list_at h l pos =
     (if lst_size l \<le> pos then Some (Inl OutOfRange)
      else do {
        ptr \<leftarrow> findNode h l pos;
        d \<leftarrow> load_data h ptr;
        Some (Inr d)
      })"

definition list_clear :: "'a mem \<Rightarrow> dlist \<Rightarrow> ('a mem \<times> dlist) option" where
  "list_clear h l = do {
     ptr \<leftarrow> load_next h (lst_head l);
     h \<leftarrow> delete_until h ptr null;
     h \<leftarrow> store_next h (lst_head l) null;
     Some (h, l\<lparr>lst_size := 0, lst_tail := null\<rparr>)
   }"

text \<open>The destructor: \<open>clear()\<close>, then \<open>delete m_head\<close>.\<close>

definition list_destroy :: "'a mem \<Rightarrow> dlist \<Rightarrow> 'a mem option" where
  "list_destroy h l = do {
     (h, l) \<leftarrow> list_clear h l;
     delete_node h (lst_head l)
   }"

partial_function (option) removeOne_loop ::
    "'a mem \<Rightarrow> dlist \<Rightarrow> 'a \<Rightarrow> bool \<Rightarrow> addr \<Rightarrow> ('a mem \<times> dlist) option" where
  "removeOne_loop h l t onlyOne node =
     (if node = null then Some (h, l)
      else do {
        nextNode \<leftarrow> load_next h node;
        d \<leftarrow> load_data h node;
        if d = t then do {
          prv \<leftarrow> load_prev h node;
          nxt \<leftarrow> load_next h node;
          h1 \<leftarrow> store_next h prv nxt;
          nxt \<leftarrow> load_next h1 node;
          h2 \<leftarrow>
            (if nxt \<noteq> null then do {
               prv \<leftarrow> load_prev h1 node;
               store_prev h1 nxt prv
             } else Some h1);
          h3 \<leftarrow> delete_node h2 node;
          if onlyOne then Some (h3, l\<lparr>lst_size := lst_size l - 1\<rparr>)
          else removeOne_loop h3 (l\<lparr>lst_size := lst_size l - 1\<rparr>) t onlyOne nextNode
        } else removeOne_loop h l t onlyOne nextNode
      })"

declare removeOne_loop.simps [code]

definition list_removeOne ::
    "'a mem \<Rightarrow> dlist \<Rightarrow> 'a \<Rightarrow> uint \<Rightarrow> bool \<Rightarrow> ('a mem \<times> dlist) option" where
  "list_removeOne h l t pos onlyOne =
     (if lst_size l \<le> pos then Some (h, l)
      else do {
        startFindNode \<leftarrow> findNode h l pos;
        removeOne_loop h l t onlyOne startFindNode
      })"

text \<open>\<open>swap\<close> is declared \<open>noexcept\<close> and throws on an index out of range.\<close>

definition list_swap :: "'a mem \<Rightarrow> dlist \<Rightarrow> uint \<Rightarrow> uint \<Rightarrow> 'a mem outcome" where
  "list_swap h l first second = noexcept
     (if lst_size l \<le> first \<or> lst_size l \<le> second then Some (Inl OutOfRange)
      else do {
        firstNode \<leftarrow> findNode h l first;
        secondNode \<leftarrow> findNode h l second;
        val \<leftarrow> load_data h firstNode;
        d \<leftarrow> load_data h secondNode;
        h \<leftarrow> store_data h firstNode d;
        h \<leftarrow> store_data h secondNode val;
        Some (Inr h)
      })"

definition list_isEmpty :: "dlist \<Rightarrow> bool" where
  "list_isEmpty l \<longleftrightarrow> lst_size l \<noteq> 0"

text \<open>Iterators are node pointers; \<open>operator!=\<close> compares the data they point to.\<close>

definition list_begin :: "'a mem \<Rightarrow> dlist \<Rightarrow> addr option" where
  "list_begin h l = load_next h (lst_head l)"

definition list_end :: "'a mem \<Rightarrow> dlist \<Rightarrow> addr option" where
  "list_end h l = (if lst_tail l \<noteq> null then Some (lst_tail l) else load_next h (lst_head l))"

definition list_iter_ne :: "'a mem \<Rightarrow> addr \<Rightarrow> addr \<Rightarrow> bool option" where
  "list_iter_ne h p q = do { a \<leftarrow> load_data h p; b \<leftarrow> load_data h q; Some (a \<noteq> b) }"

text \<open>The values that \<open>for (it = begin(); it != end(); it++)\<close> visits.\<close>

partial_function (option) list_iterate :: "'a mem \<Rightarrow> dlist \<Rightarrow> addr \<Rightarrow> 'a list option" where
  "list_iterate h l it = do {
     e \<leftarrow> list_end h l;
     go \<leftarrow> list_iter_ne h it e;
     if go then do {
       d \<leftarrow> load_data h it;
       nx \<leftarrow> load_next h it;
       rest \<leftarrow> list_iterate h l nx;
       Some (d # rest)
     } else Some []
   }"

declare list_iterate.simps [code]

subsection \<open>What a list object represents\<close>

definition list_nodes :: "'a mem \<Rightarrow> dlist \<Rightarrow> addr list \<Rightarrow> 'a list \<Rightarrow> bool" where
  "list_nodes h l as xs \<longleftrightarrow> chain h (lst_head l) as xs \<and>
     lst_tail l = (if as = [] then null else last as) \<and>
     unat (lst_size l) = length as \<and> length as < unat m_maxSize"

definition list_rep :: "'a mem \<Rightarrow> dlist \<Rightarrow> 'a list \<Rightarrow> bool" where
  "list_rep h l xs \<longleftrightarrow> (\<exists>as. list_nodes h l as xs)"

lemma list_nodes_chain: "list_nodes h l as xs \<Longrightarrow> chain h (lst_head l) as xs"
  by (simp add: list_nodes_def)

lemma list_nodes_length: "list_nodes h l as xs \<Longrightarrow> length as = length xs"
  by (auto simp: list_nodes_def dest: chain_length)

lemma list_nodes_size: "list_nodes h l as xs \<Longrightarrow> unat (lst_size l) = length xs"
  by (auto simp: list_nodes_def dest: chain_length)

lemma list_rep_size: "list_rep h l xs \<Longrightarrow> unat (lst_size l) = length xs"
  by (auto simp: list_rep_def dest: list_nodes_size)

lemma list_rep_bound: "list_rep h l xs \<Longrightarrow> length xs < 4278190080"
  by (auto simp: list_rep_def list_nodes_def dest: chain_length)

lemma list_size_pos:
  "list_rep h l xs \<Longrightarrow> lst_size l \<le> pos \<longleftrightarrow> length xs \<le> unat pos"
  by (auto simp: word_le_nat_alt dest: list_rep_size)

text \<open>The guard of \<open>append\<close> and \<open>insert\<close>, \<open>m_size + 1 >= m_maxSize\<close>, never wraps.\<close>

lemma list_full:
  "list_rep h l xs \<Longrightarrow> m_maxSize \<le> lst_size l + 1 \<longleftrightarrow> unat m_maxSize \<le> Suc (length xs)"
  using list_rep_size [of h l xs] list_rep_bound [of h l xs]
  by (simp add: word_le_nat_alt unat_inc)

subsection \<open>findNode\<close>

lemma findNode_forward:
  assumes c: "chain h hn as xs" and i: "i \<le> unat pos" "unat pos < length as"
  shows "findNode_loop h pos True (as ! i) (of_nat i) = Some (as ! unat pos)"
  using i
proof (induction "unat pos - i" arbitrary: i)
  case 0
  then have "of_nat i = pos" using of_nat_eq_uint [of i pos] unat_uint_less [of pos] by simp
  moreover have "as ! i \<noteq> null" using c 0 by (intro chain_not_null) auto
  ultimately show ?case using 0 by (simp add: findNode_loop.simps [of h pos])
next
  case (Suc k)
  have i: "i < length as" "Suc i < length as" using Suc by auto
  have al: "alive h (as ! i)" "0 < as ! i" using chain_nth_node [OF c i(1)] by auto
  have "of_nat i \<noteq> pos"
    using Suc(2) of_nat_eq_uint [of i pos] le_less_trans [OF Suc.prems(1) unat_uint_less] by auto
  moreover have "findNode_loop h pos True (as ! Suc i) (of_nat (Suc i)) = Some (as ! unat pos)"
    using Suc by (intro Suc.hyps(1)) auto
  ultimately show ?case
    using al i chain_nth_next [OF c i(1)]
    by (simp add: findNode_loop.simps [of h pos True "as ! i"] effect_simps add.commute)
qed

lemma findNode_backward:
  assumes c: "chain h hn as xs" and i: "unat pos \<le> i" "i < length as" "length as < 4278190080"
  shows "findNode_loop h pos False (as ! i) (of_nat i) = Some (as ! unat pos)"
  using i
proof (induction "i - unat pos" arbitrary: i)
  case 0
  then have "of_nat i = pos" using of_nat_eq_uint [of i pos] unat_uint_less [of pos] by simp
  moreover have "as ! i \<noteq> null" using c 0 by (intro chain_not_null) auto
  ultimately show ?case using 0 by (simp add: findNode_loop.simps [of h pos])
next
  case (Suc k)
  then obtain j where j: "i = Suc j" by (cases i) auto
  have al: "alive h (as ! i)" "0 < as ! i" using chain_nth_node [OF c Suc.prems(2)] by auto
  have "of_nat i \<noteq> pos"
    using Suc of_nat_eq_uint [of i pos] by auto
  moreover have "findNode_loop h pos False (as ! j) (of_nat j) = Some (as ! unat pos)"
    using Suc j by (intro Suc.hyps(1)) auto
  ultimately show ?case
    using al j chain_nth_prev [OF c, of i] Suc.prems
    by (simp add: findNode_loop.simps [of h pos False "as ! Suc j"] effect_simps)
qed

lemma findNode_nodes:
  assumes n: "list_nodes h l as xs" and p: "unat pos < length xs"
  shows "findNode h l pos = Some (as ! unat pos)"
proof -
  have c: "chain h (lst_head l) as xs" and len: "length as = length xs"
    using n by (auto simp: list_nodes_chain list_nodes_length)
  have sz: "unat (lst_size l) = length as" "length as < 4278190080" "as \<noteq> []"
    using n p len by (auto simp: list_nodes_def)
  have guard: "\<not> lst_size l \<le> pos" using p sz len by (simp add: word_le_nat_alt)
  have nx: "load_next h (lst_head l) = Some (as ! 0)"
    using chain_hd_next [OF c] sz(3) chain_alive_hd [OF c] by (simp add: effect_simps)
  have "of_nat (length as - 1) = lst_size l - 1"
    using sz of_nat_eq_uint [of "length as - 1" "lst_size l - 1"] by (simp add: unat_dec)
  moreover have "lst_tail l = as ! (length as - 1)"
    using n sz(3) by (simp add: list_nodes_def last_conv_nth)
  ultimately show ?thesis
    using guard nx findNode_forward [OF c, of 0 pos] findNode_backward [OF c, of pos "length as - 1"]
      p len sz by (simp add: findNode_def)
qed

subsection \<open>Reading\<close>

lemma list_at_nodes:
  assumes "list_rep h l xs"
  shows "list_at h l pos = Some (if unat pos < length xs then Inr (xs ! unat pos) else Inl OutOfRange)"
proof -
  obtain as where n: "list_nodes h l as xs" using assms by (auto simp: list_rep_def)
  note c = list_nodes_chain [OF n] and len = list_nodes_length [OF n]
  show ?thesis
  proof (cases "unat pos < length xs")
    case True
    then show ?thesis
      using findNode_nodes [OF n True] chain_nth_node [OF c] chain_nth_data [OF c] len
        list_size_pos [OF assms, of pos]
      by (simp add: list_at_def effect_simps)
  next
    case False
    then show ?thesis using list_size_pos [OF assms, of pos] by (simp add: list_at_def)
  qed
qed

subsection \<open>Writing\<close>

lemma list_new_rep:
  assumes "mem_ok h" shows "case list_new h of (h', l) \<Rightarrow> list_rep h' l []"
  using assms
  by (auto simp: list_new_def list_rep_def list_nodes_def new_node_def chain_def mem_ok_def
      less_Suc_eq intro!: exI [of _ "[]"])

lemma list_append_nodes:
  assumes n: "list_nodes h l as xs" and room: "Suc (length xs) < unat m_maxSize"
  shows "\<exists>h' l'. list_append h l t = Some (h', l') \<and> list_nodes h' l' (as @ [brk h]) (xs @ [t])"
proof -
  note c = list_nodes_chain [OF n] and len = list_nodes_length [OF n]
  define x where "x = (if as = [] then lst_head l else last as)"
  define h' where "h' = h\<lparr>alive := (alive h)(brk h := True),
    nextOf := (nextOf h)(brk h := null, x := brk h), prevOf := (prevOf h)(brk h := x),
    dataOf := (dataOf h)(brk h := Some t), brk := Suc (brk h)\<rparr>"
  define l' where "l' = l\<lparr>lst_tail := brk h, lst_size := lst_size l + 1\<rparr>"
  have f: "brk h \<notin> set (lst_head l # as)" by (rule fresh_not_in [OF c])
  have "x \<in> set (lst_head l # as)" by (simp add: x_def)
  then have x: "x = (lst_head l # as) ! length as" "alive h x" "x \<noteq> brk h"
    using chain_alive [OF c, of x] f by (auto simp: x_def nth_Cons' last_conv_nth)
  have "\<not> m_maxSize \<le> lst_size l + 1"
    using room n len list_full [of h l xs] by (auto simp: list_rep_def)
  moreover have "lst_size l = 0 \<longleftrightarrow> as = []"
    using n by (auto simp: list_nodes_def simp flip: unat_eq_0)
  ultimately have "list_append h l t = Some (h', l')"
    using x n
    by (auto simp: list_append_def new_node_def effect_simps h'_def l'_def list_nodes_def x_def
        fun_upd_twist)
  moreover have "chain h' (lst_head l) (take (length as) as @ brk h # drop (length as) as)
      (take (length as) xs @ t # drop (length as) xs)"
    by (rule chain_insert_node [OF c le_refl f])
      (use mem_ok_new [OF chain_mem_ok [OF c]] x f chain_alive [OF c] in
        \<open>auto simp: h'_def mem_ok_def new_node_def\<close>)
  ultimately show ?thesis
    using n room len by (auto simp: list_nodes_def l'_def unat_inc)
qed

lemma list_insert_nodes:
  assumes n: "list_nodes h l as xs" and room: "Suc (length xs) < unat m_maxSize"
    and pos: "unat pos \<le> length xs" "xs = [] \<or> 0 < unat pos"
  shows "\<exists>h' l'. list_insert h l pos t = Some (h', l') \<and>
    list_nodes h' l' (take (unat pos) as @ brk h # drop (unat pos) as)
      (take (unat pos) xs @ t # drop (unat pos) xs)"
proof -
  note c = list_nodes_chain [OF n] and len = list_nodes_length [OF n]
  have sz: "unat (lst_size l) = length xs" and tl: "lst_tail l = (if as = [] then null else last as)"
    using n len by (auto simp: list_nodes_def)
  define i where "i = unat pos"
  define x where "x = (lst_head l # as) ! i"
  have f: "brk h \<notin> set (lst_head l # as)" by (rule fresh_not_in [OF c])
  have i: "i \<le> length as" using pos len by (simp add: i_def)
  have xin: "x \<in> set (lst_head l # as)" using i nth_mem [of i "lst_head l # as"] by (simp add: x_def)
  then have x: "alive h x" "x \<noteq> brk h" using chain_alive [OF c, of x] f by auto
  have guards: "\<not> lst_size l + 1 \<le> pos" "\<not> m_maxSize \<le> lst_size l + 1"
    using room n pos len sz list_full [of h l xs]
    by (auto simp: list_rep_def word_le_nat_alt unat_inc)
  have atend: "pos = lst_size l \<longleftrightarrow> i = length as"
    using sz len by (simp add: uint_eq_iff_unat i_def)
  show ?thesis
  proof (cases "i < length as")
    case False
    then have ie: "i = length as" using i by simp
    define h' where "h' = h\<lparr>alive := (alive h)(brk h := True),
      nextOf := (nextOf h)(brk h := null, x := brk h), prevOf := (prevOf h)(brk h := x),
      dataOf := (dataOf h)(brk h := Some t), brk := Suc (brk h)\<rparr>"
    define l' where "l' = l\<lparr>lst_tail := brk h, lst_size := lst_size l + 1\<rparr>"
    have "list_insert h l pos t = Some (h', l')"
    proof (cases "as = []")
      case True
      then have "pos = 0" "x = lst_head l" using ie by (auto simp: i_def x_def unat_eq_zero)
      then show ?thesis
        using True guards x chain_hd_next [OF c]
        by (simp add: list_insert_def new_node_def effect_simps h'_def l'_def)
    next
      case as: False
      then have "pos \<noteq> 0" "x = last as" "lst_tail l = last as"
        using ie tl by (auto simp: i_def x_def nth_Cons' last_conv_nth)
      then show ?thesis
        using guards x atend ie
        by (simp add: list_insert_def new_node_def effect_simps h'_def l'_def)
    qed
    moreover have "chain h' (lst_head l) (take i as @ brk h # drop i as)
        (take i xs @ t # drop i xs)"
      by (rule chain_insert_node [OF c i f])
        (use mem_ok_new [OF chain_mem_ok [OF c]] x f chain_alive [OF c] ie in
          \<open>auto simp: h'_def mem_ok_def new_node_def x_def\<close>)
    ultimately show ?thesis
      using n room len ie by (auto simp: list_nodes_def l'_def unat_inc i_def)
  next
    case True
    define p where "p = as ! i"
    define h' where "h' = h\<lparr>alive := (alive h)(brk h := True),
      nextOf := (nextOf h)(brk h := null, x := brk h, brk h := p),
      prevOf := (prevOf h)(brk h := x, p := brk h),
      dataOf := (dataOf h)(brk h := Some t), brk := Suc (brk h)\<rparr>"
    define l' where "l' = l\<lparr>lst_size := lst_size l + 1\<rparr>"
    have i0: "0 < i" and pos': "unat pos < length xs" using pos True len by (auto simp: i_def)
    let ?h = "snd (new_node h)\<lparr>dataOf := (dataOf (snd (new_node h)))(brk h := Some t)\<rparr>"
    have "chain ?h (lst_head l) as xs" by (rule chain_new_node [OF c])
    then have n1: "list_nodes ?h l as xs" using n by (simp add: list_nodes_def)
    have "findNode ?h l pos = Some p"
      using findNode_nodes [OF n1 pos'] by (simp add: p_def i_def)
    moreover have pin: "p \<in> set as" using True by (simp add: p_def)
    then have p: "alive h p" "p \<noteq> brk h" using chain_alive [OF c, of p] f by auto
    moreover have "prevOf h p = x"
      using chain_nth_prev [OF c True] i0 by (simp add: p_def x_def nth_Cons')
    moreover have "pos \<noteq> 0" "pos \<noteq> lst_size l" using i0 True atend by (auto simp: i_def)
    ultimately have "list_insert h l pos t = Some (h', l')"
      using guards x
      by (simp add: list_insert_def new_node_def effect_simps h'_def l'_def)
    moreover have "chain h' (lst_head l) (take i as @ brk h # drop i as)
        (take i xs @ t # drop i xs)"
      by (rule chain_insert_node [OF c i f])
        (use mem_ok_new [OF chain_mem_ok [OF c]] x p f chain_alive [OF c] True pin in
          \<open>auto simp: h'_def mem_ok_def new_node_def x_def p_def\<close>)
    moreover have "last (drop i as) = last as" using True by simp
    ultimately show ?thesis
      using n room len True tl by (auto simp: list_nodes_def l'_def unat_inc i_def)
  qed
qed

lemma list_removeAt_nodes:
  assumes n: "list_nodes h l as xs" and pos: "unat pos < length xs"
  shows "\<exists>h' l'. list_removeAt h l pos = Some (h', l') \<and>
    list_nodes h' l' (take (unat pos) as @ drop (Suc (unat pos)) as)
      (take (unat pos) xs @ drop (Suc (unat pos)) xs)"
proof -
  note c = list_nodes_chain [OF n] and len = list_nodes_length [OF n]
  define i where "i = unat pos"
  define p where "p = as ! i"
  define x where "x = (lst_head l # as) ! i"
  define y where "y = (if Suc i < length as then as ! Suc i else null)"
  have i: "i < length as" using pos len by (simp add: i_def)
  have sz: "unat (lst_size l) = length xs" and tl: "lst_tail l = last as"
    using n len i by (auto simp: list_nodes_def)
  have p: "alive h p" "0 < p" "prevOf h p = x" "nextOf h p = y"
    using chain_nth_node [OF c i] chain_nth_prev [OF c i] chain_nth_next [OF c i]
    by (auto simp: p_def x_def y_def nth_Cons')
  have xin: "x \<in> set (lst_head l # as)" using i nth_mem [of i "lst_head l # as"] by (simp add: x_def)
  have x: "alive h x" "x \<noteq> p"
    using chain_alive [OF c xin] chain_pred_neq [OF c i] by (auto simp: x_def p_def)
  have y: "y \<noteq> null \<longleftrightarrow> Suc i < length as" "y \<noteq> null \<Longrightarrow> alive h y" "y \<noteq> p"
    using chain_nth_node [OF c] chain_distinct_nth [OF c, of i "Suc i"] i p(2)
    by (auto simp: y_def p_def)
  have find: "findNode h l pos = Some p" using findNode_nodes [OF n pos] by (simp add: p_def i_def)
  have guard: "\<not> lst_size l \<le> pos" using pos sz by (simp add: word_le_nat_alt)
  have at_tail: "p = lst_tail l \<longleftrightarrow> Suc i = length as"
  proof -
    have "as \<noteq> []" using i by auto
    then have "last as = as ! (length as - 1)" by (rule last_conv_nth)
    then show ?thesis
      using chain_distinct_nth [OF c i, of "length as - 1"] i tl by (auto simp: p_def)
  qed
  define h' where "h' = h\<lparr>alive := (alive h)(p := False), nextOf := (nextOf h)(x := y),
    prevOf := (if y = null then prevOf h else (prevOf h)(y := x))\<rparr>"
  define l' where "l' = l\<lparr>lst_tail := (if p \<noteq> lst_tail l then lst_tail l
      else if x \<noteq> lst_head l then x else null), lst_size := lst_size l - 1\<rparr>"
  have "list_removeAt h l pos = Some (h', l')"
    using guard find p x y
    by (auto simp: list_removeAt_def effect_simps h'_def l'_def)
  moreover have "chain h' (lst_head l) (take i as @ drop (Suc i) as) (take i xs @ drop (Suc i) xs)"
    by (rule chain_remove_node [OF c i])
      (use chain_alive_upd [OF chain_mem_ok [OF c], of p] x p y chain_alive [OF c]
          y_def [symmetric] in
        \<open>auto simp: h'_def x_def p_def mem_ok_def split: if_splits\<close>)
  moreover have "lst_tail l' = (if take i as @ drop (Suc i) as = [] then null
      else last (take i as @ drop (Suc i) as))"
  proof (cases "Suc i = length as")
    case True
    then have "x \<noteq> lst_head l \<longleftrightarrow> 0 < i"
      using chain_hd_neq [OF c, of "i - 1"] i by (auto simp: x_def nth_Cons')
    then show ?thesis
      using True at_tail i by (auto simp: l'_def x_def nth_Cons' last_take_Cons)
  next
    case False
    then have "drop (Suc i) as \<noteq> []" "last (drop (Suc i) as) = last as" using i by auto
    then show ?thesis using False at_tail tl by (simp add: l'_def)
  qed
  moreover have "unat (lst_size l') = length (take i as @ drop (Suc i) as)"
  proof -
    have "xs \<noteq> []" using pos by auto
    then show ?thesis using sz len i unat_dec [of "lst_size l"] by (simp add: l'_def)
  qed
  ultimately show ?thesis
    using n i by (auto simp: list_nodes_def l'_def i_def)
qed

text \<open>\<open>insert(0, t)\<close> into a nonempty list: the new node points to the old first node, which
  points back to it, but the head still points to the old first node.\<close>

lemma list_insert_front:
  assumes n: "list_nodes h l as xs" and ne: "xs \<noteq> []" and room: "Suc (length xs) < unat m_maxSize"
  shows "\<exists>h' l'. list_insert h l 0 t = Some (h', l') \<and> lst_head l' = lst_head l \<and>
    unat (lst_size l') = Suc (length xs) \<and> alive h' (lst_head l) \<and>
    nextOf h' (lst_head l) = hd as \<and> prevOf h' (hd as) = brk h \<and> brk h \<noteq> lst_head l \<and>
    alive h' (hd as) \<and> dataOf h' (hd as) = dataOf h (hd as)"
proof -
  note c = list_nodes_chain [OF n] and len = list_nodes_length [OF n]
  have as: "as \<noteq> []" using ne len by auto
  then have y: "nextOf h (lst_head l) = hd as" "hd as \<noteq> lst_head l" "alive h (hd as)" "0 < hd as"
    using chain_hd_next [OF c] chain_nth_node [OF c, of 0] chain_hd_neq [OF c, of 0]
    by (auto simp: hd_conv_nth)
  have "hd as \<noteq> brk h" using fresh_not_in [OF c] hd_in_set [OF as] by auto
  moreover have "lst_head l \<noteq> brk h" "alive h (lst_head l)"
    using fresh_not_in [OF c] chain_alive_hd [OF c] by auto
  moreover have "\<not> m_maxSize \<le> lst_size l + 1" "\<not> lst_size l + 1 \<le> 0"
    using n room list_full [of h l xs] len
    by (auto simp: list_rep_def list_nodes_def word_le_nat_alt unat_inc)
  moreover have "unat (lst_size l + 1) = Suc (length xs)"
    using n len room by (simp add: list_nodes_def unat_inc)
  ultimately show ?thesis
    using y by (auto simp: list_insert_def new_node_def effect_simps)
qed

lemma list_swap_nodes:
  assumes n: "list_nodes h l as xs"
    and i: "unat first < length xs" and j: "unat second < length xs"
  shows "\<exists>h'. list_swap h l first second = Some (Inr h') \<and>
    list_nodes h' l as (xs[unat first := xs ! unat second, unat second := xs ! unat first])"
proof -
  note c = list_nodes_chain [OF n] and len = list_nodes_length [OF n]
  let ?p = "as ! unat first" and ?q = "as ! unat second"
  let ?x = "xs ! unat first" and ?y = "xs ! unat second"
  define h' where "h' = h\<lparr>dataOf := (dataOf h)(?p := Some ?y, ?q := Some ?x)\<rparr>"
  have "alive h ?p" "alive h ?q" "dataOf h ?p = Some ?x" "dataOf h ?q = Some ?y"
    using chain_nth_node [OF c] chain_nth_data [OF c] i j len by auto
  moreover have "\<not> lst_size l \<le> first" "\<not> lst_size l \<le> second"
    using i j list_nodes_size [OF n] by (auto simp: word_le_nat_alt)
  ultimately have "list_swap h l first second = Some (Inr h')"
    by (simp add: list_swap_def findNode_nodes [OF n] i j effect_simps h'_def)
  moreover have "map (dataOf h') as =
      map Some (xs[unat first := ?y, unat second := ?x])"
  proof (rule nth_equalityI)
    fix k assume k: "k < length (map (dataOf h') as)"
    then show "map (dataOf h') as ! k = map Some (xs[unat first := ?y, unat second := ?x]) ! k"
      using chain_nth_data [OF c, of k] chain_distinct_nth [OF c] i j len
      by (auto simp: h'_def nth_list_update)
  qed (simp add: len)
  ultimately show ?thesis
    using n by (auto simp: list_nodes_def chain_def h'_def mem_ok_def)
qed

subsection \<open>Clearing and destroying\<close>

lemma list_clear_nodes:
  assumes n: "list_nodes h l as xs"
  shows "\<exists>h' l'. list_clear h l = Some (h', l') \<and> list_nodes h' l' [] [] \<and>
    lst_head l' = lst_head l \<and> alive h' = (\<lambda>a. a \<notin> set as \<and> alive h a)"
proof -
  note c = list_nodes_chain [OF n]
  let ?h = "h\<lparr>alive := (\<lambda>a. a \<notin> set as \<and> alive h a)\<rparr>"
  have "delete_until h (nextOf h (lst_head l)) null = Some ?h"
    using c delete_until_seg [of as h null] chain_not_null [OF c]
    by (cases as) (auto simp: chain_def linked_Cons)
  then show ?thesis
    using c by (auto simp: list_clear_def effect_simps list_nodes_def chain_def mem_ok_def)
qed

lemma list_destroy_nodes:
  assumes n: "list_nodes h l as xs"
  shows "\<exists>h'. list_destroy h l = Some h' \<and>
    alive h' = (\<lambda>a. a \<notin> set (lst_head l # as) \<and> alive h a)"
proof -
  note c = list_nodes_chain [OF n]
  obtain h' l' where "list_clear h l = Some (h', l')" "lst_head l' = lst_head l"
    "alive h' = (\<lambda>a. a \<notin> set as \<and> alive h a)"
    using list_clear_nodes [OF n] by blast
  moreover have "lst_head l \<notin> set as" "alive h (lst_head l)" "0 < lst_head l"
    using c chain_not_null [OF c, of "lst_head l"] by (auto simp: chain_def)
  ultimately show ?thesis by (auto simp: list_destroy_def effect_simps fun_eq_iff)
qed

subsection \<open>Iterating\<close>

lemma list_iterate_from:
  assumes n: "list_nodes h l as xs" and i: "i < length xs"
  shows "list_iterate h l (as ! i) = Some (takeWhile (\<lambda>x. x \<noteq> last xs) (drop i xs))"
  using i
proof (induction "length xs - i" arbitrary: i)
  case (Suc k)
  note c = list_nodes_chain [OF n] and len = list_nodes_length [OF n]
  have ne: "xs \<noteq> []" "as \<noteq> []" using Suc len by auto
  have nodes: "alive h (as ! i)" "dataOf h (as ! i) = Some (xs ! i)"
    "alive h (last as)" "dataOf h (last as) = Some (last xs)" "0 < last as"
    using chain_nth_node [OF c] chain_nth_data [OF c] Suc len ne
    by (auto simp: last_conv_nth)
  have e: "list_end h l = Some (last as)"
    using n ne nodes(5) by (simp add: list_end_def list_nodes_def)
  have d: "drop i xs = xs ! i # drop (Suc i) xs" using Suc by (simp add: Cons_nth_drop_Suc)
  show ?case
  proof (cases "xs ! i = last xs")
    case True
    then show ?thesis
      using nodes by (subst list_iterate.simps) (simp add: e list_iter_ne_def effect_simps d)
  next
    case False
    then have i': "Suc i < length xs"
      using Suc.prems last_conv_nth [OF ne(1)] by (metis Suc_lessI diff_Suc_1)
    have "list_iterate h l (as ! Suc i) =
        Some (takeWhile (\<lambda>x. x \<noteq> last xs) (drop (Suc i) xs))"
      by (rule Suc.hyps(1)) (use Suc i' in auto)
    moreover have "nextOf h (as ! i) = as ! Suc i"
      using chain_nth_next [OF c, of i] i' len by simp
    ultimately show ?thesis
      using nodes False
      by (subst list_iterate.simps) (simp add: e list_iter_ne_def effect_simps d)
  qed
qed simp

subsection \<open>removeOne\<close>

lemma removeOne_absent:
  assumes c: "chain h hn as xs" and i: "i \<le> length as" and t: "t \<notin> set (drop i xs)"
  shows "removeOne_loop h l t onlyOne (if i < length as then as ! i else null) = Some (h, l)"
  using i t
proof (induction "length as - i" arbitrary: i)
  case 0
  then show ?case by (subst removeOne_loop.simps) simp
next
  case (Suc k)
  have i: "i < length as" using Suc by simp
  note len = chain_length [OF c]
  have d: "drop i xs = xs ! i # drop (Suc i) xs" using i len by (simp add: Cons_nth_drop_Suc)
  have "removeOne_loop h l t onlyOne (if Suc i < length as then as ! Suc i else null) = Some (h, l)"
    by (rule Suc.hyps(1)) (use Suc d in auto)
  moreover have "xs ! i \<noteq> t" using Suc.prems d by auto
  ultimately show ?case
    using i chain_nth_node [OF c i] chain_nth_data [OF c i] chain_nth_next [OF c i]
    by (subst removeOne_loop.simps) (simp add: effect_simps)
qed

lemma removeOne_present:
  assumes n: "list_nodes h l as xs" and i: "i \<le> j" "j < length as"
    and t: "xs ! j = t" "\<And>k. i \<le> k \<Longrightarrow> k < j \<Longrightarrow> xs ! k \<noteq> t"
  shows "\<exists>h'. removeOne_loop h l t True (as ! i) = Some (h', l\<lparr>lst_size := lst_size l - 1\<rparr>) \<and>
    chain h' (lst_head l) (take j as @ drop (Suc j) as) (take j xs @ drop (Suc j) xs) \<and>
    \<not> alive h' (as ! j) \<and> as ! j \<noteq> brk h'"
  using i t(2)
proof (induction "j - i" arbitrary: i)
  case 0
  note c = list_nodes_chain [OF n]
  have ij: "i = j" using 0 by simp
  define p where "p = as ! j"
  define x where "x = (lst_head l # as) ! j"
  define y where "y = (if Suc j < length as then as ! Suc j else null)"
  have j: "j < length as" by (rule 0)
  have p: "alive h p" "0 < p" "prevOf h p = x" "nextOf h p = y" "dataOf h p = Some t"
    using chain_nth_node [OF c j] chain_nth_prev [OF c j] chain_nth_next [OF c j]
      chain_nth_data [OF c j] t(1) by (auto simp: p_def x_def y_def nth_Cons')
  have xin: "x \<in> set (lst_head l # as)" using j nth_mem [of j "lst_head l # as"] by (simp add: x_def)
  have x: "alive h x" "x \<noteq> p"
    using chain_alive [OF c xin] chain_pred_neq [OF c j] by (auto simp: x_def p_def)
  have y: "y \<noteq> null \<longleftrightarrow> Suc j < length as" "y \<noteq> null \<Longrightarrow> alive h y" "y \<noteq> p"
    using chain_nth_node [OF c] chain_distinct_nth [OF c, of j "Suc j"] j p(2)
    by (auto simp: y_def p_def)
  define h' where "h' = h\<lparr>alive := (alive h)(p := False), nextOf := (nextOf h)(x := y),
    prevOf := (if y = null then prevOf h else (prevOf h)(y := x))\<rparr>"
  have "removeOne_loop h l t True p = Some (h', l\<lparr>lst_size := lst_size l - 1\<rparr>)"
    using p x y by (subst removeOne_loop.simps) (auto simp: effect_simps h'_def)
  moreover have "chain h' (lst_head l) (take j as @ drop (Suc j) as) (take j xs @ drop (Suc j) xs)"
    by (rule chain_remove_node [OF c j])
      (use chain_alive_upd [OF chain_mem_ok [OF c], of p] x p y chain_alive [OF c]
          y_def [symmetric] in
        \<open>auto simp: h'_def x_def p_def mem_ok_def split: if_splits\<close>)
  moreover have "\<not> alive h' (as ! j) \<and> as ! j \<noteq> brk h'"
    using mem_ok_not_brk [OF chain_mem_ok [OF c] p(1)] by (simp add: h'_def p_def)
  ultimately show ?case using ij by (auto simp: p_def)
next
  case (Suc k)
  note c = list_nodes_chain [OF n]
  have i: "i < length as" "Suc i < length as" "i < j" using Suc by auto
  have "xs ! i \<noteq> t" by (rule Suc.prems(3)) (use i in auto)
  moreover have "\<exists>h'. removeOne_loop h l t True (as ! Suc i) =
        Some (h', l\<lparr>lst_size := lst_size l - 1\<rparr>) \<and>
      chain h' (lst_head l) (take j as @ drop (Suc j) as) (take j xs @ drop (Suc j) xs) \<and>
      \<not> alive h' (as ! j) \<and> as ! j \<noteq> brk h'"
    by (rule Suc.hyps(1)) (use Suc i in auto)
  ultimately show ?case
    using i chain_nth_node [OF c i(1)] chain_nth_data [OF c i(1)] chain_nth_next [OF c i(1)]
    by (subst removeOne_loop.simps) (simp add: effect_simps)
qed

subsection \<open>The removal of a range\<close>

lemma removeRange_scan_eq:
  "alive h node \<Longrightarrow> 0 < n \<Longrightarrow> removeRange_scan h node ptr n = Some (nextOf h node)"
proof (induction n arbitrary: ptr)
  case (Suc n)
  then show ?case by (cases n) (simp_all add: effect_simps)
qed simp

lemma list_removeRange_to_end:
  assumes n: "list_nodes h l as xs" and pos: "unat pos < length xs"
    and len: "length xs \<le> unat pos + unat len" "unat pos + unat len < 4294967296"
  shows "\<exists>h' l'. list_removeRange h l pos len = Some (h', l') \<and>
    list_nodes h' l' (take (unat pos) as) (take (unat pos) xs)"
proof -
  note c = list_nodes_chain [OF n] and la = list_nodes_length [OF n]
  define i where "i = unat pos"
  define node where "node = as ! i"
  define x where "x = (lst_head l # as) ! i"
  have i: "i < length as" using pos la by (simp add: i_def)
  have ne: "as \<noteq> []" using i by auto
  have sz: "unat (lst_size l) = length as" and tl: "lst_tail l = last as"
    using n ne by (auto simp: list_nodes_def)
  have guards: "\<not> lst_size l \<le> pos" "lst_size l \<le> pos + len"
    using pos len la sz by (auto simp: word_le_nat_alt unat_add_small)
  have find: "findNode h l pos = Some node"
    using findNode_nodes [OF n pos] by (simp add: node_def i_def)
  have lt: "last as \<in> set (drop i as)" "alive h (last as)" "0 < last as" "nextOf h (last as) = null"
    using i ne chain_alive [OF c, of "last as"] chain_not_null [OF c, of "last as"] c
      last_in_set [of "drop i as"] by (auto simp: chain_def)
  have nd: "alive h node" "prevOf h node = x" "0 < node"
    using chain_nth_node [OF c i] chain_nth_prev [OF c i] by (auto simp: node_def x_def nth_Cons')
  have xin: "x \<in> set (lst_head l # as)" using i nth_mem [of i "lst_head l # as"] by (simp add: x_def)
  have dis: "distinct (lst_head l # as)" using c by (simp add: chain_def)
  have "take i (lst_head l # as) @ x # drop i as = lst_head l # as"
    using i id_take_nth_drop [of i "lst_head l # as"] by (simp add: x_def)
  then have xd: "x \<notin> set (drop i as)" using dis by (metis distinct.simps(2) distinct_append)
  have x: "alive h x" using chain_alive [OF c xin] .
  let ?h1 = "h\<lparr>nextOf := (nextOf h)(x := null)\<rparr>"
  let ?seg = "butlast (drop i as)"
  have seg: "drop i as = ?seg @ [last as]" "distinct (drop i as)"
    using i dis append_butlast_last_id [of "drop i as"] by (auto simp: last_drop)
  have hd_seg: "(if ?seg = [] then last as else hd ?seg) = node"
    using seg(1) i by (cases ?seg) (auto simp: node_def simp flip: hd_drop_conv_nth)
  have "linked (nextOf h) (prevOf h) (drop (Suc i) (lst_head l # as))"
    using c linked_drop [of _ _ "lst_head l # as" "Suc i"] by (simp only: chain_def)
  then have "linked (nextOf h) (prevOf h) (?seg @ [last as])" using seg(1) by simp
  then have lk: "linked (nextOf h) (prevOf h) ?seg" "?seg \<noteq> [] \<Longrightarrow> nextOf h (last ?seg) = last as"
    by (auto simp: linked_snoc)
  have segin: "set ?seg \<subseteq> set (drop i as)" by (auto dest: in_set_butlastD)
  have "delete_until ?h1 (if ?seg = [] then last as else hd ?seg) (last as) =
      Some (?h1\<lparr>alive := (\<lambda>a. a \<notin> set ?seg \<and> alive h a)\<rparr>)"
  proof (rule trans [OF delete_until_seg])
    show "distinct ?seg" using seg(2) by (rule distinct_butlast)
    show "\<forall>a\<in>set ?seg. alive ?h1 a" using segin chain_alive [OF c] by (auto dest: in_set_dropD)
    show "mem_ok ?h1" using chain_mem_ok [OF c] by (simp add: mem_ok_def)
    show "linked (nextOf ?h1) (prevOf ?h1) ?seg"
      by (rule linked_cong [THEN iffD2, OF _ _ lk(1)])
        (use segin xd in \<open>auto dest: in_set_butlastD\<close>)
    show "nextOf ?h1 (last ?seg) = last as" if "?seg \<noteq> []"
    proof -
      have "last ?seg \<noteq> x" using last_in_set [OF that] segin xd by blast
      then show ?thesis using lk(2) [OF that] by simp
    qed
    show "last as \<notin> set ?seg" using seg by (metis distinct_append disjoint_iff list.set_intros(1))
  qed simp
  then have del: "delete_until ?h1 node (last as) =
      Some (?h1\<lparr>alive := (\<lambda>a. a \<notin> set ?seg \<and> alive h a)\<rparr>)" (is "_ = Some ?h2")
    unfolding hd_seg .
  have lal: "alive ?h2 (last as)"
    using lt seg by simp (metis distinct_append disjoint_iff list.set_intros(1))
  define h' where "h' = ?h1\<lparr>alive := (\<lambda>a. a \<notin> set (drop i as) \<and> alive h a)\<rparr>"
  have h': "h' = ?h2\<lparr>alive := (alive ?h2)(last as := False)\<rparr>"
    by (subst h'_def, subst seg(1)) (auto simp: fun_eq_iff)
  define l' where "l' = l\<lparr>lst_tail := (if x = lst_head l then null else x),
    lst_size := lst_size l - (lst_size l - pos)\<rparr>"
  have "x \<noteq> last as" using xd lt by auto
  then have "list_removeRange h l pos len = Some (h', l')"
    using guards find lt nd x del lal tl
    by (auto simp: list_removeRange_def effect_simps h' l'_def Let_def)
  moreover have "chain h' (lst_head l) (take i as) (take i xs)"
  proof (rule chain_truncate [OF c])
    show "i \<le> length as" using i by simp
    show "mem_ok h'" using chain_mem_ok [OF c] by (simp add: h'_def mem_ok_def)
    show "nextOf h' ((lst_head l # as) ! i) = null" by (simp add: h'_def x_def)
    fix a assume a: "a \<in> set (lst_head l # take i as)"
    have "distinct ((lst_head l # take i as) @ drop i as)" using dis by simp
    then have "a \<notin> set (drop i as)" using a by (metis disjoint_iff distinct_append)
    moreover have "a \<in> set (lst_head l # as)" using a by (auto dest: in_set_takeD)
    ultimately show "alive h' a \<and> dataOf h' a = dataOf h a \<and> prevOf h' a = prevOf h a"
      using chain_alive [OF c] by (simp add: h'_def)
    show "nextOf h' a = nextOf h a" if "a \<noteq> (lst_head l # as) ! i"
      using that by (simp add: h'_def x_def)
  qed
  moreover have "lst_tail l' = (if take i as = [] then null else last (take i as))"
    using i chain_hd_neq [OF c, of "i - 1"]
    by (auto simp: l'_def x_def nth_Cons' last_take_Cons)
  moreover have "unat (lst_size l') = i" by (simp add: l'_def i_def)
  ultimately show ?thesis
    using n i by (auto simp: list_nodes_def i_def l'_def)
qed

text \<open>The same call in the middle of the list: whatever \<open>len\<close>, the nodes \<open>pos\<close> and
  \<open>pos + 1\<close> go, the size shrinks by \<open>len\<close>.\<close>

lemma list_removeRange_middle:
  assumes n: "list_nodes h l as xs" and len: "0 < unat len" "unat pos + unat len < length xs"
  shows "\<exists>h' l'. list_removeRange h l pos len = Some (h', l') \<and>
    unat (lst_size l') = length xs - unat len \<and>
    alive h' = (\<lambda>a. a \<noteq> as ! unat pos \<and> a \<noteq> as ! Suc (unat pos) \<and> alive h a)"
proof -
  note c = list_nodes_chain [OF n] and la = list_nodes_length [OF n]
  define i where "i = unat pos"
  define p where "p = as ! i"
  define q where "q = as ! Suc i"
  define x where "x = (lst_head l # as) ! i"
  have i: "i < length as" "Suc i < length as" using len la by (auto simp: i_def)
  have sz: "unat (lst_size l) = length xs" and lim: "length xs < 4278190080"
    using n la by (auto simp: list_nodes_def)
  have pl: "unat (pos + len) = unat pos + unat len" using len lim by (simp add: unat_add_small)
  have guards: "\<not> lst_size l \<le> pos" "\<not> lst_size l \<le> pos + len" "pos + len \<noteq> lst_size l"
    using len sz pl by (auto simp: word_le_nat_alt uint_eq_iff_unat)
  have find: "findNode h l pos = Some p"
    using findNode_nodes [OF n] len by (simp add: p_def i_def)
  have p: "alive h p" "0 < p" "prevOf h p = x" "nextOf h p = q"
    using chain_nth_node [OF c i(1)] chain_nth_prev [OF c i(1)] chain_nth_next [OF c i(1)] i
    by (auto simp: p_def q_def x_def nth_Cons')
  have q: "alive h q" "0 < q" "q \<noteq> p"
    using chain_nth_node [OF c i(2)] chain_distinct_nth [OF c i] by (auto simp: p_def q_def)
  have x: "alive h x" "x \<noteq> p"
    using chain_alive [OF c, of x] chain_pred_neq [OF c i(1)] i nth_mem [of i "lst_head l # as"]
    by (auto simp: x_def p_def)
  have scan: "removeRange_scan h p p (unat len) = Some q"
    using removeRange_scan_eq [OF p(1) len(1)] p(4) by simp
  have ul: "unat (lst_size l - len) = length xs - unat len"
    using len sz by (simp add: unat_sub_small)
  have xq: "x \<noteq> q"
    using c i nth_eq_iff_index_eq [of "lst_head l # as" i "Suc (Suc i)"]
    by (simp add: x_def q_def chain_def)
  define h2 where "h2 = h\<lparr>nextOf := (nextOf h)(x := nextOf h q),
    prevOf := (if nextOf h q = null then prevOf h else (prevOf h)(q := x))\<rparr>"
  define h3 where "h3 = h2\<lparr>alive := (alive h)(p := False)\<rparr>"
  define h' where "h' = h3\<lparr>alive := (alive h)(p := False, q := False)\<rparr>"
  define l' where "l' = l\<lparr>lst_tail := (if q \<noteq> lst_tail l then lst_tail l
    else if x = lst_head l then null else x), lst_size := lst_size l - len\<rparr>"
  have "delete_until h2 p q = Some h3"
    using p q x by (subst delete_until.simps)
      (simp add: effect_simps h2_def h3_def)
  moreover have "delete_node h3 q = Some h'"
    using q by (simp add: effect_simps h3_def h2_def h'_def)
  ultimately have "list_removeRange h l pos len = Some (h', l')"
    using guards find p q x xq scan
    by (auto simp: list_removeRange_def effect_simps Let_def h2_def l'_def)
  moreover have "alive h' = (\<lambda>a. a \<noteq> p \<and> a \<noteq> q \<and> alive h a)"
    by (auto simp: h'_def h3_def h2_def fun_eq_iff)
  ultimately show ?thesis using ul by (simp add: l'_def p_def q_def i_def)
qed

lemma list_removeOne_nodes:
  assumes n: "list_nodes h l as xs" and i: "unat pos \<le> j" "j < length xs"
    and t: "xs ! j = t" "\<And>k. unat pos \<le> k \<Longrightarrow> k < j \<Longrightarrow> xs ! k \<noteq> t"
  shows "\<exists>h'. list_removeOne h l t pos True = Some (h', l\<lparr>lst_size := lst_size l - 1\<rparr>) \<and>
    chain h' (lst_head l) (take j as @ drop (Suc j) as) (take j xs @ drop (Suc j) xs) \<and>
    \<not> alive h' (as ! j) \<and> as ! j \<noteq> brk h'"
proof -
  have "\<not> lst_size l \<le> pos" using i list_nodes_size [OF n] by (simp add: word_le_nat_alt)
  moreover have "findNode h l pos = Some (as ! unat pos)"
    using i by (intro findNode_nodes [OF n]) simp
  ultimately show ?thesis
    using removeOne_present [OF n i(1) _ t] i(2) list_nodes_length [OF n]
    by (simp add: list_removeOne_def)
qed

text \<open>The first match is not the last element: the object stays well formed.\<close>

lemma list_removeOne_inner:
  assumes n: "list_rep h l xs" and i: "unat pos \<le> j" "Suc j < length xs"
    and t: "xs ! j = t" "\<And>k. unat pos \<le> k \<Longrightarrow> k < j \<Longrightarrow> xs ! k \<noteq> t"
  shows "\<exists>h' l'. list_removeOne h l t pos True = Some (h', l') \<and>
    list_rep h' l' (take j xs @ drop (Suc j) xs)"
proof -
  obtain as where a: "list_nodes h l as xs" using n by (auto simp: list_rep_def)
  note la = list_nodes_length [OF a]
  obtain h' where h': "list_removeOne h l t pos True = Some (h', l\<lparr>lst_size := lst_size l - 1\<rparr>)"
    "chain h' (lst_head l) (take j as @ drop (Suc j) as) (take j xs @ drop (Suc j) xs)"
    using list_removeOne_nodes [OF a i(1) _ t] i(2) by auto
  have "drop (Suc j) as \<noteq> []" "last (drop (Suc j) as) = last as" "as \<noteq> []" using i(2) la by auto
  moreover have "unat (lst_size l - 1) = length (take j as @ drop (Suc j) as)"
  proof -
    have "0 < unat (lst_size l)" using list_nodes_size [OF a] i(2) by linarith
    then show ?thesis using list_nodes_size [OF a] i(2) la unat_dec [of "lst_size l"] by simp
  qed
  ultimately have "list_nodes h' (l\<lparr>lst_size := lst_size l - 1\<rparr>) (take j as @ drop (Suc j) as)
      (take j xs @ drop (Suc j) xs)"
    using a h'(2) i(2) la by (auto simp: list_nodes_def)
  then show ?thesis using h'(1) by (auto simp: list_rep_def)
qed

text \<open>The first match is the last element: \<open>m_tail\<close> is left pointing to the deleted node.\<close>

lemma list_removeOne_last:
  assumes n: "list_rep h l (xs @ [t])" and t: "t \<notin> set xs" "xs \<noteq> []"
  shows "\<exists>h' l'. list_removeOne h l t 0 True = Some (h', l') \<and>
    unat (lst_size l') = length xs \<and> lst_tail l' \<noteq> brk h' \<and> \<not> alive h' (lst_tail l')"
proof -
  obtain as where a: "list_nodes h l as (xs @ [t])" using n by (auto simp: list_rep_def)
  note la = list_nodes_length [OF a] and c = list_nodes_chain [OF a]
  have ne: "as \<noteq> []" using la by auto
  have ux: "(xs @ [t]) ! k \<noteq> t" if "k < length xs" for k
    using that t(1) nth_mem [OF that] by (auto simp: nth_append)
  obtain h' where h': "list_removeOne h l t 0 True = Some (h', l\<lparr>lst_size := lst_size l - 1\<rparr>)"
    "\<not> alive h' (as ! length xs)" "as ! length xs \<noteq> brk h'"
    using list_removeOne_nodes [OF a, of 0 "length xs" t] ux by auto
  have "lst_tail l = as ! length xs"
    using a ne la by (simp add: list_nodes_def last_conv_nth)
  moreover have "unat (lst_size l - 1) = length xs"
    using list_nodes_size [OF a] unat_dec [of "lst_size l"] by simp
  ultimately show ?thesis using h' by auto
qed

lemma list_append_dangling:
  assumes "lst_size l \<noteq> 0" "\<not> m_maxSize \<le> lst_size l + 1" "\<not> alive h (lst_tail l)"
    "lst_tail l \<noteq> brk h"
  shows "list_append h l t = None"
  using assms by (simp add: list_append_def new_node_def effect_simps)

subsection \<open>The list as the container of verify\<close>

definition list_ops :: "('a mem \<times> dlist, addr, 'a) container" where
  "list_ops = \<lparr>op_size = (\<lambda>(h, l). lst_size l),
     op_append = (\<lambda>(h, l) t. map_option Inr (list_append h l t)),
     op_insert = (\<lambda>(h, l) pos t. map_option Inr (list_insert h l pos t)),
     op_removeAt = (\<lambda>(h, l) pos. map_option Inr (list_removeAt h l pos)),
     op_begin = (\<lambda>(h, l). list_begin h l), op_end = (\<lambda>(h, l). list_end h l),
     op_ne = (\<lambda>(h, l). list_iter_ne h), op_deref = (\<lambda>(h, l). load_data h),
     op_incr = (\<lambda>(h, l). load_next h)\<rparr>"

definition list_iter_at :: "'a mem \<times> dlist \<Rightarrow> addr \<Rightarrow> nat \<Rightarrow> bool" where
  "list_iter_at = (\<lambda>(h, l) it i. \<exists>as xs. list_nodes h l as xs \<and>
     it = (if i < length as then as ! i else null))"

lemma list_iter_at_nodes:
  assumes "list_nodes h l as xs"
  shows "list_iter_at (h, l) it i \<longleftrightarrow> it = (if i < length as then as ! i else null)"
proof -
  have "bs = as" if "list_nodes h l bs ys" for bs ys
    using chain_unique [OF list_nodes_chain [OF that] list_nodes_chain [OF assms]] .
  then show ?thesis using assms unfolding list_iter_at_def prod.case by blast
qed

interpretation ls: sequence list_ops "\<lambda>(h, l). list_rep h l" "4278190079" list_iter_at
proof (unfold_locales, goal_cases)
  case (1 s xs)
  then show ?case by (auto simp: list_ops_def list_rep_size)
next
  case (2 s xs t)
  obtain h l as where s: "s = (h, l)" "list_nodes h l as xs"
    using 2 by (auto simp: list_rep_def split: prod.splits)
  then show ?case
    using list_append_nodes [OF s(2), of t] 2(2) by (auto simp: list_ops_def list_rep_def)
next
  case (3 s xs pos t)
  obtain h l as where s: "s = (h, l)" "list_nodes h l as xs"
    using 3 by (auto simp: list_rep_def split: prod.splits)
  then show ?case
    using list_insert_nodes [OF s(2), of pos t] 3(2,3,4) by (auto simp: list_ops_def list_rep_def)
next
  case (4 s xs pos)
  obtain h l as where s: "s = (h, l)" "list_nodes h l as xs"
    using 4 by (auto simp: list_rep_def split: prod.splits)
  then show ?case
    using list_removeAt_nodes [OF s(2) 4(2)] by (auto simp: list_ops_def list_rep_def)
next
  case (5 s xs)
  obtain h l as where "s = (h, l)" "list_nodes h l as xs"
    using 5 by (auto simp: list_rep_def split: prod.splits)
  then show ?case
    using chain_hd_next [of h "lst_head l" as xs] chain_alive_hd [of h "lst_head l" as xs]
    by (auto simp: list_ops_def list_begin_def effect_simps list_iter_at_nodes dest: list_nodes_chain)
next
  case (6 s xs it i)
  obtain h l as where s: "s = (h, l)" "list_nodes h l as xs"
    using 6 by (auto simp: list_rep_def split: prod.splits)
  then show ?case
    using 6 chain_nth_node [OF list_nodes_chain [OF s(2)], of i]
      chain_nth_data [OF list_nodes_chain [OF s(2)], of i] list_nodes_length [OF s(2)]
    by (simp add: list_ops_def list_iter_at_nodes effect_simps)
next
  case (7 s xs it i)
  obtain h l as where s: "s = (h, l)" "list_nodes h l as xs"
    using 7 by (auto simp: list_rep_def split: prod.splits)
  then show ?case
    using 7 chain_nth_node [OF list_nodes_chain [OF s(2)], of i]
      chain_nth_next [OF list_nodes_chain [OF s(2)], of i] list_nodes_length [OF s(2)]
    by (simp add: list_ops_def list_iter_at_nodes effect_simps)
qed

subsection \<open>Properties of the list\<close>

text \<open>Two lists for the witnesses.\<close>

definition list_of :: "'a list \<Rightarrow> ('a mem \<times> dlist) option" where
  "list_of xs = fold (\<lambda>x s. s \<bind> (\<lambda>(h, l). list_append h l x)) xs (Some (list_new empty_mem))"

lemma list_of_rep:
  assumes "length xs < 4278190080"
  shows "\<exists>h l. list_of xs = Some (h, l) \<and> list_rep h l xs"
  using assms
proof (induction xs rule: rev_induct)
  case Nil
  then show ?case using list_new_rep [OF mem_ok_empty] by (auto simp: list_of_def)
next
  case (snoc x xs)
  obtain h l as where "list_of xs = Some (h, l)" "list_nodes h l as xs"
    using snoc by (auto simp: list_rep_def)
  then show ?case
    using list_append_nodes [of h l as xs x] snoc.prems by (auto simp: list_of_def list_rep_def)
qed

text \<open>C16: \<open>at\<close> returns the element at the position and throws \<open>out_of_range\<close> exactly
  when there is none, whichever end \<open>findNode\<close> walks from.\<close>

theorem list_at_correct:
  assumes "list_rep h l xs"
  shows "list_at h l pos =
    Some (if unat pos < length xs then Inr (xs ! unat pos) else Inl OutOfRange)"
  by (rule list_at_nodes [OF assms])

theorem list_at_correct_witness:
  "\<exists>h l. list_of [1, 2, 3 :: int] = Some (h, l) \<and> list_at h l 2 = Some (Inr 3) \<and>
    list_at h l 3 = Some (Inl OutOfRange)"
  using list_of_rep [of "[1, 2, 3 :: int]"] list_at_correct [of _ _ "[1, 2, 3 :: int]"] by fastforce

text \<open>\<open>insert(0, t)\<close> into a nonempty list counts the new element but does not link it:
  the size grows and the list still starts with its old first element.\<close>

theorem list_insert_front_lost:
  assumes "list_rep h l xs" "xs \<noteq> []" "Suc (length xs) < unat m_maxSize"
  shows "\<exists>h' l'. list_insert h l 0 t = Some (h', l') \<and> unat (lst_size l') = Suc (length xs) \<and>
    list_at h' l' 0 = Some (Inr (hd xs))"
proof -
  obtain as where n: "list_nodes h l as xs" using assms(1) by (auto simp: list_rep_def)
  note c = list_nodes_chain [OF n] and la = list_nodes_length [OF n]
  obtain h' l' where i: "list_insert h l 0 t = Some (h', l')" "lst_head l' = lst_head l"
    "unat (lst_size l') = Suc (length xs)" "alive h' (lst_head l)" "nextOf h' (lst_head l) = hd as"
    "alive h' (hd as)" "dataOf h' (hd as) = dataOf h (hd as)"
    using list_insert_front [OF n assms(2,3)] by blast
  have hd: "hd as = as ! 0" "hd xs = xs ! 0" "0 < length as"
    using assms(2) la by (cases as; cases xs; simp)+
  have "\<not> lst_size l' \<le> 0" using i(3) by (simp add: word_le_nat_alt)
  moreover have "0 < lst_size l' div 2"
    using i(3) assms(2) by (cases xs) (simp_all add: word_less_nat_alt unat_div)
  ultimately show ?thesis
    using i chain_nth_node [OF c hd(3)] chain_nth_data [OF c hd(3)] hd
    by (simp add: list_at_def findNode_def findNode_loop.simps effect_simps)
qed

theorem list_insert_front_lost_witness:
  "\<exists>h l h' l'. list_of [1, 2 :: int] = Some (h, l) \<and> list_insert h l 0 7 = Some (h', l') \<and>
    unat (lst_size l') = 3 \<and> list_at h' l' 0 = Some (Inr 1)"
  using list_of_rep [of "[1, 2 :: int]"] list_insert_front_lost [of _ _ "[1, 2 :: int]" 7] by fastforce

text \<open>\<open>removeAt(pos, len)\<close> that ends inside the list deletes two nodes whatever
  \<open>len\<close>, and takes \<open>len\<close> off the size.\<close>

theorem list_removeRange_two_nodes:
  assumes "list_nodes h l as xs" "0 < unat len" "unat pos + unat len < length xs"
  shows "\<exists>h' l'. list_removeRange h l pos len = Some (h', l') \<and>
    unat (lst_size l') = length xs - unat len \<and>
    {a. alive h a \<and> \<not> alive h' a} = {as ! unat pos, as ! Suc (unat pos)}"
proof -
  have "length as = length xs" by (rule list_nodes_length [OF assms(1)])
  then have "alive h (as ! unat pos)" "alive h (as ! Suc (unat pos))"
    using chain_nth_node [OF list_nodes_chain [OF assms(1)]] assms(2,3) by auto
  then show ?thesis using list_removeRange_middle [OF assms] by (auto simp: fun_eq_iff)
qed

theorem list_removeRange_two_nodes_witness:
  "\<exists>h l as. list_of [1, 2, 3, 4, 5 :: int] = Some (h, l) \<and>
    (\<exists>h' l'. list_removeRange h l 1 3 = Some (h', l') \<and> unat (lst_size l') = 2 \<and>
      {a. alive h a \<and> \<not> alive h' a} = {as ! 1, as ! Suc 1})"
proof -
  obtain h l as where "list_of [1, 2, 3, 4, 5 :: int] = Some (h, l)"
    "list_nodes h l as [1, 2, 3, 4, 5]"
    using list_of_rep [of "[1, 2, 3, 4, 5 :: int]"] by (auto simp: list_rep_def)
  then show ?thesis
    using list_removeRange_two_nodes [of h l as "[1, 2, 3, 4, 5]" 3 1] by auto
qed

text \<open>\<open>removeAt(pos, len)\<close> that reaches the end of the list keeps the first
  \<open>pos\<close> elements in a well-formed list.\<close>

theorem list_removeRange_tail:
  assumes "list_rep h l xs" "unat pos < length xs" "length xs \<le> unat pos + unat len"
    "unat pos + unat len < 4294967296"
  shows "\<exists>h' l'. list_removeRange h l pos len = Some (h', l') \<and> list_rep h' l' (take (unat pos) xs)"
  using assms list_removeRange_to_end [of h l _ xs pos len] by (fastforce simp: list_rep_def)

theorem list_removeRange_tail_witness:
  "\<exists>h l h' l'. list_of [1, 2, 3 :: int] = Some (h, l) \<and> list_removeRange h l 1 2 = Some (h', l') \<and>
    list_rep h' l' [1]"
  using list_of_rep [of "[1, 2, 3 :: int]"] list_removeRange_tail [of _ _ "[1, 2, 3 :: int]" 1 2]
  by fastforce

text \<open>\<open>removeOne\<close> of a value that occurs only in the last of several elements leaves
  \<open>m_tail\<close> on the deleted node, and the next \<open>append\<close> writes through it.\<close>

theorem list_removeOne_then_append:
  assumes "list_rep h l (xs @ [t])" "t \<notin> set xs" "xs \<noteq> []"
  shows "\<exists>h' l'. list_removeOne h l t 0 True = Some (h', l') \<and> list_append h' l' u = None"
proof -
  obtain h' l' where r: "list_removeOne h l t 0 True = Some (h', l')"
    "unat (lst_size l') = length xs" "\<not> alive h' (lst_tail l')" "lst_tail l' \<noteq> brk h'"
    using list_removeOne_last [OF assms] by blast
  have "length xs < 4278190079" using list_rep_bound [OF assms(1)] by simp
  then have "list_append h' l' u = None"
    using r assms(3)
    by (intro list_append_dangling) (auto simp: word_le_nat_alt unat_inc simp flip: unat_eq_0)
  then show ?thesis using r(1) by blast
qed

theorem list_removeOne_then_append_witness:
  "\<exists>h l h' l'. list_of [1, 2 :: int] = Some (h, l) \<and> list_removeOne h l 2 0 True = Some (h', l') \<and>
    list_append h' l' 9 = None"
  using list_of_rep [of "[1, 2 :: int]"] list_removeOne_then_append [of _ _ "[1 :: int]" 2 9] by fastforce

text \<open>the loop from \<open>begin()\<close> to \<open>end()\<close> over a nonempty list visits the
  elements before the first one that equals the last: never the last itself.\<close>

theorem list_iteration_stops_early:
  assumes "list_rep h l xs" "xs \<noteq> []"
  shows "(list_begin h l \<bind> list_iterate h l) = Some (takeWhile (\<lambda>x. x \<noteq> last xs) xs)"
proof -
  obtain as where n: "list_nodes h l as xs" using assms(1) by (auto simp: list_rep_def)
  note c = list_nodes_chain [OF n]
  have "as \<noteq> []" using assms(2) list_nodes_length [OF n] by auto
  then have "list_begin h l = Some (as ! 0)"
    using chain_hd_next [OF c] chain_alive_hd [OF c] by (simp add: list_begin_def effect_simps)
  then show ?thesis using list_iterate_from [OF n, of 0] assms(2) by simp
qed

theorem list_iteration_stops_early_witness:
  "\<exists>h l. list_of [1, 2, 3, 2 :: int] = Some (h, l) \<and>
    (list_begin h l \<bind> list_iterate h l) = Some [1]"
  using list_of_rep [of "[1, 2, 3, 2 :: int]"] list_iteration_stops_early [of _ _ "[1, 2, 3, 2 :: int]"]
  by fastforce

text \<open>The destructor releases the head node and every data node, nothing else and none
  twice.\<close>

theorem list_destroy_releases:
  assumes "list_nodes h l as xs"
  shows "\<exists>h'. list_destroy h l = Some h' \<and> {a. alive h a \<and> \<not> alive h' a} = set (lst_head l # as)"
proof -
  have "\<forall>a\<in>set (lst_head l # as). alive h a"
    using chain_alive [OF list_nodes_chain [OF assms]] by blast
  then show ?thesis using list_destroy_nodes [OF assms] by auto
qed

theorem list_destroy_releases_witness:
  "\<exists>h l h' as. list_of [1, 2 :: int] = Some (h, l) \<and> list_destroy h l = Some h' \<and>
    {a. alive h a \<and> \<not> alive h' a} = set (lst_head l # as)"
  using list_of_rep [of "[1, 2 :: int]"] list_destroy_releases [of _ _ _ "[1, 2 :: int]"]
  unfolding list_rep_def by fastforce

end
