(* ===== verification/VectorHpp.thy ===== *)
theory VectorHpp
  imports Sequence
begin

text \<open>
  \<open>Vector<T>\<close> of Data Structure/DataStructure/Vector.hpp: a growing array.  The block
  \<open>m_element\<close> points to is the list of its cells, \<open>None\<close> in a cell whose value is
  indeterminate; \<open>nullptr\<close> and a block of length 0 are both the empty list, since neither
  has a cell to access and \<open>freeMemory\<close> releases both without effect.  Element types are the
  trivially copyable ones, for which \<open>memcpy\<close> and \<open>memmove\<close> copy values; a copy of no
  bytes is taken to do nothing, whatever its pointers.
\<close>

record 'a vec =
  vec_elem :: "'a option list"
  vec_size :: uint
  vec_step :: uint
  vec_capacity :: uint

definition m_stepUint :: uint where
  "m_stepUint = 10"

subsection \<open>Cells of a block\<close>

definition cell_load :: "'a option list \<Rightarrow> uint \<Rightarrow> 'a option" where
  "cell_load b i = (if unat i < length b then b ! unat i else None)"

definition cell_store :: "'a option list \<Rightarrow> uint \<Rightarrow> 'a option \<Rightarrow> 'a option list option" where
  "cell_store b i c = (if unat i < length b then Some (b[unat i := c]) else None)"

text \<open>\<open>memcpy\<close> into the start of another block, \<open>memmove\<close> inside one block; sizes in
  elements.\<close>

definition mem_copy :: "'a option list \<Rightarrow> 'a option list \<Rightarrow> nat \<Rightarrow> 'a option list option" where
  "mem_copy dst src n =
     (if n = 0 then Some dst
      else if n \<le> length dst \<and> n \<le> length src then Some (take n src @ drop n dst) else None)"

definition mem_move :: "'a option list \<Rightarrow> nat \<Rightarrow> nat \<Rightarrow> nat \<Rightarrow> 'a option list option" where
  "mem_move b dst src n =
     (if n = 0 then Some b
      else if dst + n \<le> length b \<and> src + n \<le> length b
      then Some (take dst b @ take n (drop src b) @ drop (dst + n) b) else None)"

subsection \<open>Construction, copy, assignment, release\<close>

definition vec_new_size :: "uint \<Rightarrow> 'a vec outcome" where
  "vec_new_size sz =
     (if sz \<le> m_maxSize
      then Some (Inr \<lparr>vec_elem = replicate (unat sz) None, vec_size = 0,
        vec_step = m_stepUint, vec_capacity = sz\<rparr>)
      else Some (Inl AssertFailed))"

definition vec_new :: "'a vec outcome" where
  "vec_new = vec_new_size 0"

definition vec_copy :: "'a vec \<Rightarrow> 'a vec option" where
  "vec_copy t = do {
     b \<leftarrow> mem_copy (replicate (unat (vec_capacity t)) None) (vec_elem t) (unat (vec_size t));
     Some \<lparr>vec_elem = b, vec_size = vec_size t, vec_step = vec_step t, vec_capacity = vec_capacity t\<rparr>
   }"

text \<open>The move constructor: the new object and what is left of the source.\<close>

definition vec_move :: "'a vec \<Rightarrow> 'a vec \<times> 'a vec" where
  "vec_move t = (\<lparr>vec_elem = vec_elem t, vec_size = vec_size t, vec_step = vec_step t,
     vec_capacity = vec_capacity t\<rparr>, t\<lparr>vec_elem := [], vec_size := 0, vec_capacity := 0\<rparr>)"

definition vec_clear :: "'a vec \<Rightarrow> 'a vec" where
  "vec_clear v = v\<lparr>vec_elem := [], vec_size := 0, vec_capacity := 0, vec_step := m_stepUint\<rparr>"

text \<open>Assignment from another object (self-assignment returns at once): the block is copied, the
  old one is not released.\<close>

definition vec_assign :: "'a vec \<Rightarrow> 'a vec \<Rightarrow> 'a vec option" where
  "vec_assign v t = do {
     b \<leftarrow> mem_copy (replicate (unat (vec_capacity t)) None) (vec_elem t) (unat (vec_size t));
     Some (v\<lparr>vec_elem := b, vec_size := vec_size t, vec_step := vec_step t,
       vec_capacity := vec_capacity t\<rparr>)
   }"

definition vec_move_assign :: "'a vec \<Rightarrow> 'a vec \<Rightarrow> 'a vec \<times> 'a vec" where
  "vec_move_assign v t = ((vec_clear v)\<lparr>vec_elem := vec_elem t, vec_size := vec_size t,
     vec_step := vec_step t, vec_capacity := vec_capacity t\<rparr>,
     t\<lparr>vec_elem := [], vec_size := 0, vec_capacity := 0\<rparr>)"

subsection \<open>Insertion and removal\<close>

text \<open>The growth step that \<open>append\<close> and \<open>insert\<close> share.\<close>

definition vec_grow :: "'a vec \<Rightarrow> 'a vec outcome" where
  "vec_grow v =
     (if vec_capacity v + 1 \<le> m_maxSize then do {
        let cap = (if m_maxSize < vec_capacity v + vec_step v then m_maxSize
                   else vec_capacity v + vec_step v);
        newArray \<leftarrow> mem_copy (replicate (unat cap) None) (vec_elem v) (unat (vec_size v));
        Some (Inr (v\<lparr>vec_capacity := cap, vec_elem := newArray\<rparr>))
      } else Some (Inl AssertFailed))"

definition vec_append :: "'a vec \<Rightarrow> 'a \<Rightarrow> 'a vec outcome" where
  "vec_append v t = bind_outcome
     (if vec_capacity v < vec_size v + 1 then vec_grow v else Some (Inr v))
     (\<lambda>v. do {
        b \<leftarrow> cell_store (vec_elem v) (vec_size v) (Some t);
        Some (Inr (v\<lparr>vec_elem := b, vec_size := vec_size v + 1\<rparr>))
      })"

definition vec_removeRange :: "'a vec \<Rightarrow> uint \<Rightarrow> uint \<Rightarrow> 'a vec option" where
  "vec_removeRange v pos len =
     (if vec_size v < pos then Some v
      else do {
        let len = (if vec_size v < len + pos then vec_size v - pos else len);
        let range = pos + len;
        let sz = vec_size v - range;
        b \<leftarrow> mem_move (vec_elem v) (unat pos) (unat range) (unat sz);
        Some (v\<lparr>vec_elem := b, vec_size := vec_size v - len\<rparr>)
      })"

definition vec_removeAt :: "'a vec \<Rightarrow> uint \<Rightarrow> 'a vec option" where
  "vec_removeAt v pos = vec_removeRange v pos 1"

definition vec_removeLast :: "'a vec \<Rightarrow> 'a vec option" where
  "vec_removeLast v = vec_removeAt v (vec_size v - 1)"

definition vec_removeFirst :: "'a vec \<Rightarrow> 'a vec option" where
  "vec_removeFirst v = vec_removeAt v 0"

text \<open>\<open>while (count)\<close> of \<open>insert\<close>: shift one cell up, from \<open>movePos\<close> down.\<close>

fun vec_shift :: "'a option list \<Rightarrow> uint \<Rightarrow> nat \<Rightarrow> 'a option list option" where
  "vec_shift b movePos 0 = Some b"
| "vec_shift b movePos (Suc count) = do {
     c \<leftarrow> (if unat (movePos - 1) < length b then Some (b ! unat (movePos - 1)) else None);
     b \<leftarrow> cell_store b movePos c;
     vec_shift b (movePos - 1) count
   }"

definition vec_insert :: "'a vec \<Rightarrow> uint \<Rightarrow> 'a \<Rightarrow> 'a vec outcome" where
  "vec_insert v pos t =
     (let sz = vec_size v + 1 in
      if sz < pos then Some (Inr v)
      else bind_outcome
        (if vec_capacity v < sz then vec_grow v else Some (Inr v))
        (\<lambda>v. do {
           b \<leftarrow> vec_shift (vec_elem v) (vec_size v) (unat (vec_size v - pos));
           b \<leftarrow> cell_store b pos (Some t);
           Some (Inr (v\<lparr>vec_elem := b, vec_size := vec_size v + 1\<rparr>))
         }))"

lemma vec_removeAt_size_le:
  assumes "vec_removeAt v pos = Some w"
  shows "unat (vec_size w) \<le> unat (vec_size v)"
proof (cases "vec_size v < pos")
  case True
  then show ?thesis using assms by (simp add: vec_removeAt_def vec_removeRange_def)
next
  case False
  show ?thesis
  proof (cases "vec_size v < 1 + pos")
    case True
    then have "vec_size w = vec_size v - (vec_size v - pos)"
      using assms False
      by (auto simp: vec_removeAt_def vec_removeRange_def Let_def bind_eq_Some_conv)
    then show ?thesis using False by (simp add: word_le_nat_alt [symmetric])
  next
    case neq: False
    then have w: "vec_size w = vec_size v - 1"
      using assms False
      by (auto simp: vec_removeAt_def vec_removeRange_def Let_def bind_eq_Some_conv)
    have "vec_size v \<noteq> 0"
    proof
      assume "vec_size v = 0"
      then have "pos = 0" using False by (simp add: word_le_nat_alt not_less unat_eq_zero)
      then show False using neq \<open>vec_size v = 0\<close> by simp
    qed
    then have "0 < unat (vec_size v)" by (simp add: unat_gt_0)
    then show ?thesis using w unat_dec [of "vec_size v"] by simp
  qed
qed

text \<open>\<open>removeOne\<close>: \<open>i\<close> is a \<open>size_t\<close>, which \<open>removeAt(i)\<close> narrows to \<open>uint\<close>.  The
  start position is only checked, the scan starts at 0; after a removal \<open>i\<close> still advances.\<close>

function vec_removeOne_loop :: "'a vec \<Rightarrow> 'a \<Rightarrow> bool \<Rightarrow> nat \<Rightarrow> 'a vec option" where
  "vec_removeOne_loop v t onlyOne i =
     (if i < unat (vec_size v) then do {
        c \<leftarrow> cell_load (vec_elem v) (of_nat i);
        if c = t then do {
          w \<leftarrow> vec_removeAt v (of_nat i);
          if onlyOne then Some w else vec_removeOne_loop w t onlyOne (Suc i)
        } else vec_removeOne_loop v t onlyOne (Suc i)
      } else Some v)"
  by pat_completeness auto
termination
  by (relation "measure (\<lambda>(v, t, o1, i). unat (vec_size v) - i)")
    (auto dest: vec_removeAt_size_le)

declare vec_removeOne_loop.simps [simp del]

definition vec_removeOne :: "'a vec \<Rightarrow> 'a \<Rightarrow> uint \<Rightarrow> bool \<Rightarrow> 'a vec option" where
  "vec_removeOne v t pos onlyOne =
     (if vec_size v \<le> pos then Some v else vec_removeOne_loop v t onlyOne 0)"

subsection \<open>Access and search\<close>

definition vec_at :: "'a vec \<Rightarrow> uint \<Rightarrow> 'a outcome" where
  "vec_at v pos =
     (if vec_size v \<le> pos then Some (Inl OutOfRange)
      else do { x \<leftarrow> cell_load (vec_elem v) pos; Some (Inr x) })"

text \<open>\<open>operator[]\<close> is \<open>noexcept\<close>.\<close>

definition vec_index :: "'a vec \<Rightarrow> uint \<Rightarrow> 'a outcome" where
  "vec_index v pos = noexcept
     (if vec_size v \<le> pos then Some (Inl OutOfRange)
      else do { x \<leftarrow> cell_load (vec_elem v) pos; Some (Inr x) })"

definition vec_first :: "'a vec \<Rightarrow> 'a outcome" where
  "vec_first v =
     (if vec_size v = 0 then Some (Inl OutOfRange)
      else do { x \<leftarrow> cell_load (vec_elem v) 0; Some (Inr x) })"

definition vec_last :: "'a vec \<Rightarrow> 'a outcome" where
  "vec_last v =
     (if vec_size v = 0 then Some (Inl OutOfRange)
      else do { x \<leftarrow> cell_load (vec_elem v) (vec_size v - 1); Some (Inr x) })"

text \<open>The position \<open>find\<close> returns, \<open>None\<close> for its final \<open>return m_nopos\<close>.  \<open>f\<close> is the
  comparison: \<open>==\<close> in the first overload, the given function in the second.\<close>

function vec_find_loop :: "'a vec \<Rightarrow> ('a \<Rightarrow> 'a \<Rightarrow> bool) \<Rightarrow> 'a \<Rightarrow> uint \<Rightarrow> uint option option" where
  "vec_find_loop v f t pos =
     (if pos < vec_size v then do {
        x \<leftarrow> cell_load (vec_elem v) pos;
        if f x t then Some (Some pos) else vec_find_loop v f t (pos + 1)
      } else Some None)"
  by pat_completeness auto
termination
proof (relation "measure (\<lambda>(v, f, t, pos). unat (vec_size v) - unat pos)", goal_cases)
  case (2 v f t pos x)
  then have lt: "unat pos < unat (vec_size v)" by (simp add: word_less_nat_alt)
  then have "unat (pos + 1) = Suc (unat pos)"
    using unat_uint_less [of "vec_size v"] by (intro unat_inc) linarith
  then show ?case using lt by simp
qed simp

declare vec_find_loop.simps [simp del]

definition vec_find :: "'a vec \<Rightarrow> 'a \<Rightarrow> uint \<Rightarrow> uint option option" where
  "vec_find v t pos = vec_find_loop v (\<lambda>x y. x = y) t pos"

definition vec_find_by :: "'a vec \<Rightarrow> 'a \<Rightarrow> ('a \<Rightarrow> 'a \<Rightarrow> bool) \<Rightarrow> uint \<Rightarrow> uint option option" where
  "vec_find_by v t f pos = vec_find_loop v f t pos"

definition vec_contains :: "'a vec \<Rightarrow> 'a \<Rightarrow> uint \<Rightarrow> bool option" where
  "vec_contains v t pos = map_option (\<lambda>r. r \<noteq> None) (vec_find_loop v (\<lambda>x y. y = x) t pos)"

definition vec_isEmpty :: "'a vec \<Rightarrow> bool" where
  "vec_isEmpty v \<longleftrightarrow> vec_size v \<noteq> 0"

definition vec_setStep :: "'a vec \<Rightarrow> uint \<Rightarrow> 'a vec" where
  "vec_setStep v step = v\<lparr>vec_step := step\<rparr>"

subsection \<open>Rearranging\<close>

definition vec_swap :: "'a vec \<Rightarrow> uint \<Rightarrow> uint \<Rightarrow> 'a vec option" where
  "vec_swap v first second =
     (if first = second \<or> vec_size v \<le> first \<or> vec_size v \<le> second then Some v
      else do {
        x \<leftarrow> cell_load (vec_elem v) first;
        y \<leftarrow> cell_load (vec_elem v) second;
        b \<leftarrow> cell_store (vec_elem v) first (Some y);
        b \<leftarrow> cell_store b second (Some x);
        Some (v\<lparr>vec_elem := b\<rparr>)
      })"

text \<open>\<open>resize(size, t)\<close>: \<open>new T[m_capacity]{ t }\<close> gives \<open>t\<close> to the first element only and
  value-initialises the rest (\<open>dflt\<close>); with \<open>m_capacity = 0\<close> it throws, in a \<open>noexcept\<close>
  function.\<close>

definition vec_resize :: "'a \<Rightarrow> 'a vec \<Rightarrow> uint \<Rightarrow> 'a \<Rightarrow> 'a vec outcome" where
  "vec_resize dflt v sz t =
     (if sz = 0 then Some (Inl Terminate)
      else Some (Inr ((vec_clear v)\<lparr>vec_capacity := sz, vec_size := sz,
        vec_elem := Some t # replicate (unat sz - 1) (Some dflt)\<rparr>)))"

definition vec_resize_default :: "'a \<Rightarrow> 'a vec \<Rightarrow> uint \<Rightarrow> 'a vec outcome" where
  "vec_resize_default dflt v sz = vec_resize dflt v sz dflt"

fun vec_reverse_loop :: "'a option list \<Rightarrow> uint \<Rightarrow> nat \<Rightarrow> nat \<Rightarrow> 'a option list option" where
  "vec_reverse_loop b sz i 0 = Some b"
| "vec_reverse_loop b sz i (Suc n) = do {
     x \<leftarrow> cell_load b (of_nat i);
     y \<leftarrow> cell_load b (sz - 1 - of_nat i);
     b \<leftarrow> cell_store b (of_nat i) (Some y);
     b \<leftarrow> cell_store b (sz - 1 - of_nat i) (Some x);
     vec_reverse_loop b sz (Suc i) n
   }"

definition vec_reverse :: "'a vec \<Rightarrow> 'a vec option" where
  "vec_reverse v =
     (if vec_isEmpty v then Some v
      else do {
        b \<leftarrow> vec_reverse_loop (vec_elem v) (vec_size v) 0 (unat (vec_size v) div 2);
        Some (v\<lparr>vec_elem := b\<rparr>)
      })"

text \<open>Iterators are pointers into the block, \<open>end()\<close> is one past the last element: the values
  a \<open>for (it = begin(); it != end(); it++)\<close> loop visits.\<close>

definition vec_iterate :: "'a vec \<Rightarrow> 'a list option" where
  "vec_iterate v =
     (if unat (vec_size v) \<le> length (vec_elem v)
      then those (take (unat (vec_size v)) (vec_elem v)) else None)"

subsection \<open>What a vector represents\<close>

definition vec_rep :: "'a vec \<Rightarrow> 'a list \<Rightarrow> bool" where
  "vec_rep v xs \<longleftrightarrow> length (vec_elem v) = unat (vec_capacity v) \<and>
     unat (vec_size v) = length xs \<and> length xs \<le> unat (vec_capacity v) \<and>
     take (length xs) (vec_elem v) = map Some xs \<and> unat (vec_capacity v) \<le> unat m_maxSize \<and>
     0 < unat (vec_step v) \<and> unat (vec_step v) < 16777216"

lemma vec_rep_size: "vec_rep v xs \<Longrightarrow> unat (vec_size v) = length xs"
  by (simp add: vec_rep_def)

lemma vec_rep_bounds:
  "vec_rep v xs \<Longrightarrow> length xs \<le> unat (vec_capacity v) \<and> unat (vec_capacity v) \<le> 4278190080"
  by (simp add: vec_rep_def)

lemma vec_size_le: "vec_rep v xs \<Longrightarrow> vec_size v \<le> pos \<longleftrightarrow> length xs \<le> unat pos"
  by (simp add: word_le_nat_alt vec_rep_size)

lemma vec_elem_nth:
  assumes "vec_rep v xs" "i < length xs"
  shows "vec_elem v ! i = Some (xs ! i)"
proof -
  have "vec_elem v ! i = take (length xs) (vec_elem v) ! i" using assms(2) by simp
  also have "take (length xs) (vec_elem v) = map Some xs" using assms(1) by (simp only: vec_rep_def)
  finally show ?thesis using assms(2) by simp
qed

lemma cell_load_rep:
  assumes "vec_rep v xs" "unat i < length xs"
  shows "cell_load (vec_elem v) i = Some (xs ! unat i)"
proof -
  have "unat i < length (vec_elem v)" using assms by (auto simp: vec_rep_def)
  then show ?thesis using vec_elem_nth [OF assms] by (simp add: cell_load_def)
qed

lemma vec_elem_split:
  assumes "vec_rep v xs"
  obtains r where "vec_elem v = map Some xs @ r" "length xs + length r = unat (vec_capacity v)"
proof
  have "vec_elem v = take (length xs) (vec_elem v) @ drop (length xs) (vec_elem v)" by simp
  also have "take (length xs) (vec_elem v) = map Some xs" using assms by (simp add: vec_rep_def)
  finally show "vec_elem v = map Some xs @ drop (length xs) (vec_elem v)" .
  show "length xs + length (drop (length xs) (vec_elem v)) = unat (vec_capacity v)"
    using assms by (simp add: vec_rep_def)
qed

lemma vec_repI:
  assumes "vec_elem v = map Some xs @ r" "length xs + length r = unat (vec_capacity v)"
    "unat (vec_size v) = length xs" "unat (vec_capacity v) \<le> unat m_maxSize"
    "0 < unat (vec_step v)" "unat (vec_step v) < 16777216"
  shows "vec_rep v xs"
  using assms by (simp add: vec_rep_def)

lemma vec_new_rep: "sz \<le> m_maxSize \<Longrightarrow> \<exists>v. vec_new_size sz = Some (Inr v) \<and> vec_rep v [] \<and>
    vec_capacity v = sz"
  by (auto simp: vec_new_size_def m_stepUint_def word_le_nat_alt
      intro!: vec_repI [where r = "replicate (unat sz) None"])

lemma vec_grow_rep:
  assumes r: "vec_rep v xs" and full: "unat (vec_capacity v) = length xs"
    and room: "length xs < unat m_maxSize"
  shows "\<exists>w. vec_grow v = Some (Inr w) \<and> vec_rep w xs \<and> length xs < unat (vec_capacity w) \<and>
    vec_size w = vec_size v"
proof -
  obtain q where q: "vec_elem v = map Some xs @ q" using vec_elem_split [OF r] by metis
  define cap where "cap = (if m_maxSize < vec_capacity v + vec_step v then m_maxSize
    else vec_capacity v + vec_step v)"
  have b: "0 < unat (vec_step v)" "unat (vec_step v) < 16777216"
    using r by (simp_all add: vec_rep_def)
  have sum: "unat (vec_capacity v + vec_step v) = length xs + unat (vec_step v)"
    using b full room by (simp add: unat_add_small)
  then have cap: "length xs < unat cap" "unat cap \<le> 4278190080"
    using b room by (auto simp: cap_def word_less_nat_alt)
  have "mem_copy (replicate (unat cap) None) (vec_elem v) (unat (vec_size v)) =
      Some (map Some xs @ replicate (unat cap - length xs) None)"
    using q cap vec_rep_size [OF r] by (auto simp: mem_copy_def)
  moreover have "vec_capacity v + 1 \<le> m_maxSize"
    using full room by (simp add: word_le_nat_alt unat_inc)
  ultimately have "vec_grow v = Some (Inr (v\<lparr>vec_capacity := cap,
      vec_elem := map Some xs @ replicate (unat cap - length xs) None\<rparr>))"
    by (simp add: vec_grow_def cap_def Let_def)
  moreover have "vec_rep (v\<lparr>vec_capacity := cap,
      vec_elem := map Some xs @ replicate (unat cap - length xs) None\<rparr>) xs"
    using cap b vec_rep_size [OF r] by (auto intro!: vec_repI)
  ultimately show ?thesis using cap by auto
qed

text \<open>The guarded growth in front of a store at the end.\<close>

lemma vec_room_rep:
  assumes r: "vec_rep v xs" and room: "length xs < unat m_maxSize"
  shows "\<exists>w. (if vec_capacity v < vec_size v + 1 then vec_grow v else Some (Inr v)) = Some (Inr w) \<and>
    vec_rep w xs \<and> length xs < unat (vec_capacity w) \<and> vec_size w = vec_size v"
proof -
  have s: "unat (vec_size v + 1) = Suc (length xs)"
    using vec_rep_size [OF r] room by (simp add: unat_inc)
  then have "vec_capacity v < vec_size v + 1 \<longleftrightarrow> unat (vec_capacity v) = length xs"
    using vec_rep_bounds [OF r] by (auto simp: word_less_nat_alt)
  then show ?thesis
    using vec_grow_rep [OF r _ room] r vec_rep_bounds [OF r] by auto
qed

lemma vec_append_rep:
  assumes r: "vec_rep v xs" and room: "length xs < unat m_maxSize"
  shows "\<exists>w. vec_append v t = Some (Inr w) \<and> vec_rep w (xs @ [t])"
proof -
  obtain w where w: "(if vec_capacity v < vec_size v + 1 then vec_grow v else Some (Inr v)) =
      Some (Inr w)" "vec_rep w xs" "length xs < unat (vec_capacity w)"
    using vec_room_rep [OF r room] by blast
  obtain q where q: "vec_elem w = map Some xs @ q" "length xs + length q = unat (vec_capacity w)"
    using vec_elem_split [OF w(2)] by blast
  obtain c q' where q': "q = c # q'" using q w(3) by (cases q) auto
  have sz: "unat (vec_size w) = length xs" by (rule vec_rep_size [OF w(2)])
  have "cell_store (vec_elem w) (vec_size w) (Some t) = Some (map Some xs @ Some t # q')"
    using q q' sz by (simp add: cell_store_def list_update_append)
  then have "vec_append v t = Some (Inr (w\<lparr>vec_elem := map Some xs @ Some t # q',
      vec_size := vec_size w + 1\<rparr>))"
    by (simp add: vec_append_def w(1))
  moreover have "vec_rep (w\<lparr>vec_elem := map Some xs @ Some t # q', vec_size := vec_size w + 1\<rparr>)
      (xs @ [t])"
    using w(2) q q' sz room
    by (intro vec_repI [where r = q']) (auto simp: unat_inc vec_rep_def)
  ultimately show ?thesis by blast
qed

lemma vec_append_full:
  assumes r: "vec_rep v xs" and full: "length xs = unat m_maxSize"
  shows "vec_append v t = Some (Inl AssertFailed)"
proof -
  have "unat (vec_capacity v) = 4278190080" using vec_rep_bounds [OF r] full by simp
  then show ?thesis
    using vec_rep_size [OF r] full
    by (simp add: vec_append_def vec_grow_def word_less_nat_alt word_le_nat_alt unat_inc)
qed

lemma mem_move_rep:
  assumes "b = map Some xs @ q" "p \<le> r" "r \<le> length xs"
  shows "\<exists>q'. mem_move b p r (length xs - r) = Some (map Some (take p xs @ drop r xs) @ q') \<and>
    length q' = length q + (r - p)"
proof (cases "r = length xs")
  case True
  then show ?thesis
    using assms by (intro exI [of _ "map Some (drop p xs) @ q"])
      (simp add: mem_move_def take_map [symmetric] drop_map [symmetric] flip: append_assoc map_append)
next
  case False
  have le: "p + (length xs - r) \<le> length xs" "r + (length xs - r) = length xs"
    using assms(2,3) by simp_all
  show ?thesis
    using assms False le by (intro exI [of _ "drop (p + (length xs - r)) b"])
      (auto simp: mem_move_def take_map drop_map)
qed

lemma vec_removeRange_rep:
  assumes r: "vec_rep v xs" and pos: "unat pos \<le> length xs"
    and len: "unat pos + unat len < 4294967296"
  shows "\<exists>w. vec_removeRange v pos len = Some w \<and>
    vec_rep w (take (unat pos) xs @ drop (unat pos + unat len) xs)"
proof -
  obtain q where q: "vec_elem v = map Some xs @ q" "length xs + length q = unat (vec_capacity v)"
    using vec_elem_split [OF r] by blast
  note sz = vec_rep_size [OF r]
  define len' where "len' = (if vec_size v < len + pos then vec_size v - pos else len)"
  have s1: "unat (len + pos) = unat pos + unat len" using len by (simp add: unat_add_small)
  have s2: "unat (vec_size v - pos) = length xs - unat pos"
    using pos sz by (simp add: unat_sub_small)
  have l: "unat len' = min (unat len) (length xs - unat pos)"
    using s1 s2 sz pos by (auto simp: len'_def word_less_nat_alt)
  have rg: "unat (pos + len') = unat pos + unat len'"
    using l pos len by (simp add: unat_add_small)
  have rest: "unat (vec_size v - (pos + len')) = length xs - unat (pos + len')"
    using l pos sz rg by (simp add: unat_sub_small)
  have sz': "unat (vec_size v - len') = length xs - unat len'"
    using l sz by (simp add: unat_sub_small)
  have drop: "drop (unat pos + unat len') xs = drop (unat pos + unat len) xs"
    using l pos by (auto simp: min_def)
  obtain q' where q': "mem_move (vec_elem v) (unat pos) (unat (pos + len'))
      (length xs - unat (pos + len')) =
      Some (map Some (take (unat pos) xs @ drop (unat (pos + len')) xs) @ q')"
    "length q' = length q + (unat (pos + len') - unat pos)"
  proof -
    have "unat pos \<le> unat (pos + len')" "unat (pos + len') \<le> length xs"
      using rg l pos by simp_all
    then show thesis using mem_move_rep [OF q(1)] that by blast
  qed
  let ?ys = "take (unat pos) xs @ drop (unat pos + unat len) xs"
  have "vec_removeRange v pos len = Some (v\<lparr>vec_elem := map Some ?ys @ q', vec_size := vec_size v - len'\<rparr>)"
  proof -
    have "\<not> vec_size v < pos" using pos sz by (simp add: word_less_nat_alt)
    then show ?thesis
      using q'(1) rest rg drop
      by (simp add: vec_removeRange_def Let_def len'_def [symmetric])
  qed
  moreover have "vec_rep (v\<lparr>vec_elem := map Some ?ys @ q', vec_size := vec_size v - len'\<rparr>) ?ys"
    using r q(2) q'(2) sz' l pos rg
    by (intro vec_repI [where r = q']) (auto simp: vec_rep_def min_def split: if_splits)
  ultimately show ?thesis by blast
qed

lemma vec_removeAt_rep:
  assumes "vec_rep v xs" "unat pos < length xs"
  shows "\<exists>w. vec_removeAt v pos = Some w \<and> vec_rep w (take (unat pos) xs @ drop (Suc (unat pos)) xs)"
  using vec_removeRange_rep [OF assms(1), of pos 1] assms(2) vec_rep_bounds [OF assms(1)]
  by (simp add: vec_removeAt_def)

lemma vec_shift_eq:
  assumes "b = map Some ys @ map Some zs @ c # q" "movePos = of_nat (length ys + length zs)"
    "length ys + length zs < 4294967296"
  shows "\<exists>d. vec_shift b movePos (length zs) = Some (map Some ys @ d # map Some zs @ q)"
  using assms
proof (induction zs arbitrary: b movePos c q rule: rev_induct)
  case Nil
  then show ?case by simp
next
  case (snoc z zs)
  have m: "unat movePos = Suc (length ys + length zs)"
    using snoc.prems(3) of_nat_eq_uint [of "length ys + length (zs @ [z])" movePos]
    by (simp only: snoc.prems(2)) simp
  then have m1: "unat (movePos - 1) = length ys + length zs" by (simp add: unat_dec)
  then have m2: "movePos - 1 = of_nat (length ys + length zs)"
    using of_nat_eq_uint [of "length ys + length zs" "movePos - 1"] snoc.prems(3) by simp
  have "b ! unat (movePos - 1) = Some z" "unat (movePos - 1) < length b"
    using snoc.prems(1) by (simp_all add: m1 nth_append)
  moreover have "cell_store b movePos (Some z) = Some (map Some ys @ map Some zs @ Some z # Some z # q)"
    using snoc.prems(1) m by (simp add: cell_store_def list_update_append)
  moreover have "\<exists>d. vec_shift (map Some ys @ map Some zs @ Some z # Some z # q) (movePos - 1)
      (length zs) = Some (map Some ys @ d # map Some zs @ Some z # q)"
    by (rule snoc.IH) (use snoc.prems(3) m2 in auto)
  ultimately show ?case by auto
qed

lemma vec_insert_rep:
  assumes r: "vec_rep v xs" and room: "length xs < unat m_maxSize" and pos: "unat pos \<le> length xs"
  shows "\<exists>w. vec_insert v pos t = Some (Inr w) \<and>
    vec_rep w (take (unat pos) xs @ t # drop (unat pos) xs)"
proof -
  define i where "i = unat pos"
  obtain w where w: "(if vec_capacity v < vec_size v + 1 then vec_grow v else Some (Inr v)) =
      Some (Inr w)" "vec_rep w xs" "length xs < unat (vec_capacity w)" "vec_size w = vec_size v"
    using vec_room_rep [OF r room] by blast
  obtain q where q: "vec_elem w = map Some xs @ q" "length xs + length q = unat (vec_capacity w)"
    using vec_elem_split [OF w(2)] by blast
  obtain c q' where q': "q = c # q'" using q w(3) by (cases q) auto
  have sz: "unat (vec_size w) = length xs" by (rule vec_rep_size [OF w(2)])
  have cnt: "unat (vec_size w - pos) = length (drop i xs)"
    using pos sz by (simp add: unat_sub_small i_def)
  have el: "vec_elem w = map Some (take i xs) @ map Some (drop i xs) @ c # q'"
    using q(1) q' by (simp flip: map_append append_assoc)
  have len: "length (take i xs) + length (drop i xs) = length xs"
    by (metis append_take_drop_id length_append)
  have "vec_size w = of_nat (length (take i xs) + length (drop i xs))"
    using sz of_nat_eq_uint [of "length xs" "vec_size w"] room unfolding len by simp
  then obtain d where d: "vec_shift (vec_elem w) (vec_size w) (unat (vec_size w - pos)) =
      Some (map Some (take i xs) @ d # map Some (drop i xs) @ q')"
    using vec_shift_eq [OF el, of "vec_size w"] room len cnt by auto
  have st: "cell_store (map Some (take i xs) @ d # map Some (drop i xs) @ q') pos (Some t) =
      Some (map Some (take i xs @ t # drop i xs) @ q')"
    using pos by (simp add: cell_store_def list_update_append i_def)
  have "\<not> vec_size v + 1 < pos"
    using pos room vec_rep_size [OF r] by (simp add: word_less_nat_alt unat_inc)
  then have "vec_insert v pos t = Some (Inr (w\<lparr>vec_elem := map Some (take i xs @ t # drop i xs) @ q',
      vec_size := vec_size w + 1\<rparr>))"
    using w(1) d st by (simp add: vec_insert_def Let_def)
  moreover have "vec_rep (w\<lparr>vec_elem := map Some (take i xs @ t # drop i xs) @ q',
      vec_size := vec_size w + 1\<rparr>) (take i xs @ t # drop i xs)"
    using w(2) q q' sz room pos
    by (intro vec_repI [where r = q']) (auto simp: unat_inc vec_rep_def i_def)
  ultimately show ?thesis by (auto simp: i_def)
qed

subsection \<open>The vector as the container of verify\<close>

text \<open>An iterator is a pointer into the block: the index of its cell.\<close>

definition vec_ops :: "('a vec, nat, 'a) container" where
  "vec_ops = \<lparr>op_size = vec_size, op_append = vec_append, op_insert = vec_insert,
     op_removeAt = (\<lambda>v pos. map_option Inr (vec_removeAt v pos)),
     op_begin = (\<lambda>v. Some 0), op_end = (\<lambda>v. Some (unat (vec_size v))),
     op_ne = (\<lambda>v p q. Some (p \<noteq> q)),
     op_deref = (\<lambda>v p. if p < length (vec_elem v) then vec_elem v ! p else None),
     op_incr = (\<lambda>v p. if p < length (vec_elem v) then Some (Suc p) else None)\<rparr>"

interpretation vs: iterable vec_ops vec_rep "4278190080" "\<lambda>v p i. p = i"
proof (unfold_locales, goal_cases)
  case (1 v xs)
  then show ?case by (simp add: vec_ops_def vec_rep_size)
next
  case (2 v xs t)
  then show ?case using vec_append_rep [of v xs t] by (simp add: vec_ops_def)
next
  case (3 v xs pos t)
  then show ?case using vec_insert_rep [of v xs pos t] by (simp add: vec_ops_def)
next
  case (4 v xs pos)
  then show ?case using vec_removeAt_rep [of v xs pos] by (auto simp: vec_ops_def)
next
  case (5 v xs)
  then show ?case by (simp add: vec_ops_def)
next
  case (6 v xs p i)
  moreover have "length xs \<le> length (vec_elem v)" using 6(1) by (simp add: vec_rep_def)
  ultimately show ?case by (simp add: vec_ops_def vec_elem_nth)
next
  case (7 v xs p i)
  moreover have "length xs \<le> length (vec_elem v)" using 7(1) by (simp add: vec_rep_def)
  ultimately show ?case by (simp add: vec_ops_def)
next
  case (8 v xs p i)
  then show ?case by (simp add: vec_ops_def vec_rep_size)
qed

subsection \<open>Search and removal by value\<close>

text \<open>What a search from \<open>i\<close> finds in a list.\<close>

fun first_from :: "('a \<Rightarrow> bool) \<Rightarrow> 'a list \<Rightarrow> nat \<Rightarrow> nat option" where
  "first_from P [] i = None"
| "first_from P (x # xs) i = (if P x then Some i else first_from P xs (Suc i))"

lemma first_from_Some:
  "first_from P xs i = Some j \<longleftrightarrow> i \<le> j \<and> j - i < length xs \<and> P (xs ! (j - i)) \<and>
    (\<forall>k < j - i. \<not> P (xs ! k))"
proof (induction P xs i rule: first_from.induct)
  case (2 P x xs i)
  show ?case
  proof (cases "P x")
    case True
    then show ?thesis by (auto simp: le_Suc_eq) (metis diff_is_0_eq le_antisym nat_le_linear
      neq0_conv nth_Cons_0)
  next
    case False
    have "(\<forall>k < Suc m. \<not> P ((x # xs) ! k)) \<longleftrightarrow> (\<forall>k < m. \<not> P (xs ! k))" for m
      using False by (auto simp: nth_Cons' split: if_splits)
    then show ?thesis using False 2
      by (cases "j - i") (auto simp: Suc_diff_Suc le_Suc_eq Suc_le_eq diff_Suc split: nat.splits)
  qed
qed simp

lemma vec_find_loop_rep:
  assumes r: "vec_rep v xs" and pos: "unat pos \<le> length xs"
  shows "vec_find_loop v f t pos =
    Some (map_option of_nat (first_from (\<lambda>x. f x t) (drop (unat pos) xs) (unat pos)))"
  using pos
proof (induction "length xs - unat pos" arbitrary: pos)
  case 0
  then show ?case using vec_rep_size [OF r]
    by (simp add: vec_find_loop.simps [of v] word_less_nat_alt)
next
  case (Suc k)
  have lt: "unat pos < length xs" using Suc by simp
  have inc: "unat (pos + 1) = Suc (unat pos)"
    using lt vec_rep_bounds [OF r] by (intro unat_inc) linarith
  have "vec_find_loop v f t (pos + 1) =
      Some (map_option of_nat (first_from (\<lambda>x. f x t) (drop (unat (pos + 1)) xs) (unat (pos + 1))))"
    by (rule Suc.hyps(1)) (use Suc inc in auto)
  moreover have "drop (unat pos) xs = xs ! unat pos # drop (Suc (unat pos)) xs"
    using lt by (simp add: Cons_nth_drop_Suc)
  moreover have "pos < vec_size v" using lt vec_rep_size [OF r] by (simp add: word_less_nat_alt)
  ultimately show ?case
    using cell_load_rep [OF r lt] inc by (simp add: vec_find_loop.simps [of v f t pos])
qed

text \<open>\<open>removeOne\<close> with \<open>onlyOne = false\<close>: after a removal the element that moved into the
  freed place is not looked at.\<close>

fun remove_skipping :: "'a \<Rightarrow> 'a list \<Rightarrow> 'a list" where
  "remove_skipping t [] = []"
| "remove_skipping t (x # xs) =
     (if x = t then (case xs of [] \<Rightarrow> [] | y # ys \<Rightarrow> y # remove_skipping t ys)
      else x # remove_skipping t xs)"

lemma vec_removeOne_loop_rep:
  assumes "vec_rep v (ys @ zs)"
  shows "\<exists>w. vec_removeOne_loop v t onlyOne (length ys) = Some w \<and>
    vec_rep w (ys @ (if onlyOne then remove1 t zs else remove_skipping t zs))"
  using assms
proof (induction "length zs" arbitrary: v ys zs rule: less_induct)
  case less
  note r = less.prems
  have b: "length (ys @ zs) < 4294967296" using vec_rep_bounds [OF r] by simp
  show ?case
  proof (cases zs)
    case Nil
    then show ?thesis using r vec_rep_size [OF r] by (simp add: vec_removeOne_loop.simps [of v])
  next
    case (Cons z zs')
    have u: "unat (of_nat (length ys) :: uint) = length ys"
      using b Cons by (simp add: unat_of_nat take_bit_nat_eq_self)
    have ld: "cell_load (vec_elem v) (of_nat (length ys)) = Some z"
      using cell_load_rep [OF r, of "of_nat (length ys)"] u Cons by simp
    have lt: "length ys < unat (vec_size v)" using vec_rep_size [OF r] Cons by simp
    show ?thesis
    proof (cases "z = t")
      case False
      have "\<exists>w. vec_removeOne_loop v t onlyOne (length (ys @ [z])) = Some w \<and>
          vec_rep w ((ys @ [z]) @ (if onlyOne then remove1 t zs' else remove_skipping t zs'))"
        by (rule less.hyps) (use r Cons in auto)
      moreover have "vec_removeOne_loop v t onlyOne (length ys) =
          vec_removeOne_loop v t onlyOne (length (ys @ [z]))"
        using False ld lt by (simp add: vec_removeOne_loop.simps [of v t onlyOne "length ys"])
      ultimately show ?thesis using False Cons by auto
    next
      case True
      obtain w where w: "vec_removeAt v (of_nat (length ys)) = Some w" "vec_rep w (ys @ zs')"
        using vec_removeAt_rep [OF r, of "of_nat (length ys)"] u Cons by auto
      have step: "vec_removeOne_loop v t onlyOne (length ys) =
          (if onlyOne then Some w else vec_removeOne_loop w t onlyOne (Suc (length ys)))"
        using True ld lt w(1) by (simp add: vec_removeOne_loop.simps [of v t onlyOne "length ys"])
      show ?thesis
      proof (cases zs')
        case Nil
        then have "vec_removeOne_loop w t onlyOne (Suc (length ys)) = Some w"
          using vec_rep_size [OF w(2)] by (simp add: vec_removeOne_loop.simps [of w])
        then show ?thesis using step w(2) Nil Cons True by (cases onlyOne) simp_all
      next
        case (Cons y zs'')
        have "\<exists>w'. vec_removeOne_loop w t onlyOne (length (ys @ [y])) = Some w' \<and>
            vec_rep w' ((ys @ [y]) @ (if onlyOne then remove1 t zs'' else remove_skipping t zs''))"
          by (rule less.hyps) (use w(2) Cons \<open>zs = z # zs'\<close> in auto)
        then show ?thesis using step w(2) Cons \<open>zs = z # zs'\<close> True by auto
      qed
    qed
  qed
qed

text \<open>A shift of more cells than there are below \<open>movePos\<close> wraps its index.\<close>

lemma vec_shift_underflow:
  assumes "unat movePos < count" "length b < 4294967296"
  shows "vec_shift b movePos count = None"
  using assms
proof (induction count arbitrary: b movePos)
  case (Suc n)
  show ?case
  proof (cases "movePos = 0")
    case True
    then have "unat (movePos - 1) = 4294967295" by simp
    then show ?thesis using Suc.prems(2) by simp
  next
    case False
    then have d: "unat (movePos - 1) = unat movePos - 1" "0 < unat movePos"
      using unat_dec [of movePos] by (simp_all add: unat_gt_0)
    have "vec_shift b' (movePos - 1) n = None" if "length b' = length b" for b' :: "'a option list"
      by (rule Suc.IH) (use Suc.prems d that in auto)
    then show ?thesis by (auto simp: cell_store_def Let_def)
  qed
qed simp

subsection \<open>Properties of the vector\<close>

definition vec_of :: "'a list \<Rightarrow> 'a vec" where
  "vec_of xs = \<lparr>vec_elem = map Some xs, vec_size = of_nat (length xs), vec_step = 10,
     vec_capacity = of_nat (length xs)\<rparr>"

lemma vec_of_rep: "length xs \<le> 4278190080 \<Longrightarrow> vec_rep (vec_of xs) xs"
  by (rule vec_repI [where r = "[]"]) (simp_all add: vec_of_def unat_of_nat take_bit_nat_eq_self)

text \<open>C15: \<open>insert\<close> at a position inside the vector or at its end puts the element there, growing
  the block when it is full, and keeps the representation (size within capacity, capacity within
  \<open>m_maxSize\<close>, one cell per unit of capacity).\<close>

theorem vec_insert_correct:
  assumes "vec_rep v xs" "length xs < unat m_maxSize" "unat pos \<le> length xs"
  shows "\<exists>w. vec_insert v pos t = Some (Inr w) \<and>
    vec_rep w (take (unat pos) xs @ t # drop (unat pos) xs)"
  by (rule vec_insert_rep [OF assms])

theorem vec_insert_correct_witness:
  "\<exists>w. vec_insert (vec_of [1, 2, 3 :: int]) 1 9 = Some (Inr w) \<and> vec_rep w [1, 9, 2, 3]"
  using vec_insert_correct [OF vec_of_rep, of "[1, 2, 3 :: int]" 1 9] by simp

text \<open>The guard of \<open>insert\<close> lets a position one past the end through: the number of cells
  to move wraps around and the shift leaves the block.\<close>

theorem vec_insert_past_end:
  assumes "vec_rep v xs" "length xs < unat m_maxSize"
  shows "vec_insert v (vec_size v + 1) t = None"
proof -
  obtain w where w: "(if vec_capacity v < vec_size v + 1 then vec_grow v else Some (Inr v)) =
      Some (Inr w)" "vec_rep w xs" "vec_size w = vec_size v"
    using vec_room_rep [OF assms] by blast
  have "vec_size w - (vec_size v + 1) = - 1" using w(3) by simp
  then have "unat (vec_size w - (vec_size v + 1)) = 4294967295" by simp
  moreover have "length (vec_elem w) < 4294967296" "unat (vec_size w) < 4294967295"
    using w(2) assms(2) vec_rep_bounds [OF w(2)] by (auto simp: vec_rep_def)
  ultimately have "vec_shift (vec_elem w) (vec_size w) (unat (vec_size w - (vec_size v + 1))) = None"
    by (intro vec_shift_underflow) simp_all
  then show ?thesis using w(1) by (simp add: vec_insert_def Let_def)
qed

theorem vec_insert_past_end_witness: "vec_insert (vec_of [1, 2 :: int]) 3 9 = None"
  using vec_insert_past_end [OF vec_of_rep, of "[1, 2 :: int]" 9] by (simp add: vec_of_def)

text \<open>\<open>removeAt(pos, len)\<close> removes the elements from \<open>pos\<close> on, at most \<open>len\<close> of
  them, as long as \<open>pos + len\<close> does not wrap.\<close>

theorem vec_removeRange_correct:
  assumes "vec_rep v xs" "unat pos \<le> length xs" "unat pos + unat len < 4294967296"
  shows "\<exists>w. vec_removeRange v pos len = Some w \<and>
    vec_rep w (take (unat pos) xs @ drop (unat pos + unat len) xs)"
  by (rule vec_removeRange_rep [OF assms])

theorem vec_removeRange_correct_witness:
  "\<exists>w. vec_removeRange (vec_of [1, 2, 3, 4 :: int]) 1 2 = Some w \<and> vec_rep w [1, 4]"
  using vec_removeRange_correct [OF vec_of_rep, of "[1, 2, 3, 4 :: int]" 1 2] by simp

text \<open>\<open>removeOne\<close> with a start position inside the vector removes the first occurrence
  counted from 0 (the start position is not used), or, with \<open>onlyOne = false\<close>, skips the element
  that follows each removed one.\<close>

theorem vec_removeOne_correct:
  assumes "vec_rep v xs" "unat pos < length xs"
  shows "\<exists>w. vec_removeOne v t pos onlyOne = Some w \<and>
    vec_rep w (if onlyOne then remove1 t xs else remove_skipping t xs)"
  using vec_removeOne_loop_rep [of v "[]" xs t onlyOne] assms vec_size_le [OF assms(1), of pos]
  by (auto simp: vec_removeOne_def)

theorem vec_removeOne_correct_witness:
  "\<exists>w. vec_removeOne (vec_of [7, 7, 1, 7 :: int]) 7 2 False = Some w \<and> vec_rep w [7, 1]"
  using vec_removeOne_correct [OF vec_of_rep, of "[7, 7, 1, 7 :: int]" 2 7 False] by simp

text \<open>\<open>find\<close> and \<open>contains\<close> agree and find the first position from \<open>pos\<close> on
  that holds the value.\<close>

theorem vec_find_correct:
  assumes "vec_rep v xs" "unat pos \<le> length xs"
  shows "\<exists>r. vec_find v t pos = Some (map_option of_nat r) \<and> vec_contains v t pos = Some (r \<noteq> None) \<and>
    (case r of None \<Rightarrow> t \<notin> set (drop (unat pos) xs)
     | Some i \<Rightarrow> unat pos \<le> i \<and> i < length xs \<and> xs ! i = t \<and>
         (\<forall>k. unat pos \<le> k \<and> k < i \<longrightarrow> xs ! k \<noteq> t))"
proof -
  define r where "r = first_from (\<lambda>x. x = t) (drop (unat pos) xs) (unat pos)"
  have "vec_find v t pos = Some (map_option of_nat r)"
    using vec_find_loop_rep [OF assms] by (simp add: vec_find_def r_def)
  moreover have "vec_contains v t pos = Some (r \<noteq> None)"
    using vec_find_loop_rep [OF assms, of "\<lambda>x y. y = x"]
    by (simp add: vec_contains_def r_def eq_commute [of t])
  moreover have "first_from (\<lambda>x. x = t) ys i = None \<longleftrightarrow> t \<notin> set ys" for ys i
    by (induction ys arbitrary: i) auto
  moreover have "unat pos \<le> i \<and> i < length xs \<and> xs ! i = t \<and>
      (\<forall>k. unat pos \<le> k \<and> k < i \<longrightarrow> xs ! k \<noteq> t)" if "r = Some i" for i
  proof -
    have i: "unat pos \<le> i" "i - unat pos < length xs - unat pos" "xs ! i = t"
      "\<And>k. k < i - unat pos \<Longrightarrow> drop (unat pos) xs ! k \<noteq> t"
      using that assms(2) unfolding r_def first_from_Some by auto
    moreover have "xs ! k \<noteq> t" if "unat pos \<le> k" "k < i" for k
      using i(4) [of "k - unat pos"] that assms(2) by (simp add: diff_less_mono)
    ultimately show ?thesis by auto
  qed
  ultimately show ?thesis
    by (intro exI [of _ r]) (auto simp: r_def split: option.split)
qed

theorem vec_find_correct_witness:
  "vec_find (vec_of [5, 6, 5 :: int]) 5 1 = Some (Some 2) \<and> vec_contains (vec_of [5, 6, 5 :: int]) 5 1 = Some True"
proof -
  obtain r where r: "vec_find (vec_of [5, 6, 5 :: int]) 5 1 = Some (map_option of_nat r) \<and>
    vec_contains (vec_of [5, 6, 5 :: int]) 5 1 = Some (r \<noteq> None) \<and>
    (case r of None \<Rightarrow> 5 \<notin> set (drop (unat (1 :: uint)) [5, 6, 5 :: int])
     | Some i \<Rightarrow> unat (1 :: uint) \<le> i \<and> i < length [5, 6, 5 :: int] \<and> [5, 6, 5 :: int] ! i = 5 \<and>
         (\<forall>k. unat (1 :: uint) \<le> k \<and> k < i \<longrightarrow> [5, 6, 5 :: int] ! k \<noteq> 5))"
    by (rule exE [OF vec_find_correct [OF vec_of_rep, of "[5, 6, 5 :: int]" 1 5]]) (simp, simp, rule that)
  then obtain i where i: "r = Some i" by (cases r) simp_all
  then have "1 \<le> i \<and> i < 3" using r by simp
  then have "i = 1 \<or> i = 2" by linarith
  then show ?thesis using r i by auto
qed

end
