(* ===== verification/VerifyMain.thy ===== *)
theory VerifyMain
  imports ListHpp VectorHpp
begin

text \<open>
  \<open>verify\<close> of Data Structure/DataStructure/DataStructure.cpp run on the repository's own
  containers.  Its random positions are congruent to 1 modulo 3 where it inserts, so that it never
  inserts at the front, and to 2 where it removes; on such scripts \<open>List\<close> and
  \<open>Vector\<close> cannot be told apart.
\<close>

interpretation vl: two_sequences_compared vec_ops vec_rep "4278190080" "\<lambda>v p i. p = i"
    list_ops "\<lambda>(h, l). list_rep h l" "4278190079" list_iter_at
  by unfold_locales

interpretation lv: two_sequences list_ops "\<lambda>(h, l). list_rep h l" "4278190079" list_iter_at
    vec_ops vec_rep "4278190080" "\<lambda>v p i. p = i"
  by unfold_locales

text \<open>C1: \<open>verify\<close> on a vector and a list that hold the same elements ends, whatever numbers are
  drawn, without undefined behaviour and without reporting a difference, and both containers hold
  what the script makes of a mathematical list.\<close>

theorem verify_vector_list:
  assumes "vec_rep v xs" "list_rep h l xs" "length xs + length rng \<le> 4278190079"
    "\<forall>n\<in>set rng. 0 \<le> n \<and> n < 2147483648"
  shows "\<exists>v' h' l'. verify vec_ops list_ops rng (v, (h, l)) = Some (Inr ((v', (h', l')), Compared 0)) \<and>
    vec_rep v' (script rng xs) \<and> list_rep h' l' (script rng xs)"
  using vl.verify_agrees [of v xs "(h, l)" rng] assms by auto

theorem verify_vector_list_witness:
  "\<exists>h l v' h' l'. list_of [9, 9, 9] = Some (h, l) \<and>
    verify vec_ops list_ops [3, 1, 2, 5] (vec_of [9, 9, 9], (h, l)) =
      Some (Inr ((v', (h', l')), Compared 0)) \<and>
    vec_rep v' [9, 1, 9, 3] \<and> list_rep h' l' [9, 1, 9, 3]"
proof -
  have "script [3, 1, 2, 5] [9, 9, 9] = [9, 1, 9, 3]" by code_simp
  then show ?thesis
    using list_of_rep [of "[9, 9, 9 :: int]"]
      verify_vector_list [OF vec_of_rep, of "[9, 9, 9]" _ _ "[3, 1, 2, 5]"] by fastforce
qed

text \<open>with the list first the script still keeps the two containers equal, but the comparison
  of two empty containers dereferences the null \<open>begin()\<close> of the list.\<close>

theorem verify_list_vector:
  assumes "list_rep h l xs" "vec_rep v xs" "length xs + length rng \<le> 4278190079"
    "\<forall>n\<in>set rng. 0 \<le> n \<and> n < 2147483648"
  shows "\<exists>h' l' v'. verify_loop list_ops vec_ops rng ((h, l), v) = Some (Inr ((h', l'), v')) \<and>
    list_rep h' l' (script rng xs) \<and> vec_rep v' (script rng xs) \<and>
    (script rng xs = [] \<longrightarrow> verify list_ops vec_ops rng ((h, l), v) = None)"
proof -
  obtain h' l' v' where lo: "verify_loop list_ops vec_ops rng ((h, l), v) = Some (Inr ((h', l'), v'))"
    and r: "list_rep h' l' (script rng xs)" "vec_rep v' (script rng xs)"
    using lv.loop_rep [of "(h, l)" xs v rng] assms by auto
  have "verify list_ops vec_ops rng ((h, l), v) = None" if e: "script rng xs = []"
  proof -
    obtain as where n: "list_nodes h' l' as []" using r(1) e by (auto simp: list_rep_def)
    then have "as = []" using list_nodes_length [OF n] by simp
    then have "lst_tail l' = null" "nextOf h' (lst_head l') = null" "alive h' (lst_head l')"
      "\<not> alive h' null"
      using n chain_hd_next [OF list_nodes_chain [OF n]] by (auto simp: list_nodes_def chain_def mem_ok_def)
    then have "list_begin h' l' = Some null" "list_end h' l' = Some null" "list_iter_ne h' null null = None"
      by (simp_all add: list_end_def list_begin_def list_iter_ne_def effect_simps)
    moreover from this have "verify_compare list_ops vec_ops (h', l') v' null 0 = None"
      by (subst verify_compare.simps) (simp add: list_ops_def)
    moreover have "lst_size l' = vec_size v'"
      using list_rep_size [OF r(1)] vec_rep_size [OF r(2)] by (simp add: uint_eq_iff_unat)
    ultimately show ?thesis
      by (simp add: verify_def lo) (simp add: list_ops_def vec_ops_def)
  qed
  then show ?thesis using lo r by blast
qed

theorem verify_list_vector_witness:
  "\<exists>h l. list_of [] = Some (h, l) \<and> verify list_ops vec_ops [20] ((h, l), vec_of []) = None"
proof -
  have "script [20] [] = []" by code_simp
  moreover obtain h l where "list_of ([] :: int list) = Some (h, l)" "list_rep h l ([] :: int list)"
    using list_of_rep [of "[] :: int list"] by auto
  ultimately show ?thesis
    using verify_list_vector [OF _ vec_of_rep, of h l "[]" "[20]"] by fastforce
qed

end
