(* ===== verification/StaticListHpp.thy ===== *)
theory StaticListHpp
  imports Prelude
begin

text \<open>
  \<open>StaticList<T>\<close> of Data Structure/DataStructure/List.hpp: a doubly linked list whose links are
  indices into one block of nodes.  Node 0 is the head; its \<open>previous\<close> is the last node.  The object
  owns its block (\<open>None\<close>: a null pointer); data that is not initialised is \<open>None\<close>.
  \<open>removeOne\<close> and \<open>swap\<close> apply \<open>->\<close> to a node and do not compile when used.
\<close>

record 'a snode =
  sn_data :: "'a option"
  sn_next :: int
  sn_previous :: int

record 'a slist =
  sl_size :: uint
  sl_step :: uint
  sl_capacity :: uint
  sl_head :: "'a snode list option"

definition sl_maxSize :: uint where
  "sl_maxSize = 0xFFFF"

definition sl_stepUint :: uint where
  "sl_stepUint = 10"

definition new_snodes :: "uint \<Rightarrow> 'a snode list" where
  "new_snodes n = replicate (unat n) \<lparr>sn_data = None, sn_next = - 1, sn_previous = - 1\<rparr>"

definition get_snode :: "'a slist \<Rightarrow> int \<Rightarrow> 'a snode option" where
  "get_snode s i = (case sl_head s of None \<Rightarrow> None
     | Some m \<Rightarrow> if 0 \<le> i \<and> nat i < length m then Some (m ! nat i) else None)"

definition set_snode :: "'a slist \<Rightarrow> int \<Rightarrow> ('a snode \<Rightarrow> 'a snode) \<Rightarrow> 'a slist option" where
  "set_snode s i f = (case sl_head s of None \<Rightarrow> None
     | Some m \<Rightarrow> if 0 \<le> i \<and> nat i < length m then Some (s\<lparr>sl_head := Some (m[nat i := f (m ! nat i)])\<rparr>) else None)"

text \<open>\<open>memcpy\<close> of \<open>NodeSize\<close> bytes, which is \<open>m_size\<close> nodes, into a new block.\<close>

definition copy_nodes :: "uint \<Rightarrow> uint \<Rightarrow> 'a snode list option \<Rightarrow> 'a snode list option" where
  "copy_nodes capacity sz old =
     (if sz = 0 then Some (new_snodes capacity)
      else do {
        m \<leftarrow> old;
        if unat sz \<le> length m \<and> unat sz \<le> unat capacity
        then Some (take (unat sz) m @ drop (unat sz) (new_snodes capacity)) else None
      })"

definition creatMemory :: "'a slist \<Rightarrow> 'a slist option" where
  "creatMemory s = do { m \<leftarrow> copy_nodes (sl_capacity s) (sl_size s) (sl_head s); Some (s\<lparr>sl_head := Some m\<rparr>) }"

partial_function (option) findNodeIndex_loop :: "'a slist \<Rightarrow> uint \<Rightarrow> bool \<Rightarrow> int \<Rightarrow> int \<Rightarrow> int option" where
  "findNodeIndex_loop s pos nextMove index findIndex =
     (if index \<ge> 0 \<and> word_of_int index \<noteq> pos then do {
        n \<leftarrow> get_snode s findIndex;
        if nextMove then findNodeIndex_loop s pos nextMove (index + 1) (sn_next n)
        else findNodeIndex_loop s pos nextMove (index - 1) (sn_previous n)
      } else Some findIndex)"

declare findNodeIndex_loop.simps [code]

definition findNodeIndex :: "'a slist \<Rightarrow> uint \<Rightarrow> int option" where
  "findNodeIndex s pos =
     (if pos \<ge> sl_size s then Some (- 1)
      else do {
        h \<leftarrow> get_snode s 0;
        if pos > sl_size s div 2
        then findNodeIndex_loop s pos False (sint (sl_size s - 1)) (sn_previous h)
        else findNodeIndex_loop s pos True 0 (sn_next h)
      })"

fun getFreeIndex_loop :: "'a slist \<Rightarrow> nat list \<Rightarrow> int option" where
  "getFreeIndex_loop s [] = Some (- 1)"
| "getFreeIndex_loop s (i # is) = do {
     n \<leftarrow> get_snode s (int i);
     if sn_previous n = - 1 then Some (int i) else getFreeIndex_loop s is
   }"

definition getFreeIndex :: "'a slist \<Rightarrow> int option" where
  "getFreeIndex s = getFreeIndex_loop s [1..<unat (sl_capacity s)]"

subsection \<open>Constructors and assignment\<close>

definition sl_new :: "'a slist" where
  "sl_new = \<lparr>sl_size = 0, sl_step = sl_stepUint, sl_capacity = sl_stepUint, sl_head = Some (new_snodes sl_stepUint)\<rparr>"

definition sl_copy :: "'a slist \<Rightarrow> 'a slist option" where
  "sl_copy t = do {
     m \<leftarrow> copy_nodes (sl_capacity t) (sl_size t) (sl_head t);
     Some \<lparr>sl_size = sl_size t, sl_step = sl_step t, sl_capacity = sl_capacity t, sl_head = Some m\<rparr>
   }"

text \<open>The moved list first, then what is left of the source.\<close>

definition sl_move :: "'a slist \<Rightarrow> 'a slist \<times> 'a slist" where
  "sl_move t = (t, t\<lparr>sl_head := None, sl_size := 0, sl_capacity := 0, sl_step := sl_stepUint\<rparr>)"

text \<open>Both assignments end without their \<open>return\<close>.\<close>

definition sl_assign :: "'a slist \<Rightarrow> 'a slist \<Rightarrow> 'a slist option" where
  "sl_assign s t = do { s \<leftarrow> sl_copy t; None }"

definition sl_move_assign :: "'a slist \<Rightarrow> 'a slist \<Rightarrow> ('a slist \<times> 'a slist) option" where
  "sl_move_assign s t = (let (s, t) = sl_move t in None)"

definition sl_destroy :: "'a slist \<Rightarrow> 'a slist" where
  "sl_destroy s = s\<lparr>sl_head := None\<rparr>"

subsection \<open>Operations\<close>

definition sl_isEmpty :: "'a slist \<Rightarrow> bool" where
  "sl_isEmpty s \<longleftrightarrow> sl_size s \<noteq> 0"

text \<open>The growth at the end of \<open>append\<close> and \<open>insert\<close>.\<close>

definition sl_grow :: "'a slist \<Rightarrow> 'a slist option" where
  "sl_grow s =
     (if sl_size s \<ge> sl_capacity s
      then creatMemory (s\<lparr>sl_capacity := (if sl_capacity s + sl_step s \<ge> sl_maxSize then sl_maxSize
        else sl_capacity s + sl_step s)\<rparr>)
      else Some s)"

definition sl_append :: "'a slist \<Rightarrow> 'a \<Rightarrow> 'a slist outcome" where
  "sl_append s t =
     (if \<not> sl_capacity s \<le> sl_maxSize then Some (Inl AssertFailed)
      else lift (do {
        s \<leftarrow> (if sl_size s = 0 then do {
            s \<leftarrow> set_snode s 1 (\<lambda>n. n\<lparr>sn_data := Some t, sn_next := 2, sn_previous := 1\<rparr>);
            set_snode s 0 (\<lambda>n. n\<lparr>sn_next := 1, sn_previous := 1\<rparr>)
          } else do {
            h \<leftarrow> get_snode s 0;
            newIndex \<leftarrow> getFreeIndex s;
            s \<leftarrow> set_snode s newIndex (\<lambda>n. n\<lparr>sn_data := Some t, sn_previous := sn_previous h\<rparr>);
            s \<leftarrow> set_snode s (sn_previous h) (\<lambda>n. n\<lparr>sn_next := newIndex\<rparr>);
            set_snode s 0 (\<lambda>n. n\<lparr>sn_previous := newIndex\<rparr>)
          });
        sl_grow (s\<lparr>sl_size := sl_size s + 1\<rparr>)
      }))"

definition sl_removeAt :: "'a slist \<Rightarrow> uint \<Rightarrow> 'a slist option" where
  "sl_removeAt s pos =
     (if pos \<ge> sl_size s then Some s
      else do {
        s \<leftarrow> (if pos = sl_size s - 1 then do {
            h \<leftarrow> get_snode s 0;
            tail \<leftarrow> get_snode s (sn_previous h);
            s \<leftarrow> set_snode s (sn_previous tail) (\<lambda>n. n\<lparr>sn_next := - 1\<rparr>);
            s \<leftarrow> set_snode s 0 (\<lambda>n. n\<lparr>sn_previous := (if sn_previous tail = 0 then - 1 else sn_previous tail)\<rparr>);
            set_snode s (sn_previous h) (\<lambda>n. n\<lparr>sn_previous := - 1\<rparr>)
          } else do {
            index \<leftarrow> findNodeIndex s pos;
            n \<leftarrow> get_snode s index;
            s \<leftarrow> set_snode s (sn_previous n) (\<lambda>m. m\<lparr>sn_next := sn_next n\<rparr>);
            set_snode s (sn_next n) (\<lambda>m. m\<lparr>sn_previous := sn_previous n\<rparr>)
          });
        Some (s\<lparr>sl_size := sl_size s - 1\<rparr>)
      })"

definition sl_clear :: "'a slist \<Rightarrow> 'a slist" where
  "sl_clear s = s\<lparr>sl_size := 0, sl_step := sl_stepUint, sl_capacity := sl_stepUint,
     sl_head := Some (new_snodes sl_stepUint)\<rparr>"

fun walk_next :: "'a slist \<Rightarrow> nat \<Rightarrow> int \<Rightarrow> int option" where
  "walk_next s 0 index = Some index"
| "walk_next s (Suc k) index = do { n \<leftarrow> get_snode s index; walk_next s k (sn_next n) }"

fun unlink_nodes :: "'a slist \<Rightarrow> nat \<Rightarrow> int \<Rightarrow> 'a slist option" where
  "unlink_nodes s 0 index = Some s"
| "unlink_nodes s (Suc k) index = do {
     n \<leftarrow> get_snode s index;
     s \<leftarrow> set_snode s index (\<lambda>n. n\<lparr>sn_previous := - 1, sn_next := - 1\<rparr>);
     unlink_nodes s k (sn_next n)
   }"

definition sl_removeRange :: "'a slist \<Rightarrow> uint \<Rightarrow> uint \<Rightarrow> 'a slist option" where
  "sl_removeRange s pos len =
     (if pos \<ge> sl_size s then Some s
      else if len = 1 then sl_removeAt s pos
      else do {
        let len = (if pos + len \<ge> sl_size s then sl_size s - pos else len);
        index \<leftarrow> findNodeIndex s pos;
        if pos + len = sl_size s then Some (sl_clear s)
        else do {
          endIndex \<leftarrow> walk_next s (unat len) index;
          n \<leftarrow> get_snode s index;
          e \<leftarrow> get_snode s endIndex;
          s \<leftarrow> set_snode s (sn_previous n) (\<lambda>m. m\<lparr>sn_next := sn_next e\<rparr>);
          s \<leftarrow> (if sn_next e = - 1 then set_snode s 0 (\<lambda>h. h\<lparr>sn_previous := sn_previous n\<rparr>)
            else set_snode s (sn_next e) (\<lambda>m. m\<lparr>sn_previous := sn_previous n\<rparr>));
          unlink_nodes (s\<lparr>sl_size := sl_size s - len\<rparr>) (unat len) index
        }
      })"

definition sl_insert :: "'a slist \<Rightarrow> uint \<Rightarrow> 'a \<Rightarrow> 'a slist outcome" where
  "sl_insert s pos t =
     (if pos > sl_size s then Some (Inr s)
      else if pos = sl_size s then sl_append s t
      else lift (do {
        index \<leftarrow> findNodeIndex s pos;
        n \<leftarrow> get_snode s index;
        newIndex \<leftarrow> getFreeIndex s;
        s \<leftarrow> set_snode s newIndex (\<lambda>m. m\<lparr>sn_data := Some t\<rparr>);
        s \<leftarrow> set_snode s (sn_previous n) (\<lambda>m. m\<lparr>sn_next := newIndex\<rparr>);
        s \<leftarrow> set_snode s newIndex (\<lambda>m. m\<lparr>sn_next := index, sn_previous := sn_previous n\<rparr>);
        s \<leftarrow> set_snode s index (\<lambda>m. m\<lparr>sn_previous := index\<rparr>);
        sl_grow (s\<lparr>sl_size := sl_size s + 1\<rparr>)
      }))"

definition sl_at :: "'a slist \<Rightarrow> uint \<Rightarrow> 'a outcome" where
  "sl_at s pos =
     (if pos \<ge> sl_size s then Some (Inl OutOfRange)
      else lift (do { index \<leftarrow> findNodeIndex s pos; n \<leftarrow> get_snode s index; sn_data n }))"

subsection \<open>Lists made by appending\<close>

definition snode_of :: "'a list \<Rightarrow> nat \<Rightarrow> 'a snode" where
  "snode_of xs i =
     (if i = 0 then \<lparr>sn_data = None, sn_next = (if xs = [] then - 1 else 1),
        sn_previous = (if xs = [] then - 1 else int (length xs))\<rparr>
      else if i \<le> length xs then \<lparr>sn_data = Some (xs ! (i - 1)),
        sn_next = (if i < length xs then int i + 1 else if i = 1 then 2 else - 1),
        sn_previous = (if i = 1 then 1 else int i - 1)\<rparr>
      else \<lparr>sn_data = None, sn_next = - 1, sn_previous = - 1\<rparr>)"

definition slist_of :: "'a list \<Rightarrow> 'a slist" where
  "slist_of xs = \<lparr>sl_size = of_nat (length xs), sl_step = 10, sl_capacity = 10,
     sl_head = Some (map (snode_of xs) [0..<10])\<rparr>"

fun sl_append_all :: "'a slist \<Rightarrow> 'a list \<Rightarrow> 'a slist outcome" where
  "sl_append_all s [] = Some (Inr s)"
| "sl_append_all s (t # ts) = bind_outcome (sl_append s t) (\<lambda>s. sl_append_all s ts)"

lemma sl_new_of: "sl_new = slist_of []"
proof -
  have "replicate 10 \<lparr>sn_data = None, sn_next = - 1, sn_previous = - 1\<rparr> = map (snode_of []) [0..<10]"
    by (rule nth_equalityI) (simp_all add: snode_of_def)
  then show ?thesis by (simp add: sl_new_def slist_of_def sl_stepUint_def new_snodes_def)
qed

lemma snode_slist_of: "i < 10 \<Longrightarrow> get_snode (slist_of xs) (int i) = Some (snode_of xs i)"
  by (simp add: get_snode_def slist_of_def)

lemma unat_small_uint: "n < 4294967296 \<Longrightarrow> unat (of_nat n :: uint) = n"
  by (simp add: unat_of_nat take_bit_nat_eq_self)

lemma getFreeIndex_of:
  assumes "length xs \<le> 9"
  shows "getFreeIndex (slist_of xs) = Some (if length xs < 9 then int (length xs) + 1 else - 1)"
proof -
  have loop: "getFreeIndex_loop (slist_of xs) is =
      Some (case find (\<lambda>i. length xs < i) is of None \<Rightarrow> - 1 | Some i \<Rightarrow> int i)"
    if "\<forall>i\<in>set is. 1 \<le> i \<and> i < 10" for "is"
    using that by (induction "is") (auto simp: snode_slist_of snode_of_def)
  have "find (\<lambda>i. length xs < i) [1..<10] = (if length xs < 9 then Some (length xs + 1) else None)"
    using assms by (auto simp: find_None_iff find_Some_iff intro!: exI [of _ "length xs"])
  then show ?thesis using loop [of "[1..<10]"] by (simp add: getFreeIndex_def slist_of_def del: upt_rec_numeral)
qed

lemma sl_append_of:
  assumes "length xs \<le> 9"
  shows "sl_append (slist_of xs) t = (if length xs < 9 then Some (Inr (slist_of (xs @ [t]))) else None)"
proof -
  let ?n = "length xs" and ?m = "map (snode_of xs) [0..<10]"
  have cap: "(10 :: uint) \<le> sl_maxSize" by (simp add: sl_maxSize_def word_le_def)
  have grow: "\<not> (10 :: uint) \<le> of_nat ?n + 1" if "?n < 9"
  proof -
    have "unat (of_nat (Suc ?n) :: uint) = Suc ?n" using that by (intro unat_small_uint) simp
    moreover have "unat (10 :: uint) = 10" by simp
    ultimately have "unat (of_nat ?n + 1 :: uint) < unat (10 :: uint)" using that by (simp only: of_nat_Suc add.commute)
    then show ?thesis by (simp only: word_le_nat_alt not_le)
  qed
  show ?thesis
  proof (cases "xs = []")
    case True
    have "(?m[1 := (?m ! 1)\<lparr>sn_data := Some t, sn_next := 2, sn_previous := 1\<rparr>])
        [0 := (?m ! 0)\<lparr>sn_next := 1, sn_previous := 1\<rparr>] = map (snode_of [t]) [0..<10]"
      by (rule nth_equalityI) (auto simp: True nth_list_update snode_of_def)
    then show ?thesis
      using grow cap by (simp add: True sl_append_def slist_of_def set_snode_def sl_grow_def)
  next
    case False
    then have "Suc 0 \<le> ?n" by (simp add: Suc_leI)
    have n0: "of_nat ?n \<noteq> (0 :: uint)" using False assms by (simp add: of_nat_eq_uint)
    have h: "get_snode (slist_of xs) 0 = Some (snode_of xs 0)" using snode_slist_of [of 0] by simp
    have p: "sn_previous (snode_of xs 0) = int ?n" using False by (simp add: snode_of_def)
    show ?thesis
    proof (cases "?n < 9")
      case True
      have "((?m[Suc ?n := (?m ! Suc ?n)\<lparr>sn_data := Some t, sn_previous := int ?n\<rparr>])
          [?n := (?m ! ?n)\<lparr>sn_next := int ?n + 1\<rparr>])[0 := (?m ! 0)\<lparr>sn_previous := int ?n + 1\<rparr>] =
          map (snode_of (xs @ [t])) [0..<10]"
        by (rule nth_equalityI) (use True False \<open>Suc 0 \<le> ?n\<close> in \<open>auto simp: nth_list_update snode_of_def nth_append\<close>)
      moreover have "nat (int ?n + 1) = Suc ?n" by simp
      ultimately show ?thesis
        using True False n0 h p getFreeIndex_of [OF assms] grow cap
        by (simp add: sl_append_def set_snode_def sl_grow_def) (simp add: slist_of_def add.commute)
    qed (use n0 h p getFreeIndex_of [OF assms] cap in \<open>simp add: sl_append_def set_snode_def slist_of_def\<close>)
  qed
qed

text \<open>The walks of \<open>findNodeIndex\<close>, over any list whose nodes have the links they use.\<close>

lemma find_forward:
  assumes "\<forall>k<i. \<exists>n. get_snode s (int k + 1) = Some n \<and> sn_next n = int k + 2" "j \<le> i" "i < 4294967296"
  shows "findNodeIndex_loop s (of_nat i) True (int j) (int j + 1) = Some (int i + 1)"
  using assms(2)
proof (induction "i - j" arbitrary: j)
  case 0
  then have "j = i" by simp
  then show ?case by (subst findNodeIndex_loop.simps) simp
next
  case (Suc d)
  then have j: "j < i" by simp
  then have ne: "(of_nat j :: uint) \<noteq> of_nat i" using assms(3) by (simp add: of_nat_eq_uint unat_small_uint)
  obtain n where n: "get_snode s (int j + 1) = Some n" "sn_next n = int j + 2" using assms(1) j by auto
  have "findNodeIndex_loop s (of_nat i) True (int (Suc j)) (int (Suc j) + 1) = Some (int i + 1)"
    by (rule Suc.hyps(1)) (use Suc.hyps(2) j in simp_all)
  then show ?case using n ne by (subst findNodeIndex_loop.simps) (simp add: add.commute)
qed

lemma find_backward:
  assumes "\<forall>k. i < k \<and> k \<le> j \<longrightarrow> (\<exists>n. get_snode s (int k + 1) = Some n \<and> sn_previous n = int k)" "i \<le> j" "j < 4294967296"
  shows "findNodeIndex_loop s (of_nat i) False (int j) (int j + 1) = Some (int i + 1)"
  using assms
proof (induction "j - i" arbitrary: j)
  case 0
  then have "j = i" by simp
  then show ?case by (subst findNodeIndex_loop.simps) simp
next
  case (Suc d)
  then have j: "i < j" by simp
  then have ne: "(of_nat j :: uint) \<noteq> of_nat i" using Suc.prems(3) by (simp add: of_nat_eq_uint unat_small_uint)
  obtain n where n: "get_snode s (int j + 1) = Some n" "sn_previous n = int j" using Suc.prems(1) j by auto
  have "findNodeIndex_loop s (of_nat i) False (int (j - 1)) (int (j - 1) + 1) = Some (int i + 1)"
    by (rule Suc.hyps(1)) (use Suc.hyps(2) Suc.prems j in auto)
  moreover have "int (j - 1) = int j - 1" "int (j - 1) + 1 = int j" using j by simp_all
  ultimately show ?case using n ne by (subst findNodeIndex_loop.simps) simp
qed

lemma sint_of_nat_small:
  assumes "n < 2147483648"
  shows "sint (of_nat n :: uint) = int n"
proof -
  have u: "uint (of_nat n :: uint) = int n"
  proof -
    have "uint w = int (unat w)" for w :: uint by simp
    moreover have "unat (of_nat n :: uint) = n" by (rule unat_small_uint) (use assms in simp)
    ultimately show ?thesis by (simp only:)
  qed
  have "sint (of_nat n :: uint) = signed_take_bit 31 (uint (of_nat n :: uint))"
    by (simp only: sint_uint) simp
  also have "\<dots> = signed_take_bit 31 (int n)" by (simp only: u)
  also have "\<dots> = int n" by (rule signed_take_bit_int_eq_self) (use assms in simp_all)
  finally show ?thesis .
qed

lemma size_words:
  assumes "length xs \<le> 9" "i < length xs"
  shows "\<not> sl_size (slist_of xs) \<le> of_nat i"
    "sl_size (slist_of xs) div 2 < of_nat i \<longleftrightarrow> length xs div 2 < i"
    "sint (sl_size (slist_of xs) - 1) = int (length xs - 1)"
proof -
  have u: "unat (of_nat (length xs) :: uint) = length xs" "unat (of_nat i :: uint) = i"
    using assms by (simp_all add: unat_small_uint)
  have s: "sl_size (slist_of xs) = of_nat (length xs)" by (simp add: slist_of_def)
  show "\<not> sl_size (slist_of xs) \<le> of_nat i" using u assms(2) by (simp add: s word_le_nat_alt)
  have "unat (of_nat (length xs) div 2 :: uint) = length xs div 2" using u by (simp add: unat_div)
  then show "sl_size (slist_of xs) div 2 < of_nat i \<longleftrightarrow> length xs div 2 < i"
    using u by (simp add: s word_less_nat_alt)
  have "of_nat (length xs) - 1 = (of_nat (length xs - 1) :: uint)" using assms(2) by (simp add: of_nat_diff)
  then show "sint (sl_size (slist_of xs) - 1) = int (length xs - 1)"
    using assms(1) sint_of_nat_small [of "length xs - 1"] by (simp add: s)
qed

lemma findNodeIndex_of:
  assumes "length xs \<le> 9" "i < length xs"
  shows "findNodeIndex (slist_of xs) (of_nat i) = Some (int i + 1)"
proof -
  have node: "get_snode (slist_of xs) (int k + 1) = Some (snode_of xs (Suc k))" if "k < length xs" for k
    using snode_slist_of [of "Suc k" xs] that assms(1) by (simp add: add.commute)
  have h: "get_snode (slist_of xs) 0 = Some (snode_of xs 0)" using snode_slist_of [of 0] by simp
  have hd: "sn_next (snode_of xs 0) = 1" "sn_previous (snode_of xs 0) = int (length xs - 1) + 1"
    using assms(2) by (auto simp: snode_of_def)
  have "\<forall>k<i. \<exists>n. get_snode (slist_of xs) (int k + 1) = Some n \<and> sn_next n = int k + 2"
    using node assms(2) by (auto simp: snode_of_def)
  from find_forward [OF this, of 0] assms
  have "findNodeIndex_loop (slist_of xs) (of_nat i) True 0 1 = Some (int i + 1)" by simp
  moreover have "\<forall>k. i < k \<and> k \<le> length xs - 1 \<longrightarrow>
      (\<exists>n. get_snode (slist_of xs) (int k + 1) = Some n \<and> sn_previous n = int k)"
    using node assms(2) by (auto simp: snode_of_def)
  from find_backward [OF this] assms
  have "findNodeIndex_loop (slist_of xs) (of_nat i) False (int (length xs - 1)) (int (length xs - 1) + 1) =
      Some (int i + 1)" by simp
  ultimately show ?thesis
    using size_words [OF assms] h hd by (simp add: findNodeIndex_def)
qed

lemma sl_at_of:
  assumes "length xs \<le> 9" "i < length xs"
  shows "sl_at (slist_of xs) (of_nat i) = Some (Inr (xs ! i))"
proof -
  have "get_snode (slist_of xs) (int i + 1) = Some (snode_of xs (Suc i))"
    using snode_slist_of [of "Suc i" xs] assms by (simp add: add.commute)
  then show ?thesis
    using size_words(1) [OF assms] findNodeIndex_of [OF assms] assms(2) by (simp add: sl_at_def snode_of_def)
qed

lemma sl_append_all_of:
  "length (xs @ ys) \<le> 9 \<Longrightarrow> sl_append_all (slist_of xs) ys = Some (Inr (slist_of (xs @ ys)))"
  by (induction ys arbitrary: xs) (simp_all add: sl_append_of)

lemma sl_append_all_full:
  "length xs \<le> 9 \<Longrightarrow> 9 < length (xs @ ys) \<Longrightarrow> sl_append_all (slist_of xs) ys = None"
  by (induction ys arbitrary: xs) (simp_all add: sl_append_of)

lemma sl_build:
  assumes "sl_append_all sl_new xs = Some (Inr s)"
  shows "s = slist_of xs \<and> length xs \<le> 9"
proof (cases "length xs \<le> 9")
  case True
  then show ?thesis using assms sl_append_all_of [of "[]" xs] by (simp add: sl_new_of)
next
  case False
  then show ?thesis using assms sl_append_all_full [of "[]" xs] by (simp add: sl_new_of)
qed

text \<open>What is appended to a new \<open>StaticList\<close>, up to nine elements, is found again by \<open>at\<close>, and
  a position behind the end throws; the tenth append is undefined: the block of ten nodes has no free one
  left, and grows only after an append.\<close>

theorem slist_append_at:
  "if length xs \<le> 9
    then \<exists>s. sl_append_all sl_new xs = Some (Inr s) \<and> unat (sl_size s) = length xs \<and>
      (\<forall>i < length xs. sl_at s (of_nat i) = Some (Inr (xs ! i))) \<and>
      sl_at s (of_nat (length xs)) = Some (Inl OutOfRange)
    else sl_append_all sl_new xs = None"
proof (cases "length xs \<le> 9")
  case True
  have "sl_append_all sl_new xs = Some (Inr (slist_of xs))"
    using sl_append_all_of [of "[]" xs] True by (simp add: sl_new_of)
  moreover have "unat (sl_size (slist_of xs)) = length xs" using True by (simp add: slist_of_def unat_small_uint)
  moreover have "sl_at (slist_of xs) (of_nat (length xs)) = Some (Inl OutOfRange)"
    by (simp add: sl_at_def slist_of_def)
  ultimately show ?thesis using True sl_at_of [OF True] by simp
next
  case False
  then show ?thesis using sl_append_all_full [of "[]" xs] by (simp add: sl_new_of)
qed

theorem slist_append_at_witness:
  "(\<exists>s. sl_append_all sl_new [3, 1, 4] = Some (Inr s) \<and> sl_at s 2 = Some (Inr (4 :: int))) \<and>
    sl_append_all sl_new (replicate 10 (0 :: int)) = None"
  using slist_append_at [of "[3, 1, 4 :: int]"] slist_append_at [of "replicate 10 (0 :: int)"]
  by (auto dest: spec [of _ 2])

text \<open>The nodes of a copy: those before the last one.\<close>

lemma copy_of:
  fixes xs :: "'a list"
  assumes "length xs \<le> 9" "xs \<noteq> []"
  shows "\<exists>c. sl_copy (slist_of xs) = Some c \<and> sl_size c = of_nat (length xs) \<and> (\<forall>k<length xs. get_snode c (int k) = Some (snode_of xs k)) \<and>
    get_snode c (int (length xs)) = Some \<lparr>sn_data = None, sn_next = - 1, sn_previous = - 1\<rparr>"
proof -
  let ?n = "length xs" and ?m = "map (snode_of xs) [0..<10]"
  let ?h = "take ?n ?m @ drop ?n (new_snodes 10)"
  have "of_nat ?n \<noteq> (0 :: uint)" using assms by (simp add: of_nat_eq_uint)
  then have cp: "copy_nodes 10 (of_nat ?n) (Some ?m) = Some ?h"
    using assms(1) by (simp add: copy_nodes_def unat_small_uint)
  have l: "length (new_snodes 10 :: 'a snode list) = 10" by (simp add: new_snodes_def)
  have "?h ! k = snode_of xs k" if "k < ?n" for k using that assms(1) l by (simp add: nth_append)
  moreover have "?h ! ?n = \<lparr>sn_data = None, sn_next = - 1, sn_previous = - 1\<rparr>"
    using assms(1) l by (simp add: nth_append new_snodes_def)
  moreover have "length ?h = 10" using assms(1) l by simp
  ultimately show ?thesis
    using cp assms(1) by (simp add: sl_copy_def slist_of_def get_snode_def)
qed

text \<open>The copy constructor copies as many nodes as there are elements, of which the first is the
  head node: the last element of the copy is indeterminate, and every element that is looked for from the
  end is lost with it.  Only those before the middle are found.\<close>

theorem slist_copy_loses:
  assumes "sl_append_all sl_new xs = Some (Inr s)" "xs \<noteq> []"
  shows "\<exists>c. sl_copy s = Some c \<and> sl_size c = sl_size s \<and> (\<forall>i < length xs.
    sl_at c (of_nat i) = (if i \<le> length xs div 2 \<and> i + 1 < length xs then Some (Inr (xs ! i)) else None))"
proof -
  let ?n = "length xs"
  have s: "s = slist_of xs" "?n \<le> 9" using sl_build [OF assms(1)] by simp_all
  obtain c where c: "sl_copy s = Some c" "sl_size c = of_nat ?n" "\<forall>k<?n. get_snode c (int k) = Some (snode_of xs k)"
    "get_snode c (int ?n) = Some \<lparr>sn_data = None, sn_next = - 1, sn_previous = - 1\<rparr>"
    using copy_of [OF s(2) assms(2)] by (auto simp: s(1))
  have sz: "sl_size c = sl_size (slist_of xs)" using c(2) by (simp add: slist_of_def)
  have h: "get_snode c 0 = Some (snode_of xs 0)" using spec [OF c(3), of 0] assms(2) by simp
  have node: "get_snode c (int k + 1) = Some (snode_of xs (Suc k))" if "Suc k < ?n" for k
    using c(3) that by (metis add.commute of_nat_Suc)
  have "sl_at c (of_nat i) = (if i \<le> ?n div 2 \<and> i + 1 < ?n then Some (Inr (xs ! i)) else None)" if i: "i < ?n" for i
  proof -
    note w = size_words [OF s(2) i, folded sz]
    have hd: "sn_next (snode_of xs 0) = 1" "sn_previous (snode_of xs 0) = int (?n - 1) + 1"
      using i by (auto simp: snode_of_def)
    show ?thesis
    proof (cases "i \<le> ?n div 2")
      case True
      have "\<forall>k<i. \<exists>n. get_snode c (int k + 1) = Some n \<and> sn_next n = int k + 2"
        using node i by (auto simp: snode_of_def)
      from find_forward [OF this, of 0] i s(2)
      have "findNodeIndex c (of_nat i) = Some (int i + 1)"
        using True w(1,2) h hd by (simp add: findNodeIndex_def)
      moreover have "get_snode c (int i + 1) = Some (snode_of xs (Suc i))" if "i + 1 < ?n"
        using node that by simp
      moreover have "int i + 1 = int ?n" if "\<not> i + 1 < ?n" using that i by simp
      ultimately show ?thesis
        using True w(1) i c(4) by (cases "i + 1 < ?n") (simp_all add: sl_at_def snode_of_def)
    next
      case False
      have "findNodeIndex c (of_nat i) = findNodeIndex_loop c (of_nat i) False (int (?n - 1)) (int ?n)"
        using False w h hd i by (simp add: findNodeIndex_def)
      moreover have "lift (do { index \<leftarrow> findNodeIndex_loop c (of_nat i) False (int (?n - 1)) (int ?n);
          n \<leftarrow> get_snode c index; sn_data n }) = None"
      proof -
        have none: "get_snode c (- 1) = None" by (auto simp: get_snode_def split: option.split)
        then have "do { index \<leftarrow> findNodeIndex_loop c (of_nat i) False j (- 1); n \<leftarrow> get_snode c index; sn_data n } = None" for j
          by (subst findNodeIndex_loop.simps) simp
        then show ?thesis using c(4) by (subst findNodeIndex_loop.simps) simp
      qed
      ultimately show ?thesis using False w(1) by (simp add: sl_at_def)
    qed
  qed
  then show ?thesis using c(1) sz s(1) by blast
qed

theorem slist_copy_loses_witness:
  "\<exists>s c. sl_append_all sl_new [3, 1, 4] = Some (Inr s) \<and> sl_copy s = Some c \<and>
    sl_at c 0 = Some (Inr (3 :: int)) \<and> sl_at c 2 = None"
proof -
  have b: "sl_append_all sl_new [3, 1, 4 :: int] = Some (Inr (slist_of [3, 1, 4]))"
    using sl_append_all_of [of "[]" "[3, 1, 4 :: int]"] by (simp add: sl_new_of)
  obtain c where c: "sl_copy (slist_of [3, 1, 4 :: int]) = Some c" "\<forall>i<3. sl_at c (of_nat i) =
      (if i \<le> 3 div 2 \<and> i + 1 < 3 then Some (Inr ([3, 1, 4] ! i)) else None)"
    using slist_copy_loses [OF b] by auto
  have "sl_at c 0 = Some (Inr 3)" "sl_at c 2 = None" using spec [OF c(2), of 0] spec [OF c(2), of 2] by simp_all
  then show ?thesis using b c(1) by blast
qed

text \<open>Removing the first of several elements does not remove it: the first node's \<open>previous\<close> is
  itself, so that \<open>m_head->next\<close> keeps pointing to it.\<close>

theorem slist_removeAt_first:
  assumes "sl_append_all sl_new xs = Some (Inr s)" "2 \<le> length xs"
  shows "\<exists>s'. sl_removeAt s 0 = Some s' \<and> unat (sl_size s') = length xs - 1 \<and> sl_at s' 0 = Some (Inr (xs ! 0))"
proof -
  let ?n = "length xs" and ?m = "map (snode_of xs) [0..<10]"
  have s: "s = slist_of xs" "?n \<le> 9" using sl_build [OF assms(1)] by simp_all
  have f: "findNodeIndex (slist_of xs) 0 = Some 1" using findNodeIndex_of [OF s(2), of 0] assms(2) by force
  have n1: "get_snode (slist_of xs) 1 = Some (snode_of xs 1)" using snode_slist_of [of 1] by simp
  have l1: "sn_previous (snode_of xs 1) = 1" "sn_next (snode_of xs 1) = 2" "sn_data (snode_of xs 1) = Some (xs ! 0)"
    using assms(2) by (auto simp: snode_of_def)
  have u: "unat (of_nat ?n :: uint) = ?n" using s(2) by (simp add: unat_small_uint)
  have sz: "\<not> sl_size (slist_of xs) \<le> 0" "sl_size (slist_of xs) - 1 \<noteq> 0" "unat (sl_size (slist_of xs) - 1) = ?n - 1"
  proof -
    have "0 < unat (of_nat ?n :: uint)" using u assms(2) by linarith
    from unat_dec [OF this] have "unat (of_nat ?n - 1 :: uint) = ?n - 1" by (simp only: u)
    then show "\<not> sl_size (slist_of xs) \<le> 0" "sl_size (slist_of xs) - 1 \<noteq> 0"
        "unat (sl_size (slist_of xs) - 1) = ?n - 1"
      using u assms(2) by (auto simp: slist_of_def word_le_nat_alt word_unat_eq_iff)
  qed
  let ?h = "(?m[1 := (?m ! 1)\<lparr>sn_next := 2\<rparr>])[2 := (?m[1 := (?m ! 1)\<lparr>sn_next := 2\<rparr>] ! 2)\<lparr>sn_previous := 1\<rparr>]"
  let ?s = "slist_of xs\<lparr>sl_head := Some ?h, sl_size := sl_size (slist_of xs) - 1\<rparr>"
  have "sl_removeAt (slist_of xs) 0 = Some ?s"
    using sz f n1 l1 by (simp add: sl_removeAt_def set_snode_def) (simp add: slist_of_def)
  moreover have "get_snode ?s 0 = Some (snode_of xs 0)" "get_snode ?s 1 = Some (snode_of xs 1)"
    using l1 by (simp_all add: get_snode_def)
  moreover have "sn_next (snode_of xs 0) = 1" using assms(2) by (auto simp: snode_of_def)
  moreover have "\<not> sl_size ?s \<le> 0" using sz(3) assms(2) by (simp add: word_le_nat_alt)
  ultimately have "sl_at ?s 0 = Some (Inr (xs ! 0))"
    using l1 by (simp add: sl_at_def findNodeIndex_def findNodeIndex_loop.simps)
  then show ?thesis using \<open>sl_removeAt (slist_of xs) 0 = Some ?s\<close> sz(3) s(1) by auto
qed

end
