(* ===== verification/Worklist.thy ===== *)
theory Worklist
  imports Prelude
begin

text \<open>
  The contract that \<open>SQueue\<close> and \<open>Stack\<close> of Data Structure/DataStructure share: values are
  put in and taken out one at a time.  They differ in where a new value goes, which is the
  parameter \<open>ins\<close>: at the end (first in, first out) or in front (last in, first out).
  The clients of the two containers, the drain loop of \<open>main\<close> and the traversals of Tree.hpp,
  are proved against the contract.
\<close>

text \<open>\<open>while (!v.isEmpty()) cout << v.dequeue()\<close> of \<open>main\<close>: what it prints, and the container
  it leaves.\<close>

partial_function (option) drain ::
    "('s \<Rightarrow> bool) \<Rightarrow> ('s \<Rightarrow> ('a \<times> 's) outcome) \<Rightarrow> 's \<Rightarrow> ('a list \<times> 's) outcome" where
  "drain isEmpty dequeue v =
     (if isEmpty v then Some (Inr ([], v))
      else bind_outcome (dequeue v) (\<lambda>p.
        bind_outcome (drain isEmpty dequeue (snd p)) (\<lambda>q. Some (Inr (fst p # fst q, snd q)))))"

declare drain.simps [code]

fun put_all :: "('s \<Rightarrow> 'a \<Rightarrow> 's outcome) \<Rightarrow> 'a list \<Rightarrow> 's \<Rightarrow> 's outcome" where
  "put_all enqueue [] v = Some (Inr v)"
| "put_all enqueue (x # xs) v = bind_outcome (enqueue v x) (put_all enqueue xs)"

locale worklist =
  fixes is_empty :: "'s \<Rightarrow> bool"
    and put :: "'s \<Rightarrow> 'a \<Rightarrow> 's outcome"
    and get :: "'s \<Rightarrow> ('a \<times> 's) outcome"
    and rep :: "'s \<Rightarrow> 'a list \<Rightarrow> bool"
    and cap :: nat
    and ins :: "'a \<Rightarrow> 'a list \<Rightarrow> 'a list"
  assumes is_empty_rep: "rep s xs \<Longrightarrow> is_empty s \<longleftrightarrow> xs = []"
    and put_rep: "rep s xs \<Longrightarrow> length xs < cap \<Longrightarrow>
      \<exists>s'. put s x = Some (Inr s') \<and> rep s' (ins x xs)"
    and get_rep: "rep s (x # xs) \<Longrightarrow> \<exists>s'. get s = Some (Inr (x, s')) \<and> rep s' xs"
    and get_empty: "rep s [] \<Longrightarrow> get s = Some (Inl OutOfRange)"
    and length_ins: "length (ins x xs) = Suc (length xs)"
begin

lemma drain_rep:
  assumes "rep s xs"
  shows "\<exists>s'. drain is_empty get s = Some (Inr (xs, s')) \<and> rep s' []"
  using assms
proof (induction xs arbitrary: s)
  case Nil
  then show ?case by (subst drain.simps) (simp add: is_empty_rep)
next
  case (Cons x xs)
  obtain s1 where "get s = Some (Inr (x, s1))" "rep s1 xs" using get_rep [OF Cons.prems] by blast
  then show ?case
    using Cons.IH [of s1] is_empty_rep [OF Cons.prems] by (subst drain.simps) auto
qed

lemma put_all_rep:
  assumes "rep s ys" "length ys + length xs \<le> cap"
  shows "\<exists>s'. put_all put xs s = Some (Inr s') \<and> rep s' (fold ins xs ys)"
  using assms
proof (induction xs arbitrary: s ys)
  case (Cons x xs)
  obtain s1 where "put s x = Some (Inr s1)" "rep s1 (ins x ys)"
    using put_rep [OF Cons.prems(1), of x] Cons.prems(2) by auto
  then show ?case using Cons.IH [of s1 "ins x ys"] Cons.prems(2) by (auto simp: length_ins)
qed auto

text \<open>Whatever goes in comes out, in the order of the container's policy.\<close>

lemma put_all_drain:
  assumes "rep s []" "length xs \<le> cap"
  shows "\<exists>s' s''. put_all put xs s = Some (Inr s') \<and>
    drain is_empty get s' = Some (Inr (fold ins xs [], s'')) \<and> rep s'' []"
  using put_all_rep [OF assms(1), of xs] drain_rep assms(2) by fastforce

end

locale fifo = worklist is_empty put get rep cap "\<lambda>x xs. xs @ [x]"
  for is_empty :: "'s \<Rightarrow> bool" and put :: "'s \<Rightarrow> 'a \<Rightarrow> 's outcome" and get rep cap
begin

lemma fold_snoc: "fold (\<lambda>x xs. xs @ [x]) xs ys = ys @ xs"
  by (induction xs arbitrary: ys) simp_all

lemma in_order:
  assumes "rep s []" "length xs \<le> cap"
  shows "\<exists>s' s''. put_all put xs s = Some (Inr s') \<and>
    drain is_empty get s' = Some (Inr (xs, s'')) \<and> rep s'' []"
  using put_all_drain [OF assms] by (simp add: fold_snoc)

end

locale lifo = worklist is_empty put get rep cap Cons
  for is_empty :: "'s \<Rightarrow> bool" and put :: "'s \<Rightarrow> 'a \<Rightarrow> 's outcome" and get rep cap
begin

lemma reverse_order:
  assumes "rep s []" "length xs \<le> cap"
  shows "\<exists>s' s''. put_all put xs s = Some (Inr s') \<and>
    drain is_empty get s' = Some (Inr (rev xs, s'')) \<and> rep s'' []"
  using put_all_drain [OF assms] by (simp add: fold_Cons_rev)

end

end
