(* ===== verification/QueueHpp.thy ===== *)
theory QueueHpp
  imports Chain Worklist
begin

text \<open>
  \<open>Queue<T>\<close> and \<open>SQueue<T>\<close> of Data Structure/DataStructure/Queue.hpp: a doubly linked
  list behind a head node without data.  The object is a record of its fields, its nodes live in
  the heap of theory Chain.  The copy and move constructors write through an uninitialised
  \<open>m_head\<close>, the assignment operators end without a \<open>return\<close> and
  \<open>pushFront(const T&)\<close> names an undeclared \<open>m_node\<close>: they are not modelled.
\<close>

record dqueue =
  que_head :: addr
  que_tail :: addr
  que_size :: uint

definition queue_new :: "'a mem \<Rightarrow> 'a mem \<times> dqueue" where
  "queue_new h = (let (p, h1) = new_node h
     in (h1, \<lparr>que_head = p, que_tail = null, que_size = 0\<rparr>))"

definition queue_isEmpty :: "dqueue \<Rightarrow> bool" where
  "queue_isEmpty q \<longleftrightarrow> que_size q = 0"

definition queue_pushBack :: "'a mem \<Rightarrow> dqueue \<Rightarrow> 'a \<Rightarrow> ('a mem \<times> dqueue) outcome" where
  "queue_pushBack h q t =
     (if que_size q + 1 \<le> m_maxSize then do {
        let (node, h) = new_node h;
        h \<leftarrow> store_data h node t;
        h \<leftarrow>
          (if que_tail q = null then do {
             h \<leftarrow> store_prev h node (que_head q);
             store_next h (que_head q) node
           } else do {
             h \<leftarrow> store_prev h node (que_tail q);
             store_next h (que_tail q) node
           });
        Some (Inr (h, q\<lparr>que_tail := node, que_size := que_size q + 1\<rparr>))
      } else Some (Inl AssertFailed))"

text \<open>The rvalue overload.\<close>

definition queue_pushFront :: "'a mem \<Rightarrow> dqueue \<Rightarrow> 'a \<Rightarrow> ('a mem \<times> dqueue) outcome" where
  "queue_pushFront h q t =
     (if que_size q + 1 \<le> m_maxSize then do {
        let (node, h) = new_node h;
        h \<leftarrow> store_data h node t;
        (h, q) \<leftarrow>
          (if que_tail q = null then do {
             h \<leftarrow> store_next h (que_head q) node;
             h \<leftarrow> store_prev h node (que_head q);
             Some (h, q\<lparr>que_tail := node\<rparr>)
           } else do {
             nx \<leftarrow> load_next h (que_head q);
             h \<leftarrow> store_next h node nx;
             h \<leftarrow> store_next h (que_head q) node;
             nx \<leftarrow> load_next h node;
             h \<leftarrow> store_prev h nx node;
             h \<leftarrow> store_prev h node (que_head q);
             Some (h, q)
           });
        Some (Inr (h, q\<lparr>que_size := que_size q + 1\<rparr>))
      } else Some (Inl AssertFailed))"

definition queue_popBack :: "'a mem \<Rightarrow> dqueue \<Rightarrow> ('a \<times> 'a mem \<times> dqueue) outcome" where
  "queue_popBack h q =
     (if que_size q = 0 then Some (Inl OutOfRange)
      else do {
        let ptr = que_tail q;
        t \<leftarrow> load_data h ptr;
        prv \<leftarrow> load_prev h ptr;
        (h, q) \<leftarrow>
          (if prv = que_head q then do {
             h \<leftarrow> store_next h (que_head q) null;
             Some (h, q\<lparr>que_tail := null\<rparr>)
           } else do {
             prv \<leftarrow> load_prev h (que_tail q);
             h \<leftarrow> store_next h prv null;
             Some (h, q\<lparr>que_tail := prv\<rparr>)
           });
        h \<leftarrow> delete_node h ptr;
        Some (Inr (t, h, q\<lparr>que_size := que_size q - 1\<rparr>))
      })"

definition queue_popFront :: "'a mem \<Rightarrow> dqueue \<Rightarrow> ('a \<times> 'a mem \<times> dqueue) outcome" where
  "queue_popFront h q =
     (if que_size q = 0 then Some (Inl OutOfRange)
      else do {
        ptr \<leftarrow> load_next h (que_head q);
        t \<leftarrow> load_data h ptr;
        (h, q) \<leftarrow>
          (if ptr = que_tail q then do {
             h \<leftarrow> store_next h (que_head q) null;
             Some (h, q\<lparr>que_tail := null\<rparr>)
           } else do {
             nx \<leftarrow> load_next h ptr;
             h \<leftarrow> store_next h (que_head q) nx;
             nx \<leftarrow> load_next h ptr;
             h \<leftarrow> store_prev h nx (que_head q);
             Some (h, q)
           });
        h \<leftarrow> delete_node h ptr;
        Some (Inr (t, h, q\<lparr>que_size := que_size q - 1\<rparr>))
      })"

definition queue_head :: "'a mem \<Rightarrow> dqueue \<Rightarrow> 'a outcome" where
  "queue_head h q =
     (if que_size q = 0 then Some (Inl OutOfRange)
      else do { p \<leftarrow> load_next h (que_head q); d \<leftarrow> load_data h p; Some (Inr d) })"

definition queue_tail :: "'a mem \<Rightarrow> dqueue \<Rightarrow> 'a outcome" where
  "queue_tail h q =
     (if que_size q = 0 then Some (Inl OutOfRange)
      else do { d \<leftarrow> load_data h (que_tail q); Some (Inr d) })"

text \<open>\<open>at(int pos)\<close>: the guard compares \<open>pos\<close> as an unsigned number, the loop counts the
  \<open>int\<close> down to 0 (a decrement below the least \<open>int\<close> is undefined).\<close>

function queue_at_loop :: "'a mem \<Rightarrow> addr \<Rightarrow> 32 word \<Rightarrow> addr option" where
  "queue_at_loop h ptr pos =
     (if pos = 0 then Some ptr
      else do {
        ptr \<leftarrow> load_next h ptr;
        if pos = 0x80000000 then None else queue_at_loop h ptr (pos - 1)
      })"
  by pat_completeness auto
termination
  by (relation "measure (\<lambda>(h, ptr, pos). unat pos)") (auto simp: unat_dec unat_gt_0)

declare queue_at_loop.simps [simp del]

definition queue_at :: "'a mem \<Rightarrow> dqueue \<Rightarrow> 32 word \<Rightarrow> 'a outcome" where
  "queue_at h q pos =
     (if que_size q \<le> pos then Some (Inl OutOfRange)
      else do {
        ptr \<leftarrow> load_next h (que_head q);
        ptr \<leftarrow> queue_at_loop h ptr pos;
        d \<leftarrow> load_data h ptr;
        Some (Inr d)
      })"

text \<open>\<open>clear\<close> releases the nodes and does not touch \<open>m_head->next\<close>.\<close>

definition queue_clear :: "'a mem \<Rightarrow> dqueue \<Rightarrow> ('a mem \<times> dqueue) option" where
  "queue_clear h q = do {
     ptr \<leftarrow> load_next h (que_head q);
     h \<leftarrow> delete_until h ptr null;
     Some (h, q\<lparr>que_tail := null, que_size := 0\<rparr>)
   }"

definition queue_destroy :: "'a mem \<Rightarrow> dqueue \<Rightarrow> 'a mem option" where
  "queue_destroy h q = do {
     (h, q) \<leftarrow> queue_clear h q;
     delete_node h (que_head q)
   }"

definition squeue_enqueue :: "'a mem \<times> dqueue \<Rightarrow> 'a \<Rightarrow> ('a mem \<times> dqueue) outcome" where
  "squeue_enqueue = (\<lambda>(h, q) t. queue_pushBack h q t)"

definition squeue_dequeue :: "'a mem \<times> dqueue \<Rightarrow> ('a \<times> 'a mem \<times> dqueue) outcome" where
  "squeue_dequeue = (\<lambda>(h, q). queue_popFront h q)"

definition squeue_isEmpty :: "'a mem \<times> dqueue \<Rightarrow> bool" where
  "squeue_isEmpty = (\<lambda>(h, q). queue_isEmpty q)"

subsection \<open>What a queue object represents\<close>

definition queue_nodes :: "'a mem \<Rightarrow> dqueue \<Rightarrow> addr list \<Rightarrow> 'a list \<Rightarrow> bool" where
  "queue_nodes h q as xs \<longleftrightarrow> chain h (que_head q) as xs \<and>
     que_tail q = (if as = [] then null else last as) \<and>
     unat (que_size q) = length as \<and> length as \<le> unat m_maxSize"

definition queue_rep :: "'a mem \<times> dqueue \<Rightarrow> 'a list \<Rightarrow> bool" where
  "queue_rep s xs \<longleftrightarrow> (\<exists>as. queue_nodes (fst s) (snd s) as xs)"

lemma queue_nodes_chain: "queue_nodes h q as xs \<Longrightarrow> chain h (que_head q) as xs"
  by (simp add: queue_nodes_def)

lemma queue_nodes_length: "queue_nodes h q as xs \<Longrightarrow> length as = length xs"
  by (auto simp: queue_nodes_def dest: chain_length)

lemma queue_nodes_size: "queue_nodes h q as xs \<Longrightarrow> unat (que_size q) = length xs"
  by (auto simp: queue_nodes_def dest: chain_length)

lemma queue_nodes_empty: "queue_nodes h q as xs \<Longrightarrow> que_size q = 0 \<longleftrightarrow> xs = []"
  using queue_nodes_size [of h q as xs] by (auto simp flip: unat_eq_0)

lemma queue_new_nodes:
  assumes "mem_ok h"
  shows "case queue_new h of (h', q) \<Rightarrow> queue_nodes h' q [] []"
  using assms
  by (auto simp: queue_new_def queue_nodes_def new_node_def chain_def mem_ok_def less_Suc_eq)

lemma queue_room:
  assumes "queue_nodes h q as xs"
  shows "que_size q + 1 \<le> m_maxSize \<longleftrightarrow> length xs < unat m_maxSize"
proof -
  have "length xs \<le> 4278190080"
    using assms queue_nodes_length [OF assms] by (simp add: queue_nodes_def)
  then have "unat (que_size q + 1) = Suc (length xs)"
    using queue_nodes_size [OF assms] by (simp add: unat_inc)
  then show ?thesis by (simp add: word_le_nat_alt Suc_le_eq)
qed

lemma queue_pushBack_nodes:
  assumes n: "queue_nodes h q as xs" and room: "length xs < unat m_maxSize"
  shows "\<exists>h' q'. queue_pushBack h q t = Some (Inr (h', q')) \<and>
    queue_nodes h' q' (as @ [brk h]) (xs @ [t])"
proof -
  note c = queue_nodes_chain [OF n] and len = queue_nodes_length [OF n]
  define x where "x = (if as = [] then que_head q else last as)"
  define h' where "h' = h\<lparr>alive := (alive h)(brk h := True),
    nextOf := (nextOf h)(brk h := null, x := brk h), prevOf := (prevOf h)(brk h := x),
    dataOf := (dataOf h)(brk h := Some t), brk := Suc (brk h)\<rparr>"
  define q' where "q' = q\<lparr>que_tail := brk h, que_size := que_size q + 1\<rparr>"
  have f: "brk h \<notin> set (que_head q # as)" by (rule fresh_not_in [OF c])
  have "x \<in> set (que_head q # as)" by (simp add: x_def)
  then have x: "x = (que_head q # as) ! length as" "alive h x" "x \<noteq> brk h"
    using chain_alive [OF c, of x] f by (auto simp: x_def nth_Cons' last_conv_nth)
  have "que_tail q = null \<longleftrightarrow> as = []"
    using n chain_not_null [OF c, of "last as"] by (auto simp: queue_nodes_def)
  then have "queue_pushBack h q t = Some (Inr (h', q'))"
    using x n room queue_room [OF n]
    by (auto simp: queue_pushBack_def new_node_def effect_simps h'_def q'_def queue_nodes_def x_def)
  moreover have "chain h' (que_head q) (take (length as) as @ brk h # drop (length as) as)
      (take (length as) xs @ t # drop (length as) xs)"
    by (rule chain_insert_node [OF c le_refl f])
      (use mem_ok_new [OF chain_mem_ok [OF c]] x f chain_alive [OF c] in
        \<open>auto simp: h'_def mem_ok_def new_node_def\<close>)
  ultimately show ?thesis
    using n room len by (auto simp: queue_nodes_def q'_def unat_inc)
qed

lemma queue_pushFront_nodes:
  assumes n: "queue_nodes h q as xs" and room: "length xs < unat m_maxSize"
  shows "\<exists>h' q'. queue_pushFront h q t = Some (Inr (h', q')) \<and>
    queue_nodes h' q' (brk h # as) (t # xs)"
proof -
  note c = queue_nodes_chain [OF n] and len = queue_nodes_length [OF n]
  let ?a = "que_head q" and ?n = "brk h"
  have f: "?n \<notin> set (?a # as)" by (rule fresh_not_in [OF c])
  have a: "alive h ?a" "?a \<noteq> ?n" using chain_alive_hd [OF c] f by auto
  define y where "y = (if as = [] then null else as ! 0)"
  have y: "nextOf h ?a = y" using chain_hd_next [OF c] by (simp add: y_def)
  have yne: "as \<noteq> [] \<Longrightarrow> alive h y \<and> y \<noteq> ?n \<and> y \<noteq> ?a \<and> y \<in> set as"
    using chain_nth_node [OF c, of 0] chain_hd_neq [OF c, of 0] f nth_mem [of 0 as]
    by (cases as) (auto simp: y_def)
  have yn: "as = [] \<or> as ! 0 \<noteq> ?n" "as = [] \<or> as ! 0 \<in> set as" using yne by (cases "as = []"; simp add: y_def)+
  define h' where "h' = h\<lparr>alive := (alive h)(?n := True),
    nextOf := (nextOf h)(?n := y, ?a := ?n),
    prevOf := (if as = [] then (prevOf h)(?n := ?a) else (prevOf h)(?n := ?a, y := ?n)),
    dataOf := (dataOf h)(?n := Some t), brk := Suc ?n\<rparr>"
  define q' where "q' = q\<lparr>que_tail := (if as = [] then ?n else last as), que_size := que_size q + 1\<rparr>"
  have tl: "que_tail q = null \<longleftrightarrow> as = []"
    using n chain_not_null [OF c, of "last as"] by (auto simp: queue_nodes_def)
  have "queue_pushFront h q t = Some (Inr (h', q'))"
  proof (cases "as = []")
    case True
    then show ?thesis
      using a y tl n room queue_room [OF n]
      by (simp add: queue_pushFront_def new_node_def effect_simps h'_def q'_def y_def queue_nodes_def
          fun_upd_twist)
  next
    case False
    then show ?thesis
      using a y yne tl n room queue_room [OF n]
      by (simp add: queue_pushFront_def new_node_def effect_simps h'_def q'_def queue_nodes_def
          fun_upd_twist)
  qed
  moreover have "chain h' ?a (take 0 as @ ?n # drop 0 as) (take 0 xs @ t # drop 0 xs)"
    by (rule chain_insert_node [OF c _ f])
      (use mem_ok_new [OF chain_mem_ok [OF c]] a yn yne f chain_alive [OF c] in
        \<open>auto simp: h'_def mem_ok_def new_node_def y_def\<close>)
  ultimately show ?thesis
    using n room len by (auto simp: queue_nodes_def q'_def unat_inc)
qed

lemma queue_popFront_nodes:
  assumes n: "queue_nodes h q as (x # xs)"
  shows "\<exists>h' q'. queue_popFront h q = Some (Inr (x, h', q')) \<and> queue_nodes h' q' (tl as) xs"
proof -
  note c = queue_nodes_chain [OF n] and len = queue_nodes_length [OF n]
  define p where "p = as ! 0"
  define y where "y = (if Suc 0 < length as then as ! Suc 0 else null)"
  have i: "0 < length as" using len by simp
  then have ne: "as \<noteq> []" by simp
  have p: "alive h p" "0 < p" "dataOf h p = Some x" "nextOf h p = y" "nextOf h (que_head q) = p"
    "p \<noteq> que_head q"
    using chain_nth_node [OF c i] chain_nth_next [OF c i] chain_nth_data [OF c i]
      chain_hd_next [OF c] chain_hd_neq [OF c i] ne by (auto simp: p_def y_def)
  have a: "alive h (que_head q)" by (rule chain_alive_hd [OF c])
  have y: "y \<noteq> null \<longleftrightarrow> Suc 0 < length as" "y \<noteq> null \<Longrightarrow> alive h y" "y \<noteq> p"
    using chain_nth_node [OF c] chain_distinct_nth [OF c, of 0 "Suc 0"] i p(2)
    by (auto simp: y_def p_def)
  have at_tail: "p = que_tail q \<longleftrightarrow> Suc 0 = length as"
    using chain_nth_last [OF c i] n ne by (simp add: p_def queue_nodes_def)
  define h' where "h' = h\<lparr>alive := (alive h)(p := False), nextOf := (nextOf h)(que_head q := y),
    prevOf := (if y = null then prevOf h else (prevOf h)(y := que_head q))\<rparr>"
  define q' where "q' = q\<lparr>que_tail := (if y = null then null else que_tail q),
    que_size := que_size q - 1\<rparr>"
  have "\<not> que_size q = 0" using queue_nodes_empty [OF n] by simp
  then have "queue_popFront h q = Some (Inr (x, h', q'))"
  proof (cases "y = null")
    case True
    then have "Suc 0 = length as" using y(1) i by linarith
    then show ?thesis
      using p a True at_tail \<open>que_size q \<noteq> 0\<close>
      by (simp add: queue_popFront_def effect_simps h'_def q'_def)
  next
    case False
    then have "p \<noteq> que_tail q" using y(1) at_tail by simp
    then show ?thesis
      using p a y False \<open>que_size q \<noteq> 0\<close>
      by (simp add: queue_popFront_def effect_simps h'_def q'_def)
  qed
  moreover have "chain h' (que_head q) (take 0 as @ drop (Suc 0) as)
      (take 0 (x # xs) @ drop (Suc 0) (x # xs))"
    by (rule chain_remove_node [OF c i])
      (use chain_alive_upd [OF chain_mem_ok [OF c], of p] a p y chain_alive [OF c]
          y_def [symmetric] in
        \<open>auto simp: h'_def p_def mem_ok_def split: if_splits\<close>)
  then have "chain h' (que_head q) (tl as) xs" by (simp add: drop_Suc)
  moreover have "tl as = [] \<longleftrightarrow> y = null" using y(1) i by (cases as) auto
  then have "que_tail q' = (if tl as = [] then null else last (tl as))"
    using n ne by (simp add: q'_def queue_nodes_def last_tl)
  moreover have "unat (que_size q') = length (tl as)"
    using queue_nodes_size [OF n] len unat_dec [of "que_size q"] by (simp add: q'_def)
  ultimately show ?thesis
    using n by (auto simp: queue_nodes_def q'_def)
qed

lemma queue_popBack_nodes:
  assumes n: "queue_nodes h q as (xs @ [x])"
  shows "\<exists>h' q'. queue_popBack h q = Some (Inr (x, h', q')) \<and> queue_nodes h' q' (butlast as) xs"
proof -
  note c = queue_nodes_chain [OF n] and len = queue_nodes_length [OF n]
  define i where "i = length xs"
  have i: "i < length as" "Suc i = length as" using len by (simp_all add: i_def)
  then have ne: "as \<noteq> []" by auto
  have take_Suc_eq_butlast: "butlast as = take i as"
    using i(2) by (metis butlast_conv_take diff_Suc_1)
  define p where "p = as ! i"
  define v where "v = (que_head q # as) ! i"
  have tl: "que_tail q = p"
    using n ne i chain_nth_last [OF c i(1)] by (simp add: queue_nodes_def p_def)
  have p: "alive h p" "0 < p" "dataOf h p = Some x" "prevOf h p = v"
    using chain_nth_node [OF c i(1)] chain_nth_prev [OF c i(1)] chain_nth_data [OF c i(1)]
    by (auto simp: p_def v_def nth_Cons' i_def)
  have vin: "v \<in> set (que_head q # as)" using i nth_mem [of i "que_head q # as"] by (simp add: v_def)
  have v: "alive h v" "v \<noteq> p"
    using chain_alive [OF c vin] chain_pred_neq [OF c i(1)] by (auto simp: v_def p_def)
  have at_head: "v = que_head q \<longleftrightarrow> i = 0"
    using chain_hd_neq [OF c, of "i - 1"] i by (auto simp: v_def nth_Cons')
  define h' where "h' = h\<lparr>alive := (alive h)(p := False), nextOf := (nextOf h)(v := null)\<rparr>"
  define q' where "q' = q\<lparr>que_tail := (if v = que_head q then null else v),
    que_size := que_size q - 1\<rparr>"
  have "\<not> que_size q = 0" using queue_nodes_empty [OF n] by simp
  then have "queue_popBack h q = Some (Inr (x, h', q'))"
    using p v tl by (auto simp: queue_popBack_def effect_simps h'_def q'_def)
  moreover have "chain h' (que_head q) (take i as @ drop (Suc i) as)
      (take i (xs @ [x]) @ drop (Suc i) (xs @ [x]))"
    by (rule chain_remove_node [OF c i(1)])
      (use chain_alive_upd [OF chain_mem_ok [OF c], of p] p v chain_alive [OF c] i in
        \<open>auto simp: h'_def p_def v_def mem_ok_def\<close>)
  then have "chain h' (que_head q) (butlast as) xs"
    using i by (simp add: take_Suc_eq_butlast i_def)
  moreover have "que_tail q' = (if butlast as = [] then null else last (butlast as))"
    using at_head i by (auto simp: q'_def v_def nth_Cons' take_Suc_eq_butlast last_take_Cons)
  moreover have "unat (que_size q') = length (butlast as)"
    using queue_nodes_size [OF n] len unat_dec [of "que_size q"] by (simp add: q'_def)
  ultimately show ?thesis
    using n by (auto simp: queue_nodes_def q'_def)
qed

subsection \<open>Release\<close>

lemma queue_clear_nodes:
  assumes n: "queue_nodes h q as xs"
  shows "queue_clear h q = Some (h\<lparr>alive := (\<lambda>a. a \<notin> set as \<and> alive h a)\<rparr>,
    q\<lparr>que_tail := null, que_size := 0\<rparr>)"
proof -
  note c = queue_nodes_chain [OF n]
  have "delete_until h (nextOf h (que_head q)) null =
      Some (h\<lparr>alive := (\<lambda>a. a \<notin> set as \<and> alive h a)\<rparr>)"
    using c delete_until_seg [of as h null] chain_not_null [OF c]
    by (cases as) (auto simp: chain_def linked_Cons)
  then show ?thesis using chain_alive_hd [OF c] by (simp add: queue_clear_def effect_simps)
qed

lemma queue_destroy_nodes:
  assumes n: "queue_nodes h q as xs"
  shows "\<exists>h'. queue_destroy h q = Some h' \<and>
    alive h' = (\<lambda>a. a \<notin> set (que_head q # as) \<and> alive h a)"
proof -
  note c = queue_nodes_chain [OF n]
  have "que_head q \<notin> set as" "alive h (que_head q)" "0 < que_head q"
    using c chain_not_null [OF c, of "que_head q"] by (auto simp: chain_def)
  then show ?thesis
    using queue_clear_nodes [OF n] by (auto simp: queue_destroy_def effect_simps fun_eq_iff)
qed

text \<open>The head node still points to the first of the released nodes.\<close>

lemma queue_clear_dangling:
  assumes n: "queue_nodes h q as xs" and ne: "xs \<noteq> []"
  shows "\<exists>h' q'. queue_clear h q = Some (h', q') \<and> queue_isEmpty q' \<and> queue_clear h' q' = None"
proof -
  note c = queue_nodes_chain [OF n]
  let ?h = "h\<lparr>alive := (\<lambda>a. a \<notin> set as \<and> alive h a)\<rparr>"
  have i: "0 < length as" using ne queue_nodes_length [OF n] by simp
  then have p: "nextOf h (que_head q) = as ! 0" "0 < as ! 0" "as ! 0 \<in> set as"
    using chain_hd_next [OF c] chain_nth_node [OF c i] by auto
  have "\<not> alive ?h (as ! 0)" using p(3) by simp
  then have "delete_until ?h (as ! 0) null = None"
    using p(2) by (subst delete_until.simps) (simp add: effect_simps)
  moreover have "que_head q \<notin> set as" "alive h (que_head q)" using c by (auto simp: chain_def)
  ultimately have "queue_clear ?h (q\<lparr>que_tail := null, que_size := 0\<rparr>) = None"
    using p(1) by (simp add: queue_clear_def effect_simps)
  then show ?thesis using queue_clear_nodes [OF n] by (simp add: queue_isEmpty_def)
qed

subsection \<open>Access\<close>

lemma queue_at_loop_nodes:
  assumes c: "chain h hn as xs" and i: "i + unat pos < length as" "length as \<le> 2147483648"
  shows "queue_at_loop h (as ! i) pos = Some (as ! (i + unat pos))"
  using i(1)
proof (induction "unat pos" arbitrary: i pos)
  case 0
  then have "pos = 0" using unat_eq_zero [of pos] by simp
  then show ?case by (simp add: queue_at_loop.simps)
next
  case (Suc k)
  have pos: "pos \<noteq> 0" "unat (pos - 1) = k" using Suc.hyps(2) unat_dec [of pos] by auto
  have "pos \<noteq> 0x80000000"
  proof
    assume "pos = 0x80000000"
    then have "unat pos = 2147483648" by simp
    then show False using Suc.prems i(2) by simp
  qed
  moreover have "queue_at_loop h (as ! Suc i) (pos - 1) = Some (as ! (Suc i + unat (pos - 1)))"
    by (rule Suc.hyps(1)) (use Suc.prems Suc.hyps(2) pos in auto)
  ultimately show ?case
    using pos Suc.prems chain_nth_node [OF c, of i] chain_nth_next [OF c, of i] Suc.hyps(2) [symmetric]
    by (simp add: queue_at_loop.simps [of h "as ! i" pos] effect_simps)
qed

lemma queue_at_nodes:
  assumes n: "queue_nodes h q as xs" and small: "length xs \<le> 2147483648"
  shows "queue_at h q pos = Some (if unat pos < length xs then Inr (xs ! unat pos) else Inl OutOfRange)"
proof -
  note c = queue_nodes_chain [OF n] and len = queue_nodes_length [OF n]
  have g: "que_size q \<le> pos \<longleftrightarrow> \<not> unat pos < length xs"
    using queue_nodes_size [OF n] by (simp add: word_le_nat_alt not_less)
  show ?thesis
  proof (cases "unat pos < length xs")
    case True
    then have i: "unat pos < length as" "as \<noteq> []" using len by auto
    have "queue_at_loop h (as ! 0) pos = Some (as ! unat pos)"
      using queue_at_loop_nodes [OF c, of 0 pos] i small len by simp
    then show ?thesis
      using True g i chain_hd_next [OF c] chain_alive_hd [OF c] chain_nth_node [OF c i(1)]
        chain_nth_data [OF c i(1)] by (simp add: queue_at_def effect_simps)
  next
    case False
    then show ?thesis using g by (simp add: queue_at_def)
  qed
qed

subsection \<open>SQueue is a first-in-first-out container\<close>

interpretation sq: fifo squeue_isEmpty squeue_enqueue squeue_dequeue queue_rep 4278190080
proof (unfold_locales, goal_cases)
  case (1 s xs)
  then show ?case
    by (auto simp: queue_rep_def squeue_isEmpty_def queue_isEmpty_def queue_nodes_empty split: prod.splits)
next
  case (2 s xs x)
  then obtain as where "queue_nodes (fst s) (snd s) as xs" by (auto simp: queue_rep_def)
  then show ?case
    using queue_pushBack_nodes [of "fst s" "snd s" as xs x] 2(2)
    by (auto simp: queue_rep_def squeue_enqueue_def split: prod.splits)
next
  case (3 s x xs)
  then obtain as where "queue_nodes (fst s) (snd s) as (x # xs)" by (auto simp: queue_rep_def)
  then show ?case
    using queue_popFront_nodes [of "fst s" "snd s" as x xs]
    by (auto simp: queue_rep_def squeue_dequeue_def split: prod.splits)
next
  case (4 s)
  then have "que_size (snd s) = 0" by (auto simp: queue_rep_def queue_nodes_empty)
  then show ?case by (simp add: squeue_dequeue_def queue_popFront_def case_prod_beta)
qed simp

subsection \<open>Properties of the queue\<close>

definition queue_of :: "'a list \<Rightarrow> ('a mem \<times> dqueue) outcome" where
  "queue_of xs = put_all squeue_enqueue xs (queue_new empty_mem)"

lemma queue_new_rep: "queue_rep (queue_new empty_mem) []"
  unfolding queue_rep_def
  by (rule exI [of _ "[]"], insert queue_new_nodes [OF mem_ok_empty]) (simp add: case_prod_beta)

lemma queue_of_rep:
  assumes "length xs \<le> 4278190080"
  shows "\<exists>h q. queue_of xs = Some (Inr (h, q)) \<and> queue_rep (h, q) xs"
  using sq.put_all_rep [OF queue_new_rep, of xs] assms sq.fold_snoc [of xs "[]"]
  by (auto simp: queue_of_def)

text \<open>C8: what is enqueued into an empty \<open>SQueue\<close> is dequeued by the drain loop in the same
  order, and the loop ends with an empty queue.\<close>

theorem squeue_first_in_first_out:
  assumes "queue_rep s []" "length xs \<le> 4278190080"
  shows "\<exists>s' s''. put_all squeue_enqueue xs s = Some (Inr s') \<and>
    drain squeue_isEmpty squeue_dequeue s' = Some (Inr (xs, s'')) \<and> queue_rep s'' []"
  by (rule sq.in_order [OF assms])

theorem squeue_first_in_first_out_witness:
  "\<exists>s' s''. put_all squeue_enqueue [1, 2, 3, 4 :: int] (queue_new empty_mem) = Some (Inr s') \<and>
    drain squeue_isEmpty squeue_dequeue s' = Some (Inr ([1, 2, 3, 4], s'')) \<and> queue_rep s'' []"
  by (rule squeue_first_in_first_out [OF queue_new_rep]) simp

text \<open>The operations at both ends refine those of a double-ended sequence, and
  \<open>head\<close>, \<open>tail\<close> read its ends.\<close>

theorem queue_ends_refine:
  assumes "queue_rep (h, q) xs" "length xs < unat m_maxSize"
  shows "(\<exists>s1. queue_pushFront h q t = Some (Inr s1) \<and> queue_rep s1 (t # xs)) \<and>
    (\<exists>s2. queue_pushBack h q t = Some (Inr s2) \<and> queue_rep s2 (xs @ [t])) \<and>
    (if xs = [] then queue_popFront h q = Some (Inl OutOfRange) \<and>
       queue_popBack h q = Some (Inl OutOfRange) \<and> queue_head h q = Some (Inl OutOfRange) \<and>
       queue_tail h q = Some (Inl OutOfRange)
     else (\<exists>s3. queue_popFront h q = Some (Inr (hd xs, s3)) \<and> queue_rep s3 (tl xs)) \<and>
       (\<exists>s4. queue_popBack h q = Some (Inr (last xs, s4)) \<and> queue_rep s4 (butlast xs)) \<and>
       queue_head h q = Some (Inr (hd xs)) \<and> queue_tail h q = Some (Inr (last xs)))"
proof -
  obtain as where n: "queue_nodes h q as xs" using assms(1) by (auto simp: queue_rep_def)
  note c = queue_nodes_chain [OF n] and len = queue_nodes_length [OF n]
  have push: "(\<exists>s1. queue_pushFront h q t = Some (Inr s1) \<and> queue_rep s1 (t # xs)) \<and>
      (\<exists>s2. queue_pushBack h q t = Some (Inr s2) \<and> queue_rep s2 (xs @ [t]))"
    using queue_pushFront_nodes [OF n assms(2), of t] queue_pushBack_nodes [OF n assms(2), of t]
    by (auto simp: queue_rep_def)
  show ?thesis
  proof (cases "xs = []")
    case True
    then have "que_size q = 0" using queue_nodes_empty [OF n] by simp
    then show ?thesis
      using push True by (simp add: queue_popFront_def queue_popBack_def queue_head_def queue_tail_def)
  next
    case False
    then have i: "0 < length as" "length as - 1 < length as" "as \<noteq> []" "que_size q \<noteq> 0"
      using len queue_nodes_empty [OF n] by auto
    have tl: "que_tail q = as ! (length as - 1)"
      using n i(3) by (simp add: queue_nodes_def last_conv_nth)
    have "\<exists>s3. queue_popFront h q = Some (Inr (hd xs, s3)) \<and> queue_rep s3 (tl xs)"
      using queue_popFront_nodes [of h q as "hd xs" "tl xs"] n False by (auto simp: queue_rep_def)
    moreover have "\<exists>s4. queue_popBack h q = Some (Inr (last xs, s4)) \<and> queue_rep s4 (butlast xs)"
      using queue_popBack_nodes [of h q as "butlast xs" "last xs"] n False by (auto simp: queue_rep_def)
    moreover have "queue_head h q = Some (Inr (hd xs)) \<and> queue_tail h q = Some (Inr (last xs))"
      using False i tl len chain_hd_next [OF c] chain_alive_hd [OF c] chain_nth_node [OF c i(1)]
        chain_nth_data [OF c i(1)] chain_nth_node [OF c i(2)] chain_nth_data [OF c i(2)]
      by (simp add: queue_head_def queue_tail_def effect_simps hd_conv_nth last_conv_nth)
    ultimately show ?thesis using push False by simp
  qed
qed

theorem queue_ends_refine_witness:
  "\<exists>h q s. queue_of [1, 2 :: int] = Some (Inr (h, q)) \<and> queue_popBack h q = Some (Inr (2, s)) \<and>
    queue_rep s [1] \<and> queue_head h q = Some (Inr 1)"
proof -
  obtain h q where q: "queue_of [1, 2 :: int] = Some (Inr (h, q))" "queue_rep (h, q) [1, 2 :: int]"
    using queue_of_rep [of "[1, 2 :: int]"] by auto
  show ?thesis using queue_ends_refine [OF q(2), of 7] q(1) by auto
qed

text \<open>\<open>clear\<close> leaves \<open>m_head->next\<close> on the first released node: clearing again, and so
  the destructor of a queue that was cleared while it held elements, reads freed memory.\<close>

theorem queue_clear_then_destroy:
  assumes "queue_rep (h, q) xs" "xs \<noteq> []"
  shows "\<exists>h' q'. queue_clear h q = Some (h', q') \<and> queue_isEmpty q' \<and> queue_destroy h' q' = None"
proof -
  obtain as where "queue_nodes h q as xs" using assms(1) by (auto simp: queue_rep_def)
  then show ?thesis
    using queue_clear_dangling [of h q as xs] assms(2) by (auto simp: queue_destroy_def)
qed

theorem queue_clear_then_destroy_witness:
  "\<exists>h q h' q'. queue_of [5 :: int] = Some (Inr (h, q)) \<and> queue_clear h q = Some (h', q') \<and>
    queue_destroy h' q' = None"
  using queue_of_rep [of "[5 :: int]"] queue_clear_then_destroy [of _ _ "[5 :: int]"] by fastforce

end
