(* ===== verification/StackHpp.thy ===== *)
theory StackHpp
  imports VectorHpp Worklist
begin

text \<open>
  \<open>Stack<T>\<close> of Data Structure/DataStructure/Stack.hpp: a protected \<open>Vector<T>\<close> and the
  index \<open>m_top\<close> of its last element, an \<open>int\<close> whose overflow is undefined.  The two
  assignment operators do not parse (\<open>Vector<T>operator=(t)\<close>) and are not modelled.
\<close>

record 'a stk =
  stk_vec :: "'a vec"
  stk_top :: int

definition stack_new :: "'a stk outcome" where
  "stack_new = bind_outcome (vec_new_size 10) (\<lambda>v. Some (Inr \<lparr>stk_vec = v, stk_top = m_npos\<rparr>))"

text \<open>Both constructors from another stack copy its vector: the name of an rvalue reference is an
  lvalue.\<close>

definition stack_copy :: "'a stk \<Rightarrow> 'a stk option" where
  "stack_copy t = do { v \<leftarrow> vec_copy (stk_vec t); Some \<lparr>stk_vec = v, stk_top = stk_top t\<rparr> }"

definition stack_move :: "'a stk \<Rightarrow> ('a stk \<times> 'a stk) option" where
  "stack_move t = do { s \<leftarrow> stack_copy t; Some (s, t) }"

definition stack_isEmpty :: "'a stk \<Rightarrow> bool" where
  "stack_isEmpty s \<longleftrightarrow> stk_top s = m_npos"

definition stack_size :: "'a stk \<Rightarrow> uint" where
  "stack_size s = word_of_int (stk_top s)"

definition stack_top :: "'a stk \<Rightarrow> 'a outcome" where
  "stack_top s = vec_last (stk_vec s)"

definition stack_push :: "'a stk \<Rightarrow> 'a \<Rightarrow> 'a stk outcome" where
  "stack_push s t = bind_outcome (vec_append (stk_vec s) t) (\<lambda>v.
     if stk_top s = 2147483647 then None
     else Some (Inr (s\<lparr>stk_vec := v, stk_top := stk_top s + 1\<rparr>)))"

definition stack_pop :: "'a stk \<Rightarrow> ('a \<times> 'a stk) outcome" where
  "stack_pop s = bind_outcome (vec_last (stk_vec s)) (\<lambda>t. do {
     v \<leftarrow> vec_removeAt (stk_vec s) (word_of_int (stk_top s));
     if stk_top s = - 2147483648 then None
     else Some (Inr (t, s\<lparr>stk_vec := v, stk_top := stk_top s - 1\<rparr>))
   })"

definition stack_clear :: "'a stk \<Rightarrow> 'a stk" where
  "stack_clear s = s\<lparr>stk_vec := vec_clear (stk_vec s), stk_top := m_npos\<rparr>"

definition stack_index :: "'a stk \<Rightarrow> uint \<Rightarrow> 'a outcome" where
  "stack_index s pos = vec_index (stk_vec s) pos"

subsection \<open>What a stack represents: its values, the top first\<close>

definition stack_rep :: "'a stk \<Rightarrow> 'a list \<Rightarrow> bool" where
  "stack_rep s xs \<longleftrightarrow> vec_rep (stk_vec s) (rev xs) \<and> stk_top s = int (length xs) - 1 \<and>
     length xs \<le> 2147483648"

lemma vec_last_rep:
  assumes "vec_rep v (ys @ [y])"
  shows "vec_last v = Some (Inr y)"
proof -
  have s: "unat (vec_size v) = Suc (length ys)" using vec_rep_size [OF assms] by simp
  then have u: "unat (vec_size v - 1) = length ys" by (simp add: unat_dec)
  have "cell_load (vec_elem v) (vec_size v - 1) = Some y"
    using cell_load_rep [OF assms, of "vec_size v - 1"] u by simp
  then show ?thesis using s by (auto simp: vec_last_def simp flip: unat_eq_0)
qed

lemma vec_last_empty: "vec_rep v [] \<Longrightarrow> vec_last v = Some (Inl OutOfRange)"
  using vec_rep_size [of v "[]"] by (simp add: vec_last_def unat_eq_zero)

lemma stack_new_rep: "\<exists>s :: 'a stk. stack_new = Some (Inr s) \<and> stack_rep s []"
proof -
  obtain v :: "'a vec" where "vec_new_size 10 = Some (Inr v)" "vec_rep v []"
    using vec_new_rep [of 10] by (auto simp: m_maxSize_def)
  then show ?thesis by (simp add: stack_new_def stack_rep_def m_npos_def)
qed

lemma stack_push_rep:
  assumes r: "stack_rep s xs" and room: "length xs < 2147483648"
  shows "\<exists>s'. stack_push s x = Some (Inr s') \<and> stack_rep s' (x # xs)"
proof -
  obtain v where "vec_append (stk_vec s) x = Some (Inr v)" "vec_rep v (rev xs @ [x])"
    using vec_append_rep [of "stk_vec s" "rev xs" x] r room by (auto simp: stack_rep_def)
  then show ?thesis using r room by (auto simp: stack_push_def stack_rep_def)
qed

lemma stack_pop_rep:
  assumes r: "stack_rep s (x # xs)"
  shows "\<exists>s'. stack_pop s = Some (Inr (x, s')) \<and> stack_rep s' xs"
proof -
  have v: "vec_rep (stk_vec s) (rev xs @ [x])" and t: "stk_top s = int (length xs)"
    and len: "length xs < 2147483648"
    using r by (auto simp: stack_rep_def)
  have u: "unat (word_of_int (stk_top s) :: uint) = length xs"
    using t len by (simp add: unat_of_nat take_bit_nat_eq_self)
  obtain w where "vec_removeAt (stk_vec s) (word_of_int (stk_top s)) = Some w" "vec_rep w (rev xs)"
    using vec_removeAt_rep [OF v, of "word_of_int (stk_top s)"] u by auto
  then show ?thesis
    using vec_last_rep [OF v] t len by (auto simp: stack_pop_def stack_rep_def)
qed

interpretation st: lifo stack_isEmpty stack_push stack_pop stack_rep 2147483648
proof (unfold_locales, goal_cases)
  case (1 s xs)
  then show ?case by (auto simp: stack_isEmpty_def stack_rep_def m_npos_def)
next
  case (2 s xs x)
  then show ?case by (rule stack_push_rep)
next
  case (3 s x xs)
  then show ?case by (rule stack_pop_rep)
next
  case (4 s)
  then show ?case using vec_last_empty [of "stk_vec s"] by (simp add: stack_pop_def stack_rep_def)
qed simp

subsection \<open>Properties of the stack\<close>

definition stack_of :: "'a list \<Rightarrow> 'a stk outcome" where
  "stack_of xs = bind_outcome stack_new (put_all stack_push xs)"

lemma stack_of_rep:
  fixes xs :: "'a list"
  assumes "length xs \<le> 2147483648"
  shows "\<exists>s. stack_of xs = Some (Inr s) \<and> stack_rep s (rev xs)"
proof -
  obtain s :: "'a stk" where s: "stack_new = Some (Inr s)" "stack_rep s []" using stack_new_rep by blast
  have "stack_of xs = put_all stack_push xs s" by (simp add: stack_of_def s(1))
  then show ?thesis
    using st.put_all_rep [OF s(2), of xs] assms by (simp add: fold_Cons_rev)
qed

text \<open>C14: what is pushed onto an empty stack is popped in the reverse order, and \<open>top\<close> is the
  last value pushed.\<close>

theorem stack_last_in_first_out:
  assumes "stack_rep s []" "length xs \<le> 2147483648"
  shows "\<exists>s' s''. put_all stack_push xs s = Some (Inr s') \<and>
    stack_top s' = Some (if xs = [] then Inl OutOfRange else Inr (last xs)) \<and>
    drain stack_isEmpty stack_pop s' = Some (Inr (rev xs, s'')) \<and> stack_rep s'' []"
proof -
  obtain s' s'' where "put_all stack_push xs s = Some (Inr s')"
    "drain stack_isEmpty stack_pop s' = Some (Inr (rev xs, s''))" "stack_rep s'' []"
    using st.reverse_order [OF assms] by blast
  moreover from this have "stack_rep s' (rev xs)"
    using st.put_all_rep [OF assms(1), of xs] assms(2) by (simp add: fold_Cons_rev)
  then have "stack_top s' = Some (if xs = [] then Inl OutOfRange else Inr (last xs))"
    using vec_last_rep [of "stk_vec s'" "butlast xs" "last xs"] vec_last_empty
    by (auto simp: stack_top_def stack_rep_def)
  ultimately show ?thesis by blast
qed

theorem stack_last_in_first_out_witness:
  "\<exists>s s' s''. put_all stack_push [1, 2, 3 :: int] s = Some (Inr s') \<and>
    stack_top s' = Some (Inr 3) \<and>
    drain stack_isEmpty stack_pop s' = Some (Inr ([3, 2, 1], s''))"
proof -
  obtain s :: "int stk" where "stack_rep s []" using stack_new_rep by blast
  then show ?thesis using stack_last_in_first_out [of s "[1, 2, 3]"] by auto
qed

text \<open>\<open>size\<close> returns the index of the top: one less than the number of values, and
  \<open>0xFFFFFFFF\<close> for an empty stack.\<close>

theorem stack_size_off_by_one:
  assumes "stack_rep s xs"
  shows "unat (stack_size s) = (if xs = [] then 4294967295 else length xs - 1)"
proof (cases xs)
  case Nil
  then show ?thesis using assms by (simp add: stack_size_def stack_rep_def)
next
  case (Cons x ys)
  then have "stk_top s = int (length ys)" "length ys < 2147483648"
    using assms by (auto simp: stack_rep_def)
  then show ?thesis using Cons by (simp add: stack_size_def unat_of_nat take_bit_nat_eq_self)
qed

theorem stack_size_off_by_one_witness:
  "\<exists>s. stack_of [4, 5 :: int] = Some (Inr s) \<and> unat (stack_size s) = 1"
  using stack_of_rep [of "[4, 5 :: int]"] stack_size_off_by_one [of _ "[5, 4 :: int]"] by auto

end
