(* ===== verification/TreeHpp.thy ===== *)
theory TreeHpp
  imports QueueHpp StackHpp "HOL-Library.Tree"
begin

text \<open>
  The traversals of Data Structure/DataStructure/Tree.hpp.  \<open>Tree<T>\<close> is an abstract class;
  its finite instances are the trees of HOL-Library, \<open>Leaf\<close> being a node that is not
  \<open>valid()\<close>, and a pointer to a node is the subtree below it.  A traversal is modelled by the
  list of the data \<open>fun\<close> is called with; \<open>f\<close> is what \<open>fun\<close> returns, true to stop.
  The loops use the models of \<open>SQueue\<close> and \<open>Stack\<close>.  \<open>inorderTraversalV2\<close> never calls
  \<open>fun\<close> and takes the address of a returned value: it does not compile and is not modelled.
\<close>

definition valid :: "'a tree \<Rightarrow> bool" where
  "valid t \<longleftrightarrow> (case t of Leaf \<Rightarrow> False | Node _ _ _ \<Rightarrow> True)"

fun preorderTraversal :: "'a tree \<Rightarrow> ('a \<Rightarrow> bool) \<Rightarrow> 'a list" where
  "preorderTraversal Leaf f = []"
| "preorderTraversal (Node l x r) f =
     x # (if f x then [] else preorderTraversal l f @ preorderTraversal r f)"

fun inorderTraversal :: "'a tree \<Rightarrow> ('a \<Rightarrow> bool) \<Rightarrow> 'a list" where
  "inorderTraversal Leaf f = []"
| "inorderTraversal (Node l x r) f =
     inorderTraversal l f @ x # (if f x then [] else inorderTraversal r f)"

fun postorderTraversal :: "'a tree \<Rightarrow> ('a \<Rightarrow> bool) \<Rightarrow> 'a list" where
  "postorderTraversal Leaf f = []"
| "postorderTraversal (Node l x r) f = postorderTraversal l f @ postorderTraversal r f @ [x]"

subsection \<open>The loops\<close>

definition push_valid :: "('s \<Rightarrow> 'a tree \<Rightarrow> 's outcome) \<Rightarrow> 's \<Rightarrow> 'a tree \<Rightarrow> 's outcome" where
  "push_valid push s t = (if valid t then push s t else Some (Inr s))"

partial_function (option) level_loop ::
    "('s \<Rightarrow> bool) \<Rightarrow> ('s \<Rightarrow> 'a tree \<Rightarrow> 's outcome) \<Rightarrow> ('s \<Rightarrow> ('a tree \<times> 's) outcome) \<Rightarrow>
     ('a \<Rightarrow> bool) \<Rightarrow> 's \<Rightarrow> 'a list outcome" where
  "level_loop isEmpty enqueue dequeue f s =
     (if isEmpty s then Some (Inr [])
      else bind_outcome (dequeue s) (\<lambda>p.
        case fst p of Leaf \<Rightarrow> level_loop isEmpty enqueue dequeue f (snd p)
        | Node l x r \<Rightarrow>
            if f x then Some (Inr [x])
            else bind_outcome (push_valid enqueue (snd p) l) (\<lambda>s.
              bind_outcome (push_valid enqueue s r) (\<lambda>s.
              bind_outcome (level_loop isEmpty enqueue dequeue f s) (\<lambda>xs. Some (Inr (x # xs)))))))"

declare level_loop.simps [code]

text \<open>\<open>treeNode->data\<close> of a node that is not valid would be undefined; only valid nodes are
  pushed.\<close>

partial_function (option) preorder_loop ::
    "('s \<Rightarrow> bool) \<Rightarrow> ('s \<Rightarrow> 'a tree \<Rightarrow> 's outcome) \<Rightarrow> ('s \<Rightarrow> ('a tree \<times> 's) outcome) \<Rightarrow>
     ('a \<Rightarrow> bool) \<Rightarrow> 's \<Rightarrow> 'a list outcome" where
  "preorder_loop isEmpty push pop f s =
     (if isEmpty s then Some (Inr [])
      else bind_outcome (pop s) (\<lambda>p.
        case fst p of Leaf \<Rightarrow> None
        | Node l x r \<Rightarrow>
            if f x then Some (Inr [x])
            else bind_outcome (push_valid push (snd p) r) (\<lambda>s.
              bind_outcome (push_valid push s l) (\<lambda>s.
              bind_outcome (preorder_loop isEmpty push pop f s) (\<lambda>xs. Some (Inr (x # xs)))))))"

declare preorder_loop.simps [code]

text \<open>The two loops of \<open>postorderTraversalV2\<close>.\<close>

partial_function (option) postorder_loop1 ::
    "('s \<Rightarrow> bool) \<Rightarrow> ('s \<Rightarrow> 'a tree \<Rightarrow> 's outcome) \<Rightarrow> ('s \<Rightarrow> ('a tree \<times> 's) outcome) \<Rightarrow>
     's \<Rightarrow> 's \<Rightarrow> 's outcome" where
  "postorder_loop1 isEmpty push pop s1 s2 =
     (if isEmpty s1 then Some (Inr s2)
      else bind_outcome (pop s1) (\<lambda>p.
        bind_outcome (push s2 (fst p)) (\<lambda>s2.
        case fst p of Leaf \<Rightarrow> None
        | Node l x r \<Rightarrow>
            bind_outcome (push_valid push (snd p) l) (\<lambda>s1.
            bind_outcome (push_valid push s1 r) (\<lambda>s1.
            postorder_loop1 isEmpty push pop s1 s2)))))"

declare postorder_loop1.simps [code]

partial_function (option) postorder_loop2 ::
    "('s \<Rightarrow> bool) \<Rightarrow> ('s \<Rightarrow> ('a tree \<times> 's) outcome) \<Rightarrow> ('a \<Rightarrow> bool) \<Rightarrow> 's \<Rightarrow> 'a list outcome" where
  "postorder_loop2 isEmpty pop f s2 =
     (if isEmpty s2 then Some (Inr [])
      else bind_outcome (pop s2) (\<lambda>p.
        case fst p of Leaf \<Rightarrow> None
        | Node l x r \<Rightarrow>
            if f x then Some (Inr [x])
            else bind_outcome (postorder_loop2 isEmpty pop f (snd p)) (\<lambda>xs. Some (Inr (x # xs)))))"

declare postorder_loop2.simps [code]

definition levelTraversal :: "'a tree \<Rightarrow> ('a \<Rightarrow> bool) \<Rightarrow> 'a list outcome" where
  "levelTraversal root f =
     bind_outcome (squeue_enqueue (queue_new empty_mem) root)
       (level_loop squeue_isEmpty squeue_enqueue squeue_dequeue f)"

definition preorderTraversalV2 :: "'a tree \<Rightarrow> ('a \<Rightarrow> bool) \<Rightarrow> 'a list outcome" where
  "preorderTraversalV2 node f =
     (if \<not> valid node then Some (Inr [])
      else bind_outcome stack_new (\<lambda>s. bind_outcome (stack_push s node)
        (preorder_loop stack_isEmpty stack_push stack_pop f)))"

definition postorderTraversalV2 :: "'a tree \<Rightarrow> ('a \<Rightarrow> bool) \<Rightarrow> 'a list outcome" where
  "postorderTraversalV2 node f =
     (if \<not> valid node then Some (Inr [])
      else bind_outcome stack_new (\<lambda>s1. bind_outcome stack_new (\<lambda>s2.
        bind_outcome (stack_push s1 node) (\<lambda>s1.
        bind_outcome (postorder_loop1 stack_isEmpty stack_push stack_pop s1 s2)
          (postorder_loop2 stack_isEmpty stack_pop f)))))"

subsection \<open>Reference orders\<close>

text \<open>The calls up to and including the first one that returns true.\<close>

fun until :: "('a \<Rightarrow> bool) \<Rightarrow> 'a list \<Rightarrow> 'a list" where
  "until f [] = []"
| "until f (x # xs) = x # (if f x then [] else until f xs)"

lemma until_never [simp]: "until (\<lambda>_. False) xs = xs"
  by (induction xs) simp_all

definition kids :: "'a tree \<Rightarrow> 'a tree list" where
  "kids t = (case t of Leaf \<Rightarrow> [] | Node l _ r \<Rightarrow> filter valid [l, r])"

definition nodes :: "'a tree list \<Rightarrow> nat" where
  "nodes ts = sum_list (map size ts)"

lemma nodes_simps [simp]:
  "nodes [] = 0" "nodes (t # ts) = size t + nodes ts" "nodes (ts @ us) = nodes ts + nodes us"
  by (simp_all add: nodes_def)

lemma valid_simps [simp]: "\<not> valid Leaf" "valid (Node l x r)"
  by (simp_all add: valid_def)

lemma valid_Node: "valid t \<Longrightarrow> \<exists>l x r. t = Node l x r"
  by (cases t) simp_all

lemma nodes_filter [simp]: "nodes (filter valid ts) = nodes ts"
  by (induction ts) (auto simp: valid_def split: tree.splits)

lemma length_le_nodes: "\<forall>t\<in>set ts. valid t \<Longrightarrow> length ts \<le> nodes ts"
proof (induction ts)
  case (Cons t ts)
  then show ?case using valid_Node [of t] by auto
qed simp

lemma nodes_kids: "valid t \<Longrightarrow> nodes (kids t) < size t"
  by (cases t) (simp_all add: kids_def)

lemma nodes_concat_kids:
  "\<forall>t\<in>set ts. valid t \<Longrightarrow> ts \<noteq> [] \<Longrightarrow> nodes (concat (map kids ts)) < nodes ts"
proof (induction ts)
  case (Cons t ts)
  then show ?case using nodes_kids [of t] by (cases ts) (auto dest: add_less_mono)
qed simp

text \<open>Level by level, each level from left to right.\<close>

function level_order :: "'a tree list \<Rightarrow> 'a list" where
  "level_order ts =
     (case filter valid ts of [] \<Rightarrow> []
      | _ \<Rightarrow> map value (filter valid ts) @ level_order (concat (map kids (filter valid ts))))"
  by pat_completeness auto
termination
proof (relation "measure nodes", goal_cases)
  case (2 ts t us)
  have "\<forall>t\<in>set (filter valid ts). valid t" by simp
  moreover have "filter valid ts \<noteq> []" using 2 by (metis list.distinct(1))
  ultimately have "nodes (concat (map kids (filter valid ts))) < nodes (filter valid ts)"
    by (rule nodes_concat_kids)
  then show ?case by simp
qed simp

declare level_order.simps [simp del]

text \<open>What a queue of nodes has still to visit.\<close>

function breadth_first :: "'a tree list \<Rightarrow> 'a list" where
  "breadth_first [] = []"
| "breadth_first (Leaf # ts) = breadth_first ts"
| "breadth_first (Node l x r # ts) = x # breadth_first (ts @ filter valid [l, r])"
  by pat_completeness auto
termination
  by (relation "measure (\<lambda>ts. nodes ts + length ts + nodes ts)") (auto simp: valid_def split: tree.splits)

lemma breadth_first_append:
  "\<forall>t\<in>set ts. valid t \<Longrightarrow>
    breadth_first (ts @ us) = map value ts @ breadth_first (us @ concat (map kids ts))"
proof (induction ts arbitrary: us)
  case (Cons t ts)
  then obtain l x r where t: "t = Node l x r" using valid_Node [of t] by auto
  then show ?case using Cons by (simp add: kids_def)
qed simp

lemma breadth_first_level_order:
  "\<forall>t\<in>set ts. valid t \<Longrightarrow> breadth_first ts = level_order ts"
proof (induction ts rule: level_order.induct)
  case (1 ts)
  have f: "filter valid ts = ts" using 1(2) by (simp add: filter_id_conv)
  show ?case
  proof (cases ts)
    case Nil
    then show ?thesis by (simp add: level_order.simps)
  next
    case (Cons t us)
    have e: "filter valid ts = t # us" using f Cons by (rule trans)
    have "\<forall>t\<in>set (concat (map kids ts)). valid t"
      by (auto simp: kids_def split: tree.splits)
    then have "breadth_first (concat (map kids ts)) = level_order (concat (map kids ts))"
      by (rule 1(1) [OF e, unfolded f])
    moreover have "level_order ts = map value ts @ level_order (concat (map kids ts))"
      by (subst level_order.simps, simp only: f) (simp add: Cons)
    ultimately show ?thesis
      using breadth_first_append [OF 1(2), of "[]"] by simp
  qed
qed

text \<open>Root, right subtree, left subtree: the order in which \<open>postorderTraversalV2\<close> fills its
  second stack.\<close>

fun root_right_left :: "'a tree \<Rightarrow> 'a tree list" where
  "root_right_left Leaf = []"
| "root_right_left (Node l x r) = Node l x r # root_right_left r @ root_right_left l"

lemma root_right_left_postorder: "map value (rev (root_right_left t)) = postorder t"
  by (induction t) simp_all

lemma root_right_left_valid: "t' \<in> set (root_right_left t) \<Longrightarrow> valid t'"
  by (induction t) auto

lemma root_right_left_length: "length (root_right_left t) = size t"
  by (induction t) simp_all

subsection \<open>The loops over any container that keeps the contract\<close>

locale tree_stack = lifo is_empty put get rep cap
  for is_empty :: "'s \<Rightarrow> bool" and put :: "'s \<Rightarrow> 'a tree \<Rightarrow> 's outcome" and get rep cap
begin

lemma push_valid_rep:
  assumes "rep s ts" "length ts + size t \<le> cap"
  shows "\<exists>s'. push_valid put s t = Some (Inr s') \<and> rep s' (if valid t then t # ts else ts)"
proof (cases t)
  case (Node l x r)
  then show ?thesis using put_rep [OF assms(1), of t] assms(2) by (simp add: push_valid_def)
qed (simp add: push_valid_def assms)

lemma push_two_rep:
  assumes "rep s ts" "\<forall>t\<in>set ts. valid t" "nodes ts + size t + size u \<le> cap"
  shows "\<exists>s' s''. push_valid put s t = Some (Inr s') \<and> push_valid put s' u = Some (Inr s'') \<and>
    rep s'' (filter valid [u, t] @ ts)"
proof -
  have l: "length ts \<le> nodes ts" by (rule length_le_nodes [OF assms(2)])
  obtain s' where s': "push_valid put s t = Some (Inr s')" "rep s' (if valid t then t # ts else ts)"
    using push_valid_rep [OF assms(1), of t] assms(3) l by auto
  have "length (if valid t then t # ts else ts) + size u \<le> cap"
    using l assms(3) by (cases t) auto
  then show ?thesis using push_valid_rep [OF s'(2), of u] s'(1) by auto
qed

lemma preorder_loop_rep:
  assumes "rep s ts" "\<forall>t\<in>set ts. valid t" "nodes ts \<le> cap"
  shows "preorder_loop is_empty put get f s = Some (Inr (until f (concat (map preorder ts))))"
  using assms
proof (induction "nodes ts" arbitrary: s ts rule: less_induct)
  case less
  show ?case
  proof (cases ts)
    case Nil
    then show ?thesis using is_empty_rep [OF less(2)] by (subst preorder_loop.simps) simp
  next
    case (Cons t us)
    then obtain l x r where t: "t = Node l x r" using less(3) valid_Node [of t] by auto
    obtain s1 where s1: "get s = Some (Inr (t, s1))" "rep s1 us"
      using get_rep less(2) Cons by blast
    obtain s2 s3 where p: "push_valid put s1 r = Some (Inr s2)" "push_valid put s2 l = Some (Inr s3)"
      "rep s3 (filter valid [l, r] @ us)"
      using push_two_rep [OF s1(2), of r l] less(3,4) Cons t by auto
    have "preorder_loop is_empty put get f s3 =
        Some (Inr (until f (concat (map preorder (filter valid [l, r] @ us)))))"
      by (rule less(1) [OF _ p(3)]) (use less(3,4) Cons t in \<open>auto simp del: filter.simps\<close>)
    moreover have "concat (map preorder (filter valid [l, r] @ us)) =
        preorder l @ preorder r @ concat (map preorder us)"
      by (cases l; cases r) simp_all
    ultimately show ?thesis
      using is_empty_rep [OF less(2)] s1(1) p(1,2) Cons t
      by (subst preorder_loop.simps) simp
  qed
qed

lemma postorder_loop1_rep:
  assumes "rep s1 ts" "rep s2 us" "\<forall>t\<in>set ts. valid t" "nodes ts + length us \<le> cap"
  shows "\<exists>s'. postorder_loop1 is_empty put get s1 s2 = Some (Inr s') \<and>
    rep s' (rev (concat (map root_right_left ts)) @ us)"
  using assms
proof (induction "nodes ts" arbitrary: s1 s2 ts us rule: less_induct)
  case less
  show ?case
  proof (cases ts)
    case Nil
    then show ?thesis using is_empty_rep [OF less(2)] less(3) by (subst postorder_loop1.simps) simp
  next
    case (Cons t vs)
    then obtain l x r where t: "t = Node l x r" using less(4) valid_Node [of t] by auto
    obtain s3 where s3: "get s1 = Some (Inr (t, s3))" "rep s3 vs"
      using get_rep less(2) Cons by blast
    obtain s4 where s4: "put s2 t = Some (Inr s4)" "rep s4 (t # us)"
      using put_rep [OF less(3), of t] less(5) Cons t by auto
    obtain s5 s6 where p: "push_valid put s3 l = Some (Inr s5)" "push_valid put s5 r = Some (Inr s6)"
      "rep s6 (filter valid [r, l] @ vs)"
      using push_two_rep [OF s3(2), of l r] less(4,5) Cons t by auto
    have "\<exists>s'. postorder_loop1 is_empty put get s6 s4 = Some (Inr s') \<and>
        rep s' (rev (concat (map root_right_left (filter valid [r, l] @ vs))) @ t # us)"
      by (rule less(1) [OF _ p(3) s4(2)]) (use less(4,5) Cons t in \<open>auto simp del: filter.simps\<close>)
    moreover have "concat (map root_right_left (filter valid [r, l] @ vs)) =
        root_right_left r @ root_right_left l @ concat (map root_right_left vs)"
      by (cases l; cases r) simp_all
    ultimately show ?thesis
      using is_empty_rep [OF less(2)] s3(1) s4(1) p(1,2) Cons t
      by (subst postorder_loop1.simps) simp
  qed
qed

lemma postorder_loop2_rep:
  assumes "rep s ts" "\<forall>t\<in>set ts. valid t"
  shows "postorder_loop2 is_empty get f s = Some (Inr (until f (map value ts)))"
  using assms
proof (induction ts arbitrary: s)
  case Nil
  then show ?case using is_empty_rep [OF Nil(1)] by (subst postorder_loop2.simps) simp
next
  case (Cons t ts)
  then obtain l x r where t: "t = Node l x r" using valid_Node [of t] by auto
  obtain s1 where "get s = Some (Inr (t, s1))" "rep s1 ts" using get_rep [OF Cons(2)] by blast
  then show ?case
    using is_empty_rep [OF Cons(2)] Cons.IH [of s1] Cons.prems(2) t
    by (subst postorder_loop2.simps) simp
qed

end

locale tree_queue = fifo is_empty put get rep cap
  for is_empty :: "'s \<Rightarrow> bool" and put :: "'s \<Rightarrow> 'a tree \<Rightarrow> 's outcome" and get rep cap
begin

lemma push_valid_rep:
  assumes "rep s ts" "length ts + size t \<le> cap"
  shows "\<exists>s'. push_valid put s t = Some (Inr s') \<and> rep s' (ts @ filter valid [t])"
proof (cases t)
  case (Node l x r)
  then show ?thesis using put_rep [OF assms(1), of t] assms(2) by (simp add: push_valid_def)
qed (simp add: push_valid_def assms)

lemma level_loop_rep:
  assumes "rep s ts" "\<forall>t\<in>set ts. valid t" "nodes ts \<le> cap"
  shows "level_loop is_empty put get f s = Some (Inr (until f (breadth_first ts)))"
  using assms
proof (induction "nodes ts" arbitrary: s ts rule: less_induct)
  case less
  show ?case
  proof (cases ts)
    case Nil
    then show ?thesis using is_empty_rep [OF less(2)] by (subst level_loop.simps) simp
  next
    case (Cons t us)
    then obtain l x r where t: "t = Node l x r" using less(3) valid_Node [of t] by auto
    obtain s1 where s1: "get s = Some (Inr (t, s1))" "rep s1 us"
      using get_rep less(2) Cons by blast
    have len: "length us \<le> nodes us" using length_le_nodes [of us] less(3) Cons by simp
    obtain s2 where s2: "push_valid put s1 l = Some (Inr s2)" "rep s2 (us @ filter valid [l])"
      using push_valid_rep [OF s1(2), of l] less(4) Cons t len by auto
    have fl: "filter valid [l, r] = filter valid [l] @ filter valid [r]" by simp
    have "length (us @ filter valid [l]) + size r \<le> cap"
      using less(4) Cons t len by (cases l) auto
    then obtain s3 where s3: "push_valid put s2 r = Some (Inr s3)" "rep s3 (us @ filter valid [l, r])"
      using push_valid_rep [OF s2(2), of r] fl by (simp only: append_assoc) blast
    have "level_loop is_empty put get f s3 = Some (Inr (until f (breadth_first (us @ filter valid [l, r]))))"
      by (rule less(1) [OF _ s3(2)]) (use less(3,4) Cons t in \<open>auto simp del: filter.simps\<close>)
    then show ?thesis
      using is_empty_rep [OF less(2)] s1(1) s2(1) s3(1) Cons t
      by (subst level_loop.simps) (simp del: filter.simps)
  qed
qed

end

interpretation ts: tree_stack stack_isEmpty stack_push stack_pop stack_rep 2147483648
  by unfold_locales

interpretation tq: tree_queue squeue_isEmpty squeue_enqueue squeue_dequeue queue_rep 4278190080
  by unfold_locales

subsection \<open>Properties of the traversals\<close>

lemma preorderTraversal_never: "preorderTraversal t (\<lambda>_. False) = preorder t"
  by (induction t) simp_all

lemma postorderTraversal_any: "postorderTraversal t f = postorder t"
  by (induction t) simp_all

lemma stack_push_root:
  obtains s s' where "stack_new = Some (Inr s)" "stack_rep s []"
    "stack_push s t = Some (Inr s')" "stack_rep s' [t]"
  using stack_new_rep stack_push_rep [of _ "[]" t] that by fastforce



text \<open>\<open>postorderTraversalV2\<close> with its two stacks visits the data in the order of the
  recursive \<open>postorderTraversal\<close>, up to the first that stops it; the recursive one cannot be
  stopped.\<close>

theorem postorderTraversalV2_correct:
  assumes "size t \<le> 2147483648"
  shows "postorderTraversalV2 t f = Some (Inr (until f (postorderTraversal t f)))"
proof (cases t)
  case (Node l x r)
  obtain s s' where s: "stack_new = Some (Inr s)" "stack_rep s []" "stack_push s t = Some (Inr s')"
    "stack_rep s' [t]"
    by (rule stack_push_root)
  obtain s'' where s'': "postorder_loop1 stack_isEmpty stack_push stack_pop s' s = Some (Inr s'')"
    "stack_rep s'' (rev (root_right_left t))"
    using ts.postorder_loop1_rep [OF s(4) s(2)] assms Node by auto
  have "postorder_loop2 stack_isEmpty stack_pop f s'' =
      Some (Inr (until f (map value (rev (root_right_left t)))))"
    by (rule ts.postorder_loop2_rep [OF s''(2)]) (simp add: root_right_left_valid)
  then show ?thesis
    using s(3) s''(1) Node
    by (simp add: postorderTraversalV2_def s(1) postorderTraversal_any root_right_left_postorder
        del: root_right_left.simps)
qed (simp add: postorderTraversalV2_def)

theorem postorderTraversalV2_correct_witness:
  "postorderTraversalV2 (Node (Node Leaf 2 Leaf) 1 (Node Leaf 3 Leaf)) (\<lambda>x. x = (3 :: int)) =
    Some (Inr [2, 3])"
  using postorderTraversalV2_correct [of "Node (Node Leaf 2 Leaf) 1 (Node Leaf (3 :: int) Leaf)"] by simp

text \<open>\<open>levelTraversal\<close> visits the nodes level by level, from left to right, up to the first
  that stops it.\<close>

theorem levelTraversal_correct:
  assumes "size t \<le> 4278190080"
  shows "levelTraversal t f = Some (Inr (until f (level_order [t])))"
proof -
  obtain s where s: "squeue_enqueue (queue_new empty_mem) t = Some (Inr s)" "queue_rep s [t]"
    using sq.put_rep [OF queue_new_rep, of t] by auto
  show ?thesis
  proof (cases t)
    case Leaf
    obtain s' where d: "squeue_dequeue s = Some (Inr (t, s'))" "queue_rep s' []"
      using sq.get_rep [OF s(2)] by blast
    have "level_loop squeue_isEmpty squeue_enqueue squeue_dequeue f s = Some (Inr [])"
      using sq.is_empty_rep [OF s(2)] sq.is_empty_rep [OF d(2)] d(1) Leaf
      by (subst level_loop.simps) (simp, subst level_loop.simps, simp)
    then show ?thesis using s(1) Leaf by (simp add: levelTraversal_def level_order.simps)
  next
    case (Node l x r)
    have "level_loop squeue_isEmpty squeue_enqueue squeue_dequeue f s =
        Some (Inr (until f (breadth_first [t])))"
      by (rule tq.level_loop_rep [OF s(2)]) (use assms Node in auto)
    then show ?thesis
      using s(1) breadth_first_level_order [of "[t]"] Node
      by (simp add: levelTraversal_def del: breadth_first.simps)
  qed
qed

theorem levelTraversal_correct_witness:
  "levelTraversal (Node (Node Leaf 2 (Node Leaf 4 Leaf)) 1 (Node Leaf 3 Leaf)) (\<lambda>x. x = (3 :: int)) =
    Some (Inr [1, 2, 3])"
  using levelTraversal_correct [of "Node (Node Leaf 2 (Node Leaf 4 Leaf)) 1 (Node Leaf (3 :: int) Leaf)"]
  by (simp add: level_order.simps kids_def)

text \<open>What stopping means in the recursive versions: no descent below the node in preorder, none
  to its right in inorder; the rest of the tree is still visited.\<close>

fun prune :: "('a \<Rightarrow> bool) \<Rightarrow> 'a tree \<Rightarrow> 'a tree" where
  "prune f Leaf = Leaf"
| "prune f (Node l x r) = (if f x then Node Leaf x Leaf else Node (prune f l) x (prune f r))"

fun prune_right :: "('a \<Rightarrow> bool) \<Rightarrow> 'a tree \<Rightarrow> 'a tree" where
  "prune_right f Leaf = Leaf"
| "prune_right f (Node l x r) =
     Node (prune_right f l) x (if f x then Leaf else prune_right f r)"

text \<open>a \<open>fun\<close> that returns true does not end the recursive traversals: they go on outside
  the subtree that they cut off.\<close>

theorem recursive_traversals_prune:
  "preorderTraversal t f = preorder (prune f t) \<and>
   inorderTraversal t f = inorder (prune_right f t) \<and> postorderTraversal t f = postorder t"
  by (induction t) simp_all

end
