(* ===== verification/LRUHpp.thy ===== *)
theory LRUHpp
  imports Chain
begin

text \<open>
  \<open>LRUContainers\<close> and \<open>LRUCache\<close> of Project/Cache/LRU.hpp, and the client loop of
  Project/Cache/main.cpp.  The nodes form a ring through a sentry node, most recently used first;
  \<open>m_nodeMap\<close> is a map from keys to node addresses, whose values can be null.
\<close>

record 'k lru =
  lru_map :: "'k \<Rightarrow> addr option"
  lru_sentry :: addr
  lru_size :: uint

type_synonym ('k, 'v) lru_state = "('k \<times> 'v) mem \<times> 'k lru"

text \<open>\<open>dflt\<close>: the value-initialised key and value of the sentry.\<close>

definition lru_new :: "'k \<times> 'v \<Rightarrow> ('k \<times> 'v) mem \<Rightarrow> ('k, 'v) lru_state option" where
  "lru_new dflt h = do {
     let (p, h) = new_node h;
     h \<leftarrow> store_data h p dflt;
     h \<leftarrow> store_prev h p p;
     h \<leftarrow> store_next h p p;
     Some (h, \<lparr>lru_map = (\<lambda>_. None), lru_sentry = p, lru_size = 0\<rparr>)
   }"

definition insertToHead :: "('k \<times> 'v) mem \<Rightarrow> 'k lru \<Rightarrow> addr \<Rightarrow> ('k \<times> 'v) mem option" where
  "insertToHead h c node = do {
     nx \<leftarrow> load_next h (lru_sentry c);
     h \<leftarrow> store_next h node nx;
     h \<leftarrow> store_prev h node (lru_sentry c);
     h \<leftarrow> store_next h (lru_sentry c) node;
     nx \<leftarrow> load_next h node;
     store_prev h nx node
   }"

definition moveNodeToHead :: "('k \<times> 'v) mem \<Rightarrow> 'k lru \<Rightarrow> addr \<Rightarrow> ('k \<times> 'v) mem option" where
  "moveNodeToHead h c node = do {
     prv \<leftarrow> load_prev h node;
     if prv = lru_sentry c then Some h
     else do {
       nx \<leftarrow> load_next h node;
       h \<leftarrow> store_next h prv nx;
       nx \<leftarrow> load_next h node;
       prv \<leftarrow> load_prev h node;
       h \<leftarrow> store_prev h nx prv;
       insertToHead h c node
     }
   }"

definition lru_removeLast :: "('k, 'v) lru_state \<Rightarrow> ('k, 'v) lru_state option" where
  "lru_removeLast = (\<lambda>(h, c).
     if lru_size c = 0 then Some (h, c)
     else do {
       lastNode \<leftarrow> load_prev h (lru_sentry c);
       prv \<leftarrow> load_prev h lastNode;
       h \<leftarrow> store_next h prv (lru_sentry c);
       prv \<leftarrow> load_prev h lastNode;
       h \<leftarrow> store_prev h (lru_sentry c) prv;
       (key, _) \<leftarrow> load_data h lastNode;
       h \<leftarrow> delete_node h lastNode;
       Some (h, c\<lparr>lru_map := (lru_map c)(key := None), lru_size := lru_size c - 1\<rparr>)
     })"

text \<open>\<open>put(const Key&, const Value&)\<close>: in the second branch a new local \<open>node\<close> hides the
  outer one, which is still null when it is stored in the map.\<close>

definition lru_put :: "('k, 'v) lru_state \<Rightarrow> 'k \<Rightarrow> 'v \<Rightarrow> ('k, 'v) lru_state option" where
  "lru_put = (\<lambda>(h, c) key val.
     case lru_map c key of
       None \<Rightarrow> do {
         let (node, h) = new_node h;
         h \<leftarrow> store_data h node (key, val);
         h \<leftarrow> insertToHead h c node;
         Some (h, c\<lparr>lru_size := lru_size c + 1, lru_map := (lru_map c)(key \<mapsto> node)\<rparr>)
       }
     | Some node \<Rightarrow> do {
         h \<leftarrow> moveNodeToHead h c node;
         Some (h, c\<lparr>lru_map := (lru_map c)(key \<mapsto> null)\<rparr>)
       })"

text \<open>\<open>put(Key&&, Value&&)\<close>: \<open>moved key\<close> is what \<open>std::move\<close> leaves of the key object that
  then indexes the map.\<close>

definition lru_put_move :: "('k \<Rightarrow> 'k) \<Rightarrow> ('k, 'v) lru_state \<Rightarrow> 'k \<Rightarrow> 'v \<Rightarrow> ('k, 'v) lru_state option" where
  "lru_put_move moved = (\<lambda>(h, c) key val.
     case lru_map c key of
       None \<Rightarrow> do {
         let (node, h) = new_node h;
         h \<leftarrow> store_data h node (key, val);
         h \<leftarrow> insertToHead h c node;
         Some (h, c\<lparr>lru_size := lru_size c + 1, lru_map := (lru_map c)(moved key \<mapsto> node)\<rparr>)
       }
     | Some node \<Rightarrow> do {
         h \<leftarrow> moveNodeToHead h c node;
         Some (h, c\<lparr>lru_map := (lru_map c)(key \<mapsto> null)\<rparr>)
       })"

text \<open>\<open>get\<close>: \<open>None\<close> for false, \<open>Some v\<close> for true with the value assigned.\<close>

definition lru_get :: "('k, 'v) lru_state \<Rightarrow> 'k \<Rightarrow> ('v option \<times> ('k, 'v) lru_state) option" where
  "lru_get = (\<lambda>(h, c) key.
     case lru_map c key of
       None \<Rightarrow> Some (None, (h, c))
     | Some node \<Rightarrow> do {
         (_, val) \<leftarrow> load_data h node;
         h \<leftarrow> moveNodeToHead h c node;
         Some (Some val, (h, c))
       })"

definition lru_count :: "('k, 'v) lru_state \<Rightarrow> uint" where
  "lru_count s = lru_size (snd s)"

partial_function (option) lru_clear_loop :: "('k \<times> 'v) mem \<Rightarrow> addr \<Rightarrow> addr \<Rightarrow> ('k \<times> 'v) mem option" where
  "lru_clear_loop h sentry node =
     (if node \<noteq> sentry then do {
        node \<leftarrow> load_next h node;
        prv \<leftarrow> load_prev h node;
        h1 \<leftarrow> delete_node h prv;
        lru_clear_loop h1 sentry node
      } else Some h)"

declare lru_clear_loop.simps [code]

definition lru_clear :: "('k, 'v) lru_state \<Rightarrow> ('k, 'v) lru_state option" where
  "lru_clear = (\<lambda>(h, c). do {
     node \<leftarrow> load_next h (lru_sentry c);
     h \<leftarrow> lru_clear_loop h (lru_sentry c) node;
     Some (h, c\<lparr>lru_size := 0, lru_map := (\<lambda>_. None)\<rparr>)
   })"

definition lru_destroy :: "('k, 'v) lru_state \<Rightarrow> ('k \<times> 'v) mem option" where
  "lru_destroy s = do {
     (h, c) \<leftarrow> lru_clear s;
     delete_node h (lru_sentry c)
   }"

subsection \<open>LRUCache and the loop of main, over any such container\<close>

text \<open>The members of \<open>LRUContainers\<close> that \<open>LRUCache\<close> calls.\<close>

record ('s, 'k, 'v) store_ops =
  st_put :: "'s \<Rightarrow> 'k \<Rightarrow> 'v \<Rightarrow> 's option"
  st_get :: "'s \<Rightarrow> 'k \<Rightarrow> ('v option \<times> 's) option"
  st_size :: "'s \<Rightarrow> uint"
  st_removeLast :: "'s \<Rightarrow> 's option"

record 's cache =
  cch_containers :: 's
  cch_capacity :: uint

definition cache_put :: "('s, 'k, 'v) store_ops \<Rightarrow> 's cache \<Rightarrow> 'k \<Rightarrow> 'v \<Rightarrow> 's cache option" where
  "cache_put ops c key val = do {
     s \<leftarrow> st_put ops (cch_containers c) key val;
     s \<leftarrow> (if cch_capacity c < st_size ops s then st_removeLast ops s else Some s);
     Some (c\<lparr>cch_containers := s\<rparr>)
   }"

definition cache_get :: "('s, 'k, 'v) store_ops \<Rightarrow> 's cache \<Rightarrow> 'k \<Rightarrow> ('v option \<times> 's cache) option" where
  "cache_get ops c key = do {
     (r, s) \<leftarrow> st_get ops (cch_containers c) key;
     Some (r, c\<lparr>cch_containers := s\<rparr>)
   }"

text \<open>The counters of \<open>main\<close>, and one round of its loop: a key that misses is looked up in
  \<open>dataVector\<close> and put.\<close>

record tally =
  preheat :: bool
  hitSize :: nat
  missSize :: nat

definition main_round ::
    "('s, 'k, 'v) store_ops \<Rightarrow> ('k \<times> 'v) list \<Rightarrow> nat \<Rightarrow> nat \<Rightarrow> 'k \<Rightarrow> 's cache \<times> tally \<Rightarrow>
     ('s cache \<times> tally) option" where
  "main_round ops dataVector preheatSize i key = (\<lambda>(c, t). do {
     (r, c) \<leftarrow> cache_get ops c key;
     (c, t) \<leftarrow>
       (case r of
          Some _ \<Rightarrow> Some (c, if preheat t then t else t\<lparr>hitSize := hitSize t + 1\<rparr>)
        | None \<Rightarrow> do {
            let t = (if preheat t then t else t\<lparr>missSize := missSize t + 1\<rparr>);
            c \<leftarrow> (case find (\<lambda>var. fst var = key) dataVector of
                    Some itor \<Rightarrow> cache_put ops c key (snd itor)
                  | None \<Rightarrow> Some c);
            Some (c, t)
          });
     Some (c, if preheatSize \<le> i then t\<lparr>preheat := False\<rparr> else t)
   })"

fun main_loop ::
    "('s, 'k, 'v) store_ops \<Rightarrow> ('k \<times> 'v) list \<Rightarrow> nat \<Rightarrow> nat \<Rightarrow> 'k list \<Rightarrow> 's cache \<times> tally \<Rightarrow>
     ('s cache \<times> tally) option" where
  "main_loop ops dataVector preheatSize i [] ct = Some ct"
| "main_loop ops dataVector preheatSize i (key # gen) ct = do {
     ct \<leftarrow> main_round ops dataVector preheatSize i key ct;
     main_loop ops dataVector preheatSize (Suc i) gen ct
   }"

text \<open>\<open>createData\<close>: \<open>resize(size)\<close> first, then \<open>emplace_back\<close>.\<close>

definition createData :: "(nat \<Rightarrow> string) \<Rightarrow> nat \<Rightarrow> (int \<times> string) list" where
  "createData to_string n =
     replicate n (0, []) @ map (\<lambda>i. (int i, to_string i)) [0..<n]"

subsection \<open>Contracts\<close>

text \<open>What a key-value store in recency order promises, most recent first.\<close>

definition touch :: "'k \<Rightarrow> ('k \<times> 'v) list \<Rightarrow> ('k \<times> 'v) list" where
  "touch k kvs = filter (\<lambda>p. fst p = k) kvs @ filter (\<lambda>p. fst p \<noteq> k) kvs"

locale lru_store =
  fixes ops :: "('s, 'k, 'v) store_ops"
    and rep :: "'s \<Rightarrow> ('k \<times> 'v) list \<Rightarrow> bool"
  assumes keys_rep: "rep s kvs \<Longrightarrow> distinct (map fst kvs)"
    and put_rep: "rep s kvs \<Longrightarrow> k \<notin> fst ` set kvs \<Longrightarrow> length kvs < 4294967295 \<Longrightarrow>
      \<exists>s'. st_put ops s k v = Some s' \<and> rep s' ((k, v) # kvs)"
    and hit_rep: "rep s kvs \<Longrightarrow> map_of kvs k = Some v \<Longrightarrow>
      \<exists>s'. st_get ops s k = Some (Some v, s') \<and> rep s' (touch k kvs)"
    and miss_rep: "rep s kvs \<Longrightarrow> map_of kvs k = None \<Longrightarrow> st_get ops s k = Some (None, s)"
    and size_rep: "rep s kvs \<Longrightarrow> unat (st_size ops s) = length kvs"
    and removeLast_rep: "rep s kvs \<Longrightarrow> kvs \<noteq> [] \<Longrightarrow>
      \<exists>s'. st_removeLast ops s = Some s' \<and> rep s' (butlast kvs)"

text \<open>What the bounded cache promises a client that puts a key only after a miss.\<close>

locale read_cache =
  fixes get :: "'c \<Rightarrow> 'k \<Rightarrow> ('v option \<times> 'c) option"
    and put :: "'c \<Rightarrow> 'k \<Rightarrow> 'v \<Rightarrow> 'c option"
    and crep :: "'c \<Rightarrow> ('k \<times> 'v) list \<Rightarrow> bool"
    and cap :: "'c \<Rightarrow> nat"
  assumes bounded: "crep c kvs \<Longrightarrow> length kvs \<le> cap c"
    and get_hit: "crep c kvs \<Longrightarrow> map_of kvs k = Some v \<Longrightarrow>
      \<exists>c'. get c k = Some (Some v, c') \<and> crep c' (touch k kvs) \<and> cap c' = cap c"
    and get_miss: "crep c kvs \<Longrightarrow> map_of kvs k = None \<Longrightarrow> get c k = Some (None, c)"
    and put_missing: "crep c kvs \<Longrightarrow> map_of kvs k = None \<Longrightarrow>
      \<exists>c'. put c k v = Some c' \<and> crep c' (take (cap c) ((k, v) # kvs)) \<and> cap c' = cap c"

definition cache_rep :: "('s \<Rightarrow> ('k \<times> 'v) list \<Rightarrow> bool) \<Rightarrow> 's cache \<Rightarrow> ('k \<times> 'v) list \<Rightarrow> bool" where
  "cache_rep rep c kvs \<longleftrightarrow> rep (cch_containers c) kvs \<and> length kvs \<le> unat (cch_capacity c) \<and>
     unat (cch_capacity c) < 4294967295"

definition cache_capacity :: "'s cache \<Rightarrow> nat" where
  "cache_capacity c = unat (cch_capacity c)"

lemma length_touch [simp]: "length (touch k kvs) = length kvs"
  by (simp add: touch_def sum_length_filter_compl)

lemma set_touch [simp]: "set (touch k kvs) = set kvs"
  by (auto simp: touch_def)

sublocale lru_store \<subseteq> ca: read_cache "cache_get ops" "cache_put ops" "cache_rep rep" cache_capacity
proof (unfold_locales, goal_cases)
  case (1 c kvs)
  then show ?case by (simp add: cache_rep_def cache_capacity_def)
next
  case (2 c kvs k v)
  then show ?case
    using hit_rep [of "cch_containers c" kvs k v]
    by (auto simp: cache_rep_def cache_get_def cache_capacity_def)
next
  case (3 c kvs k)
  then show ?case
    using miss_rep [of "cch_containers c" kvs k] by (auto simp: cache_rep_def cache_get_def)
next
  case (4 c kvs k v)
  let ?s = "cch_containers c"
  have r: "rep ?s kvs" "length kvs \<le> unat (cch_capacity c)" "unat (cch_capacity c) < 4294967295"
    "k \<notin> fst ` set kvs"
    using 4 by (auto simp: cache_rep_def map_of_eq_None_iff)
  obtain s' where s': "st_put ops ?s k v = Some s'" "rep s' ((k, v) # kvs)"
    using put_rep [OF r(1,4), of v] r(2,3) by auto
  have full: "cch_capacity c < st_size ops s' \<longleftrightarrow> length kvs = unat (cch_capacity c)"
    using size_rep [OF s'(2)] r(2) by (auto simp: word_less_nat_alt)
  obtain s'' where s'': "st_removeLast ops s' = Some s''" "rep s'' (butlast ((k, v) # kvs))"
    using removeLast_rep [OF s'(2)] by blast
  have "take (length kvs) ((k, v) # kvs) = butlast ((k, v) # kvs)"
    by (simp add: butlast_conv_take del: butlast.simps)
  then show ?case
    using s' s'' r full
    by (cases "length kvs = unat (cch_capacity c)")
      (auto simp: cache_put_def cache_rep_def cache_capacity_def simp del: butlast.simps)
qed

subsection \<open>The loop of main against the contract\<close>

text \<open>The same loop on the abstract cache: the entries in recency order and the tally.\<close>

definition spec_round ::
    "nat \<Rightarrow> ('k \<times> 'v) list \<Rightarrow> nat \<Rightarrow> nat \<Rightarrow> 'k \<Rightarrow> ('k \<times> 'v) list \<times> tally \<Rightarrow> ('k \<times> 'v) list \<times> tally" where
  "spec_round capacity dataVector preheatSize i key = (\<lambda>(kvs, t).
     (case map_of kvs key of
        Some _ \<Rightarrow> touch key kvs
      | None \<Rightarrow> (case map_of dataVector key of
          Some val \<Rightarrow> take capacity ((key, val) # kvs) | None \<Rightarrow> kvs),
      \<lparr>preheat = preheat t \<and> i < preheatSize,
       hitSize = hitSize t + (if preheat t \<or> map_of kvs key = None then 0 else 1),
       missSize = missSize t + (if preheat t \<or> map_of kvs key \<noteq> None then 0 else 1)\<rparr>))"

fun spec_loop ::
    "nat \<Rightarrow> ('k \<times> 'v) list \<Rightarrow> nat \<Rightarrow> nat \<Rightarrow> 'k list \<Rightarrow> ('k \<times> 'v) list \<times> tally \<Rightarrow> ('k \<times> 'v) list \<times> tally" where
  "spec_loop capacity dataVector preheatSize i [] st = st"
| "spec_loop capacity dataVector preheatSize i (key # gen) st =
     spec_loop capacity dataVector preheatSize (Suc i) gen (spec_round capacity dataVector preheatSize i key st)"

lemma find_map_of:
  "find (\<lambda>var. fst var = k) xs = map_option (Pair k) (map_of xs k)"
  by (induction xs) auto

locale data_client = ca: read_cache "cache_get ops" "cache_put ops" crep cap
  for ops :: "('s, 'k, 'v) store_ops" and crep and cap
begin

lemma main_round_rep:
  assumes r: "crep c kvs" and co: "\<forall>(k, v)\<in>set kvs. map_of dataVector k = Some v"
  shows "\<exists>c'. main_round ops dataVector ps i key (c, t) =
      Some (c', snd (spec_round (cap c) dataVector ps i key (kvs, t))) \<and>
    crep c' (fst (spec_round (cap c) dataVector ps i key (kvs, t))) \<and> cap c' = cap c \<and>
    (\<forall>(k, v)\<in>set (fst (spec_round (cap c) dataVector ps i key (kvs, t))). map_of dataVector k = Some v)"
proof (cases "map_of kvs key")
  case (Some v)
  then show ?thesis
    using ca.get_hit [OF r Some] co by (auto simp: main_round_def spec_round_def not_le)
next
  case None
  note g = ca.get_miss [OF r None]
  show ?thesis
  proof (cases "map_of dataVector key")
    case d: (Some v)
    have "set (take (cap c) ((key, v) # kvs)) \<subseteq> insert (key, v) (set kvs)"
      using set_take_subset by fastforce
    then have "\<forall>(k, v)\<in>set (take (cap c) ((key, v) # kvs)). map_of dataVector k = Some v"
      using co d by blast
    then show ?thesis
      using ca.put_missing [OF r None, of v] g None d
      by (auto simp: main_round_def spec_round_def find_map_of not_le)
  next
    case d: None
    then show ?thesis
      using r g None co by (auto simp: main_round_def spec_round_def find_map_of not_le)
  qed
qed

lemma main_loop_rep:
  assumes "crep c kvs" "\<forall>(k, v)\<in>set kvs. map_of dataVector k = Some v"
  shows "\<exists>c'. main_loop ops dataVector ps i gen (c, t) =
      Some (c', snd (spec_loop (cap c) dataVector ps i gen (kvs, t))) \<and>
    crep c' (fst (spec_loop (cap c) dataVector ps i gen (kvs, t))) \<and> cap c' = cap c \<and>
    (\<forall>(k, v)\<in>set (fst (spec_loop (cap c) dataVector ps i gen (kvs, t))). map_of dataVector k = Some v)"
  using assms
proof (induction gen arbitrary: i c kvs t)
  case (Cons key gen)
  let ?n = "spec_round (cap c) dataVector ps i key (kvs, t)"
  obtain c' where c': "main_round ops dataVector ps i key (c, t) = Some (c', snd ?n)"
    "crep c' (fst ?n)" "cap c' = cap c" "\<forall>(k, v)\<in>set (fst ?n). map_of dataVector k = Some v"
    using main_round_rep [OF Cons.prems] by blast
  then show ?case using Cons.IH [OF c'(2,4), of "Suc i" "snd ?n"] by simp
qed simp

end

lemma spec_loop_tally:
  assumes "preheat (snd st) \<Longrightarrow> i \<le> ps"
  shows "hitSize (snd (spec_loop c d ps i gen st)) + missSize (snd (spec_loop c d ps i gen st)) =
    hitSize (snd st) + missSize (snd st) +
      (if preheat (snd st) then length gen - (Suc ps - i) else length gen)"
  using assms
proof (induction gen arbitrary: i st)
  case (Cons key gen)
  obtain kvs t where st: "st = (kvs, t)" by (cases st)
  show ?case using Cons.IH [of "spec_round c d ps i key (kvs, t)" "Suc i"] Cons.prems
    by (auto simp: spec_round_def st)
qed simp

subsection \<open>The ring\<close>

text \<open>\<open>ring h s as xs\<close>: from the sentry \<open>s\<close> the nodes \<open>as\<close> follow in both
  directions, back to \<open>s\<close>, and hold the entries \<open>xs\<close>.\<close>

definition ring :: "'a mem \<Rightarrow> addr \<Rightarrow> addr list \<Rightarrow> 'a list \<Rightarrow> bool" where
  "ring h s as xs \<longleftrightarrow> mem_ok h \<and> distinct (s # as) \<and> (\<forall>a\<in>set (s # as). alive h a) \<and>
     linked (nextOf h) (prevOf h) (s # as @ [s]) \<and> map (dataOf h) as = map Some xs"

lemma ring_length: "ring h s as xs \<Longrightarrow> length xs = length as"
  by (auto simp: ring_def dest: map_eq_map_Some_length)

lemma ring_node: "ring h s as xs \<Longrightarrow> i < length as \<Longrightarrow>
    alive h (as ! i) \<and> 0 < as ! i \<and> as ! i \<noteq> s \<and> dataOf h (as ! i) = Some (xs ! i)"
  unfolding ring_def mem_ok_def by (auto dest: map_eq_map_Some_nth)

lemma ring_sentry: "ring h s as xs \<Longrightarrow> alive h s \<and> 0 < s \<and> s \<notin> set as"
  by (auto simp: ring_def mem_ok_def)

lemma ring_links: "ring h s as xs \<Longrightarrow> i \<le> length as \<Longrightarrow>
    nextOf h ((s # as) ! i) = (as @ [s]) ! i \<and> prevOf h ((as @ [s]) ! i) = (s # as) ! i"
  using linked_nth [of "nextOf h" "prevOf h" "s # as @ [s]" i]
  by (cases i) (auto simp: ring_def nth_append nth_Cons')

lemma ring_insert:
  assumes r: "ring h s as xs" and n: "n \<notin> set (s # as)" "alive h n" "dataOf h n = Some x"
  shows "ring (h\<lparr>nextOf := (nextOf h)(n := hd (as @ [s]), s := n),
      prevOf := (prevOf h)(n := s, hd (as @ [s]) := n)\<rparr>) s (n # as) (x # xs)"
proof -
  let ?y = "hd (as @ [s])"
  have y: "?y \<in> set (s # as)" by (cases as) simp_all
  have "linked ((nextOf h)(n := ?y, s := n)) ((prevOf h)(n := s, ?y := n)) ([] @ s # n # (as @ [s]))"
  proof (rule linked_insert)
    show "linked (nextOf h) (prevOf h) ([] @ s # as @ [s])" using r by (simp add: ring_def)
    show "halves ([] @ [s]) (as @ [s])" using r by (auto simp: halves_def ring_def)
  qed (use n y in auto)
  then show ?thesis using r n by (simp add: ring_def mem_ok_def)
qed

lemma ring_unlink:
  assumes r: "ring h s as xs" and i: "i < length as"
  shows "ring (h\<lparr>nextOf := (nextOf h)((s # as) ! i := (as @ [s]) ! Suc i),
      prevOf := (prevOf h)((as @ [s]) ! Suc i := (s # as) ! i)\<rparr>) s
    (take i as @ drop (Suc i) as) (take i xs @ drop (Suc i) xs)"
proof -
  let ?x = "(s # as) ! i" and ?n = "as ! i" and ?ys = "drop (Suc i) as @ [s]"
  have y: "(as @ [s]) ! Suc i = hd ?ys"
  proof (cases "Suc i < length as")
    case True
    then show ?thesis by (simp add: nth_append hd_append hd_drop_conv_nth)
  next
    case False
    then have "Suc i = length as" using i by simp
    then show ?thesis by (simp add: nth_append)
  qed
  have pre: "take i (s # as) @ [?x] = s # take i as"
    using i by (simp add: take_Suc_conv_app_nth [symmetric])
  have full: "take i (s # as) @ ?x # ?n # ?ys = s # as @ [s]"
  proof -
    have "take i (s # as) @ ?x # ?n # ?ys = (take i (s # as) @ [?x]) @ ?n # ?ys" by simp
    also have "\<dots> = s # (take i as @ as ! i # drop (Suc i) as) @ [s]" unfolding pre by simp
    finally show ?thesis using i by (simp add: id_take_nth_drop [symmetric])
  qed
  have d: "distinct (s # take i as @ ?n # drop (Suc i) as)"
    using r i by (simp add: ring_def id_take_nth_drop [symmetric])
  have "linked ((nextOf h)(?x := hd ?ys)) ((prevOf h)(hd ?ys := ?x)) (take i (s # as) @ ?x # ?ys)"
  proof (rule linked_remove [of "nextOf h" "prevOf h" _ _ ?n])
    show "linked (nextOf h) (prevOf h) (take i (s # as) @ ?x # ?n # ?ys)"
      unfolding full using r by (simp add: ring_def)
    show "halves (take i (s # as) @ [?x]) ?ys"
      unfolding pre using d by (auto simp: halves_def)
  qed simp_all
  moreover have "take i (s # as) @ ?x # ?ys = s # (take i as @ drop (Suc i) as) @ [s]"
  proof -
    have "take i (s # as) @ ?x # ?ys = (take i (s # as) @ [?x]) @ ?ys" by simp
    then show ?thesis unfolding pre by simp
  qed
  moreover have "map (dataOf h) (take i as @ drop (Suc i) as) = map Some (take i xs @ drop (Suc i) xs)"
    using r unfolding ring_def map_append by (simp only: take_map [symmetric] drop_map [symmetric])
  ultimately show ?thesis
    unfolding y using r d by (auto simp: ring_def mem_ok_def dest: in_set_takeD in_set_dropD)
qed

lemma ring_frame:
  assumes "ring h s as xs" "mem_ok h'"
    and "\<And>a. a \<in> set (s # as) \<Longrightarrow> alive h' a \<and> nextOf h' a = nextOf h a \<and>
      prevOf h' a = prevOf h a \<and> dataOf h' a = dataOf h a"
  shows "ring h' s as xs"
proof -
  have "linked (nextOf h') (prevOf h') (s # as @ [s])"
    by (rule linked_cong [THEN iffD2, of _ _ "nextOf h" _ "prevOf h"])
      (use assms in \<open>auto simp: ring_def dest: in_set_butlastD split: if_splits\<close>)
  moreover have "map (dataOf h') as = map (dataOf h) as" using assms by simp
  then have "map (dataOf h') as = map Some xs" using assms(1) by (simp only: ring_def)
  ultimately show ?thesis using assms by (simp add: ring_def)
qed

subsection \<open>The operations on the ring\<close>

lemma insertToHead_ring:
  assumes r: "ring h (lru_sentry c) as kvs"
    and n: "n \<notin> set (lru_sentry c # as)" "alive h n" "dataOf h n = Some e"
  shows "\<exists>h'. insertToHead h c n = Some h' \<and> ring h' (lru_sentry c) (n # as) (e # kvs) \<and>
    alive h' = alive h \<and> dataOf h' = dataOf h \<and> brk h' = brk h"
proof -
  let ?s = "lru_sentry c" and ?y = "hd (as @ [lru_sentry c])"
  have s: "alive h ?s" using ring_sentry [OF r] by simp
  have nx: "nextOf h ?s = ?y" using ring_links [OF r, of 0] by (simp add: hd_conv_nth)
  have "?y \<in> set (?s # as)" by (cases as) simp_all
  then have y: "alive h ?y" "?y \<noteq> n" using r n(1) by (auto simp: ring_def)
  have "insertToHead h c n = Some (h\<lparr>nextOf := (nextOf h)(n := ?y, ?s := n),
      prevOf := (prevOf h)(n := ?s, ?y := n)\<rparr>)"
    using s nx y n by (simp add: insertToHead_def effect_simps)
  then show ?thesis using ring_insert [OF r n] by simp
qed

lemma moveNodeToHead_ring:
  assumes r: "ring h (lru_sentry c) as kvs" and i: "i < length as"
  shows "\<exists>h'. moveNodeToHead h c (as ! i) = Some h' \<and>
    ring h' (lru_sentry c) (as ! i # take i as @ drop (Suc i) as)
      (kvs ! i # take i kvs @ drop (Suc i) kvs)"
proof -
  let ?s = "lru_sentry c" and ?n = "as ! i"
  let ?x = "(lru_sentry c # as) ! i" and ?y = "(as @ [lru_sentry c]) ! Suc i"
  note nd = ring_node [OF r i]
  have px: "prevOf h ?n = ?x" using ring_links [OF r, of i] i by (simp add: nth_append)
  have ny: "nextOf h ?n = ?y" using ring_links [OF r, of "Suc i"] i by simp
  have dis: "distinct (?s # as)" using r by (simp add: ring_def)
  have xin: "?x \<in> set (?s # as)" and yin: "?y \<in> set (as @ [?s])"
    using i nth_mem [of i "?s # as"] nth_mem [of "Suc i" "as @ [?s]"] by auto
  have al: "alive h ?x" "alive h ?y" using xin yin r by (auto simp: ring_def)
  have xn: "?x \<noteq> ?n" using dis i nth_eq_iff_index_eq [of "?s # as" i "Suc i"] by simp
  have yn: "?y \<noteq> ?n"
    using dis i nd nth_eq_iff_index_eq [of as "Suc i" i] by (auto simp: nth_append)
  show ?thesis
  proof (cases "i = 0")
    case True
    then have "take i as @ drop (Suc i) as = tl as" "?x = ?s" by (simp_all add: drop_Suc)
    moreover have "?n # tl as = as" using True i by (cases as) simp_all
    moreover have "kvs ! i # take i kvs @ drop (Suc i) kvs = kvs"
      using True i ring_length [OF r] by (cases kvs) simp_all
    ultimately show ?thesis
      using r px nd by (simp add: moveNodeToHead_def effect_simps)
  next
    case False
    define h1 where "h1 = h\<lparr>nextOf := (nextOf h)(?x := ?y), prevOf := (prevOf h)(?y := ?x)\<rparr>"
    have xs: "?x \<noteq> ?s"
      using dis i False nth_eq_iff_index_eq [of "?s # as" i 0] by simp
    have "ring h1 ?s (take i as @ drop (Suc i) as) (take i kvs @ drop (Suc i) kvs)"
      unfolding h1_def by (rule ring_unlink [OF r i])
    moreover have "distinct (?s # take i as @ ?n # drop (Suc i) as)"
      using dis i by (simp add: id_take_nth_drop [symmetric])
    then have "?n \<notin> set (?s # take i as @ drop (Suc i) as)" by auto
    moreover have "alive h1 ?n" "dataOf h1 ?n = Some (kvs ! i)" using nd by (simp_all add: h1_def)
    ultimately obtain h' where "insertToHead h1 c ?n = Some h'"
      "ring h' ?s (?n # take i as @ drop (Suc i) as) (kvs ! i # take i kvs @ drop (Suc i) kvs)"
      using insertToHead_ring by blast
    moreover have "moveNodeToHead h c ?n = insertToHead h1 c ?n"
      using px ny nd al xn yn xs by (simp add: moveNodeToHead_def effect_simps h1_def)
    ultimately show ?thesis by auto
  qed
qed

subsection \<open>What an LRU object represents\<close>

definition lru_nodes :: "('k, 'v) lru_state \<Rightarrow> addr list \<Rightarrow> ('k \<times> 'v) list \<Rightarrow> bool" where
  "lru_nodes s as kvs \<longleftrightarrow> ring (fst s) (lru_sentry (snd s)) as kvs \<and>
     lru_map (snd s) = map_of (zip (map fst kvs) as) \<and> distinct (map fst kvs) \<and>
     unat (lru_size (snd s)) = length kvs"

definition lru_rep :: "('k, 'v) lru_state \<Rightarrow> ('k \<times> 'v) list \<Rightarrow> bool" where
  "lru_rep s kvs \<longleftrightarrow> (\<exists>as. lru_nodes s as kvs)"

lemma lru_new_rep:
  assumes "mem_ok h"
  shows "\<exists>s. lru_new dflt h = Some s \<and> lru_rep s []"
  using assms
  by (auto simp: lru_new_def new_node_def effect_simps lru_rep_def lru_nodes_def ring_def mem_ok_def
      less_Suc_eq intro!: exI [of _ "[]"])

lemma map_of_zip_key:
  assumes "distinct (map fst kvs)" "length as = length kvs"
  shows "map_of (zip (map fst kvs) as) k = Some a \<longleftrightarrow>
    (\<exists>i<length kvs. fst (kvs ! i) = k \<and> as ! i = a)"
proof -
  have "map_of (zip (map fst kvs) as) k = Some a \<longleftrightarrow> (k, a) \<in> set (zip (map fst kvs) as)"
    using assms by simp
  also have "\<dots> \<longleftrightarrow> (\<exists>i<length kvs. map fst kvs ! i = k \<and> as ! i = a)"
    using assms(2) by (auto simp: set_zip)
  also have "\<dots> \<longleftrightarrow> (\<exists>i<length kvs. fst (kvs ! i) = k \<and> as ! i = a)"
    by (rule ex_cong1) (auto simp: nth_map)
  finally show ?thesis .
qed

lemma map_of_zip_dom:
  "length as = length kvs \<Longrightarrow> map_of (zip (map fst kvs) as) k = None \<longleftrightarrow> k \<notin> fst ` set kvs"
  by (simp add: map_of_zip_is_None)

lemma touch_nth:
  assumes "distinct (map fst kvs)" "i < length kvs" "fst (kvs ! i) = k"
  shows "touch k kvs = kvs ! i # take i kvs @ drop (Suc i) kvs"
proof -
  have e: "kvs = take i kvs @ kvs ! i # drop (Suc i) kvs" by (rule split_at [OF assms(2)])
  have "distinct (map fst (take i kvs @ kvs ! i # drop (Suc i) kvs))"
    using assms(1) e by simp
  then have "\<forall>p\<in>set (take i kvs @ drop (Suc i) kvs). fst p \<noteq> k"
    using assms(3) by (auto simp: image_iff)
  then have "touch k (take i kvs @ kvs ! i # drop (Suc i) kvs) =
      kvs ! i # take i kvs @ drop (Suc i) kvs"
    using assms(3) by (simp add: touch_def filter_empty_conv filter_id_conv)
  then show ?thesis using e by simp
qed

lemma map_of_zip_rotate:
  assumes "distinct (map fst kvs)" "i < length kvs" "length as = length kvs"
  shows "map_of (zip (map fst (kvs ! i # take i kvs @ drop (Suc i) kvs))
      (as ! i # take i as @ drop (Suc i) as)) = map_of (zip (map fst kvs) as)"
proof -
  define zs where "zs = zip (map fst kvs) as"
  have zs: "i < length zs" "map fst zs = map fst kvs" using assms by (simp_all add: zs_def)
  have "zip (map fst (kvs ! i # take i kvs @ drop (Suc i) kvs)) (as ! i # take i as @ drop (Suc i) as) =
      zs ! i # take i zs @ drop (Suc i) zs"
    using assms by (simp add: zs_def take_zip drop_zip take_map drop_map)
  moreover have e: "zs = take i zs @ zs ! i # drop (Suc i) zs" by (rule split_at [OF zs(1)])
  have d: "distinct (map fst (take i zs @ zs ! i # drop (Suc i) zs))"
    using assms(1) zs(2) e by simp
  then have "map_of (zs ! i # take i zs @ drop (Suc i) zs) = map_of (take i zs @ zs ! i # drop (Suc i) zs)"
    by (subst map_of_inject_set) auto
  ultimately show ?thesis using e by (simp add: zs_def [symmetric])
qed

lemma lru_put_nodes:
  assumes n: "lru_nodes (h, c) as kvs" and k: "k \<notin> fst ` set kvs" and room: "length kvs < 4294967295"
  shows "\<exists>s'. lru_put (h, c) k v = Some s' \<and> lru_nodes s' (brk h # as) ((k, v) # kvs)"
proof -
  let ?s = "lru_sentry c"
  have r: "ring h ?s as kvs" and mp: "lru_map c = map_of (zip (map fst kvs) as)"
    and sz: "unat (lru_size c) = length kvs" and dk: "distinct (map fst kvs)"
    using n by (simp_all add: lru_nodes_def)
  note len = ring_length [OF r]
  have miss: "lru_map c k = None" using k len by (simp add: mp map_of_zip_dom)
  define h1 where "h1 = snd (new_node h)\<lparr>dataOf := (dataOf (snd (new_node h)))(brk h := Some (k, v))\<rparr>"
  have f: "brk h \<notin> set (?s # as)" using r by (auto simp: ring_def mem_ok_def)
  have "ring h1 ?s as kvs"
  proof (rule ring_frame [OF r])
    show "mem_ok h1" using r by (auto simp: ring_def mem_ok_def h1_def new_node_def less_Suc_eq)
  qed (use r f in \<open>auto simp: h1_def new_node_def ring_def\<close>)
  moreover have "alive h1 (brk h)" "dataOf h1 (brk h) = Some (k, v)"
    by (simp_all add: h1_def new_node_def)
  ultimately obtain h' where "insertToHead h1 c (brk h) = Some h'"
    "ring h' ?s (brk h # as) ((k, v) # kvs)"
    using insertToHead_ring [of h1 c as kvs "brk h" "(k, v)"] f by blast
  moreover from this have "lru_put (h, c) k v = Some (h', c\<lparr>lru_size := lru_size c + 1,
      lru_map := (lru_map c)(k \<mapsto> brk h)\<rparr>)"
    using miss by (simp add: lru_put_def new_node_def effect_simps h1_def)
  moreover have "unat (lru_size c + 1) = Suc (length kvs)" using sz room by (simp add: unat_inc)
  ultimately show ?thesis using mp k dk by (auto simp: lru_nodes_def)
qed

lemma lru_hit_nodes:
  assumes n: "lru_nodes (h, c) as kvs" and v: "map_of kvs k = Some v"
  shows "\<exists>i h'. i < length kvs \<and> kvs ! i = (k, v) \<and> lru_map c k = Some (as ! i) \<and>
    load_data h (as ! i) = Some (k, v) \<and> moveNodeToHead h c (as ! i) = Some h' \<and>
    lru_nodes (h', c) (as ! i # take i as @ drop (Suc i) as) (touch k kvs)"
proof -
  have r: "ring h (lru_sentry c) as kvs" and mp: "lru_map c = map_of (zip (map fst kvs) as)"
    and dk: "distinct (map fst kvs)"
    using n by (simp_all add: lru_nodes_def)
  note len = ring_length [OF r]
  have "(k, v) \<in> set kvs" using v by (rule map_of_SomeD)
  then obtain i where i: "i < length kvs" "kvs ! i = (k, v)" by (auto simp: in_set_conv_nth)
  then have "map_of (zip (map fst kvs) as) k = Some (as ! i)"
    using map_of_zip_key [OF dk, of as k "as ! i"] len by auto
  moreover obtain h' where h': "moveNodeToHead h c (as ! i) = Some h'"
    "ring h' (lru_sentry c) (as ! i # take i as @ drop (Suc i) as)
      (kvs ! i # take i kvs @ drop (Suc i) kvs)"
    using moveNodeToHead_ring [OF r] i(1) len by auto
  moreover have t: "touch k kvs = kvs ! i # take i kvs @ drop (Suc i) kvs"
    using touch_nth [OF dk i(1)] i(2) by simp
  moreover have "distinct (map fst (touch k kvs))"
  proof -
    have "distinct (map fst (take i kvs @ kvs ! i # drop (Suc i) kvs))"
      using dk split_at [OF i(1)] by simp
    then show ?thesis unfolding t by auto
  qed
  moreover have "load_data h (as ! i) = Some (k, v)"
    using ring_node [OF r, of i] i len by (simp add: effect_simps)
  moreover have "lru_map c = map_of (zip (map fst (touch k kvs)) (as ! i # take i as @ drop (Suc i) as))"
    unfolding t by (simp only: map_of_zip_rotate [OF dk i(1) len [symmetric]] mp)
  moreover have "unat (lru_size c) = length (touch k kvs)" using n by (simp add: lru_nodes_def)
  ultimately show ?thesis using i by (auto simp: lru_nodes_def mp)
qed

lemma lru_removeLast_nodes:
  assumes n: "lru_nodes (h, c) as kvs" and ne: "kvs \<noteq> []"
  shows "\<exists>s'. lru_removeLast (h, c) = Some s' \<and> lru_nodes s' (butlast as) (butlast kvs)"
proof -
  let ?s = "lru_sentry c"
  have r: "ring h ?s as kvs" and mp: "lru_map c = map_of (zip (map fst kvs) as)"
    and dk: "distinct (map fst kvs)" and sz: "unat (lru_size c) = length kvs"
    using n by (simp_all add: lru_nodes_def)
  note len = ring_length [OF r]
  define i where "i = length as - 1"
  have "0 < length as" using ne len by (metis length_greater_0_conv)
  then have i: "i < length as" "Suc i = length as" by (simp_all add: i_def)
  let ?n = "as ! i" and ?x = "(?s # as) ! i"
  have bl: "take i zs = butlast zs" "drop (Suc i) zs = []" if "length zs = length as" for zs :: "'z list"
    using that i(2) butlast_conv_take [of zs] by (simp_all add: i_def)
  note nd = ring_node [OF r i(1)] and sn = ring_sentry [OF r]
  have y: "(as @ [?s]) ! Suc i = ?s" using i by (simp add: nth_append)
  have ps: "prevOf h ?s = ?n"
    using ring_links [OF r, of "Suc i"] i(1) unfolding y by simp
  have px: "prevOf h ?n = ?x" using ring_links [OF r, of i] i by (simp add: nth_append)
  have xin: "?x \<in> set (?s # as)" using i nth_mem [of i "?s # as"] by simp
  have x: "alive h ?x" using xin r by (auto simp: ring_def)
  have xn: "?x \<noteq> ?n"
    using r i(1) nth_eq_iff_index_eq [of "?s # as" i "Suc i"] by (simp add: ring_def)
  define h1 where "h1 = h\<lparr>nextOf := (nextOf h)(?x := ?s), prevOf := (prevOf h)(?s := ?x)\<rparr>"
  have r1: "ring h1 ?s (butlast as) (butlast kvs)"
    using ring_unlink [OF r i(1)] len unfolding y h1_def [symmetric] by (simp add: bl)
  define h' where "h' = h1\<lparr>alive := (alive h)(?n := False)\<rparr>"
  obtain k v where kv: "kvs ! i = (k, v)" by (cases "kvs ! i")
  define c' where "c' = c\<lparr>lru_map := (lru_map c)(k := None), lru_size := lru_size c - 1\<rparr>"
  have "lru_size c \<noteq> 0" using sz ne by (auto simp flip: unat_eq_0)
  then have "lru_removeLast (h, c) = Some (h', c')"
    using ps px x xn nd sn kv by (auto simp: lru_removeLast_def effect_simps h'_def h1_def c'_def)
  moreover have "ring h' ?s (butlast as) (butlast kvs)"
  proof -
    have "distinct (take i as @ ?n # drop (Suc i) as)"
      using r split_at [OF i(1)] by (simp add: ring_def)
    then have "distinct (butlast as @ [?n])" by (simp add: bl)
    then show ?thesis
      using r1 sn nd by (auto simp: ring_def h'_def h1_def mem_ok_def)
  qed
  moreover have "(lru_map c)(k := None) = map_of (zip (map fst (butlast kvs)) (butlast as))"
  proof -
    have e: "kvs = butlast kvs @ [(k, v)]" "as = butlast as @ [?n]"
      using kv ne len i by (metis append_butlast_last_id last_conv_nth i_def length_0_conv)+
    have lb: "length (map fst (butlast kvs)) = length (butlast as)" using len by simp
    have "zip (map fst kvs) as = zip (map fst (butlast kvs) @ [k]) (butlast as @ [?n])"
      by (subst e(1), subst e(2)) simp
    then have z: "zip (map fst kvs) as = zip (map fst (butlast kvs)) (butlast as) @ [(k, ?n)]"
      using lb by simp
    have "distinct (map fst (butlast kvs @ [(k, v)]))" using dk e(1) by simp
    then have "map_of (zip (map fst (butlast kvs)) (butlast as)) k = None"
      using lb by (simp add: map_of_zip_is_None)
    then show ?thesis unfolding mp z by (auto simp: fun_eq_iff map_add_def split: option.splits)
  qed
  moreover have "unat (lru_size c - 1) = length (butlast kvs)"
    using sz ne unat_dec [of "lru_size c"] by simp
  ultimately show ?thesis
    using dk by (auto simp: lru_nodes_def c'_def map_butlast distinct_butlast)
qed

definition lru_ops :: "(('k, 'v) lru_state, 'k, 'v) store_ops" where
  "lru_ops = \<lparr>st_put = lru_put, st_get = lru_get, st_size = lru_count, st_removeLast = lru_removeLast\<rparr>"

interpretation lc: lru_store lru_ops lru_rep
proof (unfold_locales, goal_cases)
  case (1 s kvs)
  then show ?case by (auto simp: lru_rep_def lru_nodes_def)
next
  case (2 s kvs k v)
  obtain h c as where n: "s = (h, c)" "lru_nodes (h, c) as kvs"
    using 2(1) by (cases s) (auto simp: lru_rep_def)
  then show ?case using lru_put_nodes [OF n(2) 2(2,3), of v] by (auto simp: lru_rep_def lru_ops_def)
next
  case (3 s kvs k v)
  obtain h c as where n: "s = (h, c)" "lru_nodes (h, c) as kvs"
    using 3(1) by (cases s) (auto simp: lru_rep_def)
  then show ?case
    using lru_hit_nodes [OF n(2) 3(2)] by (auto simp: lru_rep_def lru_ops_def lru_get_def)
next
  case (4 s kvs k)
  obtain h c as where n: "s = (h, c)" "lru_nodes (h, c) as kvs"
    using 4(1) by (cases s) (auto simp: lru_rep_def)
  then have "lru_map c k = map_of (zip (map fst kvs) as) k" "length as = length kvs"
    using ring_length [of h "lru_sentry c" as kvs] by (simp_all add: lru_nodes_def)
  then have "lru_map c k = None"
    using 4(2) map_of_zip_dom [of as kvs k] by (simp add: map_of_eq_None_iff)
  then show ?case using n by (simp add: lru_ops_def lru_get_def)
next
  case (5 s kvs)
  then show ?case by (auto simp: lru_rep_def lru_nodes_def lru_ops_def lru_count_def)
next
  case (6 s kvs)
  obtain h c as where n: "s = (h, c)" "lru_nodes (h, c) as kvs"
    using 6(1) by (cases s) (auto simp: lru_rep_def)
  then show ?case using lru_removeLast_nodes [OF n(2) 6(2)] by (auto simp: lru_rep_def lru_ops_def)
qed

interpretation ld: data_client lru_ops "cache_rep lru_rep" cache_capacity
  by unfold_locales

subsection \<open>Putting a key that is present, and clearing\<close>

text \<open>After \<open>put\<close> of a present key the map holds a null pointer for it.\<close>

lemma lru_put_present:
  assumes n: "lru_rep s kvs" and v: "map_of kvs k = Some v"
  shows "\<exists>h c as. lru_put s k w = Some (h, c) \<and> lru_map c k = Some null \<and>
    ring h (lru_sentry c) as (touch k kvs) \<and> lru_size c = lru_size (snd s)"
proof -
  obtain h c as where a: "s = (h, c)" "lru_nodes (h, c) as kvs"
    using n by (cases s) (auto simp: lru_rep_def)
  obtain i h' where i: "lru_map c k = Some (as ! i)" "moveNodeToHead h c (as ! i) = Some h'"
    "lru_nodes (h', c) (as ! i # take i as @ drop (Suc i) as) (touch k kvs)"
    using lru_hit_nodes [OF a(2) v] by blast
  then have "ring h' (lru_sentry c) (as ! i # take i as @ drop (Suc i) as) (touch k kvs)"
    by (simp only: lru_nodes_def fst_conv snd_conv)
  moreover have "lru_put s k w = Some (h', c\<lparr>lru_map := (lru_map c)(k \<mapsto> null)\<rparr>)"
    using i(1,2) a(1) by (simp add: lru_put_def)
  ultimately show ?thesis
    using a(1) by (intro exI [of _ h'] exI [of _ "c\<lparr>lru_map := (lru_map c)(k \<mapsto> null)\<rparr>"]
        exI [of _ "as ! i # take i as @ drop (Suc i) as"]) simp
qed

lemma lru_clear_loop_seg:
  assumes "distinct (bs @ [s])" "\<forall>a\<in>set (bs @ [s]). alive h a" "mem_ok h"
    "linked (nextOf h) (prevOf h) (bs @ [s])"
  shows "lru_clear_loop h s (hd (bs @ [s])) = Some (h\<lparr>alive := (\<lambda>a. a \<notin> set bs \<and> alive h a)\<rparr>)"
  using assms
proof (induction bs arbitrary: h)
  case Nil
  then show ?case by (simp add: lru_clear_loop.simps)
next
  case (Cons b bs)
  let ?h = "h\<lparr>alive := (alive h)(b := False)\<rparr>" and ?y = "hd (bs @ [s])"
  have l: "nextOf h b = ?y" "prevOf h ?y = b" "linked (nextOf h) (prevOf h) (bs @ [s])"
    using Cons.prems(4) by (simp_all add: linked_Cons)
  have "?y \<in> set (bs @ [s])" by (rule hd_in_set) simp
  then have y: "alive h ?y" using Cons.prems(2) by auto
  have b: "alive h b" "0 < b" "b \<noteq> s" using Cons.prems by (auto dest: mem_ok_not_null)
  have "lru_clear_loop ?h s ?y = Some (?h\<lparr>alive := (\<lambda>a. a \<notin> set bs \<and> alive ?h a)\<rparr>)"
    by (rule Cons.IH) (use Cons.prems l(3) in \<open>auto simp: mem_ok_def\<close>)
  then show ?case
    using b y l(1,2) by (subst lru_clear_loop.simps) (auto simp: effect_simps fun_eq_iff)
qed

lemma lru_clear_nodes:
  assumes n: "lru_nodes (h, c) as kvs"
  shows "lru_clear (h, c) = Some (h\<lparr>alive := (\<lambda>a. a \<notin> set as \<and> alive h a)\<rparr>,
    c\<lparr>lru_size := 0, lru_map := (\<lambda>_. None)\<rparr>)"
proof -
  have r: "ring h (lru_sentry c) as kvs" using n by (simp add: lru_nodes_def)
  have "lru_clear_loop h (lru_sentry c) (hd (as @ [lru_sentry c])) =
      Some (h\<lparr>alive := (\<lambda>a. a \<notin> set as \<and> alive h a)\<rparr>)"
    using r by (intro lru_clear_loop_seg) (auto simp: ring_def linked_Cons)
  moreover have "nextOf h (lru_sentry c) = hd (as @ [lru_sentry c])"
    using ring_links [OF r, of 0] by (simp add: hd_conv_nth)
  ultimately show ?thesis
    using ring_sentry [OF r] by (simp add: lru_clear_def effect_simps)
qed

subsection \<open>Properties of the cache\<close>

text \<open>A cache for the witnesses: the container of \<open>kvs\<close>, most recent first.\<close>

fun cache_of :: "uint \<Rightarrow> (int \<times> string) list \<Rightarrow> (int, string) lru_state cache option" where
  "cache_of capacity [] = do {
     s \<leftarrow> lru_new (0, []) empty_mem;
     Some \<lparr>cch_containers = s, cch_capacity = capacity\<rparr>
   }"
| "cache_of capacity (p # kvs) = do {
     c \<leftarrow> cache_of capacity kvs;
     cache_put lru_ops c (fst p) (snd p)
   }"

lemma cache_of_rep:
  assumes "distinct (map fst kvs)" "length kvs \<le> unat capacity" "unat capacity < 4294967295"
  shows "\<exists>c. cache_of capacity kvs = Some c \<and> cache_rep lru_rep c kvs \<and> cch_capacity c = capacity"
  using assms
proof (induction kvs)
  case Nil
  then show ?case
    using lru_new_rep [OF mem_ok_empty, of "(0 :: int, [] :: string)"]
    by (auto simp: cache_rep_def)
next
  case (Cons p kvs)
  obtain c where c: "cache_of capacity kvs = Some c" "cache_rep lru_rep c kvs" "cch_capacity c = capacity"
    using Cons by auto
  have "map_of kvs (fst p) = None" using Cons.prems by (simp add: map_of_eq_None_iff)
  then obtain c' where "cache_put lru_ops c (fst p) (snd p) = Some c'"
    "cache_rep lru_rep c' (take (cache_capacity c) (p # kvs))" "cache_capacity c' = cache_capacity c"
    using lc.ca.put_missing [OF c(2), of "fst p" "snd p"] by auto
  moreover from this have "cch_capacity c' = capacity"
    using c(3) by (simp add: cache_capacity_def uint_eq_iff_unat)
  ultimately show ?case
    using c Cons.prems by (auto simp: cache_capacity_def)
qed

text \<open>C4: the loop of \<open>main\<close>, which puts a key only after it missed, never reaches the broken
  branch of \<open>put\<close>: for any keys it ends with the hit and miss counts of an ideal
  least-recently-used cache, one of the two for every round after the preheating, a cache within
  its capacity, and every cached value equal to the one \<open>dataVector\<close> holds for the key.\<close>

theorem lru_main_loop:
  assumes "lru_rep s []" "unat capacity < 4294967295"
  shows "\<exists>c' kvs t. main_loop lru_ops dataVector preheatSize 0 gen
      (\<lparr>cch_containers = s, cch_capacity = capacity\<rparr>, \<lparr>preheat = True, hitSize = 0, missSize = 0\<rparr>) =
      Some (c', t) \<and>
    (kvs, t) = spec_loop (unat capacity) dataVector preheatSize 0 gen
      ([], \<lparr>preheat = True, hitSize = 0, missSize = 0\<rparr>) \<and>
    hitSize t + missSize t = length gen - Suc preheatSize \<and>
    lru_rep (cch_containers c') kvs \<and> length kvs \<le> unat capacity \<and>
    (\<forall>(k, v)\<in>set kvs. map_of dataVector k = Some v)"
proof -
  let ?c = "\<lparr>cch_containers = s, cch_capacity = capacity\<rparr>"
  let ?t = "\<lparr>preheat = True, hitSize = 0, missSize = 0\<rparr>"
  let ?r = "spec_loop (unat capacity) dataVector preheatSize 0 gen ([], ?t)"
  have "cache_rep lru_rep ?c []" using assms by (simp add: cache_rep_def)
  then obtain c' where c': "main_loop lru_ops dataVector preheatSize 0 gen (?c, ?t) = Some (c', snd ?r)"
    "cache_rep lru_rep c' (fst ?r)" "\<forall>(k, v)\<in>set (fst ?r). map_of dataVector k = Some v"
    "cache_capacity c' = unat capacity"
    using ld.main_loop_rep [of ?c "[]" dataVector preheatSize 0 gen ?t] by (auto simp: cache_capacity_def)
  have "hitSize (snd ?r) + missSize (snd ?r) = length gen - Suc preheatSize"
    using spec_loop_tally [of "([], ?t)" 0 preheatSize "unat capacity" dataVector gen] by simp
  then show ?thesis
    using c' by (intro exI [of _ c'] exI [of _ "fst ?r"] exI [of _ "snd ?r"])
      (auto simp: cache_rep_def cache_capacity_def)
qed

theorem lru_main_loop_witness:
  "\<exists>s c' kvs t. main_loop lru_ops [(1 :: int, ''a''), (2, ''b'')] 0 0 [1, 2, 1]
      (\<lparr>cch_containers = s, cch_capacity = 1\<rparr>, \<lparr>preheat = True, hitSize = 0, missSize = 0\<rparr>) =
      Some (c', t) \<and> hitSize t + missSize t = 2 \<and> lru_rep (cch_containers c') kvs \<and> length kvs \<le> 1"
proof -
  obtain s :: "(int, string) lru_state" where "lru_rep s []"
    using lru_new_rep [OF mem_ok_empty, of "(0 :: int, [] :: string)"] by blast
  from lru_main_loop [OF this, of 1 "[(1, ''a''), (2, ''b'')]" 0 "[1, 2, 1]"]
  show ?thesis by (simp only: unat_1) fastforce
qed

text \<open>C7: \<open>LRUCache::put\<close> of a missing key makes it the most recent entry and drops the least
  recently used one exactly when the capacity would be exceeded; \<open>get\<close> of a present key returns
  its value and makes it the most recent, \<open>get\<close> of a missing key returns false and changes
  nothing.\<close>

theorem lru_cache_refines:
  assumes "cache_rep lru_rep c kvs"
  shows "(case map_of kvs k of
      Some v \<Rightarrow> \<exists>c'. cache_get lru_ops c k = Some (Some v, c') \<and> cache_rep lru_rep c' (touch k kvs)
    | None \<Rightarrow> cache_get lru_ops c k = Some (None, c) \<and>
        (\<exists>c'. cache_put lru_ops c k w = Some c' \<and>
          cache_rep lru_rep c' (take (unat (cch_capacity c)) ((k, w) # kvs))))"
  using lc.ca.get_hit [OF assms] lc.ca.get_miss [OF assms] lc.ca.put_missing [OF assms, of k w]
  by (fastforce simp: cache_capacity_def split: option.split)

theorem lru_cache_refines_witness:
  "\<exists>c c' c''. cache_of 2 [(2, ''b''), (1, ''a'')] = Some c \<and>
    cache_get lru_ops c 1 = Some (Some ''a'', c') \<and> cache_rep lru_rep c' [(1, ''a''), (2, ''b'')]"
proof -
  obtain c where c: "cache_of 2 [(2, ''b''), (1, ''a'')] = Some c" "cache_rep lru_rep c [(2, ''b''), (1, ''a'')]"
    using cache_of_rep [of "[(2, ''b''), (1, ''a'')]" 2] by auto
  show ?thesis using lru_cache_refines [OF c(2), of 1] c(1) by (simp add: touch_def)
qed

text \<open>\<open>put\<close> of a key that is present drops the new value and stores a null pointer for
  the key; the next \<open>get\<close> of that key dereferences it.\<close>

theorem lru_put_present_then_get:
  assumes "cache_rep lru_rep c kvs" "map_of kvs k = Some v"
  shows "\<exists>c'. cache_put lru_ops c k w = Some c' \<and> cache_get lru_ops c' k = None"
proof -
  have r: "lru_rep (cch_containers c) kvs" "length kvs \<le> unat (cch_capacity c)"
    using assms(1) by (auto simp: cache_rep_def)
  obtain h d as where p: "lru_put (cch_containers c) k w = Some (h, d)" "lru_map d k = Some null"
    "ring h (lru_sentry d) as (touch k kvs)" "lru_size d = lru_size (snd (cch_containers c))"
    using lru_put_present [OF r(1) assms(2)] by blast
  have "\<not> cch_capacity c < lru_size d"
    using p(4) lc.size_rep [OF r(1)] r(2) by (simp add: lru_ops_def lru_count_def word_less_nat_alt)
  then have "cache_put lru_ops c k w = Some (c\<lparr>cch_containers := (h, d)\<rparr>)"
    using p(1) by (simp add: cache_put_def lru_ops_def lru_count_def)
  moreover have "\<not> alive h null" using p(3) by (auto simp: ring_def mem_ok_def)
  then have "cache_get lru_ops (c\<lparr>cch_containers := (h, d)\<rparr>) k = None"
    using p(2) by (simp add: cache_get_def lru_ops_def lru_get_def effect_simps)
  ultimately show ?thesis by blast
qed

theorem lru_put_present_then_get_witness:
  "\<exists>c c'. cache_of 2 [(1, ''a'')] = Some c \<and> cache_put lru_ops c 1 ''b'' = Some c' \<and>
    cache_get lru_ops c' 1 = None"
  using cache_of_rep [of "[(1, ''a'')]" 2] lru_put_present_then_get [of _ "[(1, ''a'')]" 1 "''a''" "''b''"]
  by fastforce

text \<open>\<open>clear\<close> of a cache that holds entries leaves the sentry pointing to a deleted node:
  the next \<open>put\<close> writes to it and the destructor reads it.\<close>

theorem lru_clear_dangling:
  assumes "lru_rep s kvs" "kvs \<noteq> []"
  shows "\<exists>s'. lru_clear s = Some s' \<and> lru_count s' = 0 \<and> lru_put s' k v = None \<and> lru_destroy s' = None"
proof -
  obtain h c as where a: "s = (h, c)" "lru_nodes (h, c) as kvs"
    using assms(1) by (cases s) (auto simp: lru_rep_def)
  have r: "ring h (lru_sentry c) as kvs" using a(2) by (simp add: lru_nodes_def)
  have i: "0 < length as" using assms(2) ring_length [OF r] by (metis length_greater_0_conv)
  have nx: "nextOf h (lru_sentry c) = as ! 0"
    using ring_links [OF r, of 0] i by (simp add: nth_append)
  let ?h = "h\<lparr>alive := (\<lambda>a. a \<notin> set as \<and> alive h a)\<rparr>"
  let ?c = "c\<lparr>lru_size := 0, lru_map := (\<lambda>_. None)\<rparr>"
  have d: "\<not> alive ?h (as ! 0)" "as ! 0 \<noteq> lru_sentry c" "as ! 0 \<noteq> brk h"
    using i ring_node [OF r i] mem_ok_not_brk [of h "as ! 0"] r by (auto simp: ring_def)
  note sn = ring_sentry [OF r]
  have "lru_put (?h, ?c) k v = None"
    using sn d nx mem_ok_not_brk [of h "lru_sentry c"] r
    by (simp add: lru_put_def new_node_def insertToHead_def effect_simps ring_def)
  moreover have "lru_clear_loop ?h (lru_sentry c) (as ! 0) = None"
    using d by (subst lru_clear_loop.simps) (simp add: effect_simps)
  then have "lru_destroy (?h, ?c) = None"
    using sn nx by (simp add: lru_destroy_def lru_clear_def effect_simps)
  ultimately show ?thesis
    using lru_clear_nodes [OF a(2)] a(1) by (simp add: lru_count_def)
qed

theorem lru_clear_dangling_witness:
  "\<exists>s s'. lru_clear s = Some s' \<and> lru_put s' (1 :: int) ''b'' = None \<and> lru_destroy s' = None"
proof -
  obtain c where "cache_rep lru_rep c [(1 :: int, ''a'')]" using cache_of_rep [of "[(1, ''a'')]" 2] by auto
  then have "lru_rep (cch_containers c) [(1, ''a'')]" by (simp add: cache_rep_def)
  from lru_clear_dangling [OF this, of 1 "''b''"] show ?thesis by blast
qed

end
