(* ===== verification/SpinLock.thy ===== *)
theory SpinLock
  imports Prelude
begin

text \<open>
  \<open>SpinLock\<close> of Data Structure/DataStructure/SpinLock.hpp and its client \<open>add\<close> in
  DataStructure.cpp: several threads each take the lock, increment a shared counter and release
  the lock, a number of times.  Every step of a thread is one atomic action of the shared memory;
  the threads interleave in any order.  The increment is two steps, a read and a write, so that
  without mutual exclusion updates could be lost.  \<open>yield\<close> gives up the processor and changes
  nothing.
\<close>

definition m_count :: int where
  "m_count = 30"

text \<open>Where a thread is: before a round, in \<open>lock()\<close> with its count of failed attempts, before
  the increment, between its read and its write, before \<open>unlock()\<close>, at the end.\<close>

datatype pc = Loop | Locking int | Entered | Loaded int | Leaving | Finished

record thread =
  th_pc :: pc
  th_i :: nat

record shared =
  m_state :: bool
  retSum :: int
  threads :: "thread list"

text \<open>One attempt of \<open>lock()\<close>: \<open>compare_exchange_strong(false, true)\<close>, else count and
  reset the count when it reaches \<open>m_count\<close>.\<close>

definition lock_attempt :: "bool \<Rightarrow> int \<Rightarrow> bool \<times> pc" where
  "lock_attempt state count =
     (if \<not> state then (True, Entered)
      else (state, Locking (if m_count \<le> count + 1 then 0 else count + 1)))"

text \<open>The next action of a thread in \<open>add\<close> that makes \<open>n\<close> rounds.\<close>

definition thread_step :: "nat \<Rightarrow> bool \<times> int \<Rightarrow> thread \<Rightarrow> (bool \<times> int) \<times> thread" where
  "thread_step n = (\<lambda>(state, rs) th.
     case th_pc th of
       Loop \<Rightarrow> ((state, rs), th\<lparr>th_pc := if th_i th < n then Locking 0 else Finished\<rparr>)
     | Locking count \<Rightarrow> (case lock_attempt state count of (state', p) \<Rightarrow> ((state', rs), th\<lparr>th_pc := p\<rparr>))
     | Entered \<Rightarrow> ((state, rs), th\<lparr>th_pc := Loaded rs\<rparr>)
     | Loaded v \<Rightarrow> ((state, v + 1), th\<lparr>th_pc := Leaving\<rparr>)
     | Leaving \<Rightarrow> ((False, rs), th\<lparr>th_pc := Loop, th_i := th_i th + 1\<rparr>)
     | Finished \<Rightarrow> ((state, rs), th))"

inductive step :: "nat \<Rightarrow> shared \<Rightarrow> shared \<Rightarrow> bool" for n where
  step_thread: "j < length (threads s) \<Longrightarrow> th_pc (threads s ! j) \<noteq> Finished \<Longrightarrow>
    thread_step n (m_state s, retSum s) (threads s ! j) = ((state', rs'), th') \<Longrightarrow>
    step n s (s\<lparr>m_state := state', retSum := rs', threads := (threads s)[j := th']\<rparr>)"

inductive reachable :: "nat \<Rightarrow> shared \<Rightarrow> shared \<Rightarrow> bool" for n s0 where
  reachable_start: "reachable n s0 s0"
| reachable_step: "reachable n s0 s \<Longrightarrow> step n s s' \<Longrightarrow> reachable n s0 s'"

inductive_cases stepE: "step n s s'"

text \<open>\<open>main\<close> starts \<open>k\<close> threads on a free lock and a sum of 0.\<close>

definition add_start :: "nat \<Rightarrow> shared" where
  "add_start k = \<lparr>m_state = False, retSum = 0, threads = replicate k \<lparr>th_pc = Loop, th_i = 0\<rparr>\<rparr>"

subsection \<open>The invariant\<close>

definition critical :: "thread \<Rightarrow> bool" where
  "critical th \<longleftrightarrow> (case th_pc th of Entered \<Rightarrow> True | Loaded _ \<Rightarrow> True | Leaving \<Rightarrow> True | _ \<Rightarrow> False)"

text \<open>The increments a thread has made.\<close>

definition done_rounds :: "thread \<Rightarrow> int" where
  "done_rounds th = int (th_i th) + (if th_pc th = Leaving then 1 else 0)"

definition thread_ok :: "nat \<Rightarrow> int \<Rightarrow> thread \<Rightarrow> bool" where
  "thread_ok n rs th \<longleftrightarrow> th_i th \<le> n \<and> (case th_pc th of
     Loop \<Rightarrow> True | Finished \<Rightarrow> th_i th = n | Loaded v \<Rightarrow> v = rs \<and> th_i th < n
   | Locking count \<Rightarrow> th_i th < n \<and> 0 \<le> count \<and> count < m_count
   | _ \<Rightarrow> th_i th < n)"

definition spin_inv :: "nat \<Rightarrow> shared \<Rightarrow> bool" where
  "spin_inv n s \<longleftrightarrow>
     length (filter critical (threads s)) = (if m_state s then 1 else 0) \<and>
     retSum s = sum_list (map done_rounds (threads s)) \<and>
     (\<forall>th\<in>set (threads s). thread_ok n (retSum s) th)"

lemma spin_inv_thread: "spin_inv n s \<Longrightarrow> th \<in> set (threads s) \<Longrightarrow> thread_ok n (retSum s) th"
  unfolding spin_inv_def by blast

lemma spin_inv_start: "spin_inv n (add_start k)"
  by (auto simp: spin_inv_def add_start_def critical_def done_rounds_def thread_ok_def sum_list_replicate)

lemma length_filter_split:
  "length (filter P (xs @ x # ys)) = length (filter P (xs @ ys)) + (if P x then 1 else 0)"
  by simp

lemma spin_inv_step:
  assumes inv: "spin_inv n s" and st: "step n s s'"
  shows "spin_inv n s'"
  using st
proof cases
  case (step_thread j state' rs' th')
  let ?th = "threads s ! j"
  define xs where "xs = take j (threads s)"
  define ys where "ys = drop (Suc j) (threads s)"
  have split: "threads s = xs @ ?th # ys"
    unfolding xs_def ys_def by (rule split_at [OF step_thread(2)])
  have upd: "(threads s)[j := th'] = xs @ th' # ys"
    using step_thread(2) by (simp add: upd_conv_take_nth_drop xs_def ys_def)
  define others where "others = length (filter critical (xs @ ys))"
  define total where "total = sum_list (map done_rounds (xs @ ys))"
  have crit: "others + (if critical ?th then 1 else 0) = (if m_state s then 1 else 0)"
    using inv split length_filter_split [of critical xs ?th ys]
    by (simp add: spin_inv_def others_def)
  have tot: "retSum s = total + done_rounds ?th"
    using inv split by (simp add: spin_inv_def total_def) (metis add.commute add.left_commute map_append
      list.simps(9) sum_list.append sum_list.Cons)
  have ok: "thread_ok n (retSum s) ?th" "\<forall>th\<in>set (xs @ ys). thread_ok n (retSum s) th"
    using inv split by (auto simp: spin_inv_def) (metis Un_iff insertCI set_append list.set(2))+
  have no_others: "others = 0 \<Longrightarrow> \<forall>th\<in>set (xs @ ys). \<not> critical th"
    by (auto simp: others_def filter_empty_conv)
  have indep: "\<not> critical th \<Longrightarrow> thread_ok n a th \<longleftrightarrow> thread_ok n b th" for a b th
    by (auto simp: thread_ok_def critical_def split: pc.splits)
  have goal: "spin_inv n s'"
    if c: "others + (if critical th' then 1 else 0) = (if state' then 1 else 0)"
      and t: "rs' = total + done_rounds th'" and o1: "thread_ok n rs' th'"
      and o2: "rs' = retSum s \<or> others = 0"
  proof -
    have "\<forall>th\<in>set (xs @ ys). thread_ok n rs' th"
      using ok(2) o2 no_others indep by metis
    moreover have "length (filter critical (xs @ th' # ys)) = (if state' then 1 else 0)"
      unfolding length_filter_split using c by (simp only: others_def)
    moreover have "retSum s' = rs'" "m_state s' = state'" "threads s' = xs @ th' # ys"
      using step_thread(1) upd by simp_all
    ultimately show ?thesis
      using t o1 by (simp only: spin_inv_def) (auto simp: total_def)
  qed
  show ?thesis
    by (rule goal)
      (use step_thread(3,4) crit tot ok(1) in
        \<open>auto simp: thread_step_def lock_attempt_def critical_def done_rounds_def thread_ok_def m_count_def
          split: pc.splits if_splits\<close>)
qed

lemma spin_inv_reachable:
  assumes "reachable n (add_start k) s"
  shows "spin_inv n s"
  using assms by induction (blast intro: spin_inv_start spin_inv_step)+

lemma threads_length:
  assumes "reachable n s0 s"
  shows "length (threads s) = length (threads s0)"
  using assms by induction (auto elim: stepE)

subsection \<open>Progress\<close>

text \<open>The actions a thread still has to take when no attempt to lock fails.\<close>

definition thread_work :: "nat \<Rightarrow> thread \<Rightarrow> nat" where
  "thread_work n th = (case th_pc th of
     Loop \<Rightarrow> 5 * (n - th_i th) + 1 | Locking _ \<Rightarrow> 5 * (n - th_i th)
   | Entered \<Rightarrow> 5 * (n - th_i th) - 1 | Loaded _ \<Rightarrow> 5 * (n - th_i th) - 2
   | Leaving \<Rightarrow> 5 * (n - th_i th) - 3 | Finished \<Rightarrow> 0)"

definition work :: "nat \<Rightarrow> shared \<Rightarrow> nat" where
  "work n s = sum_list (map (thread_work n) (threads s))"

definition all_finished :: "shared \<Rightarrow> bool" where
  "all_finished s \<longleftrightarrow> (\<forall>th\<in>set (threads s). th_pc th = Finished)"

lemma thread_step_work:
  assumes "thread_ok n rs th" "th_pc th \<noteq> Finished" "critical th \<or> \<not> state"
    "thread_step n (state, rs) th = ((state', rs'), th')"
  shows "thread_work n th' < thread_work n th"
proof -
  have "5 * (n - Suc (th_i th)) + 5 = 5 * (n - th_i th)" if "th_i th < n" using that by simp
  then show ?thesis
    using assms
    by (auto simp: thread_ok_def thread_step_def thread_work_def critical_def lock_attempt_def
        split: pc.splits if_splits)
qed

lemma sum_list_update_less:
  fixes f :: "'a \<Rightarrow> nat"
  assumes "j < length xs" "f y < f (xs ! j)"
  shows "sum_list (map f (xs[j := y])) < sum_list (map f xs)"
proof -
  have "sum_list (map f (xs[j := y])) = sum_list (map f (take j xs)) + f y + sum_list (map f (drop (Suc j) xs))"
    using assms(1) by (simp add: upd_conv_take_nth_drop)
  moreover have "sum_list (map f xs) =
      sum_list (map f (take j xs @ xs ! j # drop (Suc j) xs))"
    using split_at [OF assms(1)] by simp
  ultimately show ?thesis using assms(2) by simp
qed

text \<open>The thread that holds the lock, or any thread when it is free, makes progress.\<close>

lemma progress_step:
  assumes inv: "spin_inv n s" and nf: "\<not> all_finished s"
  shows "\<exists>s'. step n s s' \<and> work n s' < work n s"
proof -
  obtain j where j: "j < length (threads s)" "th_pc (threads s ! j) \<noteq> Finished"
    "critical (threads s ! j) \<or> \<not> m_state s"
  proof (cases "m_state s")
    case True
    then have "length (filter critical (threads s)) = 1" using inv by (simp add: spin_inv_def)
    then have "filter critical (threads s) \<noteq> []" by auto
    then obtain th where "th \<in> set (filter critical (threads s))" by (meson hd_in_set)
    then have "th \<in> set (threads s)" "critical th" by simp_all
    then show ?thesis using that by (auto simp: in_set_conv_nth critical_def split: pc.splits)
  next
    case False
    then show ?thesis using nf that by (auto simp: all_finished_def in_set_conv_nth)
  qed
  obtain state' rs' th' where
    st: "thread_step n (m_state s, retSum s) (threads s ! j) = ((state', rs'), th')"
    by (metis prod.exhaust)
  have "thread_ok n (retSum s) (threads s ! j)" using spin_inv_thread [OF inv] j(1) by simp
  then have "thread_work n th' < thread_work n (threads s ! j)"
    using thread_step_work [OF _ j(2,3) st] by simp
  then have "work n (s\<lparr>m_state := state', retSum := rs', threads := (threads s)[j := th']\<rparr>) < work n s"
    using sum_list_update_less [OF j(1), of "thread_work n" th'] by (simp add: work_def)
  then show ?thesis using step_thread [OF j(1,2) st] by blast
qed

lemma reachable_trans: "reachable n s t \<Longrightarrow> step n r s \<Longrightarrow> reachable n r t"
  by (induction rule: reachable.induct) (auto intro: reachable.intros)

lemma can_finish:
  assumes "spin_inv n s"
  shows "\<exists>t. reachable n s t \<and> all_finished t"
  using assms
proof (induction "work n s" arbitrary: s rule: less_induct)
  case less
  show ?case
  proof (cases "all_finished s")
    case True
    then show ?thesis using reachable_start by blast
  next
    case False
    then obtain s' where s': "step n s s'" "work n s' < work n s" using progress_step less.prems by blast
    then obtain t where "reachable n s' t" "all_finished t"
      using less.hyps [OF s'(2)] spin_inv_step [OF less.prems] by blast
    then show ?thesis using reachable_trans [OF _ s'(1)] by blast
  qed
qed

subsection \<open>Properties of the lock\<close>

text \<open>C6: however the threads interleave, at most one of them is between \<open>lock()\<close> and
  \<open>unlock()\<close>, and then the lock is taken.\<close>

theorem spinlock_mutual_exclusion:
  assumes "reachable n (add_start k) s" "i < length (threads s)" "j < length (threads s)"
    "critical (threads s ! i)" "critical (threads s ! j)"
  shows "i = j \<and> m_state s"
proof -
  have len: "length (filter critical (threads s)) = (if m_state s then 1 else 0)"
    using spin_inv_reachable [OF assms(1)] by (simp add: spin_inv_def)
  let ?C = "{l. l < length (threads s) \<and> critical (threads s ! l)}"
  have "card ?C = length (filter critical (threads s))" by (simp add: length_filter_conv_card)
  then have "card ?C \<le> 1" using len by simp
  moreover have "{i, j} \<subseteq> ?C" using assms(2-5) by simp
  then have "card {i, j} \<le> card ?C" by (intro card_mono) simp_all
  ultimately have "card {i, j} \<le> 1" by (rule le_trans [rotated])
  then have "i = j" by (cases "i = j") simp_all
  moreover have "filter critical (threads s) \<noteq> []"
    using assms(2,4) by (auto simp: filter_empty_conv)
  ultimately show ?thesis using len by (auto split: if_splits)
qed

theorem spinlock_mutual_exclusion_witness:
  "\<exists>s. reachable 1 (add_start 2) s \<and> critical (threads s ! 0) \<and> m_state s"
proof -
  let ?s1 = "(add_start 2)\<lparr>m_state := False, retSum := 0, threads := (threads (add_start 2))
    [0 := \<lparr>th_pc = Locking 0, th_i = 0\<rparr>]\<rparr>"
  let ?s2 = "?s1\<lparr>m_state := True, retSum := 0, threads := (threads ?s1)[0 := \<lparr>th_pc = Entered, th_i = 0\<rparr>]\<rparr>"
  have "step 1 (add_start 2) ?s1"
    by (rule step_thread) (simp_all add: add_start_def thread_step_def)
  moreover have "step 1 ?s1 ?s2"
    by (rule step_thread) (simp_all add: add_start_def thread_step_def lock_attempt_def)
  ultimately have r: "reachable 1 (add_start 2) ?s2" by (blast intro: reachable.intros)
  have "critical (threads ?s2 ! 0)" "0 < length (threads ?s2)"
    by (simp_all add: add_start_def critical_def)
  then show ?thesis using spinlock_mutual_exclusion [OF r, of 0 0] r by blast
qed

text \<open>The sum never exceeds the number of increments asked for; when all threads have ended it
  is exactly that number, whatever the interleaving, and from every reachable state the threads can
  run to their end.\<close>

theorem spinlock_sum:
  assumes "reachable n (add_start k) s"
  shows "0 \<le> retSum s \<and> retSum s \<le> int (k * n) \<and>
    (all_finished s \<longrightarrow> retSum s = int (k * n) \<and> \<not> m_state s) \<and>
    (\<exists>t. reachable n s t \<and> all_finished t)"
proof -
  have inv: "spin_inv n s" by (rule spin_inv_reachable [OF assms])
  have len: "length (threads s) = k"
    using threads_length [OF assms] by (simp add: add_start_def)
  have ok: "0 \<le> done_rounds th \<and> done_rounds th \<le> int n" if "th \<in> set (threads s)" for th
    using spin_inv_thread [OF inv that]
    by (auto simp: thread_ok_def done_rounds_def split: pc.splits)
  have bounds: "0 \<le> sum_list (map done_rounds ts) \<and> sum_list (map done_rounds ts) \<le> int (length ts * n)"
    if "set ts \<subseteq> set (threads s)" for ts
    using that
  proof (induction ts)
    case (Cons t ts)
    then show ?case using ok [of t] by (auto simp: algebra_simps)
  qed simp
  have fin: "retSum s = int (k * n) \<and> \<not> m_state s" if f: "all_finished s"
  proof -
    have "sum_list (map done_rounds ts) = int (length ts * n)" if "set ts \<subseteq> set (threads s)" for ts
      using that
    proof (induction ts)
      case (Cons t ts)
      have "th_pc t = Finished" using Cons.prems f by (simp add: all_finished_def)
      moreover have "thread_ok n (retSum s) t" using Cons.prems spin_inv_thread [OF inv] by simp
      ultimately have "done_rounds t = int n" by (simp add: thread_ok_def done_rounds_def)
      then show ?case using Cons by (simp add: algebra_simps)
    qed simp
    moreover have "filter critical (threads s) = []"
      using f by (auto simp: all_finished_def critical_def filter_empty_conv)
    ultimately show ?thesis using inv len by (auto simp: spin_inv_def split: if_splits)
  qed
  show ?thesis
    using bounds [of "threads s"] inv len fin can_finish [OF inv] by (simp add: spin_inv_def)
qed

theorem spinlock_sum_witness:
  "\<exists>t. reachable 100000 (add_start 8) t \<and> all_finished t"
  using spinlock_sum [OF reachable_start, of 8 100000] by blast

end
