(* ===== verification/ThreadPool.thy ===== *)
theory ThreadPool
  imports Prelude "HOL-Library.Multiset"
begin

text \<open>
  \<open>ThreadPool\<close> and \<open>ThreadWork\<close> of ThreadPool/ThreadPool.cpp with a client such as
  \<open>main\<close> in ThreadPool/main.cpp, as a step relation: the client thread and the workers take
  atomic actions in any order.  What happens while the mutex is held is one action, taking the
  mutex is another.  A wait on the condition variable may wake without a notification, as the
  standard allows; \<open>notify_one\<close> wakes any one waiting worker.  The task run by a worker is
  \<open>AddTask::doRun\<close>, an increment under its own lock followed by the store to \<open>_ret\<close>.
\<close>

text \<open>A worker in \<open>doRun\<close>: about to lock (first, or to return from \<open>wait\<close>), holding the
  mutex before its predicate is evaluated, blocked in \<open>wait\<close>, running a task, ended.\<close>

datatype 't worker = WLock | WHeld | WWait | WRun 't | WExit

text \<open>What the client asks for: \<open>addTask\<close> of one task or of a vector, the loop of \<open>main\<close>
  that polls \<open>finished()\<close> of all tasks, the destructor.\<close>

datatype 't command = AddTask 't | AddTasks "'t list" | PollAll | Close

datatype 't client = MIdle | MHeld "'t command" | MNotifyOne | MNotifyAll | MJoin nat | MEnd

datatype owner = Free | ByClient | ByWorker

record 't pool =
  tp_tasks :: "'t list"
  tp_works :: "'t worker list"
  tp_mutex :: owner
  tp_flag :: bool
  client :: "'t client"
  commands :: "'t command list"
  added :: "'t multiset"
  completed :: "'t multiset"
  dropped :: "'t multiset"
  rsum :: int

text \<open>The constructor with \<open>threadCount\<close> workers (for the argument -1 the count
  \<open>hardware\<close> that \<open>hardware_concurrency()\<close> returns).\<close>

definition pool_new :: "nat \<Rightarrow> int \<Rightarrow> 't command list \<Rightarrow> 't pool" where
  "pool_new hardware threadCount cmds =
     \<lparr>tp_tasks = [], tp_works = replicate (if threadCount = -1 then hardware else nat threadCount) WLock,
      tp_mutex = Free, tp_flag = False, client = MIdle, commands = cmds, added = {#}, completed = {#},
      dropped = {#}, rsum = 0\<rparr>"

definition wake :: "'t worker \<Rightarrow> 't worker" where
  "wake w = (case w of WWait \<Rightarrow> WLock | _ \<Rightarrow> w)"

text \<open>The body of a round of \<open>ThreadWork::doRun\<close> with the mutex held: wait again, leave the
  loop, or take the front task; each releases the mutex.\<close>

definition round_body :: "'t pool \<Rightarrow> 't worker \<times> 't list" where
  "round_body s =
     (case tp_tasks s of
        [] \<Rightarrow> (if tp_flag s then WExit else WWait, [])
      | t # ts \<Rightarrow> (WRun t, ts))"

inductive work_step :: "nat \<Rightarrow> 't pool \<Rightarrow> 't pool \<Rightarrow> bool" where
  w_lock: "j < length (tp_works s) \<Longrightarrow> tp_works s ! j = WLock \<Longrightarrow> tp_mutex s = Free \<Longrightarrow>
    work_step j s (s\<lparr>tp_works := (tp_works s)[j := WHeld], tp_mutex := ByWorker\<rparr>)"
| w_body: "j < length (tp_works s) \<Longrightarrow> tp_works s ! j = WHeld \<Longrightarrow> round_body s = (w, ts) \<Longrightarrow>
    work_step j s (s\<lparr>tp_works := (tp_works s)[j := w], tp_tasks := ts, tp_mutex := Free\<rparr>)"
| w_run: "j < length (tp_works s) \<Longrightarrow> tp_works s ! j = WRun t \<Longrightarrow>
    work_step j s (s\<lparr>tp_works := (tp_works s)[j := WLock], completed := completed s + {#t#},
      rsum := rsum s + 1\<rparr>)"

inductive client_step :: "'t pool \<Rightarrow> 't pool \<Rightarrow> bool" where
  c_lock: "client s = MIdle \<Longrightarrow> commands s = c # cs \<Longrightarrow> c \<noteq> PollAll \<Longrightarrow> tp_mutex s = Free \<Longrightarrow>
    client_step s (s\<lparr>client := MHeld c, commands := cs, tp_mutex := ByClient\<rparr>)"
| c_add: "client s = MHeld (AddTask t) \<Longrightarrow>
    client_step s (s\<lparr>client := MNotifyOne, tp_tasks := tp_tasks s @ [t], added := added s + {#t#},
      tp_mutex := Free\<rparr>)"
| c_adds: "client s = MHeld (AddTasks ts) \<Longrightarrow>
    client_step s (s\<lparr>client := MNotifyAll, tp_tasks := tp_tasks s @ ts, added := added s + mset ts,
      tp_mutex := Free\<rparr>)"
| c_notify_one: "client s = MNotifyOne \<Longrightarrow> j < length (tp_works s) \<Longrightarrow> tp_works s ! j = WWait \<Longrightarrow>
    client_step s (s\<lparr>client := MIdle, tp_works := (tp_works s)[j := WLock]\<rparr>)"
| c_notify_none: "client s = MNotifyOne \<Longrightarrow> WWait \<notin> set (tp_works s) \<Longrightarrow>
    client_step s (s\<lparr>client := MIdle\<rparr>)"
| c_notify_all: "client s = MNotifyAll \<Longrightarrow>
    client_step s (s\<lparr>client := MIdle, tp_works := map wake (tp_works s)\<rparr>)"
| c_poll: "client s = MIdle \<Longrightarrow> commands s = PollAll # cs \<Longrightarrow> added s = completed s \<Longrightarrow>
    client_step s (s\<lparr>commands := cs\<rparr>)"
| c_close: "client s = MHeld Close \<Longrightarrow>
    client_step s (s\<lparr>client := MJoin 0, tp_tasks := [], dropped := dropped s + mset (tp_tasks s),
      tp_flag := True, tp_works := map wake (tp_works s), tp_mutex := Free\<rparr>)"
| c_join: "client s = MJoin j \<Longrightarrow> j < length (tp_works s) \<Longrightarrow> tp_works s ! j = WExit \<Longrightarrow>
    client_step s (s\<lparr>client := MJoin (Suc j)\<rparr>)"
| c_end: "client s = MJoin (length (tp_works s)) \<Longrightarrow>
    client_step s (s\<lparr>client := MEnd, tp_works := []\<rparr>)"

inductive pool_step :: "'t pool \<Rightarrow> 't pool \<Rightarrow> bool" where
  p_work: "work_step j s s' \<Longrightarrow> pool_step s s'"
| p_client: "client_step s s' \<Longrightarrow> pool_step s s'"
| p_spurious: "j < length (tp_works s) \<Longrightarrow> tp_works s ! j = WWait \<Longrightarrow>
    pool_step s (s\<lparr>tp_works := (tp_works s)[j := WLock]\<rparr>)"

inductive pool_reachable :: "'t pool \<Rightarrow> 't pool \<Rightarrow> bool" for s0 where
  pool_start: "pool_reachable s0 s0"
| pool_more: "pool_reachable s0 s \<Longrightarrow> pool_step s s' \<Longrightarrow> pool_reachable s0 s'"

inductive_cases work_stepE: "work_step j s s'"
inductive_cases client_stepE: "client_step s s'"
inductive_cases pool_stepE: "pool_step s s'"

subsection \<open>The invariant\<close>

definition tasks_of :: "'t worker \<Rightarrow> 't multiset" where
  "tasks_of w = (case w of WRun t \<Rightarrow> {#t#} | _ \<Rightarrow> {#})"

definition running :: "'t worker list \<Rightarrow> 't multiset" where
  "running ws = sum_list (map tasks_of ws)"

definition active :: "'t worker \<Rightarrow> bool" where
  "active w \<longleftrightarrow> w \<noteq> WWait \<and> w \<noteq> WExit"

definition held_count :: "'t worker list \<Rightarrow> nat" where
  "held_count ws = length (filter (\<lambda>w. w = WHeld) ws)"

definition inv_mutex :: "'t pool \<Rightarrow> bool" where
  "inv_mutex s \<longleftrightarrow> held_count (tp_works s) = (if tp_mutex s = ByWorker then 1 else 0) \<and>
     (tp_mutex s = ByClient \<longleftrightarrow> (\<exists>c. client s = MHeld c)) \<and> client s \<noteq> MHeld PollAll"

definition inv_tasks :: "'t pool \<Rightarrow> bool" where
  "inv_tasks s \<longleftrightarrow>
     added s = mset (tp_tasks s) + running (tp_works s) + completed s + dropped s \<and>
     rsum s = int (size (completed s))"

definition inv_flag :: "'t pool \<Rightarrow> bool" where
  "inv_flag s \<longleftrightarrow> (tp_flag s \<longleftrightarrow> client s = MEnd \<or> (\<exists>j. client s = MJoin j)) \<and>
     (tp_flag s \<longrightarrow> tp_tasks s = [] \<and> WWait \<notin> set (tp_works s)) \<and>
     (\<not> tp_flag s \<longrightarrow> WExit \<notin> set (tp_works s) \<and> dropped s = {#} \<and>
        (client s = MHeld Close \<or> Close \<in> set (commands s)))"

definition inv_join :: "'t pool \<Rightarrow> bool" where
  "inv_join s \<longleftrightarrow> (\<forall>j. client s = MJoin j \<longrightarrow> j \<le> length (tp_works s) \<and> (\<forall>i<j. tp_works s ! i = WExit)) \<and>
     (client s = MEnd \<longrightarrow> tp_works s = [])"

text \<open>No lost wake-up: when tasks are queued some worker is up, unless the client is about to
  notify (or there is no worker at all).\<close>

definition inv_wake :: "'t pool \<Rightarrow> bool" where
  "inv_wake s \<longleftrightarrow> tp_tasks s \<noteq> [] \<longrightarrow> (\<exists>w\<in>set (tp_works s). active w) \<or> tp_works s = [] \<or>
     client s = MNotifyOne \<or> client s = MNotifyAll"

definition pool_inv :: "'t pool \<Rightarrow> bool" where
  "pool_inv s \<longleftrightarrow> inv_mutex s \<and> inv_tasks s \<and> inv_flag s \<and> inv_join s \<and> inv_wake s"

lemma update_split:
  assumes "j < length ws"
  obtains xs ys where "ws = xs @ ws ! j # ys" "\<And>w. ws[j := w] = xs @ w # ys"
  using split_at [OF assms] upd_conv_take_nth_drop [OF assms] that by metis

lemma held_update:
  "j < length ws \<Longrightarrow> held_count (ws[j := w]) + (if ws ! j = WHeld then 1 else 0) =
    held_count ws + (if w = WHeld then 1 else 0)"
proof (erule update_split)
  fix xs ys assume "ws = xs @ ws ! j # ys" "\<And>w. ws[j := w] = xs @ w # ys"
  then have "held_count (ws[j := w]) = held_count (xs @ w # ys)"
    "held_count ws = held_count (xs @ ws ! j # ys)" by simp_all
  then show "held_count (ws[j := w]) + (if ws ! j = WHeld then 1 else 0) =
      held_count ws + (if w = WHeld then 1 else 0)"
    by (simp add: held_count_def)
qed

lemma running_update:
  "j < length ws \<Longrightarrow> running (ws[j := w]) + tasks_of (ws ! j) = running ws + tasks_of w"
proof (erule update_split)
  fix xs ys assume "ws = xs @ ws ! j # ys" "\<And>w. ws[j := w] = xs @ w # ys"
  then have "running (ws[j := w]) = running (xs @ w # ys)" "running ws = running (xs @ ws ! j # ys)" by simp_all
  then show "running (ws[j := w]) + tasks_of (ws ! j) = running ws + tasks_of w"
    by (simp add: running_def)
qed

lemma held_positive: "j < length ws \<Longrightarrow> ws ! j = WHeld \<Longrightarrow> 0 < held_count ws"
  using nth_mem [of j ws] by (auto simp: held_count_def filter_empty_conv)

lemma set_update_in: "x \<in> set (ws[j := w]) \<Longrightarrow> x = w \<or> x \<in> set ws"
  using set_update_subset_insert [of ws j w] by auto

lemma wake_simps [simp]:
  "wake WWait = WLock" "wake WLock = WLock" "wake WHeld = WHeld" "wake (WRun t) = WRun t" "wake WExit = WExit"
  by (simp_all add: wake_def)

lemma wake_iff [simp]:
  "wake w = WHeld \<longleftrightarrow> w = WHeld" "tasks_of (wake w) = tasks_of w" "wake w \<noteq> WWait"
  "wake w = WExit \<longleftrightarrow> w = WExit" "active (wake w) \<longleftrightarrow> w \<noteq> WExit"
  by (cases w; simp add: tasks_of_def active_def)+

lemma wake_map [simp]:
  "held_count (map wake ws) = held_count ws" "running (map wake ws) = running ws"
  by (simp_all add: held_count_def running_def filter_map o_def)

lemma wake_set [simp]: "WWait \<notin> wake ` A" "WExit \<in> wake ` A \<longleftrightarrow> WExit \<in> A"
  by (metis imageE wake_iff(3)) (metis imageE imageI wake_iff(4) wake_simps(5))

lemma running_replicate: "tasks_of w = {#} \<Longrightarrow> running (replicate k w) = {#}"
  by (induction k) (simp_all add: running_def)

lemma held_replicate: "w \<noteq> WHeld \<Longrightarrow> held_count (replicate k w) = 0"
  by (simp add: held_count_def)

lemma pool_inv_start:
  assumes "Close \<in> set cmds"
  shows "pool_inv (pool_new hw n cmds)"
  using assms by (simp add: pool_inv_def inv_mutex_def inv_tasks_def inv_flag_def inv_join_def
      inv_wake_def pool_new_def held_replicate running_replicate tasks_of_def)

lemma exits_update:
  "\<forall>i<m. ws ! i = WExit \<Longrightarrow> ws ! j \<noteq> WExit \<Longrightarrow> i < m \<Longrightarrow> ws[j := w] ! i = WExit"
  by (metis nth_list_update_neq)

lemma inv_join_update:
  assumes "inv_join s" "tp_works s ! j \<noteq> WExit" "client s' = client s"
    "tp_works s' = (tp_works s)[j := w]"
  shows "inv_join s'"
proof -
  have "m \<le> length (tp_works s') \<and> (\<forall>i<m. tp_works s' ! i = WExit)" if "client s' = MJoin m" for m
  proof -
    have "client s = MJoin m" using that assms(3) by simp
    then have "m \<le> length (tp_works s)" and e: "\<forall>i<m. tp_works s ! i = WExit"
      using assms(1) by (simp_all add: inv_join_def)
    then show ?thesis using exits_update [OF e assms(2), of _ w] assms(4) by simp
  qed
  moreover have "tp_works s' = []" if "client s' = MEnd" using assms that by (simp add: inv_join_def)
  ultimately show ?thesis by (simp add: inv_join_def)
qed

lemma work_step_inv:
  assumes inv: "pool_inv s" and st: "work_step j s s'"
  shows "pool_inv s'"
proof -
  have i: "inv_mutex s" "inv_tasks s" "inv_flag s" "inv_join s" "inv_wake s"
    using inv by (simp_all add: pool_inv_def)
  from st show ?thesis
  proof cases
    case w_lock
    have "inv_mutex s'"
      using i(1) w_lock held_update [OF w_lock(2), of WHeld] by (auto simp: inv_mutex_def)
    moreover have "inv_tasks s'"
      using i(2) w_lock running_update [OF w_lock(2), of WHeld] by (simp add: inv_tasks_def tasks_of_def)
    moreover have "inv_flag s'" using i(3) w_lock by (auto simp: inv_flag_def dest: set_update_in)
    moreover have "inv_join s'" by (rule inv_join_update [OF i(4), of j]) (simp_all add: w_lock)
    moreover have "inv_wake s'"
      using w_lock set_update_memI [OF w_lock(2), of WHeld] by (auto simp: inv_wake_def active_def)
    ultimately show ?thesis by (simp add: pool_inv_def)
  next
    case (w_body w ts)
    have one: "tp_mutex s = ByWorker"
      using i(1) held_positive [OF w_body(2,3)] by (auto simp: inv_mutex_def split: if_splits)
    have w: "w \<noteq> WHeld" "mset (tp_tasks s) = mset ts + tasks_of w" "w = WWait \<Longrightarrow> \<not> tp_flag s"
      "w = WExit \<Longrightarrow> tp_flag s" "ts \<noteq> [] \<Longrightarrow> active w" "tp_tasks s = [] \<Longrightarrow> ts = []"
      using w_body(4) by (auto simp: round_body_def tasks_of_def active_def split: list.splits if_splits)
    have "inv_mutex s'"
      using i(1) w_body(1,3) w(1) one held_update [OF w_body(2), of w] by (auto simp: inv_mutex_def)
    moreover have "inv_tasks s'"
      using i(2) w_body(1,3) w(2) running_update [OF w_body(2), of w]
      by (simp add: inv_tasks_def tasks_of_def)
    moreover have "inv_flag s'"
      using i(3) w_body(1) w by (auto simp: inv_flag_def dest: set_update_in)
    moreover have "inv_join s'" by (rule inv_join_update [OF i(4), of j]) (simp_all add: w_body)
    moreover have "inv_wake s'"
      using w_body(1) w(5) set_update_memI [OF w_body(2), of w] by (auto simp: inv_wake_def)
    ultimately show ?thesis by (simp add: pool_inv_def)
  next
    case (w_run t)
    have "inv_mutex s'"
      using i(1) w_run held_update [OF w_run(2), of WLock] by (auto simp: inv_mutex_def)
    moreover have "inv_tasks s'"
      using i(2) w_run running_update [OF w_run(2), of WLock] by (simp add: inv_tasks_def tasks_of_def)
    moreover have "inv_flag s'" using i(3) w_run by (auto simp: inv_flag_def dest: set_update_in)
    moreover have "inv_join s'" by (rule inv_join_update [OF i(4), of j]) (simp_all add: w_run)
    moreover have "inv_wake s'"
      using w_run set_update_memI [OF w_run(2), of WLock] by (auto simp: inv_wake_def active_def)
    ultimately show ?thesis by (simp add: pool_inv_def)
  qed
qed

lemma wake_one_inv:
  assumes "inv_mutex s" "inv_tasks s" "inv_flag s" "inv_join s"
    and j: "j < length (tp_works s)" "tp_works s ! j = WWait"
    and c: "c = client s \<or> c = MIdle \<and> client s = MNotifyOne"
  shows "pool_inv (s\<lparr>client := c, tp_works := (tp_works s)[j := WLock]\<rparr>)" (is "pool_inv ?s")
proof -
  have "inv_mutex ?s"
    using assms(1) c j held_update [OF j(1), of WLock] by (auto simp: inv_mutex_def)
  moreover have "inv_tasks ?s"
    using assms(2) j running_update [OF j(1), of WLock] by (simp add: inv_tasks_def tasks_of_def)
  moreover have "inv_flag ?s" using assms(3) c by (auto simp: inv_flag_def dest: set_update_in)
  moreover have "inv_join ?s"
    using c inv_join_update [OF assms(4), of j ?s] j by (auto simp: inv_join_def)
  moreover have "inv_wake ?s"
    using set_update_memI [OF j(1), of WLock] by (auto simp: inv_wake_def active_def)
  ultimately show ?thesis by (simp add: pool_inv_def)
qed

lemma client_step_inv:
  fixes s :: "'a pool"
  assumes inv: "pool_inv s" and st: "client_step s s'"
  shows "pool_inv s'"
proof -
  have i: "inv_mutex s" "inv_tasks s" "inv_flag s" "inv_join s" "inv_wake s"
    using inv by (simp_all add: pool_inv_def)
  note defs = inv_mutex_def inv_tasks_def inv_flag_def inv_join_def inv_wake_def pool_inv_def
  from st show ?thesis
  proof cases
    case (c_notify_one j)
    then show ?thesis using wake_one_inv [OF i(1-4) c_notify_one(3,4), of MIdle] by simp
  next
    case c_notify_none
    have "\<exists>w\<in>set (tp_works s). active w" if "tp_works s \<noteq> []"
      using that c_notify_none i(3) by (cases "tp_works s") (auto simp: active_def inv_flag_def)
    then show ?thesis using i c_notify_none by (auto simp: defs)
  next
    case c_notify_all
    have "\<exists>w\<in>set (tp_works s). w \<noteq> WExit" if "tp_works s \<noteq> []"
      using that i(3) c_notify_all by (cases "tp_works s") (auto simp: inv_flag_def)
    then show ?thesis using i c_notify_all by (auto simp: defs)
  next
    case (c_lock c cs)
    then show ?thesis using i by (auto simp: defs)
  next
    case (c_add t)
    then show ?thesis using i by (auto simp: defs)
  next
    case (c_adds ts)
    then show ?thesis using i by (auto simp: defs)
  next
    case (c_poll cs)
    then show ?thesis using i by (auto simp: defs)
  next
    case c_close
    then show ?thesis using i by (auto simp: defs)
  next
    case (c_join j)
    then show ?thesis using i by (auto simp: defs less_Suc_eq)
  next
    case c_end
    then have "\<forall>w\<in>set (tp_works s). w = WExit"
      using i(4) by (auto simp: inv_join_def in_set_conv_nth)
    then have e: "replicate (length (tp_works s)) WExit = tp_works s" by (rule replicate_length_same)
    have "running (replicate k WExit) = ({#} :: 'a multiset)"
      "held_count (replicate k (WExit :: 'a worker)) = 0" for k
      by (simp_all add: running_replicate held_replicate tasks_of_def)
    then have "running (tp_works s) = {#}" "held_count (tp_works s) = 0" by (metis e)+
    then show ?thesis using i c_end by (auto simp: defs held_count_def running_def)
  qed
qed

subsection \<open>Progress\<close>

text \<open>The actions still to come, not counting wake-ups without a notification.\<close>

fun worker_work :: "'t worker \<Rightarrow> nat" where
  "worker_work WExit = 0"
| "worker_work WWait = 1"
| "worker_work WHeld = 2"
| "worker_work WLock = 3"
| "worker_work (WRun _) = 4"

definition command_work :: "nat \<Rightarrow> 't command \<Rightarrow> nat" where
  "command_work k c = (case c of AddTask _ \<Rightarrow> 3 + 2 * k + 2 | AddTasks ts \<Rightarrow> 3 * length ts + 2 * k + 2
     | PollAll \<Rightarrow> 0 | Close \<Rightarrow> 3 * k + 3)"

definition client_work :: "nat \<Rightarrow> 't client \<Rightarrow> nat" where
  "client_work k c = (case c of MIdle \<Rightarrow> 0 | MHeld d \<Rightarrow> command_work k d | MNotifyOne \<Rightarrow> 2 * k + 1
     | MNotifyAll \<Rightarrow> 2 * k + 1 | MJoin j \<Rightarrow> k + 1 - j | MEnd \<Rightarrow> 0)"

definition pool_work :: "'t pool \<Rightarrow> nat" where
  "pool_work s = (let k = length (tp_works s) in
     sum_list (map worker_work (tp_works s)) + 3 * length (tp_tasks s) + client_work k (client s) +
     sum_list (map (\<lambda>c. command_work k c + 1) (commands s)))"

lemma worker_update:
  "j < length ws \<Longrightarrow> sum_list (map worker_work (ws[j := w])) + worker_work (ws ! j) =
    sum_list (map worker_work ws) + worker_work w"
proof (erule update_split)
  fix xs ys assume "ws = xs @ ws ! j # ys" "\<And>w. ws[j := w] = xs @ w # ys"
  then have "map worker_work (ws[j := w]) = map worker_work (xs @ w # ys)"
    "map worker_work ws = map worker_work (xs @ ws ! j # ys)" by simp_all
  then show "sum_list (map worker_work (ws[j := w])) + worker_work (ws ! j) =
      sum_list (map worker_work ws) + worker_work w"
    by (simp only:) simp
qed

lemma wake_work: "sum_list (map worker_work (map wake ws)) \<le> sum_list (map worker_work ws) + 2 * length ws"
proof (induction ws)
  case (Cons w ws)
  then show ?case by (cases w) simp_all
qed simp

definition good_step :: "'t pool \<Rightarrow> 't pool \<Rightarrow> bool" where
  "good_step s s' \<longleftrightarrow> pool_step s s' \<and> pool_work s' < pool_work s"

lemma work_step_good:
  assumes "work_step j s s'"
  shows "good_step s s'"
  unfolding good_step_def
proof
  show "pool_step s s'" by (rule p_work [OF assms])
  from assms show "pool_work s' < pool_work s"
  proof cases
    case w_lock
    then show ?thesis using worker_update [OF w_lock(2), of WHeld]
      by (simp add: pool_work_def Let_def)
  next
    case (w_body w ts)
    have "worker_work w + 3 * length ts < 2 + 3 * length (tp_tasks s)"
      using w_body(4) by (auto simp: round_body_def split: list.splits if_splits)
    then show ?thesis using worker_update [OF w_body(2), of w] w_body
      by (simp add: pool_work_def Let_def)
  next
    case (w_run t)
    then show ?thesis using worker_update [OF w_run(2), of WLock]
      by (simp add: pool_work_def Let_def)
  qed
qed

lemma client_step_good:
  fixes s :: "'a pool"
  assumes "client_step s s'"
  shows "good_step s s'"
  unfolding good_step_def
proof
  show "pool_step s s'" by (rule p_client [OF assms])
  note defs = pool_work_def client_work_def command_work_def Let_def
  from assms show "pool_work s' < pool_work s"
  proof cases
    case (c_notify_one j)
    then have "0 < length (tp_works s)" by (cases "tp_works s") auto
    then show ?thesis using c_notify_one worker_update [OF c_notify_one(3), of WLock]
      by (simp add: defs)
  next
    case c_notify_all
    then show ?thesis using wake_work [of "tp_works s"] by (simp add: defs del: map_map)
  next
    case c_close
    then show ?thesis using wake_work [of "tp_works s"] by (simp add: defs del: map_map)
  next
    case c_end
    have "sum_list (map (\<lambda>c. command_work 0 c + 1) cs) \<le> sum_list (map (\<lambda>c. command_work k c + 1) cs)"
      for k and cs :: "'a command list"
      by (rule sum_list_mono) (simp add: command_work_def split: command.split)
    from this [of "commands s" "length (tp_works s)"] show ?thesis
      using c_end by (simp add: pool_work_def client_work_def Let_def)
  qed (simp_all add: defs)
qed

text \<open>A worker that is neither blocked nor ended can act, unless it waits for a held mutex.\<close>

lemma worker_acts:
  assumes "j < length (tp_works s)" "active (tp_works s ! j)" "tp_mutex s = Free \<or> tp_works s ! j \<noteq> WLock"
  shows "\<exists>s'. work_step j s s'"
proof (cases "tp_works s ! j")
  case WLock
  then show ?thesis using assms w_lock by blast
next
  case WHeld
  obtain w ts where "round_body s = (w, ts)" by (cases "round_body s")
  then show ?thesis using w_body [OF assms(1) WHeld] by blast
next
  case (WRun t)
  then show ?thesis using w_run [OF assms(1)] by blast
qed (use assms in \<open>simp_all add: active_def\<close>)

lemma held_exists: "0 < held_count ws \<Longrightarrow> \<exists>j<length ws. ws ! j = WHeld"
  by (auto simp: held_count_def filter_empty_conv in_set_conv_nth)

lemma running_exists: "running ws \<noteq> {#} \<Longrightarrow> \<exists>j<length ws. \<exists>t. ws ! j = WRun t"
proof (induction ws)
  case (Cons w ws)
  then show ?case by (cases w) (force simp: running_def tasks_of_def)+
qed (simp add: running_def)

lemma free_worker_acts:
  assumes "w \<in> set (tp_works s)" "active w" "tp_mutex s = Free"
  shows "\<exists>s'. good_step s s'"
proof -
  obtain j where "j < length (tp_works s)" "tp_works s ! j = w"
    using assms(1) by (auto simp: in_set_conv_nth)
  then show ?thesis using worker_acts [of j s] work_step_good assms(2,3) by blast
qed

lemma good_step_exists:
  assumes inv: "pool_inv s" and ne: "tp_works s \<noteq> []"
  shows "\<exists>s'. good_step s s'"
proof -
  have i: "inv_mutex s" "inv_tasks s" "inv_flag s" "inv_join s" "inv_wake s"
    using inv by (simp_all add: pool_inv_def)
  have client: "\<exists>s'. good_step s s'" if "client_step s s'" for s'
    using client_step_good [OF that] by blast
  consider (w) "tp_mutex s = ByWorker" | (c) "tp_mutex s = ByClient" | (f) "tp_mutex s = Free"
    by (cases "tp_mutex s")
  then show ?thesis
  proof cases
    case w
    then obtain j where "j < length (tp_works s)" "tp_works s ! j = WHeld"
      using i(1) held_exists [of "tp_works s"] by (auto simp: inv_mutex_def)
    then show ?thesis using worker_acts [of j s] work_step_good by (auto simp: active_def)
  next
    case c
    then obtain d where "client s = MHeld d" "d \<noteq> PollAll" using i(1) by (auto simp: inv_mutex_def)
    then show ?thesis by (cases d) (blast intro: client c_add c_adds c_close)+
  next
    case f
    show ?thesis
    proof (cases "client s")
      case (MHeld d)
      then show ?thesis using i(1) f by (auto simp: inv_mutex_def)
    next
      case MNotifyOne
      show ?thesis
      proof (cases "WWait \<in> set (tp_works s)")
        case True
        then obtain j where "j < length (tp_works s)" "tp_works s ! j = WWait"
          by (auto simp: in_set_conv_nth)
        then show ?thesis using client c_notify_one [OF MNotifyOne] by blast
      next
        case False
        then show ?thesis using client c_notify_none [OF MNotifyOne] by blast
      qed
    next
      case MNotifyAll
      then show ?thesis using client c_notify_all by blast
    next
      case (MJoin j)
      then have j: "j \<le> length (tp_works s)" using i(4) by (simp add: inv_join_def)
      show ?thesis
      proof (cases "j = length (tp_works s)")
        case True
        then show ?thesis using client c_end MJoin by blast
      next
        case False
        then have lt: "j < length (tp_works s)" using j by simp
        have "WWait \<notin> set (tp_works s)" using i(3) MJoin by (auto simp: inv_flag_def)
        then have "tp_works s ! j \<noteq> WWait" using nth_mem [OF lt] by metis
        show ?thesis
        proof (cases "tp_works s ! j = WExit")
          case True
          then show ?thesis using client c_join [OF MJoin lt] by blast
        next
          case False
          then have "active (tp_works s ! j)"
            using \<open>tp_works s ! j \<noteq> WWait\<close> by (simp add: active_def)
          then show ?thesis using worker_acts [OF lt _ disjI1 [OF f]] work_step_good by blast
        qed
      qed
    next
      case MEnd
      then show ?thesis using i(4) ne by (simp add: inv_join_def)
    next
      case MIdle
      then have nf: "\<not> tp_flag s" and "commands s \<noteq> []" using i(3) by (auto simp: inv_flag_def)
      then obtain d cs where cmd: "commands s = d # cs" by (cases "commands s") auto
      show ?thesis
      proof (cases "d = PollAll")
        case False
        then show ?thesis using client c_lock [OF MIdle cmd _ f] by blast
      next
        case True
        show ?thesis
        proof (cases "added s = completed s")
          case eq: True
          then show ?thesis using client c_poll [OF MIdle] cmd True by blast
        next
          case False
          then have "tp_tasks s \<noteq> [] \<or> running (tp_works s) \<noteq> {#}"
            using i(2,3) nf by (auto simp: inv_tasks_def inv_flag_def)
          then obtain w where "w \<in> set (tp_works s)" "active w"
          proof
            assume "tp_tasks s \<noteq> []"
            then show thesis using i(5) MIdle ne that by (auto simp: inv_wake_def)
          next
            assume "running (tp_works s) \<noteq> {#}"
            then obtain j t where "j < length (tp_works s)" "tp_works s ! j = WRun t"
              using running_exists by blast
            then show thesis using that [of "WRun t"] nth_mem [of j "tp_works s"] by (simp add: active_def)
          qed
          then show ?thesis using free_worker_acts f by blast
        qed
      qed
    qed
  qed
qed

lemma pool_inv_step:
  assumes "pool_inv s" "pool_step s s'"
  shows "pool_inv s'"
  using assms(2)
proof cases
  case (p_work j)
  then show ?thesis using work_step_inv assms(1) by blast
next
  case p_client
  then show ?thesis using client_step_inv assms(1) by blast
next
  case (p_spurious j)
  then show ?thesis
    using wake_one_inv [of s j "client s"] assms(1) by (simp add: pool_inv_def)
qed

lemma pool_inv_reachable:
  assumes "pool_reachable (pool_new hw n cmds) s" "Close \<in> set cmds"
  shows "pool_inv s"
  using assms(1)
  by induction (blast intro: pool_inv_start [OF assms(2)] pool_inv_step)+

lemma pool_reachable_trans: "pool_reachable s t \<Longrightarrow> pool_step r s \<Longrightarrow> pool_reachable r t"
  by (induction rule: pool_reachable.induct) (auto intro: pool_reachable.intros)

text \<open>The work counts down to the state in which the client has joined and released all
  workers.\<close>

lemma pool_can_finish:
  assumes "pool_inv s"
  shows "\<exists>t. pool_reachable s t \<and> pool_inv t \<and> tp_works t = []"
  using assms
proof (induction "pool_work s" arbitrary: s rule: less_induct)
  case less
  show ?case
  proof (cases "tp_works s = []")
    case True
    then show ?thesis using pool_start less.prems by blast
  next
    case False
    then obtain s' where s': "pool_step s s'" "pool_work s' < pool_work s"
      using good_step_exists [OF less.prems] by (auto simp: good_step_def)
    then obtain t where "pool_reachable s' t" "pool_inv t" "tp_works t = []"
      using less.hyps [OF s'(2) pool_inv_step [OF less.prems s'(1)]] by blast
    then show ?thesis using pool_reachable_trans [OF _ s'(1)] by blast
  qed
qed

lemma pool_workers:
  assumes "pool_reachable (pool_new hw n cmds) s"
  shows "length (tp_works s) = length (tp_works (pool_new hw n cmds)) \<or> client s = MEnd"
  using assms
proof induction
  case (pool_more s s')
  then show ?case
    by (auto elim!: pool_stepE work_stepE client_stepE)
qed simp

subsection \<open>The client main\<close>

text \<open>The commands of \<open>main\<close>: one \<open>addTask\<close> per task, then the polling loop, then the
  destructor of the pool.\<close>

definition main_commands :: "'t list \<Rightarrow> 't command list" where
  "main_commands ts = map AddTask ts @ [PollAll, Close]"

definition command_tasks :: "'t command \<Rightarrow> 't multiset" where
  "command_tasks c = (case c of AddTask t \<Rightarrow> {#t#} | AddTasks ts \<Rightarrow> mset ts | _ \<Rightarrow> {#})"

definition pending :: "'t pool \<Rightarrow> 't multiset" where
  "pending s = sum_list (map command_tasks (commands s)) +
     (case client s of MHeld c \<Rightarrow> command_tasks c | _ \<Rightarrow> {#})"

definition main_inv :: "'t list \<Rightarrow> 't pool \<Rightarrow> bool" where
  "main_inv ts s \<longleftrightarrow> pool_inv s \<and> added s + pending s = mset ts \<and>
     (\<exists>n. commands s = drop n (main_commands ts)) \<and>
     (commands s = [] \<or> commands s = [Close] \<longrightarrow> added s = completed s \<and> pending s = {#} \<and>
        client s \<noteq> MNotifyOne \<and> client s \<noteq> MNotifyAll \<and> dropped s = {#}) \<and>
     (commands s = [] \<longrightarrow> client s \<noteq> MIdle) \<and>
     (client s = MHeld Close \<or> client s = MEnd \<or> (\<exists>j. client s = MJoin j) \<longrightarrow> commands s = []) \<and>
     (\<forall>ts. client s \<noteq> MHeld (AddTasks ts))"

lemma main_commands_drop:
  assumes "drop n (main_commands ts) = c # cs"
  shows "(\<exists>t. c = AddTask t \<and> cs \<noteq> [] \<and> cs \<noteq> [Close]) \<or> c = PollAll \<and> cs = [Close] \<or> c = Close \<and> cs = []"
proof -
  consider "n < length ts" | "n = length ts" | "n = Suc (length ts)" | "Suc (length ts) < n" by linarith
  then show ?thesis
  proof cases
    case 1
    then obtain t us where "drop n ts = t # us" by (metis Cons_nth_drop_Suc)
    then have "drop n (main_commands ts) = AddTask t # map AddTask us @ [PollAll, Close]"
      using 1 by (simp add: main_commands_def drop_map)
    then show ?thesis using assms by (cases us) auto
  next
    case 4
    then have "drop n (main_commands ts) = []" by (simp add: main_commands_def)
    then show ?thesis using assms by simp
  qed (use assms in \<open>simp_all add: main_commands_def\<close>)
qed

lemma drop_tail: "xs = drop n ys \<Longrightarrow> xs = x # zs \<Longrightarrow> \<exists>m. zs = drop m ys"
  by (metis drop_Suc list.sel(3) tl_drop)

lemma running_in: "j < length ws \<Longrightarrow> ws ! j = WRun t \<Longrightarrow> running ws \<noteq> {#}"
  using running_update [of j ws WLock] by (auto simp: tasks_of_def)

lemma main_inv_step:
  assumes inv: "main_inv ts s" and st: "pool_step s s'"
  shows "main_inv ts s'"
proof -
  have p: "pool_inv s'" by (rule pool_inv_step [OF _ st]) (use inv in \<open>simp add: main_inv_def\<close>)
  have i: "added s + pending s = mset ts" "\<exists>n. commands s = drop n (main_commands ts)"
    "commands s = [] \<or> commands s = [Close] \<Longrightarrow> added s = completed s \<and> pending s = {#} \<and>
        client s \<noteq> MNotifyOne \<and> client s \<noteq> MNotifyAll \<and> dropped s = {#}"
    "commands s = [] \<Longrightarrow> client s \<noteq> MIdle"
    "client s = MHeld Close \<or> client s = MEnd \<or> (\<exists>j. client s = MJoin j) \<Longrightarrow> commands s = []"
    "\<forall>ts. client s \<noteq> MHeld (AddTasks ts)"
    using inv by (simp_all add: main_inv_def)
  have cons: "added s = mset (tp_tasks s) + running (tp_works s) + completed s + dropped s"
    using inv by (simp add: main_inv_def pool_inv_def inv_tasks_def)
  from st show ?thesis
  proof cases
    case (p_work j)
    then show ?thesis
    proof cases
      case (w_run t)
      have "\<not> (commands s = [] \<or> commands s = [Close])"
        using i(3) cons running_in [OF w_run(2,3)] by auto
      then show ?thesis using w_run p i by (auto simp: main_inv_def pending_def)
    qed (use p i in \<open>auto simp: main_inv_def pending_def\<close>)
  next
    case (p_spurious j)
    then show ?thesis using p i by (auto simp: main_inv_def pending_def)
  next
    case p_client
    then show ?thesis
    proof cases
      case (c_lock c cs)
      obtain n where n: "drop n (main_commands ts) = c # cs" using i(2) c_lock by metis
      have "\<exists>m. cs = drop m (main_commands ts)" using drop_tail [OF n [symmetric]] by blast
      then show ?thesis
        using main_commands_drop [OF n] c_lock p i by (auto simp: main_inv_def pending_def ac_simps)
    next
      case (c_poll cs)
      obtain n where n: "drop n (main_commands ts) = PollAll # cs" using i(2) c_poll by metis
      have "\<exists>m. cs = drop m (main_commands ts)" using drop_tail [OF n [symmetric]] by blast
      moreover have "dropped s = {#}"
        using inv c_poll by (auto simp: main_inv_def pool_inv_def inv_flag_def)
      ultimately show ?thesis
        using main_commands_drop [OF n] c_poll p i
        by (auto simp: main_inv_def pending_def command_tasks_def)
    next
      case c_close
      then have "tp_tasks s = []" using i(3,5) cons by auto
      then show ?thesis using c_close p i by (auto simp: main_inv_def pending_def command_tasks_def)
    next
      case (c_add t)
      have "\<not> (commands s = [] \<or> commands s = [Close])"
        using i(3) c_add by (auto simp: pending_def command_tasks_def)
      then show ?thesis using c_add p i by (auto simp: main_inv_def pending_def command_tasks_def)
    qed (use p i in \<open>auto simp: main_inv_def pending_def command_tasks_def\<close>)
  qed
qed

lemma main_inv_start: "main_inv ts (pool_new hw n (main_commands ts))"
proof -
  have "pool_inv (pool_new hw n (main_commands ts))"
    by (rule pool_inv_start) (simp add: main_commands_def)
  moreover have "sum_list (map command_tasks (main_commands ts)) = mset ts"
    by (induction ts) (simp_all add: main_commands_def command_tasks_def)
  ultimately show ?thesis
    by (auto simp: main_inv_def pending_def pool_new_def main_commands_def append_eq_Cons_conv
        intro!: exI [of _ 0])
qed

lemma main_inv_reachable:
  "pool_reachable (pool_new hw n (main_commands ts)) s \<Longrightarrow> main_inv ts s"
  by (induction rule: pool_reachable.induct) (blast intro: main_inv_start main_inv_step)+

subsection \<open>Properties of the pool\<close>

text \<open>Whatever the client adds and however the threads interleave, every added task is exactly
  once in the queue, in a worker, completed or dropped by \<open>close\<close>; nothing is dropped before
  \<open>close\<close>, and queued tasks always have a worker that is up or about to be notified.\<close>

theorem pool_keeps_every_task:
  assumes "pool_reachable (pool_new hw n cmds) s" "Close \<in> set cmds"
  shows "added s = mset (tp_tasks s) + running (tp_works s) + completed s + dropped s \<and>
    (\<not> tp_flag s \<longrightarrow> dropped s = {#}) \<and>
    (tp_tasks s = [] \<or> tp_works s = [] \<or> client s = MNotifyOne \<or> client s = MNotifyAll \<or>
      (\<exists>w\<in>set (tp_works s). active w))"
  using pool_inv_reachable [OF assms]
  by (auto simp: pool_inv_def inv_tasks_def inv_flag_def inv_wake_def)


theorem pool_keeps_every_task_witness:
  "\<exists>s. pool_reachable (pool_new 4 2 [AddTask (7 :: nat), Close]) s \<and>
    added s = mset (tp_tasks s) + running (tp_works s) + completed s + dropped s"
  using pool_keeps_every_task [OF pool_start, of "[AddTask (7 :: nat), Close]" 4 2] pool_start by fastforce


end
