(* ===== verification/ByteStore.thy ===== *)
theory ByteStore
  imports Prelude
begin

text \<open>
  The byte buffer \<open>CMByteArray\<close> of base/CMByteArray.cpp: an object holds a
  \<open>shared_ptr<char>\<close> to a block, a size and a capacity, and copies share the block until one of
  them is written (\<open>shared_ptr::unique\<close>).  The state is the list of the objects made so far
  (\<open>None\<close> once destroyed) and the blocks alive; a block is released when the last object
  pointing to it lets go, so that a pointer kept across a release is seen to dangle.

  The copies of the class in TCPServer/ and kv_store/ differ in \<open>insertElement\<close>,
  \<open>resetBuffer\<close> and one constructor (theory ByteArrays); the members below take the insertion
  routine as the argument \<open>ie\<close> and whether \<open>new char[n] {0}\<close> (rather than
  \<open>new char[n]()\<close>) makes the block as \<open>braced\<close>: with an initialiser for one element it
  throws \<open>std::bad_array_new_length\<close> when \<open>n\<close> is 0.  Blocks of a size that fits the
  address space are assumed to be available.
\<close>

record cmba =
  cm_data :: "nat option"
  cm_size :: usize
  cm_capacity :: usize

record bstore =
  cm_objs :: "cmba option list"
  cm_bufs :: "nat \<Rightarrow> byte list option"
  cm_next :: nat

definition empty_store :: bstore where
  "empty_store = \<lparr>cm_objs = [], cm_bufs = (\<lambda>_. None), cm_next = 0\<rparr>"

subsection \<open>Pointers and memory\<close>

text \<open>A \<open>const char*\<close>: null, into a region of the caller's (from the pointer on), or into a
  block at an offset.\<close>

datatype pointer = NullP | Ext "byte list" | Buf nat nat

definition padd :: "pointer \<Rightarrow> usize \<Rightarrow> pointer" where
  "padd p k = (case p of NullP \<Rightarrow> NullP | Ext bs \<Rightarrow> Ext (drop (unat k) bs) | Buf b off \<Rightarrow> Buf b (off + unat k))"

definition read_ptr :: "bstore \<Rightarrow> pointer \<Rightarrow> nat \<Rightarrow> byte list option" where
  "read_ptr s p n =
     (if n = 0 then Some []
      else case p of NullP \<Rightarrow> None
        | Ext bs \<Rightarrow> (if n \<le> length bs then Some (take n bs) else None)
        | Buf b off \<Rightarrow> (case cm_bufs s b of None \<Rightarrow> None
            | Some m \<Rightarrow> if off + n \<le> length m then Some (take n (drop off m)) else None))"

definition overwrite :: "nat \<Rightarrow> 'a list \<Rightarrow> 'a list \<Rightarrow> 'a list" where
  "overwrite off bs m = take off m @ bs @ drop (off + length bs) m"

definition write_ptr :: "bstore \<Rightarrow> pointer \<Rightarrow> byte list \<Rightarrow> bstore option" where
  "write_ptr s p bs =
     (if bs = [] then Some s
      else case p of
          Buf b off \<Rightarrow> (case cm_bufs s b of None \<Rightarrow> None
            | Some m \<Rightarrow> if off + length bs \<le> length m
                then Some (s\<lparr>cm_bufs := (cm_bufs s)(b \<mapsto> overwrite off bs m)\<rparr>) else None)
        | _ \<Rightarrow> None)"

definition overlaps :: "pointer \<Rightarrow> pointer \<Rightarrow> nat \<Rightarrow> bool" where
  "overlaps p q n = (case (p, q) of
     (Buf b i, Buf c j) \<Rightarrow> b = c \<and> i < j + n \<and> j < i + n | _ \<Rightarrow> False)"

text \<open>\<open>memcpy\<close>: undefined on regions that overlap.\<close>

definition byte_memcpy :: "bstore \<Rightarrow> pointer \<Rightarrow> pointer \<Rightarrow> nat \<Rightarrow> bstore option" where
  "byte_memcpy s dest src n = do {
     bs \<leftarrow> read_ptr s src n;
     if n \<noteq> 0 \<and> overlaps dest src n then None else write_ptr s dest bs
   }"

definition byte_memset0 :: "bstore \<Rightarrow> pointer \<Rightarrow> nat \<Rightarrow> bstore option" where
  "byte_memset0 s dest n = write_ptr s dest (replicate n 0)"

text \<open>\<open>strlen\<close> of a pointer into the caller's memory: without a terminating 0 it runs off the
  region.\<close>

definition strlen :: "byte list \<Rightarrow> usize option" where
  "strlen str = (if 0 \<in> set str then Some (of_nat (length (takeWhile (\<lambda>c. c \<noteq> 0) str))) else None)"

subsection \<open>Objects and their shared blocks\<close>

definition get_obj :: "bstore \<Rightarrow> nat \<Rightarrow> cmba option" where
  "get_obj s i = (if i < length (cm_objs s) then cm_objs s ! i else None)"

definition points_to :: "nat \<Rightarrow> cmba option \<Rightarrow> bool" where
  "points_to b x = (case x of None \<Rightarrow> False | Some ob \<Rightarrow> cm_data ob = Some b)"

definition use_count :: "bstore \<Rightarrow> nat \<Rightarrow> nat" where
  "use_count s b = length (filter (points_to b) (cm_objs s))"

definition unique :: "bstore \<Rightarrow> cmba \<Rightarrow> bool" where
  "unique s ob = (case cm_data ob of None \<Rightarrow> False | Some b \<Rightarrow> use_count s b = 1)"

definition release :: "bstore \<Rightarrow> nat option \<Rightarrow> bstore" where
  "release s p = (case p of None \<Rightarrow> s
     | Some b \<Rightarrow> if use_count s b = 0 then s\<lparr>cm_bufs := (cm_bufs s)(b := None)\<rparr> else s)"

text \<open>Replace the object \<open>i\<close>; the block it pointed to is released if nobody else points to
  it.\<close>

definition set_obj :: "bstore \<Rightarrow> nat \<Rightarrow> cmba option \<Rightarrow> bstore" where
  "set_obj s i x = release (s\<lparr>cm_objs := (cm_objs s)[i := x]\<rparr>) (Option.bind (get_obj s i) cm_data)"

definition data_ptr :: "cmba \<Rightarrow> pointer" where
  "data_ptr ob = (case cm_data ob of None \<Rightarrow> NullP | Some b \<Rightarrow> Buf b 0)"

definition resetBuffer :: "bool \<Rightarrow> bstore \<Rightarrow> nat \<Rightarrow> bstore outcome" where
  "resetBuffer braced s i = bind_outcome (lift (get_obj s i)) (\<lambda>ob.
     if braced \<and> cm_capacity ob = 0 then Some (Inl BadAlloc)
     else lift (do {
       let b = cm_next s;
       let s = s\<lparr>cm_bufs := (cm_bufs s)(b \<mapsto> replicate (unat (cm_capacity ob)) 0), cm_next := Suc b\<rparr>;
       s \<leftarrow> byte_memcpy s (Buf b 0) (data_ptr ob) (unat (cm_size ob));
       Some (set_obj s i (Some (ob\<lparr>cm_data := Some b\<rparr>)))
     }))"

subsection \<open>Constructors, assignment, destructor\<close>

text \<open>A constructor adds an object; its members are the initialisers of the source.\<close>

definition add_obj :: "bstore \<Rightarrow> cmba \<Rightarrow> nat \<times> bstore" where
  "add_obj s ob = (length (cm_objs s), s\<lparr>cm_objs := cm_objs s @ [Some ob]\<rparr>)"

definition defInitcapacity :: usize where
  "defInitcapacity = 1024"

definition ba_new :: "bool \<Rightarrow> bstore \<Rightarrow> (nat \<times> bstore) outcome" where
  "ba_new braced s = noexcept (
     let (i, s) = add_obj s \<lparr>cm_data = None, cm_size = 0, cm_capacity = defInitcapacity\<rparr>
     in bind_outcome (resetBuffer braced s i) (\<lambda>s. Some (Inr (i, s))))"

definition ba_from_cstr ::
    "bool \<Rightarrow> (bstore \<Rightarrow> nat \<Rightarrow> usize \<Rightarrow> pointer \<Rightarrow> usize \<Rightarrow> bstore outcome) \<Rightarrow> bstore \<Rightarrow> byte list \<Rightarrow>
     (nat \<times> bstore) outcome" where
  "ba_from_cstr braced ie s str = noexcept (bind_outcome (lift (strlen str)) (\<lambda>size.
     let (i, s) = add_obj s \<lparr>cm_data = None, cm_size = 0, cm_capacity = size\<rparr>
     in bind_outcome (resetBuffer braced s i) (\<lambda>s.
        bind_outcome (ie s i 0 (Ext str) size) (\<lambda>s. Some (Inr (i, s))))))"

definition ba_with_capacity :: "bool \<Rightarrow> bstore \<Rightarrow> usize \<Rightarrow> (nat \<times> bstore) outcome" where
  "ba_with_capacity braced s capacity = noexcept (
     let (i, s) = add_obj s \<lparr>cm_data = None, cm_size = 0, cm_capacity = capacity\<rparr>
     in bind_outcome (resetBuffer braced s i) (\<lambda>s. Some (Inr (i, s))))"

text \<open>\<open>CMByteArray(const char*, size_t)\<close> of base/ and TCPServer/: \<open>_size\<close> is set before
  the block exists.\<close>

definition ba_from_bytes ::
    "bool \<Rightarrow> (bstore \<Rightarrow> nat \<Rightarrow> usize \<Rightarrow> pointer \<Rightarrow> usize \<Rightarrow> bstore outcome) \<Rightarrow> bstore \<Rightarrow> pointer \<Rightarrow>
     usize \<Rightarrow> (nat \<times> bstore) outcome" where
  "ba_from_bytes braced ie s str len = noexcept (
     let (i, s) = add_obj s \<lparr>cm_data = None, cm_size = len, cm_capacity = len\<rparr>
     in bind_outcome (resetBuffer braced s i) (\<lambda>s.
        bind_outcome (ie s i 0 str len) (\<lambda>s. Some (Inr (i, s)))))"

definition ba_copy :: "bstore \<Rightarrow> nat \<Rightarrow> (nat \<times> bstore) option" where
  "ba_copy s other = do { ob \<leftarrow> get_obj s other; Some (add_obj s ob) }"

definition ba_move :: "bstore \<Rightarrow> nat \<Rightarrow> (nat \<times> bstore) option" where
  "ba_move s other = do {
     ob \<leftarrow> get_obj s other;
     let (i, s) = add_obj s ob;
     Some (i, set_obj s other (Some \<lparr>cm_data = None, cm_size = 0, cm_capacity = 0\<rparr>))
   }"

definition ba_assign :: "bstore \<Rightarrow> nat \<Rightarrow> nat \<Rightarrow> bstore option" where
  "ba_assign s i other = do {
     _ \<leftarrow> get_obj s i;
     ob \<leftarrow> get_obj s other;
     Some (set_obj s i (Some ob))
   }"

definition ba_move_assign :: "bstore \<Rightarrow> nat \<Rightarrow> nat \<Rightarrow> bstore option" where
  "ba_move_assign s i other = do {
     _ \<leftarrow> get_obj s i;
     ob \<leftarrow> get_obj s other;
     let s = set_obj s i (Some ob);
     Some (set_obj s other (Some \<lparr>cm_data = None, cm_size = 0, cm_capacity = 0\<rparr>))
   }"

definition ba_destroy :: "bstore \<Rightarrow> nat \<Rightarrow> bstore option" where
  "ba_destroy s i = do { _ \<leftarrow> get_obj s i; Some (set_obj s i None) }"

subsection \<open>The other members\<close>

definition ba_size :: "bstore \<Rightarrow> nat \<Rightarrow> usize option" where
  "ba_size s i = map_option cm_size (get_obj s i)"

definition ba_capacity :: "bstore \<Rightarrow> nat \<Rightarrow> usize option" where
  "ba_capacity s i = map_option cm_capacity (get_obj s i)"

definition ba_isEmpty :: "bstore \<Rightarrow> nat \<Rightarrow> bool option" where
  "ba_isEmpty s i = map_option (\<lambda>ob. cm_size ob = 0) (get_obj s i)"

definition ba_data :: "bstore \<Rightarrow> nat \<Rightarrow> pointer option" where
  "ba_data s i = map_option data_ptr (get_obj s i)"

type_synonym inserter = "bstore \<Rightarrow> nat \<Rightarrow> usize \<Rightarrow> pointer \<Rightarrow> usize \<Rightarrow> bstore outcome"

definition ba_append_cstr :: "inserter \<Rightarrow> bstore \<Rightarrow> nat \<Rightarrow> byte list \<Rightarrow> bstore outcome" where
  "ba_append_cstr ie s i str = bind_outcome (lift (get_obj s i)) (\<lambda>ob.
     bind_outcome (lift (strlen str)) (\<lambda>n. ie s i (cm_size ob) (Ext str) n))"

definition ba_append_bytes :: "inserter \<Rightarrow> bstore \<Rightarrow> nat \<Rightarrow> pointer \<Rightarrow> usize \<Rightarrow> bstore outcome" where
  "ba_append_bytes ie s i byte len = bind_outcome (lift (get_obj s i)) (\<lambda>ob.
     ie s i (cm_size ob) byte len)"

definition ba_append :: "inserter \<Rightarrow> bstore \<Rightarrow> nat \<Rightarrow> nat \<Rightarrow> bstore outcome" where
  "ba_append ie s i str = bind_outcome (lift (get_obj s i)) (\<lambda>ob.
     bind_outcome (lift (get_obj s str)) (\<lambda>so. ie s i (cm_size ob) (data_ptr so) (cm_size so)))"

definition ba_insert_bytes :: "inserter \<Rightarrow> bstore \<Rightarrow> nat \<Rightarrow> usize \<Rightarrow> pointer \<Rightarrow> usize \<Rightarrow> bstore outcome" where
  "ba_insert_bytes ie s i pos byte len = ie s i pos byte len"

definition ba_insert_cstr :: "inserter \<Rightarrow> bstore \<Rightarrow> nat \<Rightarrow> usize \<Rightarrow> byte list \<Rightarrow> bstore outcome" where
  "ba_insert_cstr ie s i pos str = bind_outcome (lift (strlen str)) (\<lambda>n. ie s i pos (Ext str) n)"

definition ba_insert :: "inserter \<Rightarrow> bstore \<Rightarrow> nat \<Rightarrow> usize \<Rightarrow> nat \<Rightarrow> bstore outcome" where
  "ba_insert ie s i pos str = bind_outcome (lift (get_obj s str)) (\<lambda>so.
     ie s i pos (data_ptr so) (cm_size so))"

definition ba_prepend_cstr :: "inserter \<Rightarrow> bstore \<Rightarrow> nat \<Rightarrow> byte list \<Rightarrow> bstore outcome" where
  "ba_prepend_cstr ie s i str = bind_outcome (lift (strlen str)) (\<lambda>n. ie s i 0 (Ext str) n)"

definition ba_prepend_bytes :: "inserter \<Rightarrow> bstore \<Rightarrow> nat \<Rightarrow> pointer \<Rightarrow> usize \<Rightarrow> bstore outcome" where
  "ba_prepend_bytes ie s i byte len = ie s i 0 byte len"

definition ba_prepend :: "inserter \<Rightarrow> bstore \<Rightarrow> nat \<Rightarrow> nat \<Rightarrow> bstore outcome" where
  "ba_prepend ie s i str = bind_outcome (lift (get_obj s str)) (\<lambda>so.
     ie s i 0 (data_ptr so) (cm_size so))"

text \<open>\<open>reomveElement\<close>, reached by \<open>remove(pos, len)\<close>; the default of \<open>len\<close> is
  \<open>-1\<close>.\<close>

definition reomveElement :: "bool \<Rightarrow> bstore \<Rightarrow> nat \<Rightarrow> usize \<Rightarrow> usize \<Rightarrow> bstore outcome" where
  "reomveElement braced s i pos len = bind_outcome (lift (get_obj s i)) (\<lambda>ob.
     if cm_size ob < pos then Some (Inl OutOfRange)
     else bind_outcome (if unique s ob then Some (Inr s) else resetBuffer braced s i) (\<lambda>s.
       bind_outcome (lift (get_obj s i)) (\<lambda>ob. lift (do {
         let len = (if cm_size ob - pos < len then cm_size ob - pos else len);
         let moveSize = cm_size ob - pos - len;
         let p = data_ptr ob;
         s \<leftarrow> byte_memcpy s (padd p pos) (padd (padd p pos) len) (unat moveSize);
         let ob = ob\<lparr>cm_size := cm_size ob - len\<rparr>;
         s \<leftarrow> byte_memset0 s (padd p (cm_size ob)) (unat (cm_capacity ob - cm_size ob));
         Some (set_obj s i (Some ob))
       }))))"

definition ba_remove :: "bool \<Rightarrow> bstore \<Rightarrow> nat \<Rightarrow> usize \<Rightarrow> usize \<Rightarrow> bstore outcome" where
  "ba_remove braced s i pos len = reomveElement braced s i pos len"

definition ba_detach :: "bool \<Rightarrow> bstore \<Rightarrow> nat \<Rightarrow> bstore outcome" where
  "ba_detach braced s i = bind_outcome (lift (get_obj s i)) (\<lambda>ob.
     if unique s ob then Some (Inr s) else resetBuffer braced s i)"

definition ba_clear :: "bool \<Rightarrow> bstore \<Rightarrow> nat \<Rightarrow> bstore outcome" where
  "ba_clear braced s i = bind_outcome (lift (get_obj s i)) (\<lambda>ob.
     resetBuffer braced (set_obj s i (Some (ob\<lparr>cm_size := 0, cm_capacity := defInitcapacity\<rparr>))) i)"

definition ba_reserve :: "bool \<Rightarrow> bstore \<Rightarrow> nat \<Rightarrow> usize \<Rightarrow> bstore outcome" where
  "ba_reserve braced s i n = bind_outcome (lift (get_obj s i)) (\<lambda>ob.
     resetBuffer braced (set_obj s i (Some (ob\<lparr>cm_capacity := n, cm_size := 0\<rparr>))) i)"

definition ba_squeeze :: "bool \<Rightarrow> bstore \<Rightarrow> nat \<Rightarrow> bstore outcome" where
  "ba_squeeze braced s i = bind_outcome (lift (get_obj s i)) (\<lambda>ob.
     resetBuffer braced (set_obj s i (Some (ob\<lparr>cm_capacity := cm_size ob\<rparr>))) i)"

definition ba_at :: "bstore \<Rightarrow> nat \<Rightarrow> usize \<Rightarrow> byte outcome" where
  "ba_at s i pos = bind_outcome (lift (get_obj s i)) (\<lambda>ob.
     if \<not> pos < cm_size ob then Some (Inl OutOfRange)
     else lift (map_option hd (read_ptr s (padd (data_ptr ob) pos) 1)))"

definition ba_front :: "bstore \<Rightarrow> nat \<Rightarrow> byte outcome" where
  "ba_front s i = ba_at s i 0"

definition ba_back :: "bstore \<Rightarrow> nat \<Rightarrow> byte outcome" where
  "ba_back s i = bind_outcome (lift (get_obj s i)) (\<lambda>ob. ba_at s i (cm_size ob - 1))"

text \<open>\<open>operator[]\<close> hands out a reference; \<open>ba_store\<close> is an assignment through it.  It does
  not detach.\<close>

definition ba_index :: "bstore \<Rightarrow> nat \<Rightarrow> usize \<Rightarrow> pointer outcome" where
  "ba_index s i pos = bind_outcome (lift (get_obj s i)) (\<lambda>ob.
     if \<not> pos < cm_size ob then Some (Inl OutOfRange) else Some (Inr (padd (data_ptr ob) pos)))"

definition ba_store :: "bstore \<Rightarrow> nat \<Rightarrow> usize \<Rightarrow> byte \<Rightarrow> bstore outcome" where
  "ba_store s i pos c = bind_outcome (ba_index s i pos) (\<lambda>p. lift (write_ptr s p [c]))"

text \<open>The iterators are pointers into the block; \<open>Iterator\<close> and \<open>IteratorConst\<close> differ
  in what \<open>*\<close> returns a reference to only.\<close>

definition ba_begin :: "bstore \<Rightarrow> nat \<Rightarrow> pointer option" where
  "ba_begin s i = ba_data s i"

definition ba_end :: "bstore \<Rightarrow> nat \<Rightarrow> pointer option" where
  "ba_end s i = map_option (\<lambda>ob. padd (data_ptr ob) (cm_size ob)) (get_obj s i)"

definition it_incr :: "pointer \<Rightarrow> pointer" where
  "it_incr it = padd it 1"

definition it_post_incr :: "pointer \<Rightarrow> pointer \<times> pointer" where
  "it_post_incr it = (let temp = it in (temp, it_incr it))"

definition it_decr :: "pointer \<Rightarrow> pointer option" where
  "it_decr it = (case it of Buf b (Suc off) \<Rightarrow> Some (Buf b off) | _ \<Rightarrow> None)"

definition it_post_decr :: "pointer \<Rightarrow> (pointer \<times> pointer) option" where
  "it_post_decr it = do { let temp = it; it \<leftarrow> it_decr it; Some (temp, it) }"

definition it_ne :: "pointer \<Rightarrow> pointer \<Rightarrow> bool" where
  "it_ne it t \<longleftrightarrow> it \<noteq> t"

definition it_eq :: "pointer \<Rightarrow> pointer \<Rightarrow> bool" where
  "it_eq it t \<longleftrightarrow> it = t"

definition it_deref :: "bstore \<Rightarrow> pointer \<Rightarrow> byte option" where
  "it_deref s it = map_option hd (read_ptr s it 1)"

text \<open>What a range-based for over an array visits.\<close>

partial_function (option) ba_iterate :: "bstore \<Rightarrow> pointer \<Rightarrow> pointer \<Rightarrow> byte list option" where
  "ba_iterate s it e =
     (if it_ne it e then do {
        c \<leftarrow> it_deref s it;
        cs \<leftarrow> ba_iterate s (it_incr it) e;
        Some (c # cs)
      } else Some [])"

declare ba_iterate.simps [code]

subsection \<open>Owners of a block\<close>

definition owner :: "bstore \<Rightarrow> nat \<Rightarrow> nat \<Rightarrow> bool" where
  "owner s b j \<longleftrightarrow> (\<exists>ob. get_obj s j = Some ob \<and> cm_data ob = Some b)"

lemma owner_iff: "owner s b j \<longleftrightarrow> j < length (cm_objs s) \<and> points_to b (cm_objs s ! j)"
  by (auto simp: owner_def get_obj_def points_to_def split: option.splits)

lemma owner_obj: "get_obj s j = Some ob \<Longrightarrow> owner s b j \<longleftrightarrow> cm_data ob = Some b"
  by (simp add: owner_def)

lemma use_count_0: "use_count s b = 0 \<longleftrightarrow> (\<forall>j. \<not> owner s b j)"
  by (simp add: use_count_def owner_iff filter_empty_conv all_set_conv_all_nth)

lemma use_count_1:
  assumes "owner s b i"
  shows "use_count s b = 1 \<longleftrightarrow> (\<forall>j. owner s b j \<longrightarrow> j = i)"
proof -
  have "use_count s b = card {j. owner s b j}"
    by (simp add: use_count_def length_filter_conv_card owner_iff)
  moreover have "card {j. owner s b j} = 1 \<longleftrightarrow> {j. owner s b j} = {i}"
    using assms by (auto simp: card_1_singleton_iff) (metis mem_Collect_eq singletonD)
  ultimately show ?thesis using assms by auto
qed

lemma unique_iff:
  assumes "get_obj s i = Some ob" "cm_data ob = Some b"
  shows "unique s ob \<longleftrightarrow> (\<forall>j. owner s b j \<longrightarrow> j = i)"
  using use_count_1 [of s b i] assms by (simp add: unique_def owner_def)

lemma release_fields [simp]: "cm_objs (release s p) = cm_objs s" "cm_next (release s p) = cm_next s"
  by (simp_all add: release_def split: option.splits)

lemma get_obj_length: "get_obj s i = Some ob \<Longrightarrow> i < length (cm_objs s)"
  by (simp add: get_obj_def split: if_splits)

lemma set_obj_fields [simp]:
  "length (cm_objs (set_obj s i x)) = length (cm_objs s)" "cm_next (set_obj s i x) = cm_next s"
  by (simp_all add: set_obj_def)

lemma get_obj_set_obj:
  assumes "get_obj s i = Some ob"
  shows "get_obj (set_obj s i x) j = (if j = i then x else get_obj s j)"
  using get_obj_length [OF assms] by (auto simp: get_obj_def set_obj_def)

lemma set_obj_bufs:
  "cm_bufs (set_obj s i x) b =
    (if owner s b i \<and> (\<forall>j. \<not> owner (set_obj s i x) b j) then None else cm_bufs s b)"
proof -
  let ?s = "s\<lparr>cm_objs := (cm_objs s)[i := x]\<rparr>"
  have u: "use_count ?s b = 0 \<longleftrightarrow> (\<forall>j. \<not> owner (set_obj s i x) b j)" for b
    by (simp add: use_count_0) (simp add: owner_iff set_obj_def)
  show ?thesis
  proof (cases "Option.bind (get_obj s i) cm_data")
    case None
    then show ?thesis by (auto simp: set_obj_def release_def owner_def)
  next
    case (Some c)
    then have "owner s b i \<longleftrightarrow> b = c" by (cases "get_obj s i") (auto simp: owner_def)
    moreover define P where "P \<longleftrightarrow> (\<forall>j. \<not> owner (set_obj s i x) c j)"
    then have "use_count ?s c = 0 \<longleftrightarrow> P" by (simp only: u)
    then have "cm_bufs (set_obj s i x) = (if P then (cm_bufs s)(c := None) else cm_bufs s)"
      using Some by (simp add: set_obj_def release_def)
    ultimately show ?thesis by (auto simp: P_def)
  qed
qed

lemma owner_set_obj:
  assumes "get_obj s i = Some ob"
  shows "owner (set_obj s i x) b j \<longleftrightarrow> (if j = i then points_to b x else owner s b j)"
  by (auto simp: owner_def get_obj_set_obj [OF assms] points_to_def split: option.splits)

subsection \<open>Well-formed stores, contents, frames\<close>

definition obj_ok :: "bstore \<Rightarrow> cmba \<Rightarrow> bool" where
  "obj_ok s ob \<longleftrightarrow> (case cm_data ob of
     None \<Rightarrow> cm_size ob = 0 \<and> cm_capacity ob = 0
   | Some b \<Rightarrow> unat (cm_size ob) \<le> unat (cm_capacity ob) \<and>
       (\<exists>m. cm_bufs s b = Some m \<and> length m = unat (cm_capacity ob)))"

text \<open>Every object but possibly \<open>i\<close> is in order, and every block alive has an owner.\<close>

definition store_ok_but :: "nat option \<Rightarrow> bstore \<Rightarrow> bool" where
  "store_ok_but i s \<longleftrightarrow> (\<forall>j ob. Some j \<noteq> i \<longrightarrow> get_obj s j = Some ob \<longrightarrow> obj_ok s ob) \<and>
     (\<forall>j b. owner s b j \<longrightarrow> cm_bufs s b \<noteq> None) \<and>
     (\<forall>b. cm_bufs s b \<noteq> None \<longrightarrow> b < cm_next s \<and> (\<exists>j. owner s b j))"

abbreviation store_ok :: "bstore \<Rightarrow> bool" where
  "store_ok \<equiv> store_ok_but None"

definition content :: "bstore \<Rightarrow> nat \<Rightarrow> byte list option" where
  "content s i = Option.bind (get_obj s i) (\<lambda>ob. read_ptr s (data_ptr ob) (unat (cm_size ob)))"

text \<open>An operation on object \<open>i\<close> that leaves the others and their blocks alone.\<close>

definition frame :: "nat \<Rightarrow> bstore \<Rightarrow> bstore \<Rightarrow> bool" where
  "frame i s s' \<longleftrightarrow> length (cm_objs s') = length (cm_objs s) \<and>
     (\<forall>j. j \<noteq> i \<longrightarrow> get_obj s' j = get_obj s j \<and> (\<forall>b. owner s b j \<longrightarrow> cm_bufs s' b = cm_bufs s b))"

lemma frame_refl [simp]: "frame i s s"
  by (simp add: frame_def)

lemma frame_trans: "frame i r s \<Longrightarrow> frame i s t \<Longrightarrow> frame i r t"
  by (simp add: frame_def owner_def)

lemma frame_content: "frame i s s' \<Longrightarrow> j \<noteq> i \<Longrightarrow> content s' j = content s j"
proof (cases "get_obj s j")
  case (Some ob)
  assume f: "frame i s s'" "j \<noteq> i"
  have "cm_bufs s' b = cm_bufs s b" if "cm_data ob = Some b" for b
    using f that owner_obj [OF Some] by (simp add: frame_def)
  then show ?thesis
    using f Some by (simp add: content_def frame_def read_ptr_def data_ptr_def split: option.splits)
qed (simp add: content_def frame_def)

lemma store_ok_but_weaken: "store_ok s \<Longrightarrow> store_ok_but i s"
  by (simp add: store_ok_but_def)

lemma store_ok_empty [simp]: "store_ok empty_store"
  by (simp add: store_ok_but_def empty_store_def get_obj_def owner_def)

lemma store_ok_obj: "store_ok s \<Longrightarrow> get_obj s j = Some ob \<Longrightarrow> obj_ok s ob"
  by (simp add: store_ok_but_def)

lemma store_ok_fresh: "store_ok_but i s \<Longrightarrow> cm_bufs s (cm_next s) = None \<and> \<not> owner s (cm_next s) j"
  unfolding store_ok_but_def by (metis less_irrefl)

lemma obj_ok_content:
  assumes "store_ok s" "get_obj s j = Some ob"
  shows "\<exists>xs. content s j = Some xs \<and> length xs = unat (cm_size ob)"
  using store_ok_obj [OF assms] assms(2)
  by (auto simp: obj_ok_def content_def read_ptr_def data_ptr_def split: option.splits)

lemma content_length: "content s i = Some xs \<Longrightarrow> get_obj s i = Some ob \<Longrightarrow> length xs = unat (cm_size ob)"
  by (auto simp: content_def read_ptr_def split: if_splits pointer.splits option.splits)

lemma overwrite_length [simp]: "off + length bs \<le> length m \<Longrightarrow> length (overwrite off bs m) = length m"
  by (simp add: overwrite_def)

lemma overwrite_append:
  "overwrite (length xs) bs (xs @ ys) = xs @ bs @ drop (length bs) ys"
  by (simp add: overwrite_def)

subsection \<open>The building blocks\<close>

lemma set_obj_same_data:
  assumes "get_obj s i = Some ob" "cm_data ob' = cm_data ob"
  shows "owner (set_obj s i (Some ob')) b j \<longleftrightarrow> owner s b j"
    "cm_bufs (set_obj s i (Some ob')) = cm_bufs s"
proof -
  show o: "owner (set_obj s i (Some ob')) b j \<longleftrightarrow> owner s b j" for b j
    using assms by (auto simp: owner_set_obj points_to_def owner_obj)
  show "cm_bufs (set_obj s i (Some ob')) = cm_bufs s"
    by (rule ext) (auto simp: set_obj_bufs o)
qed

lemma set_obj_frame:
  assumes "get_obj s i = Some ob" "cm_data ob' = cm_data ob"
  shows "frame i s (set_obj s i (Some ob'))"
  using set_obj_same_data [OF assms] by (simp add: frame_def get_obj_set_obj [OF assms(1)])

lemma set_obj_ok:
  assumes s: "store_ok_but (Some i) s" and g: "get_obj s i = Some ob" "cm_data ob' = cm_data ob"
    and o: "i' = None \<Longrightarrow> obj_ok s ob'" "i' = None \<or> i' = Some i"
  shows "store_ok_but i' (set_obj s i (Some ob'))"
proof -
  have "obj_ok (set_obj s i (Some ob')) = obj_ok s"
    by (rule ext) (simp only: obj_ok_def set_obj_same_data(2) [OF g])
  then show ?thesis
    using s o set_obj_same_data [OF g]
    by (auto simp: store_ok_but_def get_obj_set_obj [OF g(1)] split: if_splits)
qed

lemma resetBuffer_rep:
  assumes s: "store_ok_but (Some i) s" and g: "get_obj s i = Some ob" and c: "content s i = Some xs"
    and cap: "unat (cm_size ob) \<le> unat (cm_capacity ob)" and b: "braced \<Longrightarrow> cm_capacity ob \<noteq> 0"
  shows "\<exists>s' m. resetBuffer braced s i = Some (Inr s') \<and> store_ok s' \<and>
    get_obj s' i = Some (ob\<lparr>cm_data := Some (cm_next s)\<rparr>) \<and> cm_bufs s' (cm_next s) = Some m \<and>
    m = xs @ replicate (unat (cm_capacity ob) - length xs) 0 \<and>
    (\<forall>j. owner s' (cm_next s) j \<longrightarrow> j = i) \<and> frame i s s'"
proof -
  define nb where "nb = cm_next s"
  have fresh: "cm_bufs s nb = None" "\<not> owner s nb j" for j
    using store_ok_fresh [OF s] by (simp_all add: nb_def)
  define m where "m = xs @ replicate (unat (cm_capacity ob) - length xs) (0 :: byte)"
  have len: "length xs = unat (cm_size ob)" by (rule content_length [OF c g])
  let ?s1 = "s\<lparr>cm_bufs := (cm_bufs s)(nb \<mapsto> replicate (unat (cm_capacity ob)) 0), cm_next := Suc nb\<rparr>"
  let ?s2 = "s\<lparr>cm_bufs := (cm_bufs s)(nb \<mapsto> m), cm_next := Suc nb\<rparr>"
  define s3 where "s3 = set_obj ?s2 i (Some (ob\<lparr>cm_data := Some nb\<rparr>))"
  have nd: "cm_data ob \<noteq> Some nb" using fresh(2) [of i] g by (auto simp: owner_def)
  have rd: "read_ptr ?s1 (data_ptr ob) (unat (cm_size ob)) = Some xs"
    using c g nd by (auto simp: content_def read_ptr_def data_ptr_def split: option.splits if_splits)
  have "overwrite 0 xs (replicate (unat (cm_capacity ob)) 0) = m"
    by (simp add: overwrite_def m_def drop_replicate)
  then have wr: "write_ptr ?s1 (Buf nb 0) xs = Some ?s2"
    using cap len by (cases xs) (auto simp: write_ptr_def m_def)
  have "\<not> overlaps (Buf nb 0) (data_ptr ob) n" for n
    using nd by (auto simp: overlaps_def data_ptr_def split: option.splits)
  then have cp: "byte_memcpy ?s1 (Buf nb 0) (data_ptr ob) (unat (cm_size ob)) = Some ?s2"
    by (simp add: byte_memcpy_def rd wr)
  have r: "resetBuffer braced s i = Some (Inr s3)"
    using b cp by (auto simp: resetBuffer_def g Let_def nb_def s3_def)
  have g2: "get_obj ?s2 j = get_obj s j" "owner ?s2 c j = owner s c j" for c j
    by (simp_all add: get_obj_def owner_def)
  have g2i: "get_obj ?s2 i = Some ob" by (simp add: g2 g)
  have g3: "get_obj s3 j = (if j = i then Some (ob\<lparr>cm_data := Some nb\<rparr>) else get_obj s j)" for j
    by (simp add: s3_def get_obj_set_obj [OF g2i] g2)
  have o3: "owner s3 c j \<longleftrightarrow> (if j = i then c = nb else owner s c j)" for c j
    by (auto simp: s3_def owner_set_obj [OF g2i] points_to_def g2)
  have b3: "cm_bufs s3 c = (if owner s c i \<and> (\<forall>j. \<not> owner s3 c j) then None
      else if c = nb then Some m else cm_bufs s c)" for c
  proof -
    have "cm_bufs ?s2 c = (if c = nb then Some m else cm_bufs s c)" by simp
    then show ?thesis by (simp only: s3_def set_obj_bufs g2)
  qed
  have keep: "cm_bufs s3 c = cm_bufs s c" if "j \<noteq> i" "owner s c j" for c j
  proof -
    have "owner s3 c j" "c \<noteq> nb" using that fresh(2) [of j] by (auto simp: o3)
    then show ?thesis by (auto simp: b3)
  qed
  have new: "cm_bufs s3 nb = Some m" using o3 [of nb i] by (auto simp: b3)
  have lm: "length m = unat (cm_capacity ob)" using cap len by (simp add: m_def)
  have "length (cm_objs s3) = length (cm_objs s)" by (simp add: s3_def)
  then have "frame i s s3" using keep by (simp add: frame_def g3)
  moreover have "store_ok s3"
    unfolding store_ok_but_def
  proof (intro conjI allI impI)
    fix j ob' assume "get_obj s3 j = Some ob'"
    show "obj_ok s3 ob'"
    proof (cases "j = i")
      case True
      then show ?thesis using \<open>get_obj s3 j = Some ob'\<close> new cap lm by (auto simp: g3 obj_ok_def)
    next
      case False
      then have g': "get_obj s j = Some ob'" using \<open>get_obj s3 j = Some ob'\<close> by (simp add: g3)
      then have "obj_ok s ob'" using s False by (simp add: store_ok_but_def)
      then show ?thesis
        using keep [OF False] g' by (cases "cm_data ob'") (simp_all add: obj_ok_def owner_def)
    qed
  next
    fix j c assume "owner s3 c j"
    then show "cm_bufs s3 c \<noteq> None"
      using s new keep [of j c] by (auto simp: o3 store_ok_but_def split: if_splits)
  next
    fix c assume n: "cm_bufs s3 c \<noteq> None"
    have e: "(\<exists>j. owner s c j) \<or> c = nb"
      using n s by (auto simp: b3 store_ok_but_def split: if_splits)
    have "\<not> owner s c i \<or> (\<exists>j. owner s3 c j)" using n by (auto simp: b3 split: if_splits)
    then show "\<exists>j. owner s3 c j" using e o3 by metis
    show "c < cm_next s3"
    proof -
      have "cm_next s3 = Suc nb" by (simp add: s3_def)
      moreover have "c = nb \<or> c < nb" using n s by (auto simp: b3 store_ok_but_def nb_def split: if_splits)
      ultimately show ?thesis by auto
    qed
  qed
  ultimately show ?thesis using r g3 new o3 fresh(2) by (auto simp: nb_def m_def split: if_splits)
qed

text \<open>The state in which \<open>insertElement\<close> and \<open>reomveElement\<close> copy: object \<open>i\<close> alone
  points to the block \<open>b\<close>, which holds \<open>m\<close>.\<close>

definition ready :: "bstore \<Rightarrow> nat \<Rightarrow> cmba \<Rightarrow> nat \<Rightarrow> byte list \<Rightarrow> bool" where
  "ready s i ob b m \<longleftrightarrow> store_ok s \<and> get_obj s i = Some ob \<and> cm_data ob = Some b \<and>
     (\<forall>j. owner s b j \<longrightarrow> j = i) \<and> cm_bufs s b = Some m"

lemma ready_capacity:
  "ready s i ob b m \<Longrightarrow> length m = unat (cm_capacity ob) \<and> unat (cm_size ob) \<le> unat (cm_capacity ob)"
  using store_ok_obj [of s i ob] by (auto simp: ready_def obj_ok_def)

lemma ready_content: "ready s i ob b m \<Longrightarrow> content s i = Some (take (unat (cm_size ob)) m)"
  using ready_capacity [of s i ob b m]
  by (simp add: ready_def content_def data_ptr_def read_ptr_def)

lemma ready_unique: "ready s i ob b m \<Longrightarrow> unique s ob"
  using unique_iff by (auto simp: ready_def)

abbreviation upd_block :: "bstore \<Rightarrow> nat \<Rightarrow> byte list \<Rightarrow> bstore" where
  "upd_block s b m \<equiv> s\<lparr>cm_bufs := (cm_bufs s)(b \<mapsto> m)\<rparr>"

lemma upd_block_simps [simp]:
  "get_obj (upd_block s b m) j = get_obj s j" "owner (upd_block s b m) c j \<longleftrightarrow> owner s c j"
  by (simp_all add: get_obj_def owner_def)

lemma ready_upd:
  assumes r: "ready s i ob b m" and l: "length m' = length m"
  shows "ready (upd_block s b m') i ob b m'" "frame i s (upd_block s b m')"
proof -
  have own: "owner s b i" using r by (simp add: ready_def owner_def)
  have s: "store_ok s" and m: "cm_bufs s b = Some m" using r by (simp_all add: ready_def)
  have "obj_ok (upd_block s b m') x \<longleftrightarrow> obj_ok s x" for x
    using l m by (auto simp: obj_ok_def split: option.split)
  moreover have "b < cm_next s" using s m by (simp add: store_ok_but_def)
  ultimately have "store_ok (upd_block s b m')"
    using s own by (auto simp: store_ok_but_def split: if_splits)
  then show "ready (upd_block s b m') i ob b m'" using r by (simp add: ready_def)
  show "frame i s (upd_block s b m')" using r by (auto simp: frame_def ready_def)
qed

lemma write_ready:
  assumes r: "ready s i ob b m" and l: "off + length bs \<le> length m"
  shows "write_ptr s (Buf b off) bs = Some (upd_block s b (overwrite off bs m))"
proof (cases "bs = []")
  case True
  have "overwrite off [] m = m" by (simp add: overwrite_def)
  then show ?thesis using r True by (auto simp: write_ptr_def ready_def fun_upd_idem)
next
  case False
  then show ?thesis using r l by (simp add: write_ptr_def ready_def)
qed

lemma ready_set_size:
  assumes r: "ready s i ob b m" and n: "unat n \<le> unat (cm_capacity ob)"
  shows "ready (set_obj s i (Some (ob\<lparr>cm_size := n\<rparr>))) i (ob\<lparr>cm_size := n\<rparr>) b m"
    "frame i s (set_obj s i (Some (ob\<lparr>cm_size := n\<rparr>)))"
proof -
  have g: "get_obj s i = Some ob" using r by (simp add: ready_def)
  have d: "cm_data (ob\<lparr>cm_size := n\<rparr>) = cm_data ob" by simp
  have "obj_ok s (ob\<lparr>cm_size := n\<rparr>)"
    using r n ready_capacity [OF r] by (simp add: obj_ok_def ready_def)
  then have "store_ok (set_obj s i (Some (ob\<lparr>cm_size := n\<rparr>)))"
    using r set_obj_ok [OF store_ok_but_weaken g d] by (simp add: ready_def)
  then show "ready (set_obj s i (Some (ob\<lparr>cm_size := n\<rparr>))) i (ob\<lparr>cm_size := n\<rparr>) b m"
    using r set_obj_same_data [OF g d] by (simp add: ready_def get_obj_set_obj [OF g])
  show "frame i s (set_obj s i (Some (ob\<lparr>cm_size := n\<rparr>)))" by (rule set_obj_frame [OF g d])
qed

lemma resetBuffer_ready:
  assumes "store_ok_but (Some i) s" "get_obj s i = Some ob" "content s i = Some xs"
    "unat (cm_size ob) \<le> unat (cm_capacity ob)" "braced \<Longrightarrow> cm_capacity ob \<noteq> 0"
  shows "\<exists>s' ob' b. resetBuffer braced s i = Some (Inr s') \<and> frame i s s' \<and>
    ready s' i ob' b (xs @ replicate (unat (cm_capacity ob) - length xs) 0) \<and>
    cm_size ob' = cm_size ob \<and> cm_capacity ob' = cm_capacity ob \<and> b = cm_next s"
  using resetBuffer_rep [OF assms] by (force simp: ready_def)

text \<open>A source that stays where it is while object \<open>i\<close> changes its block.\<close>

definition stable_src :: "bstore \<Rightarrow> nat \<Rightarrow> pointer \<Rightarrow> nat \<Rightarrow> byte list \<Rightarrow> bool" where
  "stable_src s i p n bs \<longleftrightarrow> read_ptr s p n = Some bs \<and>
     (case p of Buf b off \<Rightarrow> \<exists>j. j \<noteq> i \<and> owner s b j | _ \<Rightarrow> True)"

lemma stable_src_frame:
  assumes f: "frame i s s'" and src: "stable_src s i p n bs"
  shows "stable_src s' i p n bs"
proof (cases p)
  case (Buf b off)
  then obtain j where j: "j \<noteq> i" "owner s b j" using src by (auto simp: stable_src_def)
  then have "cm_bufs s' b = cm_bufs s b" "get_obj s' j = get_obj s j" using f by (auto simp: frame_def)
  then show ?thesis using src Buf j by (auto simp: stable_src_def read_ptr_def owner_def)
qed (use src in \<open>auto simp: stable_src_def read_ptr_def split: if_splits\<close>)

lemma stable_src_apart: "ready s i ob b m \<Longrightarrow> stable_src s i p n bs \<Longrightarrow> \<not> overlaps (Buf b off) p k"
  by (auto simp: ready_def stable_src_def overlaps_def split: pointer.splits)

lemma read_ptr_length: "read_ptr s p n = Some bs \<Longrightarrow> length bs = n"
  by (auto simp: read_ptr_def split: if_splits pointer.splits option.splits)

lemma memcpy_ready:
  assumes r: "ready s i ob b m" and src: "read_ptr s p n = Some bs" "n \<noteq> 0 \<Longrightarrow> \<not> overlaps (Buf b off) p n"
    and l: "off + n \<le> length m"
  shows "byte_memcpy s (Buf b off) p n = Some (upd_block s b (overwrite off bs m))"
  using write_ready [OF r, of off bs] src l read_ptr_length [OF src(1)] by (auto simp: byte_memcpy_def)

end
