(* ===== verification/ByteArrays.thy ===== *)
theory ByteArrays
  imports ByteStore
begin

text \<open>
  \<open>insertElement\<close> in the three copies of \<open>CMByteArray\<close>, and what the class promises with
  each: appending, copy-on-write, insertion and removal.
\<close>

subsection \<open>Insertion\<close>

text \<open>\<open>(_capacity + dataLen) * _step\<close> through \<open>double\<close>: exact as long as the product is
  below \<open>2 ^ 53\<close>.  Larger values, for which no block exists, are left out.\<close>

definition grown :: "usize \<Rightarrow> usize \<Rightarrow> usize option" where
  "grown cap len =
     (if unat (cap + len) < 2 ^ 51 then Some (of_nat (unat (cap + len) * 3 div 2)) else None)"

text \<open>The two copies that end every \<open>insertElement\<close>: the tail to \<open>dest\<close>, the new bytes to
  \<open>pos\<close>.\<close>

definition insert_copies :: "usize \<Rightarrow> bstore \<Rightarrow> nat \<Rightarrow> usize \<Rightarrow> pointer \<Rightarrow> usize \<Rightarrow> bstore option" where
  "insert_copies dest s i pos dataP dataLen = do {
     ob \<leftarrow> get_obj s i;
     let p = data_ptr ob;
     s \<leftarrow> byte_memcpy s (padd p dest) (padd p pos) (unat (cm_size ob - pos));
     s \<leftarrow> byte_memcpy s (padd p pos) dataP (unat dataLen);
     Some (set_obj s i (Some (ob\<lparr>cm_size := cm_size ob + dataLen\<rparr>)))
   }"

text \<open>base/: the capacity is raised first, the block only replaced when it is shared.\<close>

definition base_insertElement :: inserter where
  "base_insertElement s i pos dataP dataLen = bind_outcome (lift (get_obj s i)) (\<lambda>ob.
     if cm_size ob < pos then Some (Inl OutOfRange)
     else bind_outcome
       (if cm_capacity ob < cm_size ob + dataLen
        then lift (map_option (\<lambda>cap. ob\<lparr>cm_capacity := cap\<rparr>) (grown (cm_capacity ob) dataLen))
        else Some (Inr ob)) (\<lambda>ob.
     bind_outcome
       (if unique s ob then Some (Inr (set_obj s i (Some ob)))
        else resetBuffer True (set_obj s i (Some ob)) i) (\<lambda>s.
     lift (insert_copies (cm_size ob) s i pos dataP dataLen))))"

text \<open>TCPServer/: the block is also replaced when it must grow, with the old capacity; the tail is
  moved to offset \<open>dataLen\<close>.\<close>

definition tcp_insertElement :: inserter where
  "tcp_insertElement s i pos dataP dataLen = bind_outcome (lift (get_obj s i)) (\<lambda>ob.
     if cm_size ob < pos then Some (Inl OutOfRange)
     else bind_outcome
       (if cm_capacity ob < cm_size ob + dataLen then lift (grown (cm_capacity ob) dataLen)
        else Some (Inr (cm_capacity ob))) (\<lambda>capacity.
     bind_outcome
       (if \<not> unique s ob \<or> cm_capacity ob < capacity
        then resetBuffer True (set_obj s i (Some (ob\<lparr>cm_capacity := capacity\<rparr>))) i
        else Some (Inr s)) (\<lambda>s.
     lift (insert_copies dataLen s i pos dataP dataLen))))"

text \<open>kv_store/: a block that must grow is replaced at once, so that the second test finds it
  unique.\<close>

definition kv_insertElement :: inserter where
  "kv_insertElement s i pos dataP dataLen = bind_outcome (lift (get_obj s i)) (\<lambda>ob.
     if cm_size ob < pos then Some (Inl OutOfRange)
     else bind_outcome
       (if cm_capacity ob < cm_size ob + dataLen
        then bind_outcome (lift (grown (cm_capacity ob) dataLen)) (\<lambda>cap.
          resetBuffer False (set_obj s i (Some (ob\<lparr>cm_capacity := cap\<rparr>))) i)
        else Some (Inr s)) (\<lambda>s.
     bind_outcome (lift (get_obj s i)) (\<lambda>ob.
     bind_outcome (if unique s ob then Some (Inr s) else resetBuffer False s i) (\<lambda>s.
     lift (insert_copies (cm_size ob) s i pos dataP dataLen)))))"

subsection \<open>Lemmas on the copies\<close>

lemma byte_memcpy_none [simp]: "byte_memcpy s d p 0 = Some s"
  by (simp add: byte_memcpy_def read_ptr_def write_ptr_def)

lemma data_ptr_ready: "ready s i ob b m \<Longrightarrow> data_ptr ob = Buf b 0"
  by (simp add: ready_def data_ptr_def)

lemma padd_Buf [simp]: "padd (Buf b off) k = Buf b (off + unat k)"
  by (simp add: padd_def)

text \<open>Appending: no tail is moved, wherever it would go.\<close>

lemma insert_copies_end:
  assumes r: "ready s i ob b m"
    and src: "read_ptr s p (unat n) = Some bs"
      "unat n \<noteq> 0 \<Longrightarrow> \<not> overlaps (Buf b (unat (cm_size ob))) p (unat n)"
    and room: "unat (cm_size ob) + unat n \<le> unat (cm_capacity ob)"
  shows "\<exists>s'. insert_copies dest s i (cm_size ob) p n = Some s' \<and>
    ready s' i (ob\<lparr>cm_size := cm_size ob + n\<rparr>) b (overwrite (unat (cm_size ob)) bs m) \<and> frame i s s' \<and>
    content s' i = Some (take (unat (cm_size ob)) m @ bs)"
proof -
  let ?m = "overwrite (unat (cm_size ob)) bs m"
  have l: "length bs = unat n" by (rule read_ptr_length [OF src(1)])
  have cap: "length m = unat (cm_capacity ob)" using ready_capacity [OF r] by simp
  have lm: "length ?m = length m" using l cap room by simp
  have cp: "byte_memcpy s (Buf b (unat (cm_size ob))) p (unat n) = Some (upd_block s b ?m)"
    by (rule memcpy_ready [OF r src]) (use cap room in auto)
  have r1: "ready (upd_block s b ?m) i ob b ?m" and f1: "frame i s (upd_block s b ?m)"
    by (rule ready_upd [OF r lm])+
  have u: "unat (cm_size ob + n) = unat (cm_size ob) + unat n"
    using room unat_usize_less [of "cm_capacity ob"] by (intro unat_add_usize) linarith
  have "unat (cm_size ob + n) \<le> unat (cm_capacity ob)" using u room by simp
  note r2 = ready_set_size [OF r1 this]
  have "content (set_obj (upd_block s b ?m) i (Some (ob\<lparr>cm_size := cm_size ob + n\<rparr>))) i =
      Some (take (unat (cm_size ob)) m @ bs)"
    using ready_content [OF r2(1)] u l cap room by (simp add: overwrite_def min_def)
  moreover have "insert_copies dest s i (cm_size ob) p n =
      Some (set_obj (upd_block s b ?m) i (Some (ob\<lparr>cm_size := cm_size ob + n\<rparr>)))"
    using r cp by (simp add: insert_copies_def data_ptr_ready [OF r] ready_def)
  ultimately show ?thesis using r2 frame_trans [OF f1 r2(2)] by blast
qed

lemma read_ptr_cong: "cm_bufs s = cm_bufs t \<Longrightarrow> read_ptr s p n = read_ptr t p n"
  by (simp only: read_ptr_def)

text \<open>A block of one's own is \<open>ready\<close>.\<close>

lemma unique_ready:
  assumes "store_ok s" "get_obj s i = Some ob" "unique s ob"
  shows "\<exists>b m. ready s i ob b m"
proof -
  obtain b where b: "cm_data ob = Some b" using assms(3) by (auto simp: unique_def split: option.splits)
  moreover obtain m where "cm_bufs s b = Some m"
    using store_ok_obj [OF assms(1,2)] b by (auto simp: obj_ok_def)
  ultimately show ?thesis using assms unique_iff [of s i ob b] by (auto simp: ready_def)
qed

lemma ready_take:
  "ready s i ob b m \<Longrightarrow> content s i = Some xs \<Longrightarrow> take (unat (cm_size ob)) m = xs"
  by (simp add: ready_content)

lemma reset_grown:
  assumes s: "store_ok s" and g: "get_obj s i = Some ob" and c: "content s i = Some xs"
    and cap: "unat (cm_capacity ob) \<le> unat cap" "braced \<Longrightarrow> cap \<noteq> 0"
  shows "\<exists>s' ob' b m. resetBuffer braced (set_obj s i (Some (ob\<lparr>cm_capacity := cap\<rparr>))) i = Some (Inr s') \<and>
    frame i s s' \<and> ready s' i ob' b m \<and> take (unat (cm_size ob)) m = xs \<and>
    cm_size ob' = cm_size ob \<and> cm_capacity ob' = cap \<and> b = cm_next s"
proof -
  let ?ob = "ob\<lparr>cm_capacity := cap\<rparr>" and ?s = "set_obj s i (Some (ob\<lparr>cm_capacity := cap\<rparr>))"
  have d: "cm_data ?ob = cm_data ob" by simp
  have s1: "store_ok_but (Some i) ?s" by (rule set_obj_ok [OF store_ok_but_weaken [OF s] g d]) simp_all
  have g1: "get_obj ?s i = Some ?ob" by (simp add: get_obj_set_obj [OF g])
  have c1: "content ?s i = Some xs"
    using c read_ptr_cong [OF set_obj_same_data(2) [OF g d]] by (simp add: content_def g g1 data_ptr_def)
  have le: "unat (cm_size ob) \<le> unat (cm_capacity ob)"
    using store_ok_obj [OF s g] by (auto simp: obj_ok_def split: option.splits)
  then obtain s' ob' b where "resetBuffer braced ?s i = Some (Inr s')" "frame i ?s s'"
    "ready s' i ob' b (xs @ replicate (unat cap - length xs) 0)" "cm_size ob' = cm_size ob"
    "cm_capacity ob' = cap" "b = cm_next s"
    using resetBuffer_ready [OF s1 g1 c1, of braced] cap by auto
  then show ?thesis
    using frame_trans [OF set_obj_frame [OF g d]] content_length [OF c g] by fastforce
qed

lemma grown_some:
  assumes "unat cap + unat n < 2251799813685248"
  shows "\<exists>g. grown cap n = Some g \<and> unat g = (unat cap + unat n) * 3 div 2"
proof -
  have "unat (cap + n) = unat cap + unat n" using assms by (simp add: unat_add_usize)
  moreover have "(unat cap + unat n) * 3 div 2 < 18446744073709551616" using assms by simp
  ultimately show ?thesis
    using assms by (simp add: grown_def unat_of_nat take_bit_nat_eq_self)
qed

subsection \<open>The contract of appending\<close>

text \<open>\<open>room cap sz n\<close>: an object of capacity \<open>cap\<close> and size \<open>sz\<close> can take \<open>n\<close>
  more bytes, at once or in pieces.\<close>

locale byte_appender =
  fixes ie :: inserter
    and room :: "nat \<Rightarrow> nat \<Rightarrow> nat \<Rightarrow> bool"
  assumes append_law: "store_ok s \<Longrightarrow> get_obj s i = Some ob \<Longrightarrow> content s i = Some xs \<Longrightarrow>
      stable_src s i p (unat n) bs \<Longrightarrow> room (unat (cm_capacity ob)) (unat (cm_size ob)) (unat n) \<Longrightarrow>
      \<exists>s' ob'. ie s i (cm_size ob) p n = Some (Inr s') \<and> store_ok s' \<and> frame i s s' \<and>
        get_obj s' i = Some ob' \<and> content s' i = Some (xs @ bs) \<and>
        (\<forall>k. room (unat (cm_capacity ob)) (unat (cm_size ob)) (unat n + k) \<longrightarrow>
          room (unat (cm_capacity ob')) (unat (cm_size ob')) k)"
    and room_less: "room cap sz (k + l) \<Longrightarrow> room cap sz k"
    and room_word: "room cap sz k \<Longrightarrow> k < 18446744073709551616"

text \<open>A client that sends its bytes in pieces.\<close>

fun append_all :: "inserter \<Rightarrow> bstore \<Rightarrow> nat \<Rightarrow> byte list list \<Rightarrow> bstore outcome" where
  "append_all ie s i [] = Some (Inr s)"
| "append_all ie s i (c # cs) =
     bind_outcome (ba_append_bytes ie s i (Ext c) (of_nat (length c))) (\<lambda>s. append_all ie s i cs)"

lemma stable_src_Ext: "stable_src s i (Ext c) (length c) c"
  by (simp add: stable_src_def read_ptr_def)

lemma add_obj_simps:
  "get_obj (snd (add_obj s ob)) j = (if j = length (cm_objs s) then Some ob else get_obj s j)"
  "fst (add_obj s ob) = length (cm_objs s)" "cm_bufs (snd (add_obj s ob)) = cm_bufs s"
  "cm_next (snd (add_obj s ob)) = cm_next s"
  by (auto simp: add_obj_def get_obj_def nth_append)

lemma copy_rep:
  assumes s: "store_ok s" and g: "get_obj s j = Some ob"
  shows "\<exists>i s'. ba_copy s j = Some (i, s') \<and> store_ok s' \<and> get_obj s' i = Some ob \<and>
    get_obj s i = None \<and> content s' i = content s j \<and> (\<forall>k. k \<noteq> i \<longrightarrow> content s' k = content s k)"
proof -
  let ?i = "length (cm_objs s)" and ?s = "snd (add_obj s ob)"
  have n: "get_obj s ?i = None" by (simp add: get_obj_def)
  have own: "owner ?s b k \<longleftrightarrow> (if k = ?i then owner s b j else owner s b k)" for b k
    using g n by (auto simp: owner_def add_obj_simps)
  have "obj_ok ?s = obj_ok s" by (rule ext) (simp only: obj_ok_def add_obj_simps(3))
  then have "store_ok ?s"
    using s g unfolding store_ok_but_def own
    by (auto simp: add_obj_simps split: if_splits) (metis n not_None_eq owner_def)+
  moreover have "read_ptr ?s = read_ptr s" by (intro ext read_ptr_cong) (simp add: add_obj_simps)
  ultimately have "store_ok ?s \<and> get_obj ?s ?i = Some ob \<and> get_obj s ?i = None \<and>
      content ?s ?i = content s j \<and> (\<forall>k. k \<noteq> ?i \<longrightarrow> content ?s k = content s k)"
    using g n by (simp add: content_def add_obj_simps)
  moreover have "ba_copy s j = Some (?i, ?s)" using g by (simp add: ba_copy_def add_obj_def)
  ultimately show ?thesis by blast
qed

context byte_appender
begin

lemma append_all_rep:
  assumes "store_ok s" "get_obj s i = Some ob" "content s i = Some xs"
    "room (unat (cm_capacity ob)) (unat (cm_size ob)) (length (concat cs))"
  shows "\<exists>s'. append_all ie s i cs = Some (Inr s') \<and> store_ok s' \<and> frame i s s' \<and>
    content s' i = Some (xs @ concat cs)"
  using assms
proof (induction cs arbitrary: s ob xs)
  case (Cons c cs)
  have r: "room (unat (cm_capacity ob)) (unat (cm_size ob)) (length c)"
    using Cons.prems(4) room_less by simp
  then have u: "unat (of_nat (length c) :: usize) = length c"
    using room_word by (simp add: unat_of_nat take_bit_nat_eq_self)
  obtain s' ob' where s': "ie s i (cm_size ob) (Ext c) (of_nat (length c)) = Some (Inr s')"
    "store_ok s'" "frame i s s'" "get_obj s' i = Some ob'" "content s' i = Some (xs @ c)"
    "\<forall>k. room (unat (cm_capacity ob)) (unat (cm_size ob)) (length c + k) \<longrightarrow>
      room (unat (cm_capacity ob')) (unat (cm_size ob')) k"
    using append_law [OF Cons.prems(1-3), of "Ext c" "of_nat (length c)" c] stable_src_Ext r u by auto
  have "room (unat (cm_capacity ob')) (unat (cm_size ob')) (length (concat cs))"
    using s'(6) Cons.prems(4) by simp
  then obtain s'' where "append_all ie s' i cs = Some (Inr s'')" "store_ok s''" "frame i s' s''"
    "content s'' i = Some ((xs @ c) @ concat cs)"
    using Cons.IH [OF s'(2,4,5)] by blast
  then show ?case
    using s'(1) Cons.prems(2) frame_trans [OF s'(3)] by (auto simp: ba_append_bytes_def)
qed simp

text \<open>Copy on write: what is appended to a copy does not show in the original, nor in any other
  object.\<close>

lemma copy_then_append:
  assumes "store_ok s" "get_obj s j = Some ob" "content s j = Some xs"
    "room (unat (cm_capacity ob)) (unat (cm_size ob)) (length (concat cs))"
  shows "\<exists>i s1 s'. ba_copy s j = Some (i, s1) \<and> append_all ie s1 i cs = Some (Inr s') \<and> store_ok s' \<and>
    content s' i = Some (xs @ concat cs) \<and> (\<forall>k. get_obj s k \<noteq> None \<longrightarrow> content s' k = content s k)"
proof -
  obtain i s1 where c: "ba_copy s j = Some (i, s1)" "store_ok s1" "get_obj s1 i = Some ob"
    "get_obj s i = None" "content s1 i = Some xs" "\<forall>k. k \<noteq> i \<longrightarrow> content s1 k = content s k"
    using copy_rep [OF assms(1,2)] assms(3) by auto
  then obtain s' where s': "append_all ie s1 i cs = Some (Inr s')" "store_ok s'" "frame i s1 s'"
    "content s' i = Some (xs @ concat cs)"
    using append_all_rep [OF c(2,3,5) assms(4)] by blast
  have "content s' k = content s k" if "get_obj s k \<noteq> None" for k
  proof -
    have "k \<noteq> i" using c(4) that by auto
    then show ?thesis using frame_content [OF s'(3), of k] c(6) by simp
  qed
  then show ?thesis using c(1) s' by blast
qed

end

subsection \<open>The three copies keep the contract\<close>

lemma set_obj_id:
  assumes "get_obj s i = Some ob"
  shows "set_obj s i (Some ob) = s"
proof -
  have "cm_objs (set_obj s i (Some ob)) = cm_objs s"
    using assms by (auto simp: set_obj_def get_obj_def list_update_same_conv split: if_splits)
  then show ?thesis
    using set_obj_same_data(2) [OF assms refl] by simp
qed

lemma no_wrap:
  fixes a n c :: usize
  assumes "unat a + unat n \<le> unat c"
  shows "unat (a + n) = unat a + unat n" "\<not> c < a + n"
proof -
  show u: "unat (a + n) = unat a + unat n"
    using assms unat_usize_less [of c] by (intro unat_add_usize) linarith
  show "\<not> c < a + n" using assms by (simp add: word_less_nat_alt u)
qed

lemma ready_append:
  assumes r: "ready s1 i ob1 b m" "cm_size ob1 = cm_size ob" "take (unat (cm_size ob)) m = xs"
    and f: "frame i s s1" and src: "stable_src s i p (unat n) bs"
    and room: "unat (cm_size ob) + unat n \<le> unat (cm_capacity ob1)"
  shows "\<exists>s' ob'. insert_copies dest s1 i (cm_size ob) p n = Some s' \<and> store_ok s' \<and> frame i s s' \<and>
    get_obj s' i = Some ob' \<and> content s' i = Some (xs @ bs) \<and> cm_capacity ob' = cm_capacity ob1 \<and>
    unat (cm_size ob') = unat (cm_size ob) + unat n"
proof -
  have src1: "stable_src s1 i p (unat n) bs" by (rule stable_src_frame [OF f src])
  then have rd: "read_ptr s1 p (unat n) = Some bs" by (simp add: stable_src_def)
  obtain s' where s': "insert_copies dest s1 i (cm_size ob1) p n = Some s'"
    "ready s' i (ob1\<lparr>cm_size := cm_size ob1 + n\<rparr>) b (overwrite (unat (cm_size ob1)) bs m)"
    "frame i s1 s'" "content s' i = Some (take (unat (cm_size ob1)) m @ bs)"
    using insert_copies_end [OF r(1) rd stable_src_apart [OF r(1) src1]] room r(2) by auto
  have "unat (cm_size ob1 + n) = unat (cm_size ob) + unat n"
    using no_wrap(1) [OF room] r(2) by simp
  then show ?thesis
    using s' r(2,3) frame_trans [OF f s'(3)] by (auto simp: ready_def)
qed

text \<open>One's own block, made unique if need be.\<close>

lemma detached:
  assumes s: "store_ok s" and g: "get_obj s i = Some ob" and c: "content s i = Some xs"
    and b: "braced \<Longrightarrow> cm_capacity ob \<noteq> 0"
  shows "\<exists>s1 ob1 b m. (if unique s ob then Some (Inr s) else resetBuffer braced s i) = Some (Inr s1) \<and>
    frame i s s1 \<and> ready s1 i ob1 b m \<and> take (unat (cm_size ob)) m = xs \<and>
    cm_size ob1 = cm_size ob \<and> cm_capacity ob1 = cm_capacity ob"
proof (cases "unique s ob")
  case True
  then obtain b m where r: "ready s i ob b m" using unique_ready [OF s g] by blast
  show ?thesis using True r ready_take [OF r c] by simp blast
next
  case False
  have "ob\<lparr>cm_capacity := cm_capacity ob\<rparr> = ob" by simp
  then show ?thesis
    using False reset_grown [OF s g c order_refl b] by (simp add: set_obj_id [OF g]) blast
qed

definition base_room :: "nat \<Rightarrow> nat \<Rightarrow> nat \<Rightarrow> bool" where
  "base_room cap sz n \<longleftrightarrow> 0 < cap \<and> sz + n \<le> cap \<and> cap < 18446744073709551616"

interpretation ba: byte_appender base_insertElement base_room
proof (unfold_locales, goal_cases)
  case (1 s i ob xs p n bs)
  have room: "unat (cm_size ob) + unat n \<le> unat (cm_capacity ob)" "cm_capacity ob \<noteq> 0"
    using 1(5) by (auto simp: base_room_def)
  obtain s1 ob1 b m where d:
    "(if unique s ob then Some (Inr s) else resetBuffer True s i) = Some (Inr s1)" "frame i s s1"
    "ready s1 i ob1 b m" "take (unat (cm_size ob)) m = xs" "cm_size ob1 = cm_size ob"
    "cm_capacity ob1 = cm_capacity ob"
    using detached [OF 1(1-3) room(2)] by blast
  then obtain s' ob' where
    "insert_copies (cm_size ob) s1 i (cm_size ob) p n = Some s'" "store_ok s'" "frame i s s'"
    "get_obj s' i = Some ob'" "content s' i = Some (xs @ bs)" "cm_capacity ob' = cm_capacity ob"
    "unat (cm_size ob') = unat (cm_size ob) + unat n"
    using ready_append [OF d(3,5,4,2) 1(4)] room(1) by (metis d(6))
  moreover have "base_insertElement s i (cm_size ob) p n =
      lift (insert_copies (cm_size ob) s1 i (cm_size ob) p n)"
    using 1(2) no_wrap(2) [OF room(1)] d(1) by (simp add: base_insertElement_def set_obj_id split: if_splits)
  ultimately show ?case by (auto simp: base_room_def)
qed (auto simp: base_room_def)

text \<open>A block that grows to \<open>3 (sz + n)\<close> at most.\<close>

definition kv_room :: "nat \<Rightarrow> nat \<Rightarrow> nat \<Rightarrow> bool" where
  "kv_room cap sz n \<longleftrightarrow> max cap (3 * (sz + n)) + n < 2251799813685248"

definition tcp_room :: "nat \<Rightarrow> nat \<Rightarrow> nat \<Rightarrow> bool" where
  "tcp_room cap sz n \<longleftrightarrow> 0 < cap \<and> kv_room cap sz n"

lemma kv_room_word: "kv_room cap sz n \<Longrightarrow> n < 18446744073709551616"
  by (simp add: kv_room_def)

lemma half_more:
  fixes c z n g :: nat
  assumes "g = (c + n) * 3 div 2" "z \<le> c" "c < z + n"
  shows "z + n \<le> g \<and> c < g \<and> g \<le> 3 * (z + n)"
proof -
  have "2 * g \<le> (c + n) * 3" "(c + n) * 3 < 2 * g + 2"
    unfolding assms(1) by simp_all
  then show ?thesis using assms(2,3) by auto
qed

lemma grown_room:
  fixes cap sz n :: usize
  assumes "kv_room (unat cap) (unat sz) (unat n)" "unat sz \<le> unat cap" "cap < sz + n"
  shows "\<exists>g. grown cap n = Some g \<and> unat sz + unat n \<le> unat g \<and> unat cap \<le> unat g \<and> cap < g \<and>
    (\<forall>k. kv_room (unat cap) (unat sz) (unat n + k) \<longrightarrow> kv_room (unat g) (unat sz + unat n) k)"
proof -
  have "unat cap + unat n < 2251799813685248" using assms(1) by (simp add: kv_room_def)
  then obtain g where g: "grown cap n = Some g" "unat g = (unat cap + unat n) * 3 div 2"
    using grown_some by blast
  have u: "unat (sz + n) = unat sz + unat n"
    by (rule unat_add_usize) (use assms(1) in \<open>simp add: kv_room_def\<close>)
  then have lt: "unat cap < unat sz + unat n" using assms(3) by (simp add: word_less_nat_alt)
  then have "unat sz + unat n \<le> unat g \<and> unat cap < unat g \<and> unat g \<le> 3 * (unat sz + unat n)"
    using half_more [OF g(2) assms(2)] by simp
  then show ?thesis using g(1) by (auto simp: kv_room_def word_less_nat_alt)
qed

lemma stored_size: "store_ok s \<Longrightarrow> get_obj s i = Some ob \<Longrightarrow> unat (cm_size ob) \<le> unat (cm_capacity ob)"
  using store_ok_obj [of s i ob] by (auto simp: obj_ok_def split: option.splits)

lemma kv_room_fits:
  fixes sz n c :: usize
  assumes "kv_room cap (unat sz) (unat n)" "\<not> c < sz + n"
  shows "unat sz + unat n \<le> unat c"
proof -
  have "unat (sz + n) = unat sz + unat n"
    by (rule unat_add_usize) (use assms(1) in \<open>simp add: kv_room_def\<close>)
  then show ?thesis using assms(2) by (simp add: word_less_nat_alt)
qed

text \<open>Each \<open>insertElement\<close> reaches its copies with a block of its own that is large enough.\<close>

lemma kv_ready:
  assumes s: "store_ok s" "get_obj s i = Some ob" "content s i = Some xs" and pos: "pos \<le> cm_size ob"
    and room: "kv_room (unat (cm_capacity ob)) (unat (cm_size ob)) (unat n)"
  shows "\<exists>s1 ob1 b m. kv_insertElement s i pos p n = lift (insert_copies (cm_size ob) s1 i pos p n) \<and>
    frame i s s1 \<and> ready s1 i ob1 b m \<and> take (unat (cm_size ob)) m = xs \<and> cm_size ob1 = cm_size ob \<and>
    unat (cm_size ob) + unat n \<le> unat (cm_capacity ob1) \<and>
    unat (cm_capacity ob) \<le> unat (cm_capacity ob1) \<and>
    (\<forall>k. kv_room (unat (cm_capacity ob)) (unat (cm_size ob)) (unat n + k) \<longrightarrow>
      kv_room (unat (cm_capacity ob1)) (unat (cm_size ob) + unat n) k)"
proof (cases "cm_capacity ob < cm_size ob + n")
  case True
  obtain g where g: "grown (cm_capacity ob) n = Some g" "unat (cm_size ob) + unat n \<le> unat g"
    "unat (cm_capacity ob) \<le> unat g"
    "\<forall>k. kv_room (unat (cm_capacity ob)) (unat (cm_size ob)) (unat n + k) \<longrightarrow>
      kv_room (unat g) (unat (cm_size ob) + unat n) k"
    using grown_room [OF room stored_size [OF s(1,2)] True] by blast
  obtain s1 ob1 b m where d:
    "resetBuffer False (set_obj s i (Some (ob\<lparr>cm_capacity := g\<rparr>))) i = Some (Inr s1)"
    "frame i s s1" "ready s1 i ob1 b m" "take (unat (cm_size ob)) m = xs" "cm_size ob1 = cm_size ob"
    "cm_capacity ob1 = g"
    using reset_grown [OF s g(3), where braced = False] by blast
  then have "kv_insertElement s i pos p n = lift (insert_copies (cm_size ob) s1 i pos p n)"
    using s(2) True g(1) pos ready_unique [OF d(3)]
    by (simp add: kv_insertElement_def ready_def not_less [symmetric])
  then show ?thesis using d g by blast
next
  case False
  obtain s1 ob1 b m where d:
    "(if unique s ob then Some (Inr s) else resetBuffer False s i) = Some (Inr s1)" "frame i s s1"
    "ready s1 i ob1 b m" "take (unat (cm_size ob)) m = xs" "cm_size ob1 = cm_size ob"
    "cm_capacity ob1 = cm_capacity ob"
    using detached [OF s, where braced = False] by blast
  then have "kv_insertElement s i pos p n = lift (insert_copies (cm_size ob) s1 i pos p n)"
    using s(2) False pos by (simp add: kv_insertElement_def not_less [symmetric])
  moreover have "unat (cm_size ob) + unat n \<le> unat (cm_capacity ob1)"
    using kv_room_fits [OF room False] d(6) by simp
  ultimately show ?thesis
    by (intro exI [of _ s1] exI [of _ ob1] exI [of _ b] exI [of _ m]) (use d in \<open>auto simp: kv_room_def\<close>)
qed

lemma tcp_ready:
  assumes s: "store_ok s" "get_obj s i = Some ob" "content s i = Some xs" and pos: "pos \<le> cm_size ob"
    and room: "tcp_room (unat (cm_capacity ob)) (unat (cm_size ob)) (unat n)"
  shows "\<exists>s1 ob1 b m. tcp_insertElement s i pos p n = lift (insert_copies n s1 i pos p n) \<and>
    frame i s s1 \<and> ready s1 i ob1 b m \<and> take (unat (cm_size ob)) m = xs \<and> cm_size ob1 = cm_size ob \<and>
    unat (cm_size ob) + unat n \<le> unat (cm_capacity ob1) \<and>
    (\<forall>k. tcp_room (unat (cm_capacity ob)) (unat (cm_size ob)) (unat n + k) \<longrightarrow>
      tcp_room (unat (cm_capacity ob1)) (unat (cm_size ob) + unat n) k)"
proof (cases "cm_capacity ob < cm_size ob + n")
  case True
  have room': "kv_room (unat (cm_capacity ob)) (unat (cm_size ob)) (unat n)"
    using room by (simp add: tcp_room_def)
  obtain g where g: "grown (cm_capacity ob) n = Some g" "unat (cm_size ob) + unat n \<le> unat g"
    "unat (cm_capacity ob) \<le> unat g" "cm_capacity ob < g"
    "\<forall>k. kv_room (unat (cm_capacity ob)) (unat (cm_size ob)) (unat n + k) \<longrightarrow>
      kv_room (unat g) (unat (cm_size ob) + unat n) k"
    using grown_room [OF room' stored_size [OF s(1,2)] True] by blast
  have "g \<noteq> 0" using g(4) by auto
  then obtain s1 ob1 b m where d:
    "resetBuffer True (set_obj s i (Some (ob\<lparr>cm_capacity := g\<rparr>))) i = Some (Inr s1)"
    "frame i s s1" "ready s1 i ob1 b m" "take (unat (cm_size ob)) m = xs" "cm_size ob1 = cm_size ob"
    "cm_capacity ob1 = g"
    using reset_grown [OF s g(3), where braced = True] by blast
  then have "tcp_insertElement s i pos p n = lift (insert_copies n s1 i pos p n)"
    using s(2) True g(1,4) pos by (simp add: tcp_insertElement_def not_less [symmetric])
  moreover have "0 < unat g" using \<open>g \<noteq> 0\<close> by (simp add: unat_gt_0)
  ultimately show ?thesis
    by (intro exI [of _ s1] exI [of _ ob1] exI [of _ b] exI [of _ m]) (use d g(2,5) in \<open>auto simp: tcp_room_def\<close>)
next
  case False
  have c: "cm_capacity ob \<noteq> 0" using room by (auto simp: tcp_room_def)
  obtain s1 ob1 b m where d:
    "(if unique s ob then Some (Inr s) else resetBuffer True s i) = Some (Inr s1)" "frame i s s1"
    "ready s1 i ob1 b m" "take (unat (cm_size ob)) m = xs" "cm_size ob1 = cm_size ob"
    "cm_capacity ob1 = cm_capacity ob"
    using detached [OF s, where braced = True] c by blast
  have "ob\<lparr>cm_capacity := cm_capacity ob\<rparr> = ob" by simp
  then have "tcp_insertElement s i pos p n = lift (insert_copies n s1 i pos p n)"
    using s(2) False d(1) pos
    by (simp add: tcp_insertElement_def set_obj_id not_less [symmetric] split: if_splits)
  moreover have "unat (cm_size ob) + unat n \<le> unat (cm_capacity ob1)"
    using kv_room_fits [of _ "cm_size ob" n, OF _ False] room d(6) by (auto simp: tcp_room_def)
  ultimately show ?thesis
    by (intro exI [of _ s1] exI [of _ ob1] exI [of _ b] exI [of _ m]) (use d in \<open>auto simp: tcp_room_def kv_room_def\<close>)
qed

lemma kv_insertElement_append:
  assumes s: "store_ok s" "get_obj s i = Some ob" "content s i = Some xs"
    and src: "stable_src s i p (unat n) bs"
    and room: "kv_room (unat (cm_capacity ob)) (unat (cm_size ob)) (unat n)"
  shows "\<exists>s' ob'. kv_insertElement s i (cm_size ob) p n = Some (Inr s') \<and> store_ok s' \<and> frame i s s' \<and>
    get_obj s' i = Some ob' \<and> content s' i = Some (xs @ bs) \<and>
    (\<forall>k. kv_room (unat (cm_capacity ob)) (unat (cm_size ob)) (unat n + k) \<longrightarrow>
      kv_room (unat (cm_capacity ob')) (unat (cm_size ob')) k)"
proof -
  obtain s1 ob1 b m where d: "frame i s s1" "ready s1 i ob1 b m" "take (unat (cm_size ob)) m = xs"
    "cm_size ob1 = cm_size ob" "unat (cm_size ob) + unat n \<le> unat (cm_capacity ob1)"
    "\<forall>k. kv_room (unat (cm_capacity ob)) (unat (cm_size ob)) (unat n + k) \<longrightarrow>
      kv_room (unat (cm_capacity ob1)) (unat (cm_size ob) + unat n) k"
    "kv_insertElement s i (cm_size ob) p n = lift (insert_copies (cm_size ob) s1 i (cm_size ob) p n)"
    using kv_ready [OF s order_refl room] by blast
  show ?thesis using ready_append [OF d(2,4,3,1) src d(5), of "cm_size ob"] d(6,7) by fastforce
qed

lemma tcp_insertElement_append:
  assumes s: "store_ok s" "get_obj s i = Some ob" "content s i = Some xs"
    and src: "stable_src s i p (unat n) bs"
    and room: "tcp_room (unat (cm_capacity ob)) (unat (cm_size ob)) (unat n)"
  shows "\<exists>s' ob'. tcp_insertElement s i (cm_size ob) p n = Some (Inr s') \<and> store_ok s' \<and> frame i s s' \<and>
    get_obj s' i = Some ob' \<and> content s' i = Some (xs @ bs) \<and>
    (\<forall>k. tcp_room (unat (cm_capacity ob)) (unat (cm_size ob)) (unat n + k) \<longrightarrow>
      tcp_room (unat (cm_capacity ob')) (unat (cm_size ob')) k)"
proof -
  obtain s1 ob1 b m where d: "frame i s s1" "ready s1 i ob1 b m" "take (unat (cm_size ob)) m = xs"
    "cm_size ob1 = cm_size ob" "unat (cm_size ob) + unat n \<le> unat (cm_capacity ob1)"
    "\<forall>k. tcp_room (unat (cm_capacity ob)) (unat (cm_size ob)) (unat n + k) \<longrightarrow>
      tcp_room (unat (cm_capacity ob1)) (unat (cm_size ob) + unat n) k"
    "tcp_insertElement s i (cm_size ob) p n = lift (insert_copies n s1 i (cm_size ob) p n)"
    using tcp_ready [OF s order_refl room] by blast
  show ?thesis using ready_append [OF d(2,4,3,1) src d(5), of n] d(6,7) by fastforce
qed

interpretation kv: byte_appender kv_insertElement kv_room
  by unfold_locales (rule kv_insertElement_append, assumption+, auto simp: kv_room_def)

interpretation tcp: byte_appender tcp_insertElement tcp_room
  by unfold_locales (rule tcp_insertElement_append, assumption+, auto simp: tcp_room_def kv_room_def)

subsection \<open>Insertion before the end, removal\<close>

lemma unat_sub_usize:
  fixes x y :: usize
  assumes "y \<le> x"
  shows "unat (x - y) = unat x - unat y"
  using assms by (simp add: unat_sub_small word_le_nat_alt)

lemma insert_copies_rep:
  assumes r: "ready s i ob b m" and src: "stable_src s i p (unat n) bs"
    and pos: "pos \<le> cm_size ob" and tail: "k = unat (cm_size ob) - unat pos"
    and fits: "unat dest + k \<le> unat (cm_capacity ob)" "unat pos + unat n \<le> unat (cm_capacity ob)"
      "unat (cm_size ob) + unat n \<le> unat (cm_capacity ob)"
    and apart: "k = 0 \<or> unat dest + k \<le> unat pos \<or> unat (cm_size ob) \<le> unat dest"
  shows "\<exists>s'. insert_copies dest s i pos p n = Some s' \<and> store_ok s' \<and> frame i s s' \<and>
    content s' i = Some (take (unat (cm_size ob) + unat n)
      (overwrite (unat pos) bs (overwrite (unat dest) (take k (drop (unat pos) m)) m)))"
proof -
  let ?t = "take k (drop (unat pos) m)"
  let ?m1 = "overwrite (unat dest) ?t m" and ?m2 = "overwrite (unat pos) bs (overwrite (unat dest) ?t m)"
  have g: "get_obj s i = Some ob" and d: "data_ptr ob = Buf b 0" and m: "cm_bufs s b = Some m"
    using r data_ptr_ready by (auto simp: ready_def)
  have cap: "length m = unat (cm_capacity ob)" "unat (cm_size ob) \<le> unat (cm_capacity ob)"
    using ready_capacity [OF r] by simp_all
  have k: "unat (cm_size ob - pos) = k" using tail unat_sub_usize [OF pos] by simp
  have ps: "unat pos + k = unat (cm_size ob)" using pos tail by (simp add: word_le_nat_alt)
  have lt: "length ?t = k" using ps cap by simp
  have rd: "read_ptr s (Buf b (unat pos)) k = Some ?t" using m ps cap by (simp add: read_ptr_def)
  have "\<not> overlaps (Buf b (unat dest)) (Buf b (unat pos)) k" if "k \<noteq> 0"
    using apart ps that by (auto simp: overlaps_def)
  then have c1: "byte_memcpy s (Buf b (unat dest)) (Buf b (unat pos)) k = Some (upd_block s b ?m1)"
    by (rule memcpy_ready [OF r rd]) (use fits cap in auto)
  have l1: "length ?m1 = length m" using lt fits cap by simp
  note r1 = ready_upd [OF r l1]
  have src1: "stable_src (upd_block s b ?m1) i p (unat n) bs" by (rule stable_src_frame [OF r1(2) src])
  then have rd1: "read_ptr (upd_block s b ?m1) p (unat n) = Some bs" by (simp add: stable_src_def)
  have lb: "length bs = unat n" by (rule read_ptr_length [OF rd1])
  have c2: "byte_memcpy (upd_block s b ?m1) (Buf b (unat pos)) p (unat n) =
      Some (upd_block (upd_block s b ?m1) b ?m2)"
    by (rule memcpy_ready [OF r1(1) rd1 stable_src_apart [OF r1(1) src1]]) (use fits cap l1 in auto)
  have l2: "length ?m2 = length ?m1" using lb fits cap l1 by simp
  note r2 = ready_upd [OF r1(1) l2]
  have u: "unat (cm_size ob + n) = unat (cm_size ob) + unat n" by (rule no_wrap(1) [OF fits(3)])
  then have "unat (cm_size ob + n) \<le> unat (cm_capacity ob)" using fits by simp
  note r3 = ready_set_size [OF r2(1) this]
  let ?s = "set_obj (upd_block (upd_block s b ?m1) b ?m2) i (Some (ob\<lparr>cm_size := cm_size ob + n\<rparr>))"
  have "insert_copies dest s i pos p n = Some ?s"
    using c1 c2 by (simp add: insert_copies_def g d k)
  moreover have "content ?s i = Some (take (unat (cm_size ob) + unat n) ?m2)"
    using ready_content [OF r3(1)] u by simp
  moreover have "store_ok ?s" using r3(1) by (simp add: ready_def)
  ultimately show ?thesis
    using frame_trans [OF r1(2) frame_trans [OF r2(2) r3(2)]] by blast
qed

text \<open>With the tail at \<open>_size\<close>, the inserted bytes replace as many old ones, which appear
  again at the end.\<close>

lemma overwrite_middle:
  assumes "length xs \<le> length m" "take (length xs) m = xs" "q + length bs \<le> length xs" "k = length xs - q"
    "length xs + k \<le> length m"
  shows "take (length xs + length bs) (overwrite q bs (overwrite (length xs) (take k (drop q m)) m)) =
    take q xs @ bs @ drop (q + length bs) xs @ take (length bs) (drop q xs)"
proof -
  define ys where "ys = drop (length xs) m"
  have m: "m = xs @ ys" using assms(2) append_take_drop_id [of "length xs" m] by (simp add: ys_def)
  have t: "take k (drop q m) = drop q xs" using assms(3,4) by (simp add: m)
  have "overwrite (length xs) (drop q xs) m = xs @ drop q xs @ drop k ys"
    using assms(3,4) by (simp add: overwrite_def m)
  then have "overwrite q bs (overwrite (length xs) (take k (drop q m)) m) =
      take q xs @ bs @ drop (q + length bs) xs @ drop q xs @ drop k ys"
    using assms(3) by (simp add: t) (simp add: overwrite_def)
  then show ?thesis using assms(3) by simp
qed

lemma overwrite_remove:
  assumes "take (length xs) m = xs" "length xs \<le> length m" "q + k + mv = length xs"
  shows "take (length xs - k) (overwrite (length xs - k) zs (overwrite q (take mv (drop (q + k) m)) m)) =
    take q xs @ drop (q + k) xs"
proof -
  define ys where "ys = drop (length xs) m"
  have m: "m = xs @ ys" using assms(1) append_take_drop_id [of "length xs" m] by (simp add: ys_def)
  have e: "take mv (drop (q + k) m) = drop (q + k) xs" using assms(3) by (simp add: m)
  have o: "overwrite q (drop (q + k) xs) m = (take q xs @ drop (q + k) xs) @ drop (q + length (drop (q + k) xs)) m"
    using assms(3) by (simp add: overwrite_def m)
  have l: "length xs - k = length (take q xs @ drop (q + k) xs)" using assms(3) by simp
  have "take n (overwrite n zs X) = take n X" if "n \<le> length X" for n and X :: "'a list"
    using that by (simp add: overwrite_def)
  then show ?thesis unfolding e o l using assms(3) by (simp add: min_absorb1 min_absorb2)
qed

lemma ready_detached_content:
  assumes "ready s1 i ob1 b m" "take (unat (cm_size ob)) m = xs" "cm_size ob1 = cm_size ob"
    "cm_capacity ob1 = cm_capacity ob"
  shows "length m = unat (cm_capacity ob)" "unat (cm_size ob) \<le> unat (cm_capacity ob)"
    "length xs = unat (cm_size ob)"
  using ready_capacity [OF assms(1)] assms(2-4) by auto

lemma reomveElement_rep:
  assumes s: "store_ok s" and g: "get_obj s i = Some ob" and c: "content s i = Some xs"
    and cap: "braced \<Longrightarrow> cm_capacity ob \<noteq> 0" and pos: "pos \<le> cm_size ob"
    and cut: "k = min (unat len) (length xs - unat pos)" and mv: "mv = length xs - unat pos - k"
  shows "if mv = 0 \<or> mv \<le> k
    then \<exists>s'. reomveElement braced s i pos len = Some (Inr s') \<and> store_ok s' \<and> frame i s s' \<and>
      content s' i = Some (take (unat pos) xs @ drop (unat pos + k) xs)
    else reomveElement braced s i pos len = None"
proof -
  obtain s1 ob1 b m where d:
    "(if unique s ob then Some (Inr s) else resetBuffer braced s i) = Some (Inr s1)" "frame i s s1"
    "ready s1 i ob1 b m" "take (unat (cm_size ob)) m = xs" "cm_size ob1 = cm_size ob"
    "cm_capacity ob1 = cm_capacity ob"
    using detached [OF s g c cap] by blast
  have g1: "get_obj s1 i = Some ob1" and p: "data_ptr ob1 = Buf b 0" and m: "cm_bufs s1 b = Some m"
    using d(3) data_ptr_ready by (auto simp: ready_def)
  note lens = ready_detached_content [OF d(3,4,5,6)]
  have q: "unat pos \<le> length xs" using pos lens by (simp add: word_le_nat_alt)
  define n where "n = (if cm_size ob1 - pos < len then cm_size ob1 - pos else len)"
  have sp: "unat (cm_size ob - pos) = length xs - unat pos" using unat_sub_usize [OF pos] lens by simp
  have n: "unat n = k" using sp d(5) cut by (auto simp: n_def word_less_nat_alt min_def)
  have nsp: "n \<le> cm_size ob - pos" using n sp cut by (simp add: word_le_nat_alt)
  have u: "unat (cm_size ob1 - pos - n) = mv"
    using unat_sub_usize [OF nsp] sp n mv d(5) by simp
  have nle: "n \<le> cm_size ob" using nsp n sp lens by (simp add: word_le_nat_alt)
  have sz: "unat (cm_size ob1 - n) = length xs - k" using unat_sub_usize [OF nle] n d(5) lens by simp
  let ?t = "take mv (drop (unat pos + k) m)"
  have fit: "unat pos + k + mv = length xs" using q mv cut by simp
  have rd: "read_ptr s1 (Buf b (unat pos + k)) mv = Some ?t"
    using m fit lens by (simp add: read_ptr_def)
  have e: "reomveElement braced s i pos len = lift (do {
      s \<leftarrow> byte_memcpy s1 (Buf b (unat pos)) (Buf b (unat pos + k)) mv;
      s \<leftarrow> byte_memset0 s (Buf b (length xs - k)) (unat (cm_capacity ob - (cm_size ob1 - n)));
      Some (set_obj s i (Some (ob1\<lparr>cm_size := cm_size ob1 - n\<rparr>)))
    })"
  proof -
    have "\<not> cm_size ob < pos" using pos by simp
    then show ?thesis
      using d(1) by (simp add: reomveElement_def g g1 p Let_def n_def [symmetric] n u sz d(6))
  qed
  show ?thesis
  proof (cases "mv = 0 \<or> mv \<le> k")
    case False
    then have "byte_memcpy s1 (Buf b (unat pos)) (Buf b (unat pos + k)) mv = None"
      by (auto simp: byte_memcpy_def overlaps_def split: option.split)
    then show ?thesis using False e by simp
  next
    case True
    let ?m1 = "overwrite (unat pos) ?t m"
    have lt: "length ?t = mv" using fit lens by simp
    have "byte_memcpy s1 (Buf b (unat pos)) (Buf b (unat pos + k)) mv = Some (upd_block s1 b ?m1)"
      by (rule memcpy_ready [OF d(3) rd]) (use True fit lens in \<open>auto simp: overlaps_def\<close>)
    moreover have l1: "length ?m1 = length m" using lt fit lens by simp
    note r1 = ready_upd [OF d(3) l1]
    let ?z = "unat (cm_capacity ob - (cm_size ob1 - n))"
    have "cm_size ob1 - n \<le> cm_capacity ob" using sz lens by (simp add: word_le_nat_alt)
    then have z: "?z = length m - (length xs - k)" using unat_sub_usize sz lens by metis
    let ?m2 = "overwrite (length xs - k) (replicate ?z 0) ?m1"
    have zl: "length xs - k + ?z = length m" using z lens by simp
    then have "byte_memset0 (upd_block s1 b ?m1) (Buf b (length xs - k)) ?z =
        Some (upd_block (upd_block s1 b ?m1) b ?m2)"
      unfolding byte_memset0_def by (intro write_ready [OF r1(1)]) (use l1 in simp)
    moreover have l2: "length ?m2 = length ?m1" using zl l1 by simp
    note r2 = ready_upd [OF r1(1) l2]
    have "unat (cm_size ob1 - n) \<le> unat (cm_capacity ob1)" using sz lens d(6) by simp
    note r3 = ready_set_size [OF r2(1) this]
    let ?s = "set_obj (upd_block (upd_block s1 b ?m1) b ?m2) i (Some (ob1\<lparr>cm_size := cm_size ob1 - n\<rparr>))"
    have "take (length xs - k) ?m2 = take (unat pos) xs @ drop (unat pos + k) xs"
      by (rule overwrite_remove) (use d(4) lens fit in auto)
    then have "content ?s i = Some (take (unat pos) xs @ drop (unat pos + k) xs)"
      using ready_content [OF r3(1)] sz by simp
    moreover have "store_ok ?s" using r3(1) by (simp add: ready_def)
    moreover have "frame i s ?s"
      using frame_trans [OF d(2) frame_trans [OF r1(2) frame_trans [OF r2(2) r3(2)]]] .
    ultimately show ?thesis using True e by auto
  qed
qed

subsection \<open>Properties\<close>

text \<open>A store with one object, of two bytes in a block of five.\<close>

definition two_bytes :: bstore where
  "two_bytes = \<lparr>cm_objs = [Some \<lparr>cm_data = Some 0, cm_size = 2, cm_capacity = 5\<rparr>],
     cm_bufs = (\<lambda>b. if b = 0 then Some [7, 8, 0, 0, 0] else None), cm_next = 1\<rparr>"

lemma two_bytes_obj: "get_obj two_bytes j = (if j = 0 then Some \<lparr>cm_data = Some 0, cm_size = 2, cm_capacity = 5\<rparr> else None)"
  by (simp add: get_obj_def two_bytes_def)

lemma two_bytes_ok: "store_ok two_bytes"
  by (auto simp: store_ok_but_def obj_ok_def owner_def two_bytes_obj) (simp_all add: two_bytes_def split: if_splits)

lemma two_bytes_content: "content two_bytes 0 = Some [7, 8]"
  by (simp add: content_def two_bytes_obj data_ptr_def read_ptr_def) (simp add: two_bytes_def)

lemma two_bytes_unique: "unique two_bytes \<lparr>cm_data = Some 0, cm_size = 2, cm_capacity = 5\<rparr>"
  by (simp add: unique_def use_count_def two_bytes_def points_to_def)

lemma word_length: "length bs < 18446744073709551616 \<Longrightarrow> unat (of_nat (length bs) :: usize) = length bs"
  by (simp add: unat_of_nat take_bit_nat_eq_self)

text \<open>C25: with the \<open>insertElement\<close> of TCPServer/ or kv_store/, copying an array and appending
  any pieces to the copy gives the copy the old bytes followed by the pieces, and changes no byte of
  the original or of any other array.\<close>

theorem copy_on_write:
  assumes "store_ok s" "get_obj s j = Some ob" "content s j = Some xs"
    "tcp_room (unat (cm_capacity ob)) (unat (cm_size ob)) (length (concat cs))"
    "ie = tcp_insertElement \<or> ie = kv_insertElement"
  shows "\<exists>i s1 s'. ba_copy s j = Some (i, s1) \<and> append_all ie s1 i cs = Some (Inr s') \<and> store_ok s' \<and>
    content s' i = Some (xs @ concat cs) \<and> (\<forall>k. get_obj s k \<noteq> None \<longrightarrow> content s' k = content s k)"
  using kv.copy_then_append [OF assms(1-3)] tcp.copy_then_append [OF assms(1-4)] assms(4,5)
  by (auto simp: tcp_room_def)

theorem copy_on_write_witness:
  "\<exists>i s1 s'. ba_copy two_bytes 0 = Some (i, s1) \<and>
    append_all tcp_insertElement s1 i [[1, 2], [3, 4]] = Some (Inr s') \<and>
    content s' i = Some [7, 8, 1, 2, 3, 4] \<and> content s' 0 = Some [7, 8]"
  using copy_on_write [OF two_bytes_ok two_bytes_obj [of 0, simplified] two_bytes_content,
      of "[[1, 2], [3, 4]]" tcp_insertElement]
  by (fastforce simp: tcp_room_def kv_room_def two_bytes_obj two_bytes_content)

text \<open>The \<open>insertElement\<close> of base/ appends correctly as long as the bytes fit the
  capacity; on a block of one's own that is too small it only raises the capacity and writes behind
  the block.\<close>

theorem base_append:
  assumes s: "store_ok s" "get_obj s i = Some ob" "content s i = Some xs"
    and cap: "cm_capacity ob \<noteq> 0" "unat (cm_capacity ob) + length bs < 2251799813685248"
  shows "if unat (cm_size ob) + length bs \<le> unat (cm_capacity ob)
    then \<exists>s'. ba_append_bytes base_insertElement s i (Ext bs) (of_nat (length bs)) = Some (Inr s') \<and>
      store_ok s' \<and> frame i s s' \<and> content s' i = Some (xs @ bs)
    else unique s ob \<longrightarrow> ba_append_bytes base_insertElement s i (Ext bs) (of_nat (length bs)) = None"
proof -
  have n: "unat (of_nat (length bs) :: usize) = length bs" using cap by (simp add: word_length)
  show ?thesis
  proof (cases "unat (cm_size ob) + length bs \<le> unat (cm_capacity ob)")
    case True
    have "base_room (unat (cm_capacity ob)) (unat (cm_size ob)) (unat (of_nat (length bs) :: usize))"
      using True cap n by (simp add: base_room_def unat_gt_0)
    then show ?thesis
      using ba.append_law [OF s, of "Ext bs" "of_nat (length bs)" bs] True n s(2) stable_src_Ext
      by (auto simp: ba_append_bytes_def)
  next
    case False
    define n :: usize where "n = of_nat (length bs)"
    have un: "unat n = length bs" using n by (simp add: n_def)
    have "ba_append_bytes base_insertElement s i (Ext bs) n = None" if u: "unique s ob"
    proof -
      obtain b m where r: "ready s i ob b m" using unique_ready [OF s(1,2) u] by blast
      have "unat (cm_capacity ob) + unat n < 2251799813685248" using cap(2) un by simp
      then obtain g where g: "grown (cm_capacity ob) n = Some g" using grown_some by blast
      let ?ob = "ob\<lparr>cm_capacity := g\<rparr>"
      have d: "cm_data ?ob = cm_data ob" by simp
      have m: "cm_bufs (set_obj s i (Some ?ob)) b = Some m" "length m = unat (cm_capacity ob)"
        using r ready_capacity [OF r] set_obj_same_data(2) [OF s(2) d] by (auto simp: ready_def)
      have "unat (cm_size ob + n) = unat (cm_size ob) + unat n"
        using stored_size [OF s(1,2)] cap(2) un by (intro unat_add_usize) linarith
      then have big: "cm_capacity ob < cm_size ob + n"
        using False un by (simp add: word_less_nat_alt)
      have "bs \<noteq> []" using False stored_size [OF s(1,2)] by auto
      then have "byte_memcpy (set_obj s i (Some ?ob)) (Buf b (unat (cm_size ob))) (Ext bs) (unat n) = None"
        using False m un by (simp add: byte_memcpy_def read_ptr_def write_ptr_def overlaps_def)
      moreover have "unique s ?ob" using u by (simp add: unique_def)
      moreover have "data_ptr ?ob = Buf b 0" using r by (simp add: data_ptr_def ready_def)
      ultimately show ?thesis
        using s(2) g big
        by (simp add: ba_append_bytes_def base_insertElement_def insert_copies_def get_obj_set_obj [OF s(2)])
    qed
    then show ?thesis using False by (simp add: n_def)
  qed
qed

theorem base_append_witness:
  "(\<exists>s'. ba_append_bytes base_insertElement two_bytes 0 (Ext [1, 2, 3]) 3 = Some (Inr s') \<and>
      content s' 0 = Some [7, 8, 1, 2, 3]) \<and>
    ba_append_bytes base_insertElement two_bytes 0 (Ext [1, 2, 3, 4]) 4 = None"
  using base_append [OF two_bytes_ok two_bytes_obj [of 0, simplified] two_bytes_content, of "[1, 2, 3]"]
    base_append [OF two_bytes_ok two_bytes_obj [of 0, simplified] two_bytes_content, of "[1, 2, 3, 4]"]
    two_bytes_unique
  by auto

lemma base_ready:
  assumes s: "store_ok s" "get_obj s i = Some ob" "content s i = Some xs" and pos: "pos \<le> cm_size ob"
    and room: "base_room (unat (cm_capacity ob)) (unat (cm_size ob)) (unat n)"
  shows "\<exists>s1 ob1 b m. base_insertElement s i pos p n = lift (insert_copies (cm_size ob) s1 i pos p n) \<and>
    frame i s s1 \<and> ready s1 i ob1 b m \<and> take (unat (cm_size ob)) m = xs \<and> cm_size ob1 = cm_size ob \<and>
    cm_capacity ob1 = cm_capacity ob"
proof -
  have r: "unat (cm_size ob) + unat n \<le> unat (cm_capacity ob)" "cm_capacity ob \<noteq> 0"
    using room by (auto simp: base_room_def)
  obtain s1 ob1 b m where d:
    "(if unique s ob then Some (Inr s) else resetBuffer True s i) = Some (Inr s1)" "frame i s s1"
    "ready s1 i ob1 b m" "take (unat (cm_size ob)) m = xs" "cm_size ob1 = cm_size ob"
    "cm_capacity ob1 = cm_capacity ob"
    using detached [OF s r(2)] by blast
  have "\<not> cm_size ob < pos" using pos by simp
  then have "base_insertElement s i pos p n = lift (insert_copies (cm_size ob) s1 i pos p n)"
    using s(2) no_wrap(2) [OF r(1)] d(1) by (simp add: base_insertElement_def set_obj_id split: if_splits)
  then show ?thesis using d by blast
qed

text \<open>Inserting \<open>n\<close> bytes before the end with the \<open>insertElement\<close> of base/ or
  kv_store/ does not make room for them: they replace the \<open>n\<close> bytes from the position on, and
  copies of those appear at the end (so that the result is the intended one only if the insertion is
  as long as the tail).\<close>

theorem insert_overwrites:
  assumes s: "store_ok s" "get_obj s i = Some ob" "content s i = Some xs"
    and ie: "ie = base_insertElement \<or> ie = kv_insertElement"
    and pos: "unat pos + length bs \<le> length xs" "2 * length xs - unat pos \<le> unat (cm_capacity ob)"
    and cap: "0 < unat (cm_capacity ob)" "unat (cm_capacity ob) < 450359962737049"
  shows "\<exists>s'. ba_insert_bytes ie s i pos (Ext bs) (of_nat (length bs)) = Some (Inr s') \<and> store_ok s' \<and>
    frame i s s' \<and> content s' i =
      Some (take (unat pos) xs @ bs @ drop (unat pos + length bs) xs @ take (length bs) (drop (unat pos) xs))"
proof -
  define n :: usize where "n = of_nat (length bs)"
  have l: "length xs = unat (cm_size ob)" by (rule content_length [OF s(3,2)])
  have le: "unat (cm_size ob) \<le> unat (cm_capacity ob)" by (rule stored_size [OF s(1,2)])
  have n: "unat n = length bs" using pos cap l le by (simp add: n_def word_length)
  have p: "pos \<le> cm_size ob" using pos l by (simp add: word_le_nat_alt)
  have src: "stable_src s i (Ext bs) (unat n) bs" using stable_src_Ext n by simp
  have "\<exists>s1 ob1 b m. ie s i pos (Ext bs) n = lift (insert_copies (cm_size ob) s1 i pos (Ext bs) n) \<and>
    frame i s s1 \<and> ready s1 i ob1 b m \<and> take (unat (cm_size ob)) m = xs \<and> cm_size ob1 = cm_size ob \<and>
    unat (cm_capacity ob) \<le> unat (cm_capacity ob1)"
    using ie
  proof
    assume "ie = base_insertElement"
    moreover have "base_room (unat (cm_capacity ob)) (unat (cm_size ob)) (unat n)"
      using pos l le n cap by (auto simp: base_room_def)
    ultimately show ?thesis using base_ready [OF s p] by (metis order_refl)
  next
    assume "ie = kv_insertElement"
    moreover have "kv_room (unat (cm_capacity ob)) (unat (cm_size ob)) (unat n)"
      using pos l le n cap by (auto simp: kv_room_def)
    ultimately show ?thesis using kv_ready [OF s p] by metis
  qed
  then obtain s1 ob1 b m where d:
    "ie s i pos (Ext bs) n = lift (insert_copies (cm_size ob) s1 i pos (Ext bs) n)" "frame i s s1"
    "ready s1 i ob1 b m" "take (unat (cm_size ob)) m = xs" "cm_size ob1 = cm_size ob"
    "unat (cm_capacity ob) \<le> unat (cm_capacity ob1)" by blast
  have lm: "length m = unat (cm_capacity ob1)" using ready_capacity [OF d(3)] by simp
  have fits: "unat (cm_size ob) + (length xs - unat pos) \<le> unat (cm_capacity ob1)"
    "unat pos + unat n \<le> unat (cm_capacity ob1)" "unat (cm_size ob1) + unat n \<le> unat (cm_capacity ob1)"
    using d(5,6) pos l n by auto
  obtain s' where s': "insert_copies (cm_size ob) s1 i pos (Ext bs) n = Some s'" "store_ok s'" "frame i s1 s'"
    "content s' i = Some (take (unat (cm_size ob) + unat n) (overwrite (unat pos) bs
      (overwrite (unat (cm_size ob)) (take (length xs - unat pos) (drop (unat pos) m)) m)))"
    using insert_copies_rep [OF d(3) stable_src_frame [OF d(2) src] _ _ fits] p d(5) l by auto
  moreover have "take (length xs + length bs) (overwrite (unat pos) bs
      (overwrite (length xs) (take (length xs - unat pos) (drop (unat pos) m)) m)) =
      take (unat pos) xs @ bs @ drop (unat pos + length bs) xs @ take (length bs) (drop (unat pos) xs)"
    by (rule overwrite_middle) (use l le d(4,6) lm pos in auto)
  ultimately show ?thesis
    using frame_trans [OF d(2) s'(3)] d(1) l n by (simp add: ba_insert_bytes_def n_def)
qed

theorem insert_overwrites_witness:
  "\<exists>s'. ba_insert_bytes base_insertElement two_bytes 0 0 (Ext [1]) 1 = Some (Inr s') \<and>
    content s' 0 = Some [1, 8, 7]"
  using insert_overwrites [OF two_bytes_ok two_bytes_obj [of 0, simplified] two_bytes_content,
      of base_insertElement 0 "[1]"] by auto

lemma tcp_prepend_rep:
  assumes s: "store_ok s" "get_obj s i = Some ob" "content s i = Some xs"
    and src: "stable_src s i p (unat n) bs"
    and room: "tcp_room (unat (cm_capacity ob)) (unat (cm_size ob)) (unat n)"
  shows "if length xs \<le> length bs
    then \<exists>s'. tcp_insertElement s i 0 p n = Some (Inr s') \<and> store_ok s' \<and> frame i s s' \<and> content s' i = Some (bs @ xs)
    else tcp_insertElement s i 0 p n = None"
proof -
  have n: "unat n = length bs" using read_ptr_length [of s p "unat n" bs] src by (simp add: stable_src_def)
  have l: "length xs = unat (cm_size ob)" by (rule content_length [OF s(3,2)])
  obtain s1 ob1 b m where d:
    "tcp_insertElement s i 0 p n = lift (insert_copies n s1 i 0 p n)" "frame i s s1"
    "ready s1 i ob1 b m" "take (unat (cm_size ob)) m = xs" "cm_size ob1 = cm_size ob"
    "unat (cm_size ob) + unat n \<le> unat (cm_capacity ob1)"
    using tcp_ready [OF s, of 0 n p] room n by auto
  have lm: "length m = unat (cm_capacity ob1)" using ready_capacity [OF d(3)] by simp
  have p: "data_ptr ob1 = Buf b 0" "get_obj s1 i = Some ob1"
    using d(3) data_ptr_ready by (auto simp: ready_def)
  show ?thesis
  proof (cases "length xs \<le> length bs")
    case True
    obtain s' where s': "insert_copies n s1 i 0 p n = Some s'" "store_ok s'" "frame i s1 s'"
      "content s' i = Some (take (unat (cm_size ob) + unat n)
        (overwrite 0 bs (overwrite (unat n) (take (length xs) m) m)))"
      using insert_copies_rep [OF d(3) stable_src_frame [OF d(2) src], of 0 "length xs" n]
        d(5,6) l n True by auto
    moreover have "take (unat (cm_size ob) + unat n) (overwrite 0 bs (overwrite (unat n) (take (length xs) m) m)) =
        bs @ xs"
      using d(4,6) l n lm by (simp add: overwrite_def min_def)
    ultimately show ?thesis
      using True frame_trans [OF d(2) s'(3)] d(1) by simp
  next
    case False
    then have "byte_memcpy s1 (Buf b (unat n)) (Buf b 0) (unat (cm_size ob)) = None"
      using l n by (auto simp: byte_memcpy_def overlaps_def split: option.split)
    then have "insert_copies n s1 i 0 p n = None"
      using p d(5) by (simp add: insert_copies_def)
    then show ?thesis using False d(1) by simp
  qed
qed

text \<open>\<open>prepend\<close> in TCPServer/ is right when the prefix is at least as long as the array;
  otherwise its first \<open>memcpy\<close> has overlapping regions, which is undefined.\<close>

theorem tcp_prepend:
  assumes s: "store_ok s" "get_obj s i = Some ob" "content s i = Some xs"
    and room: "tcp_room (unat (cm_capacity ob)) (unat (cm_size ob)) (length bs)"
  shows "if length xs \<le> length bs
    then \<exists>s'. ba_prepend_bytes tcp_insertElement s i (Ext bs) (of_nat (length bs)) = Some (Inr s') \<and>
      store_ok s' \<and> frame i s s' \<and> content s' i = Some (bs @ xs)
    else ba_prepend_bytes tcp_insertElement s i (Ext bs) (of_nat (length bs)) = None"
proof -
  have n: "unat (of_nat (length bs) :: usize) = length bs"
    using room by (simp add: word_length tcp_room_def kv_room_def)
  show ?thesis
    using tcp_prepend_rep [OF s, of "Ext bs" "of_nat (length bs)" bs] n room stable_src_Ext
    by (simp add: ba_prepend_bytes_def)
qed

theorem tcp_prepend_witness:
  "(\<exists>s'. ba_prepend_bytes tcp_insertElement two_bytes 0 (Ext [1, 2]) 2 = Some (Inr s') \<and>
      content s' 0 = Some [1, 2, 7, 8]) \<and>
    ba_prepend_bytes tcp_insertElement two_bytes 0 (Ext [1]) 1 = None"
  using tcp_prepend [OF two_bytes_ok two_bytes_obj [of 0, simplified] two_bytes_content, of "[1, 2]"]
    tcp_prepend [OF two_bytes_ok two_bytes_obj [of 0, simplified] two_bytes_content, of "[1]"]
  by (auto simp: tcp_room_def kv_room_def)

text \<open>\<open>remove(pos, len)\<close> clips \<open>len\<close> to the bytes there are; it is right when the tail
  it moves down is not longer than what is removed, and an overlapping \<open>memcpy\<close> otherwise.  A
  position behind the end throws.\<close>

theorem remove_correct:
  assumes "store_ok s" "get_obj s i = Some ob" "content s i = Some xs" "cm_capacity ob \<noteq> 0"
    "k = min (unat len) (length xs - unat pos)"
  shows "if length xs < unat pos then ba_remove braced s i pos len = Some (Inl OutOfRange)
    else if length xs - unat pos - k = 0 \<or> length xs - unat pos - k \<le> k
    then \<exists>s'. ba_remove braced s i pos len = Some (Inr s') \<and> store_ok s' \<and> frame i s s' \<and>
      content s' i = Some (take (unat pos) xs @ drop (unat pos + k) xs)
    else ba_remove braced s i pos len = None"
proof (cases "length xs < unat pos")
  case True
  have l: "length xs = unat (cm_size ob)" by (rule content_length [OF assms(3,2)])
  then show ?thesis
    using True assms(2) by (simp add: ba_remove_def reomveElement_def word_less_nat_alt)
next
  case False
  have l: "length xs = unat (cm_size ob)" by (rule content_length [OF assms(3,2)])
  then have "pos \<le> cm_size ob" using False by (simp add: word_le_nat_alt)
  then show ?thesis
    using False reomveElement_rep [OF assms(1-3) assms(4) _ assms(5) refl] by (simp add: ba_remove_def)
qed

theorem remove_correct_witness:
  "(\<exists>s'. ba_remove True two_bytes 0 0 1 = Some (Inr s') \<and> content s' 0 = Some [8]) \<and>
    ba_remove True two_bytes 0 3 1 = Some (Inl OutOfRange)"
  using remove_correct [OF two_bytes_ok two_bytes_obj [of 0, simplified] two_bytes_content _ refl,
      where braced = True and pos = 0 and len = 1]
    remove_correct [OF two_bytes_ok two_bytes_obj [of 0, simplified] two_bytes_content _ refl,
      where braced = True and pos = 3 and len = 1]
  by (auto simp: min_def)

end
