(* ===== verification/ByteFresh.thy ===== *)
theory ByteFresh
  imports ByteArrays
begin

text \<open>
  Stores that grow: what stays the same when functions make arrays of their own, write to them and
  let them go at the end of their scope.  Shared by the programs that work on many arrays
  (theories ByteSplit, KvProtocol, KvServer, TcpServer).
\<close>

subsection \<open>Stores that grow\<close>

text \<open>The objects there were, and their blocks, are as before.\<close>

definition extends :: "bstore \<Rightarrow> bstore \<Rightarrow> bool" where
  "extends s s' \<longleftrightarrow> length (cm_objs s) \<le> length (cm_objs s') \<and>
     (\<forall>k. get_obj s k \<noteq> None \<longrightarrow> get_obj s' k = get_obj s k \<and>
       (\<forall>b. owner s b k \<longrightarrow> cm_bufs s' b = cm_bufs s b))"

lemma extends_refl [simp]: "extends s s"
  by (simp add: extends_def)

lemma extends_trans: "extends r s \<Longrightarrow> extends s t \<Longrightarrow> extends r t"
  unfolding extends_def by (metis (no_types, lifting) le_trans option.distinct(1) owner_def)

lemma extends_read:
  assumes "extends s s'" "get_obj s k = Some ob"
  shows "read_ptr s' (padd (data_ptr ob) n) m = read_ptr s (padd (data_ptr ob) n) m"
proof -
  have "cm_bufs s' b = cm_bufs s b" if "cm_data ob = Some b" for b
    using assms that by (auto simp: extends_def owner_def)
  then show ?thesis by (auto simp: read_ptr_def padd_def data_ptr_def split: option.split)
qed

lemma padd_0 [simp]: "padd p 0 = p"
  by (simp add: padd_def split: pointer.split)

lemma extends_content:
  assumes "extends s s'" "get_obj s k = Some ob"
  shows "content s' k = content s k"
proof -
  have "get_obj s' k = Some ob" using assms by (simp add: extends_def)
  then show ?thesis using extends_read [OF assms, of 0] assms(2) by (simp add: content_def)
qed

lemma add_obj_null:
  assumes "store_ok s"
  shows "store_ok_but (Some (length (cm_objs s))) (snd (add_obj s \<lparr>cm_data = None, cm_size = 0, cm_capacity = cap\<rparr>))"
    "extends s (snd (add_obj s \<lparr>cm_data = None, cm_size = 0, cm_capacity = cap\<rparr>))"
    "content (snd (add_obj s \<lparr>cm_data = None, cm_size = 0, cm_capacity = cap\<rparr>)) (length (cm_objs s)) = Some []"
proof -
  let ?s = "snd (add_obj s \<lparr>cm_data = None, cm_size = 0, cm_capacity = cap\<rparr>)"
  have n: "get_obj s (length (cm_objs s)) = None" by (simp add: get_obj_def)
  have own: "owner ?s b k \<longleftrightarrow> owner s b k" for b k
    using n by (auto simp: owner_def add_obj_simps)
  have "obj_ok ?s = obj_ok s" by (rule ext) (simp only: obj_ok_def add_obj_simps(3))
  then show "store_ok_but (Some (length (cm_objs s))) ?s"
    using assms unfolding store_ok_but_def own by (auto simp: add_obj_simps split: if_splits)
  show "extends s ?s" using n by (auto simp: extends_def add_obj_simps) (simp add: add_obj_def)
  show "content ?s (length (cm_objs s)) = Some []"
    by (simp add: content_def add_obj_simps read_ptr_def)
qed

lemma frame_extends:
  assumes "frame i s s'" "length (cm_objs r) \<le> i" "extends r s"
  shows "extends r s'"
  unfolding extends_def
proof (intro conjI allI impI)
  show "length (cm_objs r) \<le> length (cm_objs s')"
    using assms(1,3) by (simp add: frame_def extends_def)
next
  fix k assume k: "get_obj r k \<noteq> None"
  then have "k < length (cm_objs r)" by (simp add: get_obj_def split: if_splits)
  moreover have g: "get_obj s k = get_obj r k" using assms(3) k by (simp add: extends_def)
  ultimately have "k \<noteq> i" using assms(2) k by auto
  then show "get_obj s' k = get_obj r k" using assms(1) g by (simp add: frame_def)
  fix b assume "owner r b k"
  moreover from this g have "owner s b k" by (simp add: owner_def)
  ultimately show "cm_bufs s' b = cm_bufs r b"
    using assms(1,3) k \<open>k \<noteq> i\<close> by (simp add: frame_def extends_def)
qed

text \<open>The content is followed by a zero in the block.\<close>

definition terminated :: "bstore \<Rightarrow> nat \<Rightarrow> byte list \<Rightarrow> bool" where
  "terminated s i xs \<longleftrightarrow> (\<exists>ob b m. get_obj s i = Some ob \<and> cm_data ob = Some b \<and> cm_bufs s b = Some m \<and>
     unat (cm_size ob) = length xs \<and> length xs < length m \<and> take (length xs) m = xs \<and> m ! length xs = 0)"

lemma ready_terminated:
  assumes "ready s i ob b m" "take (unat (cm_size ob)) m = xs" "unat (cm_size ob) = length xs"
    "length xs < length m" "m ! length xs = 0"
  shows "terminated s i xs"
  using assms by (auto simp: terminated_def ready_def)

lemma terminated_content: "terminated s i xs \<Longrightarrow> content s i = Some xs"
  by (auto simp: terminated_def content_def data_ptr_def read_ptr_def)

lemma frame_terminated: "frame i s s' \<Longrightarrow> j \<noteq> i \<Longrightarrow> terminated s j xs \<Longrightarrow> terminated s' j xs"
  unfolding terminated_def frame_def owner_def by fastforce

lemma extends_terminated: "extends s s' \<Longrightarrow> terminated s i xs \<Longrightarrow> terminated s' i xs"
  unfolding terminated_def extends_def owner_def by fastforce

text \<open>A pointer into the old store is a stable source for a new object.\<close>

lemma extends_stable:
  assumes e: "extends s s1" and rd: "read_ptr s p n = Some bs"
    and own: "\<forall>b off. p = Buf b off \<longrightarrow> (\<exists>j. owner s b j)" and i: "length (cm_objs s) \<le> i"
  shows "stable_src s1 i p n bs"
proof (cases p)
  case (Buf c off)
  then obtain j where j: "owner s c j" using own by blast
  then have gj: "get_obj s j \<noteq> None" by (auto simp: owner_def)
  then have "j \<noteq> i" using i by (auto simp: get_obj_def split: if_splits)
  moreover have "get_obj s1 j = get_obj s j" "cm_bufs s1 c = cm_bufs s c"
    using e gj j by (auto simp: extends_def)
  ultimately show ?thesis using rd Buf j by (auto simp: stable_src_def read_ptr_def owner_def)
qed (use rd in \<open>auto simp: stable_src_def read_ptr_def split: if_splits\<close>)

text \<open>A new object with a block of zeros.\<close>

lemma fresh_object:
  assumes s: "store_ok s" and cap: "braced \<Longrightarrow> cap \<noteq> 0"
  shows "\<exists>s1 ob1 b. resetBuffer braced (snd (add_obj s \<lparr>cm_data = None, cm_size = 0, cm_capacity = cap\<rparr>))
      (length (cm_objs s)) = Some (Inr s1) \<and> extends s s1 \<and>
    ready s1 (length (cm_objs s)) ob1 b (replicate (unat cap) 0) \<and> cm_size ob1 = 0"
proof -
  let ?i = "length (cm_objs s)" and ?ob = "\<lparr>cm_data = None, cm_size = 0, cm_capacity = cap\<rparr>"
  let ?s = "snd (add_obj s ?ob)"
  note a = add_obj_null [OF s, of cap]
  have g: "get_obj ?s ?i = Some ?ob" by (simp add: add_obj_simps)
  obtain s1 ob1 b where r: "resetBuffer braced ?s ?i = Some (Inr s1)" "frame ?i ?s s1"
    "ready s1 ?i ob1 b (replicate (unat cap) 0)" "cm_size ob1 = 0"
    using resetBuffer_ready [OF a(1) g a(3), of braced] cap by auto
  have "extends s s1" by (rule frame_extends [OF r(2) order_refl a(2)])
  then show ?thesis using r by blast
qed

lemma destroy_rep:
  assumes s: "store_ok s" and g: "get_obj s i = Some ob"
  shows "store_ok (set_obj s i None)" "frame i s (set_obj s i None)"
proof -
  let ?s = "set_obj s i None"
  have own: "owner ?s b k \<longleftrightarrow> k \<noteq> i \<and> owner s b k" for b k
    by (auto simp: owner_set_obj [OF g] points_to_def)
  have keep: "cm_bufs ?s b = cm_bufs s b" if "k \<noteq> i" "owner s b k" for b k
    using that by (auto simp: set_obj_bufs own)
  show "frame i s ?s" using keep by (simp add: frame_def get_obj_set_obj [OF g])
  show "store_ok ?s"
    unfolding store_ok_but_def
  proof (intro conjI allI impI)
    fix j ob' assume j: "get_obj ?s j = Some ob'"
    then have ji: "j \<noteq> i" "get_obj s j = Some ob'" by (simp_all add: get_obj_set_obj [OF g] split: if_splits)
    have "obj_ok s ob'" by (rule store_ok_obj [OF s ji(2)])
    then show "obj_ok ?s ob'"
      using keep [OF ji(1)] ji(2) by (cases "cm_data ob'") (simp_all add: obj_ok_def owner_def)
  next
    fix j b assume "owner ?s b j"
    then have "cm_bufs ?s b = cm_bufs s b" "owner s b j" using keep [of j b] by (simp_all add: own)
    then show "cm_bufs ?s b \<noteq> None" using s by (auto simp: store_ok_but_def)
  next
    fix b assume b: "cm_bufs ?s b \<noteq> None"
    then have sb: "cm_bufs s b \<noteq> None" "\<not> owner s b i \<or> (\<exists>j. owner ?s b j)"
      by (auto simp: set_obj_bufs split: if_splits)
    then show "b < cm_next ?s" using s by (simp add: store_ok_but_def)
    obtain j where "owner s b j" using s sb(1) by (auto simp: store_ok_but_def)
    then show "\<exists>j. owner ?s b j" using sb(2) own by blast
  qed
qed

lemma add_obj_extends: "extends s (snd (add_obj s ob))"
  by (auto simp: extends_def add_obj_simps get_obj_def split: if_splits) (simp_all add: add_obj_def nth_append)

lemma unat_small: "n < 18446744073709551616 \<Longrightarrow> unat (of_nat n :: usize) = n"
  by (simp add: unat_of_nat take_bit_nat_eq_self)

lemma destroy_new:
  assumes s: "store_ok s" and e: "extends r s" and g: "get_obj s i \<noteq> None" and i: "length (cm_objs r) \<le> i"
  shows "\<exists>s'. ba_destroy s i = Some s' \<and> store_ok s' \<and> extends r s' \<and> frame i s s'"
proof -
  obtain ob where ob: "get_obj s i = Some ob" using g by blast
  note d = destroy_rep [OF s ob]
  have "extends r (set_obj s i None)" by (rule frame_extends [OF d(2) i e])
  then show ?thesis using d ob by (simp add: ba_destroy_def)
qed

text \<open>The default constructor.\<close>

lemma new_rep:
  assumes s: "store_ok s"
  shows "\<exists>s1 ob b. ba_new braced s = Some (Inr (length (cm_objs s), s1)) \<and> extends s s1 \<and>
    ready s1 (length (cm_objs s)) ob b (replicate 1024 0) \<and> cm_size ob = 0"
proof -
  obtain s1 ob b where r: "resetBuffer braced
      (snd (add_obj s \<lparr>cm_data = None, cm_size = 0, cm_capacity = defInitcapacity\<rparr>))
      (length (cm_objs s)) = Some (Inr s1)"
    "extends s s1" "ready s1 (length (cm_objs s)) ob b (replicate (unat defInitcapacity) 0)" "cm_size ob = 0"
    using fresh_object [OF s, of braced defInitcapacity] by (auto simp: defInitcapacity_def)
  then have "ba_new braced s = Some (Inr (length (cm_objs s), s1))"
    by (simp add: ba_new_def add_obj_def)
  moreover have "unat defInitcapacity = 1024" by (simp add: defInitcapacity_def)
  ultimately show ?thesis using r by auto
qed

end
