(* ===== verification/ByteSplit.thy ===== *)
theory ByteSplit
  imports ByteFresh "HOL-Library.Sublist"
begin

text \<open>
  What only the copy of \<open>CMByteArray\<close> in kv_store/ has: its constructor from bytes,
  \<open>find\<close>, \<open>split\<close> and \<open>chop\<close>.  \<open>find\<close> compares without looking at the size of the
  array, so that a match is only sure to stop at a zero behind the content, which the constructor
  provides.
\<close>

text \<open>The constructor from bytes in kv_store/.\<close>

definition kv_from_bytes :: "bstore \<Rightarrow> pointer \<Rightarrow> usize \<Rightarrow> (nat \<times> bstore) outcome" where
  "kv_from_bytes s str len = noexcept (
     let (i, s) = add_obj s \<lparr>cm_data = None, cm_size = 0, cm_capacity = len + 1\<rparr>
     in bind_outcome (resetBuffer False s i) (\<lambda>s.
        bind_outcome (kv_insertElement s i 0 str len) (\<lambda>s. Some (Inr (i, s)))))"

subsection \<open>find, split and chop of kv_store\<close>

text \<open>The inner loop of \<open>find\<close>: \<open>pos\<close> is an \<open>int\<close>; it is not compared with
  \<open>_size\<close>.\<close>

function kv_match :: "bstore \<Rightarrow> nat \<Rightarrow> nat \<Rightarrow> int \<Rightarrow> usize \<Rightarrow> bool option" where
  "kv_match s i v pos j = do {
     ob \<leftarrow> get_obj s i;
     vo \<leftarrow> get_obj s v;
     if \<not> j < cm_size vo then Some True
     else if pos < 0 then None
     else do {
       c \<leftarrow> read_ptr s (padd (data_ptr ob) (of_int pos)) 1;
       d \<leftarrow> read_ptr s (padd (data_ptr vo) j) 1;
       if c \<noteq> d then Some False
       else if pos = 2147483647 then None
       else kv_match s i v (pos + 1) (j + 1)
     }
   }"
  by pat_completeness auto
termination
proof (relation "measure (\<lambda>(s, i, v, pos, j).
    case get_obj s v of None \<Rightarrow> 0 | Some vo \<Rightarrow> unat (cm_size vo) - unat j)", goal_cases)
  case (2 s i v pos j ob vo c d)
  then have lt: "unat j < unat (cm_size vo)" by (simp add: word_less_nat_alt)
  then have "unat (j + 1) = Suc (unat j)" by (rule unat_inc_below)
  then show ?case using 2 lt by simp
qed simp

function kv_find :: "bstore \<Rightarrow> nat \<Rightarrow> nat \<Rightarrow> usize \<Rightarrow> usize option" where
  "kv_find s i v k = do {
     ob \<leftarrow> get_obj s i;
     if \<not> k < cm_size ob then Some (-1)
     else do {
       isSame \<leftarrow> kv_match s i v (sint (ucast k :: 32 word)) 0;
       if isSame then Some k else kv_find s i v (k + 1)
     }
   }"
  by pat_completeness auto
termination
proof (relation "measure (\<lambda>(s, i, v, k).
    case get_obj s i of None \<Rightarrow> 0 | Some ob \<Rightarrow> unat (cm_size ob) - unat k)", goal_cases)
  case (2 s i v k ob same)
  then have lt: "unat k < unat (cm_size ob)" by (simp add: word_less_nat_alt)
  then have "unat (k + 1) = Suc (unat k)" by (rule unat_inc_below)
  then show ?case using 2 lt by simp
qed simp

declare kv_match.simps [simp del] kv_find.simps [simp del]

text \<open>\<open>split\<close> returns the objects of the vector: each is a copy of a local \<open>temp\<close>.\<close>

partial_function (option) kv_split_loop ::
    "bstore \<Rightarrow> nat \<Rightarrow> nat \<Rightarrow> usize \<Rightarrow> (nat list \<times> bstore) outcome" where
  "kv_split_loop s i v pos = do {
     index \<leftarrow> kv_find s i v pos;
     if index = - 1 then Some (Inr ([], s))
     else do {
       ob \<leftarrow> get_obj s i;
       vo \<leftarrow> get_obj s v;
       bind_outcome (kv_from_bytes s (padd (data_ptr ob) pos) (index - pos)) (\<lambda>(temp, s). do {
         (r, s) \<leftarrow> ba_copy s temp;
         s \<leftarrow> ba_destroy s temp;
         bind_outcome (kv_split_loop s i v (index + cm_size vo)) (\<lambda>(rs, s). Some (Inr (r # rs, s)))
       })
     }
   }"

definition kv_split :: "bstore \<Rightarrow> nat \<Rightarrow> nat \<Rightarrow> (nat list \<times> bstore) outcome" where
  "kv_split s i v = kv_split_loop s i v 0"

text \<open>\<open>chop\<close> has no \<open>return\<close>: reaching its end is undefined.\<close>

definition kv_chop :: "bstore \<Rightarrow> nat \<Rightarrow> usize \<Rightarrow> bstore outcome" where
  "kv_chop s i count = bind_outcome (lift (get_obj s i)) (\<lambda>ob.
     bind_outcome (ba_remove False s i (cm_size ob - count) (- 1)) (\<lambda>s. None))"

subsection \<open>New arrays\<close>

text \<open>The first bytes put into a fresh block.\<close>

lemma fresh_insert:
  assumes r: "ready s i ob b (replicate c 0)" "cm_size ob = 0" and src: "stable_src s i p (unat n) bs"
    and n: "unat n \<le> c"
  shows "\<exists>s' ob'. kv_insertElement s i 0 p n = Some (Inr s') \<and> store_ok s' \<and> frame i s s' \<and>
    get_obj s' i = Some ob' \<and> cm_size ob' = n \<and> content s' i = Some bs \<and>
    (unat n < c \<longrightarrow> terminated s' i bs)"
proof -
  have g: "get_obj s i = Some ob" using r(1) by (simp add: ready_def)
  have cap: "unat (cm_capacity ob) = c" using ready_capacity [OF r(1)] by simp
  have rd: "read_ptr s p (unat n) = Some bs" using src by (simp add: stable_src_def)
  have lb: "length bs = unat n" by (rule read_ptr_length [OF rd])
  obtain s' where s': "insert_copies 0 s i 0 p n = Some s'"
    "ready s' i (ob\<lparr>cm_size := n\<rparr>) b (overwrite 0 bs (replicate c 0))" "frame i s s'" "content s' i = Some bs"
    using insert_copies_end [OF r(1) rd stable_src_apart [OF r(1) src], of 0] n cap r(2) by auto
  have "\<not> cm_capacity ob < cm_size ob + n" using n cap r(2) by (simp add: word_less_nat_alt)
  then have "kv_insertElement s i 0 p n = Some (Inr s')"
    using g s'(1) r(2) ready_unique [OF r(1)] by (simp add: kv_insertElement_def)
  moreover have "terminated s' i bs" if "unat n < c"
    by (rule ready_terminated [OF s'(2)]) (use that lb in \<open>simp_all add: overwrite_def nth_append\<close>)
  ultimately show ?thesis using s' by (auto simp: ready_def)
qed

lemma kv_from_bytes_rep:
  assumes s: "store_ok s" and rd: "read_ptr s p (unat len) = Some bs"
    and own: "\<forall>b off. p = Buf b off \<longrightarrow> (\<exists>j. owner s b j)" and len: "unat len < 4294967296"
  shows "\<exists>s'. kv_from_bytes s p len = Some (Inr (length (cm_objs s), s')) \<and> store_ok s' \<and>
    terminated s' (length (cm_objs s)) bs \<and> extends s s'"
proof -
  let ?i = "length (cm_objs s)"
  obtain s1 ob1 b where r: "resetBuffer False
      (snd (add_obj s \<lparr>cm_data = None, cm_size = 0, cm_capacity = len + 1\<rparr>)) ?i = Some (Inr s1)" "extends s s1"
    "ready s1 ?i ob1 b (replicate (unat (len + 1)) 0)" "cm_size ob1 = 0"
    using fresh_object [OF s, where braced = False] by blast
  have u: "unat (len + 1) = Suc (unat len)" using len by (simp add: unat_add_usize)
  obtain s' where s': "kv_insertElement s1 ?i 0 p len = Some (Inr s')" "store_ok s'" "frame ?i s1 s'"
    "terminated s' ?i bs"
    using fresh_insert [OF r(3,4) extends_stable [OF r(2) rd own order_refl]] u by auto
  have "extends s s'" by (rule frame_extends [OF s'(3) order_refl r(2)])
  moreover have "kv_from_bytes s p len = Some (Inr (?i, s'))"
    using r(1) s'(1) by (simp add: kv_from_bytes_def add_obj_def)
  ultimately show ?thesis using s'(2,4) by blast
qed

subsection \<open>find\<close>

lemma terminated_read:
  assumes "terminated s i xs" "get_obj s i = Some ob" "unat k \<le> length xs"
  shows "read_ptr s (padd (data_ptr ob) k) 1 = Some [(xs @ [0]) ! unat k]"
proof -
  obtain b m where m: "cm_data ob = Some b" "cm_bufs s b = Some m" "length xs < length m"
    "take (length xs) m = xs" "m ! length xs = 0"
    using assms(1,2) by (auto simp: terminated_def)
  have "take 1 (drop (unat k) m) = [m ! unat k]"
    using assms(3) m(3) by (simp add: take_Suc_conv_app_nth hd_drop_conv_nth take_Suc)
  moreover have "m ! unat k = (xs @ [0]) ! unat k"
  proof (cases "unat k = length xs")
    case False
    then have "unat k < length xs" using assms(3) by simp
    then show ?thesis using m(4) by (metis nth_append nth_take)
  qed (use m(5) in simp)
  ultimately show ?thesis using m(1-3) assms(3) by (simp add: read_ptr_def data_ptr_def)
qed

lemma content_read:
  assumes "content s i = Some xs" "get_obj s i = Some ob" "unat k < length xs"
  shows "read_ptr s (padd (data_ptr ob) k) 1 = Some [xs ! unat k]"
proof -
  have l: "length xs = unat (cm_size ob)" by (rule content_length [OF assms(1,2)])
  then obtain b m where m: "cm_data ob = Some b" "cm_bufs s b = Some m" "length xs \<le> length m"
    "take (length xs) m = xs"
    using assms by (auto simp: content_def read_ptr_def data_ptr_def split: option.splits if_splits)
  have "take 1 (drop (unat k) m) = [m ! unat k]"
    using assms(3) m(3) by (simp add: hd_drop_conv_nth take_Suc)
  moreover have "m ! unat k = xs ! unat k" using assms(3) m(4) by (metis nth_take)
  ultimately show ?thesis using m assms(3) by (simp add: read_ptr_def data_ptr_def)
qed

lemma kv_match_rep:
  assumes t: "terminated s i xs" and v: "content s v = Some vs" and nz: "0 \<notin> set vs"
    and l: "length xs < 2147483647" "length vs < 18446744073709551616"
    and j: "j \<le> length vs" "a + j \<le> length xs"
  shows "kv_match s i v (int (a + j)) (of_nat j) = Some (prefix (drop j vs) (drop (a + j) xs))"
  using j
proof (induction "length vs - j" arbitrary: j)
  case 0
  obtain ob vo where g: "get_obj s i = Some ob" "get_obj s v = Some vo"
    using t v by (auto simp: terminated_def content_def split: bind_splits)
  have u: "unat (of_nat j :: usize) = j" using 0 l by (simp add: unat_of_nat take_bit_nat_eq_self)
  have "\<not> of_nat j < cm_size vo"
    using 0 content_length [OF v g(2)] u by (simp add: word_less_nat_alt)
  then show ?case using 0 g by (simp add: kv_match.simps)
next
  case (Suc n)
  obtain ob vo where g: "get_obj s i = Some ob" "get_obj s v = Some vo"
    using t v by (auto simp: terminated_def content_def split: bind_splits)
  have jl: "j < length vs" using Suc.hyps(2) by simp
  have u: "unat (of_nat j :: usize) = j" using jl l by (simp add: unat_of_nat take_bit_nat_eq_self)
  have lt: "of_nat j < cm_size vo" using jl content_length [OF v g(2)] u by (simp add: word_less_nat_alt)
  have "unat (of_nat (a + j) :: usize) = a + j"
    unfolding unat_of_nat using Suc.prems l by (simp add: take_bit_nat_eq_self)
  then have ua: "unat (of_int (int (a + j)) :: usize) = a + j" by simp
  have c: "read_ptr s (padd (data_ptr ob) (of_int (int (a + j)))) 1 = Some [(xs @ [0]) ! (a + j)]"
    using terminated_read [OF t g(1), of "of_int (int (a + j))"] Suc.prems(2) unfolding ua by simp
  have d: "read_ptr s (padd (data_ptr vo) (of_nat j)) 1 = Some [vs ! j]"
    using content_read [OF v g(2), of "of_nat j"] jl unfolding u by simp
  have dv: "drop j vs = vs ! j # drop (Suc j) vs" using jl by (simp add: Cons_nth_drop_Suc)
  have nz': "vs ! j \<noteq> 0" using nz jl nth_mem by fastforce
  show ?case
  proof (cases "(xs @ [0]) ! (a + j) = vs ! j")
    case False
    have "\<not> prefix (drop j vs) (drop (a + j) xs)"
    proof (cases "a + j < length xs")
      case True
      then have "drop (a + j) xs = xs ! (a + j) # drop (Suc (a + j)) xs"
        by (simp add: Cons_nth_drop_Suc)
      then show ?thesis using False True dv by (simp add: nth_append)
    qed (use dv in simp)
    then show ?thesis
      using False g lt c d by (subst kv_match.simps) simp
  next
    case True
    then have less: "a + j < length xs" using nz' Suc.prems(2) by (cases "a + j = length xs") auto
    have rec: "kv_match s i v (int (a + Suc j)) (of_nat (Suc j)) =
        Some (prefix (drop (Suc j) vs) (drop (a + Suc j) xs))"
      by (rule Suc.hyps(1)) (use Suc.hyps(2) jl less in auto)
    have "drop (a + j) xs = xs ! (a + j) # drop (a + Suc j) xs"
      using less by (simp add: Cons_nth_drop_Suc)
    then have p: "prefix (drop j vs) (drop (a + j) xs) = prefix (drop (Suc j) vs) (drop (a + Suc j) xs)"
      using dv True less by (simp add: nth_append)
    have "int (a + j) + 1 = int (a + Suc j)" "(of_nat j :: usize) + 1 = of_nat (Suc j)"
      "int (a + j) \<noteq> 2147483647" using less l by auto
    then show ?thesis
      using g lt c d True rec p by (subst kv_match.simps) (simp only: bind.simps, simp)
  qed
qed

definition matches :: "byte list \<Rightarrow> byte list \<Rightarrow> nat \<Rightarrow> bool" where
  "matches vs xs j \<longleftrightarrow> prefix vs (drop j xs)"

lemma kv_find_rep:
  assumes t: "terminated s i xs" and v: "content s v = Some vs" and nz: "0 \<notin> set vs"
    and l: "length xs < 2147483647" "length vs < 18446744073709551616"
  shows "kv_find s i v k = Some (case find (matches vs xs) [unat k..<length xs] of
    None \<Rightarrow> - 1 | Some j \<Rightarrow> of_nat j)"
proof (induction "length xs - unat k" arbitrary: k)
  case 0
  obtain ob where g: "get_obj s i = Some ob" "unat (cm_size ob) = length xs"
    using t by (auto simp: terminated_def)
  have "\<not> k < cm_size ob" using 0 g(2) by (simp add: word_less_nat_alt)
  then show ?case using 0 g(1) by (simp add: kv_find.simps)
next
  case (Suc n)
  obtain ob where g: "get_obj s i = Some ob" "unat (cm_size ob) = length xs"
    using t by (auto simp: terminated_def)
  have lt: "unat k < length xs" using Suc.hyps(2) by simp
  then have kl: "k < cm_size ob" using g(2) by (simp add: word_less_nat_alt)
  have u: "unat (k + 1) = Suc (unat k)" by (rule unat_inc_below [of _ "cm_size ob"]) (use lt g(2) in simp)
  have si: "sint (ucast k :: 32 word) = int (unat k)" using lt l by (intro sint_int32) simp
  have m: "kv_match s i v (int (unat k)) 0 = Some (matches vs xs (unat k))"
    using kv_match_rep [OF t v nz l, of 0 "unat k"] lt by (simp add: matches_def)
  have "[unat k..<length xs] = unat k # [Suc (unat k)..<length xs]" using lt by (rule upt_conv_Cons)
  moreover have "kv_find s i v (k + 1) = Some (case find (matches vs xs) [Suc (unat k)..<length xs] of
    None \<Rightarrow> - 1 | Some j \<Rightarrow> of_nat j)"
    using Suc.hyps(1) [of "k + 1"] Suc.hyps(2) u by simp
  ultimately show ?case
    using g(1) kl m by (subst kv_find.simps) (simp add: si)
qed

subsection \<open>split\<close>

text \<open>One piece: the temporary, its copy in the vector, the end of the temporary.\<close>

lemma kv_piece:
  assumes s: "store_ok s" and rd: "read_ptr s p (unat len) = Some bs"
    and own: "\<forall>b off. p = Buf b off \<longrightarrow> (\<exists>j. owner s b j)" and len: "unat len < 4294967296"
  shows "\<exists>t s1 r s2 s3. kv_from_bytes s p len = Some (Inr (t, s1)) \<and> ba_copy s1 t = Some (r, s2) \<and>
    ba_destroy s2 t = Some s3 \<and> store_ok s3 \<and> extends s s3 \<and> terminated s3 r bs \<and>
    length (cm_objs s) \<le> r \<and> r < length (cm_objs s3)"
proof -
  let ?t = "length (cm_objs s)"
  obtain s1 where s1: "kv_from_bytes s p len = Some (Inr (?t, s1))" "store_ok s1"
    "terminated s1 ?t bs" "extends s s1"
    using kv_from_bytes_rep [OF assms] by blast
  obtain ob where g: "get_obj s1 ?t = Some ob" using s1(3) by (auto simp: terminated_def)
  let ?r = "length (cm_objs s1)" and ?s2 = "snd (add_obj s1 ob)"
  have s2: "ba_copy s1 ?t = Some (?r, ?s2)" using g by (simp add: ba_copy_def add_obj_def)
  have ok: "store_ok ?s2" using copy_rep [OF s1(2) g] s2 by auto
  have e: "extends s1 ?s2" by (rule add_obj_extends)
  have rt: "?r \<noteq> ?t" "?t \<le> ?r" using get_obj_length [OF g] by simp_all
  have g2: "get_obj ?s2 ?t = Some ob" using e g by (simp add: extends_def)
  have tr: "terminated ?s2 ?r bs"
    using s1(3) g by (auto simp: terminated_def add_obj_simps)
  note d = destroy_rep [OF ok g2]
  have "extends s (set_obj ?s2 ?t None)"
    by (rule frame_extends [OF d(2) order_refl extends_trans [OF s1(4) e]])
  moreover have "terminated (set_obj ?s2 ?t None) ?r bs" by (rule frame_terminated [OF d(2) rt(1) tr])
  moreover have "ba_destroy ?s2 ?t = Some (set_obj ?s2 ?t None)" using g2 by (simp add: ba_destroy_def)
  moreover have "?r < length (cm_objs (set_obj ?s2 ?t None))" by (simp add: add_obj_def)
  ultimately show ?thesis using s1(1) s2 d(1) rt(2) by blast
qed

lemma first_match:
  assumes "find (matches vs xs) [q..<length xs] = Some j" "vs \<noteq> []"
  shows "q \<le> j" "j + length vs \<le> length xs"
    "drop q xs = take (j - q) (drop q xs) @ vs @ drop (j + length vs) xs"
    "i < j - q \<Longrightarrow> \<not> prefix vs (drop i (take (j - q) (drop q xs) @ vs))"
proof -
  have "j \<in> set [q..<length xs] \<and> matches vs xs j \<and> (\<forall>i\<in>{q..<j}. \<not> matches vs xs i)"
    using assms(1) by (auto simp: find_Some_iff) (metis add.commute le_Suc_ex nat_add_left_cancel_less)
  then have j: "q \<le> j" "j < length xs" "prefix vs (drop j xs)" "\<forall>i\<in>{q..<j}. \<not> prefix vs (drop i xs)"
    by (auto simp: matches_def)
  show "q \<le> j" by (rule j(1))
  obtain zs where zs: "drop j xs = vs @ zs" using j(3) by (auto simp: prefix_def)
  then have "length xs - j = length vs + length zs" by (metis length_append length_drop)
  then show "j + length vs \<le> length xs" using j(2) by simp
  have "drop (j + length vs) xs = zs" using zs by (metis append_eq_conv_conj drop_drop add.commute)
  then have s: "drop q xs = take (j - q) (drop q xs) @ vs @ drop (j + length vs) xs"
    using zs j(1) append_take_drop_id [of "j - q" "drop q xs"] by simp
  then show "drop q xs = take (j - q) (drop q xs) @ vs @ drop (j + length vs) xs" .
  show "\<not> prefix vs (drop i (take (j - q) (drop q xs) @ vs))" if i: "i < j - q"
  proof
    let ?p = "take (j - q) (drop q xs) @ vs"
    assume "prefix vs (drop i ?p)"
    moreover have "drop q xs = ?p @ drop (j + length vs) xs" using s by simp
    then have "drop (q + i) xs = drop i (?p @ drop (j + length vs) xs)"
      by (metis add.commute drop_drop)
    then have "prefix (drop i ?p) (drop (q + i) xs)" using i j(2) by simp
    ultimately have "prefix vs (drop (q + i) xs)" by (metis prefix_order.trans)
    then show False using j(4) i by auto
  qed
qed

lemma no_match:
  assumes "find (matches vs xs) [q..<length xs] = None" "i < length (drop q xs)"
  shows "\<not> prefix vs (drop i (drop q xs))"
  using assms by (auto simp: find_None_iff matches_def add.commute)

definition minimal :: "byte list \<Rightarrow> byte list \<Rightarrow> bool" where
  "minimal vs p \<longleftrightarrow> (\<forall>i<length p. \<not> prefix vs (drop i (p @ vs)))"

lemma kv_split_loop_rep:
  assumes "store_ok s" "terminated s i xs" "content s v = Some vs" "vs \<noteq> []" "0 \<notin> set vs"
    "length xs < 2147483647" "q \<le> length xs"
  shows "\<exists>rs s' ps rest. kv_split_loop s i v (of_nat q) = Some (Inr (rs, s')) \<and> store_ok s' \<and>
    extends s s' \<and> list_all2 (terminated s') rs ps \<and> distinct rs \<and>
    (\<forall>r\<in>set rs. length (cm_objs s) \<le> r \<and> r < length (cm_objs s')) \<and> drop q xs = concat (map (\<lambda>p. p @ vs) ps) @ rest \<and>
    (\<forall>j<length rest. \<not> prefix vs (drop j rest)) \<and> (\<forall>p\<in>set ps. minimal vs p)"
  using assms
proof (induction "length xs - q" arbitrary: q s rule: less_induct)
  case less
  note t = less.prems(2) and v = less.prems(3) and l = less.prems(6) and q = less.prems(7)
  obtain ob vo b m where g: "get_obj s i = Some ob" "unat (cm_size ob) = length xs" "get_obj s v = Some vo"
    "cm_data ob = Some b" "cm_bufs s b = Some m" "length xs < length m" "take (length xs) m = xs"
    using t v by (auto simp: terminated_def content_def split: bind_splits)
  have vl: "length vs = unat (cm_size vo)" by (rule content_length [OF v g(3)])
  have u: "unat (of_nat n :: usize) = n" if "n \<le> length xs" for n
    using that l by (simp add: unat_of_nat take_bit_nat_eq_self)
  have f: "kv_find s i v (of_nat q) = Some (case find (matches vs xs) [q..<length xs] of
      None \<Rightarrow> - 1 | Some j \<Rightarrow> of_nat j)"
    using kv_find_rep [OF t v less.prems(5) l, of "of_nat q"] vl u [OF q] by simp
  show ?case
  proof (cases "find (matches vs xs) [q..<length xs]")
    case None
    then have "kv_split_loop s i v (of_nat q) = Some (Inr ([], s))"
      using f by (subst kv_split_loop.simps) simp
    then show ?thesis
      using less.prems(1) no_match [OF None]
      by (intro exI [of _ "[]"] exI [of _ s] exI [of _ "drop q xs"]) auto
  next
    case (Some j)
    note fm = first_match [OF Some less.prems(4)]
    define p where "p = take (j - q) (drop q xs)"
    have jl: "j < length xs" using fm(2) less.prems(4) by (cases vs) auto
    have ix: "(of_nat j :: usize) \<noteq> - 1"
    proof
      assume "(of_nat j :: usize) = - 1"
      then have "unat (of_nat j :: usize) = 18446744073709551615" by (simp only: unat_minus_one_uint64)
      then show False using u [of j] jl l by simp
    qed
    have uj: "unat (of_nat j - of_nat q :: usize) = j - q"
      using fm(1) jl u [of j] u [OF q] by (simp add: unat_sub_usize word_le_nat_alt)
    have "take (length xs - q) (drop q m) = drop q xs"
      using arg_cong [OF g(7), of "drop q"] by (simp only: drop_take)
    then have "p = take (j - q) (take (length xs - q) (drop q m))" by (simp only: p_def)
    then have "take (j - q) (drop q m) = p" using jl by (simp add: min_absorb1)
    then have rd: "read_ptr s (padd (data_ptr ob) (of_nat q)) (unat (of_nat j - of_nat q :: usize)) = Some p"
      using g(4-6) jl fm(1) by (auto simp: read_ptr_def data_ptr_def uj u [OF q])
    obtain tt s1 r s2 s3 where k:
      "kv_from_bytes s (padd (data_ptr ob) (of_nat q)) (of_nat j - of_nat q) = Some (Inr (tt, s1))"
      "ba_copy s1 tt = Some (r, s2)" "ba_destroy s2 tt = Some s3" "store_ok s3" "extends s s3"
      "terminated s3 r p" "length (cm_objs s) \<le> r" "r < length (cm_objs s3)"
    proof -
      have "\<forall>c off. padd (data_ptr ob) (of_nat q) = Buf c off \<longrightarrow> (\<exists>k. owner s c k)"
        using g(1,4) by (auto simp: data_ptr_def owner_def)
      moreover have "unat (of_nat j - of_nat q :: usize) < 4294967296" using uj jl l by simp
      ultimately show thesis using kv_piece [OF less.prems(1) rd] that by blast
    qed
    have q': "j + length vs \<le> length xs" "length xs - (j + length vs) < length xs - q"
      using fm(1,2) less.prems(4) by (cases vs; simp)+
    have v3: "content s3 v = Some vs" using extends_content [OF k(5) g(3)] v by simp
    obtain rs s' ps rest where r: "kv_split_loop s3 i v (of_nat (j + length vs)) = Some (Inr (rs, s'))"
      "store_ok s'" "extends s3 s'" "list_all2 (terminated s') rs ps" "distinct rs"
      "\<forall>r\<in>set rs. length (cm_objs s3) \<le> r \<and> r < length (cm_objs s')"
      "drop (j + length vs) xs = concat (map (\<lambda>p. p @ vs) ps) @ rest"
      "\<forall>j<length rest. \<not> prefix vs (drop j rest)" "\<forall>p\<in>set ps. minimal vs p"
      using less.hyps [OF q'(2) k(4) extends_terminated [OF k(5) t] v3 less.prems(4-6) q'(1)] by blast
    have "(of_nat j + cm_size vo :: usize) = of_nat (j + length vs)"
      by (simp add: vl)
    then have "kv_split_loop s i v (of_nat q) = Some (Inr (r # rs, s'))"
      using f Some ix g(1,3) k(1-3) r(1) by (subst kv_split_loop.simps) simp
    moreover have "terminated s' r p" by (rule extends_terminated [OF r(3) k(6)])
    moreover have "length (cm_objs s) \<le> length (cm_objs s3)" "length (cm_objs s3) \<le> length (cm_objs s')"
      using k(5) r(3) by (auto simp: extends_def)
    then have "distinct (r # rs)" "\<forall>a\<in>set (r # rs). length (cm_objs s) \<le> a \<and> a < length (cm_objs s')"
      using r(5,6) k(7,8) by fastforce+
    moreover have "drop q xs = concat (map (\<lambda>p. p @ vs) (p # ps)) @ rest"
      using fm(3) r(7) by (simp add: p_def)
    moreover have "minimal vs p" using fm(1,4) jl by (simp add: minimal_def p_def)
    ultimately show ?thesis
      using r(2,4,8,9) extends_trans [OF k(5) r(3)]
      by (intro exI [of _ "r # rs"] exI [of _ s'] exI [of _ "p # ps"] exI [of _ rest]) simp
  qed
qed

subsection \<open>Properties\<close>


definition line_store :: bstore where
  "line_store = \<lparr>cm_objs = [Some \<lparr>cm_data = Some 0, cm_size = 3, cm_capacity = 4\<rparr>,
       Some \<lparr>cm_data = Some 1, cm_size = 1, cm_capacity = 1\<rparr>],
     cm_bufs = (\<lambda>b. if b = 0 then Some [1, 9, 2, 0] else if b = 1 then Some [9] else None), cm_next = 2\<rparr>"

lemma line_store_obj: "get_obj line_store j =
    (if j = 0 then Some \<lparr>cm_data = Some 0, cm_size = 3, cm_capacity = 4\<rparr>
     else if j = 1 then Some \<lparr>cm_data = Some 1, cm_size = 1, cm_capacity = 1\<rparr> else None)"
  by (auto simp: get_obj_def line_store_def less_Suc_eq nth_Cons')

lemma line_store_ok: "store_ok line_store"
proof -
  have own: "owner line_store b j \<longleftrightarrow> j = 0 \<and> b = 0 \<or> j = 1 \<and> b = 1" for b j
    by (auto simp: owner_def line_store_obj)
  have bufs: "cm_bufs line_store b \<noteq> None \<longleftrightarrow> b = 0 \<or> b = 1" "cm_next line_store = 2" for b
    by (simp_all add: line_store_def)
  show ?thesis
    unfolding store_ok_but_def own bufs
    by (auto simp: obj_ok_def line_store_obj split: if_splits) (simp_all add: line_store_def)
qed

lemma line_store_content: "content line_store 1 = Some [9]"
  by (simp add: content_def line_store_obj data_ptr_def read_ptr_def) (simp add: line_store_def)


text \<open>appending a kv_store/ array that does not share its block to itself doubles it as long
  as it need not grow; when it grows the source pointer dangles.\<close>

theorem kv_self_append:
  assumes s: "store_ok s" "get_obj s i = Some ob" "content s i = Some xs" and u: "unique s ob"
    and room: "kv_room (unat (cm_capacity ob)) (length xs) (length xs)"
  shows "if 2 * length xs \<le> unat (cm_capacity ob)
    then \<exists>s'. ba_append kv_insertElement s i i = Some (Inr s') \<and> store_ok s' \<and> frame i s s' \<and>
      content s' i = Some (xs @ xs)
    else ba_append kv_insertElement s i i = None"
proof -
  have l: "length xs = unat (cm_size ob)" by (rule content_length [OF s(3,2)])
  obtain b m where r: "ready s i ob b m" using unique_ready [OF s(1,2) u] by blast
  have d: "data_ptr ob = Buf b 0" by (rule data_ptr_ready [OF r])
  have e: "ba_append kv_insertElement s i i = kv_insertElement s i (cm_size ob) (Buf b 0) (cm_size ob)"
    using s(2) d by (simp add: ba_append_def)
  have dbl: "unat (cm_size ob + cm_size ob) = 2 * unat (cm_size ob)"
    using room l by (subst unat_add_usize) (simp_all add: kv_room_def)
  show ?thesis
  proof (cases "2 * length xs \<le> unat (cm_capacity ob)")
    case True
    have "read_ptr s (Buf b 0) (unat (cm_size ob)) = Some xs" using s(2,3) d by (simp add: content_def)
    then obtain s' where "insert_copies (cm_size ob) s i (cm_size ob) (Buf b 0) (cm_size ob) = Some s'"
      "ready s' i (ob\<lparr>cm_size := cm_size ob + cm_size ob\<rparr>) b (overwrite (unat (cm_size ob)) xs m)"
      "frame i s s'" "content s' i = Some (take (unat (cm_size ob)) m @ xs)"
      using insert_copies_end [OF r, of "Buf b 0" "cm_size ob" xs] True l by (auto simp: overlaps_def)
    moreover have "\<not> cm_capacity ob < cm_size ob + cm_size ob"
      using True l dbl by (simp add: word_less_nat_alt)
    ultimately show ?thesis
      using True u s(2) ready_take [OF r s(3)] by (auto simp: e kv_insertElement_def ready_def)
  next
    case False
    then have big: "cm_capacity ob < cm_size ob + cm_size ob"
      using l dbl by (simp add: word_less_nat_alt)
    have "kv_room (unat (cm_capacity ob)) (unat (cm_size ob)) (unat (cm_size ob))" using room l by simp
    then obtain g where g: "grown (cm_capacity ob) (cm_size ob) = Some g" "unat (cm_capacity ob) \<le> unat g"
      using grown_room [OF _ stored_size [OF s(1,2)] big] by blast
    obtain s1 ob1 c m1 where r1: "resetBuffer False (set_obj s i (Some (ob\<lparr>cm_capacity := g\<rparr>))) i = Some (Inr s1)"
      "frame i s s1" "ready s1 i ob1 c m1" "cm_size ob1 = cm_size ob" "c = cm_next s"
      using reset_grown [OF s g(2), where braced = False] by blast
    have b: "\<forall>j. owner s b j \<longrightarrow> j = i" "b < cm_next s"
      using r s(1) by (simp_all add: ready_def store_ok_but_def)
    have g1: "get_obj s1 i = Some ob1" "cm_data ob1 = Some c" "store_ok s1"
      using r1(3) by (simp_all add: ready_def)
    have "\<not> owner s1 b j" for j
    proof (cases "j = i")
      case True
      then show ?thesis using g1 r1(5) b(2) by (simp add: owner_def)
    next
      case False
      then have "owner s1 b j \<longleftrightarrow> owner s b j" using r1(2) by (simp add: frame_def owner_def)
      then show ?thesis using False b(1) by blast
    qed
    then have "cm_bufs s1 b = None" using g1(3) unfolding store_ok_but_def by blast
    moreover have "0 < unat (cm_size ob)" using False l by (cases xs) auto
    ultimately have "byte_memcpy s1 dst (Buf b 0) (unat (cm_size ob)) = None" for dst
      by (simp add: byte_memcpy_def read_ptr_def)
    moreover have "get_obj s1 i = Some ob1" "data_ptr ob1 = Buf c 0" "unique s1 ob1"
      using r1(3) data_ptr_ready ready_unique by (auto simp: ready_def)
    ultimately show ?thesis
      using False s(2) big g(1) r1(1,4)
      by (simp add: e kv_insertElement_def insert_copies_def)
  qed
qed

theorem kv_self_append_witness:
  "\<exists>s'. ba_append kv_insertElement two_bytes 0 0 = Some (Inr s') \<and> content s' 0 = Some [7, 8, 7, 8]"
  using kv_self_append [OF two_bytes_ok two_bytes_obj [of 0, simplified] two_bytes_content two_bytes_unique]
  by (simp add: kv_room_def) blast

end
