(* ===== verification/KvProtocol.thy ===== *)
theory KvProtocol
  imports ByteSplit
begin

text \<open>
  \<open>ProtocolHelper::analysis\<close> of kv_store/Protocol.cpp, which takes the requests out of the
  bytes a client has sent: a line with the length of the command, then the command, whose lines are
  its name, the key and the value.  It works on the arrays of theory ByteSplit; its locals are
  objects of the store that end with their scope.
\<close>

subsection \<open>getLine\<close>

function gl_scan :: "bstore \<Rightarrow> pointer \<Rightarrow> usize \<Rightarrow> usize \<Rightarrow> usize option" where
  "gl_scan s data dataLen i =
     (if i < dataLen - 1 then do {
        c \<leftarrow> read_ptr s (padd data i) 1;
        if c = [13] then do {
          d \<leftarrow> read_ptr s (padd data (i + 1)) 1;
          if d = [10] then Some i else gl_scan s data dataLen (i + 1)
        } else gl_scan s data dataLen (i + 1)
      } else Some i)"
  by pat_completeness auto
termination
  by (relation "measure (\<lambda>(s, data, dataLen, i). unat (dataLen - 1) - unat i)")
    (auto simp: word_less_nat_alt unat_inc_below)

declare gl_scan.simps [simp del]

definition getLine :: "bstore \<Rightarrow> pointer \<Rightarrow> usize \<Rightarrow> nat \<Rightarrow> (bool \<times> bstore) outcome" where
  "getLine s data dataLen line = bind_outcome (lift (gl_scan s data dataLen 0)) (\<lambda>i.
     if i = dataLen - 1 then Some (Inr (False, s))
     else bind_outcome (ba_append_bytes kv_insertElement s line data i) (\<lambda>s. Some (Inr (True, s))))"

subsection \<open>The C library\<close>

text \<open>\<open>atoi\<close>: white space, a sign, digits; a value outside \<open>int\<close> is undefined.\<close>

partial_function (option) skip_space :: "bstore \<Rightarrow> pointer \<Rightarrow> pointer option" where
  "skip_space s p = do {
     c \<leftarrow> read_ptr s p 1;
     if c \<in> {[32], [9], [10], [11], [12], [13]} then skip_space s (padd p 1) else Some p
   }"

partial_function (option) digits :: "bstore \<Rightarrow> pointer \<Rightarrow> nat \<Rightarrow> nat option" where
  "digits s p acc = do {
     c \<leftarrow> read_ptr s p 1;
     if 48 \<le> unat (hd c) \<and> unat (hd c) \<le> 57 then digits s (padd p 1) (acc * 10 + (unat (hd c) - 48))
     else Some acc
   }"

declare skip_space.simps [code] digits.simps [code]

definition atoi :: "bstore \<Rightarrow> pointer \<Rightarrow> int option" where
  "atoi s p = do {
     p \<leftarrow> skip_space s p;
     c \<leftarrow> read_ptr s p 1;
     n \<leftarrow> digits s (if c \<in> {[43], [45]} then padd p 1 else p) 0;
     let v = (if c = [45] then - int n else int n);
     if - 2147483648 \<le> v \<and> v \<le> 2147483647 then Some v else None
   }"

text \<open>\<open>strcmp(p, literal) == 0\<close>.\<close>

fun strcmp_eq :: "bstore \<Rightarrow> pointer \<Rightarrow> byte list \<Rightarrow> bool option" where
  "strcmp_eq s p [] = do { c \<leftarrow> read_ptr s p 1; Some (c = [0]) }"
| "strcmp_eq s p (l # ls) = do {
     c \<leftarrow> read_ptr s p 1;
     if c = [l] then strcmp_eq s (padd p 1) ls else Some False
   }"

subsection \<open>getCommand\<close>

definition command_names :: "byte list list" where
  "command_names = [lit ''Get'', lit ''Set'', lit ''Del'', lit ''Exist'']"

text \<open>The loop over \<open>type\<close>, up to \<open>Count\<close>.\<close>

fun find_type :: "bstore \<Rightarrow> pointer \<Rightarrow> byte list list \<Rightarrow> nat \<Rightarrow> nat option" where
  "find_type s p [] type = Some type"
| "find_type s p (name # names) type = do {
     e \<leftarrow> strcmp_eq s p name;
     if e then Some type else find_type s p names (type + 1)
   }"

fun destroy_all :: "bstore \<Rightarrow> nat list \<Rightarrow> bstore option" where
  "destroy_all s [] = Some s"
| "destroy_all s (i # is) = do { s \<leftarrow> ba_destroy s i; destroy_all s is }"

text \<open>Only an empty list of lines and an unknown command reach a \<open>return\<close>: the lambda ends
  without one after a known command, which is undefined.\<close>

definition getCommand :: "bstore \<Rightarrow> nat \<Rightarrow> bstore outcome" where
  "getCommand s command =
     bind_outcome (ba_from_cstr False kv_insertElement s [13, 10, 0]) (\<lambda>(sep, s).
     bind_outcome (kv_split s command sep) (\<lambda>(arrays, s).
     bind_outcome (lift (ba_destroy s sep)) (\<lambda>s.
     if arrays = [] then Some (Inr s)
     else bind_outcome (lift (do { p \<leftarrow> ba_data s (arrays ! 0); find_type s p command_names 0 })) (\<lambda>type.
       if type = 0 then
         (if length arrays < 2 then Some (Inl OutOfRange)
          else bind_outcome (kv_chop s (arrays ! 1) 2) (\<lambda>s. None))
       else if type < 4 then None
       else lift (destroy_all s arrays)))))"

subsection \<open>analysis\<close>

text \<open>\<open>data\<close> is advanced by the whole of \<open>currentPos\<close>, and \<open>size\<close> reduced by it, each
  time a header line has been read; neither changes for the command itself.\<close>

partial_function (option) analysis_loop ::
    "bstore \<Rightarrow> pointer \<Rightarrow> usize \<Rightarrow> usize \<Rightarrow> (usize \<times> bstore) outcome" where
  "analysis_loop s data currentPos sz =
     (if currentPos < sz then
        bind_outcome (ba_new False s) (\<lambda>p.
        bind_outcome (getLine (snd p) data sz (fst p)) (\<lambda>q.
          if \<not> fst q then bind_outcome (lift (ba_destroy (snd q) (fst p))) (\<lambda>s. Some (Inr (currentPos, s)))
          else bind_outcome (lift (get_obj (snd q) (fst p))) (\<lambda>ob.
            bind_outcome (lift (atoi (snd q) (data_ptr ob))) (\<lambda>commandLen.
            if sz - (currentPos + cm_size ob + 2) < of_int commandLen
            then bind_outcome (lift (ba_destroy (snd q) (fst p)))
              (\<lambda>s. Some (Inr (currentPos + cm_size ob + 2, s)))
            else bind_outcome (ba_new False (snd q)) (\<lambda>r.
              bind_outcome (ba_append_bytes kv_insertElement (snd r) (fst r)
                (padd data (currentPos + cm_size ob + 2)) (of_int commandLen)) (\<lambda>s.
              bind_outcome (getCommand s (fst r)) (\<lambda>s.
              bind_outcome (lift (ba_destroy s (fst r))) (\<lambda>s.
              bind_outcome (lift (ba_destroy s (fst p))) (\<lambda>s.
              analysis_loop s (padd data (currentPos + cm_size ob + 2))
                (currentPos + cm_size ob + 2 + of_int commandLen)
                (sz - (currentPos + cm_size ob + 2)))))))))))
      else Some (Inr (currentPos, s)))"

declare analysis_loop.simps [code]

text \<open>The key-value list it returns stays empty; the result is \<open>dissipativeSize\<close>.\<close>

definition analysis :: "bstore \<Rightarrow> nat \<Rightarrow> (usize \<times> bstore) outcome" where
  "analysis s msgData = bind_outcome (lift (get_obj s msgData)) (\<lambda>ob.
     analysis_loop s (data_ptr ob) 0 (cm_size ob))"

subsection \<open>Reading arrays through pointers\<close>

lemma content_slice:
  assumes "content s i = Some xs" "get_obj s i = Some ob" "unat k + n \<le> length xs"
  shows "read_ptr s (padd (data_ptr ob) k) n = Some (take n (drop (unat k) xs))"
proof (cases "n = 0")
  case False
  have l: "length xs = unat (cm_size ob)" by (rule content_length [OF assms(1,2)])
  then obtain b m where m: "cm_data ob = Some b" "cm_bufs s b = Some m" "length xs \<le> length m"
    "take (length xs) m = xs"
    using assms False by (auto simp: content_def read_ptr_def data_ptr_def split: option.splits if_splits)
  have "take n (drop (unat k) m) = take n (drop (unat k) (take (length xs) m))"
    using assms(3) by (simp add: drop_take min_absorb1)
  then have "take n (drop (unat k) m) = take n (drop (unat k) xs)" by (simp only: m(4))
  then show ?thesis using m(1-3) assms(3) by (simp add: read_ptr_def data_ptr_def)
qed (simp add: read_ptr_def)

lemma padd_padd: "unat a + unat b < 18446744073709551616 \<Longrightarrow> padd (padd p a) b = padd p (a + b)"
  by (cases p) (simp_all add: padd_def unat_add_usize add.commute)

text \<open>\<open>getLine\<close> finds the first line end, if the line itself has no carriage return.\<close>

lemma gl_scan_rep:
  assumes c: "content s m = Some (line @ 13 # 10 # rest)" "get_obj s m = Some ob" "13 \<notin> set line"
    and n: "unat n = length (line @ 13 # 10 # rest)" and i: "i \<le> length line"
  shows "gl_scan s (data_ptr ob) n (of_nat i) = Some (of_nat (length line))"
  using i
proof (induction "length line - i" arbitrary: i)
  case 0
  let ?xs = "line @ 13 # 10 # rest"
  have b: "length ?xs < 18446744073709551616" using n unat_usize_less [of n] by simp
  have i: "i = length line" using 0 by simp
  have u: "unat (of_nat i :: usize) = i" "unat (of_nat i + 1 :: usize) = i + 1"
    using b i unat_small [of i] unat_small [of "i + 1"] by (simp_all add: add.commute)
  have un: "unat (n - 1) = length ?xs - 1" using n by (simp add: unat_dec)
  then have lt: "of_nat i < n - 1" using u i by (simp add: word_less_nat_alt)
  have "read_ptr s (padd (data_ptr ob) (of_nat i)) 1 = Some [13]"
    using content_slice [OF c(1,2), of "of_nat i" 1] u(1) i by simp
  moreover have "read_ptr s (padd (data_ptr ob) (of_nat i + 1)) 1 = Some [10]"
    using content_slice [OF c(1,2), of "of_nat i + 1" 1] u(2) i by simp
  ultimately show ?case using lt i by (subst gl_scan.simps) simp
next
  case (Suc k)
  let ?xs = "line @ 13 # 10 # rest"
  have b: "length ?xs < 18446744073709551616" using n unat_usize_less [of n] by simp
  have i: "i < length line" using Suc.hyps(2) by simp
  have u: "unat (of_nat i :: usize) = i" using b i by (simp add: unat_small)
  have un: "unat (n - 1) = length ?xs - 1" using n by (simp add: unat_dec)
  then have lt: "of_nat i < n - 1" using u i by (simp add: word_less_nat_alt)
  have "take 1 (drop i ?xs) = [line ! i]" using i by (simp add: take_Suc_conv_app_nth hd_drop_conv_nth take_Suc)
  then have "read_ptr s (padd (data_ptr ob) (of_nat i)) 1 = Some [line ! i]"
    using content_slice [OF c(1,2), of "of_nat i" 1] u i by simp
  moreover have "line ! i \<noteq> 13" using c(3) i nth_mem by metis
  moreover have "gl_scan s (data_ptr ob) n (of_nat (Suc i)) = Some (of_nat (length line))"
    by (rule Suc.hyps(1)) (use Suc.hyps(2) i in auto)
  ultimately show ?case using lt by (subst gl_scan.simps) (simp add: add.commute)
qed

subsection \<open>Numbers and names at the end of a terminated array\<close>

definition decimal_value :: "byte list \<Rightarrow> nat" where
  "decimal_value cs = foldl (\<lambda>a c. a * 10 + (unat c - 48)) 0 cs"

definition is_digit :: "byte \<Rightarrow> bool" where
  "is_digit c \<longleftrightarrow> 48 \<le> unat c \<and> unat c \<le> 57"

lemma terminated_read':
  assumes "terminated s i xs" "get_obj s i = Some ob" "k \<le> length xs" "length xs < 18446744073709551615"
  shows "read_ptr s (padd (data_ptr ob) (of_nat k)) 1 = Some [(xs @ [0]) ! k]"
  using terminated_read [OF assms(1,2), of "of_nat k"] assms(3,4) by (simp add: unat_small)

lemma padd_Suc:
  "k < 18446744073709551615 \<Longrightarrow> padd (padd p (of_nat k)) 1 = padd p (of_nat (Suc k))"
  by (subst padd_padd) (simp_all add: unat_small add.commute)

lemma digits_rep:
  assumes t: "terminated s i xs" "get_obj s i = Some ob" "\<forall>c\<in>set xs. is_digit c"
    and k: "k \<le> length xs" "length xs < 4294967296"
  shows "digits s (padd (data_ptr ob) (of_nat k)) acc =
    Some (foldl (\<lambda>a c. a * 10 + (unat c - 48)) acc (drop k xs))"
  using k(1)
proof (induction "length xs - k" arbitrary: k acc)
  case 0
  then have "k = length xs" by simp
  then show ?case
    using terminated_read' [OF t(1,2), of k] k(2) by (subst digits.simps) simp
next
  case (Suc n)
  then have kl: "k < length xs" by simp
  have d: "drop k xs = xs ! k # drop (Suc k) xs" using kl by (simp add: Cons_nth_drop_Suc)
  have "is_digit (xs ! k)" using t(3) kl nth_mem by blast
  moreover have "read_ptr s (padd (data_ptr ob) (of_nat k)) 1 = Some [xs ! k]"
    using terminated_read' [OF t(1,2), of k] kl k(2) by (simp add: nth_append)
  ultimately show ?case
    using Suc.hyps(1) [of "Suc k"] Suc.hyps(2) kl k(2) d
    by (subst digits.simps) (simp add: padd_Suc is_digit_def del: of_nat_Suc)
qed

lemma atoi_rep:
  assumes t: "terminated s i xs" "get_obj s i = Some ob" "\<forall>c\<in>set xs. is_digit c"
    and xs: "xs \<noteq> []" "length xs < 4294967296" "decimal_value xs < 2147483648"
  shows "atoi s (data_ptr ob) = Some (int (decimal_value xs))"
proof -
  obtain x ys where x: "xs = x # ys" using xs(1) by (cases xs) auto
  have rd: "read_ptr s (data_ptr ob) 1 = Some [x]"
    using terminated_read' [OF t(1,2), of 0] xs(2) by (simp add: x)
  have dx: "is_digit x" using t(3) x by simp
  then have "x \<notin> {32, 9, 10, 11, 12, 13, 43, 45}" by (auto simp: is_digit_def)
  then have "skip_space s (data_ptr ob) = Some (data_ptr ob)" "x \<noteq> 43" "x \<noteq> 45"
    using rd by (auto simp: skip_space.simps)
  then show ?thesis
    using rd digits_rep [OF t, of 0 0] xs by (simp add: atoi_def decimal_value_def Let_def)
qed

lemma strcmp_rep:
  assumes t: "terminated s i xs" "get_obj s i = Some ob" "0 \<notin> set name"
    and k: "k \<le> length xs" "length xs < 4294967296"
  shows "strcmp_eq s (padd (data_ptr ob) (of_nat k)) name =
    Some (takeWhile (\<lambda>c. c \<noteq> 0) (drop k xs) = name)"
  using t(3) k(1)
proof (induction name arbitrary: k)
  case Nil
  have rd: "read_ptr s (padd (data_ptr ob) (of_nat k)) 1 = Some [(xs @ [0]) ! k]"
    using terminated_read' [OF t(1,2) Nil(2)] k(2) by simp
  show ?case
  proof (cases "k = length xs")
    case False
    then have "drop k xs = xs ! k # drop (Suc k) xs" "(xs @ [0]) ! k = xs ! k"
      using Nil(2) by (simp_all add: Cons_nth_drop_Suc nth_append)
    then show ?thesis using rd by simp
  qed (use rd in simp)
next
  case (Cons l ls)
  have rd: "read_ptr s (padd (data_ptr ob) (of_nat k)) 1 = Some [(xs @ [0]) ! k]"
    using terminated_read' [OF t(1,2) Cons.prems(2)] k(2) by simp
  show ?case
  proof (cases "k = length xs")
    case True
    then show ?thesis using rd Cons.prems(1) by auto
  next
    case False
    then have d: "drop k xs = xs ! k # drop (Suc k) xs" "(xs @ [0]) ! k = xs ! k" "Suc k \<le> length xs"
      using Cons.prems(2) by (simp_all add: Cons_nth_drop_Suc nth_append)
    then show ?thesis
      using rd Cons.prems(1) Cons.IH [OF _ d(3)] k(2) by (auto simp: padd_Suc simp del: of_nat_Suc)
  qed
qed

lemma find_type_rep:
  assumes t: "terminated s i xs" "get_obj s i = Some ob" "length xs < 4294967296"
    and n: "\<forall>name\<in>set names. 0 \<notin> set name"
  shows "\<exists>r. find_type s (data_ptr ob) names k = Some r \<and>
    (r < k + length names \<longleftrightarrow> takeWhile (\<lambda>c. c \<noteq> 0) xs \<in> set names) \<and> r \<le> k + length names"
  using n
proof (induction names arbitrary: k)
  case (Cons name names)
  obtain r where r: "find_type s (data_ptr ob) names (k + 1) = Some r"
    "r < k + 1 + length names \<longleftrightarrow> takeWhile (\<lambda>c. c \<noteq> 0) xs \<in> set names" "r \<le> k + 1 + length names"
    using Cons.IH [of "k + 1"] Cons.prems by auto
  have "strcmp_eq s (data_ptr ob) name = Some (takeWhile (\<lambda>c. c \<noteq> 0) xs = name)"
    using strcmp_rep [OF t(1,2) _ le0 t(3), of name] Cons.prems by simp
  then show ?case using r by auto
qed simp

lemma destroy_all_rep:
  assumes "store_ok s" "extends r s" "\<forall>i\<in>set is. length (cm_objs r) \<le> i \<and> get_obj s i \<noteq> None" "distinct is"
  shows "\<exists>s'. destroy_all s is = Some s' \<and> store_ok s' \<and> extends r s'"
  using assms
proof (induction "is" arbitrary: s)
  case (Cons i "is")
  obtain s1 where s1: "ba_destroy s i = Some s1" "store_ok s1" "extends r s1" "frame i s s1"
    using destroy_new [OF Cons.prems(1,2), of i] Cons.prems(3) by auto
  have "\<forall>j\<in>set is. length (cm_objs r) \<le> j \<and> get_obj s1 j \<noteq> None"
    using Cons.prems(3,4) s1(4) by (auto simp: frame_def)
  then show ?case using Cons.IH [OF s1(2,3)] Cons.prems(4) s1(1) by auto
qed simp

subsection \<open>The first line\<close>

definition first_line :: "byte list \<Rightarrow> byte list option" where
  "first_line body = map_option (\<lambda>j. take j body) (find (matches [13, 10] body) [0..<length body])"

lemma first_line_pieces:
  assumes b: "body = concat (map (\<lambda>p. p @ [13, 10]) ps) @ rest"
    and r: "\<forall>j<length rest. \<not> prefix [13, 10] (drop j rest)" and m: "\<forall>p\<in>set ps. minimal [13, 10] p"
  shows "first_line body = (case ps of [] \<Rightarrow> None | p # _ \<Rightarrow> Some p)"
proof (cases ps)
  case Nil
  then show ?thesis using b r by (auto simp: first_line_def find_None_iff matches_def)
next
  case (Cons p qs)
  define zs where "zs = concat (map (\<lambda>p. p @ [13, 10]) qs) @ rest"
  have body: "body = (p @ [13, 10]) @ zs" using b Cons by (simp add: zs_def)
  have "\<not> matches [13, 10] body i" if i: "i < length p" for i
  proof
    assume "matches [13, 10] body i"
    then have "prefix [13, 10] (drop i (p @ [13, 10]) @ zs)" using i by (simp add: matches_def body)
    then have "prefix [13, 10] (drop i (p @ [13, 10]))"
      by (rule prefix_length_prefix) (use i in \<open>simp_all del: drop_append\<close>)
    then show False using m Cons i by (simp add: minimal_def)
  qed
  moreover have "matches [13, 10] body (length p)" by (simp add: matches_def body)
  moreover have "length p < length body" by (simp add: body)
  ultimately have "find (matches [13, 10] body) [0..<length body] = Some (length p)"
    unfolding find_Some_iff by (intro exI [of _ "length p"]) simp
  then show ?thesis using Cons by (simp add: first_line_def body)
qed

definition known_command :: "byte list \<Rightarrow> bool" where
  "known_command body \<longleftrightarrow> (case first_line body of None \<Rightarrow> False
     | Some l \<Rightarrow> takeWhile (\<lambda>c. c \<noteq> 0) l \<in> set command_names)"

lemma from_cstr_separator:
  assumes s: "store_ok s"
  shows "\<exists>s'. ba_from_cstr False kv_insertElement s [13, 10, 0] = Some (Inr (length (cm_objs s), s')) \<and>
    store_ok s' \<and> extends s s' \<and> content s' (length (cm_objs s)) = Some [13, 10]"
proof -
  obtain s1 ob1 b where r: "resetBuffer False
      (snd (add_obj s \<lparr>cm_data = None, cm_size = 0, cm_capacity = 2\<rparr>)) (length (cm_objs s)) = Some (Inr s1)"
    "extends s s1" "ready s1 (length (cm_objs s)) ob1 b (replicate (unat (2 :: usize)) 0)" "cm_size ob1 = 0"
    using fresh_object [OF s, where braced = False] by blast
  have "stable_src s1 (length (cm_objs s)) (Ext [13, 10, 0]) (unat (2 :: usize)) [13, 10]"
    by (simp add: stable_src_def read_ptr_def)
  then obtain s' where s': "kv_insertElement s1 (length (cm_objs s)) 0 (Ext [13, 10, 0]) 2 = Some (Inr s')"
    "store_ok s'" "frame (length (cm_objs s)) s1 s'" "content s' (length (cm_objs s)) = Some [13, 10]"
    using fresh_insert [OF r(3,4), of "Ext [13, 10, 0]" 2] by auto
  moreover have "extends s s'" by (rule frame_extends [OF s'(3) order_refl r(2)])
  moreover have "strlen [13, 10, 0] = Some 2" by (simp add: strlen_def)
  ultimately show ?thesis using r(1) by (simp add: ba_from_cstr_def add_obj_def)
qed

lemma command_names_nul: "\<forall>name\<in>set command_names. 0 \<notin> set name" "length command_names = 4"
  by (simp_all add: command_names_def lit_def)

lemma getCommand_rep:
  assumes s: "store_ok s" and t: "terminated s c body" and l: "length body < 2147483647"
  shows "if known_command body then \<forall>s'. getCommand s c \<noteq> Some (Inr s')
    else \<exists>s'. getCommand s c = Some (Inr s') \<and> store_ok s' \<and> extends s s'"
proof -
  let ?sep = "length (cm_objs s)"
  obtain s1 where s1: "ba_from_cstr False kv_insertElement s [13, 10, 0] = Some (Inr (?sep, s1))" "store_ok s1"
    "extends s s1" "content s1 ?sep = Some [13, 10]"
    using from_cstr_separator [OF s] by blast
  obtain rs s2 ps rest where r: "kv_split_loop s1 c ?sep (of_nat 0) = Some (Inr (rs, s2))" "store_ok s2"
    "extends s1 s2" "list_all2 (terminated s2) rs ps" "distinct rs"
    "\<forall>r\<in>set rs. length (cm_objs s1) \<le> r \<and> r < length (cm_objs s2)"
    "drop 0 body = concat (map (\<lambda>p. p @ [13, 10]) ps) @ rest"
    "\<forall>j<length rest. \<not> prefix [13, 10] (drop j rest)" "\<forall>p\<in>set ps. minimal [13, 10] p"
    using kv_split_loop_rep [OF s1(2) extends_terminated [OF s1(3) t] s1(4) _ _ l le0] by auto
  have sp: "get_obj s1 ?sep \<noteq> None" using s1(4) by (auto simp: content_def split: bind_splits)
  then have "get_obj s2 ?sep \<noteq> None" "?sep < length (cm_objs s1)"
    using r(3) by (auto simp: extends_def get_obj_length)
  then obtain s3 where s3: "ba_destroy s2 ?sep = Some s3" "store_ok s3" "extends s s3" "frame ?sep s2 s3"
    using destroy_new [OF r(2) extends_trans [OF s1(3) r(3)], of ?sep] by auto
  have new: "\<forall>a\<in>set rs. ?sep \<le> a \<and> a \<noteq> ?sep" using r(6) \<open>?sep < length (cm_objs s1)\<close> by fastforce
  have fl: "first_line body = (case ps of [] \<Rightarrow> None | p # _ \<Rightarrow> Some p)"
    by (rule first_line_pieces) (use r(7-9) in auto)
  have step: "getCommand s c = (if rs = [] then Some (Inr s3)
    else bind_outcome (lift (do { p \<leftarrow> ba_data s3 (rs ! 0); find_type s3 p command_names 0 })) (\<lambda>type.
       if type = 0 then
         (if length rs < 2 then Some (Inl OutOfRange)
          else bind_outcome (kv_chop s3 (rs ! 1) 2) (\<lambda>s. None))
       else if type < 4 then None
       else lift (destroy_all s3 rs)))"
    using s1(1) r(1) s3(1) by (simp add: getCommand_def kv_split_def)
  show ?thesis
  proof (cases rs)
    case Nil
    then have "ps = []" using r(4) by simp
    then show ?thesis using Nil step fl s3 by (simp add: known_command_def)
  next
    case (Cons a as)
    then obtain p qs where ps: "ps = p # qs" "terminated s2 a p" using r(4) by (auto simp: list_all2_Cons1)
    have ta: "terminated s3 a p" using frame_terminated [OF s3(4) _ ps(2)] new Cons by simp
    then obtain ob where ob: "get_obj s3 a = Some ob" by (auto simp: terminated_def)
    have "length p < 4294967296" using r(7) ps(1) l by simp
    then obtain k where k: "find_type s3 (data_ptr ob) command_names 0 = Some k"
      "k < 4 \<longleftrightarrow> takeWhile (\<lambda>c. c \<noteq> 0) p \<in> set command_names" "k \<le> 4"
      using find_type_rep [OF ta ob _ command_names_nul(1), of 0] command_names_nul(2) by auto
    have known: "known_command body \<longleftrightarrow> k < 4" using fl ps(1) k(2) by (simp add: known_command_def)
    have "\<forall>i\<in>set rs. get_obj s3 i \<noteq> None"
    proof
      fix i assume i: "i \<in> set rs"
      then obtain q where "terminated s2 i q" using r(4) by (auto simp: list_all2_conv_all_nth in_set_conv_nth)
      then have "terminated s3 i q" using frame_terminated [OF s3(4)] new i by auto
      then show "get_obj s3 i \<noteq> None" by (auto simp: terminated_def)
    qed
    then obtain s4 where "destroy_all s3 rs = Some s4" "store_ok s4" "extends s s4"
      using destroy_all_rep [OF s3(2,3), of rs] new r(5) by auto
    moreover have "bind_outcome x (\<lambda>s. None) \<noteq> Some (Inr y)" for x :: "bstore outcome" and y :: bstore
      by (auto simp: bind_outcome_def split: option.splits sum.splits)
    ultimately show ?thesis
      using Cons ob k known step by (auto simp: ba_data_def)
  qed
qed

subsection \<open>A whole message\<close>

lemma new_append:
  assumes s1: "ready s1 i ob b (replicate 1024 0)" "cm_size ob = 0" "extends s s1" "i = length (cm_objs s)"
    and g: "get_obj s k = Some src" and rd: "read_ptr s (padd (data_ptr src) off) (unat n) = Some bs"
    and n: "unat n < 1024"
  shows "\<exists>s'. ba_append_bytes kv_insertElement s1 i (padd (data_ptr src) off) n = Some (Inr s') \<and>
    store_ok s' \<and> extends s s' \<and> terminated s' i bs"
proof -
  have own: "\<forall>c o'. padd (data_ptr src) off = Buf c o' \<longrightarrow> (\<exists>j. owner s c j)"
    using g by (auto simp: padd_def data_ptr_def owner_def split: option.splits)
  obtain s' where s': "kv_insertElement s1 i 0 (padd (data_ptr src) off) n = Some (Inr s')" "store_ok s'"
    "frame i s1 s'" "terminated s' i bs"
    using fresh_insert [OF s1(1,2) extends_stable [OF s1(3) rd own]] n s1(4) by fastforce
  moreover have "extends s s'" by (rule frame_extends [OF s'(3) _ s1(3)]) (use s1(4) in simp)
  moreover have "get_obj s1 i = Some ob" using s1(1) by (simp add: ready_def)
  ultimately show ?thesis using s1(2) by (simp add: ba_append_bytes_def)
qed

text \<open>The header line is read into a new array.\<close>

lemma getLine_rep:
  assumes s: "store_ok s" "content s m = Some (line @ 13 # 10 # rest)" "get_obj s m = Some ob" "13 \<notin> set line"
    and n: "unat n = length (line @ 13 # 10 # rest)" and l: "length line < 1024"
  shows "\<exists>s1 s2 hob. ba_new False s = Some (Inr (length (cm_objs s), s1)) \<and>
    getLine s1 (data_ptr ob) n (length (cm_objs s)) = Some (Inr (True, s2)) \<and> store_ok s2 \<and> extends s s2 \<and>
    terminated s2 (length (cm_objs s)) line \<and> get_obj s2 (length (cm_objs s)) = Some hob \<and>
    cm_size hob = of_nat (length line)"
proof -
  let ?i = "length (cm_objs s)" and ?k = "of_nat (length line) :: usize"
  obtain s1 nob b where s1: "ba_new False s = Some (Inr (?i, s1))" "extends s s1"
    "ready s1 ?i nob b (replicate 1024 0)" "cm_size nob = 0"
    using new_rep [where braced = False, OF s(1)] by blast
  have g1: "get_obj s1 m = Some ob" using s1(2) s(3) by (simp add: extends_def)
  have "content s1 m = Some (line @ 13 # 10 # rest)" using extends_content [OF s1(2) s(3)] s(2) by simp
  from gl_scan_rep [OF this g1 s(4) n le0]
  have scan: "gl_scan s1 (data_ptr ob) n 0 = Some ?k" by simp
  have k: "unat ?k = length line" using l by (simp add: unat_small)
  have "unat (n - 1) = length line + 1 + length rest" using n by (simp add: unat_dec)
  then have ne: "?k \<noteq> n - 1" using k by auto
  have "read_ptr s (padd (data_ptr ob) 0) (unat ?k) = Some line"
    using content_slice [OF s(2,3), of 0 "length line"] k by simp
  from new_append [OF s1(3,4,2) refl s(3) this] k l
  obtain s2 where s2: "ba_append_bytes kv_insertElement s1 ?i (data_ptr ob) ?k = Some (Inr s2)" "store_ok s2"
    "extends s s2" "terminated s2 ?i line"
    by auto
  obtain hob where h: "get_obj s2 ?i = Some hob" "unat (cm_size hob) = length line"
    using s2(4) by (auto simp: terminated_def)
  then have "cm_size hob = ?k" using k by (simp add: word_unat_eq_iff)
  then show ?thesis using s1(1) s2 h(1) scan ne by (auto simp: getLine_def)
qed

lemma analysis_rep:
  assumes s: "store_ok s" "content s m = Some (hdr @ 13 # 10 # body)"
    and h: "hdr \<noteq> []" "\<forall>c\<in>set hdr. is_digit c" "length hdr < 1024"
    and b: "decimal_value hdr = length body" "length body < 1024"
  shows "if known_command body then \<forall>r. analysis s m \<noteq> Some (Inr r)
    else \<exists>s'. analysis s m = Some (Inr (of_nat (length hdr + 2 + length body), s')) \<and>
      store_ok s' \<and> extends s s'"
proof -
  obtain ob where ob: "get_obj s m = Some ob" using s(2) by (auto simp: content_def split: bind_splits)
  define n where "n = cm_size ob"
  let ?i = "length (cm_objs s)" and ?p = "of_nat (length hdr) + 2 :: usize"
  have n: "unat n = length (hdr @ 13 # 10 # body)"
    using content_length [OF s(2) ob] by (simp add: n_def)
  have cr: "13 \<notin> set hdr" using h(2) by (auto simp: is_digit_def)
  obtain s1 s2 hob where l: "ba_new False s = Some (Inr (?i, s1))"
    "getLine s1 (data_ptr ob) n ?i = Some (Inr (True, s2))" "store_ok s2" "extends s s2"
    "terminated s2 ?i hdr" "get_obj s2 ?i = Some hob" "cm_size hob = of_nat (length hdr)"
    using getLine_rep [OF s ob cr n h(3)] by blast
  have a: "atoi s2 (data_ptr hob) = Some (int (length body))"
    using atoi_rep [OF l(5,6) h(2,1)] h(3) b by simp
  have up: "unat ?p = length hdr + 2" using h(3) by (simp add: unat_add_usize unat_small)
  have us: "unat (n - ?p) = length body" using up n by (subst unat_sub_small) simp_all
  have ub: "unat (of_nat (length body) :: usize) = length body" using b(2) by (simp add: unat_small)
  have rest: "n - ?p = of_nat (length body)" using us ub by (simp add: word_unat_eq_iff)
  obtain s3 nob c where s3: "ba_new False s2 = Some (Inr (length (cm_objs s2), s3))" "extends s2 s3"
    "ready s3 (length (cm_objs s2)) nob c (replicate 1024 0)" "cm_size nob = 0"
    using new_rep [where braced = False, OF l(3)] by blast
  let ?j = "length (cm_objs s2)"
  have m2: "get_obj s2 m = Some ob" "content s2 m = Some (hdr @ 13 # 10 # body)"
    using l(4) ob extends_content [OF l(4) ob] s(2) by (simp_all add: extends_def)
  have "read_ptr s2 (padd (data_ptr ob) ?p) (unat (of_nat (length body) :: usize)) = Some body"
    using content_slice [OF m2(2,1), of ?p "length body"] up ub by simp
  from new_append [OF s3(3,4,2) refl m2(1) this] ub b(2)
  obtain s4 where s4: "ba_append_bytes kv_insertElement s3 ?j (padd (data_ptr ob) ?p) (of_nat (length body))
      = Some (Inr s4)" "store_ok s4" "extends s2 s4" "terminated s4 ?j body"
    by auto
  note e4 = extends_trans [OF l(4) s4(3)]
  have step: "analysis s m = bind_outcome (getCommand s4 ?j) (\<lambda>s.
      bind_outcome (lift (ba_destroy s ?j)) (\<lambda>s. bind_outcome (lift (ba_destroy s ?i)) (\<lambda>s.
      analysis_loop s (padd (data_ptr ob) ?p) (?p + of_nat (length body)) (of_nat (length body)))))"
    using ob l s3(1) s4(1) a rest n
    by (simp add: analysis_def n_def [symmetric] analysis_loop.simps [of s] word_less_nat_alt)
  have "?i \<noteq> ?j" "?i \<le> ?j" using get_obj_length [OF l(6)] by simp_all
  show ?thesis
  proof (cases "known_command body")
    case True
    then have "getCommand s4 ?j \<noteq> Some (Inr s')" for s'
      using getCommand_rep [OF s4(2,4)] b(2) by auto
    then show ?thesis using True by (auto simp: step bind_outcome_eq_Inr)
  next
    case False
    then obtain s5 where s5: "getCommand s4 ?j = Some (Inr s5)" "store_ok s5" "extends s4 s5"
      using getCommand_rep [OF s4(2,4)] b(2) by auto
    have t5: "terminated s5 ?j body" "terminated s5 ?i hdr"
      using extends_terminated s5(3) s4(3,4) l(5) by blast+
    obtain s6 where s6: "ba_destroy s5 ?j = Some s6" "store_ok s6" "extends s s6" "frame ?j s5 s6"
      using destroy_new [OF s5(2) extends_trans [OF e4 s5(3)], of ?j] t5(1) \<open>?i \<le> ?j\<close>
      by (auto simp: terminated_def)
    have "terminated s6 ?i hdr" by (rule frame_terminated [OF s6(4) \<open>?i \<noteq> ?j\<close> t5(2)])
    then obtain s7 where s7: "ba_destroy s6 ?i = Some s7" "store_ok s7" "extends s s7"
      using destroy_new [OF s6(2,3), of ?i] by (auto simp: terminated_def)
    have "\<not> ?p + of_nat (length body) < of_nat (length body)"
      using up ub h(3) b(2) by (simp add: word_less_nat_alt unat_add_usize)
    then show ?thesis
      using False s5(1) s6(1) s7 by (simp add: step analysis_loop.simps [of s7] add.commute)
  qed
qed

text \<open>A message of one header line of digits with the length of the command and of the command
  itself is consumed as a whole when the first line of the command is not a command name; when it is
  one, no execution has a defined result, because \<open>getCommand\<close> then ends without a
  \<open>return\<close>.\<close>

theorem analysis_one_message:
  assumes s: "store_ok s" "content s m = Some (hdr @ 13 # 10 # body)"
    and h: "hdr \<noteq> []" "\<forall>c\<in>set hdr. is_digit c" "length hdr < 1024"
    and b: "decimal_value hdr = length body" "length body < 1024"
  shows "if known_command body then \<forall>r. analysis s m \<noteq> Some (Inr r)
    else \<exists>s'. analysis s m = Some (Inr (of_nat (length hdr + 2 + length body), s')) \<and>
      store_ok s' \<and> extends s s'"
  by (rule analysis_rep) (use assms in auto)

definition request_store :: bstore where
  "request_store = \<lparr>cm_objs = [Some \<lparr>cm_data = Some 0, cm_size = 6, cm_capacity = 6\<rparr>],
     cm_bufs = (\<lambda>b. if b = 0 then Some [51, 13, 10, 97, 13, 10] else None), cm_next = 1\<rparr>"

theorem analysis_one_message_witness:
  "\<exists>s'. analysis request_store 0 = Some (Inr (6, s')) \<and> store_ok s'"
proof -
  have obj: "get_obj request_store j =
      (if j = 0 then Some \<lparr>cm_data = Some 0, cm_size = 6, cm_capacity = 6\<rparr> else None)" for j
    by (auto simp: get_obj_def request_store_def)
  have own: "owner request_store b j \<longleftrightarrow> j = 0 \<and> b = 0" for b j by (auto simp: owner_def obj)
  have ok: "store_ok request_store"
    unfolding store_ok_but_def own
    by (auto simp: obj_ok_def obj split: if_splits) (simp_all add: request_store_def split: if_splits)
  have "content request_store 0 = Some ([51] @ 13 # 10 # [97, 13, 10])"
    by (simp add: content_def obj data_ptr_def read_ptr_def) (simp add: request_store_def)
  moreover have "\<not> known_command [97, 13, 10]"
    by (simp add: known_command_def first_line_def matches_def command_names_def lit_def)
  moreover have "decimal_value [51] = 3" "is_digit 51" by (simp_all add: decimal_value_def is_digit_def)
  ultimately show ?thesis
    using analysis_one_message [OF ok, of 0 "[51]" "[97, 13, 10]"] by auto
qed

end
