(* ===== verification/OsCalls.thy ===== *)
theory OsCalls
  imports ByteFresh
begin

text \<open>
  The system calls of the two servers (kv_store/, TCPServer/).  The kernel, the network and the
  peers are a world of an arbitrary type; a call is a function of the world, a member of the record
  \<open>os\<close> that the servers take as an argument.  A call that fails returns -1 and sets
  \<open>errno\<close>: the value \<open>Errno e\<close>.  What a proof relies on is said of the calls an execution
  makes (\<open>delivers\<close>), not of the record.
\<close>

unbundle bit_operations_syntax

datatype 'a syscall = Done 'a | Errno int

type_synonym epoll_event = "int \<times> uint"

record sockaddr_in =
  sin_addr :: uint
  sin_port :: "16 word"

record 'w os =
  os_socket :: "'w \<Rightarrow> int \<times> 'w"
  os_close :: "int \<Rightarrow> 'w \<Rightarrow> 'w"
  os_getfl :: "int \<Rightarrow> 'w \<Rightarrow> uint \<times> 'w"
  os_setfl :: "int \<Rightarrow> uint \<Rightarrow> 'w \<Rightarrow> 'w"
  os_reuseaddr :: "int \<Rightarrow> 'w \<Rightarrow> 'w"
  os_sndtimeo :: "int \<Rightarrow> nat \<Rightarrow> 'w \<Rightarrow> 'w"
  os_inet_aton :: "byte list \<Rightarrow> uint option"
  os_bind :: "int \<Rightarrow> sockaddr_in \<Rightarrow> 'w \<Rightarrow> unit syscall \<times> 'w"
  os_listen :: "int \<Rightarrow> nat \<Rightarrow> 'w \<Rightarrow> unit syscall \<times> 'w"
  os_accept :: "int \<Rightarrow> 'w \<Rightarrow> int syscall \<times> 'w"
  os_connect :: "int \<Rightarrow> sockaddr_in \<Rightarrow> 'w \<Rightarrow> unit syscall \<times> 'w"
  os_recv :: "int \<Rightarrow> nat \<Rightarrow> 'w \<Rightarrow> byte list syscall \<times> 'w"
  os_send :: "int \<Rightarrow> byte list \<Rightarrow> 'w \<Rightarrow> nat syscall \<times> 'w"
  os_epoll_create :: "'w \<Rightarrow> int \<times> 'w"
  os_epoll_add :: "int \<Rightarrow> int \<Rightarrow> uint \<Rightarrow> 'w \<Rightarrow> unit syscall \<times> 'w"
  os_epoll_mod :: "int \<Rightarrow> int \<Rightarrow> uint \<Rightarrow> 'w \<Rightarrow> unit syscall \<times> 'w"
  os_epoll_del :: "int \<Rightarrow> int \<Rightarrow> 'w \<Rightarrow> unit syscall \<times> 'w"
  os_epoll_wait :: "int \<Rightarrow> nat \<Rightarrow> 'w \<Rightarrow> epoll_event list syscall \<times> 'w"

subsection \<open>The constants of the system headers\<close>

definition O_NONBLOCK :: uint where "O_NONBLOCK = 2048"
definition EWOULDBLOCK :: int where "EWOULDBLOCK = 11"
definition EEXIST :: int where "EEXIST = 17"
definition EINPROGRESS :: int where "EINPROGRESS = 115"
definition EPOLLIN :: uint where "EPOLLIN = 1"
definition EPOLLOUT :: uint where "EPOLLOUT = 4"
definition EPOLLET :: uint where "EPOLLET = 0x80000000"

definition net_short :: "16 word \<Rightarrow> 16 word" where
  "net_short w = push_bit 8 w OR drop_bit 8 w"

lemma epoll_bits [simp]: "EPOLLIN AND EPOLLIN \<noteq> 0" "EPOLLIN AND EPOLLOUT = 0"
  by (simp_all add: EPOLLIN_def EPOLLOUT_def)

lemma EPOLLIN_nonzero [simp]: "EPOLLIN \<noteq> 0"
  by (simp add: EPOLLIN_def)

text \<open>The bytes at a pointer up to the terminating 0, as \<open>inet_aton\<close> reads them; it leaves the
  address alone, here 0, when they are not one.\<close>

partial_function (option) c_string :: "bstore \<Rightarrow> pointer \<Rightarrow> byte list option" where
  "c_string s p = do {
     c \<leftarrow> read_ptr s p 1;
     if c = [0] then Some [] else do { cs \<leftarrow> c_string s (padd p 1); Some (c @ cs) }
   }"

declare c_string.simps [code]

definition make_address :: "'w os \<Rightarrow> bstore \<Rightarrow> nat \<Rightarrow> 16 word \<Rightarrow> sockaddr_in option" where
  "make_address os s ip port = do {
     p \<leftarrow> ba_data s ip;
     str \<leftarrow> c_string s p;
     Some \<lparr>sin_addr = (case os_inet_aton os str of None \<Rightarrow> 0 | Some a \<Rightarrow> a), sin_port = net_short port\<rparr>
   }"

text \<open>\<open>setNoBlock\<close>, the same in both servers.\<close>

definition os_setNoBlock :: "'w os \<Rightarrow> int \<Rightarrow> 'w \<Rightarrow> 'w" where
  "os_setNoBlock os fd w = (let (optVal, w) = os_getfl os fd w in os_setfl os fd (optVal OR O_NONBLOCK) w)"

subsection \<open>The command line\<close>

definition c_isspace :: "byte \<Rightarrow> bool" where
  "c_isspace c = (c = 32 \<or> 9 \<le> c \<and> c \<le> 13)"

fun atoi_digits :: "int \<Rightarrow> byte list \<Rightarrow> int" where
  "atoi_digits n [] = n"
| "atoi_digits n (c # cs) = (if 48 \<le> c \<and> c \<le> 57 then atoi_digits (10 * n + (uint c - 48)) cs else n)"

text \<open>\<open>atoi\<close> of a command-line argument; a value that is not an \<open>int\<close> is undefined behaviour.\<close>

definition arg_atoi :: "byte list \<Rightarrow> int option" where
  "arg_atoi str = (let str = dropWhile c_isspace str;
     n = (case str of [] \<Rightarrow> 0
          | c # cs \<Rightarrow> if c = 45 then - atoi_digits 0 cs else if c = 43 then atoi_digits 0 cs else atoi_digits 0 str)
     in if - 2147483648 \<le> n \<and> n \<le> 2147483647 then Some n else None)"

subsection \<open>Executions\<close>

text \<open>The calls of \<open>recv\<close> return the chunks, each of at least one byte and at most \<open>n\<close>, and
  then a result \<open>r\<close> that is not data: nothing more for now (\<open>EWOULDBLOCK\<close>), the end of the
  connection (no byte), or an error.\<close>

inductive delivers :: "'w os \<Rightarrow> int \<Rightarrow> nat \<Rightarrow> 'w \<Rightarrow> byte list list \<Rightarrow> byte list syscall \<Rightarrow> 'w \<Rightarrow> bool"
  for os fd n where
  last_call: "os_recv os fd n w = (r, w') \<Longrightarrow> r = Done [] \<or> (\<exists>e. r = Errno e) \<Longrightarrow> delivers os fd n w [] r w'"
| chunk: "os_recv os fd n w = (Done c, w1) \<Longrightarrow> c \<noteq> [] \<Longrightarrow> length c \<le> n \<Longrightarrow> delivers os fd n w1 cs r w' \<Longrightarrow>
    delivers os fd n w (c # cs) r w'"

text \<open>The calls of \<open>send\<close> take the bytes, some at a time.\<close>

inductive takes :: "'w os \<Rightarrow> int \<Rightarrow> 'w \<Rightarrow> byte list \<Rightarrow> 'w \<Rightarrow> bool" for os fd where
  nothing: "takes os fd w [] w"
| some_bytes: "os_send os fd bs w = (Done n, w1) \<Longrightarrow> 0 < n \<Longrightarrow> n \<le> length bs \<Longrightarrow> takes os fd w1 (drop n bs) w' \<Longrightarrow>
    takes os fd w bs w'"

inductive_simps takes_Nil: "takes os fd w [] w'"

text \<open>A region of \<open>n\<close> bytes that begins with a chunk, as the source of an append.\<close>

lemma chunk_source:
  assumes "length c \<le> n" "n < 18446744073709551616"
  shows "stable_src s i (Ext (c @ replicate (n - length c) 0)) (unat (of_nat (length c) :: usize)) c"
proof -
  have "unat (of_nat (length c) :: usize) = length c" by (rule unat_small) (use assms in simp)
  then show ?thesis by (simp add: stable_src_def read_ptr_def)
qed

subsection \<open>A scripted world\<close>

text \<open>A network for examples: the results of \<open>recv\<close> and \<open>epoll_wait\<close> still to come, and a log
  of what the program does.\<close>

datatype action = Closed int | Sent int "byte list" | Watch int uint | Unwatch int | Unblocked int

record net_script =
  sc_recv :: "byte list syscall list"
  sc_wait :: "epoll_event list syscall list"
  sc_log :: "action list"

definition log_action :: "action \<Rightarrow> net_script \<Rightarrow> net_script" where
  "log_action a w = w\<lparr>sc_log := sc_log w @ [a]\<rparr>"

definition script_os :: "net_script os" where
  "script_os = \<lparr>os_socket = (\<lambda>w. (3, w)), os_close = (\<lambda>fd. log_action (Closed fd)),
     os_getfl = (\<lambda>fd w. (2, w)), os_setfl = (\<lambda>fd v. log_action (Unblocked fd)),
     os_reuseaddr = (\<lambda>fd w. w), os_sndtimeo = (\<lambda>fd t w. w), os_inet_aton = (\<lambda>str. None),
     os_bind = (\<lambda>fd a w. (Done (), w)), os_listen = (\<lambda>fd n w. (Done (), w)),
     os_accept = (\<lambda>fd w. (Done 5, w)), os_connect = (\<lambda>fd a w. (Done (), w)),
     os_recv = (\<lambda>fd n w. case sc_recv w of [] \<Rightarrow> (Errno EWOULDBLOCK, w) | r # rs \<Rightarrow> (r, w\<lparr>sc_recv := rs\<rparr>)),
     os_send = (\<lambda>fd bs w. (Done (length bs), log_action (Sent fd bs) w)),
     os_epoll_create = (\<lambda>w. (4, w)),
     os_epoll_add = (\<lambda>ep fd ev w. (Done (), log_action (Watch fd ev) w)),
     os_epoll_mod = (\<lambda>ep fd ev w. (Done (), log_action (Watch fd ev) w)),
     os_epoll_del = (\<lambda>ep fd w. (Done (), log_action (Unwatch fd) w)),
     os_epoll_wait = (\<lambda>ep n w. case sc_wait w of [] \<Rightarrow> (Done [], w) | r # rs \<Rightarrow> (r, w\<lparr>sc_wait := rs\<rparr>))\<rparr>"

lemma script_delivers:
  assumes "sc_recv w = map Done cs" "\<forall>c\<in>set cs. c \<noteq> [] \<and> length c \<le> n"
  shows "delivers script_os fd n w cs (Errno EWOULDBLOCK) (w\<lparr>sc_recv := []\<rparr>)"
  using assms
proof (induction cs arbitrary: w)
  case (Cons c cs)
  have "delivers script_os fd n (w\<lparr>sc_recv := map Done cs\<rparr>) cs (Errno EWOULDBLOCK)
      ((w\<lparr>sc_recv := map Done cs\<rparr>)\<lparr>sc_recv := []\<rparr>)"
    by (rule Cons.IH) (use Cons.prems in auto)
  then show ?case using Cons.prems by (intro chunk) (auto simp: script_os_def)
qed (auto intro!: last_call simp: script_os_def)

end
