(* ===== verification/KvServer.thy ===== *)
theory KvServer
  imports KvProtocol OsCalls
begin

text \<open>
  The key-value server: the epoll reactor of kv_store/ReactorServer.cpp, the listening object and
  the client objects of kv_store/Network.cpp, and kv_store/main.cpp.  The event objects are shared
  (\<open>shared_ptr\<close>): the state holds them with their use counts, the reactor's map and the array
  store of their buffers.  \<open>EvNone\<close> stands for \<open>EventType::None\<close>.
\<close>

unbundle bit_operations_syntax

subsection \<open>State\<close>

datatype event_type = EvNone | Accept | Read | Write | ReadAndWrite
datatype trigger_mode = LT | ET

text \<open>The dynamic type of an object; a server has its address and port.\<close>

datatype ev_class = KVTcpServer nat "16 word" | KVTcpClient

record evobj =
  ev_class :: ev_class
  ev_fd :: int
  ev_type :: event_type
  ev_mode :: trigger_mode
  ev_recvBuffer :: nat
  ev_sendBuffer :: nat
  ev_manger :: bool
  ev_refs :: nat

record 'w kvs =
  kvs_store :: bstore
  kvs_objs :: "evobj option list"
  kvs_eventMap :: "int \<Rightarrow> nat option option"
  kvs_epollFd :: int
  kvs_world :: 'w

definition bufferSize :: nat where
  "bufferSize = 10240"

definition eventCount :: nat where
  "eventCount = 102400"

definition get_ev :: "'w kvs \<Rightarrow> nat \<Rightarrow> evobj option" where
  "get_ev s p = (if p < length (kvs_objs s) then kvs_objs s ! p else None)"

definition set_ev :: "'w kvs \<Rightarrow> nat \<Rightarrow> evobj option \<Rightarrow> 'w kvs" where
  "set_ev s p x = s\<lparr>kvs_objs := (kvs_objs s)[p := x]\<rparr>"

definition with_store :: "'w kvs \<Rightarrow> bstore outcome \<Rightarrow> 'w kvs outcome" where
  "with_store s m = bind_outcome m (\<lambda>st. Some (Inr (s\<lparr>kvs_store := st\<rparr>)))"

definition kv_close :: "'w os \<Rightarrow> 'w kvs \<Rightarrow> int \<Rightarrow> 'w kvs" where
  "kv_close os s fd = s\<lparr>kvs_world := os_close os fd (kvs_world s)\<rparr>"

subsection \<open>Shared pointers\<close>

text \<open>The destructors: of the class, then of the buffers.\<close>

definition ev_destroy :: "'w os \<Rightarrow> 'w kvs \<Rightarrow> nat \<Rightarrow> 'w kvs option" where
  "ev_destroy os s p = do {
     ob \<leftarrow> get_ev s p;
     let s = (if ev_fd ob \<noteq> - 1 then kv_close os s (ev_fd ob) else s);
     st \<leftarrow> (case ev_class ob of KVTcpServer ip port \<Rightarrow> ba_destroy (kvs_store s) ip | KVTcpClient \<Rightarrow> Some (kvs_store s));
     st \<leftarrow> ba_destroy st (ev_sendBuffer ob);
     st \<leftarrow> ba_destroy st (ev_recvBuffer ob);
     Some (set_ev (s\<lparr>kvs_store := st\<rparr>) p None)
   }"

definition ref_inc :: "'w kvs \<Rightarrow> nat \<Rightarrow> 'w kvs option" where
  "ref_inc s p = do { ob \<leftarrow> get_ev s p; Some (set_ev s p (Some (ob\<lparr>ev_refs := ev_refs ob + 1\<rparr>))) }"

definition ref_dec :: "'w os \<Rightarrow> 'w kvs \<Rightarrow> nat \<Rightarrow> 'w kvs option" where
  "ref_dec os s p = do {
     ob \<leftarrow> get_ev s p;
     if ev_refs ob \<le> 1 then ev_destroy os s p else Some (set_ev s p (Some (ob\<lparr>ev_refs := ev_refs ob - 1\<rparr>)))
   }"

definition ref_dec_ptr :: "'w os \<Rightarrow> 'w kvs \<Rightarrow> nat option \<Rightarrow> 'w kvs option" where
  "ref_dec_ptr os s q = (case q of None \<Rightarrow> Some s | Some p \<Rightarrow> ref_dec os s p)"

subsection \<open>The reactor's map\<close>

text \<open>\<open>pos\<close> is the number of elements erased.\<close>

definition removeEventObj :: "'w os \<Rightarrow> 'w kvs \<Rightarrow> int \<Rightarrow> 'w kvs option" where
  "removeEventObj os s fd = do {
     let old = kvs_eventMap s fd;
     let pos = (if old = None then 0 else 1 :: usize);
     s \<leftarrow> ref_dec_ptr os (s\<lparr>kvs_eventMap := (kvs_eventMap s)(fd := None)\<rparr>) (Option.bind old (\<lambda>q. q));
     Some (if pos \<noteq> - 1 then s\<lparr>kvs_world := snd (os_epoll_del os (kvs_epollFd s) fd (kvs_world s))\<rparr> else s)
   }"

definition event_mask :: "event_type \<Rightarrow> trigger_mode \<Rightarrow> uint" where
  "event_mask ty mode =
     (let events = (if ty = ReadAndWrite then EPOLLIN OR EPOLLOUT
        else if ty = Accept \<or> ty = Read then EPOLLIN else if ty = Write then EPOLLOUT else 0)
      in if mode = ET then events OR EPOLLET else events)"

definition updateEventObj :: "'w os \<Rightarrow> 'w kvs \<Rightarrow> int \<Rightarrow> 'w kvs option" where
  "updateEventObj os s fd = (case kvs_eventMap s fd of
     None \<Rightarrow> Some s
   | Some None \<Rightarrow> None
   | Some (Some p) \<Rightarrow> do {
       ob \<leftarrow> get_ev s p;
       let events = event_mask (ev_type ob) (ev_mode ob);
       let (r, w) = os_epoll_add os (kvs_epollFd s) (ev_fd ob) events (kvs_world s);
       Some (s\<lparr>kvs_world := (if r = Errno EEXIST
         then snd (os_epoll_mod os (kvs_epollFd s) (ev_fd ob) events w) else w)\<rparr>)
     })"

definition addEventObj :: "'w os \<Rightarrow> 'w kvs \<Rightarrow> nat \<Rightarrow> 'w kvs option" where
  "addEventObj os s p = do {
     ob \<leftarrow> get_ev s p;
     let fd = ev_fd ob;
     if kvs_eventMap s fd \<noteq> None then Some s
     else do {
       let s = set_ev s p (Some (ob\<lparr>ev_manger := True\<rparr>));
       s \<leftarrow> ref_inc (s\<lparr>kvs_eventMap := (kvs_eventMap s)(fd := Some (Some p))\<rparr>) p;
       updateEventObj os s fd
     }
   }"

subsection \<open>KVTcpClient\<close>

text \<open>\<open>make_shared<KVTcpClient>\<close>.\<close>

definition new_client :: "'w kvs \<Rightarrow> int \<Rightarrow> event_type \<Rightarrow> trigger_mode \<Rightarrow> (nat \<times> 'w kvs) outcome" where
  "new_client s fd ty mode =
     bind_outcome (ba_new False (kvs_store s)) (\<lambda>(rb, st).
     bind_outcome (ba_new False st) (\<lambda>(sb, st).
       Some (Inr (length (kvs_objs s), s\<lparr>kvs_store := st, kvs_objs := kvs_objs s @ [Some
         \<lparr>ev_class = KVTcpClient, ev_fd = fd, ev_type = ty, ev_mode = mode, ev_recvBuffer = rb,
          ev_sendBuffer = sb, ev_manger = False, ev_refs = 1\<rparr>]\<rparr>))))"

definition happenError :: "'w os \<Rightarrow> 'w kvs \<Rightarrow> nat \<Rightarrow> 'w kvs option" where
  "happenError os s p = do {
     ob \<leftarrow> get_ev s p;
     Some (if ev_fd ob \<noteq> - 1 then set_ev (kv_close os s (ev_fd ob)) p (Some (ob\<lparr>ev_fd := - 1\<rparr>)) else s)
   }"

definition recvImp :: "'w kvs \<Rightarrow> nat \<Rightarrow> 'w kvs outcome" where
  "recvImp s p = bind_outcome (lift (get_ev s p)) (\<lambda>ob. case ev_class ob of
     KVTcpServer ip port \<Rightarrow> Some (Inr s)
   | KVTcpClient \<Rightarrow> bind_outcome (analysis (kvs_store s) (ev_recvBuffer ob)) (\<lambda>(dissipativeSize, st).
       with_store s (ba_remove False st (ev_recvBuffer ob) 0 dissipativeSize)))"

definition sendImp :: "'w os \<Rightarrow> 'w kvs \<Rightarrow> nat \<Rightarrow> 'w kvs option" where
  "sendImp os s p = do {
     ob \<leftarrow> get_ev s p;
     case ev_class ob of KVTcpServer ip port \<Rightarrow> Some s
     | KVTcpClient \<Rightarrow> do {
         e \<leftarrow> ba_isEmpty (kvs_store s) (ev_sendBuffer ob);
         if e then
           (if ev_manger ob then updateEventObj os (set_ev s p (Some (ob\<lparr>ev_type := Read\<rparr>))) (ev_fd ob) else None)
         else Some s
       }
   }"

definition closeImp :: "'w os \<Rightarrow> 'w kvs \<Rightarrow> nat \<Rightarrow> 'w kvs option" where
  "closeImp os s p = do {
     ob \<leftarrow> get_ev s p;
     case ev_class ob of KVTcpServer ip port \<Rightarrow> Some s
     | KVTcpClient \<Rightarrow> if ev_manger ob then do {
         s \<leftarrow> removeEventObj os s (ev_fd ob);
         ob \<leftarrow> get_ev s p;
         let s = kv_close os s (ev_fd ob);
         Some (set_ev s p (Some (ob\<lparr>ev_fd := - 1\<rparr>)))
       } else None
   }"

definition onClose :: "'w os \<Rightarrow> 'w kvs \<Rightarrow> nat \<Rightarrow> 'w kvs option" where
  "onClose os s p = closeImp os s p"

subsection \<open>KVTcpServer\<close>

definition acceptImp :: "'w os \<Rightarrow> 'w kvs \<Rightarrow> nat \<Rightarrow> int \<Rightarrow> 'w kvs outcome" where
  "acceptImp os s p fd = bind_outcome (lift (get_ev s p)) (\<lambda>ob. case ev_class ob of
     KVTcpServer ip port \<Rightarrow> bind_outcome (new_client s fd Read ET) (\<lambda>(clPtr, s).
       if ev_manger ob then lift (do { s \<leftarrow> addEventObj os s clPtr; ref_dec os s clPtr }) else None)
   | KVTcpClient \<Rightarrow> Some (Inr s))"

definition onAccept :: "'w os \<Rightarrow> 'w kvs \<Rightarrow> nat \<Rightarrow> int \<Rightarrow> 'w kvs outcome" where
  "onAccept os s p fd = acceptImp os (s\<lparr>kvs_world := os_setNoBlock os fd (kvs_world s)\<rparr>) p fd"

subsection \<open>ReactorEventObj::onRecv and onSend\<close>

text \<open>After a hard error the loop goes on with \<open>size\<close> -1, which \<open>append\<close> takes as a
  \<open>size_t\<close>.  The result tells whether the peer has closed the connection.\<close>

partial_function (option) recv_loop :: "'w os \<Rightarrow> 'w kvs \<Rightarrow> nat \<Rightarrow> (bool \<times> 'w kvs) outcome" where
  "recv_loop os s p = bind_outcome (lift (get_ev s p)) (\<lambda>ob.
     case os_recv os (ev_fd ob) bufferSize (kvs_world s) of (r, w) \<Rightarrow>
       (case r of
          Done bs \<Rightarrow>
            (if bs = [] then Some (Inr (True, s\<lparr>kvs_world := w\<rparr>))
             else bind_outcome (with_store (s\<lparr>kvs_world := w\<rparr>) (ba_append_bytes kv_insertElement (kvs_store s)
                 (ev_recvBuffer ob) (Ext (bs @ replicate (bufferSize - length bs) 0)) (of_nat (length bs))))
               (\<lambda>s. recv_loop os s p))
        | Errno e \<Rightarrow>
            (if e = EWOULDBLOCK then Some (Inr (False, s\<lparr>kvs_world := w\<rparr>))
             else bind_outcome (lift (happenError os (s\<lparr>kvs_world := w\<rparr>) p)) (\<lambda>s.
               bind_outcome (with_store s (ba_append_bytes kv_insertElement (kvs_store s)
                 (ev_recvBuffer ob) (Ext (replicate bufferSize 0)) (- 1))) (\<lambda>s. recv_loop os s p)))))"

declare recv_loop.simps [code]

definition onRecv :: "'w os \<Rightarrow> 'w kvs \<Rightarrow> nat \<Rightarrow> 'w kvs outcome" where
  "onRecv os s p = bind_outcome (recv_loop os s p) (\<lambda>(closed, s).
     bind_outcome (recvImp s p) (\<lambda>s. if closed then lift (onClose os s p) else Some (Inr s)))"

text \<open>\<open>offset\<close> is an \<open>int\<close>; it is converted for the comparison and the pointer.  A sum that
  does not fit is undefined.  The loop ends with the offset and whether \<open>send\<close> returned 0.\<close>

partial_function (option) send_loop ::
    "'w os \<Rightarrow> 'w kvs \<Rightarrow> nat \<Rightarrow> int \<Rightarrow> (int \<times> bool \<times> 'w kvs) option" where
  "send_loop os s p offset = do {
     ob \<leftarrow> get_ev s p;
     so \<leftarrow> get_obj (kvs_store s) (ev_sendBuffer ob);
     if cm_size so \<noteq> of_int offset then do {
       bs \<leftarrow> read_ptr (kvs_store s) (padd (data_ptr so) (of_int offset)) (unat (cm_size so - of_int offset));
       case os_send os (ev_fd ob) bs (kvs_world s) of (r, w) \<Rightarrow>
         (case r of
            Errno e \<Rightarrow>
              (if e = EWOULDBLOCK then Some (offset, False, s\<lparr>kvs_world := w\<rparr>)
               else do { s \<leftarrow> happenError os (s\<lparr>kvs_world := w\<rparr>) p; send_loop os s p (offset - 1) })
          | Done n \<Rightarrow>
              (if n = 0 then Some (offset, True, s\<lparr>kvs_world := w\<rparr>)
               else if offset + int n < 2147483648
                 then send_loop os (s\<lparr>kvs_world := w\<rparr>) p (offset + int n) else None))
     } else Some (offset, False, s)
   }"

declare send_loop.simps [code]

definition onSend :: "'w os \<Rightarrow> 'w kvs \<Rightarrow> nat \<Rightarrow> 'w kvs outcome" where
  "onSend os s p = bind_outcome (lift (send_loop os s p 0)) (\<lambda>(offset, closed, s).
     bind_outcome (lift (get_ev s p)) (\<lambda>ob.
     bind_outcome (with_store s (ba_remove False (kvs_store s) (ev_sendBuffer ob) 0 (of_int offset))) (\<lambda>s.
     bind_outcome (lift (sendImp os s p)) (\<lambda>s. if closed then lift (onClose os s p) else Some (Inr s)))))"

subsection \<open>ReactorServer::doRun\<close>

text \<open>One event.  \<open>_eventMap[readyFd]\<close> adds a null pointer for a descriptor that is not in the
  map; the local \<open>eventPtr\<close> keeps the object alive to the end of the body.\<close>

definition handle_event :: "'w os \<Rightarrow> 'w kvs \<Rightarrow> nat \<Rightarrow> int \<Rightarrow> epoll_event \<Rightarrow> 'w kvs outcome" where
  "handle_event os s srv listenFD ev =
     (let (readyFd, events) = ev in
      if readyFd = listenFD then
        (let (r, w) = os_accept os listenFD (kvs_world s); s = s\<lparr>kvs_world := w\<rparr> in
         case r of Done clFd \<Rightarrow> onAccept os s srv clFd | Errno e \<Rightarrow> Some (Inr s))
      else
        (let s = (if kvs_eventMap s readyFd = None
             then s\<lparr>kvs_eventMap := (kvs_eventMap s)(readyFd := Some None)\<rparr> else s);
           eventPtr = the (kvs_eventMap s readyFd) in
         case eventPtr of
           None \<Rightarrow> if events AND EPOLLIN \<noteq> 0 \<or> events AND EPOLLOUT \<noteq> 0 then None else Some (Inr s)
         | Some p \<Rightarrow>
             bind_outcome (lift (ref_inc s p)) (\<lambda>s.
             bind_outcome (if events AND EPOLLIN \<noteq> 0 then onRecv os s p else Some (Inr s)) (\<lambda>s.
             bind_outcome (if events AND EPOLLOUT \<noteq> 0 then onSend os s p else Some (Inr s)) (\<lambda>s.
             lift (ref_dec os s p))))))"

text \<open>The loop over \<open>ready\<close> events of the array: \<open>ready\<close> is compared as a
  \<open>size_t\<close>, so that the -1 of a failed \<open>epoll_wait\<close> runs through the whole array and beyond
  it.\<close>

fun run_events :: "'w os \<Rightarrow> 'w kvs \<Rightarrow> nat \<Rightarrow> int \<Rightarrow> epoll_event list \<Rightarrow> nat \<Rightarrow> 'w kvs outcome" where
  "run_events os s srv listenFD events 0 = Some (Inr s)"
| "run_events os s srv listenFD [] (Suc n) = None"
| "run_events os s srv listenFD (ev # events) (Suc n) =
     bind_outcome (handle_event os s srv listenFD ev) (\<lambda>s. run_events os s srv listenFD events n)"

definition run_round ::
    "'w os \<Rightarrow> 'w kvs \<Rightarrow> nat \<Rightarrow> int \<Rightarrow> epoll_event list \<Rightarrow> ('w kvs \<times> epoll_event list) outcome" where
  "run_round os s srv listenFD events =
     (let (r, w) = os_epoll_wait os (kvs_epollFd s) eventCount (kvs_world s);
        (events, ready) = (case r of Done evs \<Rightarrow> (evs @ drop (length evs) events, of_nat (length evs) :: usize)
          | Errno e \<Rightarrow> (events, - 1))
      in bind_outcome (run_events os (s\<lparr>kvs_world := w\<rparr>) srv listenFD events (unat ready)) (\<lambda>s.
         Some (Inr (s, events))))"

text \<open>The loop does not end; \<open>n\<close> is the number of rounds looked at.\<close>

fun run_rounds ::
    "nat \<Rightarrow> 'w os \<Rightarrow> 'w kvs \<Rightarrow> nat \<Rightarrow> int \<Rightarrow> epoll_event list \<Rightarrow> ('w kvs \<times> epoll_event list) outcome" where
  "run_rounds 0 os s srv listenFD events = Some (Inr (s, events))"
| "run_rounds (Suc n) os s srv listenFD events =
     bind_outcome (run_round os s srv listenFD events) (\<lambda>(s, events). run_rounds n os s srv listenFD events)"

definition doRun :: "nat \<Rightarrow> 'w os \<Rightarrow> 'w kvs \<Rightarrow> nat \<Rightarrow> ('w kvs \<times> epoll_event list) outcome" where
  "doRun n os s srv = bind_outcome (lift (get_ev s srv)) (\<lambda>ob.
     let (epollFd, w) = os_epoll_create os (kvs_world s);
       listenFD = ev_fd ob;
       (r, w) = os_epoll_add os epollFd listenFD (EPOLLIN OR EPOLLET) w
     in run_rounds n os (s\<lparr>kvs_epollFd := epollFd, kvs_world := w\<rparr>) srv listenFD (replicate eventCount (0, 0)))"

subsection \<open>Start-up\<close>

definition new_server :: "'w os \<Rightarrow> 'w kvs \<Rightarrow> nat \<Rightarrow> 16 word \<Rightarrow> (nat \<times> 'w kvs) outcome" where
  "new_server os s ip port =
     bind_outcome (ba_new False (kvs_store s)) (\<lambda>(rb, st).
     bind_outcome (ba_new False st) (\<lambda>(sb, st).
     bind_outcome (lift (ba_copy st ip)) (\<lambda>(own_ip, st).
     bind_outcome (lift (make_address os st ip port)) (\<lambda>addr.
       let (fd, w) = os_socket os (kvs_world s);
         w = os_setNoBlock os fd w;
         (ret, w) = os_bind os fd addr w;
         (ret, w) = os_listen os fd 1024 w;
         w = os_reuseaddr os fd w
       in Some (Inr (length (kvs_objs s), s\<lparr>kvs_store := st, kvs_world := w, kvs_objs := kvs_objs s @ [Some
         \<lparr>ev_class = KVTcpServer own_ip port, ev_fd = fd, ev_type = EvNone, ev_mode = ET, ev_recvBuffer = rb,
          ev_sendBuffer = sb, ev_manger = False, ev_refs = 1\<rparr>]\<rparr>))))))"

text \<open>The constructor of \<open>ReactorServer\<close> shares the listening object and sets its manager.\<close>

definition new_reactor :: "'w kvs \<Rightarrow> nat \<Rightarrow> 'w kvs option" where
  "new_reactor s srv = do {
     s \<leftarrow> ref_inc s srv;
     ob \<leftarrow> get_ev s srv;
     Some (set_ev s srv (Some (ob\<lparr>ev_manger := True\<rparr>)))
   }"

definition kv_main :: "nat \<Rightarrow> 'w os \<Rightarrow> 'w \<Rightarrow> ('w kvs \<times> epoll_event list) outcome" where
  "kv_main n os w =
     bind_outcome (ba_from_cstr False kv_insertElement empty_store [48, 0]) (\<lambda>(ip, st).
     bind_outcome (new_server os \<lparr>kvs_store = st, kvs_objs = [], kvs_eventMap = (\<lambda>_. None), kvs_epollFd = - 1,
       kvs_world = w\<rparr> ip 61972) (\<lambda>(srv, s).
     bind_outcome (lift (ba_destroy (kvs_store s) ip)) (\<lambda>st.
     bind_outcome (lift (new_reactor (s\<lparr>kvs_store := st\<rparr>) srv)) (\<lambda>s. doRun n os s srv))))"

subsection \<open>Objects\<close>

lemma get_ev_update [simp]:
  "get_ev (s\<lparr>kvs_store := st\<rparr>) p = get_ev s p" "get_ev (s\<lparr>kvs_world := w\<rparr>) p = get_ev s p"
  "get_ev (s\<lparr>kvs_eventMap := m\<rparr>) p = get_ev s p" "get_ev (s\<lparr>kvs_epollFd := e\<rparr>) p = get_ev s p"
  by (simp_all add: get_ev_def)

lemma set_ev_fields [simp]:
  "kvs_store (set_ev s p x) = kvs_store s" "kvs_world (set_ev s p x) = kvs_world s"
  "kvs_eventMap (set_ev s p x) = kvs_eventMap s" "kvs_epollFd (set_ev s p x) = kvs_epollFd s"
  "length (kvs_objs (set_ev s p x)) = length (kvs_objs s)"
  by (simp_all add: set_ev_def)

lemma kv_close_fields [simp]:
  "kvs_store (kv_close os s fd) = kvs_store s" "kvs_world (kv_close os s fd) = os_close os fd (kvs_world s)"
  "kvs_eventMap (kv_close os s fd) = kvs_eventMap s" "kvs_epollFd (kv_close os s fd) = kvs_epollFd s"
  "kvs_objs (kv_close os s fd) = kvs_objs s" "get_ev (kv_close os s fd) p = get_ev s p"
  by (simp_all add: kv_close_def)

lemma get_ev_length: "get_ev s p = Some ob \<Longrightarrow> p < length (kvs_objs s)"
  by (simp add: get_ev_def split: if_splits)

lemma get_ev_set_ev: "get_ev s p = Some ob \<Longrightarrow> get_ev (set_ev s p x) q = (if q = p then x else get_ev s q)"
  by (auto simp: get_ev_def set_ev_def split: if_splits)

lemma get_ev_add: "get_ev (s\<lparr>kvs_objs := kvs_objs s @ [Some ob]\<rparr>) q =
    (if q = length (kvs_objs s) then Some ob else get_ev s q)"
  by (auto simp: get_ev_def nth_append)

subsection \<open>Receiving\<close>

text \<open>More bytes than the region behind the pointer has are never copied.\<close>

lemma kv_insertElement_short:
  assumes "length bs < unat n"
  shows "kv_insertElement s i pos (Ext bs) n \<noteq> Some (Inr s')"
proof -
  have "byte_memcpy t d (Ext bs) (unat n) = None" for t d
    using assms by (simp add: byte_memcpy_def read_ptr_def)
  then have "insert_copies d t i pos (Ext bs) n = None" for d t
    by (auto simp: insert_copies_def split: bind_splits)
  then show ?thesis
    by (auto simp: kv_insertElement_def bind_outcome_eq_Inr)
qed

lemma append_minus_one:
  "ba_append_bytes kv_insertElement t i (Ext (replicate bufferSize 0)) (- 1) \<noteq> Some (Inr t')"
proof -
  have "length (replicate bufferSize (0 :: byte)) < unat (- 1 :: usize)"
    by (simp only: length_replicate unat_minus_one_uint64 bufferSize_def)
  then show ?thesis using kv_insertElement_short by (simp add: ba_append_bytes_def bind_outcome_eq_Inr)
qed

lemma recv_loop_error:
  assumes "get_ev s p = Some ob" "os_recv os (ev_fd ob) bufferSize (kvs_world s) = (Errno e, w)" "e \<noteq> EWOULDBLOCK"
  shows "recv_loop os s p \<noteq> Some (Inr x)"
  using assms append_minus_one by (subst recv_loop.simps) (auto simp: bind_outcome_eq_Inr with_store_def)

lemma bufferSize_less: "bufferSize < 18446744073709551616"
  by (simp add: bufferSize_def)

lemma recv_loop_rep:
  assumes "delivers os fd bufferSize w cs r w'"
    and "get_ev s p = Some ob" "ev_fd ob = fd" "kvs_world s = w" "ev_recvBuffer ob = rb"
    and "store_ok (kvs_store s)" "get_obj (kvs_store s) rb = Some bo" "content (kvs_store s) rb = Some xs"
    and "kv_room (unat (cm_capacity bo)) (unat (cm_size bo)) (length (concat cs))"
  shows "if r = Errno EWOULDBLOCK \<or> r = Done []
    then \<exists>st. recv_loop os s p = Some (Inr (r = Done [], s\<lparr>kvs_store := st, kvs_world := w'\<rparr>)) \<and> store_ok st \<and>
      frame rb (kvs_store s) st \<and> content st rb = Some (xs @ concat cs)
    else \<forall>x. recv_loop os s p \<noteq> Some (Inr x)"
  using assms
proof (induction arbitrary: s bo xs rule: delivers.induct)
  case (last_call w r w')
  show ?case
  proof (cases "r = Errno EWOULDBLOCK \<or> r = Done []")
    case True
    then have "recv_loop os s p = Some (Inr (r = Done [], s\<lparr>kvs_world := w'\<rparr>))"
      using last_call by (subst recv_loop.simps) auto
    then show ?thesis using True last_call by (intro if_P [THEN iffD2]) (auto intro!: exI [of _ "kvs_store s"])
  next
    case False
    then obtain e where "r = Errno e" "e \<noteq> EWOULDBLOCK" using last_call.hyps(2) by auto
    then show ?thesis using recv_loop_error last_call False by metis
  qed
next
  case (chunk w c w1 cs r w')
  let ?n = "of_nat (length c) :: usize"
  have n: "unat ?n = length c" using chunk.hyps(3) by (simp add: unat_small bufferSize_def)
  have room: "kv_room (unat (cm_capacity bo)) (unat (cm_size bo)) (unat ?n + length (concat cs))"
    using chunk.prems(8) n by simp
  obtain st bo' where st: "kv_insertElement (kvs_store s) rb (cm_size bo)
      (Ext (c @ replicate (bufferSize - length c) 0)) ?n = Some (Inr st)" "store_ok st"
    "frame rb (kvs_store s) st" "get_obj st rb = Some bo'" "content st rb = Some (xs @ c)"
    "kv_room (unat (cm_capacity bo')) (unat (cm_size bo')) (length (concat cs))"
    using kv.append_law [OF chunk.prems(5-7) chunk_source [OF chunk.hyps(3) bufferSize_less] kv.room_less [OF room]] room by blast
  let ?s = "s\<lparr>kvs_world := w1, kvs_store := st\<rparr>"
  have step: "recv_loop os s p = recv_loop os ?s p"
    using chunk.hyps(1,2) chunk.prems(1-4,6) st(1)
    by (subst recv_loop.simps) (simp add: with_store_def ba_append_bytes_def)
  have "get_ev ?s p = Some ob" using chunk.prems(1) by simp
  note ih = chunk.IH [OF this chunk.prems(2) _ chunk.prems(4), of bo' "xs @ c"]
  show ?case
  proof (cases "r = Errno EWOULDBLOCK \<or> r = Done []")
    case True
    then obtain st' where "recv_loop os ?s p = Some (Inr (r = Done [], ?s\<lparr>kvs_store := st', kvs_world := w'\<rparr>))"
      "store_ok st'" "frame rb st st'" "content st' rb = Some (xs @ c @ concat cs)"
      using ih st by auto
    then have "recv_loop os s p = Some (Inr (r = Done [], s\<lparr>kvs_store := st', kvs_world := w'\<rparr>)) \<and> store_ok st' \<and>
        frame rb (kvs_store s) st' \<and> content st' rb = Some (xs @ concat (c # cs))"
      using step frame_trans [OF st(3)] by simp
    then show ?thesis using True by (simp only: if_True) blast
  qed (use ih st step in simp)
qed

text \<open>Taking \<open>n\<close> bytes off the front when there are no more.\<close>

lemma remove_all:
  assumes "store_ok s" "content s i = Some xs" "unat n = length xs"
  shows "\<exists>s'. ba_remove False s i 0 n = Some (Inr s') \<and> store_ok s' \<and> frame i s s' \<and> content s' i = Some []"
proof -
  obtain ob where "get_obj s i = Some ob" using assms(2) by (auto simp: content_def split: bind_splits)
  from reomveElement_rep [OF assms(1) this assms(2), where braced = False and pos = 0 and len = n, OF _ _ refl refl]
    assms(3)
  show ?thesis by (simp add: ba_remove_def)
qed


text \<open>A server (object 0, descriptor 3) with one client (object 1, descriptor 5).\<close>

definition sample_store :: bstore where
  "sample_store = \<lparr>cm_objs = [Some \<lparr>cm_data = Some 0, cm_size = 0, cm_capacity = 4\<rparr>,
       Some \<lparr>cm_data = Some 1, cm_size = 0, cm_capacity = 4\<rparr>],
     cm_bufs = (\<lambda>b. if b = 0 \<or> b = 1 then Some [0, 0, 0, 0] else None), cm_next = 2\<rparr>"

definition sample_client :: evobj where
  "sample_client = \<lparr>ev_class = KVTcpClient, ev_fd = 5, ev_type = Read, ev_mode = ET, ev_recvBuffer = 0,
     ev_sendBuffer = 1, ev_manger = True, ev_refs = 1\<rparr>"

definition sample_kvs :: "byte list syscall list \<Rightarrow> net_script kvs" where
  "sample_kvs rs = \<lparr>kvs_store = sample_store, kvs_objs =
       [Some \<lparr>ev_class = KVTcpServer 9 0, ev_fd = 3, ev_type = EvNone, ev_mode = ET, ev_recvBuffer = 7,
          ev_sendBuffer = 8, ev_manger = True, ev_refs = 2\<rparr>, Some sample_client],
     kvs_eventMap = [5 \<mapsto> Some 1], kvs_epollFd = 4, kvs_world = \<lparr>sc_recv = rs, sc_wait = [], sc_log = []\<rparr>\<rparr>"

lemma sample_obj: "get_obj sample_store j =
    (if j = 0 then Some \<lparr>cm_data = Some 0, cm_size = 0, cm_capacity = 4\<rparr>
     else if j = 1 then Some \<lparr>cm_data = Some 1, cm_size = 0, cm_capacity = 4\<rparr> else None)"
  by (auto simp: get_obj_def sample_store_def less_Suc_eq nth_Cons')

lemma sample_store_ok: "store_ok sample_store"
proof -
  have own: "owner sample_store b j \<longleftrightarrow> j = 0 \<and> b = 0 \<or> j = 1 \<and> b = 1" for b j
    by (auto simp: owner_def sample_obj)
  have "cm_bufs sample_store b \<noteq> None \<longleftrightarrow> b = 0 \<or> b = 1" "cm_next sample_store = 2" for b
    by (simp_all add: sample_store_def)
  then show ?thesis
    unfolding store_ok_but_def own
    by (auto simp: obj_ok_def sample_obj split: if_splits) (simp_all add: sample_store_def)
qed

lemma sample_content: "content sample_store 0 = Some []" "content sample_store 1 = Some []"
  by (simp_all add: content_def sample_obj read_ptr_def)

lemma sample_ev: "get_ev (sample_kvs rs) 1 = Some sample_client"
  by (simp add: get_ev_def sample_kvs_def)


text \<open>When \<open>recv\<close> fails with anything but \<open>EWOULDBLOCK\<close>, however many bytes came before,
  \<open>onRecv\<close> has no defined result: the loop goes on and appends -1 bytes.\<close>

theorem kv_recv_error:
  assumes "get_ev s p = Some ob" "delivers os (ev_fd ob) bufferSize (kvs_world s) cs (Errno e) w"
    "e \<noteq> EWOULDBLOCK" "store_ok (kvs_store s)" "get_obj (kvs_store s) (ev_recvBuffer ob) = Some bo"
    "content (kvs_store s) (ev_recvBuffer ob) = Some xs"
    "kv_room (unat (cm_capacity bo)) (unat (cm_size bo)) (length (concat cs))"
  shows "onRecv os s p \<noteq> Some (Inr s')"
  using recv_loop_rep [OF assms(2,1) refl refl refl assms(4-7)] assms(3)
  by (auto simp: onRecv_def bind_outcome_eq_Inr)

theorem kv_recv_error_witness:
  "\<forall>s'. onRecv script_os (sample_kvs [Done [1, 2], Errno 104]) 1 \<noteq> Some (Inr s')"
proof -
  let ?s = "sample_kvs [Done [1, 2], Errno 104]"
  have "delivers script_os (ev_fd sample_client) bufferSize (kvs_world ?s) [[1, 2]] (Errno 104)
      (kvs_world ?s\<lparr>sc_recv := []\<rparr>)"
    by (intro chunk [where ?w1.0 = "kvs_world ?s\<lparr>sc_recv := [Errno 104]\<rparr>"] last_call)
      (simp_all add: script_os_def sample_kvs_def bufferSize_def)
  then show ?thesis
    using kv_recv_error [OF sample_ev, where e = 104] sample_store_ok sample_content
    by (simp add: sample_client_def sample_obj kv_room_def EWOULDBLOCK_def) (simp add: sample_kvs_def sample_obj)
qed

subsection \<open>Sending\<close>

lemma send_loop_rep:
  assumes "takes os fd w rest w'" "get_ev s p = Some ob" "ev_fd ob = fd" "kvs_world s = w"
    and "content (kvs_store s) (ev_sendBuffer ob) = Some bs" "rest = drop k bs" "k \<le> length bs" "length bs < 2147483648"
  shows "send_loop os s p (int k) = Some (int (length bs), False, s\<lparr>kvs_world := w'\<rparr>)"
  using assms
proof (induction arbitrary: s k rule: takes.induct)
  case (nothing w)
  obtain so where so: "get_obj (kvs_store s) (ev_sendBuffer ob) = Some so"
    using nothing.prems(4) by (auto simp: content_def split: bind_splits)
  have "unat (cm_size so) = k" "k = length bs" using content_length [OF nothing.prems(4) so] nothing.prems(5,6) by simp_all
  then have "cm_size so = of_int (int k)" using nothing.prems(7) by (simp add: word_unat_eq_iff unat_small)
  then show ?case using nothing.prems so \<open>k = length bs\<close> by (subst send_loop.simps) simp
next
  case (some_bytes rest w n w1 w')
  let ?k = "of_int (int k) :: usize"
  obtain so where so: "get_obj (kvs_store s) (ev_sendBuffer ob) = Some so"
    using some_bytes.prems(4) by (auto simp: content_def split: bind_splits)
  have l: "unat (cm_size so) = length bs" using content_length [OF some_bytes.prems(4) so] by simp
  have kl: "k + n \<le> length bs" "k < length bs" using some_bytes.hyps(2,3) some_bytes.prems(5) by auto
  have u: "unat ?k = k" using kl(2) some_bytes.prems(7) by (simp add: unat_small)
  have ne: "cm_size so \<noteq> ?k" using l u kl(2) by auto
  have "unat (cm_size so - ?k) = length bs - k" using l u kl(2) by (subst unat_sub_small) simp_all
  then have rd: "read_ptr (kvs_store s) (padd (data_ptr so) ?k) (unat (cm_size so - ?k)) = Some rest"
    using content_slice [OF some_bytes.prems(4) so, of ?k "length bs - k"] u kl(2) some_bytes.prems(5) by simp
  have "send_loop os s p (int k) = send_loop os (s\<lparr>kvs_world := w1\<rparr>) p (int k + int n)"
    using some_bytes.prems(1-3) some_bytes.hyps(1,2) some_bytes.prems(7) so ne rd kl(1)
    by (subst send_loop.simps) simp
  also have "int k + int n = int (k + n)" by simp
  also have "send_loop os (s\<lparr>kvs_world := w1\<rparr>) p (int (k + n)) =
      Some (int (length bs), False, s\<lparr>kvs_world := w1\<rparr>\<lparr>kvs_world := w'\<rparr>)"
    by (rule some_bytes.IH) (use some_bytes.prems kl in \<open>simp_all add: add.commute\<close>)
  finally show ?case by simp
qed

text \<open>\<open>onSend\<close> hands the whole send buffer of a client to the kernel, however much each
  \<open>send\<close> takes, empties the buffer and goes back to waiting for input.\<close>

theorem kv_send_all:
  assumes ob: "get_ev s p = Some ob" "ev_class ob = KVTcpClient" "ev_manger ob"
    "kvs_eventMap s (ev_fd ob) = Some (Some p)"
    and net: "takes os (ev_fd ob) (kvs_world s) bs w"
      "os_epoll_add os (kvs_epollFd s) (ev_fd ob) (event_mask Read (ev_mode ob)) w = (Errno EEXIST, w1)"
      "os_epoll_mod os (kvs_epollFd s) (ev_fd ob) (event_mask Read (ev_mode ob)) w1 = (Done (), w2)"
    and st: "store_ok (kvs_store s)" "content (kvs_store s) (ev_sendBuffer ob) = Some bs" "length bs < 2147483648"
  shows "\<exists>st. onSend os s p = Some (Inr (set_ev (s\<lparr>kvs_world := w2, kvs_store := st\<rparr>) p (Some (ob\<lparr>ev_type := Read\<rparr>)))) \<and>
    store_ok st \<and> frame (ev_sendBuffer ob) (kvs_store s) st \<and> content st (ev_sendBuffer ob) = Some []"
proof -
  let ?sb = "ev_sendBuffer ob" and ?n = "of_int (int (length bs)) :: usize"
  have loop: "send_loop os s p 0 = Some (int (length bs), False, s\<lparr>kvs_world := w\<rparr>)"
    using send_loop_rep [OF net(1) ob(1) refl refl st(2), of 0] st(3) by simp
  have "unat ?n = length bs" using st(3) by (simp add: unat_small)
  then obtain st' where st': "ba_remove False (kvs_store s) ?sb 0 ?n = Some (Inr st')" "store_ok st'"
    "frame ?sb (kvs_store s) st'" "content st' ?sb = Some []"
    using remove_all [OF st(1,2)] by blast
  obtain so where so: "get_obj st' ?sb = Some so" using st'(4) by (auto simp: content_def split: bind_splits)
  then have "cm_size so = 0" using content_length [OF st'(4) so] by (simp add: word_unat_eq_iff)
  define s1 where "s1 = set_ev (s\<lparr>kvs_world := w, kvs_store := st'\<rparr>) p (Some (ob\<lparr>ev_type := Read\<rparr>))"
  have g0: "get_ev (s\<lparr>kvs_world := w, kvs_store := st'\<rparr>) p = Some ob" using ob(1) by simp
  have "get_ev s1 p = Some (ob\<lparr>ev_type := Read\<rparr>)" using get_ev_set_ev [OF g0] by (simp add: s1_def)
  then have "updateEventObj os s1 (ev_fd ob) = Some (s1\<lparr>kvs_world := w2\<rparr>)"
    using ob(4) net(2,3) by (simp add: updateEventObj_def s1_def)
  then have "sendImp os (s\<lparr>kvs_world := w, kvs_store := st'\<rparr>) p = Some (s1\<lparr>kvs_world := w2\<rparr>)"
    using ob(1-3) so \<open>cm_size so = 0\<close> by (simp add: sendImp_def ba_isEmpty_def s1_def)
  moreover have "s1\<lparr>kvs_world := w2\<rparr> = set_ev (s\<lparr>kvs_world := w2, kvs_store := st'\<rparr>) p (Some (ob\<lparr>ev_type := Read\<rparr>))"
    by (simp add: s1_def set_ev_def)
  ultimately show ?thesis
    using loop ob(1) st' by (auto simp: onSend_def with_store_def)
qed

theorem kv_send_all_witness:
  "\<exists>s'. onSend (script_os\<lparr>os_epoll_add := (\<lambda>ep fd ev w. (Errno EEXIST, w))\<rparr>)
      (sample_kvs []\<lparr>kvs_store := line_store\<rparr>) 1 = Some (Inr s') \<and>
    sc_log (kvs_world s') = [Sent 5 [9], Watch 5 (EPOLLIN OR EPOLLET)] \<and> content (kvs_store s') 1 = Some []"
proof -
  let ?os = "script_os\<lparr>os_epoll_add := (\<lambda>ep fd ev w. (Errno EEXIST, w))\<rparr>"
  let ?s = "sample_kvs []\<lparr>kvs_store := line_store\<rparr>"
  let ?w = "\<lparr>sc_recv = [], sc_wait = [], sc_log = [Sent 5 [9]]\<rparr>"
  let ?w2 = "\<lparr>sc_recv = [], sc_wait = [], sc_log = [Sent 5 [9], Watch 5 (EPOLLIN OR EPOLLET)]\<rparr>"
  have o: "get_ev ?s 1 = Some sample_client" "ev_class sample_client = KVTcpClient" "ev_manger sample_client"
    "ev_fd sample_client = 5" "ev_mode sample_client = ET" "ev_sendBuffer sample_client = 1"
    using sample_ev by (simp_all add: sample_client_def)
  have "kvs_eventMap ?s (ev_fd sample_client) = Some (Some 1)" by (simp add: o sample_kvs_def)
  moreover have "takes ?os (ev_fd sample_client) (kvs_world ?s) [9] ?w"
    by (rule some_bytes [where n = 1 and ?w1.0 = ?w])
      (simp_all add: o takes_Nil script_os_def sample_kvs_def log_action_def)
  moreover have "os_epoll_mod ?os (kvs_epollFd ?s) (ev_fd sample_client) (event_mask Read (ev_mode sample_client)) ?w =
      (Done (), ?w2)"
    by (simp add: o event_mask_def script_os_def log_action_def)
  moreover have "store_ok (kvs_store ?s)" "content (kvs_store ?s) (ev_sendBuffer sample_client) = Some [9]"
    using line_store_ok line_store_content by (simp_all add: o)
  ultimately obtain st where "onSend ?os ?s 1 = Some (Inr (set_ev (?s\<lparr>kvs_world := ?w2, kvs_store := st\<rparr>) 1
      (Some (sample_client\<lparr>ev_type := Read\<rparr>))))" "content st (ev_sendBuffer sample_client) = Some []"
    using kv_send_all [OF o(1-3), of ?os "[9]" ?w ?w ?w2] by auto
  then show ?thesis by (simp add: o)
qed

subsection \<open>The reactor and its clients\<close>

text \<open>The listening object is alive and has its manager; the map and the live clients are in
  bijection: every entry is a live client with that descriptor and the reactor as its manager, owned
  by the map alone, and every live client is in the map.\<close>

definition reactor_wf :: "'w kvs \<Rightarrow> nat \<Rightarrow> bool" where
  "reactor_wf s srv \<longleftrightarrow>
     (\<exists>so ip port. get_ev s srv = Some so \<and> ev_class so = KVTcpServer ip port \<and> ev_manger so) \<and>
     (\<forall>fd q. kvs_eventMap s fd = Some q \<longrightarrow> (\<exists>p ob. q = Some p \<and> get_ev s p = Some ob \<and>
        ev_class ob = KVTcpClient \<and> ev_fd ob = fd \<and> ev_manger ob \<and> ev_refs ob = 1)) \<and>
     (\<forall>p ob. get_ev s p = Some ob \<longrightarrow> ev_class ob = KVTcpClient \<longrightarrow> kvs_eventMap s (ev_fd ob) = Some (Some p))"

lemma reactor_wf_cong:
  "get_ev s' = get_ev s \<Longrightarrow> kvs_eventMap s' = kvs_eventMap s \<Longrightarrow> reactor_wf s' srv = reactor_wf s srv"
  by (simp add: reactor_wf_def)

lemma reactor_wf_entry:
  assumes "reactor_wf s srv" "kvs_eventMap s fd = Some q"
  shows "\<exists>p ob. q = Some p \<and> get_ev s p = Some ob \<and> ev_class ob = KVTcpClient \<and> ev_fd ob = fd \<and>
    ev_manger ob \<and> ev_refs ob = 1 \<and> p \<noteq> srv"
  using assms unfolding reactor_wf_def by (metis ev_class.distinct(1) option.inject)

text \<open>A client leaves.\<close>

lemma reactor_wf_remove:
  assumes wf: "reactor_wf s srv" and m: "kvs_eventMap s fd = Some (Some p)"
    and s': "kvs_eventMap s' = (kvs_eventMap s)(fd := None)" "get_ev s' p = None"
      "\<forall>q. q \<noteq> p \<longrightarrow> get_ev s' q = get_ev s q"
  shows "reactor_wf s' srv"
proof -
  obtain ob where ob: "get_ev s p = Some ob" "ev_class ob = KVTcpClient" "ev_fd ob = fd" "p \<noteq> srv"
    using reactor_wf_entry [OF wf m] by auto
  have "kvs_eventMap s' (ev_fd ob') = Some (Some q)" if "get_ev s' q = Some ob'" "ev_class ob' = KVTcpClient" for q ob'
  proof -
    have "q \<noteq> p" using that s'(2) by auto
    then have "kvs_eventMap s (ev_fd ob') = Some (Some q)" using wf that s'(3) by (auto simp: reactor_wf_def)
    then show ?thesis using m \<open>q \<noteq> p\<close> s'(1) by auto
  qed
  moreover have "\<exists>r ob'. q = Some r \<and> get_ev s' r = Some ob' \<and> ev_class ob' = KVTcpClient \<and> ev_fd ob' = f \<and>
      ev_manger ob' \<and> ev_refs ob' = 1" if "kvs_eventMap s' f = Some q" for f q
  proof -
    have f: "f \<noteq> fd" "kvs_eventMap s f = Some q" using that s'(1) by (auto split: if_splits)
    then obtain r ob' where r: "q = Some r" "get_ev s r = Some ob'" "ev_class ob' = KVTcpClient" "ev_fd ob' = f"
      "ev_manger ob'" "ev_refs ob' = 1"
      using reactor_wf_entry [OF wf] by blast
    moreover have "r \<noteq> p" using r(2,4) ob f(1) by auto
    ultimately show ?thesis using s'(3) by auto
  qed
  moreover have "get_ev s' srv = get_ev s srv" using s'(3) ob(4) by simp
  then have "\<exists>so ip port. get_ev s' srv = Some so \<and> ev_class so = KVTcpServer ip port \<and> ev_manger so"
    using wf by (simp add: reactor_wf_def)
  ultimately show ?thesis unfolding reactor_wf_def by blast
qed

lemma closeImp_rep:
  assumes "get_ev s p = Some ob" "ev_class ob = KVTcpClient" "ev_manger ob" "ev_refs ob = 2"
    "kvs_eventMap s (ev_fd ob) = Some (Some p)"
  shows "\<exists>s'. closeImp os s p = Some s' \<and> kvs_eventMap s' = (kvs_eventMap s)(ev_fd ob := None) \<and>
    get_ev s' p = Some (ob\<lparr>ev_refs := 1, ev_fd := - 1\<rparr>) \<and> (\<forall>q. q \<noteq> p \<longrightarrow> get_ev s' q = get_ev s q) \<and>
    kvs_store s' = kvs_store s \<and>
    kvs_world s' = os_close os (ev_fd ob) (snd (os_epoll_del os (kvs_epollFd s) (ev_fd ob) (kvs_world s)))"
proof -
  let ?ob = "ob\<lparr>ev_refs := 1\<rparr>" and ?m = "(kvs_eventMap s)(ev_fd ob := None)"
  let ?s1 = "set_ev (s\<lparr>kvs_eventMap := ?m\<rparr>) p (Some ?ob)"
  let ?s2 = "?s1\<lparr>kvs_world := snd (os_epoll_del os (kvs_epollFd s) (ev_fd ob) (kvs_world s))\<rparr>"
  let ?s3 = "set_ev (kv_close os ?s2 (ev_fd ob)) p (Some (?ob\<lparr>ev_fd := - 1\<rparr>))"
  have g0: "get_ev (s\<lparr>kvs_eventMap := ?m\<rparr>) p = Some ob" using assms(1) by simp
  have g1: "get_ev ?s1 q = (if q = p then Some ?ob else get_ev s q)" for q
    by (subst get_ev_set_ev [OF g0]) simp
  have "removeEventObj os s (ev_fd ob) = Some ?s2"
    using assms g0 by (simp add: removeEventObj_def ref_dec_ptr_def ref_dec_def numeral_2_eq_2)
  moreover have g3: "get_ev ?s3 q = (if q = p then Some (?ob\<lparr>ev_fd := - 1\<rparr>) else get_ev s q)" for q
    by (subst get_ev_set_ev [of _ p ?ob]) (simp_all add: g1 del: One_nat_def)
  ultimately have "closeImp os s p = Some ?s3"
    using assms g1 by (simp add: closeImp_def del: One_nat_def)
  then show ?thesis using g3 by (intro exI [of _ ?s3]) simp
qed

text \<open>The end of a closed client: its buffers go, its descriptor is not closed again.\<close>

lemma ev_destroy_closed:
  assumes "get_ev s p = Some ob" "ev_class ob = KVTcpClient" "ev_fd ob = - 1"
  shows "ev_destroy os s p = Some s' \<longleftrightarrow> (\<exists>st. ba_destroy (kvs_store s) (ev_sendBuffer ob) = Some st \<and>
    (\<exists>st'. ba_destroy st (ev_recvBuffer ob) = Some st' \<and> s' = set_ev (s\<lparr>kvs_store := st'\<rparr>) p None))"
  using assms by (auto simp: ev_destroy_def split: bind_splits)

lemma ref_inc_rep:
  assumes "get_ev s p = Some ob"
  shows "ref_inc s p = Some (set_ev s p (Some (ob\<lparr>ev_refs := ev_refs ob + 1\<rparr>)))"
  using assms by (simp add: ref_inc_def)

text \<open>An empty buffer has no message.\<close>

lemma recvImp_empty:
  assumes "get_ev s p = Some ob" "ev_class ob = KVTcpClient" "store_ok (kvs_store s)"
    "content (kvs_store s) (ev_recvBuffer ob) = Some []"
  shows "\<exists>st. recvImp s p = Some (Inr (s\<lparr>kvs_store := st\<rparr>)) \<and> store_ok st \<and>
    frame (ev_recvBuffer ob) (kvs_store s) st \<and> content st (ev_recvBuffer ob) = Some []"
proof -
  obtain bo where bo: "get_obj (kvs_store s) (ev_recvBuffer ob) = Some bo"
    using assms(4) by (auto simp: content_def split: bind_splits)
  then have "unat (cm_size bo) = 0" using content_length [OF assms(4)] by simp
  then have "analysis (kvs_store s) (ev_recvBuffer ob) = Some (Inr (0, kvs_store s))"
    using bo by (simp add: analysis_def analysis_loop.simps word_less_nat_alt)
  then show ?thesis
    using remove_all [OF assms(3,4), of 0] assms(1,2) by (auto simp: recvImp_def with_store_def)
qed

lemma peer_closes_rep:
  assumes wf: "reactor_wf s srv" and ob: "kvs_eventMap s fd = Some (Some p)" "get_ev s p = Some ob"
    and ev: "fd \<noteq> listenFD" "events AND EPOLLIN \<noteq> 0" "events AND EPOLLOUT = 0"
    and net: "os_recv os fd bufferSize (kvs_world s) = (Done [], w)"
    and st: "store_ok (kvs_store s)" "content (kvs_store s) (ev_recvBuffer ob) = Some []"
      "get_obj (kvs_store s) (ev_sendBuffer ob) \<noteq> None" "ev_sendBuffer ob \<noteq> ev_recvBuffer ob"
  shows "\<exists>s'. handle_event os s srv listenFD (fd, events) = Some (Inr s') \<and> reactor_wf s' srv \<and>
    kvs_eventMap s' = (kvs_eventMap s)(fd := None) \<and> get_ev s' p = None \<and>
    (\<forall>q. q \<noteq> p \<longrightarrow> get_ev s' q = get_ev s q) \<and>
    kvs_world s' = os_close os fd (snd (os_epoll_del os (kvs_epollFd s) fd w)) \<and> store_ok (kvs_store s') \<and>
    get_obj (kvs_store s') (ev_recvBuffer ob) = None \<and> get_obj (kvs_store s') (ev_sendBuffer ob) = None"
proof -
  let ?rb = "ev_recvBuffer ob" and ?sb = "ev_sendBuffer ob"
  have c: "ev_class ob = KVTcpClient" "ev_fd ob = fd" "ev_manger ob" "ev_refs ob = 1"
    using reactor_wf_entry [OF wf ob(1)] ob(2) by auto
  let ?ob = "ob\<lparr>ev_refs := 2\<rparr>"
  define s1 where "s1 = set_ev s p (Some ?ob)"
  have inc: "ref_inc s p = Some s1" using ref_inc_rep [OF ob(2)] c(4) by (simp add: s1_def numeral_2_eq_2)
  have s1: "get_ev s1 q = (if q = p then Some ?ob else get_ev s q)" "kvs_store s1 = kvs_store s"
    "kvs_world s1 = kvs_world s" "kvs_eventMap s1 = kvs_eventMap s" "kvs_epollFd s1 = kvs_epollFd s" for q
    using get_ev_set_ev [OF ob(2)] by (simp_all add: s1_def)
  define s2 where "s2 = s1\<lparr>kvs_world := w\<rparr>"
  have loop: "recv_loop os s1 p = Some (Inr (True, s2))"
    using net c s1 by (subst recv_loop.simps) (simp add: s2_def)
  obtain st1 where r: "recvImp s2 p = Some (Inr (s2\<lparr>kvs_store := st1\<rparr>))" "store_ok st1"
    "frame ?rb (kvs_store s) st1" "content st1 ?rb = Some []"
    using recvImp_empty [of s2 p ?ob] c st s1 by (auto simp: s2_def)
  obtain s3 where s3: "closeImp os (s2\<lparr>kvs_store := st1\<rparr>) p = Some s3"
    "kvs_eventMap s3 = (kvs_eventMap s)(fd := None)" "get_ev s3 p = Some (?ob\<lparr>ev_refs := 1, ev_fd := - 1\<rparr>)"
    "\<forall>q. q \<noteq> p \<longrightarrow> get_ev s3 q = get_ev s q" "kvs_store s3 = st1"
    "kvs_world s3 = os_close os fd (snd (os_epoll_del os (kvs_epollFd s) fd w))"
    using closeImp_rep [of "s2\<lparr>kvs_store := st1\<rparr>" p ?ob os] c ob(1) s1 by (auto simp: s2_def)
  have sb: "get_obj st1 ?sb \<noteq> None" "get_obj st1 ?rb \<noteq> None"
    using st(3,4) r(3,4) by (auto simp: frame_def content_def split: bind_splits)
  obtain st2 where st2: "ba_destroy st1 ?sb = Some st2" "store_ok st2" "frame ?sb st1 st2" "get_obj st2 ?sb = None"
    using destroy_rep [OF r(2)] sb(1) by (auto simp: ba_destroy_def get_obj_set_obj)
  have "get_obj st2 ?rb \<noteq> None" using st2(3) sb(2) st(4) by (simp add: frame_def)
  then obtain st3 where st3: "ba_destroy st2 ?rb = Some st3" "store_ok st3" "frame ?rb st2 st3" "get_obj st3 ?rb = None"
    using destroy_rep [OF st2(2)] by (auto simp: ba_destroy_def get_obj_set_obj)
  define s4 where "s4 = set_ev (s3\<lparr>kvs_store := st3\<rparr>) p None"
  have "ev_destroy os s3 p = Some s4"
    unfolding ev_destroy_closed [OF s3(3), simplified, OF c(1)] using st2(1) st3(1) s3(5) by (simp add: s4_def)
  then have dec: "ref_dec os s3 p = Some s4" using s3(3) by (simp add: ref_dec_def)
  have res: "handle_event os s srv listenFD (fd, events) = Some (Inr s4)"
    using ev ob(1) inc loop r(1) s3(1) dec by (simp add: handle_event_def onRecv_def onClose_def Let_def)
  have g4: "get_ev s4 p = None" "\<forall>q. q \<noteq> p \<longrightarrow> get_ev s4 q = get_ev s q"
    using s3(3,4) by (simp_all add: s4_def get_ev_set_ev)
  have "kvs_eventMap s4 = (kvs_eventMap s)(fd := None)" using s3(2) by (simp add: s4_def)
  moreover from this g4 have "reactor_wf s4 srv" by (intro reactor_wf_remove [OF wf ob(1)]) auto
  moreover have "get_obj st3 ?sb = None" using st3(3) st2(4) st(4) by (simp add: frame_def)
  ultimately show ?thesis using res g4 s3(6) st3(2,4) by (intro exI [of _ s4]) (simp add: s4_def)
qed

text \<open>When the peer of an idle client closes the connection, the event handler takes the client
  out of the map and out of the epoll set, closes its descriptor once, releases the object and both of its
  buffers, and touches no other object.\<close>

theorem kv_peer_closes:
  assumes wf: "reactor_wf s srv" and ob: "kvs_eventMap s fd = Some (Some p)" "get_ev s p = Some ob"
    and ev: "fd \<noteq> listenFD" "events AND EPOLLIN \<noteq> 0" "events AND EPOLLOUT = 0"
    and net: "os_recv os fd bufferSize (kvs_world s) = (Done [], w)"
    and st: "store_ok (kvs_store s)" "content (kvs_store s) (ev_recvBuffer ob) = Some []"
      "get_obj (kvs_store s) (ev_sendBuffer ob) \<noteq> None" "ev_sendBuffer ob \<noteq> ev_recvBuffer ob"
  shows "\<exists>s'. handle_event os s srv listenFD (fd, events) = Some (Inr s') \<and> reactor_wf s' srv \<and>
    kvs_eventMap s' = (kvs_eventMap s)(fd := None) \<and> get_ev s' p = None \<and>
    (\<forall>q. q \<noteq> p \<longrightarrow> get_ev s' q = get_ev s q) \<and>
    kvs_world s' = os_close os fd (snd (os_epoll_del os (kvs_epollFd s) fd w)) \<and> store_ok (kvs_store s') \<and>
    get_obj (kvs_store s') (ev_recvBuffer ob) = None \<and> get_obj (kvs_store s') (ev_sendBuffer ob) = None"
  by (rule peer_closes_rep) (use assms in auto)

lemma sample_wf: "reactor_wf (sample_kvs rs) 0"
proof -
  have "get_ev (sample_kvs rs) p = (if p = 0 then Some \<lparr>ev_class = KVTcpServer 9 0, ev_fd = 3, ev_type = EvNone,
      ev_mode = ET, ev_recvBuffer = 7, ev_sendBuffer = 8, ev_manger = True, ev_refs = 2\<rparr>
      else if p = 1 then Some sample_client else None)" for p
    by (auto simp: get_ev_def sample_kvs_def less_Suc_eq nth_Cons')
  then show ?thesis
    by (auto simp: reactor_wf_def sample_client_def) (auto simp: sample_kvs_def split: if_splits)
qed

theorem kv_peer_closes_witness:
  "\<exists>s'. handle_event script_os (sample_kvs [Done []]) 0 3 (5, EPOLLIN) = Some (Inr s') \<and>
    sc_log (kvs_world s') = [Unwatch 5, Closed 5] \<and> get_ev s' 1 = None"
proof -
  let ?s = "sample_kvs [Done []]" and ?w = "\<lparr>sc_recv = [], sc_wait = [], sc_log = []\<rparr>"
  have "kvs_eventMap ?s 5 = Some (Some 1)" by (simp add: sample_kvs_def)
  moreover have "os_recv script_os 5 bufferSize (kvs_world ?s) = (Done [], ?w)"
    by (simp add: script_os_def sample_kvs_def)
  moreover have "kvs_store ?s = sample_store" by (simp add: sample_kvs_def)
  ultimately obtain s' where "handle_event script_os ?s 0 3 (5, EPOLLIN) = Some (Inr s')" "get_ev s' 1 = None"
    "kvs_world s' = os_close script_os 5 (snd (os_epoll_del script_os (kvs_epollFd ?s) 5 ?w))"
    using kv_peer_closes [OF sample_wf _ sample_ev _ epoll_bits, of "[Done []]" 5 3 script_os ?w]
      sample_store_ok sample_content by (auto simp: sample_client_def sample_obj)
  then show ?thesis by (simp add: script_os_def log_action_def)
qed

subsection \<open>A new connection\<close>

lemma new_client_rep:
  assumes s: "store_ok (kvs_store s)"
  shows "\<exists>st rb sb. new_client s fd ty mode = Some (Inr (length (kvs_objs s), s\<lparr>kvs_store := st,
      kvs_objs := kvs_objs s @ [Some \<lparr>ev_class = KVTcpClient, ev_fd = fd, ev_type = ty, ev_mode = mode,
        ev_recvBuffer = rb, ev_sendBuffer = sb, ev_manger = False, ev_refs = 1\<rparr>]\<rparr>)) \<and>
    store_ok st \<and> extends (kvs_store s) st \<and> content st rb = Some [] \<and> content st sb = Some [] \<and> sb \<noteq> rb"
proof -
  let ?rb = "length (cm_objs (kvs_store s))"
  obtain s1 ob b where s1: "ba_new False (kvs_store s) = Some (Inr (?rb, s1))" "extends (kvs_store s) s1"
    "ready s1 ?rb ob b (replicate 1024 0)" "cm_size ob = 0"
    using new_rep [where braced = False, OF s] by blast
  then have ok1: "store_ok s1" and g1: "get_obj s1 ?rb = Some ob" by (simp_all add: ready_def)
  let ?sb = "length (cm_objs s1)"
  obtain s2 ob' b' where s2: "ba_new False s1 = Some (Inr (?sb, s2))" "extends s1 s2"
    "ready s2 ?sb ob' b' (replicate 1024 0)" "cm_size ob' = 0"
    using new_rep [where braced = False, OF ok1] by blast
  have "content s2 ?rb = Some []"
    using extends_content [OF s2(2) g1] ready_content [OF s1(3)] s1(4) by simp
  moreover have "content s2 ?sb = Some []" using ready_content [OF s2(3)] s2(4) by simp
  moreover have "?sb \<noteq> ?rb" using get_obj_length [OF g1] by simp
  moreover have "store_ok s2" using s2(3) by (simp add: ready_def)
  ultimately show ?thesis
    using s1(1) s2(1) extends_trans [OF s1(2) s2(2)]
    by (intro exI [of _ s2] exI [of _ ?rb] exI [of _ ?sb]) (simp add: new_client_def)
qed

text \<open>A fresh client is entered in the map.\<close>

lemma addEventObj_fresh:
  assumes ob: "get_ev s p = Some ob" "ev_type ob = Read" "ev_mode ob = ET" "ev_refs ob = 1"
    and new: "kvs_eventMap s (ev_fd ob) = None"
  shows "\<exists>s'. addEventObj os s p = Some s' \<and> kvs_eventMap s' = (kvs_eventMap s)(ev_fd ob \<mapsto> Some p) \<and>
    (\<forall>q. get_ev s' q = (if q = p then Some (ob\<lparr>ev_manger := True, ev_refs := 2\<rparr>) else get_ev s q)) \<and>
    kvs_store s' = kvs_store s \<and>
    (\<forall>w. os_epoll_add os (kvs_epollFd s) (ev_fd ob) (EPOLLIN OR EPOLLET) (kvs_world s) = (Done (), w) \<longrightarrow>
      kvs_world s' = w)"
proof -
  let ?o1 = "ob\<lparr>ev_manger := True\<rparr>" and ?m = "(kvs_eventMap s)(ev_fd ob \<mapsto> Some p)"
  let ?o2 = "?o1\<lparr>ev_refs := ev_refs ?o1 + 1\<rparr>"
  let ?s1 = "(set_ev s p (Some ?o1))\<lparr>kvs_eventMap := ?m\<rparr>"
  have g1: "get_ev ?s1 q = (if q = p then Some ?o1 else get_ev s q)" for q
    using get_ev_set_ev [OF ob(1)] by simp
  then have g1p: "get_ev ?s1 p = Some ?o1" by simp
  let ?s2 = "set_ev ?s1 p (Some ?o2)"
  have g2: "get_ev ?s2 q = (if q = p then Some ?o2 else get_ev s q)" for q
    using get_ev_set_ev [OF g1p] g1 by simp
  obtain r w where a: "os_epoll_add os (kvs_epollFd s) (ev_fd ob) (EPOLLIN OR EPOLLET) (kvs_world s) = (r, w)"
    by fastforce
  define w' where "w' = (if r = Errno EEXIST
    then snd (os_epoll_mod os (kvs_epollFd s) (ev_fd ob) (EPOLLIN OR EPOLLET) w) else w)"
  have "updateEventObj os ?s2 (ev_fd ob) = Some (?s2\<lparr>kvs_world := w'\<rparr>)"
    using g2 [of p] ob a by (simp add: updateEventObj_def event_mask_def w'_def)
  then have "addEventObj os s p = Some (?s2\<lparr>kvs_world := w'\<rparr>)"
    using ob(1) new ref_inc_rep [OF g1p] by (simp add: addEventObj_def Let_def)
  moreover have "?o2 = ob\<lparr>ev_manger := True, ev_refs := 2\<rparr>" using ob(4) by simp
  ultimately show ?thesis using g2 a by (intro exI [of _ "?s2\<lparr>kvs_world := w'\<rparr>"]) (simp add: w'_def)
qed

lemma reactor_wf_add:
  assumes wf: "reactor_wf s srv" and new: "kvs_eventMap s (ev_fd ob) = None" "get_ev s p = None"
    and ob: "ev_class ob = KVTcpClient" "ev_manger ob" "ev_refs ob = 1"
    and s': "kvs_eventMap s' = (kvs_eventMap s)(ev_fd ob \<mapsto> Some p)"
      "\<forall>q. get_ev s' q = (if q = p then Some ob else get_ev s q)"
  shows "reactor_wf s' srv"
proof -
  obtain so ip port where srv: "get_ev s srv = Some so" "ev_class so = KVTcpServer ip port" "ev_manger so"
    using wf by (auto simp: reactor_wf_def)
  moreover have "srv \<noteq> p" using srv(1) new(2) by auto
  moreover have "\<exists>r ob'. q = Some r \<and> get_ev s' r = Some ob' \<and> ev_class ob' = KVTcpClient \<and> ev_fd ob' = f \<and>
      ev_manger ob' \<and> ev_refs ob' = 1" if q: "kvs_eventMap s' f = Some q" for f q
  proof (cases "f = ev_fd ob")
    case True
    then show ?thesis using q s' ob by auto
  next
    case False
    then have "kvs_eventMap s f = Some q" using q s'(1) by simp
    then show ?thesis using reactor_wf_entry [OF wf] new(2) s'(2) by force
  qed
  moreover have "kvs_eventMap s' (ev_fd ob') = Some (Some q)" if "get_ev s' q = Some ob'" "ev_class ob' = KVTcpClient" for q ob'
  proof (cases "q = p")
    case False
    then have m: "kvs_eventMap s (ev_fd ob') = Some (Some q)"
      using wf that s'(2) by (auto simp: reactor_wf_def)
    then show ?thesis using new(1) s'(1) by auto
  qed (use that s' in auto)
  ultimately show ?thesis using s'(2) unfolding reactor_wf_def by (intro conjI) auto
qed

text \<open>An accepted connection with a new descriptor becomes a client with empty buffers, owned
  by the map, registered for edge-triggered reading on a non-blocking descriptor; the other objects and
  arrays stay as they are.\<close>

theorem kv_accept_registers:
  assumes wf: "reactor_wf s srv" and st: "store_ok (kvs_store s)" and new: "kvs_eventMap s fd = None"
    and net: "os_accept os listenFD (kvs_world s) = (Done fd, w)"
      "os_epoll_add os (kvs_epollFd s) fd (EPOLLIN OR EPOLLET) (os_setNoBlock os fd w) = (Done (), w')"
  shows "\<exists>s' ob. handle_event os s srv listenFD (listenFD, events) = Some (Inr s') \<and> reactor_wf s' srv \<and>
    kvs_eventMap s' = (kvs_eventMap s)(fd \<mapsto> Some (length (kvs_objs s))) \<and>
    get_ev s' (length (kvs_objs s)) = Some ob \<and> ev_fd ob = fd \<and> ev_type ob = Read \<and> ev_mode ob = ET \<and>
    (\<forall>q. q \<noteq> length (kvs_objs s) \<longrightarrow> get_ev s' q = get_ev s q) \<and> kvs_world s' = w' \<and>
    store_ok (kvs_store s') \<and> extends (kvs_store s) (kvs_store s') \<and>
    content (kvs_store s') (ev_recvBuffer ob) = Some [] \<and> content (kvs_store s') (ev_sendBuffer ob) = Some []"
proof -
  let ?p = "length (kvs_objs s)" and ?s1 = "s\<lparr>kvs_world := os_setNoBlock os fd w\<rparr>"
  obtain so ip port where srv: "get_ev s srv = Some so" "ev_class so = KVTcpServer ip port" "ev_manger so"
    using wf by (auto simp: reactor_wf_def)
  obtain st1 rb sb where nc: "new_client ?s1 fd Read ET = Some (Inr (?p, ?s1\<lparr>kvs_store := st1,
      kvs_objs := kvs_objs s @ [Some \<lparr>ev_class = KVTcpClient, ev_fd = fd, ev_type = Read, ev_mode = ET,
        ev_recvBuffer = rb, ev_sendBuffer = sb, ev_manger = False, ev_refs = 1\<rparr>]\<rparr>))"
    "store_ok st1" "extends (kvs_store s) st1" "content st1 rb = Some []" "content st1 sb = Some []"
    using new_client_rep [of ?s1 fd Read ET] st by auto
  define ob where "ob = \<lparr>ev_class = KVTcpClient, ev_fd = fd, ev_type = Read, ev_mode = ET,
        ev_recvBuffer = rb, ev_sendBuffer = sb, ev_manger = False, ev_refs = 1\<rparr>"
  define s2 where "s2 = ?s1\<lparr>kvs_store := st1, kvs_objs := kvs_objs s @ [Some ob]\<rparr>"
  have g2: "get_ev s2 q = (if q = ?p then Some ob else get_ev s q)" for q
    by (auto simp: s2_def get_ev_def nth_append)
  have "get_ev s2 ?p = Some ob" by (simp add: g2)
  then obtain s3 where s3: "addEventObj os s2 ?p = Some s3" "kvs_eventMap s3 = (kvs_eventMap s)(fd \<mapsto> Some ?p)"
    "\<forall>q. get_ev s3 q = (if q = ?p then Some (ob\<lparr>ev_manger := True, ev_refs := 2\<rparr>) else get_ev s2 q)"
    "kvs_world s3 = w'" "kvs_store s3 = st1"
    using addEventObj_fresh [of s2 ?p ob os] new net(2) by (auto simp: ob_def s2_def)
  let ?ob = "ob\<lparr>ev_manger := True, ev_refs := 1\<rparr>"
  define s4 where "s4 = set_ev s3 ?p (Some ?ob)"
  have g3: "get_ev s3 ?p = Some (ob\<lparr>ev_manger := True, ev_refs := 2\<rparr>)" using s3(3) by simp
  have g4: "get_ev s4 q = (if q = ?p then Some ?ob else get_ev s q)" for q
    using get_ev_set_ev [OF g3] s3(3) g2 by (simp add: s4_def)
  have "ref_dec os s3 ?p = Some s4" using g3 by (simp add: ref_dec_def s4_def)
  then have res: "handle_event os s srv listenFD (listenFD, events) = Some (Inr s4)"
    using net(1) srv nc(1) s3(1)
    by (simp add: handle_event_def onAccept_def acceptImp_def Let_def s2_def ob_def)
  moreover have m4: "kvs_eventMap s4 = (kvs_eventMap s)(fd \<mapsto> Some ?p)" using s3(2) by (simp add: s4_def)
  moreover have o4: "ev_fd ?ob = fd" "ev_class ?ob = KVTcpClient" "ev_type ?ob = Read" "ev_mode ?ob = ET"
    "ev_recvBuffer ?ob = rb" "ev_sendBuffer ?ob = sb" by (simp_all add: ob_def)
  moreover have "reactor_wf s4 srv"
    by (rule reactor_wf_add [OF wf, of ?ob ?p]) (use new o4 g4 m4 in \<open>simp_all add: get_ev_def [of s]\<close>)
  moreover have "kvs_world s4 = w'" "kvs_store s4 = st1" using s3(4,5) by (simp_all add: s4_def)
  moreover have "get_ev s4 ?p = Some ?ob" "\<forall>q. q \<noteq> ?p \<longrightarrow> get_ev s4 q = get_ev s q" using g4 by simp_all
  ultimately show ?thesis
    using nc(2-5) by (intro exI [of _ s4] exI [of _ ?ob] conjI) simp_all
qed

theorem kv_accept_registers_witness:
  "\<exists>s'. handle_event script_os (sample_kvs []\<lparr>kvs_eventMap := (\<lambda>_. None), kvs_objs := take 1 (kvs_objs (sample_kvs []))\<rparr>)
      0 3 (3, EPOLLIN) = Some (Inr s') \<and> kvs_eventMap s' 5 = Some (Some 1) \<and>
    sc_log (kvs_world s') = [Unblocked 5, Watch 5 (EPOLLIN OR EPOLLET)]"
proof -
  let ?s = "sample_kvs []\<lparr>kvs_eventMap := (\<lambda>_. None), kvs_objs := take 1 (kvs_objs (sample_kvs []))\<rparr>"
  let ?w = "\<lparr>sc_recv = [], sc_wait = [], sc_log = []\<rparr> :: net_script"
  let ?w' = "?w\<lparr>sc_log := [Unblocked 5, Watch 5 (EPOLLIN OR EPOLLET)]\<rparr>"
  have "reactor_wf ?s 0" by (auto simp: reactor_wf_def get_ev_def sample_kvs_def split: if_splits)
  moreover have "os_accept script_os 3 (kvs_world ?s) = (Done 5, ?w)" by (simp add: script_os_def sample_kvs_def)
  moreover have "os_epoll_add script_os (kvs_epollFd ?s) 5 (EPOLLIN OR EPOLLET) (os_setNoBlock script_os 5 ?w) =
      (Done (), ?w')"
    by (simp add: script_os_def sample_kvs_def os_setNoBlock_def log_action_def)
  moreover have "store_ok (kvs_store ?s)" "length (kvs_objs ?s) = 1" "kvs_eventMap ?s 5 = None"
    using sample_store_ok by (simp_all add: sample_kvs_def)
  ultimately show ?thesis
    using kv_accept_registers [of ?s 0 5 script_os 3 ?w ?w' EPOLLIN] by auto
qed

subsection \<open>Every event keeps the reactor in order\<close>

lemma new_client_inv:
  assumes "new_client s fd ty mode = Some (Inr (p, s'))"
  shows "\<exists>st rb sb. p = length (kvs_objs s) \<and> s' = s\<lparr>kvs_store := st, kvs_objs := kvs_objs s @ [Some
    \<lparr>ev_class = KVTcpClient, ev_fd = fd, ev_type = ty, ev_mode = mode, ev_recvBuffer = rb, ev_sendBuffer = sb,
     ev_manger = False, ev_refs = 1\<rparr>]\<rparr>"
  using assms by (auto simp: new_client_def bind_outcome_eq_Inr simp del: One_nat_def)

lemma recv_loop_state:
  assumes "recv_loop os s p = Some y" "y = Inr (c, s')" "get_ev s p = Some ob" "ev_class ob = KVTcpClient"
  shows "\<exists>st w. s' = s\<lparr>kvs_store := st, kvs_world := w\<rparr>"
  using assms
proof (induction arbitrary: c s' rule: recv_loop.raw_induct [rotated, consumes 1, case_names step])
  case (step self os s p y)
  obtain r w where r: "os_recv os (ev_fd ob) bufferSize (kvs_world s) = (r, w)" by fastforce
  show ?case
  proof (cases r)
    case (Done bs)
    show ?thesis
    proof (cases "bs = []")
      case False
      then obtain st where "self os (s\<lparr>kvs_world := w, kvs_store := st\<rparr>) p = Some (Inr (c, s'))"
        using step(2-5) r Done by (auto simp: bind_outcome_eq_Inr with_store_def)
      from step(1) [OF this refl] step(4,5) obtain st' w' where
        "s' = s\<lparr>kvs_world := w, kvs_store := st, kvs_store := st', kvs_world := w'\<rparr>" by auto
      then show ?thesis by auto
    qed (use step(2-5) r Done in \<open>auto intro!: exI [of _ "kvs_store s"]\<close>)
  next
    case (Errno e)
    then have "e = EWOULDBLOCK"
      using step(2-5) r append_minus_one by (auto simp: bind_outcome_eq_Inr with_store_def split: if_splits)
    then show ?thesis using step(2-5) r Errno by (auto intro!: exI [of _ "kvs_store s"])
  qed
qed

lemma recvImp_state:
  assumes "recvImp s p = Some (Inr s')"
  shows "\<exists>st. s' = s\<lparr>kvs_store := st\<rparr>"
proof -
  obtain ob where "get_ev s p = Some ob" using assms by (cases "get_ev s p") (auto simp: recvImp_def)
  then show ?thesis using assms
    by (cases "ev_class ob")
      (auto simp: recvImp_def with_store_def bind_outcome_eq_Inr intro: exI [of _ "kvs_store s"])
qed

lemma ev_destroy_state:
  assumes "ev_destroy os s p = Some s'"
  shows "\<exists>w st. s' = set_ev (s\<lparr>kvs_world := w, kvs_store := st\<rparr>) p None"
proof -
  obtain ob where ob: "get_ev s p = Some ob" using assms by (auto simp: ev_destroy_def split: bind_splits)
  define w where "w = (if ev_fd ob \<noteq> - 1 then os_close os (ev_fd ob) (kvs_world s) else kvs_world s)"
  have "(if ev_fd ob \<noteq> - 1 then kv_close os s (ev_fd ob) else s) = s\<lparr>kvs_world := w\<rparr>"
    by (simp add: kv_close_def w_def)
  then show ?thesis using assms ob by (auto simp: ev_destroy_def Let_def Option.bind_eq_Some_conv)
qed

lemma accept_wf:
  assumes wf: "reactor_wf s srv" and a: "acceptImp os s srv fd = Some (Inr s')"
  shows "reactor_wf s' srv"
proof -
  let ?p = "length (kvs_objs s)"
  obtain so ip port where srv: "get_ev s srv = Some so" "ev_class so = KVTcpServer ip port" "ev_manger so"
    using wf by (auto simp: reactor_wf_def)
  obtain p s1 s2 where s1: "new_client s fd Read ET = Some (Inr (p, s1))" "addEventObj os s1 p = Some s2"
    "ref_dec os s2 p = Some s'"
    using a srv by (auto simp: acceptImp_def bind_outcome_eq_Inr lift_def split: if_splits bind_splits)
  obtain st rb sb where s1': "p = ?p" "s1 = s\<lparr>kvs_store := st, kvs_objs := kvs_objs s @ [Some
    \<lparr>ev_class = KVTcpClient, ev_fd = fd, ev_type = Read, ev_mode = ET, ev_recvBuffer = rb, ev_sendBuffer = sb,
     ev_manger = False, ev_refs = 1\<rparr>]\<rparr>"
    using new_client_inv [OF s1(1)] by blast
  define ob where "ob = \<lparr>ev_class = KVTcpClient, ev_fd = fd, ev_type = Read, ev_mode = ET, ev_recvBuffer = rb,
    ev_sendBuffer = sb, ev_manger = False, ev_refs = 1\<rparr>"
  have g1: "get_ev s1 q = (if q = ?p then Some ob else get_ev s q)" for q
    by (auto simp: s1' ob_def get_ev_def nth_append)
  have none: "get_ev s ?p = None" by (simp add: get_ev_def)
  have m1: "kvs_eventMap s1 = kvs_eventMap s" by (simp add: s1'(2))
  show ?thesis
  proof (cases "kvs_eventMap s fd")
    case None
    have "kvs_eventMap s1 (ev_fd ob) = None" using None by (simp add: m1 ob_def)
    from addEventObj_fresh [OF _ _ _ _ this, of ?p os] g1 s1(2) s1'(1)
    have s2: "kvs_eventMap s2 = (kvs_eventMap s1)(ev_fd ob \<mapsto> Some ?p)"
      "\<forall>q. get_ev s2 q = (if q = ?p then Some (ob\<lparr>ev_manger := True, ev_refs := 2\<rparr>) else get_ev s1 q)"
      by (auto simp: ob_def)
    have g2: "get_ev s2 ?p = Some (ob\<lparr>ev_manger := True, ev_refs := 2\<rparr>)" using s2(2) by simp
    then have s': "s' = set_ev s2 ?p (Some (ob\<lparr>ev_manger := True, ev_refs := 1\<rparr>))"
      using s1(3) s1'(1) by (simp add: ref_dec_def)
    show ?thesis
      by (rule reactor_wf_add [OF wf, of "ob\<lparr>ev_manger := True, ev_refs := 1\<rparr>" ?p])
        (use None none s2 g1 s' get_ev_set_ev [OF g2] m1 in \<open>simp_all add: ob_def\<close>)
  next
    case (Some q)
    then have "s2 = s1" using s1(2) s1'(1) m1 g1 by (simp add: addEventObj_def ob_def)
    then have "ev_destroy os s1 ?p = Some s'" using s1(3) s1'(1) g1 by (simp add: ref_dec_def ob_def)
    then obtain st' w where s': "s' = set_ev (s1\<lparr>kvs_world := w, kvs_store := st'\<rparr>) ?p None"
      using ev_destroy_state by blast
    have g1p: "get_ev (s1\<lparr>kvs_world := w, kvs_store := st'\<rparr>) ?p = Some ob" using g1 by simp
    have "get_ev s' = get_ev s" "kvs_eventMap s' = kvs_eventMap s"
      using get_ev_set_ev [OF g1p] g1 none m1 by (auto simp: s' fun_eq_iff)
    then show ?thesis using reactor_wf_cong [of s' s] wf by simp
  qed
qed

text \<open>What \<open>onRecv\<close> leaves of the objects and the map.\<close>

lemma onRecv_state:
  assumes "onRecv os s p = Some (Inr s')" "get_ev s p = Some ob" "ev_class ob = KVTcpClient" "ev_manger ob"
    "ev_refs ob = 2" "kvs_eventMap s (ev_fd ob) = Some (Some p)"
  shows "get_ev s' = get_ev s \<and> kvs_eventMap s' = kvs_eventMap s \<or>
    kvs_eventMap s' = (kvs_eventMap s)(ev_fd ob := None) \<and> get_ev s' p = Some (ob\<lparr>ev_refs := 1, ev_fd := - 1\<rparr>) \<and>
    (\<forall>q. q \<noteq> p \<longrightarrow> get_ev s' q = get_ev s q)"
proof -
  obtain closed s1 s2 where r: "recv_loop os s p = Some (Inr (closed, s1))" "recvImp s1 p = Some (Inr s2)"
    "(if closed then lift (onClose os s2 p) else Some (Inr s2)) = Some (Inr s')"
    using assms(1) by (fastforce simp: onRecv_def bind_outcome_eq_Inr)
  obtain st w where s1: "s1 = s\<lparr>kvs_store := st, kvs_world := w\<rparr>"
    using recv_loop_state [OF r(1) refl assms(2,3)] by blast
  obtain st' where s2: "s2 = s1\<lparr>kvs_store := st'\<rparr>" using recvImp_state [OF r(2)] by blast
  have same: "get_ev s2 = get_ev s" "kvs_eventMap s2 = kvs_eventMap s" by (auto simp: s1 s2)
  show ?thesis
  proof (cases closed)
    case True
    obtain s3 where "closeImp os s2 p = Some s3" "kvs_eventMap s3 = (kvs_eventMap s2)(ev_fd ob := None)"
      "get_ev s3 p = Some (ob\<lparr>ev_refs := 1, ev_fd := - 1\<rparr>)" "\<forall>q. q \<noteq> p \<longrightarrow> get_ev s3 q = get_ev s2 q"
      using closeImp_rep [of s2 p ob os] assms same by auto
    then show ?thesis using True r(3) same by (simp add: onClose_def)
  qed (use r(3) same in simp)
qed

lemma client_event_wf:
  assumes wf: "reactor_wf s srv" and e: "handle_event os s srv listenFD (fd, events) = Some (Inr s')"
    and ev: "fd \<noteq> listenFD" "kvs_eventMap s fd = Some q" "events AND EPOLLOUT = 0"
  shows "reactor_wf s' srv"
proof -
  obtain p ob where p: "kvs_eventMap s fd = Some (Some p)" "get_ev s p = Some ob" "ev_class ob = KVTcpClient"
    "ev_fd ob = fd" "ev_manger ob" "ev_refs ob = 1"
    using reactor_wf_entry [OF wf ev(2)] ev(2) by metis
  define s1 where "s1 = set_ev s p (Some (ob\<lparr>ev_refs := 2\<rparr>))"
  have inc: "ref_inc s p = Some s1" using ref_inc_rep [OF p(2)] p(6) by (simp add: s1_def numeral_2_eq_2)
  have s1: "get_ev s1 q = (if q = p then Some (ob\<lparr>ev_refs := 2\<rparr>) else get_ev s q)" "kvs_eventMap s1 = kvs_eventMap s" for q
    using get_ev_set_ev [OF p(2)] by (simp_all add: s1_def)
  obtain s2 where s2: "(if events AND EPOLLIN \<noteq> 0 then onRecv os s1 p else Some (Inr s1)) = Some (Inr s2)"
    "ref_dec os s2 p = Some s'"
    using e ev(1,3) p(1) inc
    by (auto simp: handle_event_def Let_def bind_outcome_eq_Inr lift_def split: if_splits)
  then consider (stays) "get_ev s2 = get_ev s1" "kvs_eventMap s2 = kvs_eventMap s"
    | (leaves) "kvs_eventMap s2 = (kvs_eventMap s)(fd := None)" "get_ev s2 p = Some (ob\<lparr>ev_refs := 1, ev_fd := - 1\<rparr>)"
      "\<forall>q. q \<noteq> p \<longrightarrow> get_ev s2 q = get_ev s q"
    using onRecv_state [of os s1 p s2 "ob\<lparr>ev_refs := 2\<rparr>"] s1 p by (auto split: if_splits)
  then show ?thesis
  proof cases
    case stays
    have g2: "get_ev s2 p = Some (ob\<lparr>ev_refs := 2\<rparr>)" using stays(1) s1(1) by simp
    then have "s' = set_ev s2 p (Some (ob\<lparr>ev_refs := 1\<rparr>))" using s2(2) by (simp add: ref_dec_def)
    moreover have "ob\<lparr>ev_refs := 1\<rparr> = ob" using p(6) by simp
    ultimately have "s' = set_ev s2 p (Some ob)" by (simp only:)
    then have "get_ev s' = get_ev s" "kvs_eventMap s' = kvs_eventMap s"
      using get_ev_set_ev [OF g2] stays s1(1) p(2) by (auto simp: fun_eq_iff)
    then show ?thesis using reactor_wf_cong wf by metis
  next
    case leaves
    then have "ev_destroy os s2 p = Some s'" using s2(2) by (simp add: ref_dec_def)
    then obtain w st where s': "s' = set_ev (s2\<lparr>kvs_world := w, kvs_store := st\<rparr>) p None"
      using ev_destroy_state by blast
    have "get_ev (s2\<lparr>kvs_world := w, kvs_store := st\<rparr>) p = Some (ob\<lparr>ev_refs := 1, ev_fd := - 1\<rparr>)"
      using leaves(2) by simp
    from get_ev_set_ev [OF this] leaves show ?thesis
      by (intro reactor_wf_remove [OF wf p(1)]) (auto simp: s')
  qed
qed



subsection \<open>Start-up\<close>

definition address_store :: bstore where
  "address_store = \<lparr>cm_objs = [Some \<lparr>cm_data = Some 0, cm_size = 1, cm_capacity = 1\<rparr>],
     cm_bufs = [0 \<mapsto> [48]], cm_next = 1\<rparr>"

lemma address_from_literal: "ba_from_cstr False kv_insertElement empty_store [48, 0] = Some (Inr (0, address_store))"
  by (simp add: ba_from_cstr_def strlen_def empty_store_def add_obj_def resetBuffer_def get_obj_def byte_memcpy_def
      read_ptr_def write_ptr_def set_obj_def release_def data_ptr_def kv_insertElement_def unique_def use_count_def
      points_to_def insert_copies_def overlaps_def padd_def overwrite_def address_store_def)

lemma address_store_ok: "store_ok address_store"
proof -
  have obj: "get_obj address_store j = (if j = 0 then Some \<lparr>cm_data = Some 0, cm_size = 1, cm_capacity = 1\<rparr> else None)" for j
    by (auto simp: get_obj_def address_store_def)
  have own: "owner address_store b j \<longleftrightarrow> j = 0 \<and> b = 0" for b j by (auto simp: owner_def obj)
  show ?thesis
    unfolding store_ok_but_def own
    by (auto simp: obj_ok_def obj split: if_splits) (simp_all add: address_store_def split: if_splits)
qed

text \<open>The array made from a literal has no room for a terminating 0.\<close>

lemma address_unterminated:
  assumes "extends address_store s"
  shows "make_address os s 0 port = None"
proof -
  let ?ob = "\<lparr>cm_data = Some 0, cm_size = 1, cm_capacity = 1\<rparr> :: cmba"
  have g: "get_obj address_store 0 = Some ?ob" by (simp add: get_obj_def address_store_def)
  then have "get_obj s 0 = Some ?ob" using assms by (simp add: extends_def)
  moreover have "read_ptr s (Buf 0 0) 1 = Some [48]" "read_ptr s (Buf 0 1) 1 = None"
    using extends_read [OF assms g, of 0 1] extends_read [OF assms g, of 1 1]
    by (simp_all add: data_ptr_def read_ptr_def address_store_def)
  ultimately show ?thesis
    by (simp add: make_address_def ba_data_def data_ptr_def c_string.simps [of s "Buf 0 0"]
        c_string.simps [of s "Buf 0 (Suc 0)"])
qed

text \<open>The program's start-up is undefined on every system: \<open>KVTcpServer("0", 61972)\<close> makes a
  byte array of capacity 1 from the literal and hands its data, which no zero follows, to \<open>inet_aton\<close>.\<close>

theorem kv_main_undefined: "kv_main n os w = None"
proof -
  obtain s1 ob b where s1: "ba_new False address_store = Some (Inr (1, s1))" "extends address_store s1"
    "ready s1 1 ob b (replicate 1024 0)"
    using new_rep [where braced = False, OF address_store_ok] by (auto simp: address_store_def)
  then have "store_ok s1" by (simp add: ready_def)
  then obtain s2 ob' b' where s2: "ba_new False s1 = Some (Inr (length (cm_objs s1), s2))" "extends s1 s2"
    using new_rep [where braced = False] by blast
  have e2: "extends address_store s2" by (rule extends_trans [OF s1(2) s2(2)])
  have "get_obj address_store 0 = Some \<lparr>cm_data = Some 0, cm_size = 1, cm_capacity = 1\<rparr>"
    by (simp add: get_obj_def address_store_def)
  then obtain ob0 where "get_obj s2 0 = Some ob0" using e2 by (auto simp: extends_def)
  then have "ba_copy s2 0 = Some (length (cm_objs s2), snd (add_obj s2 ob0))"
    by (simp add: ba_copy_def add_obj_def)
  moreover have "make_address os (snd (add_obj s2 ob0)) 0 61972 = None"
    by (rule address_unterminated [OF extends_trans [OF e2 add_obj_extends]])
  ultimately show ?thesis
    using s1(1) s2(1) address_from_literal by (simp add: kv_main_def new_server_def)
qed

end
