(* ===== verification/TcpServer.thy ===== *)
theory TcpServer
  imports OsCalls "HOL-Library.AList"
begin

text \<open>
  TCPServer/TcpServer.cpp: sockets with their error stack, the echo server on many ports and the
  test client.  Arrays are those of TCPServer/CMByteArray.cpp.  A \<open>TcpSocketPtr\<close> is shared by the
  map and one local variable at most, so that the maps hold the sockets as values and the end of the
  last owner is written out; the order of an \<open>unordered_map\<close> is that of an association list.  The
  text of an \<open>Error\<close> is kept as bytes.  What goes to \<open>std::cout\<close> is left out.
\<close>

unbundle bit_operations_syntax

subsection \<open>TcpVirtualSocket\<close>

record tcp_error =
  te_code :: int
  te_errorStr :: "byte list"

record vsocket =
  vs_fd :: int
  vs_error :: "tcp_error list"

definition tcp_close :: "'w os \<Rightarrow> ('a vsocket_scheme) \<Rightarrow> 'w \<Rightarrow> ('a vsocket_scheme) \<times> 'w" where
  "tcp_close os v w =
     (let v = v\<lparr>vs_error := []\<rparr>
      in if vs_fd v \<noteq> - 1 then (v\<lparr>vs_fd := - 1\<rparr>, os_close os (vs_fd v) w) else (v, w))"

definition tcp_destroy :: "'w os \<Rightarrow> 'a vsocket_scheme \<Rightarrow> 'w \<Rightarrow> 'w" where
  "tcp_destroy os v w = snd (tcp_close os v w)"

definition getLastError :: "'a vsocket_scheme \<Rightarrow> tcp_error \<times> 'a vsocket_scheme" where
  "getLastError v = (case vs_error v of
     error # es \<Rightarrow> (error, v\<lparr>vs_error := es\<rparr>)
   | [] \<Rightarrow> (\<lparr>te_code = 0, te_errorStr = []\<rparr>, v))"

definition push_error :: "int \<Rightarrow> string \<Rightarrow> 'a vsocket_scheme \<Rightarrow> 'a vsocket_scheme" where
  "push_error errno str v = v\<lparr>vs_error := \<lparr>te_code = errno, te_errorStr = lit str\<rparr> # vs_error v\<rparr>"

definition createSokcet :: "'w os \<Rightarrow> 'w \<Rightarrow> int \<times> 'w" where
  "createSokcet os w = (let (fd, w) = os_socket os w in (fd, os_sndtimeo os fd 200 w))"

definition createNoBlockSokcet :: "'w os \<Rightarrow> 'w \<Rightarrow> int \<times> 'w" where
  "createNoBlockSokcet os w =
     (let (fd, w) = os_socket os w; (optVal, w) = os_getfl os fd w
      in (fd, os_setfl os fd (optVal OR O_NONBLOCK) w))"

definition tcp_setBlock :: "'w os \<Rightarrow> int \<Rightarrow> 'w \<Rightarrow> 'w" where
  "tcp_setBlock os fd w = (let (optVal, w) = os_getfl os fd w in os_setfl os fd (optVal AND NOT O_NONBLOCK) w)"

subsection \<open>TcpSocket\<close>

text \<open>The members that a constructor leaves uninitialised are \<open>None\<close>.\<close>

record tcp_socket = vsocket +
  ts_addr :: "sockaddr_in option"
  ts_isConnect :: "bool option"

definition tcp_bufferSize :: nat where
  "tcp_bufferSize = 1024"

definition new_TcpSocket :: "'w os \<Rightarrow> bstore \<Rightarrow> nat \<Rightarrow> 16 word \<Rightarrow> 'w \<Rightarrow> (tcp_socket \<times> 'w) option" where
  "new_TcpSocket os st ip port w = do {
     addr \<leftarrow> make_address os st ip port;
     let (fd, w) = createSokcet os w;
     Some (\<lparr>vs_fd = fd, vs_error = [], ts_addr = Some addr, ts_isConnect = Some False\<rparr>, w)
   }"

text \<open>The private constructor without arguments.\<close>

definition bare_TcpSocket :: tcp_socket where
  "bare_TcpSocket = \<lparr>vs_fd = - 1, vs_error = [], ts_addr = None, ts_isConnect = None\<rparr>"

definition tcp_connect :: "'w os \<Rightarrow> tcp_socket \<Rightarrow> 'w \<Rightarrow> (bool \<times> tcp_socket \<times> 'w) option" where
  "tcp_connect os v w = do {
     c \<leftarrow> ts_isConnect v;
     let (v, w) = (if c then let (v, w) = tcp_close os v w; (fd, w) = createSokcet os w
         in (v\<lparr>vs_fd := fd, ts_isConnect := Some False\<rparr>, w) else (v, w));
     addr \<leftarrow> ts_addr v;
     case os_connect os (vs_fd v) addr w of
       (Errno errno, w) \<Rightarrow>
         (if errno = EINPROGRESS then Some (False, v, w) else Some (False, push_error errno ''connect faild'' v, w))
     | (Done _, w) \<Rightarrow> Some (True, v\<lparr>ts_isConnect := Some True\<rparr>, os_setNoBlock os (vs_fd v) w)
   }"

definition tcp_connect_to ::
    "'w os \<Rightarrow> bstore \<Rightarrow> nat \<Rightarrow> 16 word \<Rightarrow> tcp_socket \<Rightarrow> 'w \<Rightarrow> (bool \<times> tcp_socket \<times> 'w) option" where
  "tcp_connect_to os st ip port v w = do {
     addr \<leftarrow> make_address os st ip port;
     tcp_connect os (v\<lparr>ts_addr := Some addr\<rparr>) w
   }"

definition isConnected :: "tcp_socket \<Rightarrow> bool option" where
  "isConnected v = ts_isConnect v"

text \<open>\<open>read\<close> returns an empty array; its body is commented out.\<close>

definition tcp_read :: "bstore \<Rightarrow> (nat \<times> bstore) outcome" where
  "tcp_read st = ba_new True st"

partial_function (option) readAll_loop ::
    "'w os \<Rightarrow> nat \<Rightarrow> tcp_socket \<Rightarrow> bstore \<Rightarrow> 'w \<Rightarrow> (tcp_socket \<times> bstore \<times> 'w) outcome" where
  "readAll_loop os data v st w = bind_outcome (lift (ts_isConnect v)) (\<lambda>c.
     if \<not> c then Some (Inr (v, st, w))
     else case os_recv os (vs_fd v) tcp_bufferSize w of (r, w) \<Rightarrow>
       (case r of
          Done bs \<Rightarrow>
            (if bs = [] then
               (case tcp_close os (v\<lparr>ts_isConnect := Some False\<rparr>) w of (v, w) \<Rightarrow> readAll_loop os data v st w)
             else bind_outcome (ba_append_bytes tcp_insertElement st data
                 (Ext (bs @ replicate (tcp_bufferSize - length bs) 0)) (of_nat (length bs)))
               (\<lambda>st. readAll_loop os data v st w))
        | Errno errno \<Rightarrow>
            (if errno = EWOULDBLOCK then Some (Inr (v, st, w))
             else case tcp_close os ((push_error errno ''read error'' v)\<lparr>ts_isConnect := Some False\<rparr>) w of
               (v, w) \<Rightarrow> readAll_loop os data v st w)))"

declare readAll_loop.simps [code]

definition readAll :: "'w os \<Rightarrow> tcp_socket \<Rightarrow> bstore \<Rightarrow> 'w \<Rightarrow> (nat \<times> tcp_socket \<times> bstore \<times> 'w) outcome" where
  "readAll os v st w = bind_outcome (ba_new True st) (\<lambda>(data, st).
     bind_outcome (readAll_loop os data v st w) (\<lambda>(v, st, w). Some (Inr (data, v, st, w))))"

definition tcp_send :: "'w os \<Rightarrow> tcp_socket \<Rightarrow> bstore \<Rightarrow> nat \<Rightarrow> 'w \<Rightarrow> (usize \<times> tcp_socket \<times> 'w) option" where
  "tcp_send os v st data w = do {
     c \<leftarrow> ts_isConnect v;
     if \<not> c then Some (- 1, v, w)
     else do {
       p \<leftarrow> ba_data st data;
       n \<leftarrow> ba_size st data;
       bs \<leftarrow> read_ptr st p (unat n);
       Some (case os_send os (vs_fd v) bs w of
         (Done ret, w) \<Rightarrow>
           (if ret = 0 then (case tcp_close os (v\<lparr>ts_isConnect := Some False\<rparr>) w of (v, w) \<Rightarrow> (0, v, w))
            else (of_nat ret, v, w))
       | (Errno errno, w) \<Rightarrow>
           (if errno = EWOULDBLOCK then (- 1, v, w)
            else (case tcp_close os (v\<lparr>ts_isConnect := Some False\<rparr>) w of (v, w) \<Rightarrow> (- 1, v, w))))
     }
   }"

subsection \<open>TcpServer\<close>

record tcp_server = vsocket +
  tsv_addr :: sockaddr_in

definition new_TcpServer :: "'w os \<Rightarrow> bstore \<Rightarrow> nat \<Rightarrow> 16 word \<Rightarrow> 'w \<Rightarrow> (tcp_server \<times> 'w) option" where
  "new_TcpServer os st ip port w = do {
     addr \<leftarrow> make_address os st ip port;
     let (fd, w) = createNoBlockSokcet os w;
     Some (\<lparr>vs_fd = fd, vs_error = [], tsv_addr = addr\<rparr>, os_reuseaddr os fd w)
   }"

definition tcp_bind :: "'w os \<Rightarrow> tcp_server \<Rightarrow> 'w \<Rightarrow> bool \<times> tcp_server \<times> 'w" where
  "tcp_bind os v w = (case os_bind os (vs_fd v) (tsv_addr v) w of
     (Errno errno, w) \<Rightarrow> (False, push_error errno ''bind error'' v, w) | (Done _, w) \<Rightarrow> (True, v, w))"

definition tcp_listen :: "'w os \<Rightarrow> tcp_server \<Rightarrow> 'w \<Rightarrow> bool \<times> tcp_server \<times> 'w" where
  "tcp_listen os v w = (case os_listen os (vs_fd v) 10240 w of
     (Errno errno, w) \<Rightarrow> (False, push_error errno ''listen error'' v, w) | (Done _, w) \<Rightarrow> (True, v, w))"

definition tcp_accept :: "'w os \<Rightarrow> tcp_server \<Rightarrow> 'w \<Rightarrow> tcp_socket option \<times> 'w" where
  "tcp_accept os v w = (case os_accept os (vs_fd v) w of
     (Errno errno, w) \<Rightarrow> (None, w)
   | (Done clFd, w) \<Rightarrow>
       (Some (bare_TcpSocket\<lparr>vs_fd := clFd, ts_isConnect := Some True\<rparr>), os_setNoBlock os clFd w))"

subsection \<open>EchoTcpServer\<close>

record 'w echo =
  ec_store :: bstore
  ec_servers :: "(int \<times> tcp_server) list"
  ec_clients :: "(int \<times> tcp_socket) list"
  ec_epollFd :: int
  ec_world :: 'w

text \<open>\<open>m[fd] = p\<close>: the object the entry held before is destroyed.\<close>

definition put_entry ::
    "'w os \<Rightarrow> int \<Rightarrow> 'a vsocket_scheme \<Rightarrow> (int \<times> 'a vsocket_scheme) list \<Rightarrow> 'w \<Rightarrow>
     (int \<times> 'a vsocket_scheme) list \<times> 'w" where
  "put_entry os fd v m w =
     (AList.update fd v m, case map_of m fd of Some old \<Rightarrow> tcp_destroy os old w | None \<Rightarrow> w)"

fun make_servers ::
    "'w os \<Rightarrow> bstore \<Rightarrow> nat \<Rightarrow> 16 word list \<Rightarrow> (int \<times> tcp_server) list \<Rightarrow> 'w \<Rightarrow>
     ((int \<times> tcp_server) list \<times> 'w) option" where
  "make_servers os st ip [] m w = Some (m, w)"
| "make_servers os st ip (port # ports) m w = do {
     (server, w) \<leftarrow> new_TcpServer os st ip port w;
     let (m, w) = put_entry os (vs_fd server) server m w;
     make_servers os st ip ports m w
   }"

definition new_EchoTcpServer :: "'w os \<Rightarrow> bstore \<Rightarrow> nat \<Rightarrow> 16 word list \<Rightarrow> 'w \<Rightarrow> 'w echo option" where
  "new_EchoTcpServer os st ip ports w = do {
     (servers, w) \<leftarrow> make_servers os st ip ports [] w;
     let (epollFd, w) = os_epoll_create os w;
     Some \<lparr>ec_store = st, ec_servers = servers, ec_clients = [], ec_epollFd = epollFd, ec_world = w\<rparr>
   }"

fun destroy_entries :: "'w os \<Rightarrow> (int \<times> 'a vsocket_scheme) list \<Rightarrow> 'w \<Rightarrow> 'w" where
  "destroy_entries os [] w = w"
| "destroy_entries os (e # m) w = destroy_entries os m (tcp_destroy os (snd e) w)"

definition destroy_EchoTcpServer :: "'w os \<Rightarrow> 'w echo \<Rightarrow> 'w" where
  "destroy_EchoTcpServer os s =
     destroy_entries os (ec_servers s) (destroy_entries os (ec_clients s)
       (os_close os (ec_epollFd s) (ec_world s)))"

fun start_servers ::
    "'w os \<Rightarrow> int \<Rightarrow> (int \<times> tcp_server) list \<Rightarrow> 'w \<Rightarrow> (int \<times> tcp_server) list \<times> 'w" where
  "start_servers os epollFd [] w = ([], w)"
| "start_servers os epollFd ((fd, v) # m) w =
     (let (ok, v, w) = tcp_bind os v w; (ok, v, w) = tcp_listen os v w;
        (r, w) = os_epoll_add os epollFd fd EPOLLIN w; (m, w) = start_servers os epollFd m w
      in ((fd, v) # m, w))"

definition echo_accept :: "'w os \<Rightarrow> 'w echo \<Rightarrow> tcp_server \<Rightarrow> 'w echo" where
  "echo_accept os s server = (case tcp_accept os server (ec_world s) of
     (None, w) \<Rightarrow> s\<lparr>ec_world := w\<rparr>
   | (Some cl, w) \<Rightarrow>
       (let (r, w) = os_epoll_add os (ec_epollFd s) (vs_fd cl) (EPOLLIN OR EPOLLET) w;
          (m, w) = put_entry os (vs_fd cl) cl (ec_clients s) w
        in s\<lparr>ec_clients := m, ec_world := w\<rparr>))"

definition echo_greeting :: "byte list" where
  "echo_greeting = lit ''Recv To:''"

text \<open>At the end of the body \<open>msg\<close> goes, and the socket if it is no longer in the map.\<close>

definition echo_message :: "'w os \<Rightarrow> 'w echo \<Rightarrow> int \<Rightarrow> tcp_socket \<Rightarrow> 'w echo outcome" where
  "echo_message os s readyFd cl =
     bind_outcome (readAll os cl (ec_store s) (ec_world s)) (\<lambda>(msg, cl, st, w).
     bind_outcome (lift (isConnected cl)) (\<lambda>c.
     bind_outcome (lift (ba_isEmpty st msg)) (\<lambda>empty.
     if \<not> c then
       lift (do {
         st \<leftarrow> ba_destroy st msg;
         let w = snd (os_epoll_del os (ec_epollFd s) readyFd w);
         Some (s\<lparr>ec_clients := AList.delete readyFd (ec_clients s), ec_store := st, ec_world := tcp_destroy os cl w\<rparr>)
       })
     else
       bind_outcome
         (if empty then Some (Inr (cl, st, w))
          else bind_outcome (ba_prepend_cstr tcp_insertElement st msg (echo_greeting @ [0])) (\<lambda>st.
            lift (map_option (\<lambda>(ret, cl, w). (cl, st, w)) (tcp_send os cl st msg w)))) (\<lambda>(cl, st, w).
       lift (do {
         st \<leftarrow> ba_destroy st msg;
         Some (s\<lparr>ec_clients := AList.update readyFd cl (ec_clients s), ec_store := st, ec_world := w\<rparr>)
       })))))"

definition echo_event :: "'w os \<Rightarrow> 'w echo \<Rightarrow> epoll_event \<Rightarrow> 'w echo outcome" where
  "echo_event os s ev =
     (let (readyFd, events) = ev in
      if events AND EPOLLIN \<noteq> 0 then
        (case map_of (ec_servers s) readyFd of
           Some server \<Rightarrow> Some (Inr (echo_accept os s server))
         | None \<Rightarrow> (case map_of (ec_clients s) readyFd of
               None \<Rightarrow> Some (Inr s)
             | Some cl \<Rightarrow> echo_message os s readyFd cl))
      else Some (Inr s))"

fun echo_events :: "'w os \<Rightarrow> 'w echo \<Rightarrow> epoll_event list \<Rightarrow> 'w echo outcome" where
  "echo_events os s [] = Some (Inr s)"
| "echo_events os s (ev # evs) = bind_outcome (echo_event os s ev) (\<lambda>s. echo_events os s evs)"

text \<open>\<open>readySize\<close> is -1 when \<open>epoll_wait\<close> fails; the comparison is signed here.  The number of
  rounds is an argument, as the loop does not end.\<close>

fun echo_rounds :: "nat \<Rightarrow> 'w os \<Rightarrow> 'w echo \<Rightarrow> 'w echo outcome" where
  "echo_rounds 0 os s = Some (Inr s)"
| "echo_rounds (Suc n) os s =
     (let (r, w) = os_epoll_wait os (ec_epollFd s) 1000 (ec_world s)
      in bind_outcome (echo_events os (s\<lparr>ec_world := w\<rparr>) (case r of Done evs \<Rightarrow> evs | Errno e \<Rightarrow> []))
        (\<lambda>s. echo_rounds n os s))"

definition echo_start :: "nat \<Rightarrow> 'w os \<Rightarrow> 'w echo \<Rightarrow> 'w echo outcome" where
  "echo_start n os s =
     (let (servers, w) = start_servers os (ec_epollFd s) (ec_servers s) (ec_world s)
      in echo_rounds n os (s\<lparr>ec_servers := servers, ec_world := w\<rparr>))"

subsection \<open>TestTcpClient\<close>

record 'w test_client =
  tc_store :: bstore
  tc_ip :: nat
  tc_ports :: "16 word list"
  tc_clients :: "(int \<times> tcp_socket) list"
  tc_epollFd :: int
  tc_world :: 'w

definition new_TestTcpClient :: "'w os \<Rightarrow> bstore \<Rightarrow> nat \<Rightarrow> 16 word list \<Rightarrow> 'w \<Rightarrow> 'w test_client option" where
  "new_TestTcpClient os st ip ports w = do {
     (own_ip, st) \<leftarrow> ba_copy st ip;
     let (epollFd, w) = os_epoll_create os w;
     Some \<lparr>tc_store = st, tc_ip = own_ip, tc_ports = ports, tc_clients = [], tc_epollFd = epollFd, tc_world = w\<rparr>
   }"

definition destroy_TestTcpClient :: "'w os \<Rightarrow> 'w test_client \<Rightarrow> ('w test_client) option" where
  "destroy_TestTcpClient os s = do {
     st \<leftarrow> ba_destroy (tc_store s) (tc_ip s);
     Some (s\<lparr>tc_store := st, tc_clients := [],
       tc_world := destroy_entries os (tc_clients s) (os_close os (tc_epollFd s) (tc_world s))\<rparr>)
   }"

fun connect_ports :: "'w os \<Rightarrow> 'w test_client \<Rightarrow> 16 word list \<Rightarrow> 'w test_client option" where
  "connect_ports os s [] = Some s"
| "connect_ports os s (port # ports) = do {
     (cl, w) \<leftarrow> new_TcpSocket os (tc_store s) (tc_ip s) port (tc_world s);
     (ok, cl, w) \<leftarrow> tcp_connect os cl w;
     connect_ports os
       (if ok then
          let (r, w) = os_epoll_add os (tc_epollFd s) (vs_fd cl) (EPOLLIN OR EPOLLET) w;
            (m, w) = put_entry os (vs_fd cl) cl (tc_clients s) w
          in s\<lparr>tc_clients := m, tc_world := w\<rparr>
        else s\<lparr>tc_world := tcp_destroy os cl w\<rparr>) ports
   }"

text \<open>A descriptor that is not in the map gets a null pointer, which is dereferenced.  The data is
  printed as a C string.\<close>

definition client_event :: "'w os \<Rightarrow> 'w test_client \<Rightarrow> epoll_event \<Rightarrow> 'w test_client outcome" where
  "client_event os s ev =
     (let (readyFd, events) = ev in
      if events AND EPOLLIN \<noteq> 0 then
        bind_outcome (lift (map_of (tc_clients s) readyFd)) (\<lambda>cl.
        bind_outcome (readAll os cl (tc_store s) (tc_world s)) (\<lambda>(msg, cl, st, w).
        lift (do {
          p \<leftarrow> ba_data st msg;
          text \<leftarrow> c_string st p;
          st \<leftarrow> ba_destroy st msg;
          c \<leftarrow> isConnected cl;
          Some (if \<not> c then
              let w = snd (os_epoll_del os (tc_epollFd s) readyFd w)
              in s\<lparr>tc_clients := AList.delete readyFd (tc_clients s), tc_store := st, tc_world := tcp_destroy os cl w\<rparr>
            else s\<lparr>tc_clients := AList.update readyFd cl (tc_clients s), tc_store := st, tc_world := w\<rparr>)
        })))
      else Some (Inr s))"

fun client_events :: "'w os \<Rightarrow> 'w test_client \<Rightarrow> epoll_event list \<Rightarrow> 'w test_client outcome" where
  "client_events os s [] = Some (Inr s)"
| "client_events os s (ev # evs) = bind_outcome (client_event os s ev) (\<lambda>s. client_events os s evs)"

text \<open>The loop that sends to the sockets of the map in their order, until \<open>++size > 100\<close>; the
  result is the sockets after the loop.\<close>

fun send_hellos ::
    "'w os \<Rightarrow> bstore \<Rightarrow> (int \<times> tcp_socket) list \<Rightarrow> int \<Rightarrow> 'w \<Rightarrow>
     ((int \<times> tcp_socket) list \<times> bstore \<times> 'w) outcome" where
  "send_hellos os st [] sz w = Some (Inr ([], st, w))"
| "send_hellos os st ((fd, cl) # m) sz w =
     bind_outcome (ba_from_cstr True tcp_insertElement st (lit ''hello server'' @ [0])) (\<lambda>(data, st).
     bind_outcome (lift (tcp_send os cl st data w)) (\<lambda>(ret, cl, w).
     bind_outcome (lift (ba_destroy st data)) (\<lambda>st.
     if sz + 1 > 100 then Some (Inr ((fd, cl) # m, st, w))
     else bind_outcome (send_hellos os st m (sz + 1) w) (\<lambda>(m, st, w). Some (Inr ((fd, cl) # m, st, w))))))"

fun client_rounds :: "nat \<Rightarrow> 'w os \<Rightarrow> 'w test_client \<Rightarrow> 'w test_client outcome" where
  "client_rounds 0 os s = Some (Inr s)"
| "client_rounds (Suc n) os s =
     bind_outcome (lift (connect_ports os s (tc_ports s))) (\<lambda>s.
       let (r, w) = os_epoll_wait os (tc_epollFd s) 1000 (tc_world s)
       in bind_outcome (client_events os (s\<lparr>tc_world := w\<rparr>) (case r of Done evs \<Rightarrow> evs | Errno e \<Rightarrow> [])) (\<lambda>s.
          bind_outcome (send_hellos os (tc_store s) (tc_clients s) 0 (tc_world s)) (\<lambda>(m, st, w).
          client_rounds n os (s\<lparr>tc_clients := m, tc_store := st, tc_world := w\<rparr>))))"

subsection \<open>main\<close>

definition main_ports :: "16 word list" where
  "main_ports = map (\<lambda>i. 8000 + of_nat i) [0..<1000]"

text \<open>Either the test client on the address of the argument, or the echo server, for \<open>n\<close> rounds.\<close>

definition tcp_main ::
    "nat \<Rightarrow> 'w os \<Rightarrow> byte list option \<Rightarrow> 'w \<Rightarrow> ('w test_client + 'w echo) outcome" where
  "tcp_main n os arg w = (case arg of
     Some a \<Rightarrow>
       bind_outcome (ba_from_cstr True tcp_insertElement empty_store a) (\<lambda>(ip, st).
       bind_outcome (lift (new_TestTcpClient os st ip main_ports w)) (\<lambda>s.
       bind_outcome (lift (ba_destroy (tc_store s) ip)) (\<lambda>st.
       bind_outcome (client_rounds n os (s\<lparr>tc_store := st\<rparr>)) (\<lambda>s. Some (Inr (Inl s))))))
   | None \<Rightarrow>
       bind_outcome (ba_from_cstr True tcp_insertElement empty_store [48, 0]) (\<lambda>(ip, st).
       bind_outcome (lift (new_EchoTcpServer os st ip main_ports w)) (\<lambda>s.
       bind_outcome (lift (ba_destroy (ec_store s) ip)) (\<lambda>st.
       bind_outcome (echo_start n os (s\<lparr>ec_store := st\<rparr>)) (\<lambda>s. Some (Inr (Inr s)))))))"

subsection \<open>readAll\<close>

text \<open>A socket after \<open>close\<close>.\<close>

definition dead :: "tcp_socket \<Rightarrow> tcp_socket" where
  "dead v = v\<lparr>vs_fd := - 1, vs_error := [], ts_isConnect := Some False\<rparr>"

lemma tcp_close_dead:
  assumes "vs_fd v \<noteq> - 1"
  shows "tcp_close os (v\<lparr>ts_isConnect := Some False\<rparr>) w = (dead v, os_close os (vs_fd v) w)"
    "tcp_close os ((push_error e str v)\<lparr>ts_isConnect := Some False\<rparr>) w = (dead v, os_close os (vs_fd v) w)"
  using assms by (simp_all add: tcp_close_def dead_def push_error_def)

lemma dead_simps [simp]: "vs_fd (dead v) = - 1" "vs_error (dead v) = []" "ts_isConnect (dead v) = Some False"
  by (simp_all add: dead_def)

lemma readAll_stops: "ts_isConnect v = Some False \<Longrightarrow> readAll_loop os i v st w = Some (Inr (v, st, w))"
  by (subst readAll_loop.simps) simp

lemma tcp_bufferSize_less: "tcp_bufferSize < 18446744073709551616"
  by (simp add: tcp_bufferSize_def)

lemma readAll_loop_rep:
  assumes "delivers os (vs_fd v) tcp_bufferSize w cs r w'" "ts_isConnect v = Some True" "vs_fd v \<noteq> - 1"
    and "store_ok st" "get_obj st i = Some bo" "content st i = Some xs"
    and "tcp_room (unat (cm_capacity bo)) (unat (cm_size bo)) (length (concat cs) + k)"
  shows "\<exists>st' bo'. readAll_loop os i v st w = Some (Inr
      (if r = Errno EWOULDBLOCK then (v, st', w') else (dead v, st', os_close os (vs_fd v) w'))) \<and>
    store_ok st' \<and> frame i st st' \<and> content st' i = Some (xs @ concat cs) \<and>
    get_obj st' i = Some bo' \<and> tcp_room (unat (cm_capacity bo')) (unat (cm_size bo')) k"
  using assms
proof (induction arbitrary: st bo xs rule: delivers.induct)
  case (last_call w r w')
  have "readAll_loop os i v st w = Some (Inr
      (if r = Errno EWOULDBLOCK then (v, st, w') else (dead v, st, os_close os (vs_fd v) w')))"
  proof (cases "r = Errno EWOULDBLOCK")
    case False
    with last_call(2) consider "r = Done []" | e where "r = Errno e" "e \<noteq> EWOULDBLOCK" by auto
    then show ?thesis
      using last_call by cases (subst readAll_loop.simps, simp add: tcp_close_dead readAll_stops)+
  qed (use last_call in \<open>subst readAll_loop.simps, simp\<close>)
  then show ?case using last_call by (intro exI [of _ st] exI [of _ bo]) simp
next
  case (chunk w c w1 cs r w')
  let ?n = "of_nat (length c) :: usize"
  have n: "unat ?n = length c" using chunk.hyps(3) by (simp add: unat_small tcp_bufferSize_def)
  have room: "tcp_room (unat (cm_capacity bo)) (unat (cm_size bo)) (unat ?n + (length (concat cs) + k))"
    using chunk.prems(6) n by (simp add: add.assoc)
  obtain st1 bo' where st1: "tcp_insertElement st i (cm_size bo)
      (Ext (c @ replicate (tcp_bufferSize - length c) 0)) ?n = Some (Inr st1)" "store_ok st1"
    "frame i st st1" "get_obj st1 i = Some bo'" "content st1 i = Some (xs @ c)"
    "tcp_room (unat (cm_capacity bo')) (unat (cm_size bo')) (length (concat cs) + k)"
    using tcp.append_law [OF chunk.prems(3-5) chunk_source [OF chunk.hyps(3) tcp_bufferSize_less] tcp.room_less [OF room]] room by blast
  have step: "readAll_loop os i v st w = readAll_loop os i v st1 w1"
    using chunk.hyps(1,2) chunk.prems(1,4) st1(1)
    by (subst readAll_loop.simps) (simp add: ba_append_bytes_def)
  obtain st' bo2 where "readAll_loop os i v st1 w1 = Some (Inr
      (if r = Errno EWOULDBLOCK then (v, st', w') else (dead v, st', os_close os (vs_fd v) w')))"
    "store_ok st'" "frame i st1 st'" "content st' i = Some ((xs @ c) @ concat cs)"
    "get_obj st' i = Some bo2" "tcp_room (unat (cm_capacity bo2)) (unat (cm_size bo2)) k"
    using chunk.IH [OF chunk.prems(1,2) st1(2,4,5,6)] by blast
  then show ?case using step frame_trans [OF st1(3)] by (intro exI [of _ st'] exI [of _ bo2]) simp
qed

lemma readAll_rep:
  assumes d: "delivers os (vs_fd v) tcp_bufferSize w cs r w'" "ts_isConnect v = Some True" "vs_fd v \<noteq> - 1"
    and st: "store_ok st" and len: "length (concat cs) < 1099511627776"
  shows "\<exists>st' bo. readAll os v st w = Some (Inr (if r = Errno EWOULDBLOCK then (length (cm_objs st), v, st', w')
      else (length (cm_objs st), dead v, st', os_close os (vs_fd v) w'))) \<and>
    store_ok st' \<and> extends st st' \<and> content st' (length (cm_objs st)) = Some (concat cs) \<and>
    get_obj st' (length (cm_objs st)) = Some bo \<and> tcp_room (unat (cm_capacity bo)) (unat (cm_size bo)) 8"
proof -
  let ?i = "length (cm_objs st)"
  have nz: "True \<Longrightarrow> defInitcapacity \<noteq> 0" by (simp add: defInitcapacity_def)
  obtain s1 ob b where s1: "ba_new True st = Some (Inr (?i, s1))" "extends st s1"
    "ready s1 ?i ob b (replicate 1024 0)" "cm_size ob = 0"
    using new_rep [OF st] by blast
  have c1: "content s1 ?i = Some []" using ready_content [OF s1(3)] s1(4) by simp
  have "unat (cm_capacity ob) = 1024" using ready_capacity [OF s1(3)] by simp
  then have room: "tcp_room (unat (cm_capacity ob)) (unat (cm_size ob)) (length (concat cs) + 8)"
    using len s1(4) by (simp add: tcp_room_def kv_room_def)
  have "store_ok s1" "get_obj s1 ?i = Some ob" using s1(3) by (simp_all add: ready_def)
  from readAll_loop_rep [OF d this c1 room] obtain st' bo where st': "readAll_loop os ?i v s1 w = Some (Inr
      (if r = Errno EWOULDBLOCK then (v, st', w') else (dead v, st', os_close os (vs_fd v) w')))"
    "store_ok st'" "frame ?i s1 st'" "content st' ?i = Some (concat cs)"
    "get_obj st' ?i = Some bo" "tcp_room (unat (cm_capacity bo)) (unat (cm_size bo)) 8"
    by auto
  have "extends st st'" by (rule frame_extends [OF st'(3) order_refl s1(2)])
  then show ?thesis using s1(1) st' by (intro exI [of _ st'] exI [of _ bo]) (simp add: readAll_def)
qed

subsection \<open>The echo\<close>

lemma update_same: "map_of m k = Some v \<Longrightarrow> AList.update k v m = m"
  by (induction m) auto

text \<open>Objects made and gone leave the store as it was, to everyone else.\<close>

lemma destroy_last:
  assumes "store_ok st'" "extends st st'" "content st' (length (cm_objs st)) = Some xs"
  shows "\<exists>st2. ba_destroy st' (length (cm_objs st)) = Some st2 \<and> store_ok st2 \<and> extends st st2 \<and>
    get_obj st2 (length (cm_objs st)) = None"
proof -
  obtain ob where g: "get_obj st' (length (cm_objs st)) = Some ob"
    using assms(3) by (auto simp: content_def split: bind_splits)
  note d = destroy_rep [OF assms(1) g]
  show ?thesis
    using d g frame_extends [OF d(2) order_refl assms(2)] by (simp add: ba_destroy_def get_obj_set_obj [OF g])
qed

lemma greeting: "length echo_greeting = 8" "strlen (echo_greeting @ [0]) = Some 8"
  by (simp_all add: echo_greeting_def lit_def strlen_def)

lemma prepend_greeting:
  assumes s: "store_ok s" "content s i = Some xs"
    and ob: "get_obj s i = Some ob" "tcp_room (unat (cm_capacity ob)) (unat (cm_size ob)) 8"
  shows "if length xs \<le> 8
    then \<exists>s'. ba_prepend_cstr tcp_insertElement s i (echo_greeting @ [0]) = Some (Inr s') \<and> store_ok s' \<and>
      frame i s s' \<and> content s' i = Some (echo_greeting @ xs)
    else ba_prepend_cstr tcp_insertElement s i (echo_greeting @ [0]) = None"
proof -
  have "stable_src s i (Ext (echo_greeting @ [0])) (unat (8 :: usize)) echo_greeting"
    using greeting(1) by (simp add: stable_src_def read_ptr_def)
  then show ?thesis
    using tcp_prepend_rep [OF s(1) ob(1) s(2)] ob(2) greeting by (simp add: ba_prepend_cstr_def)
qed

text \<open>C22: An echo: the bytes a client has sent, in however many pieces they arrive, go back in one
  piece behind "Recv To:" if they are at most 8; nothing is left behind in memory and the other arrays
  and sockets stay as they are.  A longer message is undefined behaviour (an overlapping
  \<open>memcpy\<close> in \<open>prepend\<close>).\<close>

theorem echo_replies:
  assumes cl: "map_of (ec_servers s) fd = None" "map_of (ec_clients s) fd = Some cl" "vs_fd cl = fd" "fd \<noteq> - 1"
      "ts_isConnect cl = Some True"
    and net: "delivers os fd tcp_bufferSize (ec_world s) cs (Errno EWOULDBLOCK) w"
      "os_send os fd (echo_greeting @ concat cs) w = (Done n, w')" "n \<noteq> 0"
    and st: "store_ok (ec_store s)" and len: "concat cs \<noteq> []" "length (concat cs) < 1099511627776"
  shows "if length (concat cs) \<le> 8
    then \<exists>st. echo_event os s (fd, EPOLLIN) = Some (Inr (s\<lparr>ec_store := st, ec_world := w'\<rparr>)) \<and> store_ok st \<and>
      extends (ec_store s) st \<and> get_obj st (length (cm_objs (ec_store s))) = None
    else echo_event os s (fd, EPOLLIN) = None"
proof -
  let ?i = "length (cm_objs (ec_store s))"
  have dl: "delivers os (vs_fd cl) tcp_bufferSize (ec_world s) cs (Errno EWOULDBLOCK) w" using net(1) cl(3) by simp
  have nf: "vs_fd cl \<noteq> - 1" using cl(3,4) by simp
  obtain st1 bo where r: "readAll os cl (ec_store s) (ec_world s) = Some (Inr (?i, cl, st1, w))" "store_ok st1"
    "extends (ec_store s) st1" "content st1 ?i = Some (concat cs)" "get_obj st1 ?i = Some bo"
    "tcp_room (unat (cm_capacity bo)) (unat (cm_size bo)) 8"
    using readAll_rep [OF dl cl(5) nf st len(2)] by auto
  have "unat (cm_size bo) \<noteq> 0" using content_length [OF r(4,5)] len(1) by (metis length_0_conv)
  then have ne: "ba_isEmpty st1 ?i = Some False" using r(5) by (auto simp: ba_isEmpty_def)
  note pre = prepend_greeting [OF r(2,4,5,6)]
  have ev: "echo_event os s (fd, EPOLLIN) = echo_message os s fd cl"
    using cl(1,2) by (simp add: echo_event_def)
  show ?thesis
  proof (cases "length (concat cs) \<le> 8")
    case True
    then obtain st2 where st2: "ba_prepend_cstr tcp_insertElement st1 ?i (echo_greeting @ [0]) = Some (Inr st2)"
      "store_ok st2" "frame ?i st1 st2" "content st2 ?i = Some (echo_greeting @ concat cs)"
      using pre by auto
    have e2: "extends (ec_store s) st2" by (rule frame_extends [OF st2(3) order_refl r(3)])
    obtain o2 where o2: "get_obj st2 ?i = Some o2" using st2(4) by (auto simp: content_def split: bind_splits)
    then have "read_ptr st2 (data_ptr o2) (unat (cm_size o2)) = Some (echo_greeting @ concat cs)"
      using st2(4) by (simp add: content_def)
    then have snd: "tcp_send os cl st2 ?i w = Some (of_nat n, cl, w')"
      using o2 cl(3,5) net(2,3) by (simp add: tcp_send_def ba_data_def ba_size_def)
    obtain st3 where st3: "ba_destroy st2 ?i = Some st3" "store_ok st3" "extends (ec_store s) st3" "get_obj st3 ?i = None"
      using destroy_last [OF st2(2) e2 st2(4)] by blast
    have "echo_message os s fd cl = Some (Inr (s\<lparr>ec_store := st3, ec_world := w'\<rparr>))"
      using r(1) cl(5) ne st2(1) snd st3(1) update_same [OF cl(2)]
      by (simp add: echo_message_def isConnected_def)
    then show ?thesis using True ev st3 by auto
  next
    case False
    then have "ba_prepend_cstr tcp_insertElement st1 ?i (echo_greeting @ [0]) = None" using pre by simp
    then have "echo_message os s fd cl = None"
      using r(1) cl(5) ne by (simp add: echo_message_def isConnected_def)
    then show ?thesis using False ev by simp
  qed
qed

text \<open>A server on descriptor 3 with one client on descriptor 5.\<close>

definition echo_sample :: "byte list syscall list \<Rightarrow> net_script echo" where
  "echo_sample rs = \<lparr>ec_store = empty_store,
     ec_servers = [(3, \<lparr>vs_fd = 3, vs_error = [], tsv_addr = \<lparr>sin_addr = 0, sin_port = 16415\<rparr>\<rparr>)],
     ec_clients = [(5, \<lparr>vs_fd = 5, vs_error = [], ts_addr = None, ts_isConnect = Some True\<rparr>)],
     ec_epollFd = 4, ec_world = \<lparr>sc_recv = rs, sc_wait = [], sc_log = []\<rparr>\<rparr>"

theorem echo_replies_witness:
  "(\<exists>s'. echo_event script_os (echo_sample [Done [104], Done [105]]) (5, EPOLLIN) = Some (Inr s') \<and>
      sc_log (ec_world s') = [Sent 5 (echo_greeting @ [104, 105])]) \<and>
    echo_event script_os (echo_sample [Done (replicate 9 0)]) (5, EPOLLIN) = None"
proof
  let ?cl = "\<lparr>vs_fd = 5, vs_error = [], ts_addr = None, ts_isConnect = Some True\<rparr> :: tcp_socket"
  have net: "delivers script_os 5 tcp_bufferSize (ec_world (echo_sample (map Done cs))) cs (Errno EWOULDBLOCK)
      \<lparr>sc_recv = [], sc_wait = [], sc_log = []\<rparr>" if "\<forall>c\<in>set cs. c \<noteq> [] \<and> length c \<le> tcp_bufferSize" for cs
    using script_delivers [of "ec_world (echo_sample (map Done cs))" cs tcp_bufferSize 5] that
    by (simp add: echo_sample_def)
  have snd: "os_send script_os 5 bs \<lparr>sc_recv = [], sc_wait = [], sc_log = []\<rparr> =
      (Done (length bs), \<lparr>sc_recv = [], sc_wait = [], sc_log = [Sent 5 bs]\<rparr>)" for bs
    by (simp add: script_os_def log_action_def)
  note echo = echo_replies [where fd = 5 and cl = ?cl, OF _ _ _ _ _ net snd]
  show "\<exists>s'. echo_event script_os (echo_sample [Done [104], Done [105]]) (5, EPOLLIN) = Some (Inr s') \<and>
      sc_log (ec_world s') = [Sent 5 (echo_greeting @ [104, 105])]"
    using echo [of "[[104], [105]]"] by (force simp: echo_sample_def tcp_bufferSize_def)
  show "echo_event script_os (echo_sample [Done (replicate 9 0)]) (5, EPOLLIN) = None"
    using echo [of "[replicate 9 0]"] by (simp add: echo_sample_def tcp_bufferSize_def)
qed

subsection \<open>Errors\<close>

text \<open>C24: \<open>readAll\<close> returns all the bytes received before the connection ended or failed, but
  after it nobody can tell the two apart: the descriptor is closed once and the error that was pushed is
  gone, because \<open>close\<close> empties the stack.\<close>

theorem read_error_lost:
  assumes "delivers os (vs_fd v) tcp_bufferSize w cs r w'" "r \<noteq> Errno EWOULDBLOCK" "ts_isConnect v = Some True"
    "vs_fd v \<noteq> - 1" "store_ok st" "length (concat cs) < 1099511627776"
  shows "\<exists>data v' st'. readAll os v st w = Some (Inr (data, v', st', os_close os (vs_fd v) w')) \<and>
    content st' data = Some (concat cs) \<and> isConnected v' = Some False \<and> vs_fd v' = - 1 \<and>
    fst (getLastError v') = \<lparr>te_code = 0, te_errorStr = []\<rparr>"
proof -
  obtain st' where "readAll os v st w = Some (Inr (length (cm_objs st), dead v, st', os_close os (vs_fd v) w'))"
    "content st' (length (cm_objs st)) = Some (concat cs)"
    using readAll_rep [OF assms(1,3-6)] assms(2) by auto
  then show ?thesis by (auto simp: isConnected_def getLastError_def)
qed

theorem read_error_lost_witness:
  "\<exists>data v' st'. readAll script_os \<lparr>vs_fd = 5, vs_error = [], ts_addr = None, ts_isConnect = Some True\<rparr> empty_store
      \<lparr>sc_recv = [Done [1], Errno 104], sc_wait = [], sc_log = []\<rparr> =
      Some (Inr (data, v', st', \<lparr>sc_recv = [], sc_wait = [], sc_log = [Closed 5]\<rparr>)) \<and>
    content st' data = Some [1] \<and> fst (getLastError v') = \<lparr>te_code = 0, te_errorStr = []\<rparr>"
proof -
  let ?v = "\<lparr>vs_fd = 5, vs_error = [], ts_addr = None, ts_isConnect = Some True\<rparr> :: tcp_socket"
  let ?w = "\<lparr>sc_recv = [Done [1], Errno 104], sc_wait = [], sc_log = []\<rparr>"
  have "delivers script_os (vs_fd ?v) tcp_bufferSize ?w [[1]] (Errno 104) \<lparr>sc_recv = [], sc_wait = [], sc_log = []\<rparr>"
    by (intro chunk [where ?w1.0 = "\<lparr>sc_recv = [Errno 104], sc_wait = [], sc_log = []\<rparr>"] last_call)
      (simp_all add: script_os_def tcp_bufferSize_def)
  from read_error_lost [OF this, of empty_store] show ?thesis
    by (simp add: EWOULDBLOCK_def script_os_def log_action_def) blast
qed

subsection \<open>What the echo server keeps\<close>

text \<open>A client of the map is connected under its own descriptor, or was closed and is only still in the
  map; none has an error on its stack.\<close>

definition sock_ok :: "int \<Rightarrow> tcp_socket \<Rightarrow> bool" where
  "sock_ok fd v \<longleftrightarrow> vs_error v = [] \<and>
     (ts_isConnect v = Some True \<and> vs_fd v = fd \<or> ts_isConnect v = Some False \<and> vs_fd v = - 1)"

definition clients_ok :: "(int \<times> tcp_socket) list \<Rightarrow> bool" where
  "clients_ok m \<longleftrightarrow> distinct (map fst m) \<and> (\<forall>fd v. map_of m fd = Some v \<longrightarrow> sock_ok fd v)"

definition echo_wf :: "'w echo \<Rightarrow> bool" where
  "echo_wf s \<longleftrightarrow> clients_ok (ec_clients s)"

lemma clients_ok_update: "clients_ok m \<Longrightarrow> sock_ok fd v \<Longrightarrow> clients_ok (AList.update fd v m)"
  by (simp add: clients_ok_def update_conv' distinct_update del: map_of_eq_Some_iff)

lemma clients_ok_delete: "clients_ok m \<Longrightarrow> clients_ok (AList.delete fd m)"
  by (simp add: clients_ok_def delete_conv' distinct_delete del: map_of_eq_Some_iff)

lemma sock_ok_close [simp]:
  "sock_ok fd (fst (tcp_close os (v\<lparr>ts_isConnect := Some False\<rparr>) w))"
  by (simp add: tcp_close_def sock_ok_def Let_def)

lemma readAll_loop_sock:
  assumes "readAll_loop os i v st w = Some y" "y = Inr (v', st', w')" "sock_ok fd v"
  shows "sock_ok fd v'"
  using assms
proof (induction rule: readAll_loop.raw_induct [rotated, consumes 1, case_names step])
  case (step self os i v st w y)
  obtain c where c: "ts_isConnect v = Some c" using step(4) by (auto simp: sock_ok_def)
  show ?case
  proof (cases c)
    case True
    obtain r w1 where r: "os_recv os (vs_fd v) tcp_bufferSize w = (r, w1)" by fastforce
    show ?thesis
    proof (cases r)
      case (Done bs)
      show ?thesis
      proof (cases "bs = []")
        case True
        obtain v1 w2 where v1: "tcp_close os (v\<lparr>ts_isConnect := Some False\<rparr>) w1 = (v1, w2)" by fastforce
        then have "sock_ok fd v1" using sock_ok_close by (metis fst_conv)
        moreover have "self os i v1 st w2 = Some y"
          using step(2) c \<open>c\<close> r Done True v1 by simp
        ultimately show ?thesis using step(1) step(3) by blast
      next
        case False
        then obtain st1 where "self os i v st1 w1 = Some y"
          using step(2,3) c \<open>c\<close> r Done by (auto simp: bind_outcome_eq_Inr)
        then show ?thesis using step(1) step(3,4) by blast
      qed
    next
      case (Errno e)
      obtain v1 w2 where v1: "tcp_close os ((push_error e ''read error'' v)\<lparr>ts_isConnect := Some False\<rparr>) w1 = (v1, w2)"
        by fastforce
      then have "sock_ok fd v1" using sock_ok_close by (metis fst_conv)
      then show ?thesis using step c \<open>c\<close> r Errno v1 by (auto split: if_splits)
    qed
  qed (use step c in auto)
qed

lemma readAll_sock:
  "readAll os v st w = Some (Inr (i, v', st', w')) \<Longrightarrow> sock_ok fd v \<Longrightarrow> sock_ok fd v'"
  by (auto simp: readAll_def bind_outcome_eq_Inr dest: readAll_loop_sock)

lemma tcp_send_sock:
  assumes "tcp_send os v st i w = Some (ret, v', w')" "sock_ok fd v"
  shows "sock_ok fd v'"
proof -
  have "sock_ok fd v1" if "tcp_close os (v\<lparr>ts_isConnect := Some False\<rparr>) w1 = (v1, w2)" for w1 v1 w2
    using sock_ok_close that by (metis fst_conv)
  then show ?thesis
    using assms by (auto simp: tcp_send_def split: bind_splits if_splits prod.splits syscall.splits)
qed

lemma echo_wf_update: "echo_wf s \<Longrightarrow> sock_ok fd v \<Longrightarrow>
    echo_wf (s\<lparr>ec_clients := AList.update fd v (ec_clients s), ec_store := st, ec_world := w\<rparr>)"
  by (simp add: echo_wf_def clients_ok_update)

lemma echo_wf_delete: "echo_wf s \<Longrightarrow>
    echo_wf (s\<lparr>ec_clients := AList.delete fd (ec_clients s), ec_store := st, ec_world := w\<rparr>)"
  by (simp add: echo_wf_def clients_ok_delete)

lemma echo_message_wf:
  assumes "echo_message os s fd cl = Some (Inr s')" "echo_wf s" "sock_ok fd cl"
  shows "echo_wf s' \<and> ec_servers s' = ec_servers s"
proof -
  obtain msg cl1 st1 w1 c e where r: "readAll os cl (ec_store s) (ec_world s) = Some (Inr (msg, cl1, st1, w1))"
    "isConnected cl1 = Some c" "ba_isEmpty st1 msg = Some e"
    using assms(1) by (fastforce simp: echo_message_def bind_outcome_eq_Inr lift_def)
  have ok: "sock_ok fd cl1" by (rule readAll_sock [OF r(1) assms(3)])
  have send: "sock_ok fd cl2" if "tcp_send os cl1 st msg w1 = Some (ret, cl2, w2)" for st ret cl2 w2
    by (rule tcp_send_sock [OF that ok])
  show ?thesis
    using assms(1,2) r ok
    by (auto simp: echo_message_def bind_outcome_eq_Inr lift_def Let_def split: if_splits bind_splits
        intro: echo_wf_update echo_wf_delete send)
qed

lemma echo_accept_wf:
  assumes "echo_wf s"
  shows "echo_wf (echo_accept os s server) \<and> ec_servers (echo_accept os s server) = ec_servers s"
proof (cases "os_accept os (vs_fd server) (ec_world s)")
  case (Pair r w)
  have "sock_ok clFd (bare_TcpSocket\<lparr>vs_fd := clFd, ts_isConnect := Some True\<rparr>)" for clFd
    by (simp add: sock_ok_def bare_TcpSocket_def)
  then show ?thesis
    using assms Pair
    by (auto simp: echo_accept_def tcp_accept_def put_entry_def echo_wf_def clients_ok_update Let_def
        split: syscall.split prod.split)
qed

lemma echo_event_wf:
  assumes "echo_event os s ev = Some (Inr s')" "echo_wf s"
  shows "echo_wf s' \<and> ec_servers s' = ec_servers s"
proof -
  obtain fd events where ev: "ev = (fd, events)" by fastforce
  show ?thesis
  proof (cases "events AND EPOLLIN \<noteq> 0 \<and> map_of (ec_servers s) fd = None \<and> map_of (ec_clients s) fd \<noteq> None")
    case True
    then obtain cl where "map_of (ec_clients s) fd = Some cl" by blast
    moreover from this have "sock_ok fd cl" using assms(2) by (simp add: echo_wf_def clients_ok_def)
    ultimately show ?thesis
      using echo_message_wf [OF _ assms(2)] True assms(1) by (simp add: ev echo_event_def)
  next
    case False
    then show ?thesis
      using assms echo_accept_wf [OF assms(2)]
      by (simp add: ev echo_event_def split: if_splits option.splits) auto
  qed
qed

lemma echo_events_wf:
  "echo_events os s evs = Some (Inr s') \<Longrightarrow> echo_wf s \<Longrightarrow> echo_wf s' \<and> ec_servers s' = ec_servers s"
proof (induction evs arbitrary: s)
  case (Cons ev evs)
  then obtain s1 where "echo_event os s ev = Some (Inr s1)" "echo_events os s1 evs = Some (Inr s')"
    by (auto simp: bind_outcome_eq_Inr)
  then show ?case using Cons.IH echo_event_wf Cons.prems(2) by metis
qed simp



end
