(* ===== verification/Uring.thy ===== *)
theory Uring
  imports OsCalls "HOL-Library.Multiset"
begin

text \<open>
  liburing, as the two programs over io_uring use it (qpsTool/, ioURingServer/): a library, given as a
  record of its calls on the world of OsCalls.  What its documentation and that of the kernel promise
  is the predicate \<open>uring_laws\<close> over a view of the world; \<open>script_ring\<close> is a ring that keeps
  the promise, for examples.
\<close>

subsection \<open>The calls\<close>

datatype ring_request =
  PrepConnect int sockaddr_in | PrepAccept int | PrepRecv int nat | PrepSend int "byte list"

text \<open>A completion, with the bytes the kernel has left in the buffer of a receive.\<close>

record ring_cqe =
  cqe_user_data :: nat
  cqe_res :: int
  cqe_data :: "byte list"

text \<open>\<open>ur_get_sqe\<close> and the \<open>ur_prep\<close> that follows it are \<open>io_uring_get_sqe\<close> and the
  preparation of the entry with its user data; \<open>ur_cqe_at\<close> is one step of
  \<open>io_uring_for_each_cqe\<close>: the completion so many places behind the head, if there is one.\<close>

record 'w uring =
  ur_init :: "uint \<Rightarrow> 'w \<Rightarrow> 'w"
  ur_get_sqe :: "'w \<Rightarrow> bool \<times> 'w"
  ur_prep :: "nat \<Rightarrow> ring_request \<Rightarrow> 'w \<Rightarrow> 'w"
  ur_submit :: "'w \<Rightarrow> 'w"
  ur_peek :: "nat \<Rightarrow> 'w \<Rightarrow> ring_cqe list \<times> 'w"
  ur_wait :: "'w \<Rightarrow> int \<times> 'w"
  ur_cqe_at :: "nat \<Rightarrow> 'w \<Rightarrow> ring_cqe option \<times> 'w"
  ur_advance :: "nat \<Rightarrow> 'w \<Rightarrow> 'w"
  ur_exit :: "'w \<Rightarrow> 'w"
  ur_now :: "'w \<Rightarrow> nat \<times> 'w"

subsection \<open>What liburing and the kernel promise\<close>

text \<open>A view of the world: the requests prepared, with their user data, whose completion the program
  has not released yet; the completions waiting, in their order; and the number of entries prepared
  since the last submission.\<close>

record 'w ring_view =
  rv_reqs :: "'w \<Rightarrow> (nat \<times> ring_request) multiset"
  rv_cq :: "'w \<Rightarrow> ring_cqe list"
  rv_sq :: "'w \<Rightarrow> nat"

definition rv_pend :: "'w ring_view \<Rightarrow> 'w \<Rightarrow> nat multiset" where
  "rv_pend v w = image_mset fst (rv_reqs v w)"

definition cqe_keys :: "ring_cqe list \<Rightarrow> nat multiset" where
  "cqe_keys cqes = mset (map cqe_user_data cqes)"

definition keeps_view :: "'w ring_view \<Rightarrow> 'w \<Rightarrow> 'w \<Rightarrow> bool" where
  "keeps_view v w w' \<longleftrightarrow> rv_reqs v w' = rv_reqs v w \<and> rv_sq v w' = rv_sq v w \<and>
     (\<exists>new. rv_cq v w' = rv_cq v w @ new)"

text \<open>The completion of a receive reports how many bytes it wrote, at most as many as asked for.\<close>

definition completes :: "ring_request \<Rightarrow> ring_cqe \<Rightarrow> bool" where
  "completes r c = (case r of
     PrepRecv fd n \<Rightarrow> cqe_res c \<le> int n \<and> length (cqe_data c) = nat (cqe_res c) | _ \<Rightarrow> cqe_data c = [])"

text \<open>A request completes at most once; there is a free entry while fewer than \<open>n\<close> are prepared;
  \<open>io_uring_submit\<close> takes them all; a batch is the front of the completion queue, which
  \<open>io_uring_cq_advance\<close> removes; and no other call touches the ring, except that completions can
  arrive at any time.\<close>

definition uring_laws :: "'w os \<Rightarrow> 'w uring \<Rightarrow> 'w ring_view \<Rightarrow> nat \<Rightarrow> bool" where
  "uring_laws os u v n \<longleftrightarrow>
     (\<forall>w. cqe_keys (rv_cq v w) \<subseteq># rv_pend v w) \<and>
     (\<forall>w. \<forall>c\<in>set (rv_cq v w). \<exists>r. (cqe_user_data c, r) \<in># rv_reqs v w \<and> completes r c) \<and>
     (\<forall>w. keeps_view v w (snd (os_socket os w))) \<and>
     (\<forall>fd w. keeps_view v w (os_close os fd w)) \<and>
     (\<forall>w. keeps_view v w (snd (ur_now u w))) \<and>
     (\<forall>w. rv_sq v w < n \<longrightarrow> fst (ur_get_sqe u w)) \<and>
     (\<forall>w. \<not> fst (ur_get_sqe u w) \<longrightarrow> keeps_view v w (snd (ur_get_sqe u w))) \<and>
     (\<forall>w k r. let w' = ur_prep u k r (snd (ur_get_sqe u w)) in
        rv_reqs v w' = add_mset (k, r) (rv_reqs v w) \<and> rv_sq v w' = Suc (rv_sq v w) \<and>
        (\<exists>new. rv_cq v w' = rv_cq v w @ new)) \<and>
     (\<forall>w. rv_sq v (ur_submit u w) = 0 \<and> rv_reqs v (ur_submit u w) = rv_reqs v w) \<and>
     (\<forall>k w. keeps_view v w (snd (ur_peek u k w)) \<and>
        fst (ur_peek u k w) = take k (rv_cq v (snd (ur_peek u k w)))) \<and>
     (\<forall>w. keeps_view v w (snd (ur_wait u w))) \<and>
     (\<forall>k w. let (r, w') = (fst (ur_cqe_at u k w), snd (ur_cqe_at u k w)) in
        keeps_view v w w' \<and> r = (if k < length (rv_cq v w') then Some (rv_cq v w' ! k) else None)) \<and>
     (\<forall>k w. k \<le> length (rv_cq v w) \<longrightarrow>
        rv_reqs v (ur_advance u k w) \<subseteq># rv_reqs v w \<and>
        rv_pend v (ur_advance u k w) = rv_pend v w - cqe_keys (take k (rv_cq v w)))"

lemma uring_lawsD:
  assumes "uring_laws os u v n"
  shows "cqe_keys (rv_cq v w) \<subseteq># rv_pend v w"
    and "c \<in> set (rv_cq v w) \<Longrightarrow> \<exists>r. (cqe_user_data c, r) \<in># rv_reqs v w \<and> completes r c"
    and "os_socket os w = (fd, w') \<Longrightarrow> keeps_view v w w'"
    and "keeps_view v w (os_close os fd w)"
    and "ur_now u w = (t, w') \<Longrightarrow> keeps_view v w w'"
    and "rv_sq v w < n \<Longrightarrow> ur_get_sqe u w = (ok, w') \<Longrightarrow> ok"
    and "ur_get_sqe u w = (False, w') \<Longrightarrow> keeps_view v w w'"
    and "ur_get_sqe u w = (ok, w') \<Longrightarrow> rv_reqs v (ur_prep u k r w') = add_mset (k, r) (rv_reqs v w) \<and>
      rv_sq v (ur_prep u k r w') = Suc (rv_sq v w) \<and> (\<exists>new. rv_cq v (ur_prep u k r w') = rv_cq v w @ new)"
    and "rv_sq v (ur_submit u w) = 0" "rv_reqs v (ur_submit u w) = rv_reqs v w"
    and "ur_peek u m w = (cqes, w') \<Longrightarrow> keeps_view v w w' \<and> cqes = take m (rv_cq v w')"
    and "ur_wait u w = (t', w') \<Longrightarrow> keeps_view v w w'"
    and "ur_cqe_at u m w = (x, w') \<Longrightarrow>
      keeps_view v w w' \<and> x = (if m < length (rv_cq v w') then Some (rv_cq v w' ! m) else None)"
    and "m \<le> length (rv_cq v w) \<Longrightarrow> rv_reqs v (ur_advance u m w) \<subseteq># rv_reqs v w \<and>
      rv_pend v (ur_advance u m w) = rv_pend v w - cqe_keys (take m (rv_cq v w))"
proof -
  note laws = assms [unfolded uring_laws_def Let_def]
  show "cqe_keys (rv_cq v w) \<subseteq># rv_pend v w" "keeps_view v w (os_close os fd w)"
    "rv_sq v (ur_submit u w) = 0" "rv_reqs v (ur_submit u w) = rv_reqs v w"
    using laws by blast+
  show "c \<in> set (rv_cq v w) \<Longrightarrow> \<exists>r. (cqe_user_data c, r) \<in># rv_reqs v w \<and> completes r c"
    using laws by blast
  have "keeps_view v w (snd (os_socket os w))" "keeps_view v w (snd (ur_now u w))" "keeps_view v w (snd (ur_wait u w))"
    "rv_sq v w < n \<longrightarrow> fst (ur_get_sqe u w)" "\<not> fst (ur_get_sqe u w) \<longrightarrow> keeps_view v w (snd (ur_get_sqe u w))"
    "keeps_view v w (snd (ur_peek u m w))" "fst (ur_peek u m w) = take m (rv_cq v (snd (ur_peek u m w)))"
    using laws by blast+
  then show "os_socket os w = (fd, w') \<Longrightarrow> keeps_view v w w'" "ur_now u w = (t, w') \<Longrightarrow> keeps_view v w w'"
    "ur_wait u w = (t', w') \<Longrightarrow> keeps_view v w w'" "rv_sq v w < n \<Longrightarrow> ur_get_sqe u w = (ok, w') \<Longrightarrow> ok"
    "ur_get_sqe u w = (False, w') \<Longrightarrow> keeps_view v w w'"
    "ur_peek u m w = (cqes, w') \<Longrightarrow> keeps_view v w w' \<and> cqes = take m (rv_cq v w')"
    by auto
  have "rv_reqs v (ur_prep u k r (snd (ur_get_sqe u w))) = add_mset (k, r) (rv_reqs v w) \<and>
      rv_sq v (ur_prep u k r (snd (ur_get_sqe u w))) = Suc (rv_sq v w) \<and>
      (\<exists>new. rv_cq v (ur_prep u k r (snd (ur_get_sqe u w))) = rv_cq v w @ new)"
    using laws by blast
  then show "ur_get_sqe u w = (ok, w') \<Longrightarrow> rv_reqs v (ur_prep u k r w') = add_mset (k, r) (rv_reqs v w) \<and>
      rv_sq v (ur_prep u k r w') = Suc (rv_sq v w) \<and> (\<exists>new. rv_cq v (ur_prep u k r w') = rv_cq v w @ new)"
    by simp
  have "keeps_view v w (snd (ur_cqe_at u m w)) \<and> fst (ur_cqe_at u m w) =
      (if m < length (rv_cq v (snd (ur_cqe_at u m w))) then Some (rv_cq v (snd (ur_cqe_at u m w)) ! m) else None)"
    using laws unfolding prod.case by blast
  then show "ur_cqe_at u m w = (x, w') \<Longrightarrow>
      keeps_view v w w' \<and> x = (if m < length (rv_cq v w') then Some (rv_cq v w' ! m) else None)"
    by (metis fst_conv snd_conv)
  show "m \<le> length (rv_cq v w) \<Longrightarrow> rv_reqs v (ur_advance u m w) \<subseteq># rv_reqs v w \<and>
      rv_pend v (ur_advance u m w) = rv_pend v w - cqe_keys (take m (rv_cq v w))"
    using laws by blast
qed

lemma keeps_viewD:
  assumes "keeps_view v w w'"
  shows "rv_reqs v w' = rv_reqs v w" "rv_sq v w' = rv_sq v w" "\<exists>new. rv_cq v w' = rv_cq v w @ new"
    "rv_pend v w' = rv_pend v w"
  using assms by (simp_all add: keeps_view_def rv_pend_def)

lemma uring_pend:
  assumes "uring_laws os u v n"
  shows "ur_get_sqe u w = (ok, w') \<Longrightarrow> rv_pend v (ur_prep u k r w') = add_mset k (rv_pend v w)"
    "rv_pend v (ur_submit u w) = rv_pend v w"
  using uring_lawsD(8,10) [OF assms] by (simp_all add: rv_pend_def)

lemma cqe_keys_simps [simp]:
  "cqe_keys [] = {#}" "cqe_keys (c # cs) = add_mset (cqe_user_data c) (cqe_keys cs)"
  "cqe_keys (xs @ ys) = cqe_keys xs + cqe_keys ys"
  by (simp_all add: cqe_keys_def)

subsection \<open>A scripted ring\<close>

text \<open>A ring for examples: every submitted request completes at once, with the next of the given
  results (1, with one byte, when they are used up), as far as it fits the request and of at most 100
  bytes.  At most 256 completions are visible at a time; the clock advances half a second with every reading.\<close>

record ring_script =
  rs_sq :: "(nat \<times> ring_request) list"
  rs_cq :: "((nat \<times> ring_request) \<times> int \<times> byte list) list"
  rs_results :: "(int \<times> byte list) list"
  rs_clock :: nat

fun script_complete :: "(nat \<times> ring_request) list \<Rightarrow> (int \<times> byte list) list \<Rightarrow>
    ((nat \<times> ring_request) \<times> int \<times> byte list) list" where
  "script_complete [] rs = []"
| "script_complete (q # qs) [] = (q, 1, [65]) # script_complete qs []"
| "script_complete (q # qs) (r # rs) = (q, r) # script_complete qs rs"

fun script_cqe :: "(nat \<times> ring_request) \<times> int \<times> byte list \<Rightarrow> ring_cqe" where
  "script_cqe ((k, PrepRecv fd n), res, bs) =
     (if res < 0 then \<lparr>cqe_user_data = k, cqe_res = res, cqe_data = []\<rparr>
      else let bs = take (min n 100) bs in \<lparr>cqe_user_data = k, cqe_res = int (length bs), cqe_data = bs\<rparr>)"
| "script_cqe ((k, _), res, bs) = \<lparr>cqe_user_data = k, cqe_res = res, cqe_data = []\<rparr>"

definition script_visible :: "ring_script \<Rightarrow> ring_cqe list" where
  "script_visible w = map script_cqe (take 256 (rs_cq w))"

definition script_ring :: "ring_script uring" where
  "script_ring = \<lparr>ur_init = (\<lambda>n w. w), ur_get_sqe = (\<lambda>w. (True, w)),
     ur_prep = (\<lambda>k r w. w\<lparr>rs_sq := rs_sq w @ [(k, r)]\<rparr>),
     ur_submit = (\<lambda>w. w\<lparr>rs_sq := [], rs_cq := rs_cq w @ script_complete (rs_sq w) (rs_results w),
       rs_results := drop (length (rs_sq w)) (rs_results w)\<rparr>),
     ur_peek = (\<lambda>n w. (take n (script_visible w), w)), ur_wait = (\<lambda>w. (0, w)),
     ur_cqe_at = (\<lambda>k w. (if k < length (script_visible w) then Some (script_visible w ! k) else None, w)),
     ur_advance = (\<lambda>n w. w\<lparr>rs_cq := drop (min 256 n) (rs_cq w)\<rparr>), ur_exit = (\<lambda>w. w),
     ur_now = (\<lambda>w. (rs_clock w, w\<lparr>rs_clock := rs_clock w + 500\<rparr>))\<rparr>"

definition script_view :: "ring_script ring_view" where
  "script_view = \<lparr>rv_reqs = (\<lambda>w. mset (rs_sq w) + mset (map fst (rs_cq w))), rv_cq = script_visible,
     rv_sq = (\<lambda>w. length (rs_sq w))\<rparr>"

definition script_sockets :: "ring_script os" where
  "script_sockets = \<lparr>os_socket = (\<lambda>w. (3, w)), os_close = (\<lambda>fd w. w),
     os_getfl = (\<lambda>fd w. (2, w)), os_setfl = (\<lambda>fd v w. w),
     os_reuseaddr = (\<lambda>fd w. w), os_sndtimeo = (\<lambda>fd t w. w), os_inet_aton = (\<lambda>str. None),
     os_bind = (\<lambda>fd a w. (Done (), w)), os_listen = (\<lambda>fd n w. (Done (), w)),
     os_accept = (\<lambda>fd w. (Done 5, w)), os_connect = (\<lambda>fd a w. (Done (), w)),
     os_recv = (\<lambda>fd n w. (Errno EWOULDBLOCK, w)), os_send = (\<lambda>fd bs w. (Done (length bs), w)),
     os_epoll_create = (\<lambda>w. (4, w)), os_epoll_add = (\<lambda>ep fd ev w. (Done (), w)),
     os_epoll_mod = (\<lambda>ep fd ev w. (Done (), w)), os_epoll_del = (\<lambda>ep fd w. (Done (), w)),
     os_epoll_wait = (\<lambda>ep n w. (Done [], w))\<rparr>"

definition script_start :: "(int \<times> byte list) list \<Rightarrow> ring_script" where
  "script_start results = \<lparr>rs_sq = [], rs_cq = [], rs_results = results, rs_clock = 0\<rparr>"

lemma script_cqe_key [simp]: "cqe_user_data (script_cqe x) = fst (fst x)"
  by (induction x rule: script_cqe.induct) (simp_all add: Let_def)

lemma script_cqe_completes: "completes (snd (fst x)) (script_cqe x)"
  by (induction x rule: script_cqe.induct) (auto simp: completes_def Let_def min_def)

lemma script_complete_fst [simp]: "map fst (script_complete qs rs) = qs"
  by (induction qs rs rule: script_complete.induct) simp_all

lemma script_complete_mset [simp]: "image_mset fst (mset (script_complete qs rs)) = mset qs"
  by (simp flip: mset_map)

lemma script_visible_keys: "cqe_keys (take k (script_visible w)) = mset (map fst (take k (map fst (take 256 (rs_cq w)))))"
  by (simp add: cqe_keys_def script_visible_def take_map comp_def)

lemma script_laws: "uring_laws script_sockets script_ring script_view n"
proof -
  have split: "mset xs = mset (take k xs) + mset (drop k xs)" for xs :: "'b list" and k
    by (simp flip: mset_append)
  have reqs: "rv_pend script_view w = mset (map fst (rs_sq w)) + mset (map fst (map fst (rs_cq w)))" for w
    by (simp add: rv_pend_def script_view_def multiset.map_comp)
  have keys: "cqe_keys (rv_cq script_view w) \<subseteq># rv_pend script_view w" for w
  proof -
    have "cqe_keys (rv_cq script_view w) = mset (map fst (map fst (take 256 (rs_cq w))))"
      using script_visible_keys [of 256 w] by (simp add: script_view_def script_visible_def)
    moreover have "mset (map fst (map fst (rs_cq w))) = mset (map fst (map fst (take 256 (rs_cq w)))) +
        mset (map fst (map fst (drop 256 (rs_cq w))))"
      using arg_cong [OF split [of "rs_cq w" 256], of "\<lambda>m. image_mset fst (image_mset fst m)"]
      by (simp add: multiset.map_comp)
    ultimately show ?thesis unfolding reqs by simp
  qed
  have comp: "\<exists>r. (cqe_user_data c, r) \<in># rv_reqs script_view w \<and> completes r c" if "c \<in> set (rv_cq script_view w)" for c w
  proof -
    have "c \<in> script_cqe ` set (rs_cq w)"
      using that by (auto simp: script_view_def script_visible_def dest: in_set_takeD)
    then obtain x where x: "x \<in> set (rs_cq w)" "c = script_cqe x" by blast
    then show ?thesis
      using script_cqe_completes [of x] by (auto simp: script_view_def intro!: exI [of _ "snd (fst x)"])
  qed
  have adv: "rv_reqs script_view (ur_advance script_ring k w) \<subseteq># rv_reqs script_view w \<and>
      rv_pend script_view (ur_advance script_ring k w) = rv_pend script_view w - cqe_keys (take k (rv_cq script_view w))"
    if "k \<le> length (rv_cq script_view w)" for k w
  proof
    have k: "min 256 k = k" using that by (simp add: script_view_def script_visible_def)
    let ?cq = "map fst (rs_cq w)"
    have parts: "mset ?cq = mset (take k ?cq) + mset (drop k ?cq)" by (rule split)
    then show "rv_reqs script_view (ur_advance script_ring k w) \<subseteq># rv_reqs script_view w"
      by (simp add: script_ring_def script_view_def k drop_map)
    have keys_k: "cqe_keys (take k (rv_cq script_view w)) = mset (map fst (take k ?cq))"
      using script_visible_keys [of k w] k by (simp add: script_view_def take_map min.commute)
    have "mset (map fst ?cq) = mset (map fst (take k ?cq)) + mset (map fst (drop k ?cq))"
      using parts by (metis image_mset_union mset_map)
    then show "rv_pend script_view (ur_advance script_ring k w) = rv_pend script_view w - cqe_keys (take k (rv_cq script_view w))"
      unfolding reqs keys_k by (simp add: script_ring_def k drop_map)
  qed
  have mono: "\<exists>new. script_visible (w\<lparr>rs_cq := rs_cq w @ xs\<rparr>) = script_visible w @ new" for w xs
    by (simp add: script_visible_def)
  show ?thesis
    unfolding uring_laws_def
  proof (intro conjI allI impI ballI, goal_cases)
    case (1 w) show ?case by (rule keys)
  next
    case (2 w c) then show ?case by (rule comp)
  next
    case (15 k w) then show ?case using adv by blast
  next
    case (16 k w) then show ?case using adv by blast
  qed (simp_all add: script_sockets_def script_ring_def script_view_def keeps_view_def Let_def script_visible_def)
qed

text \<open>No more than 256 completions are visible.\<close>

lemma script_bounded: "length (rv_cq script_view w) \<le> 256"
  by (simp add: script_view_def script_visible_def)

lemma script_short: "c \<in> set (rv_cq script_view w) \<Longrightarrow> length (cqe_data c) < 2048"
proof -
  have "length (cqe_data (script_cqe x)) \<le> 100" for x
    by (induction x rule: script_cqe.induct) (auto simp: Let_def min_def)
  moreover assume "c \<in> set (rv_cq script_view w)"
  then obtain x where "c = script_cqe x" by (auto simp: script_view_def script_visible_def)
  ultimately have "length (cqe_data c) \<le> 100" by simp
  then show "length (cqe_data c) < 2048" by simp
qed

end
