(* ===== verification/QpsTool.thy ===== *)
theory QpsTool
  imports Uring
begin

text \<open>
  qpsTool/main.cpp: a load generator over io_uring, on the ring of theory Uring.  An
  \<open>EventContext*\<close> is the number of the context among those allocated, which is also its key in
  \<open>eventContextPool\<close>; what a receive leaves in a buffer is not modelled, no statement reads it.
  \<open>getopt\<close> is the function from the argument vector to the options it returns with their
  \<open>optarg\<close>.  Output is left out, except for the final report.
\<close>

subsection \<open>Data\<close>

datatype qps_mode = Amount | Time

record qps_config =
  cf_ip :: uint
  cf_port :: "16 word"
  cf_clSize :: uint
  cf_requestSize :: int
  cf_durationTime :: int
  cf_msgSize :: uint
  cf_mode :: "qps_mode option"
  cf_msg :: "byte list"

text \<open>The member initialisers; \<open>mode\<close> has none and starts indeterminate (\<open>None\<close>).  The bytes
  of \<open>msg\<close> are those before its terminating 0.\<close>

definition default_config :: qps_config where
  "default_config = \<lparr>cf_ip = 0, cf_port = 0, cf_clSize = 0, cf_requestSize = - 1, cf_durationTime = - 1,
     cf_msgSize = 64, cf_mode = None,
     cf_msg = lit ''abcdefghigklmnopqrstuvwxyz1234567890abcdefghigklmnopqrstuvwxyz'' @ [9]\<rparr>"

datatype context_type = UNDEF | ACCEPT | CONNECT | RECV | SEND

record event_context =
  cx_key :: int
  cx_type :: context_type
  cx_fd :: int
  cx_buffer :: "byte list"

record 'w qps =
  q_pool :: "event_context list"
  q_free :: "bool list"
  q_clSockets :: "int list"
  q_finished :: int
  q_overTime :: uint
  q_world :: 'w

subsection \<open>The command line\<close>

type_synonym option_list = "(char \<times> byte list) list"

fun initConfig :: "option_list \<Rightarrow> qps_config \<Rightarrow> (bool \<times> qps_config) option" where
  "initConfig [] config = Some (True, config)"
| "initConfig ((ret, optarg) # opts) config =
     (if ret = CHR ''c'' then do { n \<leftarrow> arg_atoi optarg; initConfig opts (config\<lparr>cf_clSize := of_int n\<rparr>) }
      else if ret = CHR ''s'' then
        (if cf_requestSize config \<noteq> - 1 then Some (False, config)
         else do { n \<leftarrow> arg_atoi optarg; initConfig opts (config\<lparr>cf_requestSize := n, cf_mode := Some Amount\<rparr>) })
      else if ret = CHR ''t'' then
        (if cf_durationTime config \<noteq> - 1 then Some (False, config)
         else do { n \<leftarrow> arg_atoi optarg; initConfig opts (config\<lparr>cf_durationTime := n, cf_mode := Some Time\<rparr>) })
      else if ret = CHR ''b'' then do { n \<leftarrow> arg_atoi optarg; initConfig opts (config\<lparr>cf_msgSize := of_int n\<rparr>) }
      else initConfig opts config)"

subsection \<open>The pool of contexts\<close>

definition new_EventContext :: "int \<Rightarrow> event_context" where
  "new_EventContext i = \<lparr>cx_key = i, cx_type = UNDEF, cx_fd = 0, cx_buffer = replicate 2048 0\<rparr>"

text \<open>The bound of the loop is an \<open>unsigned int\<close> and wraps; its counter is an \<open>int\<close>, which
  overflows when the bound is above its range.\<close>

definition make_pool :: "uint \<Rightarrow> (event_context list \<times> bool list) option" where
  "make_pool clSize = (let n = unat (clSize + 10)
     in if 2147483648 \<le> n then None
        else Some (map (\<lambda>i. new_EventContext (int i)) [0..<n], replicate n True))"

fun first_free :: "nat \<Rightarrow> bool list \<Rightarrow> nat option" where
  "first_free i [] = None"
| "first_free i (b # bs) = (if b then Some i else first_free (Suc i) bs)"

definition getEventContext :: "'w qps \<Rightarrow> (nat option \<times> 'w qps) outcome" where
  "getEventContext s = (case first_free 0 (q_free s) of
     None \<Rightarrow> Some (Inr (None, s))
   | Some i \<Rightarrow>
       (if i < length (q_pool s) then Some (Inr (Some i, s\<lparr>q_free := (q_free s)[i := False]\<rparr>))
        else Some (Inl OutOfRange)))"

text \<open>A context through a pointer.\<close>

definition get_context :: "'w qps \<Rightarrow> nat \<Rightarrow> event_context option" where
  "get_context s p = (if p < length (q_pool s) then Some (q_pool s ! p) else None)"

definition set_context :: "nat \<Rightarrow> (event_context \<Rightarrow> event_context) \<Rightarrow> 'w qps \<Rightarrow> 'w qps option" where
  "set_context p f s = map_option (\<lambda>c. s\<lparr>q_pool := (q_pool s)[p := f c]\<rparr>) (get_context s p)"

definition putEventContext :: "nat option \<Rightarrow> 'w qps \<Rightarrow> 'w qps option" where
  "putEventContext event s = (case event of None \<Rightarrow> Some s
   | Some p \<Rightarrow> do {
       s \<leftarrow> set_context p (\<lambda>c. c\<lparr>cx_fd := - 1, cx_type := UNDEF, cx_buffer := replicate 2048 0\<rparr>) s;
       c \<leftarrow> get_context s p;
       if 0 \<le> cx_key c \<and> nat (cx_key c) < length (q_free s)
       then Some (s\<lparr>q_free := (q_free s)[nat (cx_key c) := True]\<rparr>) else None
     })"

subsection \<open>Requests\<close>

definition setReadEvent :: "'w uring option \<Rightarrow> nat option \<Rightarrow> int \<Rightarrow> 'w qps \<Rightarrow> 'w qps option" where
  "setReadEvent ring context fd s = (case ring of None \<Rightarrow> Some s
   | Some u \<Rightarrow> (case ur_get_sqe u (q_world s) of (sqe, w) \<Rightarrow>
       let s = s\<lparr>q_world := w\<rparr>
       in if \<not> sqe then Some s else do {
         p \<leftarrow> context;
         s \<leftarrow> set_context p (\<lambda>c. c\<lparr>cx_type := RECV, cx_fd := fd\<rparr>) s;
         Some (s\<lparr>q_world := ur_prep u p (PrepRecv fd 2048) (q_world s)\<rparr>)
       }))"

definition setSendEvent ::
    "'w uring option \<Rightarrow> nat option \<Rightarrow> int \<Rightarrow> byte list \<Rightarrow> 'w qps \<Rightarrow> 'w qps option" where
  "setSendEvent ring context fd msg s = (case ring of None \<Rightarrow> Some s
   | Some u \<Rightarrow> (case ur_get_sqe u (q_world s) of (sqe, w) \<Rightarrow>
       let s = s\<lparr>q_world := w\<rparr>
       in if \<not> sqe then Some s else do {
         p \<leftarrow> context;
         c \<leftarrow> get_context s p;
         if length (cx_buffer c) < length msg then None else do {
           s \<leftarrow> set_context p (\<lambda>c. c\<lparr>cx_type := SEND, cx_fd := fd,
             cx_buffer := msg @ drop (length msg) (cx_buffer c)\<rparr>) s;
           Some (s\<lparr>q_world := ur_prep u p (PrepSend fd msg) (q_world s)\<rparr>)
         }
       }))"

definition setConnectEvent :: "'w uring \<Rightarrow> sockaddr_in \<Rightarrow> int \<Rightarrow> 'w qps \<Rightarrow> 'w qps outcome" where
  "setConnectEvent u serverAddr fd s = bind_outcome (getEventContext s) (\<lambda>(context, s).
     case context of None \<Rightarrow> Some (Inr s)
     | Some p \<Rightarrow> bind_outcome (lift (set_context p (\<lambda>c. c\<lparr>cx_fd := fd, cx_type := CONNECT\<rparr>) s)) (\<lambda>s.
         case ur_get_sqe u (q_world s) of (sqe, w) \<Rightarrow>
           Some (Inr (s\<lparr>q_world := if sqe then ur_prep u p (PrepConnect fd serverAddr) w else w\<rparr>))))"

subsection \<open>The test\<close>

fun connect_clients :: "'w os \<Rightarrow> 'w uring \<Rightarrow> sockaddr_in \<Rightarrow> nat \<Rightarrow> 'w qps \<Rightarrow> 'w qps outcome" where
  "connect_clients os u serverAddr 0 s = Some (Inr s)"
| "connect_clients os u serverAddr (Suc n) s = (case os_socket os (q_world s) of (fd, w) \<Rightarrow>
     bind_outcome (setConnectEvent u serverAddr fd (s\<lparr>q_world := w\<rparr>)) (\<lambda>s.
       connect_clients os u serverAddr n (s\<lparr>q_clSockets := q_clSockets s @ [fd]\<rparr>)))"

definition qps_setup :: "'w os \<Rightarrow> 'w uring \<Rightarrow> qps_config \<Rightarrow> 'w \<Rightarrow> (nat \<times> 'w qps) outcome" where
  "qps_setup os u config w =
     (let serverAddr = \<lparr>sin_addr = cf_ip config, sin_port = cf_port config\<rparr>
      in bind_outcome (lift (make_pool (cf_clSize config))) (\<lambda>(pool, free).
        bind_outcome (connect_clients os u serverAddr (unat (cf_clSize config))
          \<lparr>q_pool = pool, q_free = free, q_clSockets = [], q_finished = 0, q_overTime = 0, q_world = w\<rparr>) (\<lambda>s.
        case ur_now u (q_world s) of (startTime, w) \<Rightarrow>
          Some (Inr (startTime, s\<lparr>q_world := ur_submit u w\<rparr>)))))"

text \<open>\<open>finished\<close>: \<open>overTime\<close> is an \<open>unsigned int\<close>, and so is the comparison.\<close>

definition qps_finished :: "'w uring \<Rightarrow> qps_config \<Rightarrow> nat \<Rightarrow> 'w qps \<Rightarrow> (bool \<times> 'w qps) option" where
  "qps_finished u config startTime s = do {
     mode \<leftarrow> cf_mode config;
     (case mode of
        Time \<Rightarrow> (case ur_now u (q_world s) of (now, w) \<Rightarrow>
          let s = s\<lparr>q_world := w, q_overTime := of_nat ((now - startTime) div 1000)\<rparr>
          in Some (of_int (cf_durationTime config) \<le> q_overTime s, s))
      | Amount \<Rightarrow> Some (cf_requestSize config \<le> q_finished s, s))
   }"

text \<open>The branches of the switch, before the context goes back to the pool.\<close>

definition qps_switch :: "'w uring \<Rightarrow> qps_config \<Rightarrow> event_context \<Rightarrow> 'w qps \<Rightarrow> 'w qps outcome" where
  "qps_switch u config e s = (case cx_type e of
     CONNECT \<Rightarrow> bind_outcome (getEventContext s) (\<lambda>(context, s).
       lift (setSendEvent (Some u) context (cx_fd e) (cf_msg config) s))
   | RECV \<Rightarrow>
       (if q_finished s = 2147483647 then None
        else bind_outcome (getEventContext (s\<lparr>q_finished := q_finished s + 1\<rparr>)) (\<lambda>(context, s).
          lift (setSendEvent (Some u) context (cx_fd e) (cf_msg config) s)))
   | SEND \<Rightarrow> bind_outcome (getEventContext s) (\<lambda>(context, s).
       lift (setReadEvent (Some u) context (cx_fd e) s))
   | _ \<Rightarrow> Some (Inr s))"

definition qps_event :: "'w os \<Rightarrow> 'w uring \<Rightarrow> qps_config \<Rightarrow> ring_cqe \<Rightarrow> 'w qps \<Rightarrow> 'w qps outcome" where
  "qps_event os u config cqe s =
     (let eventContext = cqe_user_data cqe
      in bind_outcome (lift (get_context s eventContext)) (\<lambda>e.
        if cqe_res cqe < 0
        then lift (putEventContext (Some eventContext) (s\<lparr>q_world := os_close os (cx_fd e) (q_world s)\<rparr>))
        else bind_outcome (qps_switch u config e s) (\<lambda>s. lift (putEventContext (Some eventContext) s))))"

fun qps_events :: "'w os \<Rightarrow> 'w uring \<Rightarrow> qps_config \<Rightarrow> ring_cqe list \<Rightarrow> 'w qps \<Rightarrow> 'w qps outcome" where
  "qps_events os u config [] s = Some (Inr s)"
| "qps_events os u config (cqe # cqes) s =
     bind_outcome (qps_event os u config cqe s) (\<lambda>s. qps_events os u config cqes s)"

definition qps_round :: "'w os \<Rightarrow> 'w uring \<Rightarrow> qps_config \<Rightarrow> 'w qps \<Rightarrow> 'w qps outcome" where
  "qps_round os u config s = (case ur_peek u 1024 (q_world s) of (cqes, w) \<Rightarrow>
     bind_outcome (qps_events os u config cqes (s\<lparr>q_world := w\<rparr>)) (\<lambda>s.
       Some (Inr (s\<lparr>q_world := ur_submit u (ur_advance u (length cqes) (q_world s))\<rparr>))))"

partial_function (option) qps_loop ::
    "'w os \<Rightarrow> 'w uring \<Rightarrow> qps_config \<Rightarrow> nat \<Rightarrow> 'w qps \<Rightarrow> 'w qps outcome" where
  "qps_loop os u config startTime s = bind_outcome (lift (qps_finished u config startTime s)) (\<lambda>(over, s).
     if over then Some (Inr s)
     else bind_outcome (qps_round os u config s) (\<lambda>s. qps_loop os u config startTime s))"

declare qps_loop.simps [code]

text \<open>What is printed at the end: \<open>faild\<close>, or the time, the count and their quotient, an
  \<open>unsigned int\<close>.\<close>

datatype qps_report = Faild | Report uint int uint

definition qps_result :: "'w qps \<Rightarrow> qps_report" where
  "qps_result s = (if q_overTime s = 0 then Faild
     else Report (q_overTime s) (q_finished s) (of_int (q_finished s) div q_overTime s))"

definition startTest :: "'w os \<Rightarrow> 'w uring \<Rightarrow> qps_config \<Rightarrow> 'w \<Rightarrow> (qps_report \<times> 'w) outcome" where
  "startTest os u config w = bind_outcome (qps_setup os u config w) (\<lambda>(startTime, s).
     bind_outcome (qps_loop os u config startTime s) (\<lambda>s. Some (Inr (qps_result s, q_world s))))"

text \<open>\<open>main\<close>: the exit code and the report.  The address stays 0 when \<open>inet_aton\<close> refuses it;
  the mode is read before the test.\<close>

definition qps_main ::
    "'w os \<Rightarrow> 'w uring \<Rightarrow> (byte list list \<Rightarrow> option_list) \<Rightarrow> byte list list \<Rightarrow> 'w \<Rightarrow>
     (int \<times> qps_report option \<times> 'w) outcome" where
  "qps_main os u getopt argv w =
     (if length argv < 6 then Some (Inr (- 1, None, w))
      else bind_outcome (lift (arg_atoi (argv ! 2))) (\<lambda>port.
        let config = default_config\<lparr>
          cf_ip := (case os_inet_aton os (argv ! 1) of None \<Rightarrow> 0 | Some a \<Rightarrow> a),
          cf_port := net_short (of_int port)\<rparr>
        in bind_outcome (lift (initConfig (getopt (drop 2 argv)) config)) (\<lambda>(ok, config).
          if \<not> ok then Some (Inr (- 1, None, w))
          else bind_outcome (lift (cf_mode config)) (\<lambda>_.
            bind_outcome (startTest os u config (ur_init u (cf_clSize config) w)) (\<lambda>(r, w).
              Some (Inr (0, Some r, ur_exit u w)))))))"

text \<open>The mode is that of the last \<open>-s\<close> or \<open>-t\<close>; without either, \<open>main\<close> reads an
  indeterminate value.\<close>

lemma initConfig_mode:
  "initConfig opts config = Some (True, config') \<Longrightarrow>
   cf_mode config' = fold (\<lambda>(c, _) m. if c = CHR ''s'' then Some Amount else if c = CHR ''t'' then Some Time else m)
     opts (cf_mode config)"
  by (induction opts config rule: initConfig.induct) (auto simp: bind_eq_Some_conv split: if_splits)

lemma qps_main_without_mode:
  assumes "6 \<le> length argv" "initConfig (getopt (drop 2 argv)) (default_config\<lparr>cf_ip := a, cf_port := p\<rparr>) = Some (True, config)"
    and "\<forall>(c, _)\<in>set (getopt (drop 2 argv)). c \<noteq> CHR ''s'' \<and> c \<noteq> CHR ''t''"
    and "a = (case os_inet_aton os (argv ! 1) of None \<Rightarrow> 0 | Some a \<Rightarrow> a)" "arg_atoi (argv ! 2) = Some n"
      "p = net_short (of_int n)"
  shows "qps_main os u getopt argv w = None"
proof -
  have "fold (\<lambda>(c, _) m. if c = CHR ''s'' then Some Amount else if c = CHR ''t'' then Some Time else m) opts m = m"
    if "\<forall>(c, _)\<in>set opts. c \<noteq> CHR ''s'' \<and> c \<noteq> CHR ''t''" for opts :: option_list and m
    using that by (induction opts) auto
  then have "cf_mode config = None"
    using initConfig_mode [OF assms(2)] assms(3) by (simp add: default_config_def)
  then show ?thesis using assms by (simp add: qps_main_def Let_def)
qed

subsection \<open>The pool against the ring\<close>

definition in_use :: "'w qps \<Rightarrow> nat set" where
  "in_use s = {i. i < length (q_free s) \<and> \<not> q_free s ! i}"

definition pool_ok :: "nat \<Rightarrow> 'w qps \<Rightarrow> bool" where
  "pool_ok m s \<longleftrightarrow> length (q_pool s) = m \<and> length (q_free s) = m \<and>
     (\<forall>i<m. cx_key (q_pool s ! i) = int i \<and> length (cx_buffer (q_pool s ! i)) = 2048)"

text \<open>Between two rounds the contexts in use are exactly those of the requests in flight, at most one
  for every client.\<close>

definition qps_inv :: "'w ring_view \<Rightarrow> nat \<Rightarrow> nat \<Rightarrow> 'w qps \<Rightarrow> bool" where
  "qps_inv v n m s \<longleftrightarrow> pool_ok m s \<and> card (in_use s) \<le> n \<and>
     rv_pend v (q_world s) = mset_set (in_use s) \<and> rv_sq v (q_world s) = 0"

lemma finite_in_use [simp]: "finite (in_use s)"
  by (simp add: in_use_def)

lemma in_use_less: "pool_ok m s \<Longrightarrow> i \<in> in_use s \<Longrightarrow> i < m"
  by (simp add: in_use_def pool_ok_def)

lemma in_use_updates:
  assumes "i < length (q_free s)"
  shows "in_use (s\<lparr>q_free := (q_free s)[i := False]\<rparr>) = insert i (in_use s)"
    "in_use (s\<lparr>q_free := (q_free s)[i := True]\<rparr>) = in_use s - {i}"
  using assms by (auto simp: in_use_def nth_list_update)

lemma first_free_None: "first_free k bs = None \<longleftrightarrow> True \<notin> set bs"
  by (induction k bs rule: first_free.induct) auto

lemma first_free_Some: "first_free k bs = Some i \<Longrightarrow> k \<le> i \<and> i - k < length bs \<and> bs ! (i - k)"
  by (induction k bs rule: first_free.induct) (auto simp: nth_Cons' split: if_splits)

lemma getEventContext_free:
  assumes "pool_ok m s" "card (in_use s) < m"
  obtains i where "i < m" "i \<notin> in_use s"
    "getEventContext s = Some (Inr (Some i, s\<lparr>q_free := (q_free s)[i := False]\<rparr>))"
proof -
  have "\<not> {0..<m} \<subseteq> in_use s"
    using assms(2) card_mono [OF finite_in_use, of "{0..<m}" s] by auto
  then have "True \<in> set (q_free s)"
    using assms(1) by (auto simp: in_use_def pool_ok_def in_set_conv_nth)
  then obtain i where i: "first_free 0 (q_free s) = Some i" using first_free_None by fastforce
  show ?thesis
    using that [of i] first_free_Some [OF i] i assms(1) by (auto simp: in_use_def pool_ok_def getEventContext_def)
qed

lemma pool_ok_updates:
  assumes "pool_ok m s"
  shows "pool_ok m (s\<lparr>q_free := (q_free s)[i := b]\<rparr>)"
    "pool_ok m (s\<lparr>q_world := w\<rparr>)" "pool_ok m (s\<lparr>q_finished := k\<rparr>)"
    "(\<And>c. cx_key (f c) = cx_key c) \<Longrightarrow> (\<And>c. length (cx_buffer c) = 2048 \<Longrightarrow> length (cx_buffer (f c)) = 2048) \<Longrightarrow>
     i < m \<Longrightarrow> set_context i f s = Some s' \<Longrightarrow> pool_ok m s'"
  using assms by (auto simp: pool_ok_def set_context_def get_context_def nth_list_update split: if_splits)

lemma set_context_simps:
  assumes "pool_ok m s" "p < m"
  shows "get_context s p = Some (q_pool s ! p)"
    "set_context p f s = Some (s\<lparr>q_pool := (q_pool s)[p := f (q_pool s ! p)]\<rparr>)"
  using assms by (simp_all add: pool_ok_def set_context_def get_context_def)

lemma in_use_frame [simp]:
  "in_use (s\<lparr>q_pool := p\<rparr>) = in_use s" "in_use (s\<lparr>q_world := w\<rparr>) = in_use s"
  "in_use (s\<lparr>q_finished := k\<rparr>) = in_use s" "in_use (s\<lparr>q_overTime := t\<rparr>) = in_use s"
  "in_use (s\<lparr>q_clSockets := c\<rparr>) = in_use s"
  by (simp_all add: in_use_def)

lemma putEventContext_ok:
  assumes "pool_ok m s" "p < m"
  obtains s' where "putEventContext (Some p) s = Some s'" "pool_ok m s'" "in_use s' = in_use s - {p}"
    "q_world s' = q_world s" "q_finished s' = q_finished s"
proof -
  let ?f = "\<lambda>c. c\<lparr>cx_fd := - 1, cx_type := UNDEF, cx_buffer := replicate 2048 0\<rparr>"
  let ?s = "s\<lparr>q_pool := (q_pool s)[p := ?f (q_pool s ! p)]\<rparr>"
  have s: "set_context p ?f s = Some ?s" by (rule set_context_simps(2) [OF assms])
  have ok: "pool_ok m ?s" by (rule pool_ok_updates(4) [OF assms(1) _ _ assms(2) s]) auto
  have p: "p < length (q_free ?s)" "p < length (q_pool s)" "cx_key (q_pool s ! p) = int p"
    using assms by (auto simp: pool_ok_def)
  have "putEventContext (Some p) s = Some (?s\<lparr>q_free := (q_free ?s)[p := True]\<rparr>)"
    using p s by (simp add: putEventContext_def set_context_simps(1) [OF ok assms(2)])
  then show ?thesis
    by (rule that) (use pool_ok_updates(1) [OF ok, of p True] in_use_updates(2) [OF p(1)] in simp_all)
qed

text \<open>A request prepared on a context that was free.\<close>

definition took :: "'w ring_view \<Rightarrow> nat \<Rightarrow> nat \<Rightarrow> 'w qps \<Rightarrow> 'w qps \<Rightarrow> bool" where
  "took v m i s s' \<longleftrightarrow> pool_ok m s' \<and> in_use s' = insert i (in_use s) \<and> i \<notin> in_use s \<and> i < m \<and>
     rv_pend v (q_world s') = add_mset i (rv_pend v (q_world s)) \<and>
     rv_sq v (q_world s') = Suc (rv_sq v (q_world s)) \<and>
     (\<exists>new. rv_cq v (q_world s') = rv_cq v (q_world s) @ new) \<and> q_finished s' = q_finished s"

lemma tookI:
  assumes "uring_laws os u v n" "pool_ok m s" "i < m" "i \<notin> in_use s"
    and "ur_get_sqe u (q_world s) = (ok, w)"
    and "\<And>c. cx_key (f c) = cx_key c" "\<And>c. length (cx_buffer c) = 2048 \<Longrightarrow> length (cx_buffer (f c)) = 2048"
  shows "took v m i s (s\<lparr>q_free := (q_free s)[i := False], q_pool := (q_pool s)[i := f (q_pool s ! i)],
      q_world := ur_prep u i r w\<rparr>)"
proof -
  let ?s = "s\<lparr>q_free := (q_free s)[i := False]\<rparr>"
  have ok: "pool_ok m ?s" by (rule pool_ok_updates(1) [OF assms(2)])
  have "pool_ok m (?s\<lparr>q_pool := (q_pool ?s)[i := f (q_pool ?s ! i)]\<rparr>)"
    by (rule pool_ok_updates(4) [OF ok assms(6,7,3) set_context_simps(2) [OF ok assms(3)]])
  then show ?thesis
    using uring_lawsD(8) [OF assms(1,5), of i r] uring_pend(1) [OF assms(1,5), of i r] assms(2,3,4) in_use_updates(1) [of i s]
    by (simp add: took_def pool_ok_def)
qed

lemma setSendEvent_took:
  assumes laws: "uring_laws os u v n" and s: "pool_ok m s" "i < m" "i \<notin> in_use s"
    and sq: "rv_sq v (q_world s) < n" and msg: "length msg \<le> 2048"
  obtains s' where "setSendEvent (Some u) (Some i) fd msg (s\<lparr>q_free := (q_free s)[i := False]\<rparr>) = Some s'"
    "took v m i s s'"
proof -
  obtain ok w where w: "ur_get_sqe u (q_world s) = (ok, w)" by (cases "ur_get_sqe u (q_world s)")
  have ok: ok by (rule uring_lawsD(6) [OF laws sq w])
  have p: "pool_ok m (s\<lparr>q_free := (q_free s)[i := False], q_world := w\<rparr>)"
    using pool_ok_updates(2) [OF pool_ok_updates(1) [OF s(1)]] by simp
  have "length (cx_buffer (q_pool s ! i)) = 2048" using s by (simp add: pool_ok_def)
  then have "setSendEvent (Some u) (Some i) fd msg (s\<lparr>q_free := (q_free s)[i := False]\<rparr>) = Some
      (s\<lparr>q_free := (q_free s)[i := False], q_pool := (q_pool s)[i := (\<lambda>c. c\<lparr>cx_type := SEND, cx_fd := fd,
         cx_buffer := msg @ drop (length msg) (cx_buffer c)\<rparr>) (q_pool s ! i)],
       q_world := ur_prep u i (PrepSend fd msg) w\<rparr>)"
    using ok w msg by (simp add: setSendEvent_def set_context_simps [OF p s(2)])
  from this show ?thesis by (rule that) (rule tookI [OF laws s w], use msg in auto)
qed

lemma setReadEvent_took:
  assumes laws: "uring_laws os u v n" and s: "pool_ok m s" "i < m" "i \<notin> in_use s"
    and sq: "rv_sq v (q_world s) < n"
  obtains s' where "setReadEvent (Some u) (Some i) fd (s\<lparr>q_free := (q_free s)[i := False]\<rparr>) = Some s'"
    "took v m i s s'"
proof -
  obtain ok w where w: "ur_get_sqe u (q_world s) = (ok, w)" by (cases "ur_get_sqe u (q_world s)")
  have ok: ok by (rule uring_lawsD(6) [OF laws sq w])
  have p: "pool_ok m (s\<lparr>q_free := (q_free s)[i := False], q_world := w\<rparr>)"
    using pool_ok_updates(2) [OF pool_ok_updates(1) [OF s(1)]] by simp
  have "setReadEvent (Some u) (Some i) fd (s\<lparr>q_free := (q_free s)[i := False]\<rparr>) = Some
      (s\<lparr>q_free := (q_free s)[i := False], q_pool := (q_pool s)[i := (\<lambda>c. c\<lparr>cx_type := RECV, cx_fd := fd\<rparr>)
         (q_pool s ! i)], q_world := ur_prep u i (PrepRecv fd 2048) w\<rparr>)"
    using ok w by (simp add: setReadEvent_def set_context_simps [OF p s(2)])
  from this show ?thesis by (rule that) (rule tookI [OF laws s w], auto)
qed

text \<open>The switch prepares one request on a fresh context, or none.\<close>

lemma qps_switch_ok:
  assumes laws: "uring_laws os u v n" and s: "pool_ok m s" "card (in_use s) < m"
    and sq: "rv_sq v (q_world s) < n" and msg: "length (cf_msg config) \<le> 2048"
    and fin: "q_finished s < 2147483647"
  shows "\<exists>s'. qps_switch u config e s = Some (Inr s') \<and>
    (s' = s \<or> (\<exists>i k. took v m i (s\<lparr>q_finished := k\<rparr>) s' \<and> q_finished s \<le> k \<and> k \<le> q_finished s + 1))"
proof -
  obtain i where i: "i < m" "i \<notin> in_use s"
    and get: "getEventContext s = Some (Inr (Some i, s\<lparr>q_free := (q_free s)[i := False]\<rparr>))"
    by (rule getEventContext_free [OF s])
  let ?s = "s\<lparr>q_finished := q_finished s + 1\<rparr>"
  have get': "getEventContext ?s = Some (Inr (Some i, ?s\<lparr>q_free := (q_free ?s)[i := False]\<rparr>))"
    using get by (auto simp: getEventContext_def split: option.splits if_splits)
  have s': "pool_ok m ?s" "i \<notin> in_use ?s" "rv_sq v (q_world ?s) < n"
    using pool_ok_updates(3) [OF s(1)] i sq by simp_all
  show ?thesis
  proof (cases "cx_type e")
    case CONNECT
    obtain t where "setSendEvent (Some u) (Some i) (cx_fd e) (cf_msg config) (s\<lparr>q_free := (q_free s)[i := False]\<rparr>) = Some t"
      "took v m i s t" by (rule setSendEvent_took [OF laws s(1) i sq msg])
    with get CONNECT show ?thesis by (auto simp: qps_switch_def intro!: exI [of _ i] exI [of _ "q_finished s"])
  next
    case SEND
    obtain t where "setReadEvent (Some u) (Some i) (cx_fd e) (s\<lparr>q_free := (q_free s)[i := False]\<rparr>) = Some t"
      "took v m i s t" by (rule setReadEvent_took [OF laws s(1) i sq])
    with get SEND show ?thesis by (auto simp: qps_switch_def intro!: exI [of _ i] exI [of _ "q_finished s"])
  next
    case RECV
    obtain t where "setSendEvent (Some u) (Some i) (cx_fd e) (cf_msg config) (?s\<lparr>q_free := (q_free ?s)[i := False]\<rparr>) = Some t"
      "took v m i ?s t" by (rule setSendEvent_took [OF laws s'(1) i(1) s'(2,3) msg])
    with get' RECV fin show ?thesis by (auto simp: qps_switch_def intro!: exI [of _ i] exI [of _ "q_finished s + 1"])
  qed (simp_all add: qps_switch_def)
qed

text \<open>The state after some of the completions of a batch: \<open>D\<close> are the user data of those
  already handled, whose contexts are back in the pool although the queue still holds them.\<close>

definition mid_batch :: "'w ring_view \<Rightarrow> nat \<Rightarrow> nat \<Rightarrow> nat multiset \<Rightarrow> 'w qps \<Rightarrow> bool" where
  "mid_batch v n m D s \<longleftrightarrow> pool_ok m s \<and> card (in_use s) \<le> n \<and>
     rv_pend v (q_world s) = mset_set (in_use s) + D \<and> rv_sq v (q_world s) \<le> size D"

lemma qps_event_ok:
  assumes laws: "uring_laws os u v n" and n: "n < m" and msg: "length (cf_msg config) \<le> 2048"
    and s: "mid_batch v n m D s" "size D < n" and fin: "q_finished s < 2147483647"
    and key: "cqe_user_data c \<in> in_use s"
  obtains s' where "qps_event os u config c s = Some (Inr s')" "mid_batch v n m (add_mset (cqe_user_data c) D) s'"
    "in_use s - {cqe_user_data c} \<subseteq> in_use s'" "q_finished s \<le> q_finished s'" "q_finished s' \<le> q_finished s + 1"
    "\<exists>new. rv_cq v (q_world s') = rv_cq v (q_world s) @ new"
proof -
  let ?k = "cqe_user_data c"
  have pool: "pool_ok m s" and card: "card (in_use s) < m" "card (in_use s) \<le> n"
    and pend: "rv_pend v (q_world s) = mset_set (in_use s) + D"
    and sq: "rv_sq v (q_world s) \<le> size D" "rv_sq v (q_world s) < n"
    using s n by (auto simp: mid_batch_def)
  have k: "?k < m" by (rule in_use_less [OF pool key])
  have U: "mset_set (in_use s) = add_mset ?k (mset_set (in_use s - {?k}))"
    using key by (simp add: mset_set.remove)
  have cardU: "card (in_use s - {?k}) = card (in_use s) - 1" "0 < card (in_use s)"
    using key by (auto simp: card_gt_0_iff)
  note get = set_context_simps(1) [OF pool k]
  let ?e = "q_pool s ! ?k"
  show ?thesis
  proof (cases "cqe_res c < 0")
    case True
    let ?s = "s\<lparr>q_world := os_close os (cx_fd ?e) (q_world s)\<rparr>"
    obtain t where t: "putEventContext (Some ?k) ?s = Some t" "pool_ok m t" "in_use t = in_use ?s - {?k}"
      "q_world t = q_world ?s" "q_finished t = q_finished ?s"
      by (rule putEventContext_ok [OF pool_ok_updates(2) [OF pool] k])
    show ?thesis
      by (rule that [of t])
        (use t True get keeps_viewD [OF uring_lawsD(4) [OF laws, of "q_world s" "cx_fd ?e"]] pend sq card U cardU in
          \<open>auto simp: qps_event_def mid_batch_def\<close>)
  next
    case False
    obtain t where t: "qps_switch u config ?e s = Some (Inr t)"
      "t = s \<or> (\<exists>i j. took v m i (s\<lparr>q_finished := j\<rparr>) t \<and> q_finished s \<le> j \<and> j \<le> q_finished s + 1)"
      using qps_switch_ok [OF laws pool card(1) sq(2) msg fin] by blast
    from t(2) have "pool_ok m t" using pool by (auto simp: took_def)
    then obtain r where r: "putEventContext (Some ?k) t = Some r" "pool_ok m r" "in_use r = in_use t - {?k}"
      "q_world r = q_world t" "q_finished r = q_finished t"
      by (rule putEventContext_ok [OF _ k])
    have ev: "qps_event os u config c s = Some (Inr r)" using False get t(1) r(1) by (simp add: qps_event_def)
    from t(2) show ?thesis
    proof (elim disjE exE conjE)
      assume "t = s"
      then show ?thesis by (intro that [OF ev]) (use r pend sq card U cardU in \<open>auto simp: mid_batch_def\<close>)
    next
      fix i j
      assume took: "took v m i (s\<lparr>q_finished := j\<rparr>) t" and j: "q_finished s \<le> j" "j \<le> q_finished s + 1"
      then have i: "i \<notin> in_use s" "i \<noteq> ?k" using key by (auto simp: took_def)
      then have "insert i (in_use s) - {?k} = insert i (in_use s - {?k})" by auto
      then show ?thesis
        by (intro that [OF ev]) (use r took i j pend sq card U cardU in \<open>auto simp: mid_batch_def took_def\<close>)
    qed
  qed
qed

lemma qps_events_ok:
  assumes laws: "uring_laws os u v n" and n: "n < m" and msg: "length (cf_msg config) \<le> 2048"
    and "mid_batch v n m D s" "size D + length cqes \<le> n" "q_finished s + int (length cqes) \<le> 2147483647"
    and "cqe_keys cqes \<subseteq># mset_set (in_use s)"
  shows "\<exists>s'. qps_events os u config cqes s = Some (Inr s') \<and> mid_batch v n m (D + cqe_keys cqes) s' \<and>
    q_finished s \<le> q_finished s' \<and> (\<exists>new. rv_cq v (q_world s') = rv_cq v (q_world s) @ new)"
  using assms(4-)
proof (induction cqes arbitrary: D s)
  case Nil
  then show ?case by (simp add: cqe_keys_def)
next
  case (Cons c cs)
  let ?k = "cqe_user_data c"
  have sub: "add_mset ?k (cqe_keys cs) \<subseteq># mset_set (in_use s)" using Cons.prems(4) by (simp add: cqe_keys_def)
  then have key: "?k \<in> in_use s" using mset_subset_eqD [OF sub, of ?k] by simp
  then have "mset_set (in_use s) = add_mset ?k (mset_set (in_use s - {?k}))" by (simp add: mset_set.remove)
  then have rest: "cqe_keys cs \<subseteq># mset_set (in_use s - {?k})" using sub by simp
  obtain t where t: "qps_event os u config c s = Some (Inr t)" "mid_batch v n m (add_mset ?k D) t"
    "in_use s - {?k} \<subseteq> in_use t" "q_finished s \<le> q_finished t" "q_finished t \<le> q_finished s + 1"
    "\<exists>new. rv_cq v (q_world t) = rv_cq v (q_world s) @ new"
    by (rule qps_event_ok [OF laws n msg Cons.prems(1) _ _ key]) (use Cons.prems in auto)
  have "cqe_keys cs \<subseteq># mset_set (in_use t)"
    by (rule subset_mset.order_trans [OF rest]) (use t(3) in \<open>simp add: subset_imp_msubset_mset_set\<close>)
  then obtain r where "qps_events os u config cs t = Some (Inr r)" "mid_batch v n m (add_mset ?k D + cqe_keys cs) r"
    "q_finished t \<le> q_finished r" "\<exists>new. rv_cq v (q_world r) = rv_cq v (q_world t) @ new"
    using Cons.IH [OF t(2)] Cons.prems(2,3) t(5) by auto
  with t show ?case by (auto simp: cqe_keys_def)
qed

lemma qps_round_ok:
  assumes laws: "uring_laws os u v n" and n: "n < m" and msg: "length (cf_msg config) \<le> 2048"
    and inv: "qps_inv v n m s" and fin: "q_finished s + int n \<le> 2147483647"
  obtains s' where "qps_round os u config s = Some (Inr s')" "qps_inv v n m s'" "q_finished s \<le> q_finished s'"
proof -
  obtain cqes w where peek: "ur_peek u 1024 (q_world s) = (cqes, w)" by (cases "ur_peek u 1024 (q_world s)")
  have w: "keeps_view v (q_world s) w" "cqes = take 1024 (rv_cq v w)" using uring_lawsD(11) [OF laws peek] by auto
  have "cqe_keys cqes + cqe_keys (drop 1024 (rv_cq v w)) = cqe_keys (rv_cq v w)"
    unfolding w(2) cqe_keys_def by (metis append_take_drop_id map_append mset_append)
  then have sub: "cqe_keys cqes \<subseteq># mset_set (in_use s)"
    using uring_lawsD(1) [OF laws, of w] keeps_viewD(4) [OF w(1)] inv
    by (metis (no_types, lifting) mset_subset_eq_add_left qps_inv_def subset_mset.order_trans)
  then have len: "length cqes \<le> n"
    using size_mset_mono [OF sub] inv by (simp add: cqe_keys_def qps_inv_def)
  have mid: "mid_batch v n m {#} (s\<lparr>q_world := w\<rparr>)"
    using inv keeps_viewD [OF w(1)] by (simp add: qps_inv_def mid_batch_def pool_ok_updates(2))
  obtain t where t: "qps_events os u config cqes (s\<lparr>q_world := w\<rparr>) = Some (Inr t)"
    "mid_batch v n m (cqe_keys cqes) t" "q_finished s \<le> q_finished t"
    "\<exists>new. rv_cq v (q_world t) = rv_cq v w @ new"
    using qps_events_ok [OF laws n msg mid, of cqes] len fin sub by auto
  obtain new where new: "rv_cq v (q_world t) = cqes @ new"
    using t(4) w(2) by (metis append_assoc append_take_drop_id)
  then have k: "length cqes \<le> length (rv_cq v (q_world t))" "take (length cqes) (rv_cq v (q_world t)) = cqes"
    by simp_all
  let ?w = "ur_advance u (length cqes) (q_world t)"
  have "rv_pend v (ur_submit u ?w) = mset_set (in_use t)" "rv_sq v (ur_submit u ?w) = 0"
    using uring_lawsD(9) [OF laws, of ?w] uring_pend(2) [OF laws, of ?w] uring_lawsD(14) [OF laws k(1)] k(2) t(2) by (simp_all add: mid_batch_def)
  then have "qps_inv v n m (t\<lparr>q_world := ur_submit u ?w\<rparr>)"
    using t(2) by (simp add: qps_inv_def mid_batch_def pool_ok_updates(2))
  then show ?thesis using that peek t by (simp add: qps_round_def)
qed

subsection \<open>The start\<close>

lemma setConnectEvent_took:
  assumes laws: "uring_laws os u v n" and s: "pool_ok m s" "card (in_use s) < m" and sq: "rv_sq v (q_world s) < n"
  obtains s' i where "setConnectEvent u a fd s = Some (Inr s')" "took v m i s s'"
proof -
  obtain i where i: "i < m" "i \<notin> in_use s"
    and get: "getEventContext s = Some (Inr (Some i, s\<lparr>q_free := (q_free s)[i := False]\<rparr>))"
    by (rule getEventContext_free [OF s])
  obtain ok w where w: "ur_get_sqe u (q_world s) = (ok, w)" by (cases "ur_get_sqe u (q_world s)")
  have ok: ok by (rule uring_lawsD(6) [OF laws sq w])
  have "setConnectEvent u a fd s = Some (Inr (s\<lparr>q_free := (q_free s)[i := False],
      q_pool := (q_pool s)[i := (\<lambda>c. c\<lparr>cx_fd := fd, cx_type := CONNECT\<rparr>) (q_pool s ! i)],
      q_world := ur_prep u i (PrepConnect fd a) w\<rparr>))"
    using ok w get by (simp add: setConnectEvent_def set_context_simps [OF pool_ok_updates(1) [OF s(1)] i(1)])
  from this show ?thesis by (rule that) (rule tookI [OF laws s(1) i w], auto)
qed

lemma connect_clients_ok:
  assumes laws: "uring_laws os u v n" and n: "n \<le> m"
    and "pool_ok m s" "card (in_use s) + k \<le> n" "rv_pend v (q_world s) = mset_set (in_use s)"
      "rv_sq v (q_world s) = card (in_use s)" "length (q_clSockets s) = card (in_use s)"
  shows "\<exists>s'. connect_clients os u a k s = Some (Inr s') \<and> pool_ok m s' \<and> card (in_use s') = card (in_use s) + k \<and>
    rv_pend v (q_world s') = mset_set (in_use s') \<and> length (q_clSockets s') = card (in_use s') \<and>
    q_finished s' = q_finished s"
  using assms(3-)
proof (induction k arbitrary: s)
  case (Suc k)
  obtain fd w where w: "os_socket os (q_world s) = (fd, w)" by (cases "os_socket os (q_world s)")
  note view = keeps_viewD [OF uring_lawsD(3) [OF laws w]]
  obtain t i where t: "setConnectEvent u a fd (s\<lparr>q_world := w\<rparr>) = Some (Inr t)" "took v m i (s\<lparr>q_world := w\<rparr>) t"
    by (rule setConnectEvent_took [OF laws, of m "s\<lparr>q_world := w\<rparr>"])
      (use Suc.prems n view in \<open>auto simp: pool_ok_updates(2)\<close>)
  have sockets: "q_clSockets t = q_clSockets s"
    using t(1) by (auto simp: setConnectEvent_def getEventContext_def set_context_def get_context_def
      split: option.splits if_splits prod.splits)
  let ?t = "t\<lparr>q_clSockets := q_clSockets t @ [fd]\<rparr>"
  have "pool_ok m ?t" using t(2) by (simp add: took_def pool_ok_def)
  moreover have "card (in_use ?t) + k \<le> n" "card (in_use ?t) = Suc (card (in_use s))" "q_finished ?t = q_finished s"
    "rv_pend v (q_world ?t) = mset_set (in_use ?t)" "rv_sq v (q_world ?t) = card (in_use ?t)"
    "length (q_clSockets ?t) = card (in_use ?t)"
    using t(2) Suc.prems view sockets by (simp_all add: took_def)
  ultimately obtain r where "connect_clients os u a k ?t = Some (Inr r)" "pool_ok m r"
    "card (in_use r) = card (in_use s) + Suc k" "rv_pend v (q_world r) = mset_set (in_use r)"
    "length (q_clSockets r) = card (in_use r)" "q_finished r = q_finished s"
    using Suc.IH [of ?t] by auto
  then show ?case using t(1) w by simp
qed simp

lemma qps_setup_ok:
  assumes laws: "uring_laws os u v (unat (cf_clSize config))" and small: "unat (cf_clSize config) + 10 < 2147483648"
    and fresh: "rv_pend v w = {#}" "rv_sq v w = 0"
  obtains t s where "qps_setup os u config w = Some (Inr (t, s))"
    "qps_inv v (unat (cf_clSize config)) (unat (cf_clSize config) + 10) s" "q_finished s = 0"
proof -
  let ?n = "unat (cf_clSize config)"
  have m: "unat (cf_clSize config + 10) = ?n + 10" using small by (subst unat_add_small) simp_all
  let ?pool = "map (\<lambda>i. new_EventContext (int i)) [0..<?n + 10]" and ?free = "replicate (?n + 10) True"
  let ?s = "\<lparr>q_pool = ?pool, q_free = ?free, q_clSockets = [], q_finished = 0, q_overTime = 0, q_world = w\<rparr>"
  have "pool_ok (?n + 10) ?s" by (auto simp: pool_ok_def new_EventContext_def simp del: upt_Suc)
  moreover have empty: "in_use ?s = {}" by (auto simp: in_use_def)
  ultimately obtain s where s: "connect_clients os u \<lparr>sin_addr = cf_ip config, sin_port = cf_port config\<rparr> ?n ?s
      = Some (Inr s)" "pool_ok (?n + 10) s" "card (in_use s) = ?n" "rv_pend v (q_world s) = mset_set (in_use s)"
      "q_finished s = 0"
    using connect_clients_ok [OF laws, of "?n + 10" ?s ?n] fresh by force
  obtain t w' where now: "ur_now u (q_world s) = (t, w')" by (cases "ur_now u (q_world s)")
  note view = keeps_viewD [OF uring_lawsD(5) [OF laws now]]
  show ?thesis
  proof (rule that)
    show "qps_setup os u config w = Some (Inr (t, s\<lparr>q_world := ur_submit u w'\<rparr>))"
      using s(1) now small unfolding qps_setup_def make_pool_def Let_def m by (simp del: upt_Suc)
    show "qps_inv v ?n (?n + 10) (s\<lparr>q_world := ur_submit u w'\<rparr>)"
      using s view uring_lawsD(9) [OF laws, of w'] uring_pend(2) [OF laws, of w'] by (simp add: qps_inv_def pool_ok_updates(2))
  qed (use s in simp)
qed

subsection \<open>The states of a test\<close>

inductive qps_reaches :: "'w os \<Rightarrow> 'w uring \<Rightarrow> qps_config \<Rightarrow> nat \<Rightarrow> 'w qps \<Rightarrow> 'w qps \<Rightarrow> bool"
  for os u config startTime where
  qps_first: "qps_reaches os u config startTime s s"
| qps_next: "qps_reaches os u config startTime s t \<Longrightarrow> qps_finished u config startTime t = Some (False, t') \<Longrightarrow>
    qps_round os u config t' = Some (Inr r) \<Longrightarrow> qps_reaches os u config startTime s r"

lemma qps_finished_inv:
  assumes "uring_laws os u v n" "qps_finished u config startTime s = Some (over, s')" "qps_inv v n m s"
  shows "qps_inv v n m s'" "q_finished s' = q_finished s"
proof -
  from assms(2) obtain mode where "cf_mode config = Some mode" by (auto simp: qps_finished_def bind_eq_Some_conv)
  then have "s' = s \<or> (\<exists>t w x. ur_now u (q_world s) = (t, w) \<and> s' = s\<lparr>q_world := w, q_overTime := x\<rparr>)"
    using assms(2) by (cases mode) (auto simp: qps_finished_def Let_def split: prod.splits)
  then show "qps_inv v n m s'" "q_finished s' = q_finished s"
    using assms(3) keeps_viewD [OF uring_lawsD(5) [OF assms(1)]] by (auto simp: qps_inv_def pool_ok_def)
qed


lemma qps_event_frame:
  assumes "qps_event os u config c s = Some (Inr s')"
  shows "q_overTime s' = q_overTime s \<and> q_finished s \<le> q_finished s'"
proof -
  have get: "q_overTime y = q_overTime x \<and> q_finished y = q_finished x"
    if "getEventContext x = Some (Inr (p, y))" for p and x y :: "'a qps"
    using that by (auto simp: getEventContext_def split: option.splits if_splits)
  have set_c: "q_overTime y = q_overTime x \<and> q_finished y = q_finished x"
    if "set_context p f x = Some y" for p f and x y :: "'a qps"
    using that by (auto simp: set_context_def)
  have req: "q_overTime y = q_overTime x \<and> q_finished y = q_finished x"
    if "setSendEvent r p fd msg x = Some y \<or> setReadEvent r p fd x = Some y" for r p fd msg and x y :: "'a qps"
    using that
    by (auto simp: setSendEvent_def setReadEvent_def bind_eq_Some_conv Let_def dest!: set_c
        split: option.splits prod.splits if_splits)
  have switch: "q_overTime y = q_overTime x \<and> q_finished x \<le> q_finished y"
    if "qps_switch u config e x = Some (Inr y)" for e and x y :: "'a qps"
    using that
    by (cases "cx_type e")
      (auto simp: qps_switch_def bind_outcome_eq_Inr lift_def dest!: get req [OF disjI1] req [OF disjI2] split: if_splits)
  have put: "q_overTime y = q_overTime x \<and> q_finished y = q_finished x"
    if "putEventContext p x = Some y" for p and x y :: "'a qps"
    using that by (auto simp: putEventContext_def bind_eq_Some_conv dest!: set_c split: option.splits if_splits)
  show ?thesis
    using assms
    by (auto simp: qps_event_def Let_def bind_outcome_eq_Inr lift_def dest!: switch put split: if_splits)
qed

lemma qps_events_frame:
  "qps_events os u config cqes s = Some (Inr s') \<Longrightarrow> q_overTime s' = q_overTime s \<and> q_finished s \<le> q_finished s'"
  by (induction cqes arbitrary: s) (auto simp: bind_outcome_eq_Inr dest!: qps_event_frame, force)

lemma qps_round_frame:
  "qps_round os u config s = Some (Inr s') \<Longrightarrow> q_overTime s' = q_overTime s \<and> q_finished s \<le> q_finished s'"
  by (auto simp: qps_round_def bind_outcome_eq_Inr split: prod.splits dest!: qps_events_frame)

lemma qps_reaches_inv:
  assumes laws: "uring_laws os u v n" and n: "n < m" and msg: "length (cf_msg config) \<le> 2048"
    and "qps_reaches os u config startTime s t" "qps_inv v n m s"
    and "q_finished t + int n \<le> 2147483647"
  shows "qps_inv v n m t"
  using assms(4-)
proof (induction)
  case (qps_next s t t' r)
  have "q_finished t' \<le> q_finished r" using qps_round_frame [OF qps_next.hyps(3)] by simp
  moreover obtain over where over: "qps_finished u config startTime t = Some (over, t')" using qps_next.hyps by blast
  have "q_finished t' = q_finished t"
    using over by (cases "cf_mode config") (auto simp: qps_finished_def Let_def split: qps_mode.splits prod.splits)
  ultimately have bound: "q_finished t + int n \<le> 2147483647" "q_finished t' + int n \<le> 2147483647"
    using qps_next.prems by auto
  have "qps_inv v n m t'" by (rule qps_finished_inv(1) [OF laws over qps_next.IH]) (use qps_next.prems bound in auto)
  then obtain r' where "qps_round os u config t' = Some (Inr r')" "qps_inv v n m r'"
    using qps_round_ok [OF laws n msg _ bound(2)] by blast
  with qps_next.hyps(3) show ?case by simp
qed

subsection \<open>Examples\<close>

definition example_config :: qps_config where
  "example_config = default_config\<lparr>cf_clSize := 1, cf_requestSize := 0, cf_mode := Some Amount\<rparr>"

definition timed_config :: qps_config where
  "timed_config = default_config\<lparr>cf_durationTime := 1, cf_mode := Some Time\<rparr>"

subsection \<open>Properties\<close>

text \<open>C17: a ring that completes a request at most once and always has an entry for one request per
  client never runs the pool of clients + 10 contexts dry: the start is defined, in every state that
  the test reaches the contexts in use are exactly those of the requests in flight, at most one for
  every client, and the next round is defined, as long as the counter of replies cannot overflow.\<close>

theorem qps_pool_suffices:
  assumes "uring_laws os u v (unat (cf_clSize config))" "rv_pend v w = {#}" "rv_sq v w = 0"
    and "unat (cf_clSize config) + 10 < 2147483648" "length (cf_msg config) \<le> 2048"
  shows "\<exists>t0 s0. qps_setup os u config w = Some (Inr (t0, s0)) \<and> (\<forall>s.
     qps_reaches os u config t0 s0 s \<longrightarrow> q_finished s + int (unat (cf_clSize config)) \<le> 2147483647 \<longrightarrow>
       rv_pend v (q_world s) = mset_set {i. i < length (q_free s) \<and> \<not> q_free s ! i} \<and>
       size (rv_pend v (q_world s)) \<le> unat (cf_clSize config) \<and>
       (\<forall>s'. qps_finished u config t0 s = Some (False, s') \<longrightarrow> (\<exists>r. qps_round os u config s' = Some (Inr r))))"
proof -
  let ?n = "unat (cf_clSize config)"
  have m: "?n < ?n + 10" by simp
  obtain t0 s0 where start: "qps_setup os u config w = Some (Inr (t0, s0))" "qps_inv v ?n (?n + 10) s0"
    by (rule qps_setup_ok [OF assms(1,4,2,3)])
  have "qps_inv v ?n (?n + 10) s" if "qps_reaches os u config t0 s0 s" "q_finished s + int ?n \<le> 2147483647" for s
    by (rule qps_reaches_inv [OF assms(1) m assms(5) that(1) start(2) that(2)])
  moreover have "\<exists>r. qps_round os u config s' = Some (Inr r)"
    if "qps_inv v ?n (?n + 10) s" "qps_finished u config t0 s = Some (False, s')" "q_finished s + int ?n \<le> 2147483647" for s s'
    using qps_round_ok [OF assms(1) m assms(5), of s'] qps_finished_inv [OF assms(1) that(2,1)] that(3) by metis
  ultimately show ?thesis using start(1) by (auto simp: qps_inv_def in_use_def)
qed

lemma qps_pool_suffices_witness:
  "\<exists>t0 s0. qps_setup script_sockets script_ring example_config (script_start []) = Some (Inr (t0, s0)) \<and> (\<forall>s.
     qps_reaches script_sockets script_ring example_config t0 s0 s \<longrightarrow> q_finished s + 1 \<le> 2147483647 \<longrightarrow>
       size (rv_pend script_view (q_world s)) \<le> 1)"
proof -
  have c: "unat (cf_clSize example_config) = 1" "length (cf_msg example_config) \<le> 2048"
    by (simp_all add: example_config_def default_config_def lit_def)
  have w: "rv_pend script_view (script_start []) = {#}" "rv_sq script_view (script_start []) = 0"
    by (simp_all add: rv_pend_def script_view_def script_start_def)
  show ?thesis
    using qps_pool_suffices [OF script_laws w, of example_config] c by auto
qed



lemma qps_loop_end:
  assumes "qps_loop os u config startTime s = Some (Inr s')"
  shows "(cf_mode config = Some Amount \<longrightarrow> q_overTime s' = q_overTime s) \<and>
    (cf_mode config = Some Time \<longrightarrow> of_int (cf_durationTime config) \<le> q_overTime s')"
proof -
  have "(cf_mode config = Some Amount \<longrightarrow> q_overTime s' = q_overTime s) \<and>
    (cf_mode config = Some Time \<longrightarrow> of_int (cf_durationTime config) \<le> q_overTime s')"
    if "r = Inr s'" "qps_loop os u config startTime s = Some r" for r
    using that(2,1)
  proof (induction rule: qps_loop.raw_induct [rotated, consumes 1, case_names step])
    case (step f os u config startTime s r)
    obtain over t where over: "qps_finished u config startTime s = Some (over, t)"
      using step.hyps(1) by (cases "qps_finished u config startTime s") (auto simp: lift_def)
    have t: "cf_mode config = Some Amount \<Longrightarrow> t = s"
      "cf_mode config = Some Time \<Longrightarrow> over \<Longrightarrow> of_int (cf_durationTime config) \<le> q_overTime t"
      using over by (auto simp: qps_finished_def Let_def split: prod.splits)
    show ?case
    proof (cases over)
      case True
      then show ?thesis using step t over by auto
    next
      case False
      then obtain x where x: "qps_round os u config t = Some (Inr x)" "f os u config startTime x = Some (Inr s')"
        using step over by (auto simp: bind_outcome_eq_Inr)
      show ?thesis using step.IH [OF x(2)] qps_round_frame [OF x(1)] t step.prems by auto
    qed
  qed
  then show ?thesis using assms by blast
qed

lemma qps_setup_overTime:
  fixes os :: "'a os"
  assumes "qps_setup os u config w = Some (Inr (t, s))"
  shows "q_overTime s = 0"
proof -
  have connect: "q_overTime y = q_overTime x" if "setConnectEvent u a fd x = Some (Inr y)" for a fd and x y :: "'a qps"
    using that by (auto simp: setConnectEvent_def getEventContext_def set_context_def get_context_def
      split: option.splits if_splits prod.splits)
  have clients: "q_overTime y = q_overTime x" if "connect_clients os u a n x = Some (Inr y)" for a n and x y :: "'a qps"
    using that by (induction n arbitrary: x) (auto simp: bind_outcome_eq_Inr split: prod.splits dest!: connect)
  from assms obtain p b a n x where x: "connect_clients os u a n \<lparr>q_pool = p, q_free = b, q_clSockets = [],
      q_finished = 0, q_overTime = 0, q_world = w\<rparr> = Some (Inr x)"
    "(case ur_now u (q_world x) of (t, w) \<Rightarrow> Some (Inr (t, x\<lparr>q_world := ur_submit u w\<rparr>))) =
      (Some (Inr (t, s)) :: (nat \<times> 'a qps) outcome)"
    by (auto simp: qps_setup_def Let_def bind_outcome_eq_Inr)
  from clients [OF x(1)] x(2) show ?thesis by (auto split: prod.splits)
qed

lemma qps_loop_steps:
  "qps_finished u config t s = Some (True, s') \<Longrightarrow> qps_loop os u config t s = Some (Inr s')"
  "qps_finished u config t s = Some (False, s') \<Longrightarrow> qps_round os u config s' = Some (Inr r) \<Longrightarrow>
   qps_loop os u config t s = qps_loop os u config t r"
  by (simp_all add: qps_loop.simps [of os u config t s])



end
