(* ===== verification/MemWords.thy ===== *)
theory MemWords
  imports Prelude
begin

text \<open>
  The object representation of a 16-bit and of a 32-bit number on a little-endian machine, which the
  DNS client, the Windows address class and the KCP wire format all work on byte by byte.
\<close>

unbundle bit_operations_syntax

type_synonym short = "16 word"

text \<open>The bytes of a number in memory, and back.\<close>

definition bytes16 :: "short \<Rightarrow> byte list" where
  "bytes16 w = [ucast w, ucast (drop_bit 8 w)]"

definition word16 :: "byte \<Rightarrow> byte \<Rightarrow> short" where
  "word16 b0 b1 = ucast b0 OR push_bit 8 (ucast b1)"

lemma word16_bytes [simp]: "word16 (ucast w) (ucast (drop_bit 8 w)) = w"
  by (rule bit_word_eqI) (auto simp: word16_def bit_simps)

definition word32 :: "byte \<Rightarrow> byte \<Rightarrow> byte \<Rightarrow> byte \<Rightarrow> uint" where
  "word32 b0 b1 b2 b3 =
     ucast b0 OR push_bit 8 (ucast b1) OR push_bit 16 (ucast b2) OR push_bit 24 (ucast b3)"

definition bytes32 :: "uint \<Rightarrow> byte list" where
  "bytes32 w = [ucast w, ucast (drop_bit 8 w), ucast (drop_bit 16 w), ucast (drop_bit 24 w)]"

lemma byte_bit_less: "bit (b :: byte) n \<Longrightarrow> n < 8"
  by (auto dest: bit_imp_le_length)

lemma word32_bytes:
  "word32 (ucast w) (ucast (drop_bit 8 w)) (ucast (drop_bit 16 w)) (ucast (drop_bit 24 w)) = (w :: uint)"
proof (rule bit_word_eqI)
  fix n assume "n < LENGTH(32)"
  then consider "n < 8" | "8 \<le> n" "n < 16" | "16 \<le> n" "n < 24" | "24 \<le> n" "n < 32" by force
  then show "bit (word32 (ucast w) (ucast (drop_bit 8 w)) (ucast (drop_bit 16 w)) (ucast (drop_bit 24 w))) n =
      bit w n"
    by cases (auto simp: word32_def bit_simps)
qed

lemma bytes32_word32: "bytes32 (word32 b0 b1 b2 b3) = [b0, b1, b2, b3]"
proof -
  have "ucast (word32 b0 b1 b2 b3) = b0" "ucast (drop_bit 8 (word32 b0 b1 b2 b3)) = b1"
    "ucast (drop_bit 16 (word32 b0 b1 b2 b3)) = b2" "ucast (drop_bit 24 (word32 b0 b1 b2 b3)) = b3"
    by (rule bit_word_eqI; auto simp: word32_def bit_simps dest: byte_bit_less)+
  then show ?thesis by (simp add: bytes32_def)
qed

end
