(* ===== verification/Dns.thy ===== *)
theory Dns
  imports MemWords
begin

unbundle bit_operations_syntax

text \<open>
  DNS/DNSServe.cpp: the message a query sends, the parsing of the reply, \<open>DNSServe::query\<close> and
  \<open>Http::requestHttp\<close>.  A \<open>std::string\<close> is a byte list.  The host is little-endian (the
  sources build for Windows), so that \<open>htons\<close> swaps the bytes of a \<open>short\<close>.  The
  operating system is a set of arguments: the random id, whether the socket could be made, the bytes
  received, and \<open>inet_ntop\<close> as a function from four bytes to text.
\<close>


subsection \<open>Byte order\<close>

definition htons :: "short \<Rightarrow> short" where
  "htons w = push_bit 8 w OR drop_bit 8 w"

definition ntohs :: "short \<Rightarrow> short" where
  "ntohs w = htons w"

definition ntohl :: "uint \<Rightarrow> uint" where
  "ntohl w = push_bit 24 w OR (push_bit 8 (w AND 0xFF00)) OR (drop_bit 8 (w AND 0xFF0000)) OR drop_bit 24 w"

text \<open>Reads of a buffer at an offset: \<open>None\<close> outside of it.\<close>

definition byte_at :: "byte list \<Rightarrow> int \<Rightarrow> byte option" where
  "byte_at m k = (if 0 \<le> k \<and> k < int (length m) then Some (m ! nat k) else None)"

definition short_at :: "byte list \<Rightarrow> int \<Rightarrow> short option" where
  "short_at m k = do { b0 \<leftarrow> byte_at m k; b1 \<leftarrow> byte_at m (k + 1); Some (word16 b0 b1) }"

definition int_at :: "byte list \<Rightarrow> int \<Rightarrow> uint option" where
  "int_at m k = do {
     b0 \<leftarrow> byte_at m k; b1 \<leftarrow> byte_at m (k + 1); b2 \<leftarrow> byte_at m (k + 2); b3 \<leftarrow> byte_at m (k + 3);
     Some (word32 b0 b1 b2 b3)
   }"

subsection \<open>Header\<close>

record header =
  hd_id :: short
  hd_flags :: short
  hd_qdcount :: short
  hd_ancount :: short
  hd_nscount :: short
  hd_arcount :: short

definition header_default :: header where
  "header_default = \<lparr>hd_id = 0, hd_flags = 0, hd_qdcount = 0, hd_ancount = 0, hd_nscount = 0, hd_arcount = 0\<rparr>"

text \<open>\<open>getHeaderStr\<close> converts the members in place.\<close>

definition getHeaderStr :: "header \<Rightarrow> byte list \<times> header" where
  "getHeaderStr h =
     (let h = h\<lparr>hd_id := htons (hd_id h), hd_flags := htons (hd_flags h), hd_qdcount := htons (hd_qdcount h),
                hd_ancount := htons (hd_ancount h), hd_nscount := htons (hd_nscount h),
                hd_arcount := htons (hd_arcount h)\<rparr>
      in (bytes16 (hd_id h) @ bytes16 (hd_flags h) @ bytes16 (hd_qdcount h) @ bytes16 (hd_ancount h) @
          bytes16 (hd_nscount h) @ bytes16 (hd_arcount h), h))"

definition getHeaderFromChar :: "byte list \<Rightarrow> header option" where
  "getHeaderFromChar ch = do {
     i \<leftarrow> short_at ch 0;
     fl \<leftarrow> short_at ch 2;
     qd \<leftarrow> short_at ch 4;
     an \<leftarrow> short_at ch 6;
     ns \<leftarrow> short_at ch 8;
     ar \<leftarrow> short_at ch 10;
     Some \<lparr>hd_id = ntohs i, hd_flags = ntohs fl, hd_qdcount = ntohs qd, hd_ancount = ntohs an,
       hd_nscount = ntohs ns, hd_arcount = ntohs ar\<rparr>
   }"

subsection \<open>Question\<close>

record question =
  qs_qname :: "byte list"
  qs_qtype :: short
  qs_qclass :: short

definition substr :: "byte list \<Rightarrow> nat \<Rightarrow> nat \<Rightarrow> byte list" where
  "substr str pos n = take n (drop pos str)"

text \<open>The first loop: \<open>i\<close> runs over the name, \<open>pos\<close> is where the current label starts.\<close>

function name_loop :: "byte list \<Rightarrow> nat \<Rightarrow> nat \<Rightarrow> byte list list \<Rightarrow> nat \<times> byte list list" where
  "name_loop qname i pos nameVec =
     (if i < length qname then
        (if qname ! i = 46 then name_loop qname (i + 1) (i + 1) (nameVec @ [substr qname pos (i - pos)])
         else name_loop qname (i + 1) pos nameVec)
      else (pos, nameVec))"
  by pat_completeness auto
termination by (relation "measure (\<lambda>(qname, i, _). length qname - i)") auto

declare name_loop.simps [simp del]

text \<open>The second loop: the length is narrowed to a \<open>char\<close>.\<close>

definition put_label :: "byte list \<Rightarrow> byte list \<Rightarrow> byte list" where
  "put_label ret str = ret @ [of_nat (length str)] @ str"

definition getQuestionStr :: "question \<Rightarrow> byte list \<times> question" where
  "getQuestionStr q =
     (let (pos, nameVec) = name_loop (qs_qname q) 0 0 [];
          nameVec = nameVec @ [substr (qs_qname q) pos (length (qs_qname q) - pos)];
          ret = foldl put_label [] nameVec @ [0];
          q = q\<lparr>qs_qtype := htons (qs_qtype q), qs_qclass := htons (qs_qclass q)\<rparr>
      in (ret @ bytes16 (qs_qtype q) @ bytes16 (qs_qclass q), q))"

subsection \<open>Answers\<close>

record answer =
  an_type :: short
  an_class :: short
  an_ttl :: uint
  an_rdataLen :: short
  an_rdata :: "byte list"

text \<open>\<open>getAnswerFromChar\<close> reads the buffer \<open>m\<close> from \<open>base\<close> on; the test for a compressed
  name looks at the first byte of all answers each time.  \<open>inet_ntop\<close> reads four bytes.\<close>

function answer_loop :: "(byte list \<Rightarrow> byte list) \<Rightarrow> byte list \<Rightarrow> int \<Rightarrow> int \<Rightarrow> int \<Rightarrow> int \<Rightarrow> answer list option" where
  "answer_loop inet_ntop m base count i offset =
     (if i < count then do {
        c \<leftarrow> byte_at m base;
        offset \<leftarrow>
          (if c AND 0xC0 = 0xC0 then do { _ \<leftarrow> short_at m base; Some (offset + 2) } else Some offset);
        ty \<leftarrow> short_at m (base + offset);
        cl \<leftarrow> short_at m (base + offset + 2);
        tt \<leftarrow> int_at m (base + offset + 4);
        rl \<leftarrow> short_at m (base + offset + 8);
        let offset = offset + 10;
        b0 \<leftarrow> byte_at m (base + offset);
        b1 \<leftarrow> byte_at m (base + offset + 1);
        b2 \<leftarrow> byte_at m (base + offset + 2);
        b3 \<leftarrow> byte_at m (base + offset + 3);
        let an = \<lparr>an_type = ntohs ty, an_class = ntohs cl, an_ttl = ntohl tt, an_rdataLen = ntohs rl,
          an_rdata = inet_ntop [b0, b1, b2, b3]\<rparr>;
        ret \<leftarrow> answer_loop inet_ntop m base count (i + 1) (offset + sint (an_rdataLen an));
        Some (an # ret)
      } else Some [])"
  by pat_completeness auto
termination by (relation "measure (\<lambda>(_, _, _, count, i, _). nat (count - i))") auto

declare answer_loop.simps [simp del]

definition getAnswerFromChar :: "(byte list \<Rightarrow> byte list) \<Rightarrow> byte list \<Rightarrow> int \<Rightarrow> int \<Rightarrow> answer list option" where
  "getAnswerFromChar inet_ntop m base count = answer_loop inet_ntop m base count 0 0"

subsection \<open>query\<close>

record dns_ret =
  rt_vaild :: bool
  rt_ip :: "byte list"

text \<open>The message \<open>query\<close> sends for a name and an id.\<close>

definition query_message :: "byte list \<Rightarrow> short \<Rightarrow> byte list" where
  "query_message domainName i =
     fst (getHeaderStr (header_default\<lparr>hd_id := i, hd_flags := 0x0100, hd_qdcount := 1\<rparr>)) @
     fst (getQuestionStr \<lparr>qs_qname = domainName, qs_qtype = 1, qs_qclass = 1\<rparr>)"

text \<open>\<open>received\<close>: what \<open>recv\<close> writes into the buffer of 10240 zeros; its result is not
  looked at.\<close>

definition dns_query ::
    "(byte list \<Rightarrow> byte list) \<Rightarrow> byte list \<Rightarrow> short \<Rightarrow> bool \<Rightarrow> byte list \<Rightarrow> dns_ret list option" where
  "dns_query inet_ntop domainName i haveSocket received =
     (let msg = query_message domainName i in
      if \<not> haveSocket then Some []
      else do {
        let reMsg = take 10240 received @ replicate (10240 - length received) 0;
        reHeader \<leftarrow> getHeaderFromChar reMsg;
        if hd_id reHeader \<noteq> i \<and> hd_flags reHeader \<noteq> 0x0101 then Some []
        else do {
          answerVec \<leftarrow> getAnswerFromChar inet_ntop reMsg (int (length msg)) (sint (hd_ancount reHeader));
          Some (map (\<lambda>var. \<lparr>rt_vaild = True, rt_ip = an_rdata var\<rparr>) answerVec)
        }
      })"

subsection \<open>Http\<close>

definition crlf :: "byte list" where
  "crlf = [13, 10]"

definition http_request_text :: "byte list \<Rightarrow> byte list \<Rightarrow> byte list" where
  "http_request_text host content =
     lit ''GET '' @ content @ lit '' HTTP/1.1'' @ crlf @
     lit ''Host: '' @ host @ crlf @
     lit ''User-Agent: Mozilla/5.0 (Windows NT 10.0; Win64; x64)'' @ crlf @
     lit ''Accept:text/html, application/xhtml+xml'' @ crlf @
     lit ''Accept-Language: en-US, en; q=0.9'' @ crlf @
     lit ''Connection:close'' @ crlf @
     crlf"

text \<open>The receiving loop ends at the first result that is not positive; \<open>recvs\<close> are the
  results in order, a chunk of at most 1024 bytes each (\<open>None\<close>: an error).\<close>

fun http_receive :: "byte list option list \<Rightarrow> byte list \<Rightarrow> byte list" where
  "http_receive (Some c # recvs) retContent =
     (if c \<noteq> [] then http_receive recvs (retContent @ c) else retContent)"
| "http_receive _ retContent = retContent"

text \<open>\<open>resolved\<close>: what \<open>getaddrinfo\<close> found; its failure is not checked.  The result is
  what is sent, if anything, and the new \<open>retContent\<close>.\<close>

definition requestHttp ::
    "uint option \<Rightarrow> bool \<Rightarrow> byte list option list \<Rightarrow> byte list \<Rightarrow> byte list \<Rightarrow> byte list \<Rightarrow>
     (byte list option \<times> byte list) option" where
  "requestHttp resolved haveSocket recvs host content retContent =
     (if \<not> haveSocket then Some (None, retContent)
      else case resolved of None \<Rightarrow> None
        | Some a \<Rightarrow> Some (Some (http_request_text host content), http_receive recvs retContent))"

subsection \<open>Bytes and words\<close>

lemma htons_htons [simp]: "htons (htons w) = w"
  by (rule bit_word_eqI) (auto simp: htons_def bit_simps)

lemma ntohs_htons [simp]: "ntohs (htons w) = w"
  by (simp add: ntohs_def)

text \<open>Network order.\<close>

definition be16 :: "short \<Rightarrow> byte list" where
  "be16 w = [ucast (drop_bit 8 w), ucast w]"

definition be32 :: "uint \<Rightarrow> byte list" where
  "be32 w = [ucast (drop_bit 24 w), ucast (drop_bit 16 w), ucast (drop_bit 8 w), ucast w]"

lemma bytes16_htons: "bytes16 (htons w) = be16 w"
  unfolding bytes16_def be16_def htons_def
  by (intro arg_cong2 [of _ _ _ _ Cons] refl bit_word_eqI) (auto simp: bit_simps)

lemma ntohs_be16 [simp]: "ntohs (word16 (ucast (drop_bit 8 w)) (ucast w)) = w"
  by (rule bit_word_eqI) (auto simp: ntohs_def htons_def word16_def bit_simps)

lemma ntohl_word32: "ntohl (word32 b0 b1 b2 b3) = word32 b3 b2 b1 b0"
proof -
  let ?w = "word32 b0 b1 b2 b3"
  have m: "(0xFF00 :: uint) = push_bit 8 (mask 8)" "(0xFF0000 :: uint) = push_bit 16 (mask 8)"
    by (simp_all add: mask_eq_exp_minus_1)
  have hi: "bit b n \<Longrightarrow> n < 8" for b :: byte and n by (auto dest: bit_imp_le_length)
  have "push_bit 24 ?w = push_bit 24 (ucast b0)"
    by (rule bit_word_eqI) (auto simp: word32_def bit_simps dest: hi)
  moreover have "push_bit 8 (?w AND 0xFF00) = push_bit 16 (ucast b1)"
    unfolding m by (rule bit_word_eqI) (auto simp: word32_def bit_simps dest: hi)
  moreover have "drop_bit 8 (?w AND 0xFF0000) = push_bit 8 (ucast b2)"
    unfolding m by (rule bit_word_eqI) (auto simp: word32_def bit_simps dest: hi)
  moreover have "drop_bit 24 ?w = ucast b3"
    by (rule bit_word_eqI) (auto simp: word32_def bit_simps dest: hi)
  ultimately show ?thesis unfolding ntohl_def by (simp add: word32_def ac_simps)
qed

lemma ntohl_be32 [simp]:
  "ntohl (word32 (ucast (drop_bit 24 w)) (ucast (drop_bit 16 w)) (ucast (drop_bit 8 w)) (ucast w)) = w"
  by (simp add: ntohl_word32 word32_bytes)

lemma byte_at_Cons [simp]:
  "byte_at (b # bs) 0 = Some b"
  "0 < k \<Longrightarrow> byte_at (b # bs) k = byte_at bs (k - 1)"
  by (auto simp: byte_at_def nat_diff_distrib' nth_Cons' nat_eq_iff)

lemma byte_at_append: "0 \<le> k \<Longrightarrow> byte_at (xs @ ys) (int (length xs) + k) = byte_at ys k"
  by (auto simp: byte_at_def nth_append nat_add_distrib)

lemma byte_at_beyond: "0 \<le> k \<Longrightarrow> k < int (length xs) \<Longrightarrow> byte_at (xs @ ys) k = byte_at xs k"
  by (auto simp: byte_at_def nth_append)

subsection \<open>The labels of a name\<close>

fun labels :: "byte list \<Rightarrow> byte list \<Rightarrow> byte list list" where
  "labels cur [] = [cur]"
| "labels cur (c # cs) = (if c = 46 then cur # labels [] cs else labels (cur @ [c]) cs)"

lemma name_loop_labels:
  assumes "pos \<le> i" "i \<le> length qname" "name_loop qname i pos nameVec = (p, v)"
  shows "v @ [substr qname p (length qname - p)] =
    nameVec @ labels (take (i - pos) (drop pos qname)) (drop i qname)"
  using assms
proof (induction qname i pos nameVec rule: name_loop.induct)
  case (1 qname i pos nameVec)
  show ?case
  proof (cases "i < length qname")
    case True
    have d: "drop i qname = qname ! i # drop (i + 1) qname" using True by (simp add: Cons_nth_drop_Suc)
    show ?thesis
    proof (cases "qname ! i = 46")
      case dot: True
      then show ?thesis
        using 1(1) [OF True dot] 1(3-5) True d by (simp add: name_loop.simps [of qname i] substr_def)
    next
      case False
      have "take (i + 1 - pos) (drop pos qname) = take (i - pos) (drop pos qname) @ [qname ! i]"
        using 1(3) True by (simp add: Suc_diff_le take_Suc_conv_app_nth)
      then show ?thesis
        using 1(2) [OF True False] 1(3-5) True False d by (simp add: name_loop.simps [of qname i])
    qed
  next
    case False
    then have "i = length qname" "p = pos" "v = nameVec"
      using 1(4,5) by (simp_all add: name_loop.simps [of qname i] name_loop.simps [of qname "length qname"])
    then show ?thesis by (simp add: substr_def)
  qed
qed

text \<open>A name as labels joined by dots.\<close>

fun join_dot :: "byte list list \<Rightarrow> byte list" where
  "join_dot [] = []"
| "join_dot [l] = l"
| "join_dot (l # ls) = l @ 46 # join_dot ls"

lemma labels_append: "46 \<notin> set l \<Longrightarrow> labels cur (l @ cs) = labels (cur @ l) cs"
  by (induction l arbitrary: cur) auto

lemma labels_join: "ls \<noteq> [] \<Longrightarrow> \<forall>l\<in>set ls. 46 \<notin> set l \<Longrightarrow> labels [] (join_dot ls) = ls"
proof (induction ls rule: join_dot.induct)
  case (2 l)
  then show ?case using labels_append [of l "[]" "[]"] by simp
qed (simp_all add: labels_append)

lemma put_labels: "foldl put_label ret ls = ret @ concat (map (put_label []) ls)"
proof (induction ls arbitrary: ret)
  case (Cons l ls)
  have "foldl put_label (put_label ret l) ls = put_label ret l @ concat (map (put_label []) ls)"
    by (rule Cons.IH)
  moreover have "put_label ret l = ret @ put_label [] l" by (simp add: put_label_def)
  ultimately show ?case by simp
qed simp

lemma getQuestionStr_bytes:
  "fst (getQuestionStr q) = concat (map (put_label []) (labels [] (qs_qname q))) @ 0 # be16 (qs_qtype q) @ be16 (qs_qclass q)"
proof -
  obtain p v where l: "name_loop (qs_qname q) 0 0 [] = (p, v)" by fastforce
  then have "labels [] (qs_qname q) = v @ [substr (qs_qname q) p (length (qs_qname q) - p)]"
    using name_loop_labels [of 0 0 "qs_qname q" "[]" p v] by simp
  then show ?thesis
    using l by (simp add: getQuestionStr_def Let_def bytes16_htons put_labels)
qed

text \<open>A reader of names in the format of RFC 1035, without compression.\<close>

function decode_name :: "byte list \<Rightarrow> (byte list list \<times> byte list) option" where
  "decode_name [] = None"
| "decode_name (n # xs) =
     (if n = 0 then Some ([], xs)
      else if length xs < unat n then None
      else map_option (\<lambda>(ls, r). (take (unat n) xs # ls, r)) (decode_name (drop (unat n) xs)))"
  by pat_completeness auto
termination by (relation "measure length") auto

lemma decode_labels:
  assumes "\<forall>l\<in>set ls. l \<noteq> [] \<and> length l < 256"
  shows "decode_name (concat (map (put_label []) ls) @ 0 # rest) = Some (ls, rest)"
  using assms
proof (induction ls)
  case (Cons l ls)
  have u: "unat (of_nat (length l) :: byte) = length l"
    using Cons.prems by (simp add: unat_of_nat take_bit_nat_eq_self)
  then have "(of_nat (length l) :: byte) \<noteq> 0" using Cons.prems by (metis length_0_conv list.set_intros(1) unat_0)
  then show ?case using Cons u by (simp add: put_label_def)
qed simp

subsection \<open>Answers on the wire\<close>

text \<open>A resource record whose name is a pointer, as servers send it.\<close>

record rr =
  rr_ptr :: "byte \<times> byte"
  rr_type :: short
  rr_class :: short
  rr_ttl :: uint
  rr_data :: "byte list"

definition encode_rr :: "rr \<Rightarrow> byte list" where
  "encode_rr r = [fst (rr_ptr r), snd (rr_ptr r)] @ be16 (rr_type r) @ be16 (rr_class r) @
     be32 (rr_ttl r) @ be16 (of_nat (length (rr_data r))) @ rr_data r"

definition rr_ok :: "rr \<Rightarrow> bool" where
  "rr_ok r \<longleftrightarrow> fst (rr_ptr r) AND 0xC0 = 0xC0 \<and> 4 \<le> length (rr_data r) \<and> length (rr_data r) < 32768"

definition answer_of :: "(byte list \<Rightarrow> byte list) \<Rightarrow> rr \<Rightarrow> answer" where
  "answer_of ntop r = \<lparr>an_type = rr_type r, an_class = rr_class r, an_ttl = rr_ttl r,
     an_rdataLen = of_nat (length (rr_data r)), an_rdata = ntop (take 4 (rr_data r))\<rparr>"

lemma sint_length: "n < 32768 \<Longrightarrow> sint (of_nat n :: short) = int n"
proof -
  assume "n < 32768"
  then have "signed_take_bit 15 (int n) = int n" by (intro signed_take_bit_int_eq_self) simp_all
  then show ?thesis by (simp add: signed_of_nat)
qed

lemma four_bytes:
  assumes "4 \<le> length xs"
  obtains a b c d ys where "xs = a # b # c # d # ys"
  using assms by (auto simp: Suc_le_length_iff numeral_eq_Suc)

lemma answer_loop_rep:
  assumes m: "m = pre @ concat (map encode_rr done) @ concat (map encode_rr rs) @ post"
    and ok: "\<forall>r\<in>set (done @ rs). rr_ok r"
  shows "answer_loop ntop m (int (length pre)) (int (length done + length rs)) (int (length done))
      (int (length (concat (map encode_rr done)))) = Some (map (answer_of ntop) rs)"
  using assms
proof (induction rs arbitrary: "done")
  case Nil
  then show ?case by (simp add: answer_loop.simps)
next
  case (Cons r rs)
  let ?off = "int (length (concat (map encode_rr done)))"
  have r: "rr_ok r" using Cons.prems(2) by simp
  have first: "\<exists>c0 c1 cs. concat (map encode_rr (done @ r # rs)) = c0 # c1 # cs \<and> c0 AND 0xC0 = 0xC0"
    using Cons.prems(2) by (cases "done") (auto simp: encode_rr_def rr_ok_def)
  then obtain c0 c1 cs where c: "concat (map encode_rr (done @ r # rs)) = c0 # c1 # cs" "c0 AND 0xC0 = 0xC0"
    by blast
  have m1: "m = pre @ c0 # c1 # cs @ post" using Cons.prems(1) c(1) by simp
  have b0: "byte_at m (int (length pre)) = Some c0"
    using byte_at_append [of 0 pre "c0 # c1 # cs @ post"] m1 by simp
  have b1: "byte_at m (int (length pre) + 1) = Some c1"
    using byte_at_append [of 1 pre "c0 # c1 # cs @ post"] m1 by simp
  obtain d0 d1 d2 d3 ds where d: "rr_data r = d0 # d1 # d2 # d3 # ds"
    using r four_bytes [of "rr_data r"] unfolding rr_ok_def by metis
  define tl where "tl = concat (map encode_rr rs) @ post"
  have at: "byte_at m (int (length pre) + ?off + k) = byte_at (encode_rr r @ tl) k" if "0 \<le> k" for k
    using that byte_at_append [of k "pre @ concat (map encode_rr done)" "encode_rr r @ tl"] Cons.prems(1)
    by (simp add: tl_def)
  define e where "e = encode_rr r @ tl"
  have bytes: "e = fst (rr_ptr r) # snd (rr_ptr r) # ucast (drop_bit 8 (rr_type r)) # ucast (rr_type r) #
    ucast (drop_bit 8 (rr_class r)) # ucast (rr_class r) # ucast (drop_bit 24 (rr_ttl r)) #
    ucast (drop_bit 16 (rr_ttl r)) # ucast (drop_bit 8 (rr_ttl r)) # ucast (rr_ttl r) #
    ucast (drop_bit 8 (of_nat (length (rr_data r)) :: short)) # ucast (of_nat (length (rr_data r)) :: short) #
    d0 # d1 # d2 # d3 # ds @ tl"
    by (simp add: e_def encode_rr_def be16_def be32_def d)
  have at': "byte_at m (int (length pre) + (?off + 2) + k) = byte_at e (k + 2)" if "0 \<le> k" for k
    using at [of "k + 2"] that by (simp add: e_def algebra_simps)
  have at2: "byte_at m (int (length pre) + (?off + 2 + 10) + k) = byte_at e (k + 12)" if "0 \<le> k" for k
    using at [of "k + 12"] that by (simp add: e_def algebra_simps)
  have sh: "short_at m (int (length pre) + (?off + 2)) = Some (word16 (ucast (drop_bit 8 (rr_type r))) (ucast (rr_type r)))"
    "short_at m (int (length pre) + (?off + 2) + 2) = Some (word16 (ucast (drop_bit 8 (rr_class r))) (ucast (rr_class r)))"
    "int_at m (int (length pre) + (?off + 2) + 4) = Some (word32 (ucast (drop_bit 24 (rr_ttl r)))
      (ucast (drop_bit 16 (rr_ttl r))) (ucast (drop_bit 8 (rr_ttl r))) (ucast (rr_ttl r)))"
    "short_at m (int (length pre) + (?off + 2) + 8) = Some (word16
      (ucast (drop_bit 8 (of_nat (length (rr_data r)) :: short))) (ucast (of_nat (length (rr_data r)) :: short)))"
    using at' [of 0] at' [of 1] at' [of 2] at' [of 3] at' [of 4] at' [of 5] at' [of 6] at' [of 7] at' [of 8] at' [of 9]
    by (simp_all add: short_at_def int_at_def bytes add.assoc)
  have dd: "byte_at m (int (length pre) + (?off + 2 + 10)) = Some d0"
    "byte_at m (int (length pre) + (?off + 2 + 10) + 1) = Some d1"
    "byte_at m (int (length pre) + (?off + 2 + 10) + 2) = Some d2"
    "byte_at m (int (length pre) + (?off + 2 + 10) + 3) = Some d3"
    using at2 [of 0] at2 [of 1] at2 [of 2] at2 [of 3] by (simp_all add: bytes)
  have len: "length (encode_rr r) = 12 + length (rr_data r)" by (simp add: encode_rr_def be16_def be32_def)
  have next_off: "?off + 2 + 10 + sint (of_nat (length (rr_data r)) :: short) =
      int (length (concat (map encode_rr (done @ [r]))))"
    using r sint_length [of "length (rr_data r)"] len by (simp add: rr_ok_def)
  have IH: "answer_loop ntop m (int (length pre)) (int (length (done @ [r]) + length rs)) (int (length (done @ [r])))
      (int (length (concat (map encode_rr (done @ [r]))))) = Some (map (answer_of ntop) rs)"
    by (rule Cons.IH) (use Cons.prems in simp_all)
  have cnt: "int (length done) + 1 = int (length (done @ [r]))"
    "int (length done + length (r # rs)) = int (length (done @ [r]) + length rs)" by simp_all
  have ptr: "short_at m (int (length pre)) = Some (word16 c0 c1)" using b0 b1 by (simp add: short_at_def)
  have lt: "int (length done) < int (length (done @ [r]) + length rs)" by simp
  have ao: "answer_of ntop r = \<lparr>an_type = rr_type r, an_class = rr_class r, an_ttl = rr_ttl r,
      an_rdataLen = of_nat (length (rr_data r)), an_rdata = ntop [d0, d1, d2, d3]\<rparr>"
    by (simp add: answer_of_def d)
  show ?case
    unfolding answer_loop.simps [of ntop m "int (length pre)" _ "int (length done)"]
    by (simp only: lt if_True simp_thms ao b0 ptr c(2) sh dd bind.bind_lunit Let_def answer.simps ntohs_be16 ntohl_be32
        next_off cnt IH list.map)
qed

subsection \<open>Properties\<close>

lemma header_bytes: "fst (getHeaderStr h) = concat (map be16
    [hd_id h, hd_flags h, hd_qdcount h, hd_ancount h, hd_nscount h, hd_arcount h])"
  by (simp add: getHeaderStr_def bytes16_htons)

lemma header_length [simp]: "length (fst (getHeaderStr h)) = 12"
  by (simp add: header_bytes be16_def)

lemma header_read: "getHeaderFromChar (fst (getHeaderStr h) @ rest) = Some h"
  unfolding header_bytes by (simp add: getHeaderFromChar_def short_at_def be16_def)

text \<open>A header survives being written and read back, whatever follows it; but writing converts
  its members in place, so that writing the same header a second time gives the bytes in host
  order.\<close>

theorem header_roundtrip:
  "getHeaderFromChar (fst (getHeaderStr h) @ rest) = Some h \<and>
    fst (getHeaderStr (snd (getHeaderStr h))) = concat (map bytes16
      [hd_id h, hd_flags h, hd_qdcount h, hd_ancount h, hd_nscount h, hd_arcount h])"
  by (simp add: header_read) (simp add: getHeaderStr_def)

text \<open>C37: the question section is the name in the format of RFC 1035 followed by type and class in
  network order: a reader of that format finds the labels of the name, if they are not empty and
  shorter than 256 bytes.\<close>

theorem question_roundtrip:
  assumes "ls \<noteq> []" "\<forall>l\<in>set ls. l \<noteq> [] \<and> 46 \<notin> set l \<and> length l < 256" "qs_qname q = join_dot ls"
  shows "decode_name (fst (getQuestionStr q)) = Some (ls, be16 (qs_qtype q) @ be16 (qs_qclass q))"
  using assms labels_join [of ls] decode_labels [of ls] by (simp add: getQuestionStr_bytes)

theorem question_roundtrip_witness:
  "decode_name (fst (getQuestionStr \<lparr>qs_qname = [119, 46, 99, 110], qs_qtype = 1, qs_qclass = 1\<rparr>)) =
    Some ([[119], [99, 110]], [0, 1, 0, 1])"
proof -
  have "be16 1 = [0, 1]" "46 \<notin> {119, 99, 110 :: byte}" by code_simp+
  then show ?thesis
    using question_roundtrip [of "[[119], [99, 110]]" "\<lparr>qs_qname = [119, 46, 99, 110], qs_qtype = 1, qs_qclass = 1\<rparr>"]
    by simp
qed

text \<open>C36: for a reply that is a header, as many bytes as the question sent, and as many records
  with compressed names as the header announces, \<open>query\<close> ends within the buffer and returns the
  addresses of all records in order - unless both the id and the flags are not the expected ones:
  a reply with a wrong id is accepted when its flags are 0x0101.\<close>

theorem query_reply:
  assumes "received = fst (getHeaderStr h) @ qst @ concat (map encode_rr rs) @ post"
    "length qst = length (query_message domainName i) - 12" "length received \<le> 10240"
    "sint (hd_ancount h) = int (length rs)" "\<forall>r\<in>set rs. rr_ok r"
  shows "dns_query ntop domainName i True received =
    Some (if hd_id h \<noteq> i \<and> hd_flags h \<noteq> 0x0101 then []
          else map (\<lambda>r. \<lparr>rt_vaild = True, rt_ip = ntop (take 4 (rr_data r))\<rparr>) rs)"
proof -
  let ?z = "replicate (10240 - length received) (0 :: byte)"
  have l: "length (query_message domainName i) = length (fst (getHeaderStr h) @ qst)"
    using assms(2) by (simp add: query_message_def)
  have buf: "take 10240 received @ ?z = (fst (getHeaderStr h) @ qst) @ concat (map encode_rr rs) @ (post @ ?z)"
    using assms(1,3) by simp
  have "getHeaderFromChar (take 10240 received @ ?z) = Some h"
    unfolding buf using header_read [of h "qst @ concat (map encode_rr rs) @ post @ ?z"] by simp
  moreover have "getAnswerFromChar ntop (take 10240 received @ ?z) (int (length (query_message domainName i)))
      (sint (hd_ancount h)) = Some (map (answer_of ntop) rs)"
    unfolding getAnswerFromChar_def l assms(4)
    using answer_loop_rep [of "take 10240 received @ ?z" "fst (getHeaderStr h) @ qst" "[]" rs "post @ ?z" ntop]
      buf assms(5) by simp
  ultimately show ?thesis by (simp add: dns_query_def Let_def answer_of_def o_def)
qed

theorem query_reply_witness:
  "dns_query id [97] 5 True (fst (getHeaderStr \<lparr>hd_id = 9, hd_flags = 0x0101, hd_qdcount = 1, hd_ancount = 1,
      hd_nscount = 0, hd_arcount = 0\<rparr>) @ replicate (length (query_message [97] 5) - 12) 0 @
      concat (map encode_rr [\<lparr>rr_ptr = (0xC0, 12), rr_type = 1, rr_class = 1, rr_ttl = 60, rr_data = [10, 0, 0, 7]\<rparr>]) @ []) =
    Some [\<lparr>rt_vaild = True, rt_ip = [10, 0, 0, 7]\<rparr>]"
  by (subst query_reply [OF refl])
    (simp_all add: rr_ok_def query_message_def getQuestionStr_bytes put_label_def be16_def encode_rr_def be32_def)

end
