(* ===== verification/IoUringServer.thy ===== *)
theory IoUringServer
  imports Uring
begin

text \<open>
  ioURingServer/main.cpp: an echo server over io_uring.  Every request has an \<open>EventContext\<close> of its
  own, made by \<open>new\<close> when the request is prepared and deleted when its completion has been served;
  the contexts are a heap.  What the kernel receives is written into the buffer of the context when the
  completion is seen.  Output is left out, but for what printing a buffer with \<open>%s\<close> reads.
\<close>

subsection \<open>Contexts\<close>

datatype uring_event = UNDEF | ACCEPT | RECV | SEND

record uring_context =
  uc_type :: uring_event
  uc_fd :: int
  uc_buffer :: "byte list"

record 'w uring_server =
  us_heap :: "nat \<Rightarrow> uring_context option"
  us_next :: nat
  us_world :: 'w

definition fresh_context :: uring_context where
  "fresh_context = \<lparr>uc_type = UNDEF, uc_fd = 0, uc_buffer = replicate 2048 0\<rparr>"

definition new_context :: "uring_context \<Rightarrow> 'w uring_server \<Rightarrow> nat \<times> 'w uring_server" where
  "new_context c s = (us_next s, s\<lparr>us_heap := (us_heap s)(us_next s \<mapsto> c), us_next := Suc (us_next s)\<rparr>)"

definition delete_context :: "nat \<Rightarrow> 'w uring_server \<Rightarrow> 'w uring_server option" where
  "delete_context p s = (case us_heap s p of None \<Rightarrow> None | Some _ \<Rightarrow> Some (s\<lparr>us_heap := (us_heap s)(p := None)\<rparr>))"

subsection \<open>Requests\<close>

text \<open>The end of the three functions: the entry is there, the context made, the request prepared.\<close>

definition prepare :: "'w uring \<Rightarrow> uring_context \<Rightarrow> ring_request \<Rightarrow> 'w uring_server \<Rightarrow> 'w uring_server" where
  "prepare u c r s = (case new_context c s of (p, s) \<Rightarrow> s\<lparr>us_world := ur_prep u p r (us_world s)\<rparr>)"

definition srv_setAcceptEvent :: "'w uring option \<Rightarrow> int \<Rightarrow> 'w uring_server \<Rightarrow> 'w uring_server" where
  "srv_setAcceptEvent ring fd s = (case ring of None \<Rightarrow> s
   | Some u \<Rightarrow> (case ur_get_sqe u (us_world s) of (sqe, w) \<Rightarrow>
       let s = s\<lparr>us_world := w\<rparr>
       in if \<not> sqe then s else prepare u (fresh_context\<lparr>uc_type := ACCEPT, uc_fd := - 1\<rparr>) (PrepAccept fd) s))"

definition srv_setReadEvent :: "'w uring option \<Rightarrow> int \<Rightarrow> 'w uring_server \<Rightarrow> 'w uring_server" where
  "srv_setReadEvent ring fd s = (case ring of None \<Rightarrow> s
   | Some u \<Rightarrow> (case ur_get_sqe u (us_world s) of (sqe, w) \<Rightarrow>
       let s = s\<lparr>us_world := w\<rparr>
       in if \<not> sqe then s else prepare u (fresh_context\<lparr>uc_type := RECV, uc_fd := fd\<rparr>) (PrepRecv fd 2048) s))"

text \<open>\<open>msg\<close> is the memory at the pointer.\<close>

definition srv_setSendEvent ::
    "'w uring option \<Rightarrow> int \<Rightarrow> byte list \<Rightarrow> nat \<Rightarrow> 'w uring_server \<Rightarrow> 'w uring_server option" where
  "srv_setSendEvent ring fd msg msgLen s = (case ring of None \<Rightarrow> Some s
   | Some u \<Rightarrow> (case ur_get_sqe u (us_world s) of (sqe, w) \<Rightarrow>
       let s = s\<lparr>us_world := w\<rparr>
       in if \<not> sqe then Some s
          else if length msg < msgLen \<or> 2048 < msgLen then None
          else Some (prepare u (fresh_context\<lparr>uc_type := SEND, uc_fd := fd,
              uc_buffer := overwrite 0 (take msgLen msg) (replicate 2048 0)\<rparr>) (PrepSend fd (take msgLen msg)) s)))"

subsection \<open>Serving completions\<close>

text \<open>The kernel's write into the buffer of a receive.\<close>

definition kernel_write :: "nat \<Rightarrow> byte list \<Rightarrow> 'w uring_server \<Rightarrow> 'w uring_server option" where
  "kernel_write p bs s = do {
     c \<leftarrow> us_heap s p;
     if length (uc_buffer c) < length bs then None
     else Some (s\<lparr>us_heap := (us_heap s)(p \<mapsto> c\<lparr>uc_buffer := overwrite 0 bs (uc_buffer c)\<rparr>)\<rparr>)
   }"

text \<open>The switch; its result also says whether there is something to submit.  Printing a buffer reads
  up to the first 0.\<close>

definition uring_switch ::
    "'w os \<Rightarrow> 'w uring \<Rightarrow> int \<Rightarrow> int \<Rightarrow> uring_context \<Rightarrow> 'w uring_server \<Rightarrow> (bool \<times> 'w uring_server) option" where
  "uring_switch os u listenFd cqeRes context s = (case uc_type context of
     ACCEPT \<Rightarrow> Some (True, srv_setReadEvent (Some u) cqeRes (srv_setAcceptEvent (Some u) listenFd s))
   | RECV \<Rightarrow>
       (if cqeRes = 0 then Some (False, s\<lparr>us_world := os_close os (uc_fd context) (us_world s)\<rparr>)
        else if 0 \<notin> set (uc_buffer context) then None
        else map_option (Pair True)
          (srv_setSendEvent (Some u) (uc_fd context) (uc_buffer context) (nat cqeRes) s))
   | SEND \<Rightarrow>
       (if cqeRes = 0 then Some (False, s\<lparr>us_world := os_close os (uc_fd context) (us_world s)\<rparr>)
        else Some (True, srv_setReadEvent (Some u) (uc_fd context) s))
   | UNDEF \<Rightarrow> Some (False, s))"

definition uring_serve ::
    "'w os \<Rightarrow> 'w uring \<Rightarrow> int \<Rightarrow> ring_cqe \<Rightarrow> 'w uring_server \<Rightarrow> (bool \<times> 'w uring_server) option" where
  "uring_serve os u listenFd cqe s = do {
     let p = cqe_user_data cqe;
     s \<leftarrow> kernel_write p (cqe_data cqe) s;
     context \<leftarrow> us_heap s p;
     if cqe_res cqe < 0 then do {
       let s = (if 0 < uc_fd context then s\<lparr>us_world := os_close os (uc_fd context) (us_world s)\<rparr> else s);
       s \<leftarrow> delete_context p s;
       Some (False, s)
     } else do {
       (n, s) \<leftarrow> uring_switch os u listenFd (cqe_res cqe) context s;
       s \<leftarrow> delete_context p s;
       Some (n, s)
     }
   }"

partial_function (option) uring_each ::
    "'w os \<Rightarrow> 'w uring \<Rightarrow> int \<Rightarrow> nat \<Rightarrow> bool \<Rightarrow> 'w uring_server \<Rightarrow> (nat \<times> bool \<times> 'w uring_server) option" where
  "uring_each os u listenFd cnt needSubmit s = (case ur_cqe_at u cnt (us_world s) of (c, w) \<Rightarrow>
     (case c of None \<Rightarrow> Some (cnt, needSubmit, s\<lparr>us_world := w\<rparr>)
      | Some cqe \<Rightarrow> do {
          (n, s) \<leftarrow> uring_serve os u listenFd cqe (s\<lparr>us_world := w\<rparr>);
          uring_each os u listenFd (Suc cnt) (needSubmit \<or> n) s
        }))"

declare uring_each.simps [code]

definition uring_round :: "'w os \<Rightarrow> 'w uring \<Rightarrow> int \<Rightarrow> 'w uring_server \<Rightarrow> 'w uring_server option" where
  "uring_round os u listenFd s = (case ur_wait u (us_world s) of (ret, w) \<Rightarrow>
     if ret < 0 then Some (s\<lparr>us_world := w\<rparr>)
     else do {
       (cnt, needSubmit, s) \<leftarrow> uring_each os u listenFd 0 False (s\<lparr>us_world := w\<rparr>);
       let w = ur_advance u cnt (us_world s);
       Some (s\<lparr>us_world := if needSubmit then ur_submit u w else w\<rparr>)
     })"

text \<open>The endless loop, so many rounds of it.\<close>

fun uring_rounds :: "'w os \<Rightarrow> 'w uring \<Rightarrow> int \<Rightarrow> nat \<Rightarrow> 'w uring_server \<Rightarrow> 'w uring_server option" where
  "uring_rounds os u listenFd 0 s = Some s"
| "uring_rounds os u listenFd (Suc n) s = do { s \<leftarrow> uring_round os u listenFd s; uring_rounds os u listenFd n s }"

text \<open>\<open>main\<close> up to the listening socket, and up to its loop; the address is read from
  \<open>argv[0]\<close>, the name of the program.\<close>

definition uring_listen :: "'w os \<Rightarrow> 'w uring \<Rightarrow> byte list list \<Rightarrow> 'w \<Rightarrow> int \<times> 'w" where
  "uring_listen os u argv w =
     (let w = ur_init u 128 w;
        (listenFd, w) = os_socket os w;
        w = os_reuseaddr os listenFd w;
        addr = \<lparr>sin_addr = (case os_inet_aton os (argv ! 0) of None \<Rightarrow> 0 | Some a \<Rightarrow> a), sin_port = net_short 61972\<rparr>;
        (_, w) = os_bind os listenFd addr w;
        (_, w) = os_listen os listenFd 1024 w
      in (listenFd, w))"

definition uring_start :: "'w uring \<Rightarrow> int \<Rightarrow> 'w \<Rightarrow> 'w uring_server" where
  "uring_start u listenFd w =
     (let s = srv_setAcceptEvent (Some u) listenFd \<lparr>us_heap = (\<lambda>_. None), us_next = 1, us_world = w\<rparr>
      in s\<lparr>us_world := ur_submit u (us_world s)\<rparr>)"

definition uring_main ::
    "'w os \<Rightarrow> 'w uring \<Rightarrow> nat \<Rightarrow> byte list list \<Rightarrow> 'w \<Rightarrow> (int + 'w uring_server) option" where
  "uring_main os u n argv w =
     (if length argv < 1 then Some (Inl (- 1))
      else case uring_listen os u argv w of (listenFd, w) \<Rightarrow>
        map_option Inr (uring_rounds os u listenFd n (uring_start u listenFd w)))"

subsection \<open>Contexts and requests in flight\<close>

definition matches :: "ring_request \<Rightarrow> uring_context \<Rightarrow> bool" where
  "matches r c = (case r of
     PrepAccept _ \<Rightarrow> uc_type c = ACCEPT
   | PrepRecv fd n \<Rightarrow> uc_type c = RECV \<and> uc_fd c = fd \<and> n = 2048 \<and> length (uc_buffer c) = 2048 \<and> uc_buffer c ! 2047 = 0
   | PrepSend fd _ \<Rightarrow> uc_type c = SEND \<and> uc_fd c = fd
   | PrepConnect _ _ \<Rightarrow> False)"

text \<open>The contexts that exist are those of the requests in flight, each once; \<open>D\<close> are the
  requests that have been served but whose completion the queue still holds.\<close>

definition us_ok :: "'w ring_view \<Rightarrow> nat multiset \<Rightarrow> 'w uring_server \<Rightarrow> bool" where
  "us_ok v D s \<longleftrightarrow> finite (dom (us_heap s)) \<and> (\<forall>p. us_heap s p \<noteq> None \<longrightarrow> p < us_next s) \<and>
     rv_pend v (us_world s) = mset_set (dom (us_heap s)) + D \<and> (\<forall>p. p \<in># D \<longrightarrow> p < us_next s) \<and>
     (\<forall>p r c. (p, r) \<in># rv_reqs v (us_world s) \<longrightarrow> us_heap s p = Some c \<longrightarrow> matches r c)"

definition grows :: "'w ring_view \<Rightarrow> 'w uring_server \<Rightarrow> 'w uring_server \<Rightarrow> bool" where
  "grows v s s' \<longleftrightarrow> us_next s \<le> us_next s' \<and> (\<forall>p<us_next s. us_heap s' p = us_heap s p) \<and>
     (\<exists>new. rv_cq v (us_world s') = rv_cq v (us_world s) @ new)"

lemma grows_trans: "grows v s t \<Longrightarrow> grows v t r \<Longrightarrow> grows v s r"
  by (auto simp: grows_def)

lemma reqs_below:
  assumes "us_ok v D s" "(p, r) \<in># rv_reqs v (us_world s)"
  shows "p < us_next s"
proof -
  have "p \<in># rv_pend v (us_world s)" using assms(2) by (force simp: rv_pend_def)
  then show ?thesis using assms(1) by (auto simp: us_ok_def)
qed

lemma us_ok_world:
  assumes "us_ok v D s" "keeps_view v (us_world s) w"
  shows "us_ok v D (s\<lparr>us_world := w\<rparr>)" "grows v s (s\<lparr>us_world := w\<rparr>)"
  using assms keeps_viewD [OF assms(2)] by (simp_all add: us_ok_def grows_def)

lemma prepare_ok:
  assumes "uring_laws os u v n" "us_ok v D s" "ur_get_sqe u (us_world s) = (ok, w)" "matches r c"
  shows "us_ok v D (prepare u c r (s\<lparr>us_world := w\<rparr>))" "grows v s (prepare u c r (s\<lparr>us_world := w\<rparr>))"
    "rv_reqs v (us_world (prepare u c r (s\<lparr>us_world := w\<rparr>))) = add_mset (us_next s, r) (rv_reqs v (us_world s))"
proof -
  note p = uring_lawsD(8) [OF assms(1,3), of "us_next s" r] uring_pend(1) [OF assms(1,3), of "us_next s" r]
  have new: "us_heap s (us_next s) = None" using assms(2) by (auto simp: us_ok_def)
  then have dom: "mset_set (insert (us_next s) (dom (us_heap s))) = add_mset (us_next s) (mset_set (dom (us_heap s)))"
    using assms(2) by (intro mset_set.insert) (auto simp: us_ok_def)
  have "\<forall>q\<in>#D. q < Suc (us_next s)" using assms(2) by (auto simp: us_ok_def)
  then show "us_ok v D (prepare u c r (s\<lparr>us_world := w\<rparr>))"
    using assms(2,4) p dom reqs_below [OF assms(2)]
    by (auto simp: us_ok_def prepare_def new_context_def less_Suc_eq)
  show "grows v s (prepare u c r (s\<lparr>us_world := w\<rparr>))"
    "rv_reqs v (us_world (prepare u c r (s\<lparr>us_world := w\<rparr>))) = add_mset (us_next s, r) (rv_reqs v (us_world s))"
    using p by (auto simp: prepare_def new_context_def grows_def)
qed

lemma set_events_ok:
  assumes "uring_laws os u v n" "us_ok v D s"
  shows "us_ok v D (srv_setAcceptEvent (Some u) fd s)" "grows v s (srv_setAcceptEvent (Some u) fd s)"
    "us_ok v D (srv_setReadEvent (Some u) fd s)" "grows v s (srv_setReadEvent (Some u) fd s)"
    "m \<le> length msg \<Longrightarrow> m \<le> 2048 \<Longrightarrow> \<exists>s'. srv_setSendEvent (Some u) fd msg m s = Some s' \<and> us_ok v D s' \<and> grows v s s' \<and>
       (rv_sq v (us_world s) < n \<longrightarrow>
         rv_reqs v (us_world s') = add_mset (us_next s, PrepSend fd (take m msg)) (rv_reqs v (us_world s)))"
proof -
  obtain ok w where w: "ur_get_sqe u (us_world s) = (ok, w)" by fastforce
  have keep: "\<not> ok \<Longrightarrow> keeps_view v (us_world s) w" using uring_lawsD(7) [OF assms(1)] w by simp
  note prep = prepare_ok [OF assms w]
  show "us_ok v D (srv_setAcceptEvent (Some u) fd s)" "grows v s (srv_setAcceptEvent (Some u) fd s)"
    "us_ok v D (srv_setReadEvent (Some u) fd s)" "grows v s (srv_setReadEvent (Some u) fd s)"
    using w prep us_ok_world [OF assms(2) keep]
    by (auto simp: srv_setAcceptEvent_def srv_setReadEvent_def Let_def matches_def fresh_context_def)
  assume m: "m \<le> length msg" "m \<le> 2048"
  have "matches (PrepSend fd (take m msg)) (fresh_context\<lparr>uc_type := SEND, uc_fd := fd,
      uc_buffer := overwrite 0 (take m msg) (replicate 2048 0)\<rparr>)"
    by (simp add: matches_def)
  then show "\<exists>s'. srv_setSendEvent (Some u) fd msg m s = Some s' \<and> us_ok v D s' \<and> grows v s s' \<and>
       (rv_sq v (us_world s) < n \<longrightarrow>
         rv_reqs v (us_world s') = add_mset (us_next s, PrepSend fd (take m msg)) (rv_reqs v (us_world s)))"
    using w prep us_ok_world [OF assms(2) keep] m uring_lawsD(6) [OF assms(1) _ w]
    by (cases ok) (auto simp: srv_setSendEvent_def Let_def)
qed

lemma grows_heap: "grows v s s' \<Longrightarrow> p < us_next s \<Longrightarrow> us_heap s' p = us_heap s p"
  by (simp add: grows_def)

text \<open>The context of the completion served is deleted.\<close>

lemma delete_ok:
  assumes "us_ok v D s" "us_heap s p \<noteq> None"
  obtains s' where "delete_context p s = Some s'" "us_ok v (add_mset p D) s'" "us_world s' = us_world s"
    "us_heap s' = (us_heap s)(p := None)" "us_next s' = us_next s"
proof -
  have "mset_set (dom (us_heap s)) = add_mset p (mset_set (dom (us_heap s) - {p}))"
    using assms by (auto simp: us_ok_def intro!: mset_set.remove)
  then have "us_ok v (add_mset p D) (s\<lparr>us_heap := (us_heap s)(p := None)\<rparr>)"
    using assms by (auto simp: us_ok_def)
  then show ?thesis using that assms(2) by (auto simp: delete_context_def)
qed

lemma kernel_write_ok:
  assumes "us_heap s p = Some c" "length bs \<le> length (uc_buffer c)"
  shows "kernel_write p bs s = Some (s\<lparr>us_heap := (us_heap s)(p \<mapsto> c\<lparr>uc_buffer := overwrite 0 bs (uc_buffer c)\<rparr>)\<rparr>)"
  using assms by (simp add: kernel_write_def)

lemma uring_switch_ok:
  assumes laws: "uring_laws os u v n" and ok: "us_ok v D s" and "0 \<le> res"
    and recv: "uc_type x = RECV \<Longrightarrow> 0 \<in> set (uc_buffer x) \<and> length (uc_buffer x) = 2048 \<and> res \<le> 2048"
  obtains b t where "uring_switch os u listenFd res x s = Some (b, t)" "us_ok v D t" "grows v s t"
    "uc_type x = RECV \<Longrightarrow> 0 < res \<Longrightarrow> rv_sq v (us_world s) < n \<Longrightarrow>
       b \<and> rv_reqs v (us_world t) = add_mset (us_next s, PrepSend (uc_fd x) (take (nat res) (uc_buffer x))) (rv_reqs v (us_world s))"
proof -
  note close = us_ok_world [OF ok uring_lawsD(4) [OF laws]]
  note set_events = set_events_ok [OF laws]
  show ?thesis
  proof (cases "uc_type x")
    case UNDEF
    then show ?thesis using that [of False s] ok by (simp add: uring_switch_def grows_def)
  next
    case ACCEPT
    let ?s = "srv_setAcceptEvent (Some u) listenFd s"
    show ?thesis
      by (rule that [of True "srv_setReadEvent (Some u) res ?s"])
        (use ACCEPT set_events(1,2) [OF ok, of listenFd] set_events(3,4) [of D ?s res] grows_trans in
          \<open>auto simp: uring_switch_def\<close>)
  next
    case SEND
    show ?thesis
    proof (cases "res = 0")
      case True
      then show ?thesis
        using that [of False "s\<lparr>us_world := os_close os (uc_fd x) (us_world s)\<rparr>"] close SEND
        by (simp add: uring_switch_def)
    next
      case False
      then show ?thesis
        using that [of True "srv_setReadEvent (Some u) (uc_fd x) s"] set_events(3,4) [OF ok] SEND
        by (simp add: uring_switch_def)
    qed
  next
    case RECV
    show ?thesis
    proof (cases "res = 0")
      case True
      then show ?thesis
        using that [of False "s\<lparr>us_world := os_close os (uc_fd x) (us_world s)\<rparr>"] close RECV
        by (simp add: uring_switch_def)
    next
      case False
      obtain t where t: "srv_setSendEvent (Some u) (uc_fd x) (uc_buffer x) (nat res) s = Some t" "us_ok v D t" "grows v s t"
        "rv_sq v (us_world s) < n \<longrightarrow> rv_reqs v (us_world t) =
           add_mset (us_next s, PrepSend (uc_fd x) (take (nat res) (uc_buffer x))) (rv_reqs v (us_world s))"
        using set_events(5) [OF ok, of "nat res" "uc_buffer x" "uc_fd x"] recv [OF RECV] by (auto simp: nat_le_iff)
      show ?thesis
        by (rule that [of True t]) (use t False RECV recv [OF RECV] in \<open>auto simp: uring_switch_def\<close>)
    qed
  qed
qed

text \<open>Serving a completion of a request in flight, when no receive has filled its buffer.\<close>

lemma uring_serve_ok:
  assumes laws: "uring_laws os u v n" and ok: "us_ok v D s" and p: "us_heap s (cqe_user_data c) = Some x"
    and r: "(cqe_user_data c, r) \<in># rv_reqs v (us_world s)" "completes r c" and short: "length (cqe_data c) < 2048"
  obtains b s' where "uring_serve os u listenFd c s = Some (b, s')" "us_ok v (add_mset (cqe_user_data c) D) s'"
    "us_heap s' (cqe_user_data c) = None"
    "\<exists>new. rv_cq v (us_world s') = rv_cq v (us_world s) @ new"
    "\<And>fd m. r = PrepRecv fd m \<Longrightarrow> 0 < cqe_res c \<Longrightarrow> rv_sq v (us_world s) < n \<Longrightarrow>
       b \<and> rv_reqs v (us_world s') = add_mset (us_next s, PrepSend fd (cqe_data c)) (rv_reqs v (us_world s))"
proof -
  let ?p = "cqe_user_data c"
  have m: "matches r x" using ok p r(1) by (auto simp: us_ok_def)
  let ?x = "x\<lparr>uc_buffer := overwrite 0 (cqe_data c) (uc_buffer x)\<rparr>"
  let ?s = "s\<lparr>us_heap := (us_heap s)(?p \<mapsto> ?x)\<rparr>"
  have data: "length (cqe_data c) \<le> length (uc_buffer x)"
    using m r(2) short by (cases r) (auto simp: matches_def completes_def)
  note kw = kernel_write_ok [OF p data]
  have m': "matches r' ?x" if "matches r' x" for r'
    using that m r(2) short by (cases r; cases r') (auto simp: matches_def completes_def overwrite_def nth_append)
  have next_p: "?p < us_next s" using ok p by (auto simp: us_ok_def)
  have "dom (us_heap ?s) = dom (us_heap s)" using p by auto
  then have ok': "us_ok v D ?s" using ok p m' by (auto simp: us_ok_def)
  have del: "\<exists>t'. delete_context ?p t = Some t' \<and> us_ok v (add_mset ?p D) t' \<and> us_world t' = us_world t \<and> us_heap t' ?p = None"
    if "us_ok v D t" "grows v ?s t" for t
  proof -
    note t = that
    have "us_heap t ?p \<noteq> None" using grows_heap [OF t(2), of ?p] next_p by simp
    then obtain t' where "delete_context ?p t = Some t'" "us_ok v (add_mset ?p D) t'" "us_world t' = us_world t"
      "us_heap t' = (us_heap t)(?p := None)" "us_next t' = us_next t" by (rule delete_ok [OF t(1)])
    then show ?thesis by simp
  qed
  show ?thesis
  proof (cases "cqe_res c < 0")
    case True
    let ?t = "if 0 < uc_fd ?x then ?s\<lparr>us_world := os_close os (uc_fd ?x) (us_world ?s)\<rparr> else ?s"
    have t: "us_ok v D ?t" "grows v ?s ?t"
      using us_ok_world [OF ok' uring_lawsD(4) [OF laws]] ok' by (simp_all add: grows_def)
    from del [OF this] obtain t' where t': "delete_context ?p ?t = Some t'" "us_ok v (add_mset ?p D) t'"
      "us_world t' = us_world ?t" "us_heap t' ?p = None" by blast
    show ?thesis
      by (rule that [of False t']) (use kw True t t' in \<open>auto simp: uring_serve_def Let_def grows_def\<close>)
  next
    case False
    have "uc_type ?x = RECV \<Longrightarrow> 0 \<in> set (uc_buffer ?x) \<and> length (uc_buffer ?x) = 2048 \<and> cqe_res c \<le> 2048"
    proof -
      assume "uc_type ?x = RECV"
      then obtain fd where "r = PrepRecv fd 2048" using m by (cases r) (auto simp: matches_def)
      then show "0 \<in> set (uc_buffer ?x) \<and> length (uc_buffer ?x) = 2048 \<and> cqe_res c \<le> 2048"
        using m' [OF m] r(2) nth_mem [of 2047 "uc_buffer ?x"] by (auto simp: matches_def completes_def)
    qed
    then obtain b t where t: "uring_switch os u listenFd (cqe_res c) ?x ?s = Some (b, t)" "us_ok v D t" "grows v ?s t"
      "uc_type ?x = RECV \<Longrightarrow> 0 < cqe_res c \<Longrightarrow> rv_sq v (us_world ?s) < n \<Longrightarrow>
       b \<and> rv_reqs v (us_world t) = add_mset (us_next ?s, PrepSend (uc_fd ?x) (take (nat (cqe_res c)) (uc_buffer ?x)))
         (rv_reqs v (us_world ?s))"
      using False by (elim uring_switch_ok [OF laws ok', of "cqe_res c" ?x listenFd, rotated 2]) auto
    from del [OF t(2,3)] obtain t' where t': "delete_context ?p t = Some t'" "us_ok v (add_mset ?p D) t'"
      "us_world t' = us_world t" "us_heap t' ?p = None" by blast
    show ?thesis
    proof (rule that [of b t'])
      show "uring_serve os u listenFd c s = Some (b, t')"
        using kw False t t' by (simp add: uring_serve_def Let_def)
      show "\<exists>new. rv_cq v (us_world t') = rv_cq v (us_world s) @ new" using t(3) t'(3) by (simp add: grows_def)
      fix fd k assume k: "r = PrepRecv fd k" "0 < cqe_res c" "rv_sq v (us_world s) < n"
      have "take (nat (cqe_res c)) (overwrite 0 (cqe_data c) (uc_buffer x)) = cqe_data c"
        using k r(2) by (simp add: completes_def overwrite_def)
      then show "b \<and> rv_reqs v (us_world t') = add_mset (us_next s, PrepSend fd (cqe_data c)) (rv_reqs v (us_world s))"
        using t(4) k m t'(3) by (simp add: matches_def)
    qed (use t' in simp_all)
  qed
qed

lemma uring_each_ok:
  assumes laws: "uring_laws os u v n" and bound: "\<forall>w. length (rv_cq v w) \<le> N"
    and short: "\<forall>w. \<forall>c\<in>set (rv_cq v w). length (cqe_data c) < 2048"
    and "us_ok v (cqe_keys (take k (rv_cq v (us_world s)))) s" "k \<le> length (rv_cq v (us_world s))"
  shows "\<exists>m b s'. uring_each os u listenFd k b0 s = Some (m, b, s') \<and> m \<le> length (rv_cq v (us_world s')) \<and>
    us_ok v (cqe_keys (take m (rv_cq v (us_world s')))) s'"
  using assms(4-)
proof (induction "N - k" arbitrary: k b0 s rule: less_induct)
  case less
  obtain x w where at: "ur_cqe_at u k (us_world s) = (x, w)" by fastforce
  have w: "keeps_view v (us_world s) w" "x = (if k < length (rv_cq v w) then Some (rv_cq v w ! k) else None)"
    using uring_lawsD(13) [OF laws at] by auto
  obtain new where new: "rv_cq v w = rv_cq v (us_world s) @ new" using keeps_viewD(3) [OF w(1)] by blast
  let ?s = "s\<lparr>us_world := w\<rparr>" and ?D = "cqe_keys (take k (rv_cq v w))"
  have D: "us_ok v ?D ?s" using us_ok_world(1) [OF less.prems(1) w(1)] less.prems(2) new by simp
  show ?case
  proof (cases "k < length (rv_cq v w)")
    case False
    then have "new = []" using less.prems(2) new by (cases new) simp_all
    then show ?thesis using False at w(2) D less.prems(2) new by (subst uring_each.simps) simp
  next
    case True
    let ?c = "rv_cq v w ! k"
    have c: "?c \<in> set (rv_cq v w)" using True by simp
    have "cqe_keys (take (Suc k) (rv_cq v w)) + cqe_keys (drop (Suc k) (rv_cq v w)) = cqe_keys (rv_cq v w)"
      by (metis append_take_drop_id cqe_keys_simps(3))
    then have "cqe_keys (take (Suc k) (rv_cq v w)) \<subseteq># rv_pend v w"
      using uring_lawsD(1) [OF laws, of w] by (metis mset_subset_eq_add_left subset_mset.order_trans)
    moreover have take: "cqe_keys (take (Suc k) (rv_cq v w)) = add_mset (cqe_user_data ?c) ?D"
      using True by (simp add: take_Suc_conv_app_nth)
    ultimately have "add_mset (cqe_user_data ?c) ?D \<subseteq># mset_set (dom (us_heap s)) + ?D"
      using D by (simp add: us_ok_def)
    then have "cqe_user_data ?c \<in># mset_set (dom (us_heap s))"
      by (metis add_mset_add_single add.commute mset_subset_eq_mono_add_right_cancel single_subset_iff union_commute)
    then obtain y where y: "us_heap ?s (cqe_user_data ?c) = Some y"
      using D by (auto simp: us_ok_def)
    obtain r where r: "(cqe_user_data ?c, r) \<in># rv_reqs v (us_world ?s)" "completes r ?c"
      using uring_lawsD(2) [OF laws c] by auto
    obtain b t where t: "uring_serve os u listenFd ?c ?s = Some (b, t)" "us_ok v (add_mset (cqe_user_data ?c) ?D) t"
      "\<exists>new. rv_cq v (us_world t) = rv_cq v (us_world ?s) @ new"
      by (rule uring_serve_ok [OF laws D y r]) (use short c in auto)
    obtain new' where new': "rv_cq v (us_world t) = rv_cq v w @ new'" using t(3) by auto
    have "us_ok v (cqe_keys (take (Suc k) (rv_cq v (us_world t)))) t"
      using t(2) True take by (simp add: new')
    moreover have "Suc k \<le> length (rv_cq v (us_world t))" using True new' by simp
    moreover have "k < N" using True bound by (meson less_le_trans)
    ultimately show ?thesis
      using less.hyps [of "Suc k" t "b0 \<or> b"] at w(2) True t(1) by (subst uring_each.simps) simp
  qed
qed

lemma uring_round_ok:
  assumes laws: "uring_laws os u v n" and bound: "\<forall>w. length (rv_cq v w) \<le> N"
    and short: "\<forall>w. \<forall>c\<in>set (rv_cq v w). length (cqe_data c) < 2048" and ok: "us_ok v {#} s"
  obtains s' where "uring_round os u listenFd s = Some s'" "us_ok v {#} s'"
proof -
  obtain ret w where w: "ur_wait u (us_world s) = (ret, w)" by fastforce
  have ok': "us_ok v {#} (s\<lparr>us_world := w\<rparr>)" by (rule us_ok_world(1) [OF ok uring_lawsD(12) [OF laws w]])
  show ?thesis
  proof (cases "ret < 0")
    case True
    then show ?thesis using that [OF _ ok'] w by (simp add: uring_round_def)
  next
    case False
    obtain m b t where t: "uring_each os u listenFd 0 False (s\<lparr>us_world := w\<rparr>) = Some (m, b, t)"
      "m \<le> length (rv_cq v (us_world t))" "us_ok v (cqe_keys (take m (rv_cq v (us_world t)))) t"
      using uring_each_ok [OF laws bound short, of 0 "s\<lparr>us_world := w\<rparr>" listenFd False] ok' by auto
    let ?w = "ur_advance u m (us_world t)"
    note adv = uring_lawsD(14) [OF laws t(2)]
    have "us_ok v {#} (t\<lparr>us_world := ?w\<rparr>)"
      using t(3) adv by (auto simp: us_ok_def dest: mset_subset_eqD)
    moreover from this have "us_ok v {#} (t\<lparr>us_world := ur_submit u ?w\<rparr>)"
      using uring_lawsD(10) [OF laws, of ?w] uring_pend(2) [OF laws, of ?w] by (simp add: us_ok_def)
    ultimately show ?thesis using that w False t(1) by (cases b) (simp_all add: uring_round_def Let_def)
  qed
qed

lemma uring_rounds_ok:
  assumes laws: "uring_laws os u v n" and bound: "\<forall>w. length (rv_cq v w) \<le> N"
    and short: "\<forall>w. \<forall>c\<in>set (rv_cq v w). length (cqe_data c) < 2048" and "us_ok v {#} s"
  shows "\<exists>s'. uring_rounds os u listenFd k s = Some s' \<and> us_ok v {#} s'"
  using assms(4)
proof (induction k arbitrary: s)
  case (Suc k)
  obtain t where "uring_round os u listenFd s = Some t" "us_ok v {#} t"
    by (rule uring_round_ok [OF laws bound short Suc.prems])
  then show ?case using Suc.IH by simp
qed simp

lemma uring_start_ok:
  assumes laws: "uring_laws os u v n" and "rv_reqs v w = {#}"
  shows "us_ok v {#} (uring_start u listenFd w)"
proof -
  have "us_ok v {#} \<lparr>us_heap = (\<lambda>_. None), us_next = 1, us_world = w\<rparr>"
    using assms(2) by (simp add: us_ok_def rv_pend_def)
  from set_events_ok(1) [OF laws this, of listenFd] show ?thesis
    using uring_lawsD(10) [OF laws] uring_pend(2) [OF laws] by (simp add: uring_start_def Let_def us_ok_def)
qed

subsection \<open>Accepting\<close>

definition accepting :: "'w uring_server \<Rightarrow> bool" where
  "accepting s \<longleftrightarrow> (\<exists>p c. us_heap s p = Some c \<and> uc_type c = ACCEPT)"

lemma accepting_frame [simp]: "accepting (s\<lparr>us_world := w\<rparr>) = accepting s"
  by (simp add: accepting_def)

lemma prepare_accepting: "accepting (prepare u c r s) \<Longrightarrow> uc_type c \<noteq> ACCEPT \<Longrightarrow> accepting s"
  by (auto simp: accepting_def prepare_def new_context_def split: if_splits)

text \<open>Only the completion of an accept prepares one.\<close>

lemma uring_serve_accepting:
  assumes "uring_serve os u listenFd c s = Some (b, s')" "\<not> accepting s"
  shows "\<not> accepting s'"
proof -
  have read: "accepting (srv_setReadEvent r fd x) \<Longrightarrow> accepting x" for r fd and x :: "'a uring_server"
    by (auto simp: srv_setReadEvent_def Let_def fresh_context_def dest!: prepare_accepting
        split: option.splits prod.splits if_splits)
  have send: "srv_setSendEvent r fd msg m x = Some y \<Longrightarrow> accepting y \<Longrightarrow> accepting x" for r fd msg m and x y :: "'a uring_server"
    by (auto simp: srv_setSendEvent_def Let_def fresh_context_def dest!: prepare_accepting
        split: option.splits prod.splits if_splits)
  have del: "delete_context p x = Some y \<Longrightarrow> accepting y \<Longrightarrow> accepting x" for p and x y :: "'a uring_server"
    by (fastforce simp: delete_context_def accepting_def split: option.splits if_splits)
  from assms(1) obtain t x where t: "kernel_write (cqe_user_data c) (cqe_data c) s = Some t"
    "us_heap t (cqe_user_data c) = Some x" by (auto simp: uring_serve_def bind_eq_Some_conv Let_def)
  have "\<not> accepting t" "uc_type x \<noteq> ACCEPT"
    using t assms(2) by (auto simp: kernel_write_def accepting_def bind_eq_Some_conv split: if_splits)
  then show ?thesis
    using assms(1) t
    by (cases "uc_type x") (auto simp: uring_serve_def uring_switch_def Let_def bind_eq_Some_conv dest!: del read send split: if_splits)
qed

lemma uring_each_accepting:
  assumes "uring_each os u listenFd k b0 s = Some y" "\<not> accepting s"
  shows "\<not> accepting (snd (snd y))"
  using assms
proof (induction rule: uring_each.raw_induct [rotated, consumes 1, case_names step])
  case (step f os u listenFd k b0 s y)
  obtain x w where at: "ur_cqe_at u k (us_world s) = (x, w)" by fastforce
  show ?case
  proof (cases x)
    case None
    then show ?thesis using step.hyps step.prems at by auto
  next
    case (Some c)
    then obtain b t where t: "uring_serve os u listenFd c (s\<lparr>us_world := w\<rparr>) = Some (b, t)"
      "f os u listenFd (Suc k) (b0 \<or> b) t = Some y"
      using step at by (auto simp: bind_eq_Some_conv)
    then show ?thesis using step.IH [OF t(2)] uring_serve_accepting [OF t(1)] step.prems by simp
  qed
qed

lemma uring_rounds_accepting:
  "uring_rounds os u listenFd k s = Some s' \<Longrightarrow> \<not> accepting s \<Longrightarrow> \<not> accepting s'"
proof (induction k arbitrary: s)
  case (Suc k)
  from Suc.prems(1) obtain t where t: "uring_round os u listenFd s = Some t" "uring_rounds os u listenFd k t = Some s'"
    by (auto simp: bind_eq_Some_conv)
  have "\<not> accepting t"
    using t(1) Suc.prems(2) uring_each_accepting [of os u listenFd 0 False]
    by (fastforce simp: uring_round_def bind_eq_Some_conv Let_def split: prod.splits if_splits)
  then show ?case using Suc.IH t(2) by simp
qed simp

subsection \<open>Properties\<close>

lemma uring_each_steps:
  "ur_cqe_at u k (us_world s) = (None, w) \<Longrightarrow> uring_each os u listenFd k b0 s = Some (k, b0, s\<lparr>us_world := w\<rparr>)"
  "ur_cqe_at u k (us_world s) = (Some c, w) \<Longrightarrow> uring_serve os u listenFd c (s\<lparr>us_world := w\<rparr>) = Some (b, t) \<Longrightarrow>
   uring_each os u listenFd k b0 s = uring_each os u listenFd (Suc k) (b0 \<or> b) t"
  by (simp_all add: uring_each.simps [of os u listenFd k b0 s])

definition script_chat :: ring_script where
  "script_chat = script_start [(7, []), (8, []), (2, [72, 105])]"

lemma script_chat_round:
  "uring_rounds script_sockets script_ring 3 1 (uring_start script_ring 3 script_chat) = Some
    \<lparr>us_heap = [2 \<mapsto> fresh_context\<lparr>uc_type := ACCEPT, uc_fd := - 1\<rparr>, 3 \<mapsto> fresh_context\<lparr>uc_type := RECV, uc_fd := 7\<rparr>],
     us_next = Suc 3, us_world = \<lparr>rs_sq = [], rs_cq = [((2, PrepAccept 3), 8, []), ((3, PrepRecv 7 2048), 2, [72, 105])],
       rs_results = [], rs_clock = 0\<rparr>\<rparr>"
  by (simp add: script_chat_def uring_start_def srv_setAcceptEvent_def srv_setReadEvent_def script_ring_def
    script_start_def prepare_def new_context_def fresh_context_def uring_round_def uring_each_steps script_visible_def
    uring_serve_def kernel_write_def uring_switch_def delete_context_def overwrite_def numeral_2_eq_2 numeral_3_eq_3)

text \<open>C19: as long as no receive fills its buffer of 2048 bytes, every round of the server is defined
  and ends, and after any number of rounds the contexts on the heap are exactly those of the requests in
  flight: none is leaked, none deleted twice, and no completion refers to a deleted one.\<close>

theorem uring_server_owns:
  assumes "uring_laws os u v n" "\<forall>w. length (rv_cq v w) \<le> N"
    and "\<forall>w. \<forall>c\<in>set (rv_cq v w). length (cqe_data c) < 2048" "rv_reqs v w = {#}"
  shows "\<exists>s. uring_rounds os u listenFd k (uring_start u listenFd w) = Some s \<and>
    finite (dom (us_heap s)) \<and> image_mset fst (rv_reqs v (us_world s)) = mset_set (dom (us_heap s))"
  using uring_rounds_ok [OF assms(1-3) uring_start_ok [OF assms(1,4)], of listenFd k listenFd]
  by (auto simp: us_ok_def rv_pend_def)

lemma uring_server_owns_witness:
  "\<exists>s. uring_rounds script_sockets script_ring 3 4 (uring_start script_ring 3 (script_start [(7, []), (2, [72, 105])])) = Some s \<and>
    finite (dom (us_heap s)) \<and> image_mset fst (rv_reqs script_view (us_world s)) = mset_set (dom (us_heap s))"
proof (rule uring_server_owns [OF script_laws [of 128], where N = 256])
  show "rv_reqs script_view (script_start [(7, []), (2, [72, 105])]) = {#}"
    by (simp add: script_view_def script_start_def)
qed (use script_bounded script_short in blast)+



text \<open>A completion of the accept request with an error is the end of accepting: no request to accept
  is left, and whatever is served afterwards, in this batch or in later rounds, prepares none.\<close>

theorem uring_accept_error:
  assumes "us_heap s (cqe_user_data c) = Some x" "uc_type x = ACCEPT" "cqe_res c < 0"
    and "\<forall>p y. us_heap s p = Some y \<longrightarrow> uc_type y = ACCEPT \<longrightarrow> p = cqe_user_data c"
    and "uring_serve os u listenFd c s = Some (b, s1)"
  shows "\<not> accepting s1 \<and>
    (\<forall>m b0 y. uring_each os u listenFd m b0 s1 = Some y \<longrightarrow> \<not> accepting (snd (snd y))) \<and>
    (\<forall>k t w. uring_rounds os u listenFd k (s1\<lparr>us_world := w\<rparr>) = Some t \<longrightarrow> \<not> accepting t)"
proof -
  have "us_heap s1 = (us_heap s)(cqe_user_data c := None)"
    using assms(1,3,5)
    by (auto simp: uring_serve_def kernel_write_def delete_context_def bind_eq_Some_conv Let_def split: if_splits)
  then have "\<not> accepting s1" using assms(4) by (auto simp: accepting_def split: if_splits)
  then show ?thesis using uring_each_accepting [of os u listenFd _ _ s1] uring_rounds_accepting by fastforce
qed

lemma uring_accept_error_witness:
  "\<not> accepting (\<lparr>us_heap = (\<lambda>_. None), us_next = 2, us_world = script_chat\<rparr> :: ring_script uring_server) \<and>
   (\<forall>k t w. uring_rounds script_sockets script_ring 3 k
      (\<lparr>us_heap = (\<lambda>_. None), us_next = 2, us_world = script_chat\<rparr>\<lparr>us_world := w\<rparr>) = Some t \<longrightarrow> \<not> accepting t)"
proof -
  let ?s = "\<lparr>us_heap = [1 \<mapsto> fresh_context\<lparr>uc_type := ACCEPT, uc_fd := - 1\<rparr>], us_next = 2, us_world = script_chat\<rparr>"
  let ?c = "\<lparr>cqe_user_data = 1, cqe_res = - 24, cqe_data = []\<rparr>"
  have "uring_serve script_sockets script_ring 3 ?c ?s =
      Some (False, \<lparr>us_heap = (\<lambda>_. None), us_next = 2, us_world = script_chat\<rparr>)"
    by (simp add: uring_serve_def kernel_write_def delete_context_def fresh_context_def fun_eq_iff)
  from uring_accept_error [OF _ _ _ _ this, of "fresh_context\<lparr>uc_type := ACCEPT, uc_fd := - 1\<rparr>"] show ?thesis
    by (simp split: if_splits)
qed

text \<open>A receive that fills the buffer with nonzero bytes is printed past its end.\<close>

lemma uring_full_buffer:
  assumes "us_heap s (cqe_user_data c) = Some x" "uc_type x = RECV" "length (uc_buffer x) = 2048"
    and "cqe_res c = 2048" "length (cqe_data c) = 2048" "0 \<notin> set (cqe_data c)"
  shows "uring_serve os u listenFd c s = None"
  using assms by (simp add: uring_serve_def kernel_write_def uring_switch_def overwrite_def Let_def)

end
