(* ===== verification/WinByteArray.thy ===== *)
theory WinByteArray
  imports ByteStore
begin

text \<open>
  \<open>CMCode::CMByteArray\<close> of Network/Windows/network.h and network.cpp, the byte array of the Windows
  library: a block from \<open>new char[n] {0}\<close>, its length, the number of bytes used, and a counter
  on the heap that copies share.  The objects are a list (\<open>None\<close> once destroyed), the blocks those of
  theory ByteStore, the counters a map.  A block is released with \<open>delete\<close> rather than
  \<open>delete[]\<close>; that is taken as a release.
\<close>

record wba =
  wb_buffer :: "nat option"
  wb_bufferLen :: uint
  wb_size :: uint
  wb_useCount :: nat

record wstore =
  ws_objs :: "wba option list"
  ws_mem :: bstore
  ws_counts :: "nat \<Rightarrow> int option"
  ws_next :: nat

definition empty_wstore :: wstore where
  "empty_wstore = \<lparr>ws_objs = [], ws_mem = empty_store, ws_counts = (\<lambda>_. None), ws_next = 0\<rparr>"

subsection \<open>Memory\<close>

definition wget :: "wstore \<Rightarrow> nat \<Rightarrow> wba option" where
  "wget s i = (if i < length (ws_objs s) then ws_objs s ! i else None)"

definition wset :: "wstore \<Rightarrow> nat \<Rightarrow> wba option \<Rightarrow> wstore" where
  "wset s i x = s\<lparr>ws_objs := (ws_objs s)[i := x]\<rparr>"

definition wadd :: "wstore \<Rightarrow> wba \<Rightarrow> nat \<times> wstore" where
  "wadd s x = (length (ws_objs s), s\<lparr>ws_objs := ws_objs s @ [Some x]\<rparr>)"

definition wptr :: "wba \<Rightarrow> pointer" where
  "wptr x = (case wb_buffer x of None \<Rightarrow> NullP | Some b \<Rightarrow> Buf b 0)"

text \<open>An offset of 32 bits.\<close>

definition wadv :: "pointer \<Rightarrow> uint \<Rightarrow> pointer" where
  "wadv p n = padd p (ucast n)"

definition wcopy :: "wstore \<Rightarrow> pointer \<Rightarrow> pointer \<Rightarrow> uint \<Rightarrow> wstore option" where
  "wcopy s dest src n = map_option (\<lambda>m. s\<lparr>ws_mem := m\<rparr>) (byte_memcpy (ws_mem s) dest src (unat n))"

text \<open>\<open>new char[n] {0}\<close>: no block of 0 bytes has room for the initialiser.\<close>

definition walloc :: "wstore \<Rightarrow> uint \<Rightarrow> (nat \<times> wstore) outcome" where
  "walloc s n = (if n = 0 then Some (Inl BadAlloc)
     else let m = ws_mem s; b = cm_next m
       in Some (Inr (b, s\<lparr>ws_mem := m\<lparr>cm_bufs := (cm_bufs m)(b \<mapsto> replicate (unat n) 0), cm_next := Suc b\<rparr>\<rparr>)))"

definition wfree :: "wstore \<Rightarrow> nat option \<Rightarrow> wstore option" where
  "wfree s p = (case p of None \<Rightarrow> Some s
     | Some b \<Rightarrow> let m = ws_mem s
       in (case cm_bufs m b of None \<Rightarrow> None | Some _ \<Rightarrow> Some (s\<lparr>ws_mem := m\<lparr>cm_bufs := (cm_bufs m)(b := None)\<rparr>\<rparr>)))"

definition new_count :: "wstore \<Rightarrow> nat \<times> wstore" where
  "new_count s = (ws_next s, s\<lparr>ws_counts := (ws_counts s)(ws_next s \<mapsto> 1), ws_next := Suc (ws_next s)\<rparr>)"

definition count_step :: "int \<Rightarrow> wstore \<Rightarrow> nat \<Rightarrow> wstore option" where
  "count_step d s c = map_option (\<lambda>n. s\<lparr>ws_counts := (ws_counts s)(c \<mapsto> n + d)\<rparr>) (ws_counts s c)"

text \<open>\<open>m_step\<close> times a size, through \<open>double\<close> and back to \<open>uint\<close>; a value that is not a
  \<open>uint\<close> is undefined behaviour.\<close>

definition wgrown :: "uint \<Rightarrow> uint option" where
  "wgrown n = (if unat n * 3 div 2 < 2 ^ 32 then Some (of_nat (unat n * 3 div 2)) else None)"

subsection \<open>Members\<close>

definition wba_new :: "wstore \<Rightarrow> nat \<times> wstore" where
  "wba_new s = (let (c, s) = new_count s
     in wadd s \<lparr>wb_buffer = None, wb_bufferLen = 0, wb_size = 0, wb_useCount = c\<rparr>)"

definition wba_from_bytes :: "wstore \<Rightarrow> pointer \<Rightarrow> uint \<Rightarrow> (nat \<times> wstore) outcome" where
  "wba_from_bytes s str len = noexcept (bind_outcome (walloc s len) (\<lambda>(b, s).
     bind_outcome (lift (wcopy s (Buf b 0) str len)) (\<lambda>s.
       let (c, s) = new_count s
       in Some (Inr (wadd s \<lparr>wb_buffer = Some b, wb_bufferLen = len, wb_size = len, wb_useCount = c\<rparr>)))))"

definition wba_from_cstr :: "wstore \<Rightarrow> byte list \<Rightarrow> (nat \<times> wstore) outcome" where
  "wba_from_cstr s str = bind_outcome (lift (strlen str)) (\<lambda>n. wba_from_bytes s (Ext str) (ucast n))"

definition wba_with_size :: "wstore \<Rightarrow> uint \<Rightarrow> (nat \<times> wstore) outcome" where
  "wba_with_size s len = noexcept (bind_outcome (walloc s len) (\<lambda>(b, s).
     let (c, s) = new_count s
     in Some (Inr (wadd s \<lparr>wb_buffer = Some b, wb_bufferLen = len, wb_size = 0, wb_useCount = c\<rparr>))))"

text \<open>The copy and the move constructor do the same: the object is shared.\<close>

definition wba_copy :: "wstore \<Rightarrow> nat \<Rightarrow> (nat \<times> wstore) option" where
  "wba_copy s other = do {
     x \<leftarrow> wget s other;
     s \<leftarrow> count_step 1 s (wb_useCount x);
     Some (wadd s x)
   }"

definition wba_move :: "wstore \<Rightarrow> nat \<Rightarrow> (nat \<times> wstore) option" where
  "wba_move s other = do {
     x \<leftarrow> wget s other;
     s \<leftarrow> count_step 1 s (wb_useCount x);
     Some (wadd s x)
   }"

text \<open>So do both assignments; what the object held before is not let go.\<close>

definition wba_assign :: "wstore \<Rightarrow> nat \<Rightarrow> nat \<Rightarrow> wstore option" where
  "wba_assign s i other = do {
     _ \<leftarrow> wget s i;
     x \<leftarrow> wget s other;
     s \<leftarrow> count_step 1 s (wb_useCount x);
     Some (wset s i (Some x))
   }"

definition wba_move_assign :: "wstore \<Rightarrow> nat \<Rightarrow> nat \<Rightarrow> wstore option" where
  "wba_move_assign s i other = do {
     _ \<leftarrow> wget s i;
     x \<leftarrow> wget s other;
     s \<leftarrow> count_step 1 s (wb_useCount x);
     Some (wset s i (Some x))
   }"

definition wba_freeMemory :: "wstore \<Rightarrow> wba \<Rightarrow> wstore option" where
  "wba_freeMemory s x = do {
     n \<leftarrow> ws_counts s (wb_useCount x);
     if n = 1 then wfree (s\<lparr>ws_counts := (ws_counts s)(wb_useCount x := None)\<rparr>) (wb_buffer x)
     else count_step (- 1) s (wb_useCount x)
   }"

definition wba_destroy :: "wstore \<Rightarrow> nat \<Rightarrow> wstore option" where
  "wba_destroy s i = do {
     x \<leftarrow> wget s i;
     s \<leftarrow> wba_freeMemory s x;
     Some (wset s i None)
   }"

definition wba_size :: "wstore \<Rightarrow> nat \<Rightarrow> uint option" where
  "wba_size s i = map_option wb_size (wget s i)"

definition wba_isEmpty :: "wstore \<Rightarrow> nat \<Rightarrow> bool option" where
  "wba_isEmpty s i = map_option (\<lambda>x. wb_size x = 0) (wget s i)"

definition wba_data :: "wstore \<Rightarrow> nat \<Rightarrow> (pointer \<times> uint) option" where
  "wba_data s i = map_option (\<lambda>x. (wptr x, wb_size x)) (wget s i)"

text \<open>\<open>creatMemory\<close> copies as many bytes as the new block has; the counter stays the shared one.\<close>

definition wba_creatMemory :: "wstore \<Rightarrow> nat \<Rightarrow> uint \<Rightarrow> wstore outcome" where
  "wba_creatMemory s i len = bind_outcome (lift (wget s i)) (\<lambda>x.
     bind_outcome (walloc s len) (\<lambda>(b, s). lift (do {
       s \<leftarrow> wcopy s (Buf b 0) (wptr x) len;
       n \<leftarrow> ws_counts s (wb_useCount x);
       s \<leftarrow> (if n = 1 then wfree s (wb_buffer x) else count_step (- 1) s (wb_useCount x));
       Some (wset s i (Some (x\<lparr>wb_buffer := Some b, wb_bufferLen := len\<rparr>)))
     })))"

text \<open>The two tests before the bytes are written: a shared block is replaced, then one that is too
  small; \<open>large\<close> is the new size in the second case.\<close>

definition wba_room :: "(uint \<Rightarrow> uint \<Rightarrow> uint option) \<Rightarrow> wstore \<Rightarrow> nat \<Rightarrow> uint \<Rightarrow> wstore outcome" where
  "wba_room large s i newSize = bind_outcome (lift (wget s i)) (\<lambda>x.
     bind_outcome (lift (ws_counts s (wb_useCount x))) (\<lambda>n.
     bind_outcome (if 1 < n then bind_outcome (lift (wgrown newSize)) (wba_creatMemory s i) else Some (Inr s)) (\<lambda>s.
     bind_outcome (lift (wget s i)) (\<lambda>x.
       if wb_bufferLen x < newSize then bind_outcome (lift (large (wb_bufferLen x) newSize)) (wba_creatMemory s i)
       else Some (Inr s)))))"

definition wba_append_bytes :: "wstore \<Rightarrow> nat \<Rightarrow> pointer \<Rightarrow> uint \<Rightarrow> wstore outcome" where
  "wba_append_bytes s i byte len =
     (if len = 0 then Some (Inr s)
      else bind_outcome (lift (wget s i)) (\<lambda>x.
        bind_outcome (wba_room (\<lambda>_. wgrown) s i (len + wb_size x)) (\<lambda>s. lift (do {
          x \<leftarrow> wget s i;
          s \<leftarrow> wcopy s (wadv (wptr x) (wb_size x)) byte len;
          Some (wset s i (Some (x\<lparr>wb_size := wb_size x + len\<rparr>)))
        }))))"

definition wba_append_cstr :: "wstore \<Rightarrow> nat \<Rightarrow> byte list \<Rightarrow> wstore outcome" where
  "wba_append_cstr s i str = bind_outcome (lift (strlen str)) (\<lambda>n. wba_append_bytes s i (Ext str) (ucast n))"

definition wba_append :: "wstore \<Rightarrow> nat \<Rightarrow> nat \<Rightarrow> wstore outcome" where
  "wba_append s i str = bind_outcome (lift (wba_data s str)) (\<lambda>(p, n). wba_append_bytes s i p n)"

definition wba_insert_bytes :: "wstore \<Rightarrow> nat \<Rightarrow> uint \<Rightarrow> pointer \<Rightarrow> uint \<Rightarrow> wstore outcome" where
  "wba_insert_bytes s i pos byte len = bind_outcome (lift (wget s i)) (\<lambda>x.
     if wb_size x < pos \<or> len = 0 then Some (Inr s)
     else if pos = wb_size x then wba_append_bytes s i byte len
     else bind_outcome (wba_room (\<lambda>bl n. Some (n - bl + n)) s i (wb_size x + len)) (\<lambda>s. lift (do {
       x \<leftarrow> wget s i;
       let p = wptr x;
       s \<leftarrow> wcopy s (wadv (wadv p pos) len) (wadv p pos) (wb_size x - pos);
       s \<leftarrow> wcopy s (wadv p pos) byte len;
       Some (wset s i (Some (x\<lparr>wb_size := wb_size x + len\<rparr>)))
     })))"

definition wba_insert_cstr :: "wstore \<Rightarrow> nat \<Rightarrow> uint \<Rightarrow> byte list \<Rightarrow> wstore outcome" where
  "wba_insert_cstr s i pos str = bind_outcome (lift (strlen str)) (\<lambda>n. wba_insert_bytes s i pos (Ext str) (ucast n))"

definition wba_insert :: "wstore \<Rightarrow> nat \<Rightarrow> uint \<Rightarrow> nat \<Rightarrow> wstore outcome" where
  "wba_insert s i pos str = bind_outcome (lift (wba_data s str)) (\<lambda>(p, n). wba_insert_bytes s i pos p n)"

subsection \<open>Writing\<close>

text \<open>An array that shares its counter with \<open>n - 1\<close> others, and its bytes.\<close>

definition warr :: "wstore \<Rightarrow> nat \<Rightarrow> wba \<Rightarrow> byte list \<Rightarrow> int \<Rightarrow> bool" where
  "warr s i x m n \<longleftrightarrow> wget s i = Some x \<and> ws_counts s (wb_useCount x) = Some n \<and> length m = unat (wb_bufferLen x) \<and>
     (case wb_buffer x of None \<Rightarrow> m = []
      | Some b \<Rightarrow> cm_bufs (ws_mem s) b = Some m \<and> b < cm_next (ws_mem s)) \<and> unat (wb_size x) \<le> length m"

definition wcontent :: "wstore \<Rightarrow> nat \<Rightarrow> byte list option" where
  "wcontent s i = do {
     x \<leftarrow> wget s i;
     m \<leftarrow> (case wb_buffer x of None \<Rightarrow> Some [] | Some b \<Rightarrow> cm_bufs (ws_mem s) b);
     Some (take (unat (wb_size x)) m)
   }"

lemma warr_content: "warr s i x m n \<Longrightarrow> wcontent s i = Some (take (unat (wb_size x)) m)"
  by (auto simp: warr_def wcontent_def split: option.splits)

lemma wget_wset: "wget s i \<noteq> None \<Longrightarrow> wget (wset s i y) j = (if j = i then y else wget s j)"
  by (auto simp: wget_def wset_def split: if_splits)

lemma wget_frame [simp]:
  "wget (s\<lparr>ws_mem := m\<rparr>) = wget s" "wget (s\<lparr>ws_counts := c\<rparr>) = wget s" "wget (s\<lparr>ws_next := k\<rparr>) = wget s"
  by (simp_all add: wget_def fun_eq_iff)

lemma wset_frame [simp]:
  "ws_mem (wset s i y) = ws_mem s" "ws_counts (wset s i y) = ws_counts s" "ws_next (wset s i y) = ws_next s"
  by (simp_all add: wset_def)

lemma unat_ucast_usize: "unat (ucast (n :: uint) :: usize) = unat n"
proof -
  have "unat n < 2 ^ 64" by (rule less_trans [OF unat_uint_less]) simp
  then show ?thesis by (simp only: unsigned_ucast_eq take_bit_nat_eq_self) (simp add: take_bit_nat_eq_self)
qed

lemma unat_sum_small:
  fixes a b :: uint
  assumes "unat a + unat b < 2 ^ 31"
  shows "unat (a + b) = unat a + unat b" "wgrown (a + b) = Some (of_nat ((unat a + unat b) * 3 div 2))"
    "unat (of_nat ((unat a + unat b) * 3 div 2) :: uint) = (unat a + unat b) * 3 div 2"
proof -
  show u: "unat (a + b) = unat a + unat b" by (rule unat_add_small) (use assms in simp)
  show "unat (of_nat ((unat a + unat b) * 3 div 2) :: uint) = (unat a + unat b) * 3 div 2"
    using assms by (simp add: unat_of_nat take_bit_nat_eq_self)
  show "wgrown (a + b) = Some (of_nat ((unat a + unat b) * 3 div 2))"
    unfolding wgrown_def u using assms by simp
qed

text \<open>Copying more bytes than the old block has.\<close>

lemma wba_creatMemory_larger:
  assumes "warr s i x m n" "unat (wb_bufferLen x) < unat k"
  shows "wba_creatMemory s i k = None"
proof -
  have k: "k \<noteq> 0" using assms(2) by auto
  have "wcopy t (Buf b 0) (wptr x) k = None" if "cm_bufs (ws_mem t) = (cm_bufs (ws_mem s))(cm_next (ws_mem s) \<mapsto> y)" for t b y
    using assms that by (auto simp: warr_def wcopy_def byte_memcpy_def read_ptr_def wptr_def split: option.splits)
  then show ?thesis
    using assms(1) k by (simp add: wba_creatMemory_def warr_def walloc_def Let_def)
qed

lemma wcopy_end:
  assumes "warr s i x m n" "unat (wb_size x) + length bs \<le> length m" "length bs = unat len" "len \<noteq> 0"
  obtains s' b where "wcopy s (wadv (wptr x) (wb_size x)) (Ext bs) len = Some s'" "wb_buffer x = Some b"
    "s' = s\<lparr>ws_mem := (ws_mem s)\<lparr>cm_bufs := (cm_bufs (ws_mem s))(b \<mapsto> overwrite (unat (wb_size x)) bs m)\<rparr>\<rparr>"
proof -
  obtain b where b: "wb_buffer x = Some b" "cm_bufs (ws_mem s) b = Some m"
    using assms by (cases "wb_buffer x") (auto simp: warr_def unat_eq_zero)
  have bs: "bs \<noteq> []" "unat len \<noteq> 0" using assms(3,4) by (auto simp: unat_eq_zero)
  have u: "unat (ucast (wb_size x) :: usize) = unat (wb_size x)" by (rule unat_ucast_usize)
  show ?thesis
    by (rule that [OF _ b(1) refl])
      (use assms b bs u in \<open>simp add: wcopy_def byte_memcpy_def read_ptr_def write_ptr_def wadv_def wptr_def padd_def overlaps_def\<close>)
qed

text \<open>Appending to an array of one's own either finds room, or is undefined.\<close>

lemma wba_append_own:
  assumes x: "warr s i x m 1" and bs: "length bs = unat len" "len \<noteq> 0" and small: "unat (wb_size x) + unat len < 2 ^ 31"
  shows "unat (wb_size x) + length bs \<le> unat (wb_bufferLen x) \<Longrightarrow> \<exists>s'. wba_append_bytes s i (Ext bs) len = Some (Inr s') \<and>
      wcontent s' i = Some (take (unat (wb_size x)) m @ bs) \<and> ws_counts s' = ws_counts s"
    "unat (wb_bufferLen x) < unat (wb_size x) + length bs \<Longrightarrow> wba_append_bytes s i (Ext bs) len = None"
proof -
  have small': "unat len + unat (wb_size x) < 2 ^ 31" using small by simp
  note u = unat_sum_small [OF small']
  have get: "wget s i = Some x" "ws_counts s (wb_useCount x) = Some 1" and m: "length m = unat (wb_bufferLen x)"
    using x by (auto simp: warr_def)
  {
    assume room: "unat (wb_size x) + length bs \<le> unat (wb_bufferLen x)"
    obtain s' b where s': "wcopy s (wadv (wptr x) (wb_size x)) (Ext bs) len = Some s'" "wb_buffer x = Some b"
      "s' = s\<lparr>ws_mem := (ws_mem s)\<lparr>cm_bufs := (cm_bufs (ws_mem s))(b \<mapsto> overwrite (unat (wb_size x)) bs m)\<rparr>\<rparr>"
      by (rule wcopy_end [OF x _ bs]) (use room m in simp)
    have "\<not> wb_bufferLen x < len + wb_size x" using room bs u(1) by (simp add: word_less_nat_alt)
    moreover have "unat (wb_size x + len) = unat (wb_size x) + unat len" using u(1) by (simp add: add.commute)
    ultimately show "\<exists>s'. wba_append_bytes s i (Ext bs) len = Some (Inr s') \<and>
      wcontent s' i = Some (take (unat (wb_size x)) m @ bs) \<and> ws_counts s' = ws_counts s"
      using get s' bs room m
      by (simp add: wba_append_bytes_def wba_room_def wcontent_def wget_wset overwrite_def)
  next
    assume no: "unat (wb_bufferLen x) < unat (wb_size x) + length bs"
    then have "wb_bufferLen x < len + wb_size x" using bs u(1) by (simp add: word_less_nat_alt)
    moreover have "wba_creatMemory s i (of_nat ((unat len + unat (wb_size x)) * 3 div 2)) = None"
      by (rule wba_creatMemory_larger [OF x]) (use no bs u(3) in simp)
    ultimately show "wba_append_bytes s i (Ext bs) len = None"
      using get bs u(2) by (simp add: wba_append_bytes_def wba_room_def)
  }
qed

subsection \<open>Sharing\<close>

text \<open>Arrays that are only made, copied and destroyed: each counter counts the objects that hold it,
  and every object has the block of its counter.\<close>

definition holders :: "(nat \<Rightarrow> wba option) \<Rightarrow> nat \<Rightarrow> nat set" where
  "holders f c = {i. \<exists>x. f i = Some x \<and> wb_useCount x = c}"

definition same_block :: "wba \<Rightarrow> wba \<Rightarrow> bool" where
  "same_block x y \<longleftrightarrow> (wb_useCount x = wb_useCount y \<longrightarrow> wb_buffer x = wb_buffer y) \<and>
     (wb_buffer x = wb_buffer y \<longrightarrow> wb_buffer x \<noteq> None \<longrightarrow> wb_useCount x = wb_useCount y)"

definition share_ok :: "(nat \<Rightarrow> wba option) \<Rightarrow> (nat \<Rightarrow> int option) \<Rightarrow> (nat \<Rightarrow> byte list option) \<Rightarrow> bool" where
  "share_ok f C B \<longleftrightarrow> finite (dom f) \<and>
     (\<forall>c. C c = (if holders f c = {} then None else Some (int (card (holders f c))))) \<and>
     (\<forall>b. b \<in> dom B \<longleftrightarrow> (\<exists>i x. f i = Some x \<and> wb_buffer x = Some b)) \<and>
     (\<forall>i j x y. f i = Some x \<longrightarrow> f j = Some y \<longrightarrow> same_block x y)"

lemma ex_update:
  assumes "f n = None"
  shows "(\<exists>i y. (f(n \<mapsto> x)) i = Some y \<and> P y) \<longleftrightarrow> P x \<or> (\<exists>i y. f i = Some y \<and> P y)"
proof
  show "P x \<or> (\<exists>i y. f i = Some y \<and> P y) \<Longrightarrow> \<exists>i y. (f(n \<mapsto> x)) i = Some y \<and> P y"
    using assms by (metis fun_upd_other fun_upd_same option.distinct(1))
qed (auto split: if_splits)

lemma all_update:
  assumes "\<forall>i j y z. f i = Some y \<longrightarrow> f j = Some z \<longrightarrow> same_block y z" "\<forall>i y. f i = Some y \<longrightarrow> same_block x y"
  shows "\<forall>i j y z. (f(n \<mapsto> x)) i = Some y \<longrightarrow> (f(n \<mapsto> x)) j = Some z \<longrightarrow> same_block y z"
proof (intro allI impI)
  have refl: "same_block x x" by (simp add: same_block_def)
  have sym: "same_block z x" if "same_block x z" for z using that unfolding same_block_def by metis
  fix i j y z
  assume yz: "(f(n \<mapsto> x)) i = Some y" "(f(n \<mapsto> x)) j = Some z"
  show "same_block y z"
  proof (cases "i = n"; cases "j = n")
    assume "i = n" "j = n" with yz refl show ?thesis by simp
  next
    assume "i = n" "j \<noteq> n" with yz show ?thesis using assms(2) [rule_format, of j z] by simp
  next
    assume "i \<noteq> n" "j = n" with yz show ?thesis using sym [OF assms(2) [rule_format, of i y]] by simp
  next
    assume "i \<noteq> n" "j \<noteq> n" with yz show ?thesis using assms(1) [rule_format, of i y j z] by simp
  qed
qed

lemma share_okD:
  assumes "share_ok f C B"
  shows "finite (dom f)" "C c = (if holders f c = {} then None else Some (int (card (holders f c))))"
    "b \<in> dom B \<longleftrightarrow> (\<exists>i x. f i = Some x \<and> wb_buffer x = Some b)"
    "f i = Some x \<Longrightarrow> f j = Some y \<Longrightarrow> same_block x y"
  using assms unfolding share_ok_def by blast+

lemma finite_holders: "finite (dom f) \<Longrightarrow> finite (holders f c)"
  by (rule finite_subset [of _ "dom f"]) (auto simp: holders_def)

lemma holders_add: "f n = None \<Longrightarrow> holders (f(n \<mapsto> x)) c = (if c = wb_useCount x then insert n (holders f c) else holders f c)"
  by (auto simp: holders_def)

lemma holders_del: "f i = Some x \<Longrightarrow> holders (f(i := None)) c = (if c = wb_useCount x then holders f c - {i} else holders f c)"
  by (auto simp: holders_def)

lemma holders_self: "f i = Some x \<Longrightarrow> i \<in> holders f (wb_useCount x)"
  by (auto simp: holders_def)

lemma share_count:
  assumes "share_ok f C B" "f i = Some x"
  shows "C (wb_useCount x) = Some (int (card (holders f (wb_useCount x))))" "0 < card (holders f (wb_useCount x))"
  using assms holders_self [of f i x, OF assms(2)] finite_holders [of f "wb_useCount x"] by (auto simp: share_ok_def card_gt_0_iff)

lemma share_copy:
  assumes ok: "share_ok f C B" and x: "f i = Some x" and n: "f n = None" and k: "C (wb_useCount x) = Some k"
  shows "share_ok (f(n \<mapsto> x)) (C(wb_useCount x \<mapsto> k + 1)) B"
  unfolding share_ok_def
proof (intro conjI allI)
  fix c b
  have "n \<notin> holders f c" using n by (auto simp: holders_def)
  then show "(C(wb_useCount x \<mapsto> k + 1)) c = (if holders (f(n \<mapsto> x)) c = {} then None
      else Some (int (card (holders (f(n \<mapsto> x)) c))))"
    using share_okD(1,2) [OF ok] share_count [OF ok x] k finite_holders [of f c]
    by (cases "c = wb_useCount x") (simp_all add: holders_add [of f n x, OF n])
  show "b \<in> dom B \<longleftrightarrow> (\<exists>i y. (f(n \<mapsto> x)) i = Some y \<and> wb_buffer y = Some b)"
    unfolding share_okD(3) [OF ok] ex_update [of f n x "\<lambda>y. wb_buffer y = Some b", OF n] using x by blast
next
  show "finite (dom (f(n \<mapsto> x)))" using share_okD(1) [OF ok] by simp
  show "(f(n \<mapsto> x)) i' = Some y \<longrightarrow> (f(n \<mapsto> x)) j = Some z \<longrightarrow> same_block y z" for i' j y z
    using all_update [of f x n] share_okD(4) [OF ok] x by blast
qed

lemma share_new:
  assumes ok: "share_ok f C B" and n: "f n = None" and c: "C (wb_useCount x) = None"
    and b: "\<And>b. wb_buffer x = Some b \<Longrightarrow> B b = None"
  shows "share_ok (f(n \<mapsto> x)) (C(wb_useCount x \<mapsto> 1)) (case wb_buffer x of None \<Rightarrow> B | Some b \<Rightarrow> B(b \<mapsto> m))"
  unfolding share_ok_def
proof (intro conjI allI)
  have empty: "holders f (wb_useCount x) = {}" using share_okD(2) [OF ok, of "wb_useCount x"] c by (simp split: if_splits)
  have apart: "same_block x y" if y: "f i = Some y" for i y
  proof -
    have "wb_useCount y \<noteq> wb_useCount x" using y empty holders_self [of f i y] by auto
    moreover have "wb_buffer y = Some a \<Longrightarrow> wb_buffer x \<noteq> Some a" for a
      using share_okD(3) [OF ok, of a] y b [of a] by (auto simp: domIff)
    then have "wb_buffer x = wb_buffer y \<Longrightarrow> wb_buffer x = None" by (cases "wb_buffer y") auto
    ultimately show ?thesis by (simp add: same_block_def)
  qed
  fix c b'
  show "(C(wb_useCount x \<mapsto> 1)) c = (if holders (f(n \<mapsto> x)) c = {} then None
      else Some (int (card (holders (f(n \<mapsto> x)) c))))"
    using share_okD(2) [OF ok] empty by (simp add: holders_add [of f n x, OF n])
  have "b' \<in> dom (case wb_buffer x of None \<Rightarrow> B | Some b \<Rightarrow> B(b \<mapsto> m)) \<longleftrightarrow> wb_buffer x = Some b' \<or> b' \<in> dom B"
    by (auto split: option.splits)
  then show "b' \<in> dom (case wb_buffer x of None \<Rightarrow> B | Some b \<Rightarrow> B(b \<mapsto> m)) \<longleftrightarrow>
      (\<exists>i y. (f(n \<mapsto> x)) i = Some y \<and> wb_buffer y = Some b')"
    unfolding ex_update [of f n x "\<lambda>y. wb_buffer y = Some b'", OF n] share_okD(3) [OF ok] .
  show "finite (dom (f(n \<mapsto> x)))" using share_okD(1) [OF ok] by simp
  show "(f(n \<mapsto> x)) i' = Some y \<longrightarrow> (f(n \<mapsto> x)) j = Some z \<longrightarrow> same_block y z" for i' j y z
    using all_update [of f x n] share_okD(4) [OF ok] apart by blast
qed

text \<open>What \<open>freeMemory\<close> does to the blocks and counters.\<close>

lemma share_del:
  assumes ok: "share_ok f C B" and x: "f i = Some x" and k: "C (wb_useCount x) = Some k"
  shows "k = 1 \<Longrightarrow> share_ok (f(i := None)) (C(wb_useCount x := None))
      (case wb_buffer x of None \<Rightarrow> B | Some b \<Rightarrow> B(b := None))" (is "_ \<Longrightarrow> ?last")
    "k \<noteq> 1 \<Longrightarrow> share_ok (f(i := None)) (C(wb_useCount x \<mapsto> k - 1)) B" (is "_ \<Longrightarrow> ?shared")
proof -
  let ?H = "holders f (wb_useCount x)"
  have H: "finite ?H" "i \<in> ?H" "k = int (card ?H)"
    using share_okD(1) [OF ok] share_count [OF ok x] k finite_holders holders_self [of f i x, OF x] by auto
  then have card: "card (?H - {i}) = card ?H - 1" "0 < card ?H" by (auto simp: card_gt_0_iff)
  have rest: "(f(i := None)) i' = Some y \<Longrightarrow> (f(i := None)) j = Some z \<Longrightarrow> same_block y z" for i' j y z
    using share_okD(4) [OF ok, of i' y j z] by (simp split: if_splits)
  have fin: "finite (dom (f(i := None)))" using share_okD(1) [OF ok] by simp
  have fd: "(\<exists>i' y. (f(i := None)) i' = Some y \<and> wb_buffer y = Some b) \<longleftrightarrow>
      (\<exists>i' y. i' \<noteq> i \<and> f i' = Some y \<and> wb_buffer y = Some b)" for b
    by (auto split: if_splits)
  {
    assume "k = 1"
    then have only: "?H = {i}" using H by (metis card_1_singletonE of_nat_eq_1_iff singletonD)
    have alone: "i' = i" if "f i' = Some y" "wb_buffer y = wb_buffer x" "wb_buffer x \<noteq> None" for i' y
      using share_okD(4) [OF ok that(1) x] that only holders_self [of f i' y, OF that(1)]
      by (simp add: same_block_def)
    show ?last
      unfolding share_ok_def
    proof (intro conjI allI impI)
      fix c b
      show "(C(wb_useCount x := None)) c = (if holders (f(i := None)) c = {} then None
        else Some (int (card (holders (f(i := None)) c))))"
        using share_okD(2) [OF ok] only by (simp add: holders_del [of f i x, OF x])
      have "b \<in> dom (case wb_buffer x of None \<Rightarrow> B | Some b \<Rightarrow> B(b := None)) \<longleftrightarrow> b \<in> dom B \<and> wb_buffer x \<noteq> Some b"
        by (auto split: option.splits if_splits)
      also have "\<dots> \<longleftrightarrow> (\<exists>i' y. i' \<noteq> i \<and> f i' = Some y \<and> wb_buffer y = Some b)"
        unfolding share_okD(3) [OF ok] using alone x by (metis option.distinct(1) option.inject)
      finally show "b \<in> dom (case wb_buffer x of None \<Rightarrow> B | Some b \<Rightarrow> B(b := None)) \<longleftrightarrow>
        (\<exists>i' y. (f(i := None)) i' = Some y \<and> wb_buffer y = Some b)" unfolding fd .
    qed (use rest fin in auto)
  next
    assume "k \<noteq> 1"
    then have "?H \<noteq> {i}" using H(3) by auto
    then obtain j where j: "j \<in> ?H" "j \<noteq> i" using H(2) by blast
    then obtain y where y: "f j = Some y" "wb_useCount y = wb_useCount x" by (auto simp: holders_def)
    then have yb: "wb_buffer y = wb_buffer x" using share_okD(4) [OF ok y(1) x] by (simp add: same_block_def)
    show ?shared
      unfolding share_ok_def
    proof (intro conjI allI impI)
      fix c b
      show "(C(wb_useCount x \<mapsto> k - 1)) c = (if holders (f(i := None)) c = {} then None
        else Some (int (card (holders (f(i := None)) c))))"
        using share_okD(2) [OF ok] j H card by (auto simp: holders_del [of f i x, OF x] of_nat_diff)
      show "b \<in> dom B \<longleftrightarrow> (\<exists>i' y. (f(i := None)) i' = Some y \<and> wb_buffer y = Some b)"
        unfolding fd share_okD(3) [OF ok] using x y(1) yb j(2) by (metis option.inject)
    qed (use rest fin in auto)
  }
qed

definition wstore_ok :: "wstore \<Rightarrow> bool" where
  "wstore_ok s \<longleftrightarrow> share_ok (wget s) (ws_counts s) (cm_bufs (ws_mem s)) \<and>
     (\<forall>c. ws_counts s c \<noteq> None \<longrightarrow> c < ws_next s) \<and>
     (\<forall>b. cm_bufs (ws_mem s) b \<noteq> None \<longrightarrow> b < cm_next (ws_mem s))"

lemma wstore_fresh:
  assumes "wstore_ok s"
  shows "ws_counts s (ws_next s) = None" "cm_bufs (ws_mem s) (cm_next (ws_mem s)) = None"
  using assms unfolding wstore_ok_def by blast+

lemma wget_wadd: "wget (snd (wadd s x)) = (wget s)(length (ws_objs s) \<mapsto> x)"
  by (auto simp: wadd_def wget_def nth_append fun_eq_iff)

lemma wadd_frame [simp]:
  "ws_mem (snd (wadd s x)) = ws_mem s" "ws_counts (snd (wadd s x)) = ws_counts s" "ws_next (snd (wadd s x)) = ws_next s"
  "fst (wadd s x) = length (ws_objs s)"
  by (simp_all add: wadd_def)

lemma wget_fresh: "wget s (length (ws_objs s)) = None"
  by (simp add: wget_def)

lemma wba_new_ok: "wstore_ok s \<Longrightarrow> wstore_ok (snd (wba_new s))"
  using share_new [of "wget s" "ws_counts s" "cm_bufs (ws_mem s)" "length (ws_objs s)"
      "\<lparr>wb_buffer = None, wb_bufferLen = 0, wb_size = 0, wb_useCount = ws_next s\<rparr>"] wget_fresh [of s] wstore_fresh [of s]
  by (auto simp: wstore_ok_def wba_new_def new_count_def wget_wadd less_Suc_eq)

text \<open>The two constructors that allocate a block.\<close>

lemma with_block_ok:
  assumes "wstore_ok s" "length m = n"
  shows "wstore_ok (snd (wadd (s\<lparr>ws_mem := (ws_mem s)\<lparr>cm_bufs := (cm_bufs (ws_mem s))(cm_next (ws_mem s) \<mapsto> m),
        cm_next := Suc (cm_next (ws_mem s))\<rparr>, ws_counts := (ws_counts s)(ws_next s \<mapsto> 1), ws_next := Suc (ws_next s)\<rparr>)
      \<lparr>wb_buffer = Some (cm_next (ws_mem s)), wb_bufferLen = l, wb_size = k, wb_useCount = ws_next s\<rparr>))"
  using share_new [of "wget s" "ws_counts s" "cm_bufs (ws_mem s)" "length (ws_objs s)"
      "\<lparr>wb_buffer = Some (cm_next (ws_mem s)), wb_bufferLen = l, wb_size = k, wb_useCount = ws_next s\<rparr>" m]
    wget_fresh [of s] wstore_fresh [OF assms(1)] assms
  by (auto simp: wstore_ok_def wget_wadd less_Suc_eq)

lemma wba_from_bytes_ok:
  assumes "wstore_ok s" "length bs = unat len" "len \<noteq> 0"
  obtains s' where "wba_from_bytes s (Ext bs) len = Some (Inr (length (ws_objs s), s'))" "wstore_ok s'"
    "wcontent s' (length (ws_objs s)) = Some bs"
proof -
  have len: "unat len \<noteq> 0" "bs \<noteq> []" using assms(2,3) by (auto simp: unat_eq_zero)
  let ?s = "snd (wadd (s\<lparr>ws_mem := (ws_mem s)\<lparr>cm_bufs := (cm_bufs (ws_mem s))(cm_next (ws_mem s) \<mapsto> bs),
        cm_next := Suc (cm_next (ws_mem s))\<rparr>, ws_counts := (ws_counts s)(ws_next s \<mapsto> 1), ws_next := Suc (ws_next s)\<rparr>)
      \<lparr>wb_buffer = Some (cm_next (ws_mem s)), wb_bufferLen = len, wb_size = len, wb_useCount = ws_next s\<rparr>)"
  have "wba_from_bytes s (Ext bs) len = Some (Inr (length (ws_objs s), ?s))"
    using assms(2,3) len
    by (simp add: wba_from_bytes_def walloc_def wcopy_def byte_memcpy_def read_ptr_def write_ptr_def overlaps_def
      overwrite_def new_count_def Let_def wadd_def)
  moreover have "wcontent ?s (length (ws_objs s)) = Some bs"
    using assms(2) by (simp add: wcontent_def wget_wadd)
  ultimately show ?thesis using that with_block_ok [OF assms(1) refl] by blast
qed

lemma wba_with_size_ok:
  assumes "wstore_ok s" "len \<noteq> 0"
  obtains s' where "wba_with_size s len = Some (Inr (length (ws_objs s), s'))" "wstore_ok s'"
    "wcontent s' (length (ws_objs s)) = Some []"
proof -
  let ?m = "replicate (unat len) 0"
  let ?s = "snd (wadd (s\<lparr>ws_mem := (ws_mem s)\<lparr>cm_bufs := (cm_bufs (ws_mem s))(cm_next (ws_mem s) \<mapsto> ?m),
        cm_next := Suc (cm_next (ws_mem s))\<rparr>, ws_counts := (ws_counts s)(ws_next s \<mapsto> 1), ws_next := Suc (ws_next s)\<rparr>)
      \<lparr>wb_buffer = Some (cm_next (ws_mem s)), wb_bufferLen = len, wb_size = 0, wb_useCount = ws_next s\<rparr>)"
  have "wba_with_size s len = Some (Inr (length (ws_objs s), ?s))"
    using assms(2) by (simp add: wba_with_size_def walloc_def new_count_def Let_def wadd_def)
  moreover have "wcontent ?s (length (ws_objs s)) = Some []" by (simp add: wcontent_def wget_wadd)
  ultimately show ?thesis using that with_block_ok [OF assms(1) refl] by blast
qed

lemma wba_copy_ok:
  assumes ok: "wstore_ok s" and x: "wget s i = Some x"
  obtains s' where "wba_copy s i = Some (length (ws_objs s), s')" "wba_move s i = Some (length (ws_objs s), s')" "wstore_ok s'"
proof -
  have sh: "share_ok (wget s) (ws_counts s) (cm_bufs (ws_mem s))" using ok by (simp add: wstore_ok_def)
  obtain k where k: "ws_counts s (wb_useCount x) = Some k" using share_count(1) [OF sh x] by blast
  let ?s = "snd (wadd (s\<lparr>ws_counts := (ws_counts s)(wb_useCount x \<mapsto> k + 1)\<rparr>) x)"
  have "wstore_ok ?s"
    using ok k share_copy [OF sh x wget_fresh k] by (auto simp: wstore_ok_def wget_wadd)
  then show ?thesis using that [of ?s] x k by (simp add: wba_copy_def wba_move_def count_step_def wadd_def)
qed

lemma wget_wset_fun: "wget s i \<noteq> None \<Longrightarrow> wget (wset s i y) = (wget s)(i := y)"
  by (simp add: fun_eq_iff wget_wset)

lemma wba_destroy_ok:
  assumes ok: "wstore_ok s" and x: "wget s i = Some x"
  obtains s' where "wba_destroy s i = Some s'" "wstore_ok s'"
proof -
  have sh: "share_ok (wget s) (ws_counts s) (cm_bufs (ws_mem s))" using ok by (simp add: wstore_ok_def)
  obtain k where k: "ws_counts s (wb_useCount x) = Some k" using share_count(1) [OF sh x] by blast
  note del = share_del [OF sh x k]
  have buf: "wb_buffer x = Some b \<Longrightarrow> \<exists>m. cm_bufs (ws_mem s) b = Some m" for b
    using share_okD(3) [OF sh, of b] x by (auto simp: domIff)
  show ?thesis
  proof (cases "k = 1")
    case False
    let ?s = "wset (s\<lparr>ws_counts := (ws_counts s)(wb_useCount x \<mapsto> k - 1)\<rparr>) i None"
    have "wstore_ok ?s" using ok del(2) [OF False] k x by (auto simp: wstore_ok_def wget_wset_fun)
    then show ?thesis using that [of ?s] x k False by (simp add: wba_destroy_def wba_freeMemory_def count_step_def)
  next
    case True
    let ?t = "s\<lparr>ws_counts := (ws_counts s)(wb_useCount x := None)\<rparr>"
    show ?thesis
    proof (cases "wb_buffer x")
      case None
      have "wstore_ok (wset ?t i None)"
        using ok del(1) [OF True] x None by (auto simp: wstore_ok_def wget_wset_fun)
      then show ?thesis using that [of "wset ?t i None"] x k True None by (simp add: wba_destroy_def wba_freeMemory_def wfree_def)
    next
      case (Some b)
      let ?u = "?t\<lparr>ws_mem := (ws_mem s)\<lparr>cm_bufs := (cm_bufs (ws_mem s))(b := None)\<rparr>\<rparr>"
      have "wstore_ok (wset ?u i None)"
        using ok del(1) [OF True] x Some by (auto simp: wstore_ok_def wget_wset_fun split: if_splits)
      then show ?thesis
        using that [of "wset ?u i None"] x k True Some buf [OF Some]
        by (auto simp: wba_destroy_def wba_freeMemory_def wfree_def Let_def)
    qed
  qed
qed

text \<open>The stores that constructions, copies and destructions lead to.\<close>

inductive wreach :: "wstore \<Rightarrow> bool" where
  wr_start: "wreach empty_wstore"
| wr_new: "wreach s \<Longrightarrow> wreach (snd (wba_new s))"
| wr_bytes: "wreach s \<Longrightarrow> length bs = unat len \<Longrightarrow> wba_from_bytes s (Ext bs) len = Some (Inr (i, s')) \<Longrightarrow> wreach s'"
| wr_sized: "wreach s \<Longrightarrow> wba_with_size s len = Some (Inr (i, s')) \<Longrightarrow> wreach s'"
| wr_copy: "wreach s \<Longrightarrow> wba_copy s i = Some (j, s') \<Longrightarrow> wreach s'"
| wr_move: "wreach s \<Longrightarrow> wba_move s i = Some (j, s') \<Longrightarrow> wreach s'"
| wr_destroy: "wreach s \<Longrightarrow> wba_destroy s i = Some s' \<Longrightarrow> wreach s'"

lemma alloc_zero: "wba_from_bytes s p 0 = Some (Inl Terminate)" "wba_with_size s 0 = Some (Inl Terminate)"
  by (simp_all add: wba_from_bytes_def wba_with_size_def walloc_def)

lemma wreach_ok: "wreach s \<Longrightarrow> wstore_ok s"
proof (induction rule: wreach.induct)
  case wr_start
  have "wget empty_wstore = (\<lambda>_. None)" by (simp add: wget_def empty_wstore_def fun_eq_iff)
  then show ?case by (simp add: wstore_ok_def share_ok_def empty_wstore_def empty_store_def holders_def)
next
  case (wr_bytes s bs len i s')
  then show ?case using wba_from_bytes_ok [of s bs len] alloc_zero by (cases "len = 0") auto
next
  case (wr_sized s len i s')
  then show ?case using wba_with_size_ok [of s len] alloc_zero by (cases "len = 0") auto
next
  case (wr_copy s i j s')
  then show ?case by (cases "wget s i") (auto simp: wba_copy_def elim: wba_copy_ok)
next
  case (wr_move s i j s')
  then show ?case by (cases "wget s i") (auto simp: wba_move_def elim: wba_copy_ok)
next
  case (wr_destroy s i s')
  then show ?case by (cases "wget s i") (auto simp: wba_destroy_def elim: wba_destroy_ok)
qed (simp add: wba_new_ok)

subsection \<open>Writing to a copy\<close>

text \<open>A shared block that is large enough is replaced by one of \<open>k\<close> bytes, and both arrays keep
  the counter, now 1.\<close>

lemma wba_creatMemory_shared:
  assumes x: "warr s j x m 2" and k: "k \<noteq> 0" "unat k \<le> length m" "unat (wb_size x) \<le> unat k"
  obtains s' b where "wba_creatMemory s j k = Some (Inr s')"
    "s' = wset (s\<lparr>ws_mem := (ws_mem s)\<lparr>cm_bufs := (cm_bufs (ws_mem s))(b \<mapsto> take (unat k) m), cm_next := Suc b\<rparr>,
       ws_counts := (ws_counts s)(wb_useCount x \<mapsto> 1)\<rparr>) j (Some (x\<lparr>wb_buffer := Some b, wb_bufferLen := k\<rparr>))"
    "b = cm_next (ws_mem s)" "warr s' j (x\<lparr>wb_buffer := Some b, wb_bufferLen := k\<rparr>) (take (unat k) m) 1"
proof -
  let ?b = "cm_next (ws_mem s)"
  have k0: "unat k \<noteq> 0" using k(1) by (simp add: unat_eq_zero)
  then obtain a where a: "wb_buffer x = Some a" "cm_bufs (ws_mem s) a = Some m" "a < ?b"
    using x k(2) by (cases "wb_buffer x") (auto simp: warr_def)
  have take: "take (unat k) m \<noteq> []" using k0 k(2) by auto
  have get: "wget s j = Some x" "ws_counts s (wb_useCount x) = Some 2" using x by (auto simp: warr_def)
  let ?s = "wset (s\<lparr>ws_mem := (ws_mem s)\<lparr>cm_bufs := (cm_bufs (ws_mem s))(?b \<mapsto> take (unat k) m), cm_next := Suc ?b\<rparr>,
       ws_counts := (ws_counts s)(wb_useCount x \<mapsto> 1)\<rparr>) j (Some (x\<lparr>wb_buffer := Some ?b, wb_bufferLen := k\<rparr>))"
  have "wba_creatMemory s j k = Some (Inr ?s)"
    using get a k(1,2) k0 take
    by (simp add: wba_creatMemory_def walloc_def Let_def wcopy_def wptr_def byte_memcpy_def read_ptr_def write_ptr_def overlaps_def
      overwrite_def count_step_def wset_def)
  moreover have "warr ?s j (x\<lparr>wb_buffer := Some ?b, wb_bufferLen := k\<rparr>) (take (unat k) m) 1"
    using get k by (simp add: warr_def wget_wset_fun)
  ultimately show ?thesis using that by blast
qed

lemma wba_destroy_last:
  assumes "wget s i = Some x" "ws_counts s (wb_useCount x) = Some 1" "wb_buffer x = Some b" "cm_bufs (ws_mem s) b \<noteq> None"
    and "wget s j = Some y" "i \<noteq> j" "wb_useCount y = wb_useCount x"
  shows "\<exists>t. wba_destroy s i = Some t \<and> wba_destroy t j = None"
  using assms by (auto simp: wba_destroy_def wba_freeMemory_def wfree_def wget_wset_fun Let_def)

subsection \<open>Properties\<close>


definition one_array :: wstore where
  "one_array = snd (wba_new empty_wstore)"


text \<open>\<open>append\<close> to an array that is not shared adds the bytes if its block has room for them, and is
  undefined if not: the larger block is filled by copying its whole length from the old one.\<close>

theorem wba_append_fits:
  assumes "wget s i = Some x" "ws_counts s (wb_useCount x) = Some 1" "unat (wb_size x) \<le> unat (wb_bufferLen x)"
    and "case wb_buffer x of None \<Rightarrow> wb_bufferLen x = 0
         | Some b \<Rightarrow> \<exists>m. cm_bufs (ws_mem s) b = Some m \<and> length m = unat (wb_bufferLen x) \<and> b < cm_next (ws_mem s)"
    and "length bs = unat len" "len \<noteq> 0" "unat (wb_size x) + unat len < 2 ^ 31"
  shows "if unat (wb_size x) + unat len \<le> unat (wb_bufferLen x)
    then \<exists>s' old. wba_append_bytes s i (Ext bs) len = Some (Inr s') \<and> wcontent s i = Some old \<and> wcontent s' i = Some (old @ bs)
    else wba_append_bytes s i (Ext bs) len = None"
proof -
  obtain m where "warr s i x m 1"
    using assms(1-4) by (cases "wb_buffer x") (auto simp: warr_def)
  from wba_append_own [OF this assms(5-7)] warr_content [OF this] show ?thesis using assms(5) by auto
qed

definition roomy_array :: wstore where
  "roomy_array = snd (wadd \<lparr>ws_objs = [], ws_mem = \<lparr>cm_objs = [], cm_bufs = [0 \<mapsto> [104, 105, 0, 0, 0, 0]], cm_next = 1\<rparr>,
     ws_counts = [0 \<mapsto> 1], ws_next = 1\<rparr> \<lparr>wb_buffer = Some 0, wb_bufferLen = 6, wb_size = 2, wb_useCount = 0\<rparr>)"

lemma roomy_simps:
  "wget roomy_array 0 = Some \<lparr>wb_buffer = Some 0, wb_bufferLen = 6, wb_size = 2, wb_useCount = 0\<rparr>"
  "ws_counts roomy_array 0 = Some 1" "ws_mem roomy_array = \<lparr>cm_objs = [], cm_bufs = [0 \<mapsto> [104, 105, 0, 0, 0, 0]], cm_next = 1\<rparr>"
  by (simp_all add: roomy_array_def wadd_def wget_def)

lemma wba_append_fits_witness:
  "(\<exists>s' old. wba_append_bytes roomy_array 0 (Ext [33]) 1 = Some (Inr s') \<and> wcontent roomy_array 0 = Some old \<and>
      wcontent s' 0 = Some (old @ [33])) \<and>
   wba_append_bytes roomy_array 0 (Ext [1, 2, 3, 4, 5]) 5 = None"
  using wba_append_fits [OF roomy_simps(1), of "[33]" 1] wba_append_fits [OF roomy_simps(1), of "[1, 2, 3, 4, 5]" 5]
  by (simp add: roomy_simps)

text \<open>A write to a copy detaches it from the block but not from the counter: both arrays have the
  right bytes, and whichever of the two is destroyed second finds its counter freed, which is undefined.\<close>

theorem wba_detach_breaks:
  assumes "warr s i x m 1" "wb_buffer x \<noteq> None" "length bs = unat len" "len \<noteq> 0"
    and "(unat (wb_size x) + unat len) * 3 div 2 \<le> unat (wb_bufferLen x)" "unat (wb_size x) + unat len < 2 ^ 31"
  shows "\<exists>j s1 s2 old. wba_copy s i = Some (j, s1) \<and> wba_append_bytes s1 j (Ext bs) len = Some (Inr s2) \<and>
    wcontent s i = Some old \<and> wcontent s2 i = Some old \<and> wcontent s2 j = Some (old @ bs) \<and>
    (\<exists>t. wba_destroy s2 i = Some t \<and> wba_destroy t j = None) \<and> (\<exists>t. wba_destroy s2 j = Some t \<and> wba_destroy t i = None)"
proof -
  obtain b where b: "wb_buffer x = Some b" "cm_bufs (ws_mem s) b = Some m" "b < cm_next (ws_mem s)"
    using assms(1,2) by (auto simp: warr_def)
  have get: "wget s i = Some x" "ws_counts s (wb_useCount x) = Some 1" and m: "length m = unat (wb_bufferLen x)"
    and sz: "unat (wb_size x) \<le> length m" using assms(1) by (auto simp: warr_def)
  let ?j = "length (ws_objs s)" and ?s1 = "snd (wadd (s\<lparr>ws_counts := (ws_counts s)(wb_useCount x \<mapsto> 2)\<rparr>) x)"
  have ij: "i \<noteq> ?j" using get(1) wget_fresh [of s] by auto
  have copy: "wba_copy s i = Some (?j, ?s1)" using get by (simp add: wba_copy_def count_step_def wadd_def)
  have x1: "warr ?s1 ?j x m 2" using b m sz by (simp add: warr_def wget_wadd)
  have small: "unat len + unat (wb_size x) < 2 ^ 31" using assms(6) by simp
  note u = unat_sum_small [OF small]
  define k :: uint where "k = of_nat ((unat len + unat (wb_size x)) * 3 div 2)"
  have uk: "unat k = (unat len + unat (wb_size x)) * 3 div 2" using u(3) by (simp add: k_def)
  have "unat len \<noteq> 0" using assms(4) by (simp add: unat_eq_zero)
  then have k: "unat k \<noteq> 0" "unat k \<le> length m" "unat (wb_size x) + unat len \<le> unat k"
    using assms(5) m by (auto simp: uk add.commute)
  then have k': "k \<noteq> 0" "unat (wb_size x) \<le> unat k" by auto
  obtain s' nb where s': "wba_creatMemory ?s1 ?j k = Some (Inr s')"
    "s' = wset (?s1\<lparr>ws_mem := (ws_mem ?s1)\<lparr>cm_bufs := (cm_bufs (ws_mem ?s1))(nb \<mapsto> take (unat k) m), cm_next := Suc nb\<rparr>,
       ws_counts := (ws_counts ?s1)(wb_useCount x \<mapsto> 1)\<rparr>) ?j (Some (x\<lparr>wb_buffer := Some nb, wb_bufferLen := k\<rparr>))"
    "nb = cm_next (ws_mem ?s1)" "warr s' ?j (x\<lparr>wb_buffer := Some nb, wb_bufferLen := k\<rparr>) (take (unat k) m) 1"
    by (rule wba_creatMemory_shared [OF x1 k'(1) k(2) k'(2)])
  let ?x = "x\<lparr>wb_buffer := Some nb, wb_bufferLen := k\<rparr>"
  obtain s'' b' where s'': "wcopy s' (wadv (wptr ?x) (wb_size ?x)) (Ext bs) len = Some s''" "wb_buffer ?x = Some b'"
    "s'' = s'\<lparr>ws_mem := (ws_mem s')\<lparr>cm_bufs := (cm_bufs (ws_mem s'))(b' \<mapsto> overwrite (unat (wb_size ?x)) bs (take (unat k) m))\<rparr>\<rparr>"
    by (rule wcopy_end [OF s'(4) _ assms(3,4)]) (use k assms(3) in simp)
  let ?s2 = "wset s'' ?j (Some (?x\<lparr>wb_size := wb_size x + len\<rparr>))"
  have get': "wget s' = (wget s)(?j \<mapsto> ?x)" using s'(2) by (simp add: wget_wset_fun wget_wadd)
  have nlt: "\<not> k < len + wb_size x" using k(3) u(1) by (simp add: word_less_nat_alt)
  have "wba_room (\<lambda>_. wgrown) ?s1 ?j (len + wb_size x) = Some (Inr s')"
    using x1 u(2) s'(1) get' nlt by (simp add: wba_room_def warr_def k_def)
  then have app: "wba_append_bytes ?s1 ?j (Ext bs) len = Some (Inr ?s2)"
    using x1 s''(1) get' assms(4) by (simp add: wba_append_bytes_def warr_def)
  have get2: "wget ?s2 = (wget s)(?j \<mapsto> ?x\<lparr>wb_size := wb_size x + len\<rparr>)" using s''(3) get' by (simp add: wget_wset_fun)
  have nb: "nb \<noteq> b" using s'(3) b(3) by simp
  have bufs: "cm_bufs (ws_mem ?s2) nb = Some (overwrite (unat (wb_size x)) bs (take (unat k) m))"
    "cm_bufs (ws_mem ?s2) b = Some m"
    using s''(2,3) s'(2) nb b(2) by simp_all
  have cnt: "ws_counts ?s2 (wb_useCount x) = Some 1" using s''(3) s'(2) by simp
  have "unat (wb_size x + len) = unat (wb_size x) + unat len" using u(1) by (simp add: add.commute)
  then have c2: "wcontent ?s2 ?j = Some (take (unat (wb_size x)) m @ bs)"
    using get2 bufs(1) k(2,3) assms(3) by (simp add: wcontent_def overwrite_def min_def)
  have ci: "wcontent s i = Some (take (unat (wb_size x)) m)" "wcontent ?s2 i = Some (take (unat (wb_size x)) m)"
    using get(1) b get2 bufs(2) ij by (simp_all add: wcontent_def)
  have "\<exists>t. wba_destroy ?s2 i = Some t \<and> wba_destroy t ?j = None"
    by (rule wba_destroy_last [of _ i x b ?j "?x\<lparr>wb_size := wb_size x + len\<rparr>"]) (use get2 get b bufs cnt ij in simp_all)
  moreover have "\<exists>t. wba_destroy ?s2 ?j = Some t \<and> wba_destroy t i = None"
    by (rule wba_destroy_last [of _ ?j "?x\<lparr>wb_size := wb_size x + len\<rparr>" nb i x]) (use get2 get b bufs cnt ij in simp_all)
  ultimately show ?thesis using copy app c2 ci by blast
qed

lemma wba_detach_breaks_witness:
  "\<exists>j s1 s2. wba_copy roomy_array 0 = Some (j, s1) \<and> wba_append_bytes s1 j (Ext [33]) 1 = Some (Inr s2) \<and>
    (\<exists>t. wba_destroy s2 0 = Some t \<and> wba_destroy t j = None)"
proof -
  have "warr roomy_array 0 \<lparr>wb_buffer = Some 0, wb_bufferLen = 6, wb_size = 2, wb_useCount = 0\<rparr> [104, 105, 0, 0, 0, 0] 1"
    by (simp add: warr_def roomy_simps)
  from wba_detach_breaks [OF this, of "[33]" 1] show ?thesis by auto
qed

end
