(* ===== verification/WinSocket.thy ===== *)
theory WinSocket
  imports WinByteArray OsCalls MemWords
begin

text \<open>
  Network/Windows/network.cpp: \<open>CMHostAddress\<close>, \<open>CMSocket\<close>, \<open>CMTcpSocket\<close> and
  \<open>CMTcpServer\<close>.  The calls of Winsock are those of OsCalls, with the ones that have no counterpart
  there in the record \<open>wsa\<close>; \<open>WSAGetLastError\<close> after a failed call is its error.  The bytes a
  receive leaves in \<open>m_buffer\<close> are read at once and not kept.  The text of an error is kept as its
  two parts.  \<open>u_long\<close> has 32 bits.
\<close>

unbundle bit_operations_syntax

record 'w wsa =
  wsa_nonblock :: "int \<Rightarrow> 'w \<Rightarrow> 'w"
  wsa_peek :: "int \<Rightarrow> nat \<Rightarrow> 'w \<Rightarrow> byte list syscall \<times> 'w"
  wsa_sleep :: "uint \<Rightarrow> 'w \<Rightarrow> 'w"
  wsa_now :: "'w \<Rightarrow> nat \<times> 'w"
  wsa_soerror :: "int \<Rightarrow> nat \<Rightarrow> 'w \<Rightarrow> byte syscall \<times> 'w"
  wsa_last_error :: "'w \<Rightarrow> int"
  wsa_inet_pton :: "byte list \<Rightarrow> uint option"
  wsa_inet_ntop :: "uint \<Rightarrow> byte list"
  wsa_getaddrinfo :: "byte list \<Rightarrow> 'w \<Rightarrow> uint list option \<times> 'w"

definition INVALID_SOCKET :: int where "INVALID_SOCKET = - 1"
definition WSAEWOULDBLOCK :: int where "WSAEWOULDBLOCK = 10035"
definition WSAEADDRINUSE :: int where "WSAEADDRINUSE = 10048"

subsection \<open>CMHostAddress\<close>

text \<open>\<open>reverseByteEndian\<close> on the bytes at its pointer, and on the object representation of a
  32-bit number.\<close>

definition swap_bytes :: "nat \<Rightarrow> byte list \<Rightarrow> byte list" where
  "swap_bytes i bs = (let tmpValue = bs ! i; bs = bs[i := bs ! (length bs - 1 - i)]
     in bs[length bs - 1 - i := tmpValue])"

definition reverseByteEndian :: "byte list \<Rightarrow> byte list" where
  "reverseByteEndian bs = fold swap_bytes [0..<length bs div 2] bs"

definition reverse_uint :: "uint \<Rightarrow> uint" where
  "reverse_uint w = (case reverseByteEndian (bytes32 w) of [b0, b1, b2, b3] \<Rightarrow> word32 b0 b1 b2 b3 | _ \<Rightarrow> 0)"

datatype common_host = Null | AnyIpv4 | LocalHost

definition host_of_common :: "common_host \<Rightarrow> uint" where
  "host_of_common host = (case host of Null \<Rightarrow> - 1 | AnyIpv4 \<Rightarrow> 0 | LocalHost \<Rightarrow> 0x0100007F)"

definition host_of_text :: "'w wsa \<Rightarrow> byte list \<Rightarrow> uint" where
  "host_of_text wsa ip = (case wsa_inet_pton wsa ip of None \<Rightarrow> - 1 | Some a \<Rightarrow> a)"

definition host_of_uint :: "uint \<Rightarrow> uint" where
  "host_of_uint ip = reverse_uint ip"

definition host_isNull :: "uint \<Rightarrow> bool" where
  "host_isNull m_ip = (m_ip = - 1)"

definition host_toString :: "'w wsa \<Rightarrow> uint \<Rightarrow> byte list" where
  "host_toString wsa m_ip = (if host_isNull m_ip then [] else wsa_inet_ntop wsa m_ip)"

definition host_ip :: "uint \<Rightarrow> uint" where
  "host_ip m_ip = m_ip"

text \<open>The loop over the addresses found, in memory order.\<close>

fun first_host :: "uint list \<Rightarrow> uint \<Rightarrow> uint" where
  "first_host [] hostAddr = hostAddr"
| "first_host (infor # infors) hostAddr =
     (let hostAddr = host_of_uint (reverse_uint infor)
      in if \<not> host_isNull hostAddr then hostAddr else first_host infors hostAddr)"

definition fromHostName :: "'w wsa \<Rightarrow> byte list \<Rightarrow> 'w \<Rightarrow> uint \<times> 'w" where
  "fromHostName wsa hostName w =
     (let testAddress = host_of_text wsa hostName
      in if \<not> host_isNull testAddress then (testAddress, w)
         else case wsa_getaddrinfo wsa hostName w of
           (None, w) \<Rightarrow> (host_of_common Null, w)
         | (Some addrinfor, w) \<Rightarrow> (first_host addrinfor (host_of_common Null), w))"

subsection \<open>CMSocket\<close>

type_synonym socket_error = "string \<times> int option"

record wsocket =
  sk_socket :: int
  sk_error :: "socket_error list"
  sk_bufferSize :: uint

definition m_initBufferSize :: uint where
  "m_initBufferSize = 4096"

definition sk_push :: "string \<Rightarrow> int option \<Rightarrow> wsocket \<Rightarrow> wsocket" where
  "sk_push str code v = v\<lparr>sk_error := (str, code) # sk_error v\<rparr>"

definition isValidSocket :: "wsocket \<Rightarrow> bool" where
  "isValidSocket v = (sk_socket v \<noteq> INVALID_SOCKET)"

definition sk_close :: "'w os \<Rightarrow> wsocket \<Rightarrow> 'w \<Rightarrow> wsocket \<times> 'w" where
  "sk_close os v w = (v\<lparr>sk_socket := INVALID_SOCKET\<rparr>, os_close os (sk_socket v) w)"

text \<open>The two ways a call can end the connection.\<close>

definition sk_fail :: "'w os \<Rightarrow> string \<Rightarrow> int option \<Rightarrow> wsocket \<Rightarrow> 'w \<Rightarrow> wsocket \<times> 'w" where
  "sk_fail os str code v w = sk_close os (sk_push str code v) w"

definition sk_getLastError :: "wsocket \<Rightarrow> socket_error option \<times> wsocket" where
  "sk_getLastError v = (case sk_error v of [] \<Rightarrow> (None, v) | e # es \<Rightarrow> (Some e, v\<lparr>sk_error := es\<rparr>))"

definition getSocket :: "wsocket \<Rightarrow> int" where
  "getSocket v = sk_socket v"

definition sk_readable :: "'w wsa \<Rightarrow> wsocket \<Rightarrow> 'w \<Rightarrow> bool \<times> 'w" where
  "sk_readable wsa v w =
     (if \<not> isValidSocket v then (False, w)
      else case wsa_peek wsa (sk_socket v) 1 w of
        (Done bs, w) \<Rightarrow> (bs \<noteq> [], w) | (Errno _, w) \<Rightarrow> (False, w))"

text \<open>\<open>read\<close> may ask for more than the buffer holds; more bytes than fit are written behind it.\<close>

definition sk_read ::
    "'w os \<Rightarrow> wsocket \<Rightarrow> wstore \<Rightarrow> uint \<Rightarrow> 'w \<Rightarrow> (nat \<times> wsocket \<times> wstore \<times> 'w) outcome" where
  "sk_read os v st sz w =
     (if \<not> isValidSocket v then (case wba_new st of (i, st) \<Rightarrow> Some (Inr (i, v, st, w)))
      else case os_recv os (sk_socket v) (unat sz) w of (r, w) \<Rightarrow>
        (case r of
           Done bs \<Rightarrow>
             (if bs = [] then
                (case sk_fail os ''Socket disconnect:'' None v w of (v, w) \<Rightarrow>
                   case wba_new st of (i, st) \<Rightarrow> Some (Inr (i, v, st, w)))
              else if unat (sk_bufferSize v) < length bs then None
              else bind_outcome (wba_from_bytes st (Ext bs) (of_nat (length bs))) (\<lambda>(i, st). Some (Inr (i, v, st, w))))
         | Errno error \<Rightarrow>
             (case (if error \<noteq> WSAEWOULDBLOCK then sk_fail os ''Read error:'' (Some error) v w else (v, w)) of (v, w) \<Rightarrow>
                case wba_new st of (i, st) \<Rightarrow> Some (Inr (i, v, st, w)))))"

partial_function (option) sk_readAll_loop ::
    "'w os \<Rightarrow> nat \<Rightarrow> wsocket \<Rightarrow> wstore \<Rightarrow> 'w \<Rightarrow> (wsocket \<times> wstore \<times> 'w) outcome" where
  "sk_readAll_loop os byteArray v st w = (case os_recv os (sk_socket v) (unat (sk_bufferSize v)) w of (r, w) \<Rightarrow>
     (case r of
        Done bs \<Rightarrow>
          (if bs = [] then (case sk_fail os ''Socket disconnect:'' None v w of (v, w) \<Rightarrow> Some (Inr (v, st, w)))
           else bind_outcome (wba_append_bytes st byteArray (Ext bs) (of_nat (length bs))) (\<lambda>st.
             sk_readAll_loop os byteArray v st w))
      | Errno error \<Rightarrow>
          (if error = WSAEWOULDBLOCK then Some (Inr (v, st, w))
           else (case sk_fail os ''Read error:'' (Some error) v w of (v, w) \<Rightarrow> Some (Inr (v, st, w))))))"

declare sk_readAll_loop.simps [code]

definition sk_readAll :: "'w os \<Rightarrow> wsocket \<Rightarrow> wstore \<Rightarrow> 'w \<Rightarrow> (nat \<times> wsocket \<times> wstore \<times> 'w) outcome" where
  "sk_readAll os v st w = (case wba_new st of (i, st) \<Rightarrow>
     if \<not> isValidSocket v then Some (Inr (i, v, st, w))
     else bind_outcome (sk_readAll_loop os i v st w) (\<lambda>(v, st, w). Some (Inr (i, v, st, w))))"

text \<open>The bytes at the pointer and size that \<open>data\<close> hands out.\<close>

definition wba_bytes :: "wstore \<Rightarrow> nat \<Rightarrow> byte list option" where
  "wba_bytes st i = do { (p, n) \<leftarrow> wba_data st i; read_ptr (ws_mem st) p (unat n) }"

definition sk_send :: "'w os \<Rightarrow> wsocket \<Rightarrow> wstore \<Rightarrow> nat \<Rightarrow> 'w \<Rightarrow> (uint \<times> wsocket \<times> 'w) option" where
  "sk_send os v st byteArray w =
     (if \<not> isValidSocket v then Some (- 1, v, w)
      else do {
        bs \<leftarrow> wba_bytes st byteArray;
        Some (case os_send os (sk_socket v) bs w of
          (Done ret, w) \<Rightarrow>
            (if ret = 0 then (- 1, sk_fail os ''Socket disconnect:'' None v w) else (of_nat ret, v, w))
        | (Errno error, w) \<Rightarrow>
            (- 1, if error \<noteq> WSAEWOULDBLOCK then sk_fail os ''Send error:'' (Some error) v w else (v, w)))
      })"

partial_function (option) sk_sendAll_loop ::
    "'w os \<Rightarrow> 'w wsa \<Rightarrow> byte list \<Rightarrow> uint \<Rightarrow> wsocket \<Rightarrow> 'w \<Rightarrow> (uint \<times> wsocket \<times> 'w) option" where
  "sk_sendAll_loop os wsa bs sendSize v w =
     (case os_send os (sk_socket v) (drop (unat sendSize) bs) w of (r, w) \<Rightarrow>
       (case r of
          Done ret \<Rightarrow>
            (if ret = 0 then Some (sendSize, sk_fail os ''Socket disconnect:'' None v w)
             else let sendSize = sendSize + of_nat ret
               in if unat sendSize < length bs then sk_sendAll_loop os wsa bs sendSize v w else Some (sendSize, v, w))
        | Errno error \<Rightarrow>
            (if error = WSAEWOULDBLOCK then
               let w = wsa_sleep wsa 1 w
               in if unat sendSize < length bs then sk_sendAll_loop os wsa bs sendSize v w else Some (sendSize, v, w)
             else Some (sendSize, sk_fail os ''Send error:'' (Some error) v w))))"

declare sk_sendAll_loop.simps [code]

definition sk_sendAll :: "'w os \<Rightarrow> 'w wsa \<Rightarrow> wsocket \<Rightarrow> wstore \<Rightarrow> nat \<Rightarrow> 'w \<Rightarrow> (uint \<times> wsocket \<times> 'w) option" where
  "sk_sendAll os wsa v st byteArray w =
     (if \<not> isValidSocket v then Some (- 1, v, w)
      else do { bs \<leftarrow> wba_bytes st byteArray; sk_sendAll_loop os wsa bs 0 v w })"

text \<open>The constructor; \<open>setSocketBufferSize\<close> changes the size for later sockets.\<close>

definition new_CMSocket :: "uint \<Rightarrow> wsocket" where
  "new_CMSocket initBufferSize = \<lparr>sk_socket = INVALID_SOCKET, sk_error = [], sk_bufferSize = initBufferSize\<rparr>"

definition setSocketBufferSize :: "uint \<Rightarrow> uint \<Rightarrow> uint" where
  "setSocketBufferSize initBufferSize n = n"

subsection \<open>CMTcpServer\<close>

definition new_CMTcpServer :: "'w os \<Rightarrow> 'w wsa \<Rightarrow> uint \<Rightarrow> 'w \<Rightarrow> wsocket \<times> 'w" where
  "new_CMTcpServer os wsa sz w = (let v = new_CMSocket sz; (fd, w) = os_socket os w; v = v\<lparr>sk_socket := fd\<rparr>
     in if sk_socket v = INVALID_SOCKET then (sk_push ''Error create tcpServer socket:'' (Some (wsa_last_error wsa w)) v, w)
        else (v, wsa_nonblock wsa fd w))"

definition wserver_bind :: "'w os \<Rightarrow> wsocket \<Rightarrow> uint \<Rightarrow> 16 word \<Rightarrow> 'w \<Rightarrow> bool \<times> wsocket \<times> 'w" where
  "wserver_bind os v address port w =
     (case os_bind os (sk_socket v) \<lparr>sin_addr = host_ip address, sin_port = net_short port\<rparr> w of
        (Errno error, w) \<Rightarrow> (False, sk_fail os ''Binding failed:'' (Some error) v w)
      | (Done _, w) \<Rightarrow> (True, v, w))"

text \<open>\<open>listen\<close>: three more attempts while the address is in use.\<close>

function wserver_listen :: "'w os \<Rightarrow> 'w wsa \<Rightarrow> nat \<Rightarrow> wsocket \<Rightarrow> 'w \<Rightarrow> bool \<times> wsocket \<times> 'w" where
  "wserver_listen os wsa time v w =
     (case os_listen os (sk_socket v) 0x7FFFFFFF w of
        (Done _, w) \<Rightarrow> (True, v, w)
      | (Errno error, w) \<Rightarrow>
          (if error = WSAEADDRINUSE \<and> time < 3 then wserver_listen os wsa (Suc time) v (wsa_sleep wsa 100 w)
           else (False, sk_fail os ''Listen failed:'' (Some error) v w)))"
  by pat_completeness auto
termination by (relation "measure (\<lambda>(os, wsa, time, v, w). 3 - time)") auto

partial_function (option) wserver_accept ::
    "'w os \<Rightarrow> 'w wsa \<Rightarrow> uint \<Rightarrow> uint \<Rightarrow> nat \<Rightarrow> wsocket \<Rightarrow> 'w \<Rightarrow> (wsocket option \<times> wsocket \<times> 'w) option" where
  "wserver_accept os wsa sz timeout startingTime v w =
     (case os_accept os (sk_socket v) w of (r, w) \<Rightarrow>
        (case r of
           Done socket \<Rightarrow> Some (Some ((new_CMSocket sz)\<lparr>sk_socket := socket\<rparr>), v, w)
         | Errno error \<Rightarrow>
             (if error = WSAEWOULDBLOCK then
                (case wsa_now wsa w of (present, w) \<Rightarrow>
                   if unat timeout \<le> present - startingTime then Some (None, v, w)
                   else wserver_accept os wsa sz timeout startingTime v (wsa_sleep wsa 1 w))
              else Some (None, sk_fail os ''Accept failed:'' (Some error) v w))))"

declare wserver_accept.simps [code]

definition CMTcpServer_accept ::
    "'w os \<Rightarrow> 'w wsa \<Rightarrow> uint \<Rightarrow> uint \<Rightarrow> wsocket \<Rightarrow> 'w \<Rightarrow> (wsocket option \<times> wsocket \<times> 'w) option" where
  "CMTcpServer_accept os wsa sz timeout v w = (case wsa_now wsa w of (startingTime, w) \<Rightarrow>
     wserver_accept os wsa sz timeout startingTime v w)"

definition destroy_socket :: "'w os \<Rightarrow> wsocket \<Rightarrow> 'w \<Rightarrow> 'w" where
  "destroy_socket os v w = snd (sk_close os v w)"

subsection \<open>CMTcpSocket\<close>

definition connectToHost ::
    "'w os \<Rightarrow> 'w wsa \<Rightarrow> uint \<Rightarrow> 16 word \<Rightarrow> uint \<Rightarrow> wsocket \<Rightarrow> 'w \<Rightarrow> bool \<times> wsocket \<times> 'w" where
  "connectToHost os wsa address port timeout v w =
     (let (v, w) = sk_close os v w; (fd, w) = os_socket os w; v = v\<lparr>sk_socket := fd\<rparr>
      in if sk_socket v = INVALID_SOCKET then (False, sk_push ''Error create socket:'' (Some (wsa_last_error wsa w)) v, w)
         else let w = wsa_nonblock wsa fd w;
           (_, w) = wsa_now wsa w
         in (case os_connect os fd \<lparr>sin_addr = host_ip address, sin_port = net_short port\<rparr> w of
              (Done _, w) \<Rightarrow> (True, v, w)
            | (Errno error, w) \<Rightarrow>
                (if error \<noteq> WSAEWOULDBLOCK then (False, sk_push ''Error connect:'' (Some error) v, w)
                 else let w = wsa_sleep wsa timeout w
                   in (case wsa_soerror wsa fd 1 w of
                        (Done state, w) \<Rightarrow> (if state \<noteq> 0 then (False, sk_close os v w) else (True, v, w))
                      | (Errno error, w) \<Rightarrow>
                          (case sk_close os v w of (v, w) \<Rightarrow>
                             (False, sk_push ''Failed to get the socket status:'' (Some (wsa_last_error wsa w)) v, w))))))"

definition sk_isConnected :: "'w os \<Rightarrow> wsocket \<Rightarrow> 'w \<Rightarrow> bool \<times> wsocket \<times> 'w" where
  "sk_isConnected os v w =
     (if \<not> isValidSocket v then (False, v, w)
      else case os_send os (sk_socket v) [] w of
        (Done ret, w) \<Rightarrow> (if ret = 0 then (False, sk_fail os ''Socket disconnect:'' None v w) else (True, v, w))
      | (Errno error, w) \<Rightarrow>
          (if error \<noteq> WSAEWOULDBLOCK then (False, sk_push ''Socket error:'' (Some error) v, w) else (True, v, w)))"

subsection \<open>Byte order\<close>

text \<open>After \<open>k\<close> rounds of the loop the outer \<open>k\<close> bytes on both sides are exchanged.\<close>

lemma swap_rounds:
  assumes "k \<le> length bs div 2"
  shows "fold swap_bytes [0..<k] bs =
    map (\<lambda>j. if j < k \<or> length bs - k \<le> j then bs ! (length bs - 1 - j) else bs ! j) [0..<length bs]"
  using assms
proof (induction k)
  case 0
  then show ?case by (auto intro: nth_equalityI)
next
  case (Suc k)
  let ?n = "length bs"
  have k: "k < ?n - 1 - k" "k < ?n" using Suc.prems by auto
  have IH: "fold swap_bytes [0..<k] bs =
      map (\<lambda>j. if j < k \<or> ?n - k \<le> j then bs ! (?n - 1 - j) else bs ! j) [0..<?n]"
    using Suc by simp
  show ?case
    unfolding upt_Suc_append [OF le0] fold_append comp_apply IH fold_simps
    using k Suc.prems by (auto simp: swap_bytes_def Let_def nth_list_update intro!: nth_equalityI)
qed

lemma reverseByteEndian_rev: "reverseByteEndian bs = rev bs"
proof -
  have "fold swap_bytes [0..<length bs div 2] bs = rev bs"
    unfolding swap_rounds [OF order_refl]
  proof (rule nth_equalityI)
    fix i assume "i < length (map (\<lambda>j. if j < length bs div 2 \<or> length bs - length bs div 2 \<le> j
      then bs ! (length bs - 1 - j) else bs ! j) [0..<length bs])"
    moreover have "i < length bs div 2 \<or> length bs - length bs div 2 \<le> i \<or> length bs - 1 - i = i"
      if "i < length bs" using that by linarith
    ultimately show "map (\<lambda>j. if j < length bs div 2 \<or> length bs - length bs div 2 \<le> j
      then bs ! (length bs - 1 - j) else bs ! j) [0..<length bs] ! i = rev bs ! i"
      by (auto simp: rev_nth)
  qed simp
  then show ?thesis by (simp add: reverseByteEndian_def)
qed

lemma reverse_uint_bytes: "bytes32 (reverse_uint w) = rev (bytes32 w)"
proof -
  have "rev (bytes32 w) = [ucast (drop_bit 24 w), ucast (drop_bit 16 w), ucast (drop_bit 8 w), ucast w]"
    by (simp add: bytes32_def)
  then show ?thesis by (simp add: reverse_uint_def reverseByteEndian_rev bytes32_word32)
qed

lemma reverse_uint_invol [simp]: "reverse_uint (reverse_uint w) = w"
proof -
  have "reverse_uint (reverse_uint w) = (case bytes32 w of [b0, b1, b2, b3] \<Rightarrow> word32 b0 b1 b2 b3 | _ \<Rightarrow> 0)"
    unfolding reverse_uint_def [of "reverse_uint w"] reverseByteEndian_rev reverse_uint_bytes by simp
  then show ?thesis by (simp add: bytes32_def word32_bytes)
qed

subsection \<open>Executions\<close>

text \<open>The calls of \<open>send\<close> take all the bytes, some at a time, with pauses while the buffer of the
  kernel is full.\<close>

inductive drains :: "'w os \<Rightarrow> 'w wsa \<Rightarrow> int \<Rightarrow> 'w \<Rightarrow> byte list \<Rightarrow> 'w \<Rightarrow> bool" for os wsa fd where
  drained: "drains os wsa fd w [] w"
| takes_some: "os_send os fd bs w = (Done n, w1) \<Longrightarrow> 0 < n \<Longrightarrow> n \<le> length bs \<Longrightarrow>
    drains os wsa fd w1 (drop n bs) w' \<Longrightarrow> drains os wsa fd w bs w'"
| blocked: "os_send os fd bs w = (Errno WSAEWOULDBLOCK, w1) \<Longrightarrow> bs \<noteq> [] \<Longrightarrow>
    drains os wsa fd (wsa_sleep wsa 1 w1) bs w' \<Longrightarrow> drains os wsa fd w bs w'"

inductive_cases drains_NilE: "drains os wsa fd w [] w'"

lemma sk_sendAll_loop_drains:
  assumes "drains os wsa (sk_socket v) w rest w'" "rest = drop (unat k) bs" "rest \<noteq> []" "length bs < 2 ^ 32"
  shows "sk_sendAll_loop os wsa bs k v w = Some (of_nat (length bs), v, w')"
  using assms
proof (induction arbitrary: k rule: drains.induct)
  case (takes_some rest w n w1 w')
  have le: "unat k + n \<le> length bs" using takes_some.hyps(3) takes_some.prems by auto
  then have u: "unat (k + of_nat n) = unat k + n"
    using takes_some.prems(3) by (simp add: unat_word_ariths unat_of_nat)
  show ?case
  proof (cases "unat k + n < length bs")
    case True
    then have "sk_sendAll_loop os wsa bs (k + of_nat n) v w1 = Some (of_nat (length bs), v, w')"
      by (intro takes_some.IH) (use takes_some.prems u in \<open>auto simp: add.commute\<close>)
    then show ?thesis
      using takes_some.hyps(1,2) takes_some.prems True u by (subst sk_sendAll_loop.simps) (simp add: Let_def)
  next
    case False
    then have "unat k + n = length bs" using le by simp
    then have "drop n rest = []" "k + of_nat n = of_nat (length bs)"
      using takes_some.prems u by (auto simp: word_unat_eq_iff unat_of_nat)
    moreover from this(1) have "w' = w1" using takes_some.hyps(4) by (auto elim: drains_NilE)
    ultimately show ?thesis
      using takes_some.hyps(1,2) takes_some.prems False u by (subst sk_sendAll_loop.simps) (simp add: Let_def)
  qed
next
  case (blocked rest w w1 w')
  then show ?case by (subst sk_sendAll_loop.simps) (auto simp: Let_def)
qed simp

lemma wba_new_warr:
  obtains st' x where "wba_new st = (length (ws_objs st), st')" "warr st' (length (ws_objs st)) x [] 1"
    "wb_size x = 0" "wb_bufferLen x = 0" "wcontent st' (length (ws_objs st)) = Some []"
proof -
  let ?x = "\<lparr>wb_buffer = None, wb_bufferLen = 0, wb_size = 0, wb_useCount = ws_next st\<rparr>"
  show ?thesis
    by (rule that [of "snd (wba_new st)" ?x])
      (auto simp: wba_new_def new_count_def wadd_def warr_def wget_def wcontent_def)
qed

subsection \<open>Examples\<close>

definition script_wsa :: "net_script wsa" where
  "script_wsa = \<lparr>wsa_nonblock = (\<lambda>fd w. w), wsa_peek = (\<lambda>fd n w. (Done [], w)), wsa_sleep = (\<lambda>t w. w),
     wsa_now = (\<lambda>w. (0, w)), wsa_soerror = (\<lambda>fd n w. (Done 0, w)), wsa_last_error = (\<lambda>w. 0),
     wsa_inet_pton = (\<lambda>str. None), wsa_inet_ntop = (\<lambda>a. []), wsa_getaddrinfo = (\<lambda>str w. (None, w))\<rparr>"

definition script_idle :: net_script where
  "script_idle = \<lparr>sc_recv = [], sc_wait = [], sc_log = []\<rparr>"

definition idle_socket :: "int \<Rightarrow> wsocket" where
  "idle_socket fd = (new_CMSocket m_initBufferSize)\<lparr>sk_socket := fd\<rparr>"

lemma roomy_bytes: "wba_bytes roomy_array 0 = Some [104, 105]"
  by (simp add: wba_bytes_def wba_data_def roomy_simps wptr_def read_ptr_def)

subsection \<open>Properties\<close>

text \<open>\<open>fromHostName\<close> gives the address of a numeric name, else the first address found that is not
  255.255.255.255, and else the null address: reversing the bytes of each address twice leaves it as the
  resolver gave it.\<close>

theorem from_host_name:
  "fst (fromHostName wsa name w) =
    (case wsa_inet_pton wsa name of
       Some a \<Rightarrow> if a \<noteq> - 1 then a
         else (case fst (wsa_getaddrinfo wsa name w) of None \<Rightarrow> - 1
           | Some as \<Rightarrow> (case find (\<lambda>a. a \<noteq> - 1) as of None \<Rightarrow> - 1 | Some a \<Rightarrow> a))
     | None \<Rightarrow> (case fst (wsa_getaddrinfo wsa name w) of None \<Rightarrow> - 1
         | Some as \<Rightarrow> (case find (\<lambda>a. a \<noteq> - 1) as of None \<Rightarrow> - 1 | Some a \<Rightarrow> a))) \<and>
   bytes32 (host_of_uint ip) = rev (bytes32 ip)"
proof -
  have "first_host as (- 1) = (case find (\<lambda>a. a \<noteq> - 1) as of None \<Rightarrow> - 1 | Some a \<Rightarrow> a)" for as
    by (induction as) (auto simp: host_of_uint_def host_isNull_def Let_def)
  then show ?thesis
    by (auto simp: fromHostName_def host_of_text_def host_isNull_def host_of_common_def host_of_uint_def Let_def
      reverse_uint_bytes split: option.splits prod.splits)
qed

text \<open>C30: \<open>sendAll\<close> sends a nonempty array completely, in however many pieces the kernel takes it and
  however often it has to wait, and returns its size without touching the socket.\<close>

theorem win_sendAll:
  assumes "isValidSocket v" "wba_bytes st i = Some bs" "bs \<noteq> []" "length bs < 2 ^ 32"
    and "drains os wsa (sk_socket v) w bs w'"
  shows "sk_sendAll os wsa v st i w = Some (of_nat (length bs), v, w')"
  using sk_sendAll_loop_drains [OF assms(5), of 0 bs] assms(1-4) by (simp add: sk_sendAll_def)

lemma win_sendAll_witness:
  "sk_sendAll script_os script_wsa (idle_socket 7) roomy_array 0 script_idle =
     Some (2, idle_socket 7, log_action (Sent 7 [104, 105]) script_idle)"
proof -
  have "drains script_os script_wsa (sk_socket (idle_socket 7)) script_idle [104, 105]
      (log_action (Sent 7 [104, 105]) script_idle)"
    by (rule takes_some [of _ _ _ _ 2 "log_action (Sent 7 [104, 105]) script_idle"])
      (auto simp: script_os_def idle_socket_def new_CMSocket_def intro: drained)
  from win_sendAll [OF _ roomy_bytes _ _ this] show ?thesis by (simp add: isValidSocket_def idle_socket_def new_CMSocket_def INVALID_SOCKET_def)
qed

text \<open>\<open>readAll\<close> is undefined as soon as a byte arrives, because the array it appends to has no
  block yet; without data it returns an empty array, and closes the socket unless there is only nothing to
  read for now.\<close>

theorem win_readAll:
  assumes "isValidSocket v" "unat (sk_bufferSize v) < 2 ^ 31"
    and "delivers os (sk_socket v) (unat (sk_bufferSize v)) w cs r w'"
  shows "if cs \<noteq> [] then sk_readAll os v st w = None
    else \<exists>i v' st' w''. sk_readAll os v st w = Some (Inr (i, v', st', w'')) \<and> wcontent st' i = Some [] \<and>
      (if r = Errno WSAEWOULDBLOCK then v' = v \<and> w'' = w' else \<not> isValidSocket v' \<and> w'' = os_close os (sk_socket v) w')"
proof -
  obtain st' x where new: "wba_new st = (length (ws_objs st), st')" "warr st' (length (ws_objs st)) x [] 1"
    "wb_size x = 0" "wb_bufferLen x = 0" "wcontent st' (length (ws_objs st)) = Some []" by (rule wba_new_warr)
  from assms(3) show ?thesis
  proof (cases rule: delivers.cases)
    case last_call
    then show ?thesis
      using new assms(1)
      by (cases "r = Errno WSAEWOULDBLOCK")
        (auto simp: sk_readAll_def sk_readAll_loop.simps sk_fail_def sk_close_def sk_push_def isValidSocket_def)
  next
    case (chunk c w1 cs')
    have len: "length c = unat (of_nat (length c) :: uint)"
      using chunk(4) assms(2) by (simp add: unat_of_nat take_bit_nat_eq_self)
    then have "(of_nat (length c) :: uint) \<noteq> 0" using chunk(3) by (metis length_0_conv unat_0)
    then have "wba_append_bytes st' (length (ws_objs st)) (Ext c) (of_nat (length c)) = None"
      by (rule wba_append_own(2) [OF new(2) len]) (use chunk(3,4) assms(2) new(3,4) len in auto)
    then show ?thesis using new(1) assms(1) chunk by (simp add: sk_readAll_def sk_readAll_loop.simps)
  qed
qed

lemma win_readAll_witness:
  "sk_readAll script_os (idle_socket 7) empty_wstore (script_idle\<lparr>sc_recv := [Done [65], Errno WSAEWOULDBLOCK]\<rparr>) = None \<and>
   (\<exists>i v' st' w''. sk_readAll script_os (idle_socket 7) empty_wstore (script_idle\<lparr>sc_recv := [Done []]\<rparr>) =
      Some (Inr (i, v', st', w'')) \<and> \<not> isValidSocket v')"
proof -
  have v: "isValidSocket (idle_socket 7)" "unat (sk_bufferSize (idle_socket 7)) = 4096" "sk_socket (idle_socket 7) = 7"
    by (simp_all add: isValidSocket_def idle_socket_def new_CMSocket_def INVALID_SOCKET_def m_initBufferSize_def)
  have "delivers script_os 7 4096 (script_idle\<lparr>sc_recv := [Done [65], Errno WSAEWOULDBLOCK]\<rparr>) [[65]]
      (Errno WSAEWOULDBLOCK) script_idle"
    by (rule chunk [of _ _ _ _ _ "script_idle\<lparr>sc_recv := [Errno WSAEWOULDBLOCK]\<rparr>"])
      (auto simp: script_os_def script_idle_def intro!: last_call)
  moreover have "delivers script_os 7 4096 (script_idle\<lparr>sc_recv := [Done []]\<rparr>) [] (Done []) script_idle"
    by (rule last_call) (auto simp: script_os_def script_idle_def)
  ultimately show ?thesis
    using win_readAll [OF v(1), of script_os _ "[[65]]"] win_readAll [OF v(1), of script_os _ "[]" "Done []"] v by fastforce
qed

text \<open>A send of no bytes returns 0, as \<open>send\<close> does on a connection in order; the library takes
  that for the end of the connection: asking a connected socket whether it is connected closes it and
  answers no, and so does sending an empty array, in one call or with \<open>sendAll\<close>.\<close>

theorem empty_send_disconnects:
  assumes "isValidSocket v" "os_send os (sk_socket v) [] w = (Done 0, w1)" "wba_bytes st i = Some []"
  shows "\<exists>v'. \<not> isValidSocket v' \<and> sk_isConnected os v w = (False, v', os_close os (sk_socket v) w1) \<and>
    sk_send os v st i w = Some (- 1, v', os_close os (sk_socket v) w1) \<and>
    sk_sendAll os wsa v st i w = Some (0, v', os_close os (sk_socket v) w1)"
  using assms
  by (auto simp: sk_isConnected_def sk_send_def sk_sendAll_def sk_sendAll_loop.simps sk_fail_def sk_close_def sk_push_def
    isValidSocket_def)

lemma empty_send_disconnects_witness:
  "\<exists>v'. \<not> isValidSocket v' \<and> sk_isConnected script_os (idle_socket 7) script_idle =
    (False, v', log_action (Closed 7) (log_action (Sent 7 []) script_idle))"
proof -
  have "isValidSocket (idle_socket 7)" by (simp add: isValidSocket_def idle_socket_def new_CMSocket_def INVALID_SOCKET_def)
  moreover have "os_send script_os (sk_socket (idle_socket 7)) [] script_idle = (Done 0, log_action (Sent 7 []) script_idle)"
    by (simp add: script_os_def idle_socket_def new_CMSocket_def)
  moreover have "wba_bytes (snd (wba_new empty_wstore)) 0 = Some []"
    by (simp add: wba_bytes_def wba_data_def wba_new_def new_count_def wadd_def wget_def empty_wstore_def read_ptr_def)
  ultimately show ?thesis
    using empty_send_disconnects [of "idle_socket 7" script_os script_idle _ "snd (wba_new empty_wstore)" 0 script_wsa]
    by (auto simp: script_os_def idle_socket_def new_CMSocket_def)
qed

end
