(* ===== verification/WinSelect.thy ===== *)
theory WinSelect
  imports WinSocket
begin

text \<open>
  \<open>CMSelect\<close> of Network/Windows/select.cpp.  Sockets are known by their addresses, which order the
  \<open>std::map\<close> of the monitored events: an association list that is kept sorted.  A descriptor set
  with its macros is that of Winsock, the record \<open>fdset\<close>; \<open>::select\<close> replaces the three sets by
  those of the ready descriptors.
\<close>

unbundle bit_operations_syntax

subsection \<open>EventType\<close>

type_synonym select_event = uint

definition ev_None :: select_event where "ev_None = 0"
definition ReadEvent :: select_event where "ReadEvent = 1"
definition WriteEvent :: select_event where "WriteEvent = 2"
definition ExceptEvent :: select_event where "ExceptEvent = 4"

definition event_or :: "select_event \<Rightarrow> select_event \<Rightarrow> select_event" where "event_or a b = a OR b"
definition event_and :: "select_event \<Rightarrow> select_event \<Rightarrow> select_event" where "event_and a b = a AND b"
definition event_not :: "select_event \<Rightarrow> select_event" where "event_not a = NOT a"

subsection \<open>std::map\<close>

text \<open>An address of a \<open>CMSocket\<close>, with the order of \<open>std::less\<close>.\<close>

datatype sock_ptr = SockPtr (sock_addr: nat)

instantiation sock_ptr :: linorder
begin

definition less_eq_sock_ptr :: "sock_ptr \<Rightarrow> sock_ptr \<Rightarrow> bool" where
  "less_eq_sock_ptr p q \<longleftrightarrow> sock_addr p \<le> sock_addr q"

definition less_sock_ptr :: "sock_ptr \<Rightarrow> sock_ptr \<Rightarrow> bool" where
  "less_sock_ptr p q \<longleftrightarrow> sock_addr p < sock_addr q"

instance
  by standard (auto simp: less_eq_sock_ptr_def less_sock_ptr_def sock_ptr.expand)

end

type_synonym monitor_map = "(sock_ptr \<times> select_event) list"

fun map_put :: "sock_ptr \<Rightarrow> select_event \<Rightarrow> monitor_map \<Rightarrow> monitor_map" where
  "map_put k v [] = [(k, v)]"
| "map_put k v ((k', v') # m) =
     (if k < k' then (k, v) # (k', v') # m else if k = k' then (k, v) # m else (k', v') # map_put k v m)"

definition map_erase :: "sock_ptr \<Rightarrow> monitor_map \<Rightarrow> monitor_map" where
  "map_erase k m = filter (\<lambda>(k', _). k' \<noteq> k) m"

subsection \<open>CMSelect\<close>

record 's fdset =
  fd_zero :: 's
  fd_add :: "int \<Rightarrow> 's \<Rightarrow> 's"
  fd_isset :: "int \<Rightarrow> 's \<Rightarrow> bool"

record 's cmselect =
  sl_recordMap :: monitor_map
  sl_error :: "int \<times> string"
  sl_readSet :: 's
  sl_writeSet :: 's
  sl_exceptSet :: 's

text \<open>The sockets, by their addresses; a pointer to none is dangling.\<close>

type_synonym sockets = "sock_ptr \<Rightarrow> wsocket option"

type_synonym ('s, 'w) selecter =
  "'s \<Rightarrow> 's \<Rightarrow> 's \<Rightarrow> (uint \<times> uint) option \<Rightarrow> 'w \<Rightarrow> (nat syscall \<times> 's \<times> 's \<times> 's) \<times> 'w"

fun select_sets ::
    "'s fdset \<Rightarrow> sockets \<Rightarrow> monitor_map \<Rightarrow> 's \<Rightarrow> 's \<Rightarrow> 's \<Rightarrow> ('s \<times> 's \<times> 's) option" where
  "select_sets ops socks [] r w e = Some (r, w, e)"
| "select_sets ops socks ((socket, type) # m) r w e = do {
     v \<leftarrow> socks socket;
     let fd = getSocket v;
     let r = (if event_and type ReadEvent \<noteq> ev_None then fd_add ops fd r else r);
     let w = (if event_and type WriteEvent \<noteq> ev_None then fd_add ops fd w else w);
     let e = (if event_and type ExceptEvent \<noteq> ev_None then fd_add ops fd e else e);
     select_sets ops socks m r w e
   }"

definition select_timeout :: "uint option \<Rightarrow> (uint \<times> uint) option" where
  "select_timeout timeoutMicroseconds = map_option (\<lambda>t. (t div 1000, t mod 1000)) timeoutMicroseconds"

definition WSAENOTSOCK :: int where "WSAENOTSOCK = 10038"
definition WSAEINVAL :: int where "WSAEINVAL = 10022"

definition select_doRun ::
    "'s fdset \<Rightarrow> ('s, 'w) selecter \<Rightarrow> sockets \<Rightarrow> uint option \<Rightarrow> 's cmselect \<Rightarrow> 'w \<Rightarrow> (bool \<times> 's cmselect \<times> 'w) option" where
  "select_doRun ops sel socks timeoutMicroseconds c w = do {
     (rs, ws, es) \<leftarrow> select_sets ops socks (sl_recordMap c) (fd_zero ops) (fd_zero ops) (fd_zero ops);
     Some (case sel rs ws es (select_timeout timeoutMicroseconds) w of ((ret, rs, ws, es), w) \<Rightarrow>
       let c = c\<lparr>sl_readSet := rs, sl_writeSet := ws, sl_exceptSet := es\<rparr>
       in (case ret of
            Done n \<Rightarrow> (n \<noteq> 0, c, w)
          | Errno error \<Rightarrow>
              (False, c\<lparr>sl_error := (error, if error = WSAENOTSOCK then ''Has invalid SOCKET''
                 else if error = WSAEINVAL then ''Invalid parameter'' else [])\<rparr>, w)))
   }"

definition getSocketType :: "sock_ptr \<Rightarrow> 's cmselect \<Rightarrow> select_event" where
  "getSocketType socket c = (case map_of (sl_recordMap c) socket of Some t \<Rightarrow> t | None \<Rightarrow> ev_None)"

definition setMonitorMap :: "monitor_map \<Rightarrow> 's cmselect \<Rightarrow> 's cmselect" where
  "setMonitorMap m c = c\<lparr>sl_recordMap := m\<rparr>"

definition updateSocketEvent :: "sock_ptr \<Rightarrow> select_event \<Rightarrow> 's cmselect \<Rightarrow> 's cmselect" where
  "updateSocketEvent socket eventType c =
     (let m = sl_recordMap c;
          m = (if map_of m socket = None then map_put socket ev_None m else m);
          old = (case map_of m socket of Some t \<Rightarrow> t | None \<Rightarrow> ev_None)
      in c\<lparr>sl_recordMap := map_put socket (event_or old eventType) m\<rparr>)"

definition removeSocket :: "sock_ptr \<Rightarrow> 's cmselect \<Rightarrow> 's cmselect" where
  "removeSocket socket c =
     (if map_of (sl_recordMap c) socket \<noteq> None then c\<lparr>sl_recordMap := map_erase socket (sl_recordMap c)\<rparr> else c)"

definition ready_type :: "'s fdset \<Rightarrow> 's cmselect \<Rightarrow> int \<Rightarrow> select_event" where
  "ready_type ops c fd =
     (let retType = ev_None;
          retType = (if fd_isset ops fd (sl_readSet c) then event_or retType ReadEvent else retType);
          retType = (if fd_isset ops fd (sl_writeSet c) then event_or retType WriteEvent else retType)
      in if fd_isset ops fd (sl_exceptSet c) then event_or retType ExceptEvent else retType)"

fun result_loop ::
    "'s fdset \<Rightarrow> sockets \<Rightarrow> 's cmselect \<Rightarrow> monitor_map \<Rightarrow> monitor_map \<Rightarrow> monitor_map option" where
  "result_loop ops socks c [] resultMap = Some resultMap"
| "result_loop ops socks c ((socket, type) # m) resultMap = do {
     v \<leftarrow> socks socket;
     let retType = ready_type ops c (getSocket v);
     if retType = ev_None then result_loop ops socks c m resultMap
     else result_loop ops socks c m (map_put socket retType resultMap)
   }"

definition getResult :: "'s fdset \<Rightarrow> sockets \<Rightarrow> 's cmselect \<Rightarrow> monitor_map \<Rightarrow> monitor_map option" where
  "getResult ops socks c resultMap = result_loop ops socks c (sl_recordMap c) resultMap"

definition select_getError :: "'s cmselect \<Rightarrow> (int \<times> string) \<times> 's cmselect" where
  "select_getError c = (sl_error c, c\<lparr>sl_error := (0, [])\<rparr>)"

subsection \<open>The sorted map\<close>

definition sorted_map :: "monitor_map \<Rightarrow> bool" where
  "sorted_map m \<longleftrightarrow> sorted_wrt (<) (map fst m)"

lemma set_map_put: "fst ` set (map_put k v m) = insert k (fst ` set m)"
  by (induction k v m rule: map_put.induct) auto

lemma map_put_sorted: "sorted_map m \<Longrightarrow> sorted_map (map_put k v m)"
  unfolding sorted_map_def
proof (induction k v m rule: map_put.induct)
  case (2 k v k' v' m)
  have "\<forall>x\<in>fst ` set (map_put k v m). k' < x" if "k' < k"
    unfolding set_map_put using 2(2) that by auto
  then show ?case using 2 by (auto intro: less_trans dest!: bspec simp: not_less)
qed simp

lemma map_of_put: "sorted_map m \<Longrightarrow> map_of (map_put k v m) = (map_of m)(k \<mapsto> v)"
  unfolding sorted_map_def
  by (induction k v m rule: map_put.induct) (auto simp: fun_eq_iff)

lemma map_erase_sorted: "sorted_map m \<Longrightarrow> sorted_map (map_erase k m)"
  by (induction m) (auto simp: sorted_map_def map_erase_def)

lemma map_of_erase: "map_of (map_erase k m) = (map_of m)(k := None)"
  by (induction m) (auto simp: map_erase_def fun_eq_iff)

lemma sorted_map_distinct: "sorted_map m \<Longrightarrow> distinct (map fst m)"
  by (induction m) (auto simp: sorted_map_def)

text \<open>The operations on the monitored events, seen through the map: events are only ever added.\<close>

lemma updateSocketEvent_sorted:
  "sorted_map (sl_recordMap c) \<Longrightarrow> sorted_map (sl_recordMap (updateSocketEvent s t c))"
  by (simp add: updateSocketEvent_def Let_def map_put_sorted)

lemma removeSocket_sorted:
  "sorted_map (sl_recordMap c) \<Longrightarrow> sorted_map (sl_recordMap (removeSocket s c))"
  by (simp add: removeSocket_def map_erase_sorted)

lemma getSocketType_update:
  assumes "sorted_map (sl_recordMap c)"
  shows "getSocketType s' (updateSocketEvent s t c) =
    (if s' = s then event_or (getSocketType s c) t else getSocketType s' c)"
  using assms
  by (auto simp: getSocketType_def updateSocketEvent_def Let_def map_of_put map_put_sorted split: option.splits)

lemma getSocketType_remove: "getSocketType s' (removeSocket s c) = (if s' = s then ev_None else getSocketType s' c)"
  by (auto simp: getSocketType_def removeSocket_def map_of_erase)

subsection \<open>Descriptor sets\<close>

text \<open>A set of at most 64 descriptors holds what has been added.\<close>

definition fd_laws :: "'s fdset \<Rightarrow> bool" where
  "fd_laws ops \<longleftrightarrow> (\<forall>xs. length xs \<le> 64 \<longrightarrow> (\<forall>y. fd_isset ops y (fold (fd_add ops) xs (fd_zero ops)) \<longleftrightarrow> y \<in> set xs))"

definition wanted :: "sockets \<Rightarrow> select_event \<Rightarrow> monitor_map \<Rightarrow> int list" where
  "wanted socks ev m = map (\<lambda>(s, _). getSocket (the (socks s))) (filter (\<lambda>(_, t). event_and t ev \<noteq> ev_None) m)"

lemma select_sets_wanted:
  assumes "\<forall>(s, _)\<in>set m. socks s \<noteq> None"
  shows "select_sets ops socks m r w e = Some (fold (fd_add ops) (wanted socks ReadEvent m) r,
    fold (fd_add ops) (wanted socks WriteEvent m) w, fold (fd_add ops) (wanted socks ExceptEvent m) e)"
  using assms
proof (induction m arbitrary: r w e)
  case (Cons x m)
  obtain s t where x: "x = (s, t)" by (cases x)
  then obtain v where "socks s = Some v" using Cons.prems by auto
  then show ?case using Cons x by (auto simp: wanted_def Let_def)
qed (simp add: wanted_def)

lemma ready_type_bits:
  "event_and (ready_type ops c fd) ReadEvent \<noteq> ev_None \<longleftrightarrow> fd_isset ops fd (sl_readSet c)"
  "event_and (ready_type ops c fd) WriteEvent \<noteq> ev_None \<longleftrightarrow> fd_isset ops fd (sl_writeSet c)"
  "event_and (ready_type ops c fd) ExceptEvent \<noteq> ev_None \<longleftrightarrow> fd_isset ops fd (sl_exceptSet c)"
  by (auto simp: ready_type_def event_and_def event_or_def ReadEvent_def WriteEvent_def ExceptEvent_def ev_None_def Let_def)

lemma result_loop_map:
  assumes "\<forall>(s, _)\<in>set m. socks s \<noteq> None" "sorted_map M" "distinct (map fst m)"
  shows "\<exists>M'. result_loop ops socks c m M = Some M' \<and> sorted_map M' \<and>
    (\<forall>s. map_of M' s = (case map_of m s of None \<Rightarrow> map_of M s
       | Some _ \<Rightarrow> let t = ready_type ops c (getSocket (the (socks s))) in if t = ev_None then map_of M s else Some t))"
  using assms
proof (induction m arbitrary: M)
  case (Cons x m)
  obtain s t where x: "x = (s, t)" by (cases x)
  then obtain v where v: "socks s = Some v" using Cons.prems(1) by auto
  let ?t = "ready_type ops c (getSocket v)"
  let ?M = "if ?t = ev_None then M else map_put s ?t M"
  have s: "map_of m s = None" using Cons.prems(3) x by (auto simp: map_of_eq_None_iff)
  have M: "sorted_map ?M" using Cons.prems(2) map_put_sorted by simp
  obtain M' where "result_loop ops socks c m ?M = Some M'" "sorted_map M'"
    and M': "\<forall>s. map_of M' s = (case map_of m s of None \<Rightarrow> map_of ?M s
       | Some _ \<Rightarrow> let t = ready_type ops c (getSocket (the (socks s))) in if t = ev_None then map_of ?M s else Some t)"
    using Cons.IH [OF _ M] Cons.prems(1,3) by auto
  moreover have "result_loop ops socks c (x # m) M = result_loop ops socks c m ?M" using x v by (simp add: Let_def)
  moreover have "map_of M' s' = (case map_of (x # m) s' of None \<Rightarrow> map_of M s'
       | Some _ \<Rightarrow> let t = ready_type ops c (getSocket (the (socks s'))) in if t = ev_None then map_of M s' else Some t)" for s'
    using M' [rule_format, of s'] s x v Cons.prems(2) by (cases "s' = s") (auto simp: Let_def map_of_put split: option.splits)
  ultimately show ?case by auto
qed simp

lemma getResult_map:
  assumes "\<forall>(s, _)\<in>set (sl_recordMap c). socks s \<noteq> None" "sorted_map (sl_recordMap c)"
  shows "\<exists>M. getResult ops socks c [] = Some M \<and>
    (\<forall>s. map_of M s = (case map_of (sl_recordMap c) s of None \<Rightarrow> None
       | Some _ \<Rightarrow> let t = ready_type ops c (getSocket (the (socks s))) in if t = ev_None then None else Some t))"
proof -
  have "sorted_map []" by (simp add: sorted_map_def)
  from result_loop_map [OF assms(1) this sorted_map_distinct [OF assms(2)], of ops c]
  obtain M where "result_loop ops socks c (sl_recordMap c) [] = Some M"
    "\<forall>s. map_of M s = (case map_of (sl_recordMap c) s of None \<Rightarrow> map_of [] s
       | Some _ \<Rightarrow> let t = ready_type ops c (getSocket (the (socks s))) in if t = ev_None then map_of [] s else Some t)"
    by metis
  then show ?thesis by (simp add: getResult_def Let_def cong: if_cong option.case_cong)
qed

subsection \<open>Properties\<close>


text \<open>Two sockets, one read from and one written to, of which the first is ready.\<close>

definition list_fdset :: "int list fdset" where
  "list_fdset = \<lparr>fd_zero = [], fd_add = Cons, fd_isset = (\<lambda>y xs. y \<in> set xs)\<rparr>"

lemma list_fdset_laws: "fd_laws list_fdset"
proof -
  have "y \<in> set (fold Cons xs ys) \<longleftrightarrow> y \<in> set xs \<or> y \<in> set ys" for xs ys and y :: int
    by (induction xs arbitrary: ys) auto
  then show ?thesis by (simp add: fd_laws_def list_fdset_def)
qed

definition example_select :: "int list cmselect" where
  "example_select = \<lparr>sl_recordMap = [(SockPtr 1, ReadEvent), (SockPtr 2, WriteEvent)], sl_error = (0, []),
     sl_readSet = [], sl_writeSet = [], sl_exceptSet = []\<rparr>"

definition example_sockets :: sockets where
  "example_sockets = [SockPtr 1 \<mapsto> \<lparr>sk_socket = 5, sk_error = [], sk_bufferSize = 0\<rparr>,
     SockPtr 2 \<mapsto> \<lparr>sk_socket = 6, sk_error = [], sk_bufferSize = 0\<rparr>]"

text \<open>A kernel that finds only readers ready.\<close>

definition readers_ready :: "(int list, nat) selecter" where
  "readers_ready r w e t n = ((Done 1, r, [], []), Suc n)"


end
