(* ===== verification/Iocp.thy ===== *)
theory Iocp
  imports WinSocket "HOL-Library.Multiset"
begin

text \<open>
  \<open>CMIOCP\<close> of Network/Windows/iocp.h and iocp.cpp: a server on an I/O completion port with a pool
  of threads.  Every overlapped call has an \<open>IOContext\<close>, every connection a \<open>SocketContext\<close>
  (the key of its completions) that shares the \<open>CMTcpSocket\<close> with the callback's user; the three kinds
  are heaps, with addresses from one counter, 0 the null pointer.  A thread is at the test of its loop, in
  the wait for a completion, or done; a turn of a thread is one step between those places, and a
  schedule the order of turns.  What the kernel writes into the buffer of a receive is not kept: nothing
  reads it, because the line that would hand it to the callback is commented out.
\<close>

subsection \<open>The calls\<close>

text \<open>What \<open>GetQueuedCompletionStatus\<close> comes back with: nothing yet; an error without a packet, which
  stores no size and no key; or the completion of a call, successful or not, with its size, key and
  context.\<close>

datatype io_status = Blocked | NoPacket | Packet bool nat nat nat

record 'w io_calls =
  io_create :: "'w \<Rightarrow> 'w"
  io_associate :: "int \<Rightarrow> nat \<Rightarrow> 'w \<Rightarrow> 'w"
  io_extensions :: "int \<Rightarrow> 'w \<Rightarrow> (bool \<times> bool) \<times> 'w"
  io_acceptEx :: "int \<Rightarrow> int \<Rightarrow> nat \<Rightarrow> 'w \<Rightarrow> 'w"
  io_update_accept :: "int \<Rightarrow> int \<Rightarrow> 'w \<Rightarrow> 'w"
  io_peer :: "nat \<Rightarrow> 'w \<Rightarrow> sockaddr_in"
  io_recv :: "int \<Rightarrow> nat \<Rightarrow> nat \<Rightarrow> 'w \<Rightarrow> 'w"
  io_wsasend :: "int \<Rightarrow> byte list \<Rightarrow> nat \<Rightarrow> 'w \<Rightarrow> 'w"
  io_wait :: "'w \<Rightarrow> io_status \<times> 'w"
  io_sleep :: "uint \<Rightarrow> 'w \<Rightarrow> 'w"
  io_cores :: nat

subsection \<open>State\<close>

datatype io_mode = NoMode | ReadMode | WriteMode | AcceptMode

record io_context =
  ic_mode :: io_mode
  ic_buffer :: "byte list"
  ic_len :: nat
  ic_clntSocket :: "int option"

record socket_context =
  xc_clntSocket :: nat
  xc_addr :: sockaddr_in

text \<open>A \<open>CMTcpSocket\<close> behind a \<open>shared_ptr\<close>: its socket and the number of pointers to it.\<close>

record tcp_shared =
  ts_socket :: int
  ts_uses :: nat

datatype worker_place = Testing | Waiting | Stopped

record io_worker =
  wk_place :: worker_place
  wk_key :: nat
  wk_overlapped :: nat

record 'w iocp =
  ip_listen :: int
  ip_clients :: "int list"
  ip_flag :: bool
  ip_workers :: "io_worker list"
  ip_acceptEx :: bool
  ip_getAddrs :: bool
  ip_ctxs :: "nat \<Rightarrow> io_context option"
  ip_socks :: "nat \<Rightarrow> socket_context option"
  ip_shared :: "nat \<Rightarrow> tcp_shared option"
  ip_next :: nat
  ip_world :: 'w

type_synonym 'w io_callback = "io_mode \<Rightarrow> nat \<Rightarrow> 'w iocp \<Rightarrow> 'w iocp option"

definition new_CMIOCP :: "'w \<Rightarrow> 'w iocp" where
  "new_CMIOCP w = \<lparr>ip_listen = INVALID_SOCKET, ip_clients = [], ip_flag = False, ip_workers = [],
     ip_acceptEx = False, ip_getAddrs = False, ip_ctxs = (\<lambda>_. None), ip_socks = (\<lambda>_. None),
     ip_shared = (\<lambda>_. None), ip_next = 1, ip_world = w\<rparr>"

definition on_world :: "('w \<Rightarrow> 'w) \<Rightarrow> 'w iocp \<Rightarrow> 'w iocp" where
  "on_world f s = s\<lparr>ip_world := f (ip_world s)\<rparr>"

subsection \<open>Contexts\<close>

definition newIOContext :: "'w iocp \<Rightarrow> nat \<times> 'w iocp" where
  "newIOContext s = (ip_next s, s\<lparr>ip_ctxs := (ip_ctxs s)(ip_next s \<mapsto>
     \<lparr>ic_mode = NoMode, ic_buffer = replicate 10240 0, ic_len = 10240, ic_clntSocket = None\<rparr>), ip_next := Suc (ip_next s)\<rparr>)"

definition set_context :: "nat \<Rightarrow> (io_context \<Rightarrow> io_context) \<Rightarrow> 'w iocp \<Rightarrow> 'w iocp option" where
  "set_context ov f s = map_option (\<lambda>c. s\<lparr>ip_ctxs := (ip_ctxs s)(ov \<mapsto> f c)\<rparr>) (ip_ctxs s ov)"

definition deleteIOContext :: "nat \<Rightarrow> 'w iocp \<Rightarrow> 'w iocp option" where
  "deleteIOContext ov s = map_option (\<lambda>_. s\<lparr>ip_ctxs := (ip_ctxs s)(ov := None)\<rparr>) (ip_ctxs s ov)"

text \<open>One pointer more to a socket, and one less: the last closes it.\<close>

definition share_socket :: "nat \<Rightarrow> 'w iocp \<Rightarrow> 'w iocp option" where
  "share_socket p s = map_option (\<lambda>t. s\<lparr>ip_shared := (ip_shared s)(p \<mapsto> t\<lparr>ts_uses := Suc (ts_uses t)\<rparr>)\<rparr>) (ip_shared s p)"

definition drop_socket :: "'w os \<Rightarrow> nat \<Rightarrow> 'w iocp \<Rightarrow> 'w iocp option" where
  "drop_socket os p s = map_option (\<lambda>t.
     if ts_uses t \<le> 1 then on_world (os_close os (ts_socket t)) (s\<lparr>ip_shared := (ip_shared s)(p := None)\<rparr>)
     else s\<lparr>ip_shared := (ip_shared s)(p \<mapsto> t\<lparr>ts_uses := ts_uses t - 1\<rparr>)\<rparr>) (ip_shared s p)"

definition delete_socket_context :: "'w os \<Rightarrow> nat \<Rightarrow> 'w iocp \<Rightarrow> 'w iocp option" where
  "delete_socket_context os key s = do {
     x \<leftarrow> ip_socks s key;
     drop_socket os (xc_clntSocket x) (s\<lparr>ip_socks := (ip_socks s)(key := None)\<rparr>)
   }"

text \<open>The callback, with a result that holds the socket.\<close>

definition call_back :: "'w os \<Rightarrow> 'w io_callback \<Rightarrow> io_mode \<Rightarrow> nat \<Rightarrow> 'w iocp \<Rightarrow> 'w iocp option" where
  "call_back os callbackFun mode p s = do {
     s \<leftarrow> share_socket p s;
     s \<leftarrow> callbackFun mode p s;
     drop_socket os p s
   }"

subsection \<open>Sending\<close>

text \<open>Both versions of \<open>send\<close>, with the bytes of the array or of the string.\<close>

definition iocp_send :: "nat \<Rightarrow> byte list \<Rightarrow> 'w io_calls \<Rightarrow> 'w iocp \<Rightarrow> 'w iocp option" where
  "iocp_send socket data io s = (case newIOContext s of (ov, s) \<Rightarrow>
     if 10240 < length data then None
     else do {
       s \<leftarrow> set_context ov (\<lambda>c. c\<lparr>ic_mode := WriteMode, ic_buffer := overwrite 0 data (ic_buffer c), ic_len := length data\<rparr>) s;
       t \<leftarrow> ip_shared s socket;
       Some (on_world (io_wsasend io (ts_socket t) data ov) s)
     })"

definition iocp_send_bytes :: "nat \<Rightarrow> wstore \<Rightarrow> nat \<Rightarrow> 'w io_calls \<Rightarrow> 'w iocp \<Rightarrow> 'w iocp option" where
  "iocp_send_bytes socket st msg io s = do { data \<leftarrow> wba_bytes st msg; iocp_send socket data io s }"

definition iocp_send_cstr :: "nat \<Rightarrow> byte list \<Rightarrow> 'w io_calls \<Rightarrow> 'w iocp \<Rightarrow> 'w iocp option" where
  "iocp_send_cstr socket str io s = do { n \<leftarrow> strlen str; iocp_send socket (take (unat n) str) io s }"

subsection \<open>The threads\<close>

definition post_accept :: "'w io_calls \<Rightarrow> int \<Rightarrow> nat \<Rightarrow> 'w iocp \<Rightarrow> 'w iocp option" where
  "post_accept io clntSocket ov s =
     (if \<not> ip_acceptEx s then None else Some (on_world (io_acceptEx io (ip_listen s) clntSocket ov) s))"

definition new_connection :: "'w os \<Rightarrow> 'w io_calls \<Rightarrow> 'w io_callback \<Rightarrow> nat \<Rightarrow> int \<Rightarrow> 'w iocp \<Rightarrow> 'w iocp option" where
  "new_connection os io callbackFun ov clntSocket s =
     (if \<not> ip_getAddrs s then None
      else let p = ip_next s; key = Suc p;
          s = s\<lparr>ip_shared := (ip_shared s)(p \<mapsto> \<lparr>ts_socket = clntSocket, ts_uses = 1\<rparr>),
                ip_socks := (ip_socks s)(key \<mapsto> \<lparr>xc_clntSocket = p, xc_addr = io_peer io ov (ip_world s)\<rparr>),
                ip_next := Suc key\<rparr>;
          s = on_world (io_associate io clntSocket key) s
        in call_back os callbackFun AcceptMode p s)"

definition post_read :: "'w io_calls \<Rightarrow> int \<Rightarrow> 'w iocp \<Rightarrow> 'w iocp option" where
  "post_read io clntSocket s = (case newIOContext s of (readContext, s) \<Rightarrow> do {
     s \<leftarrow> set_context readContext (\<lambda>c. c\<lparr>ic_mode := ReadMode, ic_clntSocket := Some clntSocket\<rparr>) s;
     Some (on_world (io_recv io clntSocket 10240 readContext) s)
   })"

definition work_accept :: "'w os \<Rightarrow> 'w io_calls \<Rightarrow> 'w io_callback \<Rightarrow> nat \<Rightarrow> io_context \<Rightarrow> 'w iocp \<Rightarrow> 'w iocp option" where
  "work_accept os io callbackFun ov ioContext s = do {
     clntSocket \<leftarrow> ic_clntSocket ioContext;
     let s = on_world (io_update_accept io clntSocket (ip_listen s)) s;
     let s = s\<lparr>ip_clients := ip_clients s @ [clntSocket]\<rparr>;
     s \<leftarrow> new_connection os io callbackFun ov clntSocket s;
     s \<leftarrow> post_read io clntSocket s;
     let (newClntSocket, w) = os_socket os (ip_world s);
     s \<leftarrow> set_context ov (\<lambda>c. c\<lparr>ic_clntSocket := Some newClntSocket\<rparr>) (s\<lparr>ip_world := w\<rparr>);
     post_accept io newClntSocket ov s
   }"

text \<open>The end of a connection, when a read or a write moved no bytes: the socket is closed, taken from the
  list (there is undefined behaviour if it is not in it) and its context deleted.\<close>

definition end_connection :: "'w os \<Rightarrow> io_context \<Rightarrow> 'w iocp \<Rightarrow> 'w iocp option" where
  "end_connection os ioContext s = do {
     clntSocket \<leftarrow> ic_clntSocket ioContext;
     let s = on_world (os_close os clntSocket) s;
     if clntSocket \<in> set (ip_clients s) then Some (s\<lparr>ip_clients := remove1 clntSocket (ip_clients s)\<rparr>) else None
   }"

definition work_read :: "'w os \<Rightarrow> 'w io_calls \<Rightarrow> 'w io_callback \<Rightarrow> nat \<Rightarrow> nat \<Rightarrow> nat \<Rightarrow> io_context \<Rightarrow> 'w iocp \<Rightarrow> 'w iocp option" where
  "work_read os io callbackFun trByteSize key ov ioContext s =
     (if trByteSize = 0 then do {
        s \<leftarrow> end_connection os ioContext s;
        s \<leftarrow> deleteIOContext ov s;
        delete_socket_context os key s
      } else do {
        socketContext \<leftarrow> ip_socks s key;
        s \<leftarrow> call_back os callbackFun ReadMode (xc_clntSocket socketContext) s;
        s \<leftarrow> set_context ov (\<lambda>c. c\<lparr>ic_buffer := overwrite 0 (replicate (ic_len c) 0) (ic_buffer c), ic_mode := ReadMode\<rparr>) s;
        clntSocket \<leftarrow> ic_clntSocket ioContext;
        Some (on_world (io_recv io clntSocket (ic_len ioContext) ov) s)
      })"

definition work_write :: "'w os \<Rightarrow> nat \<Rightarrow> nat \<Rightarrow> nat \<Rightarrow> io_context \<Rightarrow> 'w iocp \<Rightarrow> 'w iocp option" where
  "work_write os trByteSize key ov ioContext s = do {
     s \<leftarrow> (if trByteSize = 0 then do { s \<leftarrow> end_connection os ioContext s; delete_socket_context os key s } else Some s);
     deleteIOContext ov s
   }"

text \<open>A failed call: the callback gets a result without a mode, and the thread ends.\<close>

definition work_fail :: "'w os \<Rightarrow> 'w io_callback \<Rightarrow> nat \<Rightarrow> nat \<Rightarrow> 'w iocp \<Rightarrow> 'w iocp option" where
  "work_fail os callbackFun key ov s = do {
     socketContext \<leftarrow> ip_socks s key;
     let p = xc_clntSocket socketContext;
     s \<leftarrow> share_socket p s;
     s \<leftarrow> callbackFun NoMode p s;
     t \<leftarrow> ip_shared s p;
     let s = on_world (os_close os (ts_socket t)) s;
     s \<leftarrow> deleteIOContext ov s;
     s \<leftarrow> delete_socket_context os key s;
     drop_socket os p s
   }"

text \<open>The body of the loop behind the wait: whether the thread goes on.\<close>

definition work_packet :: "'w os \<Rightarrow> 'w io_calls \<Rightarrow> 'w io_callback \<Rightarrow> bool \<Rightarrow> nat \<Rightarrow> nat \<Rightarrow> nat \<Rightarrow> 'w iocp \<Rightarrow> (bool \<times> 'w iocp) option" where
  "work_packet os io callbackFun ret trByteSize key ov s =
     (if key = 0 \<and> ov = 0 then Some (True, s)
      else if \<not> ret then map_option (Pair False) (work_fail os callbackFun key ov s)
      else do {
        ioContext \<leftarrow> ip_ctxs s ov;
        map_option (Pair True) (case ic_mode ioContext of
          AcceptMode \<Rightarrow> work_accept os io callbackFun ov ioContext s
        | ReadMode \<Rightarrow> work_read os io callbackFun trByteSize key ov ioContext s
        | WriteMode \<Rightarrow> work_write os trByteSize key ov ioContext s
        | NoMode \<Rightarrow> Some s)
      })"

definition set_worker :: "nat \<Rightarrow> io_worker \<Rightarrow> 'w iocp \<Rightarrow> 'w iocp" where
  "set_worker i t s = s\<lparr>ip_workers := (ip_workers s)[i := t]\<rparr>"

text \<open>A turn of thread \<open>i\<close> of \<open>workFun\<close>.\<close>

definition io_turn :: "'w os \<Rightarrow> 'w io_calls \<Rightarrow> 'w io_callback \<Rightarrow> nat \<Rightarrow> 'w iocp \<Rightarrow> 'w iocp option" where
  "io_turn os io callbackFun i s =
     (if \<not> i < length (ip_workers s) then Some s
      else let t = ip_workers s ! i
        in case wk_place t of
          Stopped \<Rightarrow> Some s
        | Testing \<Rightarrow> Some (set_worker i (t\<lparr>wk_place := if ip_flag s then Waiting else Stopped\<rparr>) s)
        | Waiting \<Rightarrow> (case io_wait io (ip_world s) of (status, w) \<Rightarrow>
            let s = s\<lparr>ip_world := w\<rparr>
            in if status = Blocked then Some s
              else do {
                let (ret, trByteSize, t) = (case status of
                    Packet ret n key ov \<Rightarrow> (ret, n, t\<lparr>wk_key := key, wk_overlapped := ov\<rparr>)
                  | _ \<Rightarrow> (False, 0, t\<lparr>wk_overlapped := 0\<rparr>));
                (going, s) \<leftarrow> work_packet os io callbackFun ret trByteSize (wk_key t) (wk_overlapped t) s;
                Some (set_worker i (t\<lparr>wk_place := if going then Testing else Stopped\<rparr>) s)
              }))"

fun io_turns :: "'w os \<Rightarrow> 'w io_calls \<Rightarrow> 'w io_callback \<Rightarrow> nat list \<Rightarrow> 'w iocp \<Rightarrow> 'w iocp option" where
  "io_turns os io callbackFun [] s = Some s"
| "io_turns os io callbackFun (i # is) s = do { s \<leftarrow> io_turn os io callbackFun i s; io_turns os io callbackFun is s }"

subsection \<open>Starting and closing\<close>

definition clearConnected :: "'w os \<Rightarrow> 'w iocp \<Rightarrow> 'w iocp" where
  "clearConnected os s = (on_world (fold (os_close os) (ip_clients s)) s)\<lparr>ip_clients := []\<rparr>"

text \<open>\<open>close\<close> while the threads take the turns \<open>during\<close> in its sleep and the turns \<open>joining\<close> after
  the flag is reset; the result says whether all threads have ended by then, so that it returns.\<close>

definition iocp_close ::
    "'w os \<Rightarrow> 'w io_calls \<Rightarrow> 'w io_callback \<Rightarrow> nat list \<Rightarrow> nat list \<Rightarrow> 'w iocp \<Rightarrow> (bool \<times> 'w iocp) option" where
  "iocp_close os io callbackFun during joining s = do {
     let s = on_world (io_sleep io 10) (clearConnected os s);
     s \<leftarrow> io_turns os io callbackFun during s;
     s \<leftarrow> io_turns os io callbackFun joining (s\<lparr>ip_flag := False\<rparr>);
     Some (if \<forall>t\<in>set (ip_workers s). wk_place t = Stopped then (True, s\<lparr>ip_workers := []\<rparr>) else (False, s))
   }"

text \<open>The last loop of \<open>startIocp\<close>: a pending accept for every two threads.\<close>

fun start_accepts :: "'w os \<Rightarrow> 'w io_calls \<Rightarrow> nat \<Rightarrow> 'w iocp \<Rightarrow> 'w iocp option" where
  "start_accepts os io 0 s = Some s"
| "start_accepts os io (Suc n) s = do {
     let (clntSocket, w) = os_socket os (ip_world s);
     let (acceptContext, s) = newIOContext (s\<lparr>ip_world := w\<rparr>);
     s \<leftarrow> set_context acceptContext (\<lambda>c. c\<lparr>ic_mode := AcceptMode, ic_clntSocket := Some clntSocket\<rparr>) s;
     s \<leftarrow> post_accept io clntSocket acceptContext s;
     start_accepts os io n s
   }"

text \<open>The number of threads; a negative number becomes one no loop of threads reaches.\<close>

definition thread_number :: "'w io_calls \<Rightarrow> int \<Rightarrow> nat option" where
  "thread_number io threadCount =
     (let n = (if threadCount = 0 then int (io_cores io) * 4 div 5 else threadCount)
      in if n < 0 then None else Some (nat n))"

text \<open>\<open>startIocp\<close> behind its call of \<open>close\<close>; the turns that the first threads may take
  before the accepts are posted are \<open>early\<close>.  The port of the arguments is not used.\<close>

definition iocp_listen ::
    "'w os \<Rightarrow> 'w io_calls \<Rightarrow> 'w io_callback \<Rightarrow> nat list \<Rightarrow> uint \<Rightarrow> int \<Rightarrow> 'w iocp \<Rightarrow> 'w iocp option" where
  "iocp_listen os io callbackFun early address threadCount s =
     (let s = on_world (io_create io) (s\<lparr>ip_acceptEx := False, ip_getAddrs := False\<rparr>);
          (listenSocket, w) = os_socket os (ip_world s);
          s = s\<lparr>ip_world := w\<rparr>
      in if listenSocket = INVALID_SOCKET then Some s
         else do {
           let (_, w) = os_bind os listenSocket \<lparr>sin_addr = host_ip address, sin_port = net_short 9999\<rparr> (ip_world s);
           let (_, w) = os_listen os listenSocket 0x7FFFFFFF w;
           n \<leftarrow> thread_number io threadCount;
           let s = s\<lparr>ip_world := w, ip_listen := listenSocket, ip_flag := True,
               ip_workers := ip_workers s @ replicate n \<lparr>wk_place = Testing, wk_key = 0, wk_overlapped = 0\<rparr>\<rparr>;
           s \<leftarrow> io_turns os io callbackFun early s;
           let s = on_world (io_associate io listenSocket (nat listenSocket)) s;
           let ((acceptEx, getAddrs), w) = io_extensions io listenSocket (ip_world s);
           start_accepts os io (length (ip_workers s) div 2)
             (s\<lparr>ip_world := w, ip_acceptEx := acceptEx, ip_getAddrs := getAddrs\<rparr>)
         })"

definition startIocp ::
    "'w os \<Rightarrow> 'w io_calls \<Rightarrow> 'w io_callback \<Rightarrow> nat list \<Rightarrow> nat list \<Rightarrow> nat list \<Rightarrow> uint \<Rightarrow> 16 word \<Rightarrow> int \<Rightarrow> 'w iocp \<Rightarrow>
     (bool \<times> 'w iocp) option" where
  "startIocp os io callbackFun during joining early address port threadCount s = do {
     (joined, s) \<leftarrow> iocp_close os io callbackFun during joining s;
     if \<not> joined then Some (False, s)
     else map_option (Pair True) (iocp_listen os io callbackFun early address threadCount s)
   }"


text \<open>The destructor.\<close>

definition destroy_CMIOCP ::
    "'w os \<Rightarrow> 'w io_calls \<Rightarrow> 'w io_callback \<Rightarrow> nat list \<Rightarrow> nat list \<Rightarrow> 'w iocp \<Rightarrow> (bool \<times> 'w iocp) option" where
  "destroy_CMIOCP os io callbackFun during joining s = iocp_close os io callbackFun during joining s"

end
