(* ===== verification/IocpOwner.thy ===== *)
theory IocpOwner
  imports Iocp
begin

text \<open>
  What keeps the server of theory Iocp in order, and what does not: the promise of the completion port,
  the invariant that ties contexts and connections to the calls in flight, kept by every turn of every
  thread, and the ways in which threads end and \<open>close\<close> does not.
\<close>

subsection \<open>What the port promises\<close>

text \<open>A view of the world: the calls in flight, each with its context and with the key of its socket,
  and the key under which a socket is associated with the port.\<close>

datatype io_request = AcceptReq int | RecvReq int | SendReq

type_synonym io_pending = "nat \<times> nat \<times> io_request"

record 'w io_view =
  pv_reqs :: "'w \<Rightarrow> io_pending multiset"
  pv_key :: "'w \<Rightarrow> int \<Rightarrow> nat option"

definition key_keeps :: "'w io_view \<Rightarrow> 'w \<Rightarrow> 'w \<Rightarrow> bool" where
  "key_keeps v w w' \<longleftrightarrow> (\<forall>fd. pv_key v w' fd = pv_key v w fd \<or> pv_key v w' fd = None)"

definition io_keeps :: "'w io_view \<Rightarrow> 'w \<Rightarrow> 'w \<Rightarrow> bool" where
  "io_keeps v w w' \<longleftrightarrow> pv_reqs v w' \<subseteq># pv_reqs v w \<and> key_keeps v w w'"

text \<open>A call that is posted completes at most once, and then with its context and key; an accepted
  socket is not associated yet; a receive that brings bytes is one of a socket that is still open.  The
  calls that are not posted leave the rest alone, but for sockets that are closed.\<close>

definition io_delivers :: "'w io_view \<Rightarrow> io_status \<Rightarrow> 'w \<Rightarrow> 'w \<Rightarrow> bool" where
  "io_delivers v status w w' \<longleftrightarrow> (case status of
     Blocked \<Rightarrow> True
   | NoPacket \<Rightarrow> False
   | Packet ret n key ov \<Rightarrow> (\<exists>req. add_mset (ov, key, req) (pv_reqs v w') \<subseteq># pv_reqs v w \<and> (case req of
       AcceptReq fd \<Rightarrow> ret \<and> pv_key v w' fd = None
     | RecvReq fd \<Rightarrow> ret \<and> 0 < n \<longrightarrow> pv_key v w' fd = Some key
     | SendReq \<Rightarrow> ret \<and> 0 < n)))"

definition io_laws :: "'w os \<Rightarrow> 'w io_calls \<Rightarrow> 'w io_view \<Rightarrow> bool" where
  "io_laws os io v \<longleftrightarrow>
     (\<forall>w. io_keeps v w (snd (os_socket os w))) \<and>
     (\<forall>fd a w. io_keeps v w (snd (os_bind os fd a w))) \<and>
     (\<forall>fd n w. io_keeps v w (snd (os_listen os fd n w))) \<and>
     (\<forall>w. io_keeps v w (io_create io w)) \<and>
     (\<forall>t w. io_keeps v w (io_sleep io t w)) \<and>
     (\<forall>fd w. io_keeps v w (snd (io_extensions io fd w))) \<and>
     (\<forall>fd w. io_keeps v w (os_close os fd w)) \<and>
     (\<forall>fd l w. io_keeps v w (io_update_accept io fd l w)) \<and>
     (\<forall>w. io_keeps v w (snd (io_wait io w))) \<and>
     (\<forall>w. io_delivers v (fst (io_wait io w)) w (snd (io_wait io w))) \<and>
     (\<forall>fd k w. pv_reqs v (io_associate io fd k w) \<subseteq># pv_reqs v w) \<and>
     (\<forall>fd k w. pv_key v w fd = None \<longrightarrow>
        pv_key v (io_associate io fd k w) fd = Some k \<or> pv_key v (io_associate io fd k w) fd = None) \<and>
     (\<forall>l fd ov w. key_keeps v w (io_acceptEx io l fd ov w) \<and>
        (\<exists>k. pv_reqs v (io_acceptEx io l fd ov w) \<subseteq># add_mset (ov, k, AcceptReq fd) (pv_reqs v w))) \<and>
     (\<forall>fd n ov w. key_keeps v w (io_recv io fd n ov w) \<and> (pv_reqs v (io_recv io fd n ov w) \<subseteq># pv_reqs v w \<or>
        (\<exists>k. pv_key v w fd = Some k \<and> pv_reqs v (io_recv io fd n ov w) \<subseteq># add_mset (ov, k, RecvReq fd) (pv_reqs v w)))) \<and>
     (\<forall>fd bs ov w. key_keeps v w (io_wsasend io fd bs ov w) \<and>
        (\<exists>k. pv_reqs v (io_wsasend io fd bs ov w) \<subseteq># add_mset (ov, k, SendReq) (pv_reqs v w)))"

lemma io_lawsD:
  assumes "io_laws os io v"
  shows "os_socket os w = (fd, w') \<Longrightarrow> io_keeps v w w'"
    and "io_keeps v w (os_close os fd w)"
    and "io_keeps v w (io_update_accept io fd l w)"
    and "io_wait io w = (status, w') \<Longrightarrow> io_keeps v w w' \<and> io_delivers v status w w'"
    and "pv_reqs v (io_associate io fd k w) \<subseteq># pv_reqs v w"
    and "pv_key v w fd = None \<Longrightarrow>
      pv_key v (io_associate io fd k w) fd = Some k \<or> pv_key v (io_associate io fd k w) fd = None"
    and "\<exists>k. pv_reqs v (io_acceptEx io l fd ov w) \<subseteq># add_mset (ov, k, AcceptReq fd) (pv_reqs v w)"
    and "pv_reqs v (io_recv io fd n ov w) \<subseteq># pv_reqs v w \<or>
        (\<exists>k. pv_key v w fd = Some k \<and> pv_reqs v (io_recv io fd n ov w) \<subseteq># add_mset (ov, k, RecvReq fd) (pv_reqs v w))"
    and "key_keeps v w (io_wsasend io fd bs ov w) \<and>
        (\<exists>k. pv_reqs v (io_wsasend io fd bs ov w) \<subseteq># add_mset (ov, k, SendReq) (pv_reqs v w))"
    and "os_bind os fd a w = (r, w') \<Longrightarrow> io_keeps v w w'"
    and "os_listen os fd n w = (r, w') \<Longrightarrow> io_keeps v w w'"
    and "io_keeps v w (io_create io w)" "io_keeps v w (io_sleep io m w)"
    and "io_extensions io fd w = (b, w') \<Longrightarrow> io_keeps v w w'"
proof -
  note laws = assms [unfolded io_laws_def]
  have "io_keeps v w (snd (os_socket os w))" "io_keeps v w (snd (io_wait io w))" "io_keeps v w (snd (os_bind os fd a w))"
    "io_keeps v w (snd (os_listen os fd n w))" "io_keeps v w (snd (io_extensions io fd w))"
    "io_delivers v (fst (io_wait io w)) w (snd (io_wait io w))" using laws by simp_all
  then show "os_socket os w = (fd, w') \<Longrightarrow> io_keeps v w w'"
    "io_wait io w = (status, w') \<Longrightarrow> io_keeps v w w' \<and> io_delivers v status w w'"
    "os_bind os fd a w = (r, w') \<Longrightarrow> io_keeps v w w'" "os_listen os fd n w = (r, w') \<Longrightarrow> io_keeps v w w'"
    "io_extensions io fd w = (b, w') \<Longrightarrow> io_keeps v w w'" by auto
  show "pv_key v w fd = None \<Longrightarrow>
      pv_key v (io_associate io fd k w) fd = Some k \<or> pv_key v (io_associate io fd k w) fd = None" using laws by (auto dest: spec)
qed (use assms [unfolded io_laws_def] in simp_all)

subsection \<open>The invariant\<close>

text \<open>Each receive in flight has a claim on the context of its connection and on an entry of the list
  of sockets.\<close>

fun claim :: "io_pending \<Rightarrow> (nat \<times> int) multiset" where
  "claim (ov, key, RecvReq fd) = {#(key, fd)#}"
| "claim (ov, key, _) = {#}"

definition claims :: "io_pending multiset \<Rightarrow> (nat \<times> int) multiset" where
  "claims T = \<Sum>\<^sub># (image_mset claim T)"

lemma claims_simps [simp]: "claims {#} = {#}" "claims (add_mset x T) = claim x + claims T" "claims (T + U) = claims T + claims U"
  by (simp_all add: claims_def)

lemma claims_mono: "T \<subseteq># U \<Longrightarrow> claims T \<subseteq># claims U"
  by (auto simp: subset_mset.le_iff_add)

definition fits :: "io_request \<Rightarrow> io_context \<Rightarrow> bool" where
  "fits req c = (case req of
     AcceptReq fd \<Rightarrow> ic_mode c = AcceptMode \<and> ic_clntSocket c = Some fd
   | RecvReq fd \<Rightarrow> ic_mode c = ReadMode \<and> ic_clntSocket c = Some fd
   | SendReq \<Rightarrow> ic_mode c = WriteMode)"

text \<open>\<open>T\<close> are the calls in flight and those being served, \<open>R\<close> the claims of connections whose
  receive is not posted yet.\<close>

definition io_ok :: "(nat \<times> int) multiset \<Rightarrow> io_pending multiset \<Rightarrow> 'w iocp \<Rightarrow> bool" where
  "io_ok R T s \<longleftrightarrow> finite (dom (ip_ctxs s)) \<and> finite (dom (ip_socks s)) \<and> 0 < ip_next s \<and>
     (\<forall>p. ip_ctxs s p \<noteq> None \<or> ip_socks s p \<noteq> None \<or> ip_shared s p \<noteq> None \<longrightarrow> 0 < p \<and> p < ip_next s) \<and>
     image_mset fst T \<subseteq># mset_set (dom (ip_ctxs s)) \<and>
     image_mset fst (claims T + R) \<subseteq># mset_set (dom (ip_socks s)) \<and>
     image_mset snd (claims T + R) \<subseteq># mset (ip_clients s) \<and>
     (\<forall>ov key req c. (ov, key, req) \<in># T \<longrightarrow> ip_ctxs s ov = Some c \<longrightarrow> fits req c) \<and>
     (\<forall>k x k' x'. ip_socks s k = Some x \<longrightarrow> ip_socks s k' = Some x' \<longrightarrow> xc_clntSocket x = xc_clntSocket x' \<longrightarrow> k = k') \<and>
     (\<forall>k x. ip_socks s k = Some x \<longrightarrow> ip_shared s (xc_clntSocket x) \<noteq> None) \<and>
     (\<forall>p t. ip_shared s p = Some t \<longrightarrow> 1 \<le> ts_uses t) \<and>
     ip_acceptEx s \<and> ip_getAddrs s"

text \<open>What serving leaves alone: everything that was there, but that a socket can have more users and can
  be closed.\<close>

definition io_grows :: "'w io_view \<Rightarrow> 'w iocp \<Rightarrow> 'w iocp \<Rightarrow> bool" where
  "io_grows v s s' \<longleftrightarrow> ip_next s \<le> ip_next s' \<and>
     (\<forall>p<ip_next s. ip_ctxs s' p = ip_ctxs s p \<and> ip_socks s' p = ip_socks s p) \<and>
     (\<forall>p t. ip_shared s p = Some t \<longrightarrow> (\<exists>t'. ip_shared s' p = Some t' \<and> ts_socket t' = ts_socket t \<and> ts_uses t \<le> ts_uses t')) \<and>
     ip_clients s' = ip_clients s \<and> ip_workers s' = ip_workers s \<and> ip_flag s' = ip_flag s \<and>
     ip_listen s' = ip_listen s \<and> key_keeps v (ip_world s) (ip_world s')"

text \<open>A callback: it may do what \<open>send\<close> does, keep the socket, and use the world.\<close>

definition callback_ok :: "'w io_view \<Rightarrow> 'w io_callback \<Rightarrow> bool" where
  "callback_ok v callbackFun \<longleftrightarrow> (\<forall>mode p R D s. io_ok R (pv_reqs v (ip_world s) + D) s \<longrightarrow> ip_shared s p \<noteq> None \<longrightarrow>
     (\<exists>s'. callbackFun mode p s = Some s' \<and> io_ok R (pv_reqs v (ip_world s') + D) s' \<and> io_grows v s s'))"

lemma io_growsD:
  assumes "io_grows v s s'"
  shows "ip_next s \<le> ip_next s'" "p < ip_next s \<Longrightarrow> ip_ctxs s' p = ip_ctxs s p" "p < ip_next s \<Longrightarrow> ip_socks s' p = ip_socks s p"
    "ip_shared s q = Some t \<Longrightarrow> \<exists>t'. ip_shared s' q = Some t' \<and> ts_socket t' = ts_socket t \<and> ts_uses t \<le> ts_uses t'"
    "ip_clients s' = ip_clients s" "ip_workers s' = ip_workers s" "ip_flag s' = ip_flag s" "ip_listen s' = ip_listen s"
    "key_keeps v (ip_world s) (ip_world s')"
  using assms unfolding io_grows_def by blast+

lemma io_keepsD: "io_keeps v w w' \<Longrightarrow> pv_reqs v w' \<subseteq># pv_reqs v w" "io_keeps v w w' \<Longrightarrow> key_keeps v w w'"
  by (simp_all add: io_keeps_def)

lemma key_keeps_trans: "key_keeps v a b \<Longrightarrow> key_keeps v b c \<Longrightarrow> key_keeps v a c"
  unfolding key_keeps_def by metis

lemma key_keeps_refl [simp]: "key_keeps v w w"
  by (simp add: key_keeps_def)

lemma io_ok_less:
  assumes "io_ok R T s" "U \<subseteq># T"
  shows "io_ok R U s"
proof -
  have "claims U + R \<subseteq># claims T + R" using claims_mono [OF assms(2)] by simp
  then have "image_mset fst (claims U + R) \<subseteq># image_mset fst (claims T + R)"
    "image_mset snd (claims U + R) \<subseteq># image_mset snd (claims T + R)" "image_mset fst U \<subseteq># image_mset fst T"
    using assms(2) image_mset_subseteq_mono by blast+
  then show ?thesis using assms
    unfolding io_ok_def by (meson mset_subset_eqD subset_mset.order_trans)
qed

lemma on_world_simps [simp]:
  "ip_ctxs (on_world f s) = ip_ctxs s" "ip_socks (on_world f s) = ip_socks s" "ip_shared (on_world f s) = ip_shared s"
  "ip_next (on_world f s) = ip_next s" "ip_clients (on_world f s) = ip_clients s" "ip_workers (on_world f s) = ip_workers s"
  "ip_flag (on_world f s) = ip_flag s" "ip_listen (on_world f s) = ip_listen s" "ip_acceptEx (on_world f s) = ip_acceptEx s"
  "ip_getAddrs (on_world f s) = ip_getAddrs s" "ip_world (on_world f s) = f (ip_world s)"
  by (simp_all add: on_world_def)

lemma io_ok_world [simp]: "io_ok R T (s\<lparr>ip_world := w\<rparr>) = io_ok R T s" "io_ok R T (on_world f s) = io_ok R T s"
  by (simp_all add: io_ok_def)

lemma subset_add_cases:
  assumes "A \<subseteq># B \<or> A \<subseteq># add_mset x B"
  shows "A \<subseteq># add_mset x B"
  using assms
proof
  assume "A \<subseteq># B"
  moreover have "B \<subseteq># add_mset x B" by simp
  ultimately show ?thesis by (rule subset_mset.order_trans)
qed

text \<open>The world may lose calls in flight, or have one more, which is accounted for.\<close>

lemma io_ok_keeps: "io_ok R (pv_reqs v w + D) s \<Longrightarrow> pv_reqs v w' \<subseteq># pv_reqs v w \<Longrightarrow> io_ok R (pv_reqs v w' + D) s"
  by (erule io_ok_less) (rule subset_mset.add_right_mono)

lemma io_ok_post:
  assumes "io_ok R (pv_reqs v w + add_mset x D) s" "pv_reqs v w' \<subseteq># add_mset x (pv_reqs v w)"
  shows "io_ok R (pv_reqs v w' + D) s"
proof -
  have "pv_reqs v w' + D \<subseteq># add_mset x (pv_reqs v w) + D" using assms(2) by (rule subset_mset.add_right_mono)
  then show ?thesis using io_ok_less [OF assms(1)] by simp
qed

text \<open>A new context, with the call it is made for.\<close>

lemma io_ok_new_context:
  assumes "io_ok (claim (ip_next s, key, req) + R) T s" "fits req c"
  shows "io_ok R (add_mset (ip_next s, key, req) T) (s\<lparr>ip_ctxs := (ip_ctxs s)(ip_next s \<mapsto> c), ip_next := Suc (ip_next s)\<rparr>)"
proof -
  have new: "ip_ctxs s (ip_next s) = None" using assms(1) unfolding io_ok_def by auto
  then have dom: "mset_set (insert (ip_next s) (dom (ip_ctxs s))) = add_mset (ip_next s) (mset_set (dom (ip_ctxs s)))"
    using assms(1) by (intro mset_set.insert) (auto simp: io_ok_def)
  have "(ip_next s, k, r) \<notin># T" for k r
  proof
    assume "(ip_next s, k, r) \<in># T"
    then have "ip_next s \<in># image_mset fst T" by force
    then have "ip_next s \<in># mset_set (dom (ip_ctxs s))" using assms(1) unfolding io_ok_def by (meson mset_subset_eqD)
    then show False using new assms(1) by (auto simp: io_ok_def)
  qed
  then show ?thesis
    using assms dom unfolding io_ok_def by (auto simp: add_ac less_Suc_eq)
qed

text \<open>A context that is used again for a call that makes the same claim.\<close>

lemma io_ok_reuse:
  assumes "io_ok R (add_mset (ov, key, req) T) s" "ip_ctxs s ov = Some c" "fits req' c'"
    "claim (ov, key', req') = claim (ov, key, req)"
  shows "io_ok R (add_mset (ov, key', req') T) (s\<lparr>ip_ctxs := (ip_ctxs s)(ov \<mapsto> c')\<rparr>)"
proof -
  have once: "(ov, k, r) \<notin># T" for k r
  proof
    assume "(ov, k, r) \<in># T"
    then obtain T' where "T = add_mset (ov, k, r) T'" by (metis multi_member_split)
    then have "add_mset ov (add_mset ov (image_mset fst T')) \<subseteq># mset_set (dom (ip_ctxs s))"
      using assms(1) by (simp add: io_ok_def)
    then have "Suc (Suc 0) \<le> count (mset_set (dom (ip_ctxs s))) ov"
      by (metis count_add_mset mset_subset_eq_count not_less_eq_eq le0 Suc_le_mono le_trans)
    then show False by (simp add: count_mset_set' split: if_splits)
  qed
  have "dom ((ip_ctxs s)(ov \<mapsto> c')) = dom (ip_ctxs s)" using assms(2) by auto
  then show ?thesis
    using assms once unfolding io_ok_def by (auto simp: add_ac)
qed


lemma io_ok_context:
  assumes "io_ok R (add_mset (ov, key, req) T) s"
  obtains c where "ip_ctxs s ov = Some c" "fits req c" "0 < ov" "ov < ip_next s"
proof -
  have "ov \<in># mset_set (dom (ip_ctxs s))"
    using assms unfolding io_ok_def by (metis fst_conv image_mset_add_mset mset_subset_eqD union_single_eq_member)
  then obtain c where "ip_ctxs s ov = Some c" using assms by (auto simp: io_ok_def)
  then show ?thesis using that assms by (auto simp: io_ok_def)
qed

lemma io_ok_claim:
  assumes "io_ok R (add_mset (ov, key, RecvReq fd) T) s"
  obtains x t where "ip_socks s key = Some x" "ip_shared s (xc_clntSocket x) = Some t" "1 \<le> ts_uses t" "fd \<in> set (ip_clients s)"
proof -
  have "key \<in># mset_set (dom (ip_socks s))" "fd \<in># mset (ip_clients s)"
    using assms unfolding io_ok_def by (auto dest: mset_subset_eqD)
  then obtain x where "ip_socks s key = Some x" using assms by (auto simp: io_ok_def)
  then show ?thesis using that assms \<open>fd \<in># mset (ip_clients s)\<close> by (fastforce simp: io_ok_def)
qed

subsection \<open>Sockets and the callback\<close>

lemma share_socket_ok:
  assumes "io_ok R T s" "ip_shared s p = Some t"
  obtains s' where "share_socket p s = Some s'" "s' = s\<lparr>ip_shared := (ip_shared s)(p \<mapsto> t\<lparr>ts_uses := Suc (ts_uses t)\<rparr>)\<rparr>" "io_ok R T s'"
  using that assms unfolding io_ok_def by (auto simp: share_socket_def)

text \<open>A pointer is given up that was not the last, or to a socket whose context is gone.\<close>

lemma drop_socket_ok:
  assumes "io_laws os io v" "io_ok R (pv_reqs v (ip_world s) + D) s" "ip_shared s p = Some t"
    and "2 \<le> ts_uses t \<or> (\<forall>k x. ip_socks s k = Some x \<longrightarrow> xc_clntSocket x \<noteq> p)"
  obtains s' where "drop_socket os p s = Some s'" "io_ok R (pv_reqs v (ip_world s') + D) s'"
    "\<exists>f. ip_shared s' = (ip_shared s)(p := f) \<and> (2 \<le> ts_uses t \<longrightarrow> f = Some (t\<lparr>ts_uses := ts_uses t - 1\<rparr>))"
    "ip_ctxs s' = ip_ctxs s" "ip_socks s' = ip_socks s" "ip_clients s' = ip_clients s" "ip_workers s' = ip_workers s"
    "ip_next s' = ip_next s" "ip_flag s' = ip_flag s" "ip_listen s' = ip_listen s" "io_keeps v (ip_world s) (ip_world s')"
proof (cases "ts_uses t \<le> 1")
  case True
  let ?s = "on_world (os_close os (ts_socket t)) (s\<lparr>ip_shared := (ip_shared s)(p := None)\<rparr>)"
  have keeps: "io_keeps v (ip_world s) (ip_world ?s)" using io_lawsD(2) [OF assms(1)] by simp
  have "io_ok R (pv_reqs v (ip_world s) + D) ?s" using assms(2,4) True unfolding io_ok_def by auto
  then have "io_ok R (pv_reqs v (ip_world ?s) + D) ?s" using io_ok_keeps [OF _ io_keepsD(1) [OF keeps]] by blast
  then show ?thesis using that [of ?s] assms(3,4) True keeps by (auto simp: drop_socket_def)
next
  case False
  let ?s = "s\<lparr>ip_shared := (ip_shared s)(p \<mapsto> t\<lparr>ts_uses := ts_uses t - 1\<rparr>)\<rparr>"
  have "io_ok R (pv_reqs v (ip_world s) + D) ?s" using assms(2,3) False unfolding io_ok_def by auto
  then show ?thesis using that [of ?s] assms(3) False by (auto simp: drop_socket_def io_keeps_def)
qed

lemma call_back_ok:
  assumes laws: "io_laws os io v" and cb: "callback_ok v callbackFun" and ok: "io_ok R (pv_reqs v (ip_world s) + D) s"
    and p: "ip_shared s p = Some t"
  obtains s' where "call_back os callbackFun mode p s = Some s'" "io_ok R (pv_reqs v (ip_world s') + D) s'" "io_grows v s s'"
proof -
  from share_socket_ok [OF ok p] obtain s1 where s1: "share_socket p s = Some s1"
    "s1 = s\<lparr>ip_shared := (ip_shared s)(p \<mapsto> t\<lparr>ts_uses := Suc (ts_uses t)\<rparr>)\<rparr>" "io_ok R (pv_reqs v (ip_world s) + D) s1" by blast
  then obtain s2 where s2: "callbackFun mode p s1 = Some s2" "io_ok R (pv_reqs v (ip_world s2) + D) s2" "io_grows v s1 s2"
    using cb [unfolded callback_ok_def, rule_format, of R s1 D p mode] by auto
  then obtain t2 where t2: "ip_shared s2 p = Some t2" "ts_socket t2 = ts_socket t" "Suc (ts_uses t) \<le> ts_uses t2"
    using io_growsD(4) [OF s2(3), of p "t\<lparr>ts_uses := Suc (ts_uses t)\<rparr>"] s1(2) by auto
  have "1 \<le> ts_uses t" using ok p by (auto simp: io_ok_def)
  then have "2 \<le> ts_uses t2" using t2(3) by simp
  with drop_socket_ok [OF laws s2(2) t2(1)] obtain s3 where s3: "drop_socket os p s2 = Some s3" "io_ok R (pv_reqs v (ip_world s3) + D) s3"
    "ip_shared s3 = (ip_shared s2)(p \<mapsto> t2\<lparr>ts_uses := ts_uses t2 - 1\<rparr>)"
    "ip_ctxs s3 = ip_ctxs s2" "ip_socks s3 = ip_socks s2" "ip_clients s3 = ip_clients s2" "ip_workers s3 = ip_workers s2"
    "ip_next s3 = ip_next s2" "ip_flag s3 = ip_flag s2" "ip_listen s3 = ip_listen s2" "io_keeps v (ip_world s2) (ip_world s3)"
    by metis
  have shared: "\<exists>t'. ip_shared s3 q = Some t' \<and> ts_socket t' = ts_socket u \<and> ts_uses u \<le> ts_uses t'" if "ip_shared s q = Some u" for q u
  proof (cases "q = p")
    case True
    then show ?thesis using that p t2 s3(3) by auto
  next
    case False
    then have "ip_shared s1 q = Some u" using that s1(2) by simp
    then show ?thesis using io_growsD(4) [OF s2(3)] s3(3) False by simp
  qed
  have "key_keeps v (ip_world s) (ip_world s3)"
    using s2(3) s1(2) key_keeps_trans [OF _ io_keepsD(2) [OF s3(11)]] by (simp add: io_grows_def)
  then have "io_grows v s s3"
    using s2(3) s3(4-10) s1(2) shared unfolding io_grows_def by simp
  then show ?thesis using that s1(1) s2(1) s3(1,2) by (simp add: call_back_def)
qed


subsection \<open>Serving\<close>

text \<open>What remains of a state while a completion is served, as far as the rest of the service needs it.\<close>

definition io_frame :: "'w iocp \<Rightarrow> 'w iocp \<Rightarrow> bool" where
  "io_frame s s' \<longleftrightarrow> ip_next s \<le> ip_next s' \<and> (\<forall>p<ip_next s. ip_ctxs s' p = ip_ctxs s p) \<and> ip_workers s' = ip_workers s"

lemma io_frame_trans: "io_frame s s' \<Longrightarrow> io_frame s' s'' \<Longrightarrow> io_frame s s''"
  by (simp add: io_frame_def)

lemma io_frame_grows: "io_grows v s s' \<Longrightarrow> io_frame s s'"
  using io_growsD [of v s s'] by (simp add: io_frame_def)

text \<open>The context and the socket of a new connection; its receive is still to be posted.\<close>

lemma io_ok_new_connection:
  assumes "io_ok R T s" "image_mset snd (claims T + R) + {#fd#} \<subseteq># mset (ip_clients s)"
  shows "io_ok (add_mset (Suc (ip_next s), fd) R) T (s\<lparr>ip_shared := (ip_shared s)(ip_next s \<mapsto> \<lparr>ts_socket = fd, ts_uses = 1\<rparr>),
      ip_socks := (ip_socks s)(Suc (ip_next s) \<mapsto> \<lparr>xc_clntSocket = ip_next s, xc_addr = a\<rparr>),
      ip_next := Suc (Suc (ip_next s))\<rparr>)"
proof -
  let ?k = "Suc (ip_next s)"
  have new: "ip_socks s ?k = None" "ip_shared s (ip_next s) = None" using assms(1) unfolding io_ok_def by auto
  then have "mset_set (insert ?k (dom (ip_socks s))) = add_mset ?k (mset_set (dom (ip_socks s)))"
    using assms(1) by (intro mset_set.insert) (auto simp: io_ok_def)
  moreover
  have "xc_clntSocket x \<noteq> ip_next s" if "ip_socks s q = Some x" for q x
    using assms(1) that new(2) unfolding io_ok_def by metis
  then have fresh: "ip_socks s q = Some x \<Longrightarrow> ip_next s = xc_clntSocket x \<Longrightarrow> False"
      "ip_socks s q = Some x \<Longrightarrow> xc_clntSocket x = ip_next s \<Longrightarrow> False" for q x by metis+
  ultimately show ?thesis
    using assms unfolding io_ok_def by (auto simp: less_Suc_eq dest: fresh)
qed

lemma new_connection_ok:
  assumes laws: "io_laws os io v" and cb: "callback_ok v callbackFun" and ok: "io_ok R (pv_reqs v (ip_world s) + D) s"
    and fd: "image_mset snd (claims (pv_reqs v (ip_world s) + D) + R) + {#fd#} \<subseteq># mset (ip_clients s)"
    and key: "pv_key v (ip_world s) fd = None"
  obtains s' k where "new_connection os io callbackFun ov fd s = Some s'"
    "io_ok (add_mset (k, fd) R) (pv_reqs v (ip_world s') + D) s'" "io_frame s s'"
    "pv_key v (ip_world s') fd = Some k \<or> pv_key v (ip_world s') fd = None"
proof -
  let ?k = "Suc (ip_next s)"
  let ?s = "s\<lparr>ip_shared := (ip_shared s)(ip_next s \<mapsto> \<lparr>ts_socket = fd, ts_uses = 1\<rparr>),
      ip_socks := (ip_socks s)(?k \<mapsto> \<lparr>xc_clntSocket = ip_next s, xc_addr = io_peer io ov (ip_world s)\<rparr>), ip_next := Suc ?k\<rparr>"
  let ?t = "on_world (io_associate io fd ?k) ?s"
  have "io_ok (add_mset (?k, fd) R) (pv_reqs v (ip_world s) + D) ?t"
    using io_ok_new_connection [OF ok fd] by simp
  then have "io_ok (add_mset (?k, fd) R) (pv_reqs v (ip_world ?t) + D) ?t"
    by (rule io_ok_keeps) (simp add: io_lawsD(5) [OF laws])
  then obtain s' where s': "call_back os callbackFun AcceptMode (ip_next s) ?t = Some s'"
    "io_ok (add_mset (?k, fd) R) (pv_reqs v (ip_world s') + D) s'" "io_grows v ?t s'"
    by (rule call_back_ok [OF laws cb]) (simp, blast)
  have "pv_key v (ip_world ?t) fd = Some ?k \<or> pv_key v (ip_world ?t) fd = None"
    using io_lawsD(6) [OF laws key] by simp
  then have "pv_key v (ip_world s') fd = Some ?k \<or> pv_key v (ip_world s') fd = None"
    using io_growsD(9) [OF s'(3)] unfolding key_keeps_def by metis
  moreover have "io_frame s s'"
    using io_growsD(1,2,6) [OF s'(3)] by (simp add: io_frame_def)
  moreover have "ip_getAddrs s" using ok by (simp add: io_ok_def)
  ultimately show ?thesis
    using that s' by (simp add: new_connection_def Let_def)
qed

lemma post_read_ok:
  assumes laws: "io_laws os io v" and ok: "io_ok (add_mset (k, fd) R) (pv_reqs v (ip_world s) + D) s"
    and key: "pv_key v (ip_world s) fd = Some k \<or> pv_key v (ip_world s) fd = None"
  obtains s' where "post_read io fd s = Some s'" "io_ok R (pv_reqs v (ip_world s') + D) s'" "io_frame s s'"
proof -
  let ?c = "\<lparr>ic_mode = ReadMode, ic_buffer = replicate 10240 0, ic_len = 10240, ic_clntSocket = Some fd\<rparr>"
  let ?s = "s\<lparr>ip_ctxs := (ip_ctxs s)(ip_next s \<mapsto> ?c), ip_next := Suc (ip_next s)\<rparr>"
  let ?t = "on_world (io_recv io fd 10240 (ip_next s)) ?s"
  have "fits (RecvReq fd) ?c" by (simp add: fits_def)
  moreover have "io_ok (claim (ip_next s, k, RecvReq fd) + R) (pv_reqs v (ip_world s) + D) s" using ok by simp
  ultimately have "io_ok R (add_mset (ip_next s, k, RecvReq fd) (pv_reqs v (ip_world s) + D)) ?s" by (rule io_ok_new_context [rotated])
  then have s: "io_ok R (pv_reqs v (ip_world s) + add_mset (ip_next s, k, RecvReq fd) D) ?t" by simp
  have "pv_reqs v (ip_world ?t) \<subseteq># pv_reqs v (ip_world s) \<or>
      pv_reqs v (ip_world ?t) \<subseteq># add_mset (ip_next s, k, RecvReq fd) (pv_reqs v (ip_world s))"
    using io_lawsD(8) [OF laws, of fd 10240 "ip_next s" "ip_world s"] key by auto
  then have "pv_reqs v (ip_world ?t) \<subseteq># add_mset (ip_next s, k, RecvReq fd) (pv_reqs v (ip_world s))"
    by (rule subset_add_cases)
  from io_ok_post [OF s this] show ?thesis
    by (intro that [of ?t]) (simp_all add: post_read_def newIOContext_def set_context_def io_frame_def)
qed


lemma io_ok_clients:
  assumes "io_ok R T s"
  shows "io_ok R T (s\<lparr>ip_clients := ip_clients s @ [fd]\<rparr>)"
    "image_mset snd (claims T + R) + {#fd#} \<subseteq># mset (ip_clients s @ [fd])"
proof -
  have sub: "image_mset snd (claims T + R) \<subseteq># mset (ip_clients s)" using assms by (simp add: io_ok_def)
  then show "image_mset snd (claims T + R) + {#fd#} \<subseteq># mset (ip_clients s @ [fd])" by simp
  have "image_mset snd (claims T + R) \<subseteq># mset (ip_clients s @ [fd])"
    using subset_add_cases [OF disjI1 [OF sub], of fd] by simp
  then show "io_ok R T (s\<lparr>ip_clients := ip_clients s @ [fd]\<rparr>)" using assms unfolding io_ok_def by simp
qed

text \<open>An accept posted again for the context it had.\<close>

lemma post_accept_ok:
  assumes laws: "io_laws os io v" and ok: "io_ok R (pv_reqs v (ip_world s) + add_mset (ov, k, AcceptReq fd) D) s"
  obtains c s' where "set_context ov (\<lambda>c. c\<lparr>ic_clntSocket := Some fd'\<rparr>) s = Some c" "post_accept io fd' ov c = Some s'"
    "io_ok R (pv_reqs v (ip_world s') + D) s'" "ip_workers s' = ip_workers s" "ip_next s' = ip_next s"
proof -
  have ok': "io_ok R (add_mset (ov, k, AcceptReq fd) (pv_reqs v (ip_world s) + D)) s" using ok by simp
  then obtain c where c: "ip_ctxs s ov = Some c" "fits (AcceptReq fd) c" by (rule io_ok_context)
  let ?s = "s\<lparr>ip_ctxs := (ip_ctxs s)(ov \<mapsto> c\<lparr>ic_clntSocket := Some fd'\<rparr>)\<rparr>"
  let ?t = "on_world (io_acceptEx io (ip_listen ?s) fd' ov) ?s"
  obtain k' where "pv_reqs v (ip_world ?t) \<subseteq># add_mset (ov, k', AcceptReq fd') (pv_reqs v (ip_world s))"
    using io_lawsD(7) [OF laws, of "ip_listen s" fd' ov "ip_world s"] by auto
  moreover have "io_ok R (pv_reqs v (ip_world s) + add_mset (ov, k', AcceptReq fd') D) ?t"
    using io_ok_reuse [OF ok' c(1), of "AcceptReq fd'" "c\<lparr>ic_clntSocket := Some fd'\<rparr>" k'] c(2) by (simp add: fits_def)
  ultimately have "io_ok R (pv_reqs v (ip_world ?t) + D) ?t" by (rule io_ok_post [rotated])
  moreover have "ip_acceptEx s" using ok by (simp add: io_ok_def)
  ultimately show ?thesis
    using that [of ?s ?t] c(1) by (simp add: set_context_def post_accept_def)
qed

lemma work_accept_ok:
  assumes laws: "io_laws os io v" and cb: "callback_ok v callbackFun"
    and ok: "io_ok R (pv_reqs v (ip_world s) + add_mset (ov, k, AcceptReq fd) D) s"
    and key: "pv_key v (ip_world s) fd = None" and c: "ip_ctxs s ov = Some c" "fits (AcceptReq fd) c"
  obtains s' where "work_accept os io callbackFun ov c s = Some s'" "io_ok R (pv_reqs v (ip_world s') + D) s'"
    "ip_workers s' = ip_workers s"
proof -
  let ?D = "add_mset (ov, k, AcceptReq fd) D"
  let ?s0 = "on_world (io_update_accept io fd (ip_listen s)) s"
  let ?s1 = "?s0\<lparr>ip_clients := ip_clients ?s0 @ [fd]\<rparr>"
  have keeps: "io_keeps v (ip_world s) (ip_world ?s0)" using io_lawsD(3) [OF laws] by simp
  have "io_ok R (pv_reqs v (ip_world ?s0) + ?D) ?s0"
    using io_ok_keeps [OF ok io_keepsD(1) [OF keeps]] by simp
  note s1 = io_ok_clients [OF this, of fd]
  have key1: "pv_key v (ip_world ?s0) fd = None" using key io_keepsD(2) [OF keeps] unfolding key_keeps_def by metis
  obtain s2 k' where s2: "new_connection os io callbackFun ov fd ?s1 = Some s2"
    "io_ok (add_mset (k', fd) R) (pv_reqs v (ip_world s2) + ?D) s2" "io_frame ?s1 s2"
    "pv_key v (ip_world s2) fd = Some k' \<or> pv_key v (ip_world s2) fd = None"
    by (rule new_connection_ok [OF laws cb, of R ?s1 ?D fd ov]) (use s1 key1 in \<open>simp_all add: on_world_def\<close>)
  from post_read_ok [OF laws s2(2,4)] obtain s3 where s3: "post_read io fd s2 = Some s3"
    "io_ok R (pv_reqs v (ip_world s3) + ?D) s3" "io_frame s2 s3" by blast
  obtain fd' w where w: "os_socket os (ip_world s3) = (fd', w)" by fastforce
  have "io_ok R (pv_reqs v (ip_world (s3\<lparr>ip_world := w\<rparr>)) + ?D) (s3\<lparr>ip_world := w\<rparr>)"
    using io_ok_keeps [OF s3(2) io_keepsD(1) [OF io_lawsD(1) [OF laws w]]] by simp
  from post_accept_ok [OF laws this] obtain s4 s5 where s5:
    "set_context ov (\<lambda>c. c\<lparr>ic_clntSocket := Some fd'\<rparr>) (s3\<lparr>ip_world := w\<rparr>) = Some s4"
    "post_accept io fd' ov s4 = Some s5" "io_ok R (pv_reqs v (ip_world s5) + D) s5" "ip_workers s5 = ip_workers (s3\<lparr>ip_world := w\<rparr>)"
    by metis
  have "ip_workers s5 = ip_workers s" using s5(4) io_frame_trans [OF s2(3) s3(3)] by (simp add: io_frame_def)
  then show ?thesis
    using that s2(1) s3(1) w s5 c(2) by (simp add: work_accept_def fits_def)
qed

text \<open>A receive that brought bytes is posted again.\<close>

lemma work_read_again:
  assumes laws: "io_laws os io v" and cb: "callback_ok v callbackFun"
    and ok: "io_ok R (pv_reqs v (ip_world s) + add_mset (ov, k, RecvReq fd) D) s"
    and key: "pv_key v (ip_world s) fd = Some k" and c: "ip_ctxs s ov = Some c" "fits (RecvReq fd) c" and n: "n \<noteq> 0"
  obtains s' where "work_read os io callbackFun n k ov c s = Some s'" "io_ok R (pv_reqs v (ip_world s') + D) s'"
    "ip_workers s' = ip_workers s"
proof -
  let ?D = "add_mset (ov, k, RecvReq fd) D"
  have ok': "io_ok R (add_mset (ov, k, RecvReq fd) (pv_reqs v (ip_world s) + D)) s" using ok by simp
  then obtain x t where x: "ip_socks s k = Some x" "ip_shared s (xc_clntSocket x) = Some t" by (rule io_ok_claim)
  obtain s1 where s1: "call_back os callbackFun ReadMode (xc_clntSocket x) s = Some s1"
    "io_ok R (pv_reqs v (ip_world s1) + ?D) s1" "io_grows v s s1"
    by (rule call_back_ok [OF laws cb ok x(2), of ReadMode])
  have "ov < ip_next s" using io_ok_context [OF ok'] by blast
  then have c1: "ip_ctxs s1 ov = Some c" using io_growsD(2) [OF s1(3)] c(1) by simp
  let ?c = "c\<lparr>ic_buffer := overwrite 0 (replicate (ic_len c) 0) (ic_buffer c), ic_mode := ReadMode\<rparr>"
  let ?s = "s1\<lparr>ip_ctxs := (ip_ctxs s1)(ov \<mapsto> ?c)\<rparr>"
  let ?t = "on_world (io_recv io fd (ic_len c) ov) ?s"
  have "io_ok R (add_mset (ov, k, RecvReq fd) (pv_reqs v (ip_world s1) + D)) s1" using s1(2) by simp
  then have "io_ok R (add_mset (ov, k, RecvReq fd) (pv_reqs v (ip_world s1) + D)) ?s"
    by (rule io_ok_reuse [OF _ c1]) (use c(2) in \<open>simp_all add: fits_def\<close>)
  then have s: "io_ok R (pv_reqs v (ip_world s1) + ?D) ?t" by simp
  have "pv_key v (ip_world s1) fd = Some k \<or> pv_key v (ip_world s1) fd = None"
    using io_growsD(9) [OF s1(3)] key unfolding key_keeps_def by metis
  then have "pv_reqs v (ip_world ?t) \<subseteq># pv_reqs v (ip_world s1) \<or>
      pv_reqs v (ip_world ?t) \<subseteq># add_mset (ov, k, RecvReq fd) (pv_reqs v (ip_world s1))"
    using io_lawsD(8) [OF laws, of fd "ic_len c" ov "ip_world s1"] by auto
  then have "pv_reqs v (ip_world ?t) \<subseteq># add_mset (ov, k, RecvReq fd) (pv_reqs v (ip_world s1))"
    by (rule subset_add_cases)
  from io_ok_post [OF s this] show ?thesis
    using that [of ?t] n x(1) s1(1) c1 c(2) io_growsD(6) [OF s1(3)]
    by (simp add: work_read_def set_context_def fits_def)
qed


lemma mset_set_remove:
  assumes "add_mset a A \<subseteq># mset_set S" "finite S"
  shows "A \<subseteq># mset_set (S - {a})"
proof -
  have "a \<in># mset_set S" using assms(1) by (metis mset_subset_eqD union_single_eq_member)
  then have "a \<in> S" using assms(2) by simp
  then have "mset_set S = add_mset a (mset_set (S - {a}))" using assms(2) by (simp add: mset_set.remove)
  then show ?thesis using assms(1) by simp
qed

text \<open>A context whose call is over is deleted; for a receive, the context of its connection goes too.\<close>

lemma io_ok_delete_context:
  assumes "io_ok R (add_mset (ov, k, req) T) s"
  shows "io_ok (claim (ov, k, req) + R) T (s\<lparr>ip_ctxs := (ip_ctxs s)(ov := None)\<rparr>)"
proof -
  have "image_mset fst T \<subseteq># mset_set (dom (ip_ctxs s) - {ov})"
    using assms by (intro mset_set_remove) (simp_all add: io_ok_def)
  then show ?thesis using assms unfolding io_ok_def by (auto simp: add_ac)
qed

lemma io_ok_delete_socket:
  assumes "io_ok (add_mset (k, fd) R) T s" "image_mset snd (claims T + R) \<subseteq># mset clients"
  shows "io_ok R T (s\<lparr>ip_socks := (ip_socks s)(k := None), ip_clients := clients\<rparr>)"
proof -
  have "image_mset fst (claims T + R) \<subseteq># mset_set (dom (ip_socks s) - {k})"
    using assms(1) by (intro mset_set_remove) (simp_all add: io_ok_def)
  then show ?thesis using assms unfolding io_ok_def by auto
qed

lemma io_ok_clients_less:
  assumes "io_ok (add_mset (k, fd) R) T s"
  shows "image_mset snd (claims T + R) \<subseteq># mset (ip_clients s)" "image_mset snd (claims T + R) \<subseteq># mset (remove1 fd (ip_clients s))"
    "fd \<in> set (ip_clients s)"
proof -
  have sub: "add_mset fd (image_mset snd (claims T + R)) \<subseteq># mset (ip_clients s)" using assms by (simp add: io_ok_def)
  then show fd: "fd \<in> set (ip_clients s)" by (metis mset_subset_eqD set_mset_mset union_single_eq_member)
  show "image_mset snd (claims T + R) \<subseteq># mset (ip_clients s)" using sub by (rule subset_mset.order_trans [rotated]) simp
  show "image_mset snd (claims T + R) \<subseteq># mset (remove1 fd (ip_clients s))"
    using sub fd by (simp add: insert_subset_eq_iff)
qed

text \<open>No other context shares the socket.\<close>

lemma io_ok_sole:
  assumes "io_ok R T s" "ip_socks s k = Some x" "ip_socks s k' = Some x'" "k' \<noteq> k"
  shows "xc_clntSocket x' \<noteq> xc_clntSocket x"
  using assms unfolding io_ok_def by metis

lemma work_read_end:
  assumes laws: "io_laws os io v" and ok: "io_ok R (pv_reqs v (ip_world s) + add_mset (ov, k, RecvReq fd) D) s"
    and c: "ip_ctxs s ov = Some c" "fits (RecvReq fd) c"
  obtains s' where "work_read os io callbackFun 0 k ov c s = Some s'" "io_ok R (pv_reqs v (ip_world s') + D) s'"
    "ip_workers s' = ip_workers s"
proof -
  have ok': "io_ok R (add_mset (ov, k, RecvReq fd) (pv_reqs v (ip_world s) + D)) s" using ok by simp
  then obtain x t where x: "ip_socks s k = Some x" "ip_shared s (xc_clntSocket x) = Some t" by (rule io_ok_claim)
  let ?s1 = "on_world (os_close os fd) s"
  let ?s2 = "?s1\<lparr>ip_ctxs := (ip_ctxs s)(ov := None)\<rparr>"
  let ?s3 = "?s2\<lparr>ip_socks := (ip_socks s)(k := None), ip_clients := remove1 fd (ip_clients s)\<rparr>"
  have "io_keeps v (ip_world s) (ip_world ?s1)" using io_lawsD(2) [OF laws] by simp
  then have "io_ok R (pv_reqs v (ip_world ?s1) + add_mset (ov, k, RecvReq fd) D) ?s1"
    using io_ok_keeps [OF ok io_keepsD(1)] by simp
  then have "io_ok R (add_mset (ov, k, RecvReq fd) (pv_reqs v (ip_world ?s1) + D)) ?s1" by simp
  then have s2: "io_ok (add_mset (k, fd) R) (pv_reqs v (ip_world ?s1) + D) ?s2"
    using io_ok_delete_context by fastforce
  have fd: "fd \<in> set (ip_clients s)" using io_ok_clients_less(3) [OF s2] by simp
  have s3: "io_ok R (pv_reqs v (ip_world ?s3) + D) ?s3"
    using io_ok_delete_socket [OF s2 io_ok_clients_less(2) [OF s2]] by simp
  have "\<forall>q y. ip_socks ?s3 q = Some y \<longrightarrow> xc_clntSocket y \<noteq> xc_clntSocket x"
    using io_ok_sole [OF ok x(1)] by auto
  moreover have "ip_shared ?s3 (xc_clntSocket x) = Some t" using x(2) by simp
  ultimately obtain s4 where s4: "drop_socket os (xc_clntSocket x) ?s3 = Some s4" "io_ok R (pv_reqs v (ip_world s4) + D) s4"
    "ip_workers s4 = ip_workers ?s3" by (metis drop_socket_ok [OF laws s3])
  have "?s3 = ?s1\<lparr>ip_clients := remove1 fd (ip_clients s), ip_ctxs := (ip_ctxs s)(ov := None), ip_socks := (ip_socks s)(k := None)\<rparr>"
    by (rule iocp.equality) simp_all
  note s4 = s4 [unfolded this]
  show ?thesis
    by (rule that [of s4])
      (use s4 x c fd in \<open>auto simp: work_read_def end_connection_def deleteIOContext_def delete_socket_context_def fits_def on_world_def\<close>)
qed

lemma work_write_ok:
  assumes ok: "io_ok R (pv_reqs v (ip_world s) + add_mset (ov, k, SendReq) D) s" and c: "ip_ctxs s ov = Some c" and n: "n \<noteq> 0"
  obtains s' where "work_write os n k ov c s = Some s'" "io_ok R (pv_reqs v (ip_world s') + D) s'" "ip_workers s' = ip_workers s"
proof -
  have "io_ok R (add_mset (ov, k, SendReq) (pv_reqs v (ip_world s) + D)) s" using ok by simp
  from io_ok_delete_context [OF this] show ?thesis
    using that [of "s\<lparr>ip_ctxs := (ip_ctxs s)(ov := None)\<rparr>"] c n by (simp add: work_write_def deleteIOContext_def)
qed

lemma work_fail_ok:
  assumes laws: "io_laws os io v" and cb: "callback_ok v callbackFun"
    and ok: "io_ok R (pv_reqs v (ip_world s) + add_mset (ov, k, RecvReq fd) D) s"
  obtains s' where "work_fail os callbackFun k ov s = Some s'" "io_ok R (pv_reqs v (ip_world s') + D) s'" "ip_workers s' = ip_workers s"
proof -
  let ?D = "add_mset (ov, k, RecvReq fd) D"
  have ok': "io_ok R (add_mset (ov, k, RecvReq fd) (pv_reqs v (ip_world s) + D)) s" using ok by simp
  then obtain x t where x: "ip_socks s k = Some x" "ip_shared s (xc_clntSocket x) = Some t" by (rule io_ok_claim)
  let ?p = "xc_clntSocket x"
  from ok' obtain c where c: "ip_ctxs s ov = Some c" "ov < ip_next s" by (rule io_ok_context)
  from share_socket_ok [OF ok x(2)] obtain s1 where s1: "share_socket ?p s = Some s1"
    "s1 = s\<lparr>ip_shared := (ip_shared s)(?p \<mapsto> t\<lparr>ts_uses := Suc (ts_uses t)\<rparr>)\<rparr>" "io_ok R (pv_reqs v (ip_world s) + ?D) s1" by blast
  then obtain s2 where s2: "callbackFun NoMode ?p s1 = Some s2" "io_ok R (pv_reqs v (ip_world s2) + ?D) s2" "io_grows v s1 s2"
    using cb [unfolded callback_ok_def, rule_format, of R s1 ?D ?p NoMode] by auto
  then obtain t2 where t2: "ip_shared s2 ?p = Some t2" "Suc (ts_uses t) \<le> ts_uses t2"
    using io_growsD(4) [OF s2(3), of ?p "t\<lparr>ts_uses := Suc (ts_uses t)\<rparr>"] s1(2) by auto
  have uses: "2 \<le> ts_uses t2" using t2(2) ok x(2) unfolding io_ok_def by fastforce
  have k: "k < ip_next s" using ok x(1) unfolding io_ok_def by auto
  have same: "ip_ctxs s2 ov = Some c" "ip_socks s2 k = Some x" "ip_workers s2 = ip_workers s"
    using io_growsD [OF s2(3)] s1(2) c k x(1) by simp_all
  let ?s3 = "on_world (os_close os (ts_socket t2)) s2"
  let ?s4 = "?s3\<lparr>ip_ctxs := (ip_ctxs s2)(ov := None)\<rparr>"
  let ?s5 = "?s4\<lparr>ip_socks := (ip_socks s2)(k := None), ip_clients := ip_clients s2\<rparr>"
  have "io_keeps v (ip_world s2) (ip_world ?s3)" using io_lawsD(2) [OF laws] by simp
  then have "io_ok R (pv_reqs v (ip_world ?s3) + ?D) ?s3" using io_ok_keeps [OF s2(2) io_keepsD(1)] by simp
  then have "io_ok R (add_mset (ov, k, RecvReq fd) (pv_reqs v (ip_world ?s3) + D)) ?s3" by simp
  then have s4: "io_ok (add_mset (k, fd) R) (pv_reqs v (ip_world ?s3) + D) ?s4"
    using io_ok_delete_context by fastforce
  have s5: "io_ok R (pv_reqs v (ip_world ?s5) + D) ?s5"
    using io_ok_delete_socket [OF s4 io_ok_clients_less(1) [OF s4]] by simp
  have "ip_shared ?s5 ?p = Some t2" using t2(1) by simp
  with drop_socket_ok [OF laws s5 this disjI1 [OF uses]] obtain s6 where s6: "drop_socket os ?p ?s5 = Some s6"
    "io_ok R (pv_reqs v (ip_world s6) + D) s6" "ip_shared s6 ?p = Some (t2\<lparr>ts_uses := ts_uses t2 - 1\<rparr>)"
    "ip_socks s6 = ip_socks ?s5" "ip_workers s6 = ip_workers ?s5" using uses by (metis fun_upd_same)
  have "\<forall>q y. ip_socks s6 q = Some y \<longrightarrow> xc_clntSocket y \<noteq> ?p"
    using io_ok_sole [OF s2(2) same(2)] s6(4) by auto
  with drop_socket_ok [OF laws s6(2,3)] obtain s7 where s7: "drop_socket os ?p s6 = Some s7"
    "io_ok R (pv_reqs v (ip_world s7) + D) s7" "ip_workers s7 = ip_workers s6" by metis
  show ?thesis
    by (rule that [of s7])
      (use x(1) s1(1) s2(1) t2(1) same s6 s7 in \<open>auto simp: work_fail_def deleteIOContext_def delete_socket_context_def Let_def on_world_def\<close>)
qed


lemma work_packet_ok:
  assumes laws: "io_laws os io v" and cb: "callback_ok v callbackFun" and ok: "io_ok {#} (pv_reqs v w) s"
    and packet: "io_delivers v (Packet ret n k ov) w (ip_world s)"
  obtains s' where "work_packet os io callbackFun ret n k ov s = Some (ret, s')" "io_ok {#} (pv_reqs v (ip_world s')) s'"
    "ip_workers s' = ip_workers s"
proof -
  obtain req where req: "add_mset (ov, k, req) (pv_reqs v (ip_world s)) \<subseteq># pv_reqs v w" "case req of
       AcceptReq fd \<Rightarrow> ret \<and> pv_key v (ip_world s) fd = None
     | RecvReq fd \<Rightarrow> ret \<and> 0 < n \<longrightarrow> pv_key v (ip_world s) fd = Some k
     | SendReq \<Rightarrow> ret \<and> 0 < n"
    using packet by (auto simp: io_delivers_def)
  have ok': "io_ok {#} (pv_reqs v (ip_world s) + add_mset (ov, k, req) {#}) s" using io_ok_less [OF ok req(1)] by simp
  then obtain c where c: "ip_ctxs s ov = Some c" "fits req c" "0 < ov" using io_ok_context [of "{#}" ov k req "pv_reqs v (ip_world s)" s] by auto
  note goal = that c
  show ?thesis
  proof (cases req)
    case (AcceptReq fd)
    obtain s' where "work_accept os io callbackFun ov c s = Some s'" "io_ok {#} (pv_reqs v (ip_world s') + {#}) s'"
      "ip_workers s' = ip_workers s"
      by (rule work_accept_ok [OF laws cb, of "{#}" s ov k fd "{#}" c]) (use ok' req(2) c AcceptReq in auto)
    then show ?thesis using goal req(2) AcceptReq by (auto simp: work_packet_def fits_def)
  next
    case (RecvReq fd)
    consider "\<not> ret" | "ret" "n = 0" | "ret" "0 < n" by auto
    then show ?thesis
    proof cases
      case 1
      obtain s' where "work_fail os callbackFun k ov s = Some s'" "io_ok {#} (pv_reqs v (ip_world s') + {#}) s'"
        "ip_workers s' = ip_workers s"
        by (rule work_fail_ok [OF laws cb ok' [unfolded RecvReq]])
      then show ?thesis using goal 1 by (auto simp: work_packet_def)
    next
      case 2
      obtain s' where "work_read os io callbackFun 0 k ov c s = Some s'" "io_ok {#} (pv_reqs v (ip_world s') + {#}) s'"
        "ip_workers s' = ip_workers s"
        by (rule work_read_end [OF laws ok' [unfolded RecvReq] c(1)]) (use c(2) RecvReq in auto)
      then show ?thesis using goal 2 RecvReq by (auto simp: work_packet_def fits_def)
    next
      case 3
      obtain s' where "work_read os io callbackFun n k ov c s = Some s'" "io_ok {#} (pv_reqs v (ip_world s') + {#}) s'"
        "ip_workers s' = ip_workers s"
        by (rule work_read_again [OF laws cb ok' [unfolded RecvReq], of c n]) (use c req(2) 3 RecvReq in auto)
      then show ?thesis using goal 3 RecvReq by (auto simp: work_packet_def fits_def)
    qed
  next
    case SendReq
    obtain s' where "work_write os n k ov c s = Some s'" "io_ok {#} (pv_reqs v (ip_world s') + {#}) s'" "ip_workers s' = ip_workers s"
      by (rule work_write_ok [OF ok' [unfolded SendReq] c(1), of n]) (use req(2) SendReq in auto)
    then show ?thesis using goal req(2) SendReq by (auto simp: work_packet_def fits_def)
  qed
qed

lemma io_ok_set_worker [simp]: "io_ok R T (set_worker i t s) = io_ok R T s"
  by (simp add: io_ok_def set_worker_def)

lemma set_worker_simps [simp]:
  "ip_world (set_worker i t s) = ip_world s" "ip_workers (set_worker i t s) = (ip_workers s)[i := t]"
  by (simp_all add: set_worker_def)

text \<open>A turn is defined, changes at most the thread whose turn it is, and nothing once that thread has ended.\<close>

lemma io_turn_ok:
  assumes laws: "io_laws os io v" and cb: "callback_ok v callbackFun" and ok: "io_ok {#} (pv_reqs v (ip_world s)) s"
  obtains s' t where "io_turn os io callbackFun i s = Some s'" "io_ok {#} (pv_reqs v (ip_world s')) s'"
    "ip_workers s' = (ip_workers s)[i := t]" "wk_place (ip_workers s ! i) = Stopped \<Longrightarrow> s' = s"
proof (cases "i < length (ip_workers s)")
  case False
  then show ?thesis using that [of s undefined] ok by (simp add: io_turn_def list_update_beyond)
next
  case True
  let ?t = "ip_workers s ! i"
  show ?thesis
  proof (cases "wk_place ?t")
    case Stopped
    then show ?thesis using that [of s ?t] ok True by (simp add: io_turn_def)
  next
    case Testing
    then show ?thesis
      using that [of "set_worker i (?t\<lparr>wk_place := if ip_flag s then Waiting else Stopped\<rparr>) s"] ok True
      by (simp add: io_turn_def Let_def)
  next
    case Waiting
    obtain status w where w: "io_wait io (ip_world s) = (status, w)" by fastforce
    note delivers = io_lawsD(4) [OF laws w]
    let ?s = "s\<lparr>ip_world := w\<rparr>"
    show ?thesis
    proof (cases status)
      case Blocked
      have "io_ok {#} (pv_reqs v w) ?s" using io_ok_less [OF ok io_keepsD(1)] delivers by simp
      have "io_turn os io callbackFun i s = Some ?s" using Waiting True w Blocked by (simp add: io_turn_def Let_def)
      then show ?thesis by (rule that [of _ ?t]) (use \<open>io_ok {#} (pv_reqs v w) ?s\<close> Waiting in simp_all)
    next
      case NoPacket
      then show ?thesis using delivers by (simp add: io_delivers_def)
    next
      case (Packet ret n k ov)
      obtain s' where s': "work_packet os io callbackFun ret n k ov ?s = Some (ret, s')" "io_ok {#} (pv_reqs v (ip_world s')) s'"
        "ip_workers s' = ip_workers ?s"
        by (rule work_packet_ok [OF laws cb, of "ip_world s" ?s ret n k ov]) (use ok delivers Packet in auto)
      let ?w = "?t\<lparr>wk_key := k, wk_overlapped := ov, wk_place := if ret then Testing else Stopped\<rparr>"
      have "io_turn os io callbackFun i s = Some (set_worker i ?w s')"
        using s'(1) Waiting True w Packet by (simp add: io_turn_def Let_def)
      then show ?thesis
        by (rule that) (use s' Waiting in simp_all)
    qed
  qed
qed

lemma io_turns_ok:
  assumes "io_laws os io v" "callback_ok v callbackFun" "io_ok {#} (pv_reqs v (ip_world s)) s"
  shows "\<exists>s'. io_turns os io callbackFun sched s = Some s' \<and> io_ok {#} (pv_reqs v (ip_world s')) s' \<and>
    length (ip_workers s') = length (ip_workers s) \<and>
    (\<forall>i<length (ip_workers s). wk_place (ip_workers s ! i) = Stopped \<longrightarrow> ip_workers s' ! i = ip_workers s ! i)"
  using assms(3)
proof (induction sched arbitrary: s)
  case (Cons i sched)
  from io_turn_ok [OF assms(1,2) Cons.prems] obtain s1 t where s1: "io_turn os io callbackFun i s = Some s1"
    "io_ok {#} (pv_reqs v (ip_world s1)) s1" "ip_workers s1 = (ip_workers s)[i := t]"
    "wk_place (ip_workers s ! i) = Stopped \<Longrightarrow> s1 = s" by metis
  from Cons.IH [OF s1(2)] obtain s2 where s2: "io_turns os io callbackFun sched s1 = Some s2" "io_ok {#} (pv_reqs v (ip_world s2)) s2"
    "length (ip_workers s2) = length (ip_workers s1)"
    "\<forall>i<length (ip_workers s1). wk_place (ip_workers s1 ! i) = Stopped \<longrightarrow> ip_workers s2 ! i = ip_workers s1 ! i" by blast
  have "ip_workers s2 ! j = ip_workers s ! j" if "j < length (ip_workers s)" "wk_place (ip_workers s ! j) = Stopped" for j
    using that s1(3,4) s2(3,4) by (cases "j = i") auto
  then show ?case using s1 s2 by simp
qed simp


subsection \<open>Starting, sending\<close>

text \<open>While no call is in flight a turn changes the thread and the world only.\<close>

lemma io_turns_idle:
  assumes "io_laws os io v" "pv_reqs v (ip_world s) = {#}"
  shows "\<exists>ws w. io_turns os io callbackFun sched s = Some (s\<lparr>ip_workers := ws, ip_world := w\<rparr>) \<and>
    length ws = length (ip_workers s) \<and> pv_reqs v w = {#}"
  using assms(2)
proof (induction sched arbitrary: s)
  case Nil
  then show ?case by (intro exI [of _ "ip_workers s"] exI [of _ "ip_world s"]) simp
next
  case (Cons i sched)
  have "\<exists>ws w. io_turn os io callbackFun i s = Some (s\<lparr>ip_workers := ws, ip_world := w\<rparr>) \<and>
    length ws = length (ip_workers s) \<and> pv_reqs v w = {#}"
  proof (cases "i < length (ip_workers s) \<and> wk_place (ip_workers s ! i) = Waiting")
    case True
    obtain status w where w: "io_wait io (ip_world s) = (status, w)" by fastforce
    note delivers = io_lawsD(4) [OF assms(1) w]
    then have "status = Blocked" using Cons.prems by (cases status) (auto simp: io_delivers_def)
    moreover have "pv_reqs v w = {#}" using delivers Cons.prems by (simp add: io_keeps_def)
    ultimately show ?thesis using True w
      by (intro exI [of _ "ip_workers s"] exI [of _ w]) (simp add: io_turn_def Let_def)
  next
    case False
    have s: "s = s\<lparr>ip_workers := ip_workers s, ip_world := ip_world s\<rparr>" by simp
    show ?thesis
    proof (cases "i < length (ip_workers s) \<and> wk_place (ip_workers s ! i) = Testing")
      case True
      then show ?thesis using Cons.prems by (auto simp: io_turn_def Let_def set_worker_def intro!: exI [of _ "ip_world s"])
    next
      case nothing: False
      then have "io_turn os io callbackFun i s = Some s"
        using False by (cases "wk_place (ip_workers s ! i)") (auto simp: io_turn_def Let_def)
      then show ?thesis using Cons.prems s by metis
    qed
  qed
  then obtain ws w where s1: "io_turn os io callbackFun i s = Some (s\<lparr>ip_workers := ws, ip_world := w\<rparr>)"
    "length ws = length (ip_workers s)" "pv_reqs v w = {#}" by blast
  from Cons.IH [of "s\<lparr>ip_workers := ws, ip_world := w\<rparr>"] s1 show ?case by auto
qed

lemma start_accepts_ok:
  assumes laws: "io_laws os io v" and "io_ok {#} (pv_reqs v (ip_world s)) s"
  shows "\<exists>s'. start_accepts os io n s = Some s' \<and> io_ok {#} (pv_reqs v (ip_world s')) s' \<and> ip_workers s' = ip_workers s"
  using assms(2)
proof (induction n arbitrary: s)
  case (Suc n)
  obtain fd w where w: "os_socket os (ip_world s) = (fd, w)" by fastforce
  let ?s = "s\<lparr>ip_world := w\<rparr>"
  let ?c = "\<lparr>ic_mode = AcceptMode, ic_buffer = replicate 10240 0, ic_len = 10240, ic_clntSocket = Some fd\<rparr>"
  let ?s1 = "?s\<lparr>ip_ctxs := (ip_ctxs ?s)(ip_next ?s \<mapsto> ?c), ip_next := Suc (ip_next ?s)\<rparr>"
  let ?s2 = "on_world (io_acceptEx io (ip_listen s) fd (ip_next s)) ?s1"
  have s: "io_ok {#} (pv_reqs v (ip_world ?s)) ?s"
    using io_ok_less [OF Suc.prems io_keepsD(1)] io_lawsD(1) [OF laws w] by simp
  obtain k where k: "pv_reqs v (ip_world ?s2) \<subseteq># add_mset (ip_next s, k, AcceptReq fd) (pv_reqs v w)"
    using io_lawsD(7) [OF laws, of "ip_listen s" fd "ip_next s" w] by auto
  have "io_ok {#} (add_mset (ip_next ?s, k, AcceptReq fd) (pv_reqs v (ip_world ?s))) ?s1"
    by (rule io_ok_new_context) (use s in \<open>simp_all add: fits_def\<close>)
  then have "io_ok {#} (pv_reqs v (ip_world ?s2)) ?s2" using io_ok_less [OF _ k] by simp
  note IH = Suc.IH [OF this]
  obtain s0 where s0: "newIOContext ?s = (ip_next s, s0)" by (simp add: newIOContext_def)
  then have "set_context (ip_next s) (\<lambda>c. c\<lparr>ic_mode := AcceptMode, ic_clntSocket := Some fd\<rparr>) s0 = Some ?s1"
    by (auto simp: newIOContext_def set_context_def)
  moreover have "post_accept io fd (ip_next s) ?s1 = Some ?s2" using Suc.prems by (simp add: post_accept_def io_ok_def)
  ultimately have "start_accepts os io (Suc n) s = start_accepts os io n ?s2" using w s0 by (simp add: Let_def)
  then show ?case using IH by simp
qed simp

text \<open>\<open>send\<close> keeps the invariant, so that a callback may use it.\<close>

lemma iocp_send_ok:
  assumes laws: "io_laws os io v" and ok: "io_ok R (pv_reqs v (ip_world s) + D) s" and p: "ip_shared s p \<noteq> None"
    and "length data \<le> 10240"
  obtains s' where "iocp_send p data io s = Some s'" "io_ok R (pv_reqs v (ip_world s') + D) s'" "io_grows v s s'"
proof -
  obtain t where t: "ip_shared s p = Some t" using p by blast
  let ?c = "\<lparr>ic_mode = WriteMode, ic_buffer = overwrite 0 data (replicate 10240 0), ic_len = length data, ic_clntSocket = None\<rparr>"
  let ?s1 = "s\<lparr>ip_ctxs := (ip_ctxs s)(ip_next s \<mapsto> ?c), ip_next := Suc (ip_next s)\<rparr>"
  let ?s2 = "on_world (io_wsasend io (ts_socket t) data (ip_next s)) ?s1"
  obtain k where k: "pv_reqs v (ip_world ?s2) \<subseteq># add_mset (ip_next s, k, SendReq) (pv_reqs v (ip_world s))"
    "key_keeps v (ip_world s) (ip_world ?s2)"
    using io_lawsD(9) [OF laws, of "ip_world s" "ts_socket t" data "ip_next s"] by auto
  have "io_ok R (add_mset (ip_next s, k, SendReq) (pv_reqs v (ip_world s) + D)) ?s1"
    by (rule io_ok_new_context) (use ok in \<open>simp_all add: fits_def\<close>)
  then have "io_ok R (pv_reqs v (ip_world s) + add_mset (ip_next s, k, SendReq) D) ?s2" by simp
  from io_ok_post [OF this k(1)] show ?thesis
    by (intro that [of ?s2]) (use assms(4) t k(2) in \<open>simp_all add: iocp_send_def newIOContext_def set_context_def io_grows_def\<close>)
qed

lemma callback_send:
  assumes "io_laws os io v" "length data \<le> 10240"
  shows "callback_ok v (\<lambda>mode p s. iocp_send p data io s)"
  unfolding callback_ok_def by (metis iocp_send_ok [OF assms(1) _ _ assms(2)])


text \<open>Without threads there are no turns.\<close>

lemma io_turns_none: "ip_workers s = [] \<Longrightarrow> io_turns os io callbackFun sched s = Some s"
  by (induction sched) (simp_all add: io_turn_def)

lemma iocp_listen_ok:
  assumes laws: "io_laws os io v" and reqs: "pv_reqs v (ip_world s) = {#}"
    and "\<forall>fd w. fst (io_extensions io fd w) = (True, True)" "0 \<le> threadCount"
    and s: "ip_ctxs s = (\<lambda>_. None)" "ip_socks s = (\<lambda>_. None)" "ip_shared s = (\<lambda>_. None)" "0 < ip_next s"
  obtains s' where "iocp_listen os io callbackFun early address threadCount s = Some s'"
    "ip_workers s' = ip_workers s \<or> io_ok {#} (pv_reqs v (ip_world s')) s'"
proof -
  let ?s0 = "on_world (io_create io) (s\<lparr>ip_acceptEx := False, ip_getAddrs := False\<rparr>)"
  obtain fd w1 where w1: "os_socket os (ip_world ?s0) = (fd, w1)" by fastforce
  have none: "pv_reqs v b = {#}" if "pv_reqs v a = {#}" "pv_reqs v b \<subseteq># pv_reqs v a" for a b using that by simp
  have "pv_reqs v (ip_world ?s0) = {#}" using none [OF reqs io_keepsD(1) [OF io_lawsD(12) [OF laws]]] by simp
  then have r1: "pv_reqs v w1 = {#}" using none io_keepsD(1) [OF io_lawsD(1) [OF laws w1]] by blast
  show ?thesis
  proof (cases "fd = INVALID_SOCKET")
    case True
    then show ?thesis using that [of "?s0\<lparr>ip_world := w1\<rparr>"] w1 by (simp add: iocp_listen_def)
  next
    case False
    obtain r w2 where w2: "os_bind os fd \<lparr>sin_addr = host_ip address, sin_port = net_short 9999\<rparr> w1 = (r, w2)" by fastforce
    obtain r' w3 where w3: "os_listen os fd 0x7FFFFFFF w2 = (r', w3)" by fastforce
    have r3: "pv_reqs v w3 = {#}"
      using none [OF none [OF r1 io_keepsD(1) [OF io_lawsD(10) [OF laws w2]]] io_keepsD(1) [OF io_lawsD(11) [OF laws w3]]] by simp
    obtain n where n: "thread_number io threadCount = Some n" 
      using assms(4) by (cases "threadCount = 0") (simp_all add: thread_number_def Let_def pos_imp_zdiv_neg_iff)
    let ?s3 = "?s0\<lparr>ip_world := w3, ip_listen := fd, ip_flag := True,
        ip_workers := ip_workers s @ replicate n \<lparr>wk_place = Testing, wk_key = 0, wk_overlapped = 0\<rparr>\<rparr>"
    have "pv_reqs v (ip_world ?s3) = {#}" using r3 by simp
    from io_turns_idle [OF laws this, of callbackFun early] obtain ws w4 where
      w4: "io_turns os io callbackFun early ?s3 = Some (?s3\<lparr>ip_workers := ws, ip_world := w4\<rparr>)" "pv_reqs v w4 = {#}" by blast
    let ?w4 = "io_associate io fd (nat fd) w4"
    obtain w5 where w5: "io_extensions io fd ?w4 = ((True, True), w5)" using assms(3) by (metis prod.collapse)
    have r5: "pv_reqs v w5 = {#}"
      using none [OF none [OF w4(2) io_lawsD(5) [OF laws]] io_keepsD(1) [OF io_lawsD(14) [OF laws w5]]] by simp
    let ?s5 = "?s3\<lparr>ip_workers := ws, ip_world := w5, ip_acceptEx := True, ip_getAddrs := True\<rparr>"
    have "io_ok {#} (pv_reqs v (ip_world ?s5)) ?s5" using s r5 by (simp add: io_ok_def)
    from start_accepts_ok [OF laws this] obtain s6 where
      "start_accepts os io (length ws div 2) ?s5 = Some s6" "io_ok {#} (pv_reqs v (ip_world s6)) s6" by blast
    then show ?thesis
      using that [of s6] w1 False w2 w3 n w4(1) w5 by (simp add: iocp_listen_def Let_def on_world_def)
  qed
qed

subsection \<open>Scripted ports\<close>

text \<open>A port for examples: calls complete in the order in which they were posted, receives with the given
  results (one byte when they are used up).\<close>

record io_script =
  xs_pend :: "io_pending list"
  xs_keys :: "int \<Rightarrow> nat option"
  xs_results :: "(bool \<times> nat) list"
  xs_next :: int

fun script_wait :: "io_script \<Rightarrow> io_status \<times> io_script" where
  "script_wait w = (case xs_pend w of
     [] \<Rightarrow> (Blocked, w)
   | (ov, k, AcceptReq fd) # rest \<Rightarrow> (Packet True 0 k ov, w\<lparr>xs_pend := rest, xs_keys := (xs_keys w)(fd := None)\<rparr>)
   | (ov, k, RecvReq fd) # rest \<Rightarrow>
       (case (if xs_keys w fd \<noteq> Some k then (False, 0) else case xs_results w of [] \<Rightarrow> (True, 1) | r # _ \<Rightarrow> r) of (ret, n) \<Rightarrow>
         (Packet ret n k ov, w\<lparr>xs_pend := rest, xs_results := tl (xs_results w)\<rparr>))
   | (ov, k, SendReq) # rest \<Rightarrow> (Packet True 1 k ov, w\<lparr>xs_pend := rest\<rparr>))"

definition script_io :: "io_script io_calls" where
  "script_io = \<lparr>io_create = (\<lambda>w. w), io_associate = (\<lambda>fd k w. w\<lparr>xs_keys := (xs_keys w)(fd \<mapsto> k)\<rparr>),
     io_extensions = (\<lambda>fd w. ((True, True), w)),
     io_acceptEx = (\<lambda>l fd ov w. w\<lparr>xs_pend := xs_pend w @ [(ov, nat l, AcceptReq fd)]\<rparr>),
     io_update_accept = (\<lambda>fd l w. w), io_peer = (\<lambda>ov w. \<lparr>sin_addr = 0, sin_port = 0\<rparr>),
     io_recv = (\<lambda>fd n ov w. (case xs_keys w fd of None \<Rightarrow> w | Some k \<Rightarrow> w\<lparr>xs_pend := xs_pend w @ [(ov, k, RecvReq fd)]\<rparr>)),
     io_wsasend = (\<lambda>fd bs ov w. w\<lparr>xs_pend := xs_pend w @ [(ov, 0, SendReq)]\<rparr>),
     io_wait = script_wait, io_sleep = (\<lambda>t w. w), io_cores = 4\<rparr>"

definition io_sockets :: "io_script os" where
  "io_sockets = \<lparr>os_socket = (\<lambda>w. (xs_next w, w\<lparr>xs_next := xs_next w + 1\<rparr>)),
     os_close = (\<lambda>fd w. w\<lparr>xs_keys := (xs_keys w)(fd := None)\<rparr>), os_getfl = (\<lambda>fd w. (2, w)), os_setfl = (\<lambda>fd v w. w),
     os_reuseaddr = (\<lambda>fd w. w), os_sndtimeo = (\<lambda>fd t w. w), os_inet_aton = (\<lambda>str. None),
     os_bind = (\<lambda>fd a w. (Done (), w)), os_listen = (\<lambda>fd n w. (Done (), w)),
     os_accept = (\<lambda>fd w. (Done 5, w)), os_connect = (\<lambda>fd a w. (Done (), w)),
     os_recv = (\<lambda>fd n w. (Errno EWOULDBLOCK, w)), os_send = (\<lambda>fd bs w. (Done (length bs), w)),
     os_epoll_create = (\<lambda>w. (4, w)), os_epoll_add = (\<lambda>ep fd ev w. (Done (), w)),
     os_epoll_mod = (\<lambda>ep fd ev w. (Done (), w)), os_epoll_del = (\<lambda>ep fd w. (Done (), w)),
     os_epoll_wait = (\<lambda>ep n w. (Done [], w))\<rparr>"

definition script_port :: "io_script io_view" where
  "script_port = \<lparr>pv_reqs = (\<lambda>w. mset (xs_pend w)), pv_key = xs_keys\<rparr>"

definition script_port_start :: "(bool \<times> nat) list \<Rightarrow> io_script" where
  "script_port_start results = \<lparr>xs_pend = [], xs_keys = (\<lambda>_. None), xs_results = results, xs_next = 100\<rparr>"

lemma script_port_laws: "io_laws io_sockets script_io script_port"
proof -
  have "io_keeps script_port w (snd (script_wait w)) \<and> io_delivers script_port (fst (script_wait w)) w (snd (script_wait w))" for w
  proof (cases "xs_pend w")
    case Nil
    then show ?thesis by (simp add: script_port_def io_keeps_def key_keeps_def io_delivers_def)
  next
    case (Cons x rest)
    obtain ov k req where x: "x = (ov, k, req)" by (cases x)
    show ?thesis
      using Cons x by (cases req) (auto simp: script_port_def io_keeps_def key_keeps_def io_delivers_def split: list.splits)
  qed
  then show ?thesis
    unfolding io_laws_def
    by (intro conjI allI)
      (auto simp: script_io_def io_sockets_def script_port_def io_keeps_def key_keeps_def split: option.splits)
qed


subsection \<open>Properties\<close>

text \<open>A server that has just been started with a callback that sends two bytes back.\<close>

abbreviation ok_callback :: "io_script io_callback" where
  "ok_callback \<equiv> (\<lambda>mode p s. iocp_send p [79, 75] script_io s)"

lemma ok_callback_ok: "callback_ok script_port ok_callback"
  by (rule callback_send [OF script_port_laws]) simp



text \<open>C21: A receive that fails, as it does when the peer resets the connection, ends the thread that
  takes its completion for good: no later turn of any thread starts it again, so that as many resets as
  there are threads leave a server that answers nobody.\<close>

theorem iocp_reset_ends_thread:
  assumes "io_laws os io v" "callback_ok v callbackFun" "io_ok {#} (pv_reqs v (ip_world s)) s"
    and "i < length (ip_workers s)" "wk_place (ip_workers s ! i) = Waiting"
    and "io_wait io (ip_world s) = (Packet False n k ov, w)"
  shows "\<exists>s'. io_turn os io callbackFun i s = Some s' \<and>
    (\<forall>sched. \<exists>s''. io_turns os io callbackFun sched s' = Some s'' \<and> wk_place (ip_workers s'' ! i) = Stopped)"
proof -
  let ?s = "s\<lparr>ip_world := w\<rparr>"
  obtain s1 where s1: "work_packet os io callbackFun False n k ov ?s = Some (False, s1)" "io_ok {#} (pv_reqs v (ip_world s1)) s1"
    "ip_workers s1 = ip_workers ?s"
    by (rule work_packet_ok [OF assms(1,2), of "ip_world s" ?s False n k ov])
      (use assms(3) io_lawsD(4) [OF assms(1,6)] in auto)
  let ?s' = "set_worker i ((ip_workers s ! i)\<lparr>wk_key := k, wk_overlapped := ov, wk_place := Stopped\<rparr>) s1"
  have "io_turn os io callbackFun i s = Some ?s'"
    using assms(4-6) s1(1) by (simp add: io_turn_def Let_def)
  moreover have "\<exists>s''. io_turns os io callbackFun sched ?s' = Some s'' \<and> wk_place (ip_workers s'' ! i) = Stopped" for sched
    using io_turns_ok [OF assms(1,2), of ?s' sched] s1 assms(4) by fastforce
  ultimately show ?thesis by blast
qed

text \<open>A connection whose receive has failed.\<close>

definition reset_server :: "io_script iocp" where
  "reset_server = \<lparr>ip_listen = 50, ip_clients = [100], ip_flag = True,
     ip_workers = [\<lparr>wk_place = Waiting, wk_key = 0, wk_overlapped = 0\<rparr>], ip_acceptEx = True, ip_getAddrs = True,
     ip_ctxs = [1 \<mapsto> \<lparr>ic_mode = ReadMode, ic_buffer = [], ic_len = 10240, ic_clntSocket = Some 100\<rparr>],
     ip_socks = [3 \<mapsto> \<lparr>xc_clntSocket = 2, xc_addr = \<lparr>sin_addr = 0, sin_port = 0\<rparr>\<rparr>],
     ip_shared = [2 \<mapsto> \<lparr>ts_socket = 100, ts_uses = 1\<rparr>], ip_next = 4,
     ip_world = \<lparr>xs_pend = [(1, 3, RecvReq 100)], xs_keys = [100 \<mapsto> 3], xs_results = [(False, 0)], xs_next = 101\<rparr>\<rparr>"

lemma reset_server_ok: "io_ok {#} (pv_reqs script_port (ip_world reset_server)) reset_server"
  by (simp add: io_ok_def reset_server_def script_port_def fits_def)

theorem iocp_reset_ends_thread_witness:
  "\<exists>s'. io_turn io_sockets script_io ok_callback 0 reset_server = Some s' \<and>
    (\<forall>sched. \<exists>s''. io_turns io_sockets script_io ok_callback sched s' = Some s'' \<and> wk_place (ip_workers s'' ! 0) = Stopped)"
  by (rule iocp_reset_ends_thread [OF script_port_laws ok_callback_ok reset_server_ok, of 0 0 3 1])
    (simp_all add: reset_server_def script_io_def)

lemma in_set_update_other: "t \<in> set xs \<Longrightarrow> xs ! i \<noteq> t \<Longrightarrow> t \<in> set (xs[i := y])"
  unfolding in_set_conv_nth by (metis length_list_update nth_list_update_neq)

text \<open>C20: \<open>close\<close> never returns when a thread waits for a completion and there is none, as in a
  server without connections: the flag it resets is only looked at before the next wait, and nothing
  wakes the threads.\<close>

theorem iocp_idle_close:
  assumes "quiet (ip_world s)" "\<And>w. quiet w \<Longrightarrow> quiet (io_sleep io 10 w)"
    and "\<And>w. quiet w \<Longrightarrow> \<exists>w'. io_wait io w = (Blocked, w') \<and> quiet w'"
    and "ip_clients s = []" "t \<in> set (ip_workers s)" "wk_place t = Waiting"
  shows "\<exists>s'. iocp_close os io callbackFun during joining s = Some (False, s')"
proof -
  have turns: "\<exists>s'. io_turns os io callbackFun sched s = Some s' \<and> quiet (ip_world s') \<and> t \<in> set (ip_workers s')"
    if "quiet (ip_world s)" "t \<in> set (ip_workers s)" for sched and s :: "'a iocp"
    using that
  proof (induction sched arbitrary: s)
    case (Cons i sched)
    have "\<exists>s'. io_turn os io callbackFun i s = Some s' \<and> quiet (ip_world s') \<and> t \<in> set (ip_workers s')"
    proof (cases "i < length (ip_workers s)")
      case True
      obtain w' where "io_wait io (ip_world s) = (Blocked, w')" "quiet w'" using assms(3) Cons.prems(1) by blast
      moreover have "t \<in> set ((ip_workers s)[i := t'])" if "wk_place (ip_workers s ! i) \<noteq> Waiting" for t'
        using Cons.prems(2) by (rule in_set_update_other) (use assms(6) that in auto)
      ultimately show ?thesis
        using True Cons.prems by (cases "wk_place (ip_workers s ! i)") (auto simp: io_turn_def Let_def)
    qed (use Cons.prems in \<open>simp add: io_turn_def\<close>)
    then show ?case using Cons.IH by auto
  qed simp
  let ?s = "on_world (io_sleep io 10) (clearConnected os s)"
  have "quiet (ip_world ?s)" "t \<in> set (ip_workers ?s)" using assms by (simp_all add: clearConnected_def on_world_def)
  then obtain s1 where s1: "io_turns os io callbackFun during ?s = Some s1" "quiet (ip_world s1)" "t \<in> set (ip_workers s1)"
    using turns by blast
  then obtain s2 where "io_turns os io callbackFun joining (s1\<lparr>ip_flag := False\<rparr>) = Some s2" "t \<in> set (ip_workers s2)"
    using turns [of "s1\<lparr>ip_flag := False\<rparr>"] by auto
  moreover have "wk_place t \<noteq> Stopped" using assms(6) by simp
  ultimately show ?thesis using s1(1) by (auto simp: iocp_close_def Let_def)
qed


theorem iocp_idle_close_witness:
  "\<exists>s'. iocp_close io_sockets script_io ok_callback [0, 0, 1] [0, 1, 1]
     ((new_CMIOCP (script_port_start []))\<lparr>ip_flag := True, ip_workers := [\<lparr>wk_place = Waiting, wk_key = 0, wk_overlapped = 0\<rparr>]\<rparr>) =
     Some (False, s')"
  by (rule iocp_idle_close [where quiet = "\<lambda>w. xs_pend w = []" and t = "\<lparr>wk_place = Waiting, wk_key = 0, wk_overlapped = 0\<rparr>"])
    (simp_all add: new_CMIOCP_def script_port_start_def script_io_def)

text \<open>Further ways into undefined behaviour: a write that completes with no bytes, for which \<open>send\<close> has
  left the socket of its context uninitialised; and a call on the listening socket that fails, whose key
  is no context.\<close>

lemma iocp_zero_write:
  assumes "iocp_send p data io s = Some s'" "0 < ip_next s"
  shows "work_packet os io' callbackFun True 0 key (ip_next s) s' = None"
  using assms
  by (cases "ip_shared s p")
    (auto simp: iocp_send_def newIOContext_def set_context_def work_packet_def work_write_def end_connection_def
      split: if_splits)

lemma iocp_failed_accept: "ip_socks s key = None \<Longrightarrow> key \<noteq> 0 \<Longrightarrow> work_packet os io callbackFun False n key ov s = None"
  by (simp add: work_packet_def work_fail_def)

text \<open>The end of a connection closes its socket twice, when nobody else holds it: by the thread, and by the
  destructor of the \<open>CMTcpSocket\<close>, when the number may already be another socket's.\<close>

lemma iocp_closes_twice:
  assumes "ip_ctxs s ov = Some c" "ic_clntSocket c = Some fd" "fd \<in> set (ip_clients s)"
    and "ip_socks s key = Some x" "ip_shared s (xc_clntSocket x) = Some \<lparr>ts_socket = fd, ts_uses = 1\<rparr>"
  shows "\<exists>s'. work_read os io callbackFun 0 key ov c s = Some s' \<and>
    ip_world s' = os_close os fd (os_close os fd (ip_world s))"
  using assms
  by (simp add: work_read_def end_connection_def deleteIOContext_def delete_socket_context_def drop_socket_def on_world_def)

text \<open>On one core there are no threads, and a single thread has no accept to wait for.\<close>

lemma iocp_one_core: "io_cores io \<le> 1 \<Longrightarrow> thread_number io 0 = Some 0"
  by (cases "io_cores io") (simp_all add: thread_number_def)

lemma iocp_one_thread: "length (ip_workers s) \<le> 1 \<Longrightarrow> start_accepts os io (length (ip_workers s) div 2) s = Some s"
  by (cases "length (ip_workers s)") simp_all

end
