(* ===== verification/Coroutine.thy ===== *)
theory Coroutine
  imports OsCalls
begin

text \<open>
  Coroutine/main.cpp: an echo loop whose \<open>accept\<close>, \<open>recv\<close> and \<open>send\<close> are replaced by hooks,
  and a scheduler that the \<open>recv\<close> hook switches to when there is nothing to read.  There are two
  stacks, the loop's (\<open>mainUcp\<close>) and the scheduler's.  \<open>swapcontext\<close> saves the registers of the
  loop in the context of the client it waits for; what is saved is only good while the stack is as it was,
  which is until the loop runs on: a saved context is the number of the switch that saved it, and resuming
  any but the last one is undefined behaviour.  The loop is at the top of a round or waits in the hook for the
  first of the clients it still has to visit in this round; the scheduler has the events it still has to
  visit.  A missing entry of \<open>fdCxtMap\<close> and a null one are the same, since \<open>operator[]\<close> turns one
  into the other.
\<close>

unbundle bit_operations_syntax

record coroutine_ctx =
  cc_fd :: int
  cc_ucp :: "nat option"

datatype co_place = AtRound | InRecv "int list"

record 'w scheduler =
  co_listenFd :: int
  co_epollFd :: int
  co_fdCxtMap :: "int \<Rightarrow> coroutine_ctx option"
  co_cltFds :: "int list"
  co_place :: co_place
  co_events :: "int list"
  co_saved :: nat
  co_world :: 'w

definition co_setNoBlock :: "'w os \<Rightarrow> int \<Rightarrow> 'w \<Rightarrow> 'w" where
  "co_setNoBlock os fd w = (let (optVal, w) = os_getfl os fd w in os_setfl os fd (optVal OR O_NONBLOCK) w)"

subsection \<open>The hooks\<close>

definition hook_accept :: "'w os \<Rightarrow> int \<Rightarrow> 'w scheduler \<Rightarrow> int syscall \<times> 'w scheduler" where
  "hook_accept os fd s = (case os_accept os fd (co_world s) of (ret, w) \<Rightarrow>
     let s = s\<lparr>co_world := w\<rparr>
     in (case ret of
          Done ret \<Rightarrow> (Done ret, if 0 < ret
            then s\<lparr>co_world := co_setNoBlock os ret w, co_fdCxtMap := (co_fdCxtMap s)(ret \<mapsto> \<lparr>cc_fd = ret, cc_ucp = None\<rparr>)\<rparr>
            else s)
        | Errno e \<Rightarrow> (Errno e, s)))"

text \<open>Watching the descriptor and switching away; a descriptor already watched is refused.\<close>

definition switch_away :: "'w os \<Rightarrow> int \<Rightarrow> coroutine_ctx \<Rightarrow> 'w scheduler \<Rightarrow> 'w scheduler" where
  "switch_away os fd cCtx s = (case os_epoll_add os (co_epollFd s) fd EPOLLIN (co_world s) of (_, w) \<Rightarrow>
     s\<lparr>co_world := w, co_fdCxtMap := (co_fdCxtMap s)(fd \<mapsto> cCtx\<lparr>cc_ucp := Some (Suc (co_saved s))\<rparr>),
       co_saved := Suc (co_saved s)\<rparr>)"

datatype hook_result = Returned "byte list syscall" | Switched

partial_function (option) hook_recv :: "'w os \<Rightarrow> int \<Rightarrow> nat \<Rightarrow> 'w scheduler \<Rightarrow> (hook_result \<times> 'w scheduler) option" where
  "hook_recv os fd len s = (case os_recv os fd len (co_world s) of (ret, w) \<Rightarrow>
     (case ret of
        Done bs \<Rightarrow> Some (Returned (Done bs), s\<lparr>co_world := w\<rparr>)
      | Errno e \<Rightarrow>
          (if e = EWOULDBLOCK then
             (case co_fdCxtMap s fd of
                None \<Rightarrow> Some (Returned (Errno e), s\<lparr>co_world := w\<rparr>)
              | Some cCtx \<Rightarrow> Some (Switched, switch_away os fd cCtx (s\<lparr>co_world := w\<rparr>)))
           else hook_recv os fd len (s\<lparr>co_world := w\<rparr>))))"

declare hook_recv.simps [code]

definition hook_send :: "'w os \<Rightarrow> int \<Rightarrow> byte list \<Rightarrow> 'w scheduler \<Rightarrow> nat syscall \<times> 'w scheduler" where
  "hook_send os fd bs s = (case os_send os fd bs (co_world s) of (ret, w) \<Rightarrow> (ret, s\<lparr>co_world := w\<rparr>))"

subsection \<open>The loop\<close>

definition co_serve :: "'w os \<Rightarrow> int \<Rightarrow> byte list syscall \<Rightarrow> 'w scheduler \<Rightarrow> 'w scheduler" where
  "co_serve os clfd ret s =
     (let close = s\<lparr>co_world := os_close os clfd (co_world s)\<rparr>
      in case ret of Errno _ \<Rightarrow> close | Done bs \<Rightarrow> if bs = [] then close else snd (hook_send os clfd bs s))"

fun co_clients :: "'w os \<Rightarrow> int list \<Rightarrow> 'w scheduler \<Rightarrow> 'w scheduler option" where
  "co_clients os [] s = Some (s\<lparr>co_place := AtRound\<rparr>)"
| "co_clients os (clfd # fds) s = do {
     (r, s) \<leftarrow> hook_recv os clfd 1024 s;
     case r of
       Switched \<Rightarrow> Some (s\<lparr>co_place := InRecv (clfd # fds)\<rparr>)
     | Returned ret \<Rightarrow> co_clients os fds (co_serve os clfd ret s)
   }"

definition co_round :: "'w os \<Rightarrow> 'w scheduler \<Rightarrow> 'w scheduler option" where
  "co_round os s = (case hook_accept os (co_listenFd s) s of (ret, s) \<Rightarrow>
     let s = (case ret of Done fd \<Rightarrow> if fd \<noteq> - 1 then s\<lparr>co_cltFds := co_cltFds s @ [fd]\<rparr> else s | Errno _ \<Rightarrow> s)
     in co_clients os (co_cltFds s) s)"

subsection \<open>The scheduler\<close>

text \<open>One turn of its loops: the next wait, or the switch to the context of the next event.\<close>

definition scheduler_turn :: "'w os \<Rightarrow> int list \<Rightarrow> 'w scheduler \<Rightarrow> 'w scheduler option" where
  "scheduler_turn os waiting s = (case co_events s of
     [] \<Rightarrow> Some (case os_epoll_wait os (co_epollFd s) 1024 (co_world s) of (ret, w) \<Rightarrow>
       s\<lparr>co_world := w, co_events := (case ret of Done events \<Rightarrow> map fst events | Errno _ \<Rightarrow> [])\<rparr>)
   | fd # fds \<Rightarrow> do {
       cCtx \<leftarrow> co_fdCxtMap s fd;
       if cc_ucp cCtx \<noteq> Some (co_saved s) then None
       else co_clients os waiting (s\<lparr>co_events := fds\<rparr>)
     })"

definition co_step :: "'w os \<Rightarrow> 'w scheduler \<Rightarrow> 'w scheduler option" where
  "co_step os s = (case co_place s of AtRound \<Rightarrow> co_round os s | InRecv waiting \<Rightarrow> scheduler_turn os waiting s)"

fun co_steps :: "'w os \<Rightarrow> nat \<Rightarrow> 'w scheduler \<Rightarrow> 'w scheduler option" where
  "co_steps os 0 s = Some s"
| "co_steps os (Suc n) s = do { s \<leftarrow> co_step os s; co_steps os n s }"

subsection \<open>Starting\<close>

definition initCoroutine :: "'w os \<Rightarrow> int \<Rightarrow> 'w \<Rightarrow> 'w scheduler" where
  "initCoroutine os listenFd w = (case os_epoll_create os w of (epollFd, w) \<Rightarrow>
     \<lparr>co_listenFd = listenFd, co_epollFd = epollFd, co_fdCxtMap = (\<lambda>_. None), co_cltFds = [], co_place = AtRound,
       co_events = [], co_saved = 0, co_world = w\<rparr>)"

text \<open>\<open>main\<close>, and so many steps of what runs from there.\<close>

definition coroutine_main :: "'w os \<Rightarrow> nat \<Rightarrow> byte list list \<Rightarrow> 'w \<Rightarrow> 'w scheduler option" where
  "coroutine_main os n argv w = do {
     let (listenFd, w) = os_socket os w;
     let w = os_reuseaddr os listenFd (co_setNoBlock os listenFd w);
     port \<leftarrow> (if length argv < 2 then None else arg_atoi (argv ! 1));
     let (_, w) = os_bind os listenFd \<lparr>sin_addr = 0, sin_port = net_short (of_int port)\<rparr> w;
     let (_, w) = os_listen os listenFd 1024 w;
     co_steps os n (initCoroutine os listenFd w)
   }"

subsection \<open>Rounds\<close>

text \<open>Every client of the round has something to read, which is sent back in one piece.\<close>

inductive echoes :: "'w os \<Rightarrow> int list \<Rightarrow> 'w \<Rightarrow> byte list list \<Rightarrow> 'w \<Rightarrow> bool" for os where
  all_done: "echoes os [] w [] w"
| one_client: "os_recv os fd 1024 w = (Done bs, w1) \<Longrightarrow> bs \<noteq> [] \<Longrightarrow> os_send os fd bs w1 = (r, w2) \<Longrightarrow>
    echoes os fds w2 bss w' \<Longrightarrow> echoes os (fd # fds) w (bs # bss) w'"

lemma co_clients_echoes:
  "echoes os fds w bss w' \<Longrightarrow> co_world s = w \<Longrightarrow> co_clients os fds s = Some (s\<lparr>co_world := w', co_place := AtRound\<rparr>)"
  by (induction arbitrary: s rule: echoes.induct) (simp_all add: hook_recv.simps co_serve_def hook_send_def)

text \<open>The hook does not return while \<open>recv\<close> fails with anything but \<open>EWOULDBLOCK\<close>.\<close>

lemma hook_recv_spins:
  assumes "dead (co_world s)"
    and "\<And>w. dead w \<Longrightarrow> \<exists>e w'. os_recv os fd len w = (Errno e, w') \<and> e \<noteq> EWOULDBLOCK \<and> dead w'"
  shows "hook_recv os fd len s = None"
proof -
  have no: "False" if "hook_recv os fd len s = Some y" "dead (co_world s)"
      "\<And>w. dead w \<Longrightarrow> \<exists>e w'. os_recv os fd len w = (Errno e, w') \<and> e \<noteq> EWOULDBLOCK \<and> dead w'" for y s
    using that
  proof (induction rule: hook_recv.raw_induct [rotated, consumes 1, case_names step])
    case (step self os fd len s y)
    obtain e w' where "os_recv os fd len (co_world s) = (Errno e, w')" "e \<noteq> EWOULDBLOCK" "dead w'" using step(3,4) by blast
    then show ?case using step(1) [of os fd len "s\<lparr>co_world := w'\<rparr>" y] step(2,4) by simp
  qed
  show ?thesis
  proof (cases "hook_recv os fd len s")
    case (Some y)
    then show ?thesis using no [OF Some assms] by blast
  qed
qed

subsection \<open>An example\<close>

text \<open>The scripted world with no connection to accept, where \<open>recv\<close> fails with \<open>EBADF\<close> once its
  results are used up; a server with two clients in it.\<close>

definition no_accept_os :: "net_script os" where
  "no_accept_os = script_os\<lparr>os_accept := (\<lambda>fd w. (Errno EWOULDBLOCK, w)),
     os_recv := (\<lambda>fd n w. case sc_recv w of [] \<Rightarrow> (Errno 9, w) | r # rs \<Rightarrow> (r, w\<lparr>sc_recv := rs\<rparr>))\<rparr>"

definition two_clients :: "byte list syscall list \<Rightarrow> epoll_event list syscall list \<Rightarrow> net_script scheduler" where
  "two_clients rs es = \<lparr>co_listenFd = 3, co_epollFd = 4,
     co_fdCxtMap = [5 \<mapsto> \<lparr>cc_fd = 5, cc_ucp = None\<rparr>, 6 \<mapsto> \<lparr>cc_fd = 6, cc_ucp = None\<rparr>],
     co_cltFds = [5, 6], co_place = AtRound, co_events = [], co_saved = 0,
     co_world = \<lparr>sc_recv = rs, sc_wait = es, sc_log = []\<rparr>\<rparr>"

lemma no_accept_simps [simp]:
  "os_accept no_accept_os fd w = (Errno EWOULDBLOCK, w)"
  "os_recv no_accept_os fd n w = (case sc_recv w of [] \<Rightarrow> (Errno 9, w) | r # rs \<Rightarrow> (r, w\<lparr>sc_recv := rs\<rparr>))"
  "os_send no_accept_os fd bs w = (Done (length bs), log_action (Sent fd bs) w)"
  "os_close no_accept_os fd w = log_action (Closed fd) w"
  "os_epoll_add no_accept_os ep fd ev w = (Done (), log_action (Watch fd ev) w)"
  "os_epoll_wait no_accept_os ep n w = (case sc_wait w of [] \<Rightarrow> (Done [], w) | r # rs \<Rightarrow> (r, w\<lparr>sc_wait := rs\<rparr>))"
  by (simp_all add: no_accept_os_def script_os_def)

lemma log_action_simps [simp]: "sc_recv (log_action a w) = sc_recv w" "sc_wait (log_action a w) = sc_wait w"
  by (simp_all add: log_action_def)

subsection \<open>Properties\<close>

text \<open>C32: In a round in which every client has something to read, each is sent back what it wrote, in the
  order of the list, a client just accepted included.\<close>

theorem coroutine_echoes:
  assumes "co_place s = AtRound" "os_accept os (co_listenFd s) (co_world s) = (r, w)"
    and "case r of Done fd \<Rightarrow> 0 < fd \<and> echoes os (co_cltFds s @ [fd]) (co_setNoBlock os fd w) bss w'
       | Errno _ \<Rightarrow> echoes os (co_cltFds s) w bss w'"
  shows "\<exists>s'. co_step os s = Some s' \<and> co_place s' = AtRound \<and> co_world s' = w' \<and>
    co_cltFds s' = co_cltFds s @ (case r of Done fd \<Rightarrow> [fd] | Errno _ \<Rightarrow> [])"
proof (cases r)
  case (Errno e)
  then show ?thesis
    using assms co_clients_echoes [of os "co_cltFds s" w bss w' "s\<lparr>co_world := w\<rparr>"] by (simp add: co_step_def co_round_def hook_accept_def Let_def)
next
  case (Done fd)
  let ?s = "s\<lparr>co_world := co_setNoBlock os fd w,
      co_fdCxtMap := (co_fdCxtMap s)(fd \<mapsto> \<lparr>cc_fd = fd, cc_ucp = None\<rparr>), co_cltFds := co_cltFds s @ [fd]\<rparr>"
  show ?thesis
    using assms Done co_clients_echoes [of os "co_cltFds s @ [fd]" "co_setNoBlock os fd w" bss w' ?s]
    by (simp add: co_step_def co_round_def hook_accept_def Let_def)
qed

theorem coroutine_echoes_witness:
  "\<exists>s'. co_step no_accept_os (two_clients [Done [65], Done [66]] []) = Some s' \<and> co_place s' = AtRound \<and>
    sc_log (co_world s') = [Sent 5 [65], Sent 6 [66]]"
proof -
  let ?s = "two_clients [Done [65], Done [66]] []"
  have "echoes no_accept_os [5, 6] (co_world ?s) [[65], [66]]
      \<lparr>sc_recv = [], sc_wait = [], sc_log = [Sent 5 [65], Sent 6 [66]]\<rparr>"
    by (auto intro!: one_client all_done simp: two_clients_def log_action_def)
  then show ?thesis
    using coroutine_echoes [of ?s no_accept_os "Errno EWOULDBLOCK" "co_world ?s" "[[65], [66]]"
        "\<lparr>sc_recv = [], sc_wait = [], sc_log = [Sent 5 [65], Sent 6 [66]]\<rparr>"]
    by (fastforce simp: two_clients_def)
qed

text \<open>C27: Two clients can bring the server down.  The first has nothing to read and is waited for; its
  event comes, it is served, and the second has nothing to read: when the first now writes again, the
  scheduler resumes a context whose stack the loop has used since, which is undefined behaviour.\<close>

theorem coroutine_two_clients:
  assumes s: "co_place s = AtRound" "co_events s = []" "co_cltFds s = [a, b]" "a \<noteq> b"
    and ctx: "co_fdCxtMap s a = Some ca" "co_fdCxtMap s b = Some cb"
    and calls: "os_accept os (co_listenFd s) (co_world s) = (Errno e, w1)"
      "os_recv os a 1024 w1 = (Errno EWOULDBLOCK, w2)" "os_epoll_add os (co_epollFd s) a EPOLLIN w2 = (r3, w3)"
      "os_epoll_wait os (co_epollFd s) 1024 w3 = (Done [(a, ev)], w4)"
      "os_recv os a 1024 w4 = (Done bs, w5)" "bs \<noteq> []" "os_send os a bs w5 = (r6, w6)"
      "os_recv os b 1024 w6 = (Errno EWOULDBLOCK, w7)" "os_epoll_add os (co_epollFd s) b EPOLLIN w7 = (r8, w8)"
      "os_epoll_wait os (co_epollFd s) 1024 w8 = (Done [(a, ev')], w9)"
  shows "\<exists>s'. co_steps os 4 s = Some s' \<and> co_place s' = InRecv [b] \<and> co_events s' = [a] \<and> co_world s' = w9 \<and>
    co_steps os 5 s = None"
proof -
  let ?n = "co_saved s"
  let ?s1 = "s\<lparr>co_world := w3, co_fdCxtMap := (co_fdCxtMap s)(a \<mapsto> ca\<lparr>cc_ucp := Some (Suc ?n)\<rparr>), co_saved := Suc ?n,
      co_place := InRecv [a, b]\<rparr>"
  have 1: "co_step os s = Some ?s1"
    using s ctx calls(1-3) by (simp add: co_step_def co_round_def hook_accept_def hook_recv.simps switch_away_def Let_def)
  let ?s2 = "?s1\<lparr>co_world := w4, co_events := [a]\<rparr>"
  have 2: "co_step os ?s1 = Some ?s2" using s(2) calls(4) by (simp add: co_step_def scheduler_turn_def)
  let ?s3 = "?s2\<lparr>co_events := [], co_world := w8, co_fdCxtMap := (co_fdCxtMap ?s1)(b \<mapsto> cb\<lparr>cc_ucp := Some (Suc (Suc ?n))\<rparr>),
      co_saved := Suc (Suc ?n), co_place := InRecv [b]\<rparr>"
  have 3: "co_step os ?s2 = Some ?s3"
    using s(4) ctx(2) calls(5-9)
    by (simp add: co_step_def scheduler_turn_def hook_recv.simps co_serve_def hook_send_def switch_away_def Let_def)
  let ?s4 = "?s3\<lparr>co_world := w9, co_events := [a]\<rparr>"
  have 4: "co_step os ?s3 = Some ?s4" using calls(10) by (simp add: co_step_def scheduler_turn_def)
  have 5: "co_step os ?s4 = None" using s(4) by (simp add: co_step_def scheduler_turn_def)
  have "co_steps os 4 s = Some ?s4" "co_steps os 5 s = None"
    using 1 2 3 4 5 by (simp_all add: eval_nat_numeral del: fun_upd_apply)
  then show ?thesis by simp
qed

theorem coroutine_two_clients_witness:
  "co_steps no_accept_os 5 (two_clients [Errno EWOULDBLOCK, Done [65], Errno EWOULDBLOCK] [Done [(5, 1)], Done [(5, 1)]]) = None"
proof -
  let ?e = "Errno EWOULDBLOCK" and ?W = "\<lambda>rs es log. \<lparr>sc_recv = rs, sc_wait = es, sc_log = log\<rparr>"
  let ?s = "two_clients [?e, Done [65], ?e] [Done [(5, 1)], Done [(5, 1)]]"
  let ?log = "[Watch 5 EPOLLIN, Sent 5 [65], Watch 6 EPOLLIN]"
  have "\<exists>s'. co_steps no_accept_os 4 ?s = Some s' \<and> co_place s' = InRecv [6] \<and> co_events s' = [5] \<and>
      co_world s' = ?W [] [] ?log \<and> co_steps no_accept_os 5 ?s = None"
    by (rule coroutine_two_clients [where ca = "\<lparr>cc_fd = 5, cc_ucp = None\<rparr>" and cb = "\<lparr>cc_fd = 6, cc_ucp = None\<rparr>"
        and e = EWOULDBLOCK and ?w1.0 = "co_world ?s" and ?w2.0 = "?W [Done [65], ?e] [Done [(5, 1)], Done [(5, 1)]] []"
        and ?r3.0 = "Done ()" and ?w3.0 = "?W [Done [65], ?e] [Done [(5, 1)], Done [(5, 1)]] (take 1 ?log)"
        and ev = 1 and ?w4.0 = "?W [Done [65], ?e] [Done [(5, 1)]] (take 1 ?log)" and bs = "[65]"
        and ?w5.0 = "?W [?e] [Done [(5, 1)]] (take 1 ?log)" and ?r6.0 = "Done 1" and ?w6.0 = "?W [?e] [Done [(5, 1)]] (take 2 ?log)"
        and ?w7.0 = "?W [] [Done [(5, 1)]] (take 2 ?log)" and ?r8.0 = "Done ()" and ?w8.0 = "?W [] [Done [(5, 1)]] ?log" and ev' = 1])
      (simp_all add: two_clients_def log_action_def)
  then show ?thesis by blast
qed

text \<open>When a client closes its connection, its descriptor stays in the list of the loop: as long as
  \<open>recv\<close> on the closed descriptor fails as \<open>EBADF\<close>, the next visit never returns, so that the
  server stops for all clients.\<close>

theorem coroutine_disconnect_hangs:
  assumes "dead (os_close os fd w)"
    and "\<And>w. dead w \<Longrightarrow> \<exists>e w'. os_recv os fd 1024 w = (Errno e, w') \<and> e \<noteq> EWOULDBLOCK \<and> dead w'"
    and "\<And>w. dead w \<Longrightarrow> \<exists>e w'. os_accept os l w = (Errno e, w') \<and> dead w'"
    and "co_place s = AtRound" "co_cltFds s = [fd]" "co_listenFd s = l"
    and "os_accept os l (co_world s) = (Errno e, w0)" "os_recv os fd 1024 w0 = (Done [], w)"
  shows "\<exists>s'. co_step os s = Some s' \<and> co_cltFds s' = [fd] \<and> co_step os s' = None"
proof -
  let ?s = "s\<lparr>co_world := os_close os fd w, co_place := AtRound\<rparr>"
  have "co_step os s = Some ?s"
    using assms(4-8) by (simp add: co_step_def co_round_def hook_accept_def hook_recv.simps co_serve_def Let_def)
  moreover have "co_step os ?s = None"
  proof -
    obtain e w1 where w1: "os_accept os l (os_close os fd w) = (Errno e, w1)" "dead w1" using assms(1,3) by blast
    have "hook_recv os fd 1024 (?s\<lparr>co_world := w1\<rparr>) = None"
      by (rule hook_recv_spins [where dead = dead]) (use w1(2) assms(2) in simp_all)
    then show ?thesis using assms(5,6) w1(1) by (simp add: co_step_def co_round_def hook_accept_def Let_def)
  qed
  ultimately show ?thesis using assms(5) by fastforce
qed

theorem coroutine_disconnect_hangs_witness:
  "\<exists>s'. co_step no_accept_os ((two_clients [Done []] [])\<lparr>co_cltFds := [5]\<rparr>) = Some s' \<and> co_step no_accept_os s' = None"
  using coroutine_disconnect_hangs [of "\<lambda>w. sc_recv w = []" no_accept_os 5 "\<lparr>sc_recv = [], sc_wait = [], sc_log = []\<rparr>" 3
    "(two_clients [Done []] [])\<lparr>co_cltFds := [5]\<rparr>" EWOULDBLOCK]
  by (auto simp: two_clients_def EWOULDBLOCK_def)

text \<open>While the loop waits for a client that stays silent, nobody else is served and no connection
  accepted: without events, the state is the same after any number of steps.\<close>

lemma coroutine_silent_client:
  assumes "co_place s = InRecv waiting" "co_events s = []" "quiet (co_world s)"
    and "\<And>w. quiet w \<Longrightarrow> \<exists>w'. os_epoll_wait os (co_epollFd s) 1024 w = (Done [], w') \<and> quiet w'"
  shows "\<exists>w. co_steps os n s = Some (s\<lparr>co_world := w\<rparr>)"
  using assms
proof (induction n arbitrary: s)
  case 0
  then show ?case by (metis co_steps.simps(1) scheduler.surjective scheduler.update_convs(8))
next
  case (Suc n)
  then obtain w' where w': "os_epoll_wait os (co_epollFd s) 1024 (co_world s) = (Done [], w')" "quiet w'" by blast
  then have "co_step os s = Some (s\<lparr>co_world := w'\<rparr>)" using Suc.prems(1,2) by (simp add: co_step_def scheduler_turn_def)
  then show ?case using Suc.IH [of "s\<lparr>co_world := w'\<rparr>"] Suc.prems w'(2) by auto
qed

end
