(* ===== verification/SmallClients.thy ===== *)
theory SmallClients
  imports OsCalls
begin

text \<open>
  The two small clients: p2p/main.cpp, which connects from a fixed port and then exchanges one fixed
  message with its peer, and TCPClient/main.cpp, which opens connections to a hundred ports in turn.
  Of the output only what printing a buffer as a string reads is kept; the sleep is left out.
\<close>

subsection \<open>p2p\<close>

record 'w p2p =
  pp_fd :: int
  pp_buffer :: "byte list"
  pp_printed :: "byte list list"
  pp_world :: 'w

text \<open>\<open>char msg[10] = "hello"\<close>.\<close>

definition p2p_msg :: "byte list" where
  "p2p_msg = lit ''hello'' @ replicate 5 0"

partial_function (option) p2p_connect :: "'w os \<Rightarrow> int \<Rightarrow> sockaddr_in \<Rightarrow> 'w \<Rightarrow> 'w option" where
  "p2p_connect os fd remoteAddr w = (case os_connect os fd remoteAddr w of (ret, w) \<Rightarrow>
     (case ret of Errno _ \<Rightarrow> p2p_connect os fd remoteAddr w | Done _ \<Rightarrow> Some w))"

declare p2p_connect.simps [code]

text \<open>A turn of the last loop; the buffer is not cleared between the turns.\<close>

definition p2p_turn :: "'w os \<Rightarrow> 'w p2p \<Rightarrow> 'w p2p option" where
  "p2p_turn os s = (case os_recv os (pp_fd s) 10 (pp_world s) of (ret, w) \<Rightarrow>
     let s = s\<lparr>pp_world := w\<rparr>
     in (case ret of
          Errno _ \<Rightarrow> Some s
        | Done bs \<Rightarrow>
            let s = s\<lparr>pp_buffer := overwrite 0 bs (pp_buffer s)\<rparr>
            in if bs = [] then Some s
              else if 0 \<notin> set (pp_buffer s) then None
              else Some (s\<lparr>pp_printed := pp_printed s @ [takeWhile (\<lambda>c. c \<noteq> 0) (pp_buffer s)],
                  pp_world := snd (os_send os (pp_fd s) p2p_msg (pp_world s))\<rparr>)))"

fun p2p_turns :: "'w os \<Rightarrow> nat \<Rightarrow> 'w p2p \<Rightarrow> 'w p2p option" where
  "p2p_turns os 0 s = Some s"
| "p2p_turns os (Suc n) s = do { s \<leftarrow> p2p_turn os s; p2p_turns os n s }"

definition p2p_main :: "'w os \<Rightarrow> nat \<Rightarrow> byte list list \<Rightarrow> 'w \<Rightarrow> (int + 'w p2p) option" where
  "p2p_main os n argv w =
     (if length argv < 4 then Some (Inl (- 1))
      else do {
        localPort \<leftarrow> arg_atoi (argv ! 2);
        remotePort \<leftarrow> arg_atoi (argv ! 3);
        let (fd, w) = os_socket os w;
        let (_, w) = os_bind os fd \<lparr>sin_addr = 0, sin_port = net_short (of_int localPort)\<rparr> w;
        let remoteAddr = \<lparr>sin_addr = (case os_inet_aton os (argv ! 1) of None \<Rightarrow> 0 | Some a \<Rightarrow> a),
          sin_port = net_short (of_int remotePort)\<rparr>;
        w \<leftarrow> p2p_connect os fd remoteAddr w;
        let (_, w) = os_send os fd p2p_msg w;
        map_option Inr (p2p_turns os n \<lparr>pp_fd = fd, pp_buffer = replicate 10 0, pp_printed = [], pp_world = w\<rparr>)
      })"

subsection \<open>TCPClient\<close>

text \<open>The loop that connects; it returns the result of \<open>main\<close>.\<close>

partial_function (option) client_loop :: "'w os \<Rightarrow> uint \<Rightarrow> 16 word \<Rightarrow> int \<Rightarrow> 'w \<Rightarrow> (int \<times> 'w) option" where
  "client_loop os addr port rng w = (case os_socket os w of (fd, w) \<Rightarrow>
     if fd = - 1 then Some (- 1, w)
     else let a = \<lparr>sin_addr = addr, sin_port = net_short (of_int (sint port + rng))\<rparr>;
              rng = rng + 1; rng = (if 100 \<le> rng then 0 else rng)
       in (case os_connect os fd a w of
            (Errno _, w) \<Rightarrow> Some (- 1, w)
          | (Done _, w) \<Rightarrow> client_loop os addr port rng w))"

declare client_loop.simps [code]

definition client_main :: "'w os \<Rightarrow> byte list list \<Rightarrow> 'w \<Rightarrow> (int \<times> 'w) option" where
  "client_main os argv w =
     (if length argv < 3 then Some (- 1, w)
      else do {
        port \<leftarrow> arg_atoi (argv ! 2);
        client_loop os (case os_inet_aton os (argv ! 1) of None \<Rightarrow> 0 | Some a \<Rightarrow> a) (of_int port) 0 w
      })"

subsection \<open>Executions\<close>

text \<open>Messages of the peer, each in a piece of its own, which is answered.\<close>

inductive greets :: "'w os \<Rightarrow> int \<Rightarrow> nat \<Rightarrow> 'w \<Rightarrow> 'w \<Rightarrow> bool" for os fd where
  enough: "greets os fd 0 w w"
| greeting: "os_recv os fd 10 w = (Done p2p_msg, w1) \<Longrightarrow> os_send os fd p2p_msg w1 = (r, w2) \<Longrightarrow> greets os fd n w2 w' \<Longrightarrow>
    greets os fd (Suc n) w w'"

text \<open>Connections made one after the other: to the port and the 99 behind it, from the \<open>i\<close>th on,
  until a socket or a connection is refused.\<close>

inductive connects :: "'w os \<Rightarrow> uint \<Rightarrow> 16 word \<Rightarrow> nat \<Rightarrow> nat \<Rightarrow> 'w \<Rightarrow> 'w \<Rightarrow> bool" for os addr port where
  no_socket: "os_socket os w = (- 1, w') \<Longrightarrow> connects os addr port i 0 w w'"
| refused: "os_socket os w = (fd, w1) \<Longrightarrow> fd \<noteq> - 1 \<Longrightarrow>
    os_connect os fd \<lparr>sin_addr = addr, sin_port = net_short (port + of_nat (i mod 100))\<rparr> w1 = (Errno e, w') \<Longrightarrow>
    connects os addr port i 0 w w'"
| connected: "os_socket os w = (fd, w1) \<Longrightarrow> fd \<noteq> - 1 \<Longrightarrow>
    os_connect os fd \<lparr>sin_addr = addr, sin_port = net_short (port + of_nat (i mod 100))\<rparr> w1 = (Done (), w2) \<Longrightarrow>
    connects os addr port (Suc i) n w2 w' \<Longrightarrow> connects os addr port i (Suc n) w w'"

lemma p2p_msg_simps: "length p2p_msg = 10" "0 \<in> set p2p_msg" "takeWhile (\<lambda>c. c \<noteq> 0) p2p_msg = lit ''hello''"
  by (simp_all add: p2p_msg_def lit_def)

lemma p2p_turns_greets:
  assumes "greets os fd n w w'" "length b = 10"
  shows "\<exists>b'. p2p_turns os n \<lparr>pp_fd = fd, pp_buffer = b, pp_printed = ps, pp_world = w\<rparr> =
      Some \<lparr>pp_fd = fd, pp_buffer = b', pp_printed = ps @ replicate n (lit ''hello''), pp_world = w'\<rparr> \<and> length b' = 10"
  using assms
proof (induction arbitrary: b ps rule: greets.induct)
  case (greeting w w1 r w2 n w')
  have "overwrite 0 p2p_msg b = p2p_msg" using greeting.prems by (simp add: overwrite_def p2p_msg_simps(1))
  then show ?case
    using greeting.hyps greeting.IH [of p2p_msg "ps @ [lit ''hello'']"] p2p_msg_simps
    by (auto simp: p2p_turn_def Let_def)
qed simp

lemma client_loop_connects:
  "connects os addr port i n w w' \<Longrightarrow> client_loop os addr port (int (i mod 100)) w = Some (- 1, w')"
proof (induction rule: connects.induct)
  case (connected w fd w1 i w2 n w')
  have port: "(of_int (sint port + int (i mod 100)) :: 16 word) = port + of_nat (i mod 100)" by simp
  have "(if (100::int) \<le> int (i mod 100) + 1 then 0 else int (i mod 100) + 1) = int (Suc i mod 100)"
    using mod_less_divisor [of 100 i] by (auto simp: mod_Suc)
  then show ?case using connected by (subst client_loop.simps) (simp add: Let_def port)
qed (subst client_loop.simps, simp)+


subsection \<open>Properties\<close>

text \<open>As long as the messages of the peer arrive one by one and whole, \<open>main\<close> of p2p connects,
  greets, prints \<open>hello\<close> for each message and answers it.\<close>

lemma p2p_greets:
  assumes "4 \<le> length argv" "arg_atoi (argv ! 2) = Some lport" "arg_atoi (argv ! 3) = Some rport"
    and "os_socket os w = (fd, w1)" "os_bind os fd \<lparr>sin_addr = 0, sin_port = net_short (of_int lport)\<rparr> w1 = (r2, w2)"
    and "os_inet_aton os (argv ! 1) = Some a"
    and "os_connect os fd \<lparr>sin_addr = a, sin_port = net_short (of_int rport)\<rparr> w2 = (Done (), w3)"
    and "os_send os fd p2p_msg w3 = (r4, w4)" "greets os fd n w4 w'"
  shows "\<exists>s. p2p_main os n argv w = Some (Inr s) \<and> pp_printed s = replicate n (lit ''hello'') \<and> pp_world s = w'"
proof -
  have "p2p_connect os fd \<lparr>sin_addr = a, sin_port = net_short (of_int rport)\<rparr> w2 = Some w3"
    using assms(7) by (subst p2p_connect.simps) simp
  then show ?thesis
    using assms p2p_turns_greets [OF assms(9), of "replicate 10 0" "[]"] by (auto simp: p2p_main_def)
qed

text \<open>TCPClient makes one connection after the other, the \<open>i\<close>th to the port of its argument plus
  \<open>i\<close> modulo 100, closes none of them, and ends with -1 at the first that is refused.\<close>

lemma client_connects:
  assumes "3 \<le> length argv" "arg_atoi (argv ! 2) = Some port" "os_inet_aton os (argv ! 1) = Some a"
    and "connects os a (of_int port) 0 n w w'"
  shows "client_main os argv w = Some (- 1, w')"
  using client_loop_connects [OF assms(4)] assms(1-3) by (simp add: client_main_def)

text \<open>A stream of messages that arrives in other pieces can leave the buffer without a 0, and
  printing it reads past its end; even a stream of greetings can.\<close>

lemma p2p_msg_bytes: "p2p_msg = [104, 101, 108, 108, 111, 0, 0, 0, 0, 0]"
  by (simp add: p2p_msg_def lit_def eval_nat_numeral)

lemma p2p_overread:
  "p2p_turns (script_os\<lparr>os_recv := (\<lambda>fd n w. case sc_recv w of [] \<Rightarrow> (Errno EWOULDBLOCK, w) | r # rs \<Rightarrow> (r, w\<lparr>sc_recv := rs\<rparr>))\<rparr>) (Suc (Suc (Suc (Suc 0))))
    \<lparr>pp_fd = 3, pp_buffer = replicate 10 0, pp_printed = [],
     pp_world = \<lparr>sc_recv = [Done (take 5 p2p_msg), Done (drop 5 p2p_msg @ take 5 p2p_msg), Done (drop 5 p2p_msg),
        Done (take 5 p2p_msg)], sc_wait = [], sc_log = []\<rparr>\<rparr> = None"
  by (simp add: p2p_turn_def p2p_msg_bytes overwrite_def script_os_def log_action_def)

end
