(* ===== verification/Ikcp.thy ===== *)
theory Ikcp
  imports MemWords "HOL-Library.Signed_Division"
begin

text \<open>
  KcpUdp/ikcp.c: the KCP protocol, reliable ordered messages over datagrams.  A control block is the
  record \<open>ikcpcb\<close>; its four intrusive queues (the macros of ikcp.h) are lists of segments, with the
  counters the code keeps beside them.  Sequence numbers, times and windows are 32-bit words, what the code
  declares as a signed number is an \<open>int\<close>, and \<open>None\<close> is undefined behaviour: a failed
  \<open>assert\<close>, an access outside a buffer, an overflow of a signed number.  \<open>malloc\<close> succeeds, and the
  fields it leaves indeterminate in a segment are 0 here: each is written before it is read.  The
  calls of the output function are the list of datagrams a function returns.  The code tests of a
  buffer for \<open>NULL\<close> succeed, logging is off.  The machine is little-endian, \<open>long\<close> has 64 bits (the
  client of this library is a Linux program).
\<close>

unbundle bit_operations_syntax

subsection \<open>Constants\<close>

definition IKCP_RTO_NDL :: int where "IKCP_RTO_NDL = 30"
definition IKCP_RTO_MIN :: int where "IKCP_RTO_MIN = 100"
definition IKCP_RTO_DEF :: int where "IKCP_RTO_DEF = 200"
definition IKCP_RTO_MAX :: uint where "IKCP_RTO_MAX = 60000"
definition IKCP_CMD_PUSH :: uint where "IKCP_CMD_PUSH = 81"
definition IKCP_CMD_ACK :: uint where "IKCP_CMD_ACK = 82"
definition IKCP_CMD_WASK :: uint where "IKCP_CMD_WASK = 83"
definition IKCP_CMD_WINS :: uint where "IKCP_CMD_WINS = 84"
definition IKCP_ASK_SEND :: uint where "IKCP_ASK_SEND = 1"
definition IKCP_ASK_TELL :: uint where "IKCP_ASK_TELL = 2"
definition IKCP_WND_SND :: uint where "IKCP_WND_SND = 32"
definition IKCP_WND_RCV :: uint where "IKCP_WND_RCV = 128"
definition IKCP_MTU_DEF :: uint where "IKCP_MTU_DEF = 1400"
definition IKCP_INTERVAL :: uint where "IKCP_INTERVAL = 100"
definition IKCP_OVERHEAD :: uint where "IKCP_OVERHEAD = 24"
definition IKCP_DEADLINK :: uint where "IKCP_DEADLINK = 20"
definition IKCP_THRESH_INIT :: uint where "IKCP_THRESH_INIT = 2"
definition IKCP_THRESH_MIN :: uint where "IKCP_THRESH_MIN = 2"
definition IKCP_PROBE_INIT :: uint where "IKCP_PROBE_INIT = 7000"
definition IKCP_PROBE_LIMIT :: uint where "IKCP_PROBE_LIMIT = 120000"
definition IKCP_FASTACK_LIMIT :: int where "IKCP_FASTACK_LIMIT = 5"

lemmas ikcp_cmds = IKCP_CMD_PUSH_def IKCP_CMD_ACK_def IKCP_CMD_WASK_def IKCP_CMD_WINS_def

subsection \<open>Data\<close>

record ikcpseg =
  sg_conv :: uint
  sg_cmd :: uint
  sg_frg :: uint
  sg_wnd :: uint
  sg_ts :: uint
  sg_sn :: uint
  sg_una :: uint
  sg_len :: uint
  sg_resendts :: uint
  sg_rto :: uint
  sg_fastack :: uint
  sg_xmit :: uint
  sg_data :: "byte list"

record ikcpcb =
  kc_conv :: uint
  kc_mtu :: uint
  kc_mss :: uint
  kc_state :: uint
  kc_snd_una :: uint
  kc_snd_nxt :: uint
  kc_rcv_nxt :: uint
  kc_ssthresh :: uint
  kc_rx_rttval :: int
  kc_rx_srtt :: int
  kc_rx_rto :: int
  kc_rx_minrto :: int
  kc_snd_wnd :: uint
  kc_rcv_wnd :: uint
  kc_rmt_wnd :: uint
  kc_cwnd :: uint
  kc_probe :: uint
  kc_current :: uint
  kc_interval :: uint
  kc_ts_flush :: uint
  kc_xmit :: uint
  kc_nrcv_buf :: uint
  kc_nsnd_buf :: uint
  kc_nrcv_que :: uint
  kc_nsnd_que :: uint
  kc_nodelay :: uint
  kc_updated :: uint
  kc_ts_probe :: uint
  kc_probe_wait :: uint
  kc_dead_link :: uint
  kc_incr :: uint
  kc_snd_queue :: "ikcpseg list"
  kc_rcv_queue :: "ikcpseg list"
  kc_snd_buf :: "ikcpseg list"
  kc_rcv_buf :: "ikcpseg list"
  kc_acklist :: "(uint \<times> uint) list"
  kc_ackcount :: uint
  kc_ackblock :: uint
  kc_buffer :: nat
  kc_fastresend :: int
  kc_fastlimit :: int
  kc_nocwnd :: int
  kc_stream :: int
  kc_output :: bool

text \<open>\<open>kc_buffer\<close> is the number of bytes allocated for the output buffer, \<open>kc_acklist\<close> the whole
  allocated array of pairs.\<close>

definition ikcp_segment_new :: "byte list \<Rightarrow> ikcpseg" where
  "ikcp_segment_new bs = \<lparr>sg_conv = 0, sg_cmd = 0, sg_frg = 0, sg_wnd = 0, sg_ts = 0, sg_sn = 0, sg_una = 0,
     sg_len = of_nat (length bs), sg_resendts = 0, sg_rto = 0, sg_fastack = 0, sg_xmit = 0, sg_data = bs\<rparr>"

subsection \<open>Encoding\<close>

definition ikcp_encode8u :: "byte \<Rightarrow> byte list" where "ikcp_encode8u c = [c]"
definition ikcp_encode16u :: "16 word \<Rightarrow> byte list" where "ikcp_encode16u w = bytes16 w"
definition ikcp_encode32u :: "uint \<Rightarrow> byte list" where "ikcp_encode32u l = bytes32 l"

text \<open>Decoding moves the pointer: the rest of the bytes.\<close>

fun ikcp_decode8u :: "byte list \<Rightarrow> (byte \<times> byte list) option" where
  "ikcp_decode8u (b # p) = Some (b, p)"
| "ikcp_decode8u _ = None"

fun ikcp_decode16u :: "byte list \<Rightarrow> (16 word \<times> byte list) option" where
  "ikcp_decode16u (b0 # b1 # p) = Some (word16 b0 b1, p)"
| "ikcp_decode16u _ = None"

fun ikcp_decode32u :: "byte list \<Rightarrow> (uint \<times> byte list) option" where
  "ikcp_decode32u (b0 # b1 # b2 # b3 # p) = Some (word32 b0 b1 b2 b3, p)"
| "ikcp_decode32u _ = None"

definition ikcp_encode_seg :: "ikcpseg \<Rightarrow> byte list" where
  "ikcp_encode_seg seg = ikcp_encode32u (sg_conv seg) @ ikcp_encode8u (ucast (sg_cmd seg)) @ ikcp_encode8u (ucast (sg_frg seg)) @
     ikcp_encode16u (ucast (sg_wnd seg)) @ ikcp_encode32u (sg_ts seg) @ ikcp_encode32u (sg_sn seg) @
     ikcp_encode32u (sg_una seg) @ ikcp_encode32u (sg_len seg)"

definition ikcp_getconv :: "byte list \<Rightarrow> uint option" where
  "ikcp_getconv p = map_option fst (ikcp_decode32u p)"

subsection \<open>Small functions\<close>

definition imin :: "uint \<Rightarrow> uint \<Rightarrow> uint" where "imin a b = (if a \<le> b then a else b)"
definition imax :: "uint \<Rightarrow> uint \<Rightarrow> uint" where "imax a b = (if b \<le> a then a else b)"

definition ibound :: "uint \<Rightarrow> uint \<Rightarrow> uint \<Rightarrow> uint" where
  "ibound lower middle upper = imin (imax lower middle) upper"

definition itimediff :: "uint \<Rightarrow> uint \<Rightarrow> int" where
  "itimediff later earlier = sint (later - earlier)"

text \<open>A signed result of 32 bits.\<close>

definition int32 :: "int \<Rightarrow> int option" where
  "int32 n = (if - 2147483648 \<le> n \<and> n \<le> 2147483647 then Some n else None)"

subsection \<open>Creating and setting\<close>

definition ikcp_create :: "uint \<Rightarrow> ikcpcb" where
  "ikcp_create conv = \<lparr>kc_conv = conv, kc_mtu = IKCP_MTU_DEF, kc_mss = IKCP_MTU_DEF - IKCP_OVERHEAD, kc_state = 0,
     kc_snd_una = 0, kc_snd_nxt = 0, kc_rcv_nxt = 0, kc_ssthresh = IKCP_THRESH_INIT, kc_rx_rttval = 0, kc_rx_srtt = 0,
     kc_rx_rto = IKCP_RTO_DEF, kc_rx_minrto = IKCP_RTO_MIN, kc_snd_wnd = IKCP_WND_SND, kc_rcv_wnd = IKCP_WND_RCV,
     kc_rmt_wnd = IKCP_WND_RCV, kc_cwnd = 0, kc_probe = 0, kc_current = 0, kc_interval = IKCP_INTERVAL,
     kc_ts_flush = IKCP_INTERVAL, kc_xmit = 0, kc_nrcv_buf = 0, kc_nsnd_buf = 0, kc_nrcv_que = 0, kc_nsnd_que = 0,
     kc_nodelay = 0, kc_updated = 0, kc_ts_probe = 0, kc_probe_wait = 0, kc_dead_link = IKCP_DEADLINK, kc_incr = 0,
     kc_snd_queue = [], kc_rcv_queue = [], kc_snd_buf = [], kc_rcv_buf = [], kc_acklist = [], kc_ackcount = 0,
     kc_ackblock = 0, kc_buffer = unat ((IKCP_MTU_DEF + IKCP_OVERHEAD) * 3), kc_fastresend = 0,
     kc_fastlimit = IKCP_FASTACK_LIMIT, kc_nocwnd = 0, kc_stream = 0, kc_output = False\<rparr>"

definition ikcp_setoutput :: "ikcpcb \<Rightarrow> ikcpcb" where
  "ikcp_setoutput kcp = kcp\<lparr>kc_output := True\<rparr>"

definition ikcp_setmtu :: "int \<Rightarrow> ikcpcb \<Rightarrow> int \<times> ikcpcb" where
  "ikcp_setmtu mtu kcp =
     (if mtu < 50 \<or> mtu < uint IKCP_OVERHEAD then (- 1, kcp)
      else (0, kcp\<lparr>kc_mtu := of_int mtu, kc_mss := of_int mtu - IKCP_OVERHEAD,
          kc_buffer := unat ((of_int mtu + IKCP_OVERHEAD) * 3)\<rparr>))"

definition clamp_interval :: "int \<Rightarrow> int" where
  "clamp_interval n = (if 5000 < n then 5000 else if n < 10 then 10 else n)"

definition ikcp_interval :: "int \<Rightarrow> ikcpcb \<Rightarrow> ikcpcb" where
  "ikcp_interval n kcp = kcp\<lparr>kc_interval := of_int (clamp_interval n)\<rparr>"

definition ikcp_nodelay :: "int \<Rightarrow> int \<Rightarrow> int \<Rightarrow> int \<Rightarrow> ikcpcb \<Rightarrow> ikcpcb" where
  "ikcp_nodelay nodelay n resend nc kcp =
     (let kcp = (if 0 \<le> nodelay then kcp\<lparr>kc_nodelay := of_int nodelay,
            kc_rx_minrto := if nodelay \<noteq> 0 then IKCP_RTO_NDL else IKCP_RTO_MIN\<rparr> else kcp);
          kcp = (if 0 \<le> n then kcp\<lparr>kc_interval := of_int (clamp_interval n)\<rparr> else kcp);
          kcp = (if 0 \<le> resend then kcp\<lparr>kc_fastresend := resend\<rparr> else kcp)
      in if 0 \<le> nc then kcp\<lparr>kc_nocwnd := nc\<rparr> else kcp)"

definition ikcp_wndsize :: "int \<Rightarrow> int \<Rightarrow> ikcpcb \<Rightarrow> ikcpcb" where
  "ikcp_wndsize sndwnd rcvwnd kcp =
     (let kcp = (if 0 < sndwnd then kcp\<lparr>kc_snd_wnd := of_int sndwnd\<rparr> else kcp)
      in if 0 < rcvwnd then kcp\<lparr>kc_rcv_wnd := imax (of_int rcvwnd) IKCP_WND_RCV\<rparr> else kcp)"

definition ikcp_waitsnd :: "ikcpcb \<Rightarrow> int" where
  "ikcp_waitsnd kcp = sint (kc_nsnd_buf kcp + kc_nsnd_que kcp)"

subsection \<open>Receiving by the user\<close>

fun peek_length :: "ikcpseg list \<Rightarrow> uint \<Rightarrow> uint" where
  "peek_length [] n = n"
| "peek_length (seg # p) n =
     (let n = n + sg_len seg in if sg_frg seg = 0 then n else peek_length p n)"

definition ikcp_peeksize :: "ikcpcb \<Rightarrow> int" where
  "ikcp_peeksize kcp = (case kc_rcv_queue kcp of
     [] \<Rightarrow> - 1
   | seg # _ \<Rightarrow>
       if sg_frg seg = 0 then sint (sg_len seg)
       else if kc_nrcv_que kcp < sg_frg seg + 1 then - 1
       else sint (peek_length (kc_rcv_queue kcp) 0))"

text \<open>The loop that merges the fragments; \<open>p\<close> is where it is in the queue.\<close>

fun merge_fragments ::
    "bool \<Rightarrow> ikcpseg list \<Rightarrow> byte list \<Rightarrow> uint \<Rightarrow> ikcpcb \<Rightarrow> (byte list \<times> uint \<times> ikcpcb) option" where
  "merge_fragments ispeek [] buffer len kcp = Some (buffer, len, kcp)"
| "merge_fragments ispeek (seg # p) buffer len kcp =
     (if length (sg_data seg) < unat (sg_len seg) then None
      else let buffer = buffer @ take (unat (sg_len seg)) (sg_data seg);
          len = len + sg_len seg;
          kcp = (if ispeek then kcp else kcp\<lparr>kc_rcv_queue := p, kc_nrcv_que := kc_nrcv_que kcp - 1\<rparr>)
        in if sg_frg seg = 0 then Some (buffer, len, kcp) else merge_fragments ispeek p buffer len kcp)"

text \<open>The loop that moves what is in order from \<open>rcv_buf\<close> to \<open>rcv_queue\<close>.\<close>

fun move_available :: "ikcpseg list \<Rightarrow> ikcpcb \<Rightarrow> ikcpcb" where
  "move_available [] kcp = kcp\<lparr>kc_rcv_buf := []\<rparr>"
| "move_available (seg # p) kcp =
     (if sg_sn seg = kc_rcv_nxt kcp \<and> kc_nrcv_que kcp < kc_rcv_wnd kcp
      then move_available p (kcp\<lparr>kc_nrcv_buf := kc_nrcv_buf kcp - 1, kc_rcv_queue := kc_rcv_queue kcp @ [seg],
        kc_nrcv_que := kc_nrcv_que kcp + 1, kc_rcv_nxt := kc_rcv_nxt kcp + 1\<rparr>)
      else kcp\<lparr>kc_rcv_buf := seg # p\<rparr>)"

text \<open>The result is that of the call and the bytes written into the user's buffer, which has room
  for as many as \<open>len\<close> says.\<close>

definition ikcp_recv :: "int \<Rightarrow> ikcpcb \<Rightarrow> (int \<times> byte list \<times> ikcpcb) option" where
  "ikcp_recv len kcp =
     (if kc_rcv_queue kcp = [] then Some (- 1, [], kcp)
      else do {
        let ispeek = (len < 0);
        len \<leftarrow> (if len < 0 then int32 (- len) else Some len);
        let peeksize = ikcp_peeksize kcp;
        if peeksize < 0 then Some (- 2, [], kcp)
        else if len < peeksize then Some (- 3, [], kcp)
        else do {
          let recover = (kc_rcv_wnd kcp \<le> kc_nrcv_que kcp);
          (buffer, n, kcp) \<leftarrow> merge_fragments ispeek (kc_rcv_queue kcp) [] 0 kcp;
          if sint n \<noteq> peeksize then None
          else let kcp = move_available (kc_rcv_buf kcp) kcp;
              kcp = (if kc_nrcv_que kcp < kc_rcv_wnd kcp \<and> recover then kcp\<lparr>kc_probe := kc_probe kcp OR IKCP_ASK_TELL\<rparr> else kcp)
            in Some (sint n, buffer, kcp)
        }
      })"

subsection \<open>Sending by the user\<close>

text \<open>The loop that cuts the message, with so many fragments to go.\<close>

fun send_fragments :: "nat \<Rightarrow> byte list \<Rightarrow> int \<Rightarrow> ikcpcb \<Rightarrow> ikcpcb option" where
  "send_fragments 0 buffer len kcp = Some kcp"
| "send_fragments (Suc n) buffer len kcp =
     (let size = (if sint (kc_mss kcp) < len then sint (kc_mss kcp) else len)
      in if size < 0 \<or> int (length buffer) < size then None
         else let seg = (ikcp_segment_new (take (nat size) buffer))\<lparr>sg_frg := if kc_stream kcp = 0 then of_nat n else 0\<rparr>
           in send_fragments n (drop (nat size) buffer) (len - size)
             (kcp\<lparr>kc_snd_queue := kc_snd_queue kcp @ [seg], kc_nsnd_que := kc_nsnd_que kcp + 1\<rparr>))"

text \<open>In stream mode the last segment that waits is filled up first.\<close>

definition extend_last :: "byte list \<Rightarrow> int \<Rightarrow> ikcpcb \<Rightarrow> (byte list \<times> int \<times> ikcpcb) option" where
  "extend_last buffer len kcp =
     (if kc_snd_queue kcp = [] then Some (buffer, len, kcp)
      else let old = last (kc_snd_queue kcp)
        in if sg_len old < kc_mss kcp then
             let capacity = sint (kc_mss kcp - sg_len old); extend = (if len < capacity then len else capacity)
             in if extend < 0 \<or> int (length buffer) < extend \<or> length (sg_data old) < unat (sg_len old) then None
                else Some (drop (nat extend) buffer, len - extend, kcp\<lparr>kc_snd_queue := butlast (kc_snd_queue kcp) @
                  [ikcp_segment_new (take (unat (sg_len old)) (sg_data old) @ take (nat extend) buffer)]\<rparr>)
           else Some (buffer, len, kcp))"

definition fragment_count :: "int \<Rightarrow> ikcpcb \<Rightarrow> int" where
  "fragment_count len kcp =
     (if len \<le> sint (kc_mss kcp) then 1 else sint ((of_int len + kc_mss kcp - 1) div kc_mss kcp))"

definition ikcp_send :: "byte list \<Rightarrow> int \<Rightarrow> ikcpcb \<Rightarrow> (int \<times> ikcpcb) option" where
  "ikcp_send buffer len kcp =
     (if \<not> 0 < kc_mss kcp then None
      else if len < 0 then Some (- 1, kcp)
      else do {
        (buffer, len, kcp) \<leftarrow> (if kc_stream kcp \<noteq> 0 then extend_last buffer len kcp else Some (buffer, len, kcp));
        if kc_stream kcp \<noteq> 0 \<and> len \<le> 0 then Some (0, kcp)
        else let count = fragment_count len kcp
          in if sint IKCP_WND_RCV \<le> count then Some (- 2, kcp)
             else let count = (if count = 0 then 1 else count)
               in map_option (Pair 0) (send_fragments (nat count) buffer len kcp)
      })"

end
