(* ===== verification/IkcpInput.thy ===== *)
theory IkcpInput
  imports Ikcp
begin

text \<open>
  What ikcp.c does with a datagram: \<open>ikcp_input\<close> and the functions it calls, that take acknowledgements
  off the send buffer, estimate the round trip time, and put data into the receive buffer in order.
\<close>

unbundle bit_operations_syntax

subsection \<open>Acknowledgements\<close>

text \<open>\<open>delta\<close> is a \<open>long\<close>; the products by 3, 7 and 4 and the sum with \<open>rtt\<close> are \<open>int\<close>.\<close>

definition ikcp_update_ack :: "int \<Rightarrow> ikcpcb \<Rightarrow> ikcpcb option" where
  "ikcp_update_ack rtt kcp = do {
     (rttval, srtt) \<leftarrow>
       (if kc_rx_srtt kcp = 0 then Some (rtt sdiv 2, rtt)
        else do {
          delta \<leftarrow> int32 (rtt - kc_rx_srtt kcp);
          let delta = (if delta < 0 then - delta else delta);
          var3 \<leftarrow> int32 (3 * kc_rx_rttval kcp);
          mean7 \<leftarrow> int32 (7 * kc_rx_srtt kcp);
          mean8 \<leftarrow> int32 (mean7 + rtt);
          let srtt = mean8 sdiv 8;
          Some ((var3 + delta) sdiv 4, if srtt < 1 then 1 else srtt)
        });
     var4 \<leftarrow> int32 (4 * rttval);
     let rto = of_int srtt + imax (kc_interval kcp) (of_int var4);
     Some (kcp\<lparr>kc_rx_rttval := rttval, kc_rx_srtt := srtt,
       kc_rx_rto := sint (ibound (of_int (kc_rx_minrto kcp)) rto IKCP_RTO_MAX)\<rparr>)
   }"

definition ikcp_shrink_buf :: "ikcpcb \<Rightarrow> ikcpcb" where
  "ikcp_shrink_buf kcp = kcp\<lparr>kc_snd_una := (case kc_snd_buf kcp of [] \<Rightarrow> kc_snd_nxt kcp | seg # _ \<Rightarrow> sg_sn seg)\<rparr>"

text \<open>The walk that takes out the segment \<open>sn\<close>, and how many segments it takes out.\<close>

fun remove_sn :: "uint \<Rightarrow> ikcpseg list \<Rightarrow> ikcpseg list \<times> uint" where
  "remove_sn sn [] = ([], 0)"
| "remove_sn sn (seg # p) =
     (if sn = sg_sn seg then (p, 1)
      else if itimediff sn (sg_sn seg) < 0 then (seg # p, 0)
      else case remove_sn sn p of (p, n) \<Rightarrow> (seg # p, n))"

definition outside_window :: "uint \<Rightarrow> ikcpcb \<Rightarrow> bool" where
  "outside_window sn kcp \<longleftrightarrow> itimediff sn (kc_snd_una kcp) < 0 \<or> 0 \<le> itimediff sn (kc_snd_nxt kcp)"

definition ikcp_parse_ack :: "uint \<Rightarrow> ikcpcb \<Rightarrow> ikcpcb" where
  "ikcp_parse_ack sn kcp =
     (if outside_window sn kcp then kcp
      else case remove_sn sn (kc_snd_buf kcp) of
        (buf, n) \<Rightarrow> kcp\<lparr>kc_snd_buf := buf, kc_nsnd_buf := kc_nsnd_buf kcp - n\<rparr>)"

fun drop_una :: "uint \<Rightarrow> ikcpseg list \<Rightarrow> ikcpcb \<Rightarrow> ikcpcb" where
  "drop_una una [] kcp = kcp\<lparr>kc_snd_buf := []\<rparr>"
| "drop_una una (seg # p) kcp =
     (if 0 < itimediff una (sg_sn seg) then drop_una una p (kcp\<lparr>kc_nsnd_buf := kc_nsnd_buf kcp - 1\<rparr>)
      else kcp\<lparr>kc_snd_buf := seg # p\<rparr>)"

definition ikcp_parse_una :: "uint \<Rightarrow> ikcpcb \<Rightarrow> ikcpcb" where
  "ikcp_parse_una una kcp = drop_una una (kc_snd_buf kcp) kcp"

fun count_skipped :: "uint \<Rightarrow> ikcpseg list \<Rightarrow> ikcpseg list" where
  "count_skipped sn [] = []"
| "count_skipped sn (seg # p) =
     (if itimediff sn (sg_sn seg) < 0 then seg # p
      else (if sn \<noteq> sg_sn seg then seg\<lparr>sg_fastack := sg_fastack seg + 1\<rparr> else seg) # count_skipped sn p)"

definition ikcp_parse_fastack :: "uint \<Rightarrow> ikcpcb \<Rightarrow> ikcpcb" where
  "ikcp_parse_fastack sn kcp =
     (if outside_window sn kcp then kcp else kcp\<lparr>kc_snd_buf := count_skipped sn (kc_snd_buf kcp)\<rparr>)"

text \<open>The loop \<open>for (newblock = 8; newblock < newsize; newblock <<= 1)\<close>, which may not end.\<close>

partial_function (option) grow_block :: "uint \<Rightarrow> uint \<Rightarrow> uint option" where
  "grow_block newsize newblock =
     (if newblock < newsize then grow_block newsize (push_bit 1 newblock) else Some newblock)"

declare grow_block.simps [code]

definition ikcp_ack_push :: "uint \<Rightarrow> uint \<Rightarrow> ikcpcb \<Rightarrow> ikcpcb option" where
  "ikcp_ack_push sn ts kcp = do {
     let newsize = kc_ackcount kcp + 1;
     kcp \<leftarrow> (if kc_ackblock kcp < newsize
       then do {
         newblock \<leftarrow> grow_block newsize 8;
         let old = take (unat (kc_ackcount kcp)) (kc_acklist kcp);
         Some (kcp\<lparr>kc_acklist := old @ replicate (unat newblock - length old) (0, 0), kc_ackblock := newblock\<rparr>)
       }
       else Some kcp);
     if length (kc_acklist kcp) \<le> unat (kc_ackcount kcp) then None
     else Some (kcp\<lparr>kc_acklist := (kc_acklist kcp)[unat (kc_ackcount kcp) := (sn, ts)],
       kc_ackcount := kc_ackcount kcp + 1\<rparr>)
   }"

definition ikcp_ack_get :: "nat \<Rightarrow> ikcpcb \<Rightarrow> (uint \<times> uint) option" where
  "ikcp_ack_get p kcp = (if p < length (kc_acklist kcp) then Some (kc_acklist kcp ! p) else None)"

subsection \<open>Data\<close>

text \<open>The walk backwards through \<open>rcv_buf\<close>, given from its end; \<open>None\<close> when the segment is already there.\<close>

fun insert_back :: "ikcpseg \<Rightarrow> ikcpseg list \<Rightarrow> ikcpseg list option" where
  "insert_back newseg [] = Some [newseg]"
| "insert_back newseg (seg # prev) =
     (if sg_sn seg = sg_sn newseg then None
      else if 0 < itimediff (sg_sn newseg) (sg_sn seg) then Some (newseg # seg # prev)
      else map_option (Cons seg) (insert_back newseg prev))"

definition ikcp_parse_data :: "ikcpseg \<Rightarrow> ikcpcb \<Rightarrow> ikcpcb" where
  "ikcp_parse_data newseg kcp =
     (if 0 \<le> itimediff (sg_sn newseg) (kc_rcv_nxt kcp + kc_rcv_wnd kcp) \<or> itimediff (sg_sn newseg) (kc_rcv_nxt kcp) < 0
      then kcp
      else let kcp = (case insert_back newseg (rev (kc_rcv_buf kcp)) of
             None \<Rightarrow> kcp
           | Some buf \<Rightarrow> kcp\<lparr>kc_rcv_buf := rev buf, kc_nrcv_buf := kc_nrcv_buf kcp + 1\<rparr>)
        in move_available (kc_rcv_buf kcp) kcp)"

subsection \<open>A datagram\<close>

text \<open>The fields of a header after the conversation number, as a segment that has no data yet, and
  what follows the header.\<close>

definition decode_header :: "uint \<Rightarrow> byte list \<Rightarrow> (ikcpseg \<times> byte list) option" where
  "decode_header conv p = do {
     (cmd, p) \<leftarrow> ikcp_decode8u p;
     (frg, p) \<leftarrow> ikcp_decode8u p;
     (wnd, p) \<leftarrow> ikcp_decode16u p;
     (ts, p) \<leftarrow> ikcp_decode32u p;
     (sn, p) \<leftarrow> ikcp_decode32u p;
     (una, p) \<leftarrow> ikcp_decode32u p;
     (len, p) \<leftarrow> ikcp_decode32u p;
     Some ((ikcp_segment_new [])\<lparr>sg_conv := conv, sg_cmd := ucast cmd, sg_frg := ucast frg, sg_wnd := ucast wnd,
       sg_ts := ts, sg_sn := sn, sg_una := una, sg_len := len\<rparr>, p)
   }"

text \<open>\<open>flag\<close>, \<open>maxack\<close> and \<open>latest_ts\<close>: \<open>None\<close> while \<open>flag\<close> is 0.\<close>

type_synonym acked = "(uint \<times> uint) option"

definition note_ack :: "uint \<Rightarrow> uint \<Rightarrow> acked \<Rightarrow> acked" where
  "note_ack sn ts acked = (case acked of
     None \<Rightarrow> Some (sn, ts)
   | Some (maxack, latest_ts) \<Rightarrow> if 0 < itimediff sn maxack then Some (sn, ts) else acked)"

definition input_ack :: "ikcpseg \<Rightarrow> ikcpcb \<Rightarrow> ikcpcb option" where
  "input_ack h kcp = do {
     kcp \<leftarrow> (if 0 \<le> itimediff (kc_current kcp) (sg_ts h)
       then ikcp_update_ack (itimediff (kc_current kcp) (sg_ts h)) kcp else Some kcp);
     Some (ikcp_shrink_buf (ikcp_parse_ack (sg_sn h) kcp))
   }"

definition input_push :: "ikcpseg \<Rightarrow> byte list \<Rightarrow> ikcpcb \<Rightarrow> ikcpcb option" where
  "input_push h data kcp =
     (if itimediff (sg_sn h) (kc_rcv_nxt kcp + kc_rcv_wnd kcp) < 0
      then do {
        kcp \<leftarrow> ikcp_ack_push (sg_sn h) (sg_ts h) kcp;
        if 0 \<le> itimediff (sg_sn h) (kc_rcv_nxt kcp)
        then if length data < unat (sg_len h) then None
          else Some (ikcp_parse_data (h\<lparr>sg_data := take (unat (sg_len h)) data\<rparr>) kcp)
        else Some kcp
      }
      else Some kcp)"

text \<open>What the body of the loop does with a segment that passed the checks.\<close>

definition input_segment :: "ikcpseg \<Rightarrow> byte list \<Rightarrow> acked \<Rightarrow> ikcpcb \<Rightarrow> (acked \<times> ikcpcb) option" where
  "input_segment h data acked kcp =
     (let kcp = ikcp_shrink_buf (ikcp_parse_una (sg_una h) (kcp\<lparr>kc_rmt_wnd := sg_wnd h\<rparr>))
      in if sg_cmd h = IKCP_CMD_ACK then map_option (Pair (note_ack (sg_sn h) (sg_ts h) acked)) (input_ack h kcp)
         else if sg_cmd h = IKCP_CMD_PUSH then map_option (Pair acked) (input_push h data kcp)
         else if sg_cmd h = IKCP_CMD_WASK then Some (acked, kcp\<lparr>kc_probe := kc_probe kcp OR IKCP_ASK_TELL\<rparr>)
         else Some (acked, kcp))"

definition known_cmd :: "uint \<Rightarrow> bool" where
  "known_cmd cmd \<longleftrightarrow> cmd = IKCP_CMD_PUSH \<or> cmd = IKCP_CMD_ACK \<or> cmd = IKCP_CMD_WASK \<or> cmd = IKCP_CMD_WINS"

function input_loop :: "byte list \<Rightarrow> int \<Rightarrow> acked \<Rightarrow> ikcpcb \<Rightarrow> (int \<times> acked \<times> ikcpcb) option" where
  "input_loop data sz acked kcp =
     (if sz < sint IKCP_OVERHEAD then Some (0, acked, kcp)
      else case ikcp_decode32u data of
        None \<Rightarrow> None
      | Some (conv, p) \<Rightarrow>
          if conv \<noteq> kc_conv kcp then Some (- 1, acked, kcp)
          else case decode_header conv p of
            None \<Rightarrow> None
          | Some (h, data) \<Rightarrow>
              if sz - uint IKCP_OVERHEAD < uint (sg_len h) \<or> sint (sg_len h) < 0 then Some (- 2, acked, kcp)
              else if \<not> known_cmd (sg_cmd h) then Some (- 3, acked, kcp)
              else case input_segment h data acked kcp of
                None \<Rightarrow> None
              | Some (acked, kcp) \<Rightarrow>
                  input_loop (drop (unat (sg_len h)) data) (sz - uint IKCP_OVERHEAD - uint (sg_len h)) acked kcp)"
  by pat_completeness auto

termination
proof (relation "measure (\<lambda>(data, sz, acked, kcp). nat sz)")
  fix sz :: int and h :: ikcpseg
  assume "\<not> sz < sint IKCP_OVERHEAD"
  then have "24 \<le> sz" by (simp add: IKCP_OVERHEAD_def)
  moreover have "0 \<le> uint (sg_len h)" by simp
  ultimately have "sz - 24 - uint (sg_len h) < sz" "0 < sz" by linarith+
  then show "((drop (unat (sg_len h)) data, sz - uint IKCP_OVERHEAD - uint (sg_len h), acked', kcp'), data', sz, acked, kcp)
      \<in> measure (\<lambda>(data, sz, acked, kcp). nat sz)" for data acked' kcp' data' acked kcp
    by (simp add: IKCP_OVERHEAD_def)
qed simp

declare input_loop.simps [simp del]

text \<open>The congestion window opens when the oldest segment was acknowledged.\<close>

definition open_cwnd :: "ikcpcb \<Rightarrow> ikcpcb option" where
  "open_cwnd kcp =
     (if kc_cwnd kcp < kc_rmt_wnd kcp then do {
        let mss = kc_mss kcp;
        kcp \<leftarrow> (if kc_cwnd kcp < kc_ssthresh kcp
          then Some (kcp\<lparr>kc_cwnd := kc_cwnd kcp + 1, kc_incr := kc_incr kcp + mss\<rparr>)
          else let incr = (if kc_incr kcp < mss then mss else kc_incr kcp)
            in if incr = 0 then None
               else let incr = incr + ((mss * mss) div incr + mss div 16)
                 in Some (kcp\<lparr>kc_incr := incr,
                      kc_cwnd := if (kc_cwnd kcp + 1) * mss \<le> incr then (incr + mss - 1) div (if 0 < mss then mss else 1)
                        else kc_cwnd kcp\<rparr>));
        Some (if kc_rmt_wnd kcp < kc_cwnd kcp
          then kcp\<lparr>kc_cwnd := kc_rmt_wnd kcp, kc_incr := kc_rmt_wnd kcp * mss\<rparr> else kcp)
      }
      else Some kcp)"

definition ikcp_input :: "byte list \<Rightarrow> int \<Rightarrow> ikcpcb \<Rightarrow> (int \<times> ikcpcb) option" where
  "ikcp_input data sz kcp =
     (let prev_una = kc_snd_una kcp
      in if sint (of_int sz :: uint) < sint IKCP_OVERHEAD then Some (- 1, kcp)
         else do {
           (r, acked, kcp) \<leftarrow> input_loop data sz None kcp;
           if r \<noteq> 0 then Some (r, kcp)
           else do {
             let kcp = (case acked of None \<Rightarrow> kcp | Some (maxack, latest_ts) \<Rightarrow> ikcp_parse_fastack maxack kcp);
             kcp \<leftarrow> (if 0 < itimediff (kc_snd_una kcp) prev_una then open_cwnd kcp else Some kcp);
             Some (0, kcp)
           }
         })"

end
