(* ===== verification/IkcpFlush.thy ===== *)
theory IkcpFlush
  imports IkcpInput
begin

text \<open>
  What ikcp.c sends: \<open>ikcp_flush\<close>, and \<open>ikcp_update\<close> and \<open>ikcp_check\<close>, which say when it runs.  The
  buffer in which a datagram is put together and the datagrams that were given to the output
  function are the state \<open>outbox\<close> of its loops; a byte written past the buffer's end is \<open>None\<close>.
\<close>

unbundle bit_operations_syntax

definition ikcp_wnd_unused :: "ikcpcb \<Rightarrow> int" where
  "ikcp_wnd_unused kcp = (if kc_nrcv_que kcp < kc_rcv_wnd kcp then sint (kc_rcv_wnd kcp - kc_nrcv_que kcp) else 0)"

subsection \<open>The output buffer\<close>

type_synonym outbox = "byte list \<times> byte list list"

definition ikcp_output :: "ikcpcb \<Rightarrow> outbox \<Rightarrow> outbox option" where
  "ikcp_output kcp box = (case box of (ptr, sent) \<Rightarrow>
     if \<not> kc_output kcp then None else if ptr = [] then Some (ptr, sent) else Some (ptr, sent @ [ptr]))"

text \<open>The test before each segment: when it does not fit, what is in the buffer goes out.\<close>

definition make_room :: "int \<Rightarrow> ikcpcb \<Rightarrow> outbox \<Rightarrow> outbox option" where
  "make_room need kcp box =
     (if sint (kc_mtu kcp) < int (length (fst box)) + need
      then map_option (\<lambda>(ptr, sent). ([], sent)) (ikcp_output kcp box) else Some box)"

definition put_bytes :: "byte list \<Rightarrow> ikcpcb \<Rightarrow> outbox \<Rightarrow> outbox option" where
  "put_bytes bs kcp box =
     (if kc_buffer kcp < length (fst box) + length bs then None else Some (fst box @ bs, snd box))"

definition put_header :: "ikcpseg \<Rightarrow> ikcpcb \<Rightarrow> outbox \<Rightarrow> outbox option" where
  "put_header seg kcp box = do {
     box \<leftarrow> make_room (sint IKCP_OVERHEAD) kcp box;
     put_bytes (ikcp_encode_seg seg) kcp box
   }"

subsection \<open>The parts of a flush\<close>

text \<open>The acknowledgements; the header keeps the numbers of the last one.\<close>

fun flush_acks :: "nat list \<Rightarrow> ikcpcb \<Rightarrow> ikcpseg \<Rightarrow> outbox \<Rightarrow> (ikcpseg \<times> outbox) option" where
  "flush_acks [] kcp seg box = Some (seg, box)"
| "flush_acks (i # is) kcp seg box = do {
     box \<leftarrow> make_room (sint IKCP_OVERHEAD) kcp box;
     (sn, ts) \<leftarrow> ikcp_ack_get i kcp;
     let seg = seg\<lparr>sg_sn := sn, sg_ts := ts\<rparr>;
     box \<leftarrow> put_bytes (ikcp_encode_seg seg) kcp box;
     flush_acks is kcp seg box
   }"

definition probe_window :: "ikcpcb \<Rightarrow> ikcpcb" where
  "probe_window kcp =
     (if kc_rmt_wnd kcp = 0
      then if kc_probe_wait kcp = 0
        then kcp\<lparr>kc_probe_wait := IKCP_PROBE_INIT, kc_ts_probe := kc_current kcp + IKCP_PROBE_INIT\<rparr>
        else if 0 \<le> itimediff (kc_current kcp) (kc_ts_probe kcp)
        then let wait = (if kc_probe_wait kcp < IKCP_PROBE_INIT then IKCP_PROBE_INIT else kc_probe_wait kcp);
                 wait = wait + wait div 2;
                 wait = (if IKCP_PROBE_LIMIT < wait then IKCP_PROBE_LIMIT else wait)
          in kcp\<lparr>kc_probe_wait := wait, kc_ts_probe := kc_current kcp + wait, kc_probe := kc_probe kcp OR IKCP_ASK_SEND\<rparr>
        else kcp
      else kcp\<lparr>kc_ts_probe := 0, kc_probe_wait := 0\<rparr>)"

definition flush_probes :: "ikcpcb \<Rightarrow> ikcpseg \<Rightarrow> outbox \<Rightarrow> outbox option" where
  "flush_probes kcp seg box = do {
     box \<leftarrow> (if kc_probe kcp AND IKCP_ASK_SEND \<noteq> 0 then put_header (seg\<lparr>sg_cmd := IKCP_CMD_WASK\<rparr>) kcp box else Some box);
     if kc_probe kcp AND IKCP_ASK_TELL \<noteq> 0 then put_header (seg\<lparr>sg_cmd := IKCP_CMD_WINS\<rparr>) kcp box else Some box
   }"

definition flush_window :: "ikcpcb \<Rightarrow> uint" where
  "flush_window kcp =
     (let cwnd = imin (kc_snd_wnd kcp) (kc_rmt_wnd kcp) in if kc_nocwnd kcp = 0 then imin (kc_cwnd kcp) cwnd else cwnd)"

text \<open>The loop from \<open>snd_queue\<close> to \<open>snd_buf\<close>.\<close>

fun move_to_buf :: "uint \<Rightarrow> uint \<Rightarrow> ikcpseg list \<Rightarrow> ikcpcb \<Rightarrow> ikcpcb" where
  "move_to_buf cwnd wnd [] kcp = kcp\<lparr>kc_snd_queue := []\<rparr>"
| "move_to_buf cwnd wnd (newseg # q) kcp =
     (if itimediff (kc_snd_nxt kcp) (kc_snd_una kcp + cwnd) < 0
      then move_to_buf cwnd wnd q (kcp\<lparr>kc_nsnd_que := kc_nsnd_que kcp - 1, kc_nsnd_buf := kc_nsnd_buf kcp + 1,
        kc_snd_nxt := kc_snd_nxt kcp + 1,
        kc_snd_buf := kc_snd_buf kcp @ [newseg\<lparr>sg_conv := kc_conv kcp, sg_cmd := IKCP_CMD_PUSH, sg_wnd := wnd,
          sg_ts := kc_current kcp, sg_sn := kc_snd_nxt kcp, sg_una := kc_rcv_nxt kcp, sg_resendts := kc_current kcp,
          sg_rto := of_int (kc_rx_rto kcp), sg_fastack := 0, sg_xmit := 0\<rparr>]\<rparr>)
      else kcp\<lparr>kc_snd_queue := newseg # q\<rparr>)"

datatype send_reason = Quiet | First | Timeout | Fast

text \<open>Whether a segment of \<open>snd_buf\<close> is to be sent now, and what that does to it.\<close>

definition why_send :: "uint \<Rightarrow> ikcpcb \<Rightarrow> ikcpseg \<Rightarrow> send_reason" where
  "why_send resent kcp seg =
     (if sg_xmit seg = 0 then First
      else if 0 \<le> itimediff (kc_current kcp) (sg_resendts seg) then Timeout
      else if resent \<le> sg_fastack seg \<and> (sint (sg_xmit seg) \<le> kc_fastlimit kcp \<or> kc_fastlimit kcp \<le> 0) then Fast
      else Quiet)"

definition backed_off :: "ikcpcb \<Rightarrow> uint \<Rightarrow> uint" where
  "backed_off kcp rto =
     (if kc_nodelay kcp = 0 then rto + imax rto (of_int (kc_rx_rto kcp))
      else let step = (if kc_nodelay kcp < 2 then sint rto else kc_rx_rto kcp) in rto + of_int (step sdiv 2))"

definition resend_update :: "uint \<Rightarrow> ikcpcb \<Rightarrow> ikcpseg \<Rightarrow> send_reason \<Rightarrow> ikcpseg" where
  "resend_update rtomin kcp seg why = (case why of
     Quiet \<Rightarrow> seg
   | First \<Rightarrow> seg\<lparr>sg_xmit := sg_xmit seg + 1, sg_rto := of_int (kc_rx_rto kcp),
       sg_resendts := kc_current kcp + of_int (kc_rx_rto kcp) + rtomin\<rparr>
   | Timeout \<Rightarrow> seg\<lparr>sg_xmit := sg_xmit seg + 1, sg_rto := backed_off kcp (sg_rto seg),
       sg_resendts := kc_current kcp + backed_off kcp (sg_rto seg)\<rparr>
   | Fast \<Rightarrow> seg\<lparr>sg_xmit := sg_xmit seg + 1, sg_fastack := 0, sg_resendts := kc_current kcp + sg_rto seg\<rparr>)"

text \<open>A segment goes into the output buffer with fresh header fields, its data after it.\<close>

definition put_segment :: "ikcpseg \<Rightarrow> ikcpcb \<Rightarrow> outbox \<Rightarrow> outbox option" where
  "put_segment seg kcp box = do {
     box \<leftarrow> make_room (sint (IKCP_OVERHEAD + sg_len seg)) kcp box;
     box \<leftarrow> put_bytes (ikcp_encode_seg seg) kcp box;
     if length (sg_data seg) < unat (sg_len seg) then None
     else put_bytes (take (unat (sg_len seg)) (sg_data seg)) kcp box
   }"

text \<open>The loop over \<open>snd_buf\<close>: the segments it went over, and the counters \<open>change\<close> and \<open>lost\<close>.\<close>

fun flush_segments :: "uint \<Rightarrow> uint \<Rightarrow> uint \<Rightarrow> ikcpseg list \<Rightarrow> ikcpcb \<Rightarrow> nat \<Rightarrow> bool \<Rightarrow> outbox \<Rightarrow>
    (ikcpseg list \<times> ikcpcb \<times> nat \<times> bool \<times> outbox) option" where
  "flush_segments resent rtomin wnd [] kcp change lost box = Some ([], kcp, change, lost, box)"
| "flush_segments resent rtomin wnd (seg # p) kcp change lost box =
     (let why = why_send resent kcp seg;
          seg = resend_update rtomin kcp seg why;
          kcp = (if why = Timeout then kcp\<lparr>kc_xmit := kc_xmit kcp + 1\<rparr> else kcp);
          lost = (lost \<or> why = Timeout);
          change = (if why = Fast then change + 1 else change)
      in do {
        (seg, kcp, box) \<leftarrow>
          (if why = Quiet then Some (seg, kcp, box)
           else do {
             let seg = seg\<lparr>sg_ts := kc_current kcp, sg_wnd := wnd, sg_una := kc_rcv_nxt kcp\<rparr>;
             box \<leftarrow> put_segment seg kcp box;
             Some (seg, if kc_dead_link kcp \<le> sg_xmit seg then kcp\<lparr>kc_state := - 1\<rparr> else kcp, box)
           });
        (p, r) \<leftarrow> flush_segments resent rtomin wnd p kcp change lost box;
        Some (seg # p, r)
      })"

definition halved :: "uint \<Rightarrow> uint" where
  "halved n = (if n div 2 < IKCP_THRESH_MIN then IKCP_THRESH_MIN else n div 2)"

text \<open>The end of a flush: what losses do to the congestion window.\<close>

definition adjust_cwnd :: "uint \<Rightarrow> uint \<Rightarrow> nat \<Rightarrow> bool \<Rightarrow> ikcpcb \<Rightarrow> ikcpcb" where
  "adjust_cwnd cwnd resent change lost kcp =
     (let kcp = (if change \<noteq> 0
            then let thresh = halved (kc_snd_nxt kcp - kc_snd_una kcp)
              in kcp\<lparr>kc_ssthresh := thresh, kc_cwnd := thresh + resent, kc_incr := (thresh + resent) * kc_mss kcp\<rparr>
            else kcp);
          kcp = (if lost then kcp\<lparr>kc_ssthresh := halved cwnd, kc_cwnd := 1, kc_incr := kc_mss kcp\<rparr> else kcp)
      in if kc_cwnd kcp < 1 then kcp\<lparr>kc_cwnd := 1, kc_incr := kc_mss kcp\<rparr> else kcp)"

definition flush_header :: "ikcpcb \<Rightarrow> ikcpseg" where
  "flush_header kcp = (ikcp_segment_new [])\<lparr>sg_conv := kc_conv kcp, sg_cmd := IKCP_CMD_ACK,
     sg_wnd := of_int (ikcp_wnd_unused kcp), sg_una := kc_rcv_nxt kcp\<rparr>"

definition ikcp_flush :: "ikcpcb \<Rightarrow> (byte list list \<times> ikcpcb) option" where
  "ikcp_flush kcp =
     (if kc_updated kcp = 0 then Some ([], kcp)
      else do {
        (seg, box) \<leftarrow> flush_acks [0..<nat (sint (kc_ackcount kcp))] kcp (flush_header kcp) ([], []);
        let kcp = probe_window (kcp\<lparr>kc_ackcount := 0\<rparr>);
        box \<leftarrow> flush_probes kcp seg box;
        let kcp = kcp\<lparr>kc_probe := 0\<rparr>;
        let cwnd = flush_window kcp;
        let kcp = move_to_buf cwnd (sg_wnd seg) (kc_snd_queue kcp) kcp;
        let resent = (if 0 < kc_fastresend kcp then of_int (kc_fastresend kcp) else - 1);
        let rtomin = (if kc_nodelay kcp = 0 then of_int (kc_rx_rto kcp div 8) else 0);
        (buf, kcp, change, lost, box) \<leftarrow> flush_segments resent rtomin (sg_wnd seg) (kc_snd_buf kcp) kcp 0 False box;
        let kcp = kcp\<lparr>kc_snd_buf := buf\<rparr>;
        box \<leftarrow> (if 0 < length (fst box) then ikcp_output kcp box else Some box);
        Some (snd box, adjust_cwnd cwnd resent change lost kcp)
      })"

subsection \<open>When to flush\<close>

definition ikcp_update :: "uint \<Rightarrow> ikcpcb \<Rightarrow> (byte list list \<times> ikcpcb) option" where
  "ikcp_update current kcp =
     (let kcp = kcp\<lparr>kc_current := current\<rparr>;
          kcp = (if kc_updated kcp = 0 then kcp\<lparr>kc_updated := 1, kc_ts_flush := current\<rparr> else kcp);
          slap = itimediff current (kc_ts_flush kcp);
          late = (10000 \<le> slap \<or> slap < - 10000);
          kcp = (if late then kcp\<lparr>kc_ts_flush := current\<rparr> else kcp);
          slap = (if late then 0 else slap)
      in if 0 \<le> slap
         then let next = kc_ts_flush kcp + kc_interval kcp;
                  next = (if 0 \<le> itimediff current next then current + kc_interval kcp else next)
           in ikcp_flush (kcp\<lparr>kc_ts_flush := next\<rparr>)
         else Some ([], kcp))"

text \<open>The loop of \<open>ikcp_check\<close>: \<open>None\<close> is its early return.\<close>

fun check_packets :: "uint \<Rightarrow> ikcpseg list \<Rightarrow> int \<Rightarrow> int option" where
  "check_packets current [] tm_packet = Some tm_packet"
| "check_packets current (seg # p) tm_packet =
     (let diff = itimediff (sg_resendts seg) current
      in if diff \<le> 0 then None else check_packets current p (if diff < tm_packet then diff else tm_packet))"

definition ikcp_check :: "uint \<Rightarrow> ikcpcb \<Rightarrow> uint" where
  "ikcp_check current kcp =
     (if kc_updated kcp = 0 then current
      else let slap = itimediff current (kc_ts_flush kcp);
               ts_flush = (if 10000 \<le> slap \<or> slap < - 10000 then current else kc_ts_flush kcp)
        in if 0 \<le> itimediff current ts_flush then current
           else let tm_flush = itimediff ts_flush current
             in case check_packets current (kc_snd_buf kcp) 2147483647 of
                  None \<Rightarrow> current
                | Some tm_packet \<Rightarrow>
                    let minimal = of_int (if tm_packet < tm_flush then tm_packet else tm_flush)
                    in current + (if kc_interval kcp \<le> minimal then kc_interval kcp else minimal))"

end
