(* ===== verification/KcpWire.thy ===== *)
theory KcpWire
  imports IkcpFlush
begin

text \<open>
  The segments of KCP on the wire, and the arithmetic of sequence numbers: what \<open>ikcp_encode_seg\<close> writes
  is what \<open>ikcp_input\<close> reads, and \<open>_itimediff\<close> is the difference of numbers below \<open>2 ^ 31\<close>.
\<close>

unbundle bit_operations_syntax

lemma sint_word_of_int32:
  assumes "- 2147483648 \<le> n" "n < 2147483648"
  shows "sint (word_of_int n :: uint) = n"
proof -
  have p: "(2 :: int) ^ 31 = 2147483648" by simp
  have "- (2 ^ 31) \<le> n" "n < 2 ^ 31" using assms unfolding p by linarith+
  then show ?thesis by (simp only: sint_sbintrunc') (simp add: signed_take_bit_int_eq_self)
qed

lemma unat_of_nat32: "n < 4294967296 \<Longrightarrow> unat (of_nat n :: uint) = n"
  by (simp add: unat_of_nat take_bit_nat_eq_self)

lemma sint_of_nat32: "n < 2147483648 \<Longrightarrow> sint (of_nat n :: uint) = int n"
  using sint_word_of_int32 [of "int n"] by simp

lemma sint_unat32: "unat w < 2147483648 \<Longrightarrow> sint (w :: uint) = int (unat w)"
  using sint_of_nat32 [of "unat w"] by simp

lemma diff_bounds:
  fixes a b :: nat
  assumes "a < 2147483648" "b < 2147483648"
  shows "- 2147483648 \<le> int a - int b" "int a - int b < 2147483648"
  using assms by linarith+

lemma itimediff_small:
  assumes "unat a < 2147483648" "unat b < 2147483648"
  shows "itimediff a b = int (unat a) - int (unat b)"
proof -
  have "a - b = word_of_int (int (unat a) - int (unat b))" by simp
  then show ?thesis unfolding itimediff_def
    using assms sint_word_of_int32 [of "int (unat a) - int (unat b)"] by (metis (no_types) diff_bounds)
qed

lemma decode16_encode: "ikcp_decode16u (ikcp_encode16u w @ p) = Some (w, p)"
  by (simp add: ikcp_encode16u_def bytes16_def)

lemma decode32_encode: "ikcp_decode32u (ikcp_encode32u w @ p) = Some (w, p)"
  by (simp add: ikcp_encode32u_def bytes32_def word32_bytes)

lemma decode8_encode: "ikcp_decode8u (ikcp_encode8u c @ p) = Some (c, p)"
  by (simp add: ikcp_encode8u_def)

lemmas decode_encode = decode8_encode decode16_encode decode32_encode

lemma length_encode_seg [simp]: "length (ikcp_encode_seg seg) = 24"
  by (simp add: ikcp_encode_seg_def ikcp_encode32u_def ikcp_encode16u_def ikcp_encode8u_def bytes32_def bytes16_def)

text \<open>What the other side reads of a segment: the fields that are sent, at the width they are sent with.\<close>

definition as_read :: "ikcpseg \<Rightarrow> ikcpseg" where
  "as_read seg = (ikcp_segment_new [])\<lparr>sg_conv := sg_conv seg, sg_cmd := ucast (ucast (sg_cmd seg) :: byte),
     sg_frg := ucast (ucast (sg_frg seg) :: byte), sg_wnd := ucast (ucast (sg_wnd seg) :: 16 word),
     sg_ts := sg_ts seg, sg_sn := sg_sn seg, sg_una := sg_una seg, sg_len := sg_len seg\<rparr>"

lemma decode_header_encode:
  "\<exists>p. ikcp_decode32u (ikcp_encode_seg seg @ data) = Some (sg_conv seg, p) \<and>
     decode_header (sg_conv seg) p = Some (as_read seg, data)"
proof -
  define p where "p = ikcp_encode8u (ucast (sg_cmd seg)) @ ikcp_encode8u (ucast (sg_frg seg)) @
     ikcp_encode16u (ucast (sg_wnd seg)) @ ikcp_encode32u (sg_ts seg) @ ikcp_encode32u (sg_sn seg) @
     ikcp_encode32u (sg_una seg) @ ikcp_encode32u (sg_len seg) @ data"
  have "ikcp_encode_seg seg @ data = ikcp_encode32u (sg_conv seg) @ p"
    by (simp add: ikcp_encode_seg_def p_def)
  moreover have "decode_header (sg_conv seg) p = Some (as_read seg, data)"
    by (simp add: decode_header_def p_def decode_encode as_read_def)
  ultimately show ?thesis by (auto simp: decode32_encode)
qed

end
