(* ===== verification/KcpStream.thy ===== *)
theory KcpStream
  imports KcpWire
begin

text \<open>
  What the user of KCP sees of a message: \<open>ikcp_send\<close> cuts it into fragments numbered downwards,
  \<open>ikcp_recv\<close> puts one message together again.  The reference is \<open>fragments\<close>, a function on lists.
\<close>

type_synonym fragment = "uint \<times> byte list"

fun chunks :: "nat \<Rightarrow> byte list \<Rightarrow> byte list list" where
  "chunks m xs = (if m = 0 \<or> length xs \<le> m then [xs] else take m xs # chunks m (drop m xs))"

declare chunks.simps [simp del]

text \<open>The last fragment has the number 0.\<close>

fun number_down :: "byte list list \<Rightarrow> fragment list" where
  "number_down [] = []"
| "number_down (c # cs) = (of_nat (length cs), c) # number_down cs"

definition fragments :: "nat \<Rightarrow> byte list \<Rightarrow> fragment list" where
  "fragments m msg = number_down (chunks m msg)"

definition payload :: "ikcpseg \<Rightarrow> fragment" where
  "payload seg = (sg_frg seg, sg_data seg)"

definition len_ok :: "ikcpseg \<Rightarrow> bool" where
  "len_ok seg \<longleftrightarrow> unat (sg_len seg) = length (sg_data seg)"

lemma payload_sel [simp]: "fst (payload seg) = sg_frg seg" "snd (payload seg) = sg_data seg"
  by (simp_all add: payload_def)

lemma length_number_down [simp]: "length (number_down cs) = length cs"
  by (induction cs) simp_all

lemma map_snd_number_down [simp]: "map snd (number_down cs) = cs"
  by (induction cs) simp_all

lemma concat_chunks: "concat (chunks m xs) = xs"
proof (induction m xs rule: chunks.induct)
  case (1 m xs)
  then show ?case by (subst chunks.simps) simp
qed

lemma chunks_not_Nil [simp]: "chunks m xs \<noteq> []"
  by (subst chunks.simps) simp

lemma div_round_up:
  fixes m n :: nat
  assumes "0 < m" "0 < n"
  shows "n \<le> m \<Longrightarrow> (n + m - 1) div m = 1" and "m < n \<Longrightarrow> (n + m - 1) div m = Suc ((n - m + m - 1) div m)"
proof -
  assume "n \<le> m"
  then show "(n + m - 1) div m = 1" using assms by (intro div_nat_eqI) auto
next
  assume "m < n"
  then have "n + m - 1 = m + (n - m + m - 1)" by linarith
  then show "(n + m - 1) div m = Suc ((n - m + m - 1) div m)" using assms(1) by (simp only: div_add_self1)
qed

lemma length_chunks:
  assumes "0 < m"
  shows "length (chunks m xs) = (if xs = [] then 1 else (length xs + m - 1) div m)"
  using assms
proof (induction m xs rule: chunks.induct)
  case (1 m xs)
  show ?case
  proof (cases "length xs \<le> m")
    case True
    then have "xs \<noteq> [] \<Longrightarrow> (length xs + m - 1) div m = 1" using 1(2) by (intro div_round_up(1)) auto
    then show ?thesis using True by (subst chunks.simps) auto
  next
    case False
    then have "drop m xs \<noteq> []" "xs \<noteq> []" "length (drop m xs) = length xs - m" by auto
    moreover have "(length xs + m - 1) div m = Suc ((length xs - m + m - 1) div m)"
      using 1(2) False by (intro div_round_up(2)) auto
    ultimately show ?thesis using 1 False by (subst chunks.simps) simp
  qed
qed

subsection \<open>Sending\<close>

definition fragment_seg :: "fragment \<Rightarrow> ikcpseg" where
  "fragment_seg f = (ikcp_segment_new (snd f))\<lparr>sg_frg := fst f\<rparr>"

lemma payload_fragment_seg [simp]: "payload (fragment_seg f) = f"
  by (simp add: fragment_seg_def payload_def ikcp_segment_new_def)

lemma send_fragments_step:
  assumes "sint (kc_mss kcp) = int m" "m < length xs" "kc_stream kcp = 0"
  shows "send_fragments (Suc n) xs (int (length xs)) kcp = send_fragments n (drop m xs) (int (length (drop m xs)))
    (kcp\<lparr>kc_snd_queue := kc_snd_queue kcp @ [fragment_seg (of_nat n, take m xs)], kc_nsnd_que := kc_nsnd_que kcp + 1\<rparr>)"
  using assms by (simp add: fragment_seg_def of_nat_diff)

lemma send_fragments_chunks:
  assumes "kc_mss kcp = of_nat m" "0 < m" "m < 2147483648" "kc_stream kcp = 0"
  shows "send_fragments (length (chunks m xs)) xs (int (length xs)) kcp =
    Some (kcp\<lparr>kc_snd_queue := kc_snd_queue kcp @ map fragment_seg (fragments m xs),
      kc_nsnd_que := kc_nsnd_que kcp + of_nat (length (chunks m xs))\<rparr>)"
  using assms
proof (induction m xs arbitrary: kcp rule: chunks.induct)
  case (1 m xs)
  have m: "sint (of_nat m :: uint) = int m"
    using 1(4) by (rule sint_of_nat32)
  show ?case
  proof (cases "length xs \<le> m")
    case True
    then have "chunks m xs = [xs]" by (subst chunks.simps) simp
    then show ?thesis using 1(2,4,5) True
      by (simp add: m fragments_def fragment_seg_def)
  next
    case False
    then have c: "chunks m xs = take m xs # chunks m (drop m xs)" using 1(3) by (subst chunks.simps) simp
    let ?seg = "fragment_seg (of_nat (length (chunks m (drop m xs))), take m xs)"
    let ?kcp = "kcp\<lparr>kc_snd_queue := kc_snd_queue kcp @ [?seg], kc_nsnd_que := kc_nsnd_que kcp + 1\<rparr>"
    have "send_fragments (length (chunks m (drop m xs))) (drop m xs) (int (length (drop m xs))) ?kcp =
      Some (?kcp\<lparr>kc_snd_queue := kc_snd_queue ?kcp @ map fragment_seg (fragments m (drop m xs)),
        kc_nsnd_que := kc_nsnd_que ?kcp + of_nat (length (chunks m (drop m xs)))\<rparr>)"
      using 1 False by (intro 1(1)) auto
    moreover have "send_fragments (length (chunks m xs)) xs (int (length xs)) kcp =
        send_fragments (length (chunks m (drop m xs))) (drop m xs) (int (length (drop m xs))) ?kcp"
      unfolding c list.size add_Suc_right add_0_right using 1(2,5) False m by (intro send_fragments_step) auto
    ultimately show ?thesis by (simp add: c fragments_def add.assoc)
  qed
qed

lemma fragment_count_chunks:
  assumes "kc_mss kcp = of_nat m" "0 < m" "m < 2147483648" "length xs < 2147483648"
  shows "fragment_count (int (length xs)) kcp = int (length (chunks m xs))"
proof -
  have m: "sint (of_nat m :: uint) = int m"
    using assms(3) by (rule sint_of_nat32)
  show ?thesis
  proof (cases "length xs \<le> m")
    case True
    then show ?thesis using assms by (simp add: fragment_count_def m) (subst chunks.simps, simp)
  next
    case False
    define w :: uint where "w = (of_nat (length xs) + of_nat m - 1) div of_nat m"
    have "unat (of_nat (length xs) + of_nat m - 1 :: uint) = length xs + m - 1"
      using assms False by (subst unat_dec) (simp_all add: unat_add_small unat_of_nat)
    then have "unat w = (length xs + m - 1) div m"
      using assms(3) by (simp add: w_def unat_div unat_of_nat)
    moreover have "(length xs + m - 1) div m < Suc (length xs)"
      using assms(2) False by (intro less_mult_imp_div_less) (cases m, auto)
    ultimately have "sint w = int (length (chunks m xs))" using assms False
      by (subst sint_unat32) (auto simp: length_chunks)
    then show ?thesis using assms(1) False by (simp add: fragment_count_def m w_def)
  qed
qed

lemma of_nat_uint_nonzero: "n \<noteq> 0 \<Longrightarrow> n < 4294967296 \<Longrightarrow> (of_nat n :: uint) \<noteq> 0"
  by (simp add: of_nat_eq_uint)

lemma send_message:
  assumes "kc_mss kcp = of_nat m" "0 < m" "m < 2147483648" "kc_stream kcp = 0" "length msg < 2147483648"
  shows "ikcp_send msg (int (length msg)) kcp =
    (if 128 \<le> length (chunks m msg) then Some (- 2, kcp)
     else Some (0, kcp\<lparr>kc_snd_queue := kc_snd_queue kcp @ map fragment_seg (fragments m msg),
       kc_nsnd_que := kc_nsnd_que kcp + of_nat (length (chunks m msg))\<rparr>))"
proof -
  have "0 < kc_mss kcp"
    using assms(1-3) of_nat_uint_nonzero [of m] by (simp add: word_greater_zero_iff)
  then show ?thesis using assms(4) fragment_count_chunks [OF assms(1-3,5)] send_fragments_chunks [OF assms(1-4)]
    by (simp add: ikcp_send_def IKCP_WND_RCV_def)
qed

subsection \<open>Receiving\<close>

lemma payload_eq: "payload seg = f \<longleftrightarrow> sg_frg seg = fst f \<and> sg_data seg = snd f"
  by (auto simp: payload_def)

lemma number_down_head:
  assumes "cs \<noteq> []" "length (c # cs) < 4294967296"
  shows "(of_nat (length cs) :: uint) \<noteq> 0"
  using assms by (intro of_nat_uint_nonzero) auto

lemma of_nat_length_len_ok: "len_ok seg \<Longrightarrow> of_nat (length (sg_data seg)) = sg_len seg"
  unfolding len_ok_def by (drule arg_cong [of _ _ "of_nat :: nat \<Rightarrow> uint"]) simp

lemma peek_length_message:
  assumes "map payload segs = number_down cs" "cs \<noteq> []" "length cs < 4294967296" "\<forall>seg \<in> set segs. len_ok seg"
  shows "peek_length (segs @ rest) n = n + of_nat (length (concat cs))"
  using assms
proof (induction cs arbitrary: segs n)
  case (Cons c cs)
  then obtain seg segs' where s: "segs = seg # segs'" "sg_frg seg = of_nat (length cs)" "sg_data seg = c"
    "map payload segs' = number_down cs"
    by (auto simp: map_eq_Cons_conv payload_eq)
  show ?case
  proof (cases "cs = []")
    case True
    then show ?thesis using Cons.prems s of_nat_length_len_ok [of seg] by (auto simp: Let_def)
  next
    case False
    then have "sg_frg seg \<noteq> 0" using number_down_head Cons.prems(3) s by metis
    moreover have "peek_length (segs' @ rest) (n + sg_len seg) = n + sg_len seg + of_nat (length (concat cs))"
      using Cons False s by (intro Cons.IH) auto
    ultimately show ?thesis using Cons.prems s by (simp add: Let_def of_nat_length_len_ok [symmetric] add.assoc)
  qed
qed simp

lemma merge_message:
  assumes "map payload segs = number_down cs" "cs \<noteq> []" "length cs < 4294967296" "\<forall>seg \<in> set segs. len_ok seg"
  shows "merge_fragments peek (segs @ rest) buf n kcp = Some (buf @ concat cs, n + of_nat (length (concat cs)),
    if peek then kcp else kcp\<lparr>kc_rcv_queue := rest, kc_nrcv_que := kc_nrcv_que kcp - of_nat (length segs)\<rparr>)"
  using assms
proof (induction cs arbitrary: segs n buf kcp)
  case (Cons c cs)
  then obtain seg segs' where s: "segs = seg # segs'" "sg_frg seg = of_nat (length cs)" "sg_data seg = c"
    "map payload segs' = number_down cs"
    by (auto simp: map_eq_Cons_conv payload_eq)
  have len: "unat (sg_len seg) = length c" using Cons.prems(4) s by (simp add: len_ok_def)
  have l: "sg_len seg = of_nat (length c)" using Cons.prems(4) s of_nat_length_len_ok [of seg] by simp
  show ?case
  proof (cases "cs = []")
    case True
    then show ?thesis using Cons.prems s len l by (simp add: Let_def)
  next
    case False
    then have f: "sg_frg seg \<noteq> 0" using number_down_head Cons.prems(3) s by metis
    let ?kcp = "if peek then kcp else kcp\<lparr>kc_rcv_queue := segs' @ rest, kc_nrcv_que := kc_nrcv_que kcp - 1\<rparr>"
    have "merge_fragments peek (segs' @ rest) (buf @ c) (n + sg_len seg) ?kcp =
      Some ((buf @ c) @ concat cs, n + sg_len seg + of_nat (length (concat cs)),
        if peek then ?kcp
        else ?kcp\<lparr>kc_rcv_queue := rest, kc_nrcv_que := kc_nrcv_que ?kcp - of_nat (length segs')\<rparr>)"
      using Cons False s by (intro Cons.IH) auto
    then show ?thesis using s len l f by (simp add: Let_def algebra_simps)
  qed
qed simp

text \<open>The length of the first message, which the call finds before it reads.\<close>

lemma peeksize_message:
  assumes "kc_rcv_queue kcp = segs @ rest" "map payload segs = fragments m msg" "\<forall>seg \<in> set segs. len_ok seg"
    "kc_nrcv_que kcp = of_nat (length (segs @ rest))" "length (segs @ rest) < 4294967296" "length msg < 2147483648"
  shows "ikcp_peeksize kcp = int (length msg)"
proof -
  obtain c cs where c: "chunks m msg = c # cs" by (cases "chunks m msg") auto
  then obtain seg segs' where s: "segs = seg # segs'" "sg_frg seg = of_nat (length cs)" "sg_data seg = c"
    using assms(2) by (auto simp: fragments_def map_eq_Cons_conv payload_eq)
  have len: "length segs = length (c # cs)" using assms(2) c by (metis fragments_def length_map length_number_down)
  have msg: "msg = c @ concat cs" using concat_chunks [of m msg] c by simp
  show ?thesis
  proof (cases "cs = []")
    case True
    then have "unat (sg_len seg) = length msg" using assms(3) s msg by (simp add: len_ok_def)
    then show ?thesis using assms(1,6) s True by (simp add: ikcp_peeksize_def sint_unat32)
  next
    case False
    then have f: "sg_frg seg \<noteq> 0" using s(2) assms(5) len of_nat_uint_nonzero [of "length cs"] by simp
    have "unat (sg_frg seg + 1) = length segs" using s(2) assms(5) len
      by (subst unat_inc) (simp_all add: unat_of_nat)
    moreover have "unat (kc_nrcv_que kcp) = length (segs @ rest)" using assms(4,5) by (simp only: unat_of_nat32)
    ultimately have "\<not> kc_nrcv_que kcp < sg_frg seg + 1" by (simp add: word_less_nat_alt)
    moreover have "peek_length (segs @ rest) 0 = of_nat (length msg)"
      using peek_length_message [of segs "c # cs" rest 0] assms(2,3,5) len c msg by (simp add: fragments_def)
    ultimately show ?thesis using assms(1,6) s f by (simp add: ikcp_peeksize_def sint_of_nat32)
  qed
qed

definition after_read :: "bool \<Rightarrow> ikcpcb \<Rightarrow> ikcpcb" where
  "after_read recover kcp = (let kcp = move_available (kc_rcv_buf kcp) kcp
     in if kc_nrcv_que kcp < kc_rcv_wnd kcp \<and> recover then kcp\<lparr>kc_probe := kc_probe kcp OR IKCP_ASK_TELL\<rparr> else kcp)"

lemma recv_message:
  assumes "kc_rcv_queue kcp = segs @ rest" "map payload segs = fragments m msg" "\<forall>seg \<in> set segs. len_ok seg"
    "kc_nrcv_que kcp = of_nat (length (segs @ rest))" "length (segs @ rest) < 4294967296" "length msg < 2147483648"
    "- 2147483648 < len"  "len < 2147483648"
  shows "ikcp_recv len kcp =
    (if \<bar>len\<bar> < int (length msg) then Some (- 3, [], kcp)
     else Some (int (length msg), msg, after_read (kc_rcv_wnd kcp \<le> kc_nrcv_que kcp)
       (if len < 0 then kcp
        else kcp\<lparr>kc_rcv_queue := rest, kc_nrcv_que := kc_nrcv_que kcp - of_nat (length segs)\<rparr>)))"
proof -
  have size: "ikcp_peeksize kcp = int (length msg)" by (rule peeksize_message [OF assms(1-6)])
  have len: "length (chunks m msg) = length segs" using assms(2) by (metis fragments_def length_map length_number_down)
  have "segs \<noteq> []" using assms(2) by (auto simp: fragments_def dest: arg_cong [of _ _ length])
  then have ne: "kc_rcv_queue kcp \<noteq> []" using assms(1) by simp
  have merge: "merge_fragments (len < 0) (segs @ rest) [] 0 kcp = Some (msg, of_nat (length msg),
      if len < 0 then kcp else kcp\<lparr>kc_rcv_queue := rest, kc_nrcv_que := kc_nrcv_que kcp - of_nat (length segs)\<rparr>)"
    using merge_message [of segs "chunks m msg" "len < 0" rest "[]" 0 kcp] assms(2,3,5) len
    by (simp add: fragments_def concat_chunks del: length_concat)
  have int32: "len < 0 \<Longrightarrow> int32 (- len) = Some (- len)" using assms(7) by (simp add: int32_def)
  show ?thesis
    by (cases "len < 0")
      (use ne size assms(6) int32 merge in
        \<open>simp_all add: ikcp_recv_def assms(1) sint_of_nat32 after_read_def Let_def\<close>)
qed

end
