(* ===== verification/KcpEnd.thy ===== *)
theory KcpEnd
  imports KcpStream
begin

text \<open>
  One end of a KCP connection: the invariant that every operation keeps.  It relates the control
  block to the fragments this end was given to send (\<open>S\<close>), the fragments the other end was given
  (\<open>T\<close>), those of them the user has read (\<open>c\<close>), and the numbers the other end has received (\<open>G\<close>).
  Numbers are below \<open>2 ^ 31\<close>.
\<close>

subsection \<open>The loops in closed form\<close>

lemma move_available_eq:
  "\<exists>j \<le> length p. move_available p kcp = kcp\<lparr>kc_rcv_buf := drop j p, kc_rcv_queue := kc_rcv_queue kcp @ take j p,
       kc_nrcv_buf := kc_nrcv_buf kcp - of_nat j, kc_nrcv_que := kc_nrcv_que kcp + of_nat j,
       kc_rcv_nxt := kc_rcv_nxt kcp + of_nat j\<rparr> \<and>
     (\<forall>i < j. sg_sn (p ! i) = kc_rcv_nxt kcp + of_nat i) \<and>
     (j < length p \<longrightarrow> sg_sn (p ! j) \<noteq> kc_rcv_nxt kcp + of_nat j \<or> kc_rcv_wnd kcp \<le> kc_nrcv_que kcp + of_nat j)"
proof (induction p arbitrary: kcp)
  case (Cons seg p)
  show ?case
  proof (cases "sg_sn seg = kc_rcv_nxt kcp \<and> kc_nrcv_que kcp < kc_rcv_wnd kcp")
    case True
    let ?kcp = "kcp\<lparr>kc_nrcv_buf := kc_nrcv_buf kcp - 1, kc_rcv_queue := kc_rcv_queue kcp @ [seg],
        kc_nrcv_que := kc_nrcv_que kcp + 1, kc_rcv_nxt := kc_rcv_nxt kcp + 1\<rparr>"
    from Cons.IH [of ?kcp] obtain j where "j \<le> length p" "move_available p ?kcp = ?kcp\<lparr>kc_rcv_buf := drop j p,
        kc_rcv_queue := kc_rcv_queue ?kcp @ take j p, kc_nrcv_buf := kc_nrcv_buf ?kcp - of_nat j,
        kc_nrcv_que := kc_nrcv_que ?kcp + of_nat j, kc_rcv_nxt := kc_rcv_nxt ?kcp + of_nat j\<rparr>"
      "\<forall>i < j. sg_sn (p ! i) = kc_rcv_nxt ?kcp + of_nat i"
      "j < length p \<longrightarrow> sg_sn (p ! j) \<noteq> kc_rcv_nxt ?kcp + of_nat j \<or> kc_rcv_wnd ?kcp \<le> kc_nrcv_que ?kcp + of_nat j"
      by blast
    then show ?thesis using True
      by (intro exI [of _ "Suc j"]) (auto simp: less_Suc_eq_0_disj algebra_simps)
  next
    case False
    then show ?thesis by (intro exI [of _ 0]) (auto simp: not_less)
  qed
qed simp

lemma drop_una_eq:
  "\<exists>j \<le> length p. drop_una una p kcp = kcp\<lparr>kc_snd_buf := drop j p, kc_nsnd_buf := kc_nsnd_buf kcp - of_nat j\<rparr> \<and>
     (\<forall>i < j. 0 < itimediff una (sg_sn (p ! i)))"
proof (induction p arbitrary: kcp)
  case (Cons seg p)
  show ?case
  proof (cases "0 < itimediff una (sg_sn seg)")
    case True
    let ?kcp = "kcp\<lparr>kc_nsnd_buf := kc_nsnd_buf kcp - 1\<rparr>"
    from Cons.IH [of ?kcp] obtain j where "j \<le> length p" "drop_una una p ?kcp =
        ?kcp\<lparr>kc_snd_buf := drop j p, kc_nsnd_buf := kc_nsnd_buf ?kcp - of_nat j\<rparr>"
      "\<forall>i < j. 0 < itimediff una (sg_sn (p ! i))" by blast
    then show ?thesis using True
      by (intro exI [of _ "Suc j"]) (auto simp: less_Suc_eq_0_disj algebra_simps)
  qed (auto intro: exI [of _ 0])
qed simp

lemma remove_sn_set:
  "set (fst (remove_sn sn p)) \<subseteq> set p" "seg \<in> set p \<Longrightarrow> sg_sn seg \<noteq> sn \<Longrightarrow> seg \<in> set (fst (remove_sn sn p))"
  by (induction p) (auto split: prod.splits)

text \<open>What a segment means: its number and what it carries.\<close>

definition seg_content :: "ikcpseg \<Rightarrow> uint \<times> uint \<times> uint \<times> uint \<times> byte list" where
  "seg_content seg = (sg_sn seg, sg_cmd seg, sg_len seg, sg_frg seg, sg_data seg)"

lemma count_skipped_content: "map seg_content (count_skipped sn p) = map seg_content p"
  by (induction p) (auto simp: seg_content_def)

definition moved_seg :: "ikcpcb \<Rightarrow> uint \<Rightarrow> ikcpseg \<Rightarrow> uint \<Rightarrow> ikcpseg" where
  "moved_seg kcp wnd seg sn = seg\<lparr>sg_conv := kc_conv kcp, sg_cmd := IKCP_CMD_PUSH, sg_wnd := wnd,
     sg_ts := kc_current kcp, sg_sn := sn, sg_una := kc_rcv_nxt kcp, sg_resendts := kc_current kcp,
     sg_rto := of_int (kc_rx_rto kcp), sg_fastack := 0, sg_xmit := 0\<rparr>"

lemma move_to_buf_eq:
  "\<exists>j \<le> length q. move_to_buf cwnd wnd q kcp = kcp\<lparr>kc_snd_queue := drop j q,
     kc_snd_buf := kc_snd_buf kcp @ map2 (moved_seg kcp wnd) (take j q) (map (\<lambda>i. kc_snd_nxt kcp + of_nat i) [0..<j]),
     kc_nsnd_que := kc_nsnd_que kcp - of_nat j, kc_nsnd_buf := kc_nsnd_buf kcp + of_nat j,
     kc_snd_nxt := kc_snd_nxt kcp + of_nat j\<rparr>"
proof (induction q arbitrary: kcp)
  case (Cons newseg q)
  show ?case
  proof (cases "itimediff (kc_snd_nxt kcp) (kc_snd_una kcp + cwnd) < 0")
    case True
    let ?kcp = "kcp\<lparr>kc_nsnd_que := kc_nsnd_que kcp - 1, kc_nsnd_buf := kc_nsnd_buf kcp + 1,
        kc_snd_nxt := kc_snd_nxt kcp + 1,
        kc_snd_buf := kc_snd_buf kcp @ [moved_seg kcp wnd newseg (kc_snd_nxt kcp)]\<rparr>"
    have step: "move_to_buf cwnd wnd (newseg # q) kcp = move_to_buf cwnd wnd q ?kcp"
      using True by (simp add: moved_seg_def)
    have moved: "moved_seg ?kcp = moved_seg kcp" by (simp add: fun_eq_iff moved_seg_def)
    have up: "map (\<lambda>i. kc_snd_nxt kcp + of_nat i) [0..<Suc j] =
        kc_snd_nxt kcp # map (\<lambda>i. kc_snd_nxt kcp + 1 + of_nat i) [0..<j]" for j
      by (simp add: upt_conv_Cons map_Suc_upt [symmetric] algebra_simps del: upt_Suc map_Suc_upt)
    from Cons.IH [of ?kcp, unfolded moved] obtain j where "j \<le> length q" "move_to_buf cwnd wnd q ?kcp =
        ?kcp\<lparr>kc_snd_queue := drop j q,
          kc_snd_buf := kc_snd_buf ?kcp @ map2 (moved_seg kcp wnd) (take j q) (map (\<lambda>i. kc_snd_nxt ?kcp + of_nat i) [0..<j]),
          kc_nsnd_que := kc_nsnd_que ?kcp - of_nat j, kc_nsnd_buf := kc_nsnd_buf ?kcp + of_nat j,
          kc_snd_nxt := kc_snd_nxt ?kcp + of_nat j\<rparr>" by blast
    then show ?thesis
      by (intro exI [of _ "Suc j"]) (simp only: step up, simp add: algebra_simps)
  qed (auto intro: exI [of _ 0])
qed simp

subsection \<open>The invariant\<close>

definition sn_nat :: "ikcpseg \<Rightarrow> nat" where "sn_nat seg = unat (sg_sn seg)"

definition held :: "ikcpcb \<Rightarrow> nat set" where "held kcp = sn_nat ` set (kc_snd_buf kcp)"

definition got :: "ikcpcb \<Rightarrow> nat set" where
  "got kcp = {..<unat (kc_rcv_nxt kcp)} \<union> sn_nat ` set (kc_rcv_buf kcp)"

definition sendable :: "fragment list \<Rightarrow> ikcpseg \<Rightarrow> bool" where
  "sendable S seg \<longleftrightarrow> sn_nat seg < length S \<and> payload seg = S ! sn_nat seg \<and> sg_cmd seg = IKCP_CMD_PUSH \<and> len_ok seg"

definition snd_ok :: "nat \<Rightarrow> fragment list \<Rightarrow> ikcpcb \<Rightarrow> bool" where
  "snd_ok m S kcp \<longleftrightarrow> kc_mss kcp = of_nat m \<and> kc_stream kcp = 0 \<and> unat (kc_snd_nxt kcp) \<le> length S \<and>
     map payload (kc_snd_queue kcp) = drop (unat (kc_snd_nxt kcp)) S \<and>
     (\<forall>seg \<in> set (kc_snd_queue kcp). len_ok seg) \<and> (\<forall>seg \<in> set (kc_snd_buf kcp). sendable S seg)"

definition rcv_stored :: "fragment list \<Rightarrow> fragment list \<Rightarrow> ikcpcb \<Rightarrow> bool" where
  "rcv_stored T c kcp \<longleftrightarrow> unat (kc_rcv_nxt kcp) \<le> length T \<and>
     c @ map payload (kc_rcv_queue kcp) = take (unat (kc_rcv_nxt kcp)) T \<and>
     kc_nrcv_que kcp = of_nat (length (kc_rcv_queue kcp)) \<and>
     (\<forall>seg \<in> set (kc_rcv_queue kcp). len_ok seg) \<and>
     (\<forall>seg \<in> set (kc_rcv_buf kcp). unat (kc_rcv_nxt kcp) \<le> sn_nat seg \<and> sendable T seg) \<and>
     sorted_wrt (<) (map sn_nat (kc_rcv_buf kcp)) \<and> 0 < kc_rcv_wnd kcp"

text \<open>When nothing waits for the user, the next segment in order is not in the buffer.\<close>

definition rcv_ok :: "fragment list \<Rightarrow> fragment list \<Rightarrow> ikcpcb \<Rightarrow> bool" where
  "rcv_ok T c kcp \<longleftrightarrow> rcv_stored T c kcp \<and>
     (kc_rcv_queue kcp = [] \<longrightarrow> kc_rcv_nxt kcp \<notin> sg_sn ` set (kc_rcv_buf kcp))"

definition acks_ok :: "ikcpcb \<Rightarrow> bool" where
  "acks_ok kcp \<longleftrightarrow> unat (kc_ackcount kcp) \<le> length (kc_acklist kcp) \<and>
     unat ` fst ` set (take (unat (kc_ackcount kcp)) (kc_acklist kcp)) \<subseteq> got kcp"

text \<open>What was sent and is not held any more has been received.\<close>

definition end_ok :: "nat \<Rightarrow> fragment list \<Rightarrow> fragment list \<Rightarrow> fragment list \<Rightarrow> nat set \<Rightarrow> ikcpcb \<Rightarrow> bool" where
  "end_ok m S T c G kcp \<longleftrightarrow> snd_ok m S kcp \<and> rcv_ok T c kcp \<and> acks_ok kcp \<and>
     {..<unat (kc_snd_nxt kcp)} \<subseteq> held kcp \<union> G"

lemma unat_add_nat32:
  assumes "unat x + j < 4294967296"
  shows "unat (x + of_nat j :: uint) = unat x + j"
  using assms by (simp add: unat_add_small unat_of_nat32)

lemma snd_ok_append: "snd_ok m S kcp \<Longrightarrow> snd_ok m (S @ F)
    (kcp\<lparr>kc_snd_queue := kc_snd_queue kcp @ map fragment_seg F, kc_nsnd_que := n\<rparr>)"
  if "\<forall>f \<in> set F. length (snd f) < 4294967296"
  using that by (auto simp: snd_ok_def sendable_def nth_append len_ok_def fragment_seg_def ikcp_segment_new_def
      payload_def unat_of_nat32 comp_def)

lemma rcv_ok_append: "rcv_ok T c kcp \<Longrightarrow> rcv_ok (T @ F) c kcp"
  by (auto simp: rcv_ok_def rcv_stored_def sendable_def nth_append)

subsection \<open>Taking in order\<close>

lemma move_available_ok:
  assumes "rcv_stored T c kcp" "length T < 2147483648"
  shows "rcv_ok T c (move_available (kc_rcv_buf kcp) kcp)"
    and "got (move_available (kc_rcv_buf kcp) kcp) = got kcp"
proof -
  let ?p = "kc_rcv_buf kcp" and ?r = "unat (kc_rcv_nxt kcp)"
  obtain j where j: "j \<le> length ?p" and eq: "move_available ?p kcp = kcp\<lparr>kc_rcv_buf := drop j ?p,
       kc_rcv_queue := kc_rcv_queue kcp @ take j ?p, kc_nrcv_buf := kc_nrcv_buf kcp - of_nat j,
       kc_nrcv_que := kc_nrcv_que kcp + of_nat j, kc_rcv_nxt := kc_rcv_nxt kcp + of_nat j\<rparr>"
    and sn: "\<And>i. i < j \<Longrightarrow> sg_sn (?p ! i) = kc_rcv_nxt kcp + of_nat i"
    and stop: "j < length ?p \<Longrightarrow> sg_sn (?p ! j) \<noteq> kc_rcv_nxt kcp + of_nat j \<or> kc_rcv_wnd kcp \<le> kc_nrcv_que kcp + of_nat j"
    using move_available_eq [of ?p kcp] by blast
  note st = assms(1) [unfolded rcv_stored_def]
  have sorted: "sorted_wrt (<) (map sn_nat ?p)" and wnd: "0 < kc_rcv_wnd kcp" and r: "?r \<le> length T" using st by auto
  have inT: "sn_nat (?p ! i) < length T" if "i < length ?p" for i
    using st that by (auto simp: sendable_def)
  have nat: "sn_nat (?p ! i) = ?r + i" if "i < j" for i
  proof -
    have "?r + i < 4294967296" if "i < j" for i
      using that
    proof (induction i)
      case (Suc i)
      then have "sn_nat (?p ! i) = ?r + i" using sn [of i] by (simp add: sn_nat_def unat_add_nat32)
      then show ?case using inT [of i] Suc j assms(2) by linarith
    qed simp
    then show ?thesis using sn [OF that] that by (simp add: sn_nat_def unat_add_nat32)
  qed
  have rj: "?r + j \<le> length T"
  proof (cases j)
    case (Suc i)
    then show ?thesis using nat [of i] inT [of i] j by simp
  qed (use r in simp)
  have nxt: "unat (kc_rcv_nxt kcp + of_nat j) = ?r + j" using rj assms(2) by (simp add: unat_add_nat32)
  have pay: "map payload (take j ?p) = take j (drop ?r T)"
    using st j rj nat by (intro nth_equalityI) (auto simp: sendable_def)
  have above: "?r + j \<le> sn_nat seg" if s: "seg \<in> set (drop j ?p)" for seg
  proof -
    obtain i where i: "i < length ?p - j" "seg = ?p ! (j + i)"
      using s j by (auto simp: in_set_conv_nth)
    have "?r \<le> sn_nat seg" using st i by simp
    moreover have "sn_nat (?p ! (j - 1)) < sn_nat (?p ! (j + i))" if "0 < j"
      using sorted_wrt_nth_less [OF sorted, of "j - 1" "j + i"] i that by simp
    ultimately show ?thesis using nat [of "j - 1"] i by (cases j) auto
  qed
  have c: "c @ map payload (kc_rcv_queue kcp @ take j ?p) = take (?r + j) T"
    using st pay by (simp add: take_add)
  have taken: "\<forall>seg \<in> set (take j ?p). len_ok seg" "length (take j ?p) = j"
    using st j by (auto simp: sendable_def dest: in_set_takeD)
  have stored: "rcv_stored T c (move_available ?p kcp)"
    using st above rj c nxt sorted wnd taken unfolding eq rcv_stored_def
    by (auto simp: sorted_wrt_drop drop_map [symmetric] dest: in_set_dropD)
  moreover have "kc_rcv_nxt kcp + of_nat j \<notin> sg_sn ` set (drop j ?p)" if s: "kc_rcv_queue kcp @ take j ?p = []"
  proof
    assume "kc_rcv_nxt kcp + of_nat j \<in> sg_sn ` set (drop j ?p)"
    then obtain seg where e: "sg_sn seg = kc_rcv_nxt kcp + of_nat j" "seg \<in> set (drop j ?p)" by auto
    have j0: "j = 0" "?p \<noteq> []" using s e by (auto simp: take_eq_Nil)
    have q0: "kc_nrcv_que kcp = 0" using st s by simp
    have "\<not> kc_rcv_wnd kcp \<le> kc_nrcv_que kcp + of_nat j" using wnd j0 q0 by simp
    then have ne: "sg_sn (?p ! 0) \<noteq> kc_rcv_nxt kcp" using stop j0 by simp
    obtain i where i: "i < length ?p" "seg = ?p ! i" using e j0 by (auto simp: in_set_conv_nth)
    have "?r < sn_nat (?p ! 0)"
    proof -
      have "?p ! 0 \<in> set ?p" using j0 by simp
      then have "?r \<le> sn_nat (?p ! 0)" using st by blast
      then show ?thesis using ne by (auto simp: sn_nat_def word_unat_eq_iff)
    qed
    also have "\<dots> \<le> sn_nat (?p ! i)"
      using sorted_wrt_nth_less [OF sorted, of 0 i] i j0 nth_map [of 0 ?p sn_nat] by (cases i) auto
    finally show False using e i j0 by (simp add: sn_nat_def)
  qed
  ultimately show "rcv_ok T c (move_available ?p kcp)" unfolding rcv_ok_def eq by auto
  have "sn_nat ` set (take j ?p) = {?r..<?r + j}"
  proof -
    have "sn_nat ` set (take j ?p) = set (map (\<lambda>i. sn_nat (?p ! i)) [0..<j])"
      using j by (simp add: nth_image [symmetric] atLeast0LessThan image_image [symmetric])
    also have "\<dots> = (\<lambda>i. ?r + i) ` {0..<j}" using nat by (auto simp: image_iff)
    also have "\<dots> = {?r..<?r + j}" using image_add_atLeastLessThan [of ?r 0 j] by (simp add: add.commute)
    finally show ?thesis .
  qed
  moreover have "set ?p = set (take j ?p) \<union> set (drop j ?p)" by (metis append_take_drop_id set_append)
  ultimately have "sn_nat ` set ?p = {?r..<?r + j} \<union> sn_nat ` set (drop j ?p)" by (simp add: image_Un)
  then show "got (move_available ?p kcp) = got kcp" unfolding got_def eq using nxt by (auto simp: not_less)
qed

subsection \<open>Data that arrives\<close>

lemma insert_back_None:
  "insert_back new p = None \<Longrightarrow> sg_sn new \<in> sg_sn ` set p"
  by (induction p) (auto split: if_splits)

lemma insert_back_Some:
  assumes "insert_back new p = Some q" "\<forall>seg \<in> set p. sn_nat seg < 2147483648" "sn_nat new < 2147483648"
    "sorted_wrt (>) (map sn_nat p)"
  shows "set q = insert new (set p) \<and> sorted_wrt (>) (map sn_nat q)"
  using assms
proof (induction p arbitrary: q)
  case (Cons seg p)
  have d: "itimediff (sg_sn new) (sg_sn seg) = int (sn_nat new) - int (sn_nat seg)"
    using Cons.prems by (simp add: sn_nat_def itimediff_small)
  have ne: "sg_sn seg \<noteq> sg_sn new" using Cons.prems(1) by (auto split: if_splits)
  show ?case
  proof (cases "sn_nat seg < sn_nat new")
    case True
    have q: "q = new # seg # p" using Cons.prems(1) d ne True by simp
    have s: "sorted_wrt (>) (sn_nat seg # map sn_nat p)" using Cons.prems(4) by simp
    then have "\<forall>x \<in> set (map sn_nat p). x < sn_nat new" using True
      unfolding sorted_wrt.simps by (metis less_trans)
    then have "sorted_wrt (>) (sn_nat new # sn_nat seg # map sn_nat p)" using s True by (simp del: set_map)
    then show ?thesis unfolding q by simp
  next
    case False
    moreover have "sn_nat new \<noteq> sn_nat seg" using ne by (auto simp: sn_nat_def word_unat_eq_iff)
    ultimately show ?thesis using Cons d ne by auto
  qed
qed auto

lemma sorted_wrt_rev_sn: "sorted_wrt (>) (map sn_nat (rev p)) = sorted_wrt (<) (map sn_nat p)"
  by (simp add: rev_map [symmetric] sorted_wrt_rev)

lemma parse_data_ok:
  assumes "rcv_ok T c kcp" "length T < 2147483648" "sendable T new"
  shows "rcv_ok T c (ikcp_parse_data new kcp)" and "got kcp \<subseteq> got (ikcp_parse_data new kcp)"
    and "itimediff (sg_sn new) (kc_rcv_nxt kcp + kc_rcv_wnd kcp) < 0 \<Longrightarrow> sn_nat new \<in> got (ikcp_parse_data new kcp)"
proof -
  have st: "rcv_stored T c kcp" using assms(1) by (simp add: rcv_ok_def)
  have nr: "unat (kc_rcv_nxt kcp) < 2147483648" using st assms(2) by (simp add: rcv_stored_def)
  have nn: "sn_nat new < 2147483648" using assms(2,3) by (simp add: sendable_def)
  have d: "itimediff (sg_sn new) (kc_rcv_nxt kcp) = int (sn_nat new) - int (unat (kc_rcv_nxt kcp))"
    using nr nn by (simp add: sn_nat_def itimediff_small)
  have before: "itimediff (sg_sn new) (kc_rcv_nxt kcp) < 0 \<longleftrightarrow> sn_nat new < unat (kc_rcv_nxt kcp)"
    unfolding d by linarith
  have all: "rcv_ok T c (ikcp_parse_data new kcp) \<and> got kcp \<subseteq> got (ikcp_parse_data new kcp) \<and>
    (itimediff (sg_sn new) (kc_rcv_nxt kcp + kc_rcv_wnd kcp) < 0 \<longrightarrow> sn_nat new \<in> got (ikcp_parse_data new kcp))"
  proof (cases "0 \<le> itimediff (sg_sn new) (kc_rcv_nxt kcp + kc_rcv_wnd kcp) \<or> itimediff (sg_sn new) (kc_rcv_nxt kcp) < 0")
    case True
    then show ?thesis using assms(1) before by (auto simp: ikcp_parse_data_def got_def)
  next
    case False
    then have above: "unat (kc_rcv_nxt kcp) \<le> sn_nat new" using before by simp
    show ?thesis
    proof (cases "insert_back new (rev (kc_rcv_buf kcp))")
      case None
      then have "sn_nat new \<in> got kcp" using insert_back_None [OF None] by (auto simp: got_def sn_nat_def)
      then show ?thesis using None False move_available_ok [OF st assms(2)] by (simp add: ikcp_parse_data_def)
    next
      case (Some q)
      let ?k = "kcp\<lparr>kc_rcv_buf := rev q, kc_nrcv_buf := kc_nrcv_buf kcp + 1\<rparr>"
      have "\<forall>seg \<in> set (rev (kc_rcv_buf kcp)). sn_nat seg < 2147483648"
        using st assms(2) by (auto simp: rcv_stored_def sendable_def)
      moreover have "sorted_wrt (>) (map sn_nat (rev (kc_rcv_buf kcp)))"
        unfolding sorted_wrt_rev_sn using st by (simp add: rcv_stored_def)
      ultimately have q: "set q = insert new (set (kc_rcv_buf kcp))" "sorted_wrt (>) (map sn_nat q)"
        using insert_back_Some [OF Some _ nn] by auto
      have "sorted_wrt (<) (map sn_nat (rev q))" using q(2) sorted_wrt_rev_sn [of "rev q"] by simp
      then have "rcv_stored T c ?k" using st q(1) above assms(3) by (auto simp: rcv_stored_def)
      moreover have "got ?k = insert (sn_nat new) (got kcp)" using q(1) by (auto simp: got_def)
      ultimately show ?thesis using Some False move_available_ok [of T c ?k] assms(2)
        by (auto simp: ikcp_parse_data_def)
    qed
  qed
  then show "rcv_ok T c (ikcp_parse_data new kcp)" and "got kcp \<subseteq> got (ikcp_parse_data new kcp)"
    and "itimediff (sg_sn new) (kc_rcv_nxt kcp + kc_rcv_wnd kcp) < 0 \<Longrightarrow> sn_nat new \<in> got (ikcp_parse_data new kcp)"
    by blast+
qed

end
