(* ===== verification/KcpInv.thy ===== *)
theory KcpInv
  imports KcpEnd
begin

text \<open>
  \<open>ikcp_input\<close> keeps the invariant of an end, when the datagram was made by the other end: the
  segments in it are ones that end was given, and it acknowledges only what it has received.
\<close>

subsection \<open>What the invariant reads\<close>

text \<open>The fields of the control block the invariant is about.\<close>

definition core :: "ikcpcb \<Rightarrow> uint \<times> ikcpseg list \<times> ikcpseg list \<times> uint \<times> ikcpseg list \<times> ikcpseg list \<times> uint \<times> uint \<times>
    (uint \<times> uint) list \<times> uint \<times> uint \<times> int" where
  "core kcp = (kc_snd_nxt kcp, kc_snd_queue kcp, kc_snd_buf kcp, kc_rcv_nxt kcp, kc_rcv_queue kcp, kc_rcv_buf kcp,
     kc_nrcv_que kcp, kc_rcv_wnd kcp, kc_acklist kcp, kc_ackcount kcp, kc_mss kcp, kc_stream kcp)"

lemma core_eq:
  assumes "core kcp' = core kcp"
  shows "end_ok m S T c G kcp' = end_ok m S T c G kcp" "got kcp' = got kcp" "held kcp' = held kcp"
  using assms
  by (auto simp: core_def end_ok_def snd_ok_def rcv_ok_def rcv_stored_def acks_ok_def got_def held_def)

lemma core_shrink [simp]: "core (ikcp_shrink_buf kcp) = core kcp"
  by (simp add: core_def ikcp_shrink_buf_def)

lemma core_update_ack: "ikcp_update_ack rtt kcp = Some kcp' \<Longrightarrow> core kcp' = core kcp"
  by (auto simp: core_def ikcp_update_ack_def Let_def split: bind_splits if_splits)

lemma core_open_cwnd: "open_cwnd kcp = Some kcp' \<Longrightarrow> core kcp' = core kcp"
  by (auto simp: core_def open_cwnd_def Let_def split: bind_splits if_splits)

subsection \<open>Acknowledgements\<close>

text \<open>Fewer segments are held, those that were taken out had been received.\<close>

lemma end_ok_release:
  assumes "end_ok m S T c G kcp" "set buf \<subseteq> set (kc_snd_buf kcp)"
    "\<And>seg. seg \<in> set (kc_snd_buf kcp) \<Longrightarrow> seg \<notin> set buf \<Longrightarrow> sn_nat seg \<in> G"
  shows "end_ok m S T c G (kcp\<lparr>kc_snd_buf := buf, kc_nsnd_buf := n\<rparr>)"
proof -
  have "held kcp \<subseteq> held (kcp\<lparr>kc_snd_buf := buf, kc_nsnd_buf := n\<rparr>) \<union> G"
    using assms(3) by (auto simp: held_def)
  then show ?thesis using assms(1,2)
    by (auto simp: end_ok_def snd_ok_def rcv_ok_def rcv_stored_def acks_ok_def got_def)
qed

lemma end_ok_held_small:
  assumes "end_ok m S T c G kcp" "length S < 2147483648" "seg \<in> set (kc_snd_buf kcp)"
  shows "sn_nat seg < 2147483648"
  using assms by (fastforce simp: end_ok_def snd_ok_def sendable_def)

lemma parse_una_ok:
  assumes "end_ok m S T c G kcp" "length S < 2147483648" "unat una < 2147483648" "{..<unat una} \<subseteq> G"
  shows "end_ok m S T c G (ikcp_parse_una una kcp) \<and> got (ikcp_parse_una una kcp) = got kcp"
proof -
  let ?p = "kc_snd_buf kcp"
  obtain j where j: "j \<le> length ?p" and eq: "ikcp_parse_una una kcp =
      kcp\<lparr>kc_snd_buf := drop j ?p, kc_nsnd_buf := kc_nsnd_buf kcp - of_nat j\<rparr>"
    and before: "\<forall>i < j. 0 < itimediff una (sg_sn (?p ! i))"
    using drop_una_eq [of ?p una kcp] by (auto simp: ikcp_parse_una_def)
  have "sn_nat seg \<in> G" if seg: "seg \<in> set ?p" "seg \<notin> set (drop j ?p)" for seg
  proof -
    have "seg \<in> set (take j ?p)" using seg by (metis append_take_drop_id Un_iff set_append)
    then obtain i where i: "i < j" "seg = ?p ! i" using j by (auto simp: in_set_conv_nth)
    have "itimediff una (sg_sn seg) = int (unat una) - int (sn_nat seg)"
      using end_ok_held_small [OF assms(1,2) seg(1)] assms(3) by (simp add: sn_nat_def itimediff_small)
    then have "sn_nat seg < unat una" using before i by (metis diff_gt_0_iff_gt of_nat_less_iff)
    then show ?thesis using assms(4) by auto
  qed
  then show ?thesis unfolding eq using assms(1)
    by (intro conjI end_ok_release) (auto simp: got_def dest: in_set_dropD)
qed

lemma parse_ack_ok:
  assumes "end_ok m S T c G kcp" "unat sn \<in> G"
  shows "end_ok m S T c G (ikcp_parse_ack sn kcp) \<and> got (ikcp_parse_ack sn kcp) = got kcp"
proof (cases "outside_window sn kcp")
  case False
  let ?buf = "fst (remove_sn sn (kc_snd_buf kcp))"
  have "end_ok m S T c G (kcp\<lparr>kc_snd_buf := ?buf, kc_nsnd_buf := n\<rparr>)" for n
    using assms remove_sn_set(1) remove_sn_set(2) [of _ "kc_snd_buf kcp" sn]
    by (intro end_ok_release) (blast, blast, metis sn_nat_def)
  then show ?thesis using False by (simp add: ikcp_parse_ack_def split_beta got_def)
qed (use assms in \<open>simp add: ikcp_parse_ack_def\<close>)

lemma sendable_content:
  assumes "seg_content seg' = seg_content seg"
  shows "sendable S seg' = sendable S seg" "sn_nat seg' = sn_nat seg"
  using assms by (simp_all add: seg_content_def sendable_def payload_def len_ok_def sn_nat_def)

text \<open>The segments of the send buffer may change in all but number and content.\<close>

lemma end_ok_content:
  assumes "end_ok m S T c G kcp" "map seg_content buf = map seg_content (kc_snd_buf kcp)"
  shows "end_ok m S T c G (kcp\<lparr>kc_snd_buf := buf\<rparr>)"
proof -
  have c: "seg_content ` set buf = seg_content ` set (kc_snd_buf kcp)"
    using arg_cong [OF assms(2), of set] by simp
  have "held k = (\<lambda>x. unat (fst x)) ` seg_content ` set (kc_snd_buf k)" for k
    by (simp add: held_def sn_nat_def seg_content_def image_image)
  then have "held (kcp\<lparr>kc_snd_buf := buf\<rparr>) = held kcp" using c by simp
  moreover have "sendable S seg" if "seg \<in> set buf" for seg
  proof -
    have "seg_content seg \<in> seg_content ` set (kc_snd_buf kcp)" using c that by blast
    then obtain seg' where seg': "seg' \<in> set (kc_snd_buf kcp)" "seg_content seg = seg_content seg'" by blast
    then have "sendable S seg'" using assms(1) by (simp add: end_ok_def snd_ok_def)
    then show ?thesis using sendable_content(1) [OF seg'(2)] by simp
  qed
  ultimately show ?thesis using assms(1)
    by (simp add: end_ok_def snd_ok_def rcv_ok_def rcv_stored_def acks_ok_def got_def)
qed

subsection \<open>Acknowledging\<close>

lemma set_take_update:
  assumes "n < length xs" "k \<le> Suc n"
  shows "set (take k (xs[n := x])) \<subseteq> insert x (set (take n xs))"
proof -
  have "take (Suc n) (xs[n := x]) = take n xs @ [x]" using assms(1) by (simp add: take_Suc_conv_app_nth)
  moreover have "set (take k (xs[n := x])) \<subseteq> set (take (Suc n) (xs[n := x]))" using assms(2) by (rule set_take_subset_set_take)
  ultimately show ?thesis by simp
qed

lemma unat_inc_le: "unat (w + 1 :: uint) \<le> Suc (unat w)"
proof (cases "Suc (unat w) < 4294967296")
  case False
  then have "unat w = 4294967295" using unat_uint_less [of w] by linarith
  then have "w = - 1" by (simp add: word_unat_eq_iff)
  then show ?thesis by simp
qed (simp add: unat_inc)

lemma ack_push_ok:
  assumes "unat (kc_ackcount kcp) \<le> length (kc_acklist kcp)" "ikcp_ack_push sn ts kcp = Some kcp'"
  obtains as n b where "kcp' = kcp\<lparr>kc_acklist := as, kc_ackcount := n, kc_ackblock := b\<rparr>" "unat n \<le> length as"
    "set (take (unat n) as) \<subseteq> insert (sn, ts) (set (take (unat (kc_ackcount kcp)) (kc_acklist kcp)))"
proof -
  let ?n = "unat (kc_ackcount kcp)"
  obtain xs b where xs: "?n < length xs" "take ?n xs = take ?n (kc_acklist kcp)"
    "kcp' = kcp\<lparr>kc_acklist := xs[?n := (sn, ts)], kc_ackcount := kc_ackcount kcp + 1, kc_ackblock := b\<rparr>"
  proof (cases "kc_ackblock kcp < kc_ackcount kcp + 1")
    case True
    then obtain b where "grow_block (kc_ackcount kcp + 1) 8 = Some b"
      using assms(2) by (auto simp: ikcp_ack_push_def Let_def split: bind_splits)
    then show ?thesis using True assms
      by (intro that [of "take ?n (kc_acklist kcp) @ replicate (unat b - ?n) (0, 0)" b])
        (auto simp: ikcp_ack_push_def Let_def min_absorb2 not_le split: if_splits)
  next
    case False
    then show ?thesis using assms(2)
      by (intro that [of "kc_acklist kcp" "kc_ackblock kcp"])
        (auto simp: ikcp_ack_push_def Let_def not_le split: if_splits)
  qed
  show ?thesis
  proof (rule that [OF xs(3)])
    show "unat (kc_ackcount kcp + 1) \<le> length (xs[?n := (sn, ts)])"
      using xs(1) unat_inc_le [of "kc_ackcount kcp"] by simp
    show "set (take (unat (kc_ackcount kcp + 1)) (xs[?n := (sn, ts)])) \<subseteq>
        insert (sn, ts) (set (take ?n (kc_acklist kcp)))"
      using set_take_update [OF xs(1) unat_inc_le] xs(2) by simp
  qed
qed

subsection \<open>Data that arrives\<close>

lemma parse_data_frame:
  "\<exists>b q nb n r. ikcp_parse_data new kcp =
     kcp\<lparr>kc_rcv_buf := b, kc_rcv_queue := q, kc_nrcv_buf := nb, kc_nrcv_que := n, kc_rcv_nxt := r\<rparr>"
proof -
  have move: "\<exists>b q nb n r. move_available p k =
      k\<lparr>kc_rcv_buf := b, kc_rcv_queue := q, kc_nrcv_buf := nb, kc_nrcv_que := n, kc_rcv_nxt := r\<rparr>" for p k
    using move_available_eq [of p k] by blast
  show ?thesis
  proof (cases "insert_back new (rev (kc_rcv_buf kcp))")
    case None
    then have "ikcp_parse_data new kcp = kcp \<or> ikcp_parse_data new kcp = move_available (kc_rcv_buf kcp) kcp"
      by (simp add: ikcp_parse_data_def)
    moreover have "kcp = kcp\<lparr>kc_rcv_buf := kc_rcv_buf kcp, kc_rcv_queue := kc_rcv_queue kcp,
        kc_nrcv_buf := kc_nrcv_buf kcp, kc_nrcv_que := kc_nrcv_que kcp, kc_rcv_nxt := kc_rcv_nxt kcp\<rparr>" by simp
    ultimately show ?thesis using move by metis
  next
    case (Some q)
    let ?k = "kcp\<lparr>kc_rcv_buf := rev q, kc_nrcv_buf := kc_nrcv_buf kcp + 1\<rparr>"
    have "ikcp_parse_data new kcp = kcp \<or> ikcp_parse_data new kcp = move_available (rev q) ?k"
      using Some by (simp add: ikcp_parse_data_def)
    then show ?thesis
    proof
      assume "ikcp_parse_data new kcp = kcp"
      then show ?thesis
        by (intro exI [of _ "kc_rcv_buf kcp"] exI [of _ "kc_rcv_queue kcp"] exI [of _ "kc_nrcv_buf kcp"]
            exI [of _ "kc_nrcv_que kcp"] exI [of _ "kc_rcv_nxt kcp"]) simp
    next
      assume e: "ikcp_parse_data new kcp = move_available (rev q) ?k"
      obtain b q' nb n r where "move_available (rev q) ?k =
        ?k\<lparr>kc_rcv_buf := b, kc_rcv_queue := q', kc_nrcv_buf := nb, kc_nrcv_que := n, kc_rcv_nxt := r\<rparr>"
        using move by blast
      then have "ikcp_parse_data new kcp =
        kcp\<lparr>kc_rcv_buf := b, kc_rcv_queue := q', kc_nrcv_buf := nb, kc_nrcv_que := n, kc_rcv_nxt := r\<rparr>"
        unfolding e by simp
      then show ?thesis by blast
    qed
  qed
qed

lemma move_available_acks:
  "move_available p (kcp\<lparr>kc_acklist := as, kc_ackcount := n, kc_ackblock := b\<rparr>) =
     (move_available p kcp)\<lparr>kc_acklist := as, kc_ackcount := n, kc_ackblock := b\<rparr>"
proof (induction p arbitrary: kcp)
  case (Cons seg p)
  let ?k = "kcp\<lparr>kc_nrcv_buf := kc_nrcv_buf kcp - 1, kc_rcv_queue := kc_rcv_queue kcp @ [seg],
        kc_nrcv_que := kc_nrcv_que kcp + 1, kc_rcv_nxt := kc_rcv_nxt kcp + 1\<rparr>"
  have e: "kcp\<lparr>kc_acklist := as, kc_ackcount := n, kc_ackblock := b, kc_nrcv_buf := kc_nrcv_buf kcp - 1,
        kc_rcv_queue := kc_rcv_queue kcp @ [seg], kc_nrcv_que := kc_nrcv_que kcp + 1, kc_rcv_nxt := kc_rcv_nxt kcp + 1\<rparr> =
      ?k\<lparr>kc_acklist := as, kc_ackcount := n, kc_ackblock := b\<rparr>"
    by (rule ikcpcb.equality) simp_all
  show ?case
  proof (cases "sg_sn seg = kc_rcv_nxt kcp \<and> kc_nrcv_que kcp < kc_rcv_wnd kcp")
    case True
    then have "move_available (seg # p) (kcp\<lparr>kc_acklist := as, kc_ackcount := n, kc_ackblock := b\<rparr>) =
        move_available p (?k\<lparr>kc_acklist := as, kc_ackcount := n, kc_ackblock := b\<rparr>)"
      unfolding e [symmetric] by simp
    also note Cons.IH
    finally show ?thesis using True by simp
  next
    case False
    have "kcp\<lparr>kc_acklist := as, kc_ackcount := n, kc_ackblock := b, kc_rcv_buf := seg # p\<rparr> =
        kcp\<lparr>kc_rcv_buf := seg # p, kc_acklist := as, kc_ackcount := n, kc_ackblock := b\<rparr>"
      by (rule ikcpcb.equality) simp_all
    then show ?thesis using False by auto
  qed
next
  case Nil
  show ?case by (rule ikcpcb.equality) simp_all
qed

lemma parse_data_acks:
  "ikcp_parse_data new (kcp\<lparr>kc_acklist := as, kc_ackcount := n, kc_ackblock := b\<rparr>) =
     (ikcp_parse_data new kcp)\<lparr>kc_acklist := as, kc_ackcount := n, kc_ackblock := b\<rparr>"
proof (cases "insert_back new (rev (kc_rcv_buf kcp))")
  case None
  then show ?thesis by (simp add: ikcp_parse_data_def move_available_acks)
next
  case (Some q)
  have e: "kcp\<lparr>kc_acklist := as, kc_ackcount := n, kc_ackblock := b, kc_rcv_buf := rev q, kc_nrcv_buf := kc_nrcv_buf kcp + 1\<rparr> =
      kcp\<lparr>kc_rcv_buf := rev q, kc_nrcv_buf := kc_nrcv_buf kcp + 1, kc_acklist := as, kc_ackcount := n, kc_ackblock := b\<rparr>"
    by (rule ikcpcb.equality) simp_all
  show ?thesis
    using Some move_available_acks [where p = "rev q" and
        kcp = "kcp\<lparr>kc_rcv_buf := rev q, kc_nrcv_buf := kc_nrcv_buf kcp + 1\<rparr>" and as = as and n = n and b = b]
    by (simp add: ikcp_parse_data_def e)
qed

lemma end_ok_receive:
  assumes "end_ok m S T c0 G kcp" "rcv_ok T c kcp'" "got kcp \<subseteq> got kcp'"
    "kcp' = kcp\<lparr>kc_rcv_buf := b, kc_rcv_queue := q, kc_nrcv_buf := nb, kc_nrcv_que := n, kc_rcv_nxt := r\<rparr>"
  shows "end_ok m S T c G kcp'"
proof -
  have "acks_ok kcp'" using assms(1,3) unfolding acks_ok_def end_ok_def assms(4) by auto
  moreover have "snd_ok m S kcp'" "held kcp' = held kcp" using assms(1) by (simp_all add: assms(4) end_ok_def snd_ok_def held_def)
  ultimately show ?thesis using assms(1,2) by (simp add: assms(4) end_ok_def)
qed

lemma end_ok_acks:
  assumes "end_ok m S T c G kcp" "unat n \<le> length as" "unat ` fst ` set (take (unat n) as) \<subseteq> got kcp"
  shows "end_ok m S T c G (kcp\<lparr>kc_acklist := as, kc_ackcount := n, kc_ackblock := b\<rparr>)"
  using assms by (auto simp: end_ok_def snd_ok_def rcv_ok_def rcv_stored_def acks_ok_def got_def held_def)

lemma input_push_ok:
  assumes "end_ok m S T c G kcp" "length T < 2147483648" "input_push h data kcp = Some kcp'"
    "sendable T (h\<lparr>sg_data := take (unat (sg_len h)) data\<rparr>)"
  shows "end_ok m S T c G kcp' \<and> got kcp \<subseteq> got kcp'"
proof (cases "itimediff (sg_sn h) (kc_rcv_nxt kcp + kc_rcv_wnd kcp) < 0")
  case True
  let ?new = "h\<lparr>sg_data := take (unat (sg_len h)) data\<rparr>"
  have acks: "unat (kc_ackcount kcp) \<le> length (kc_acklist kcp)"
    "unat ` fst ` set (take (unat (kc_ackcount kcp)) (kc_acklist kcp)) \<subseteq> got kcp"
    using assms(1) by (auto simp: end_ok_def acks_ok_def)
  obtain k where k: "ikcp_ack_push (sg_sn h) (sg_ts h) kcp = Some k"
    using assms(3) True by (auto simp: input_push_def split: bind_splits)
  obtain as n b where ke: "k = kcp\<lparr>kc_acklist := as, kc_ackcount := n, kc_ackblock := b\<rparr>" and as: "unat n \<le> length as"
    "set (take (unat n) as) \<subseteq> insert (sg_sn h, sg_ts h) (set (take (unat (kc_ackcount kcp)) (kc_acklist kcp)))"
    using ack_push_ok [OF acks(1) k] .
  define kcp2 where "kcp2 = (if 0 \<le> itimediff (sg_sn h) (kc_rcv_nxt kcp) then ikcp_parse_data ?new kcp else kcp)"
  have rcv: "rcv_ok T c kcp" using assms(1) by (simp add: end_ok_def)
  have small: "unat (kc_rcv_nxt kcp) < 2147483648" "unat (sg_sn h) < 2147483648"
    using rcv assms(2,4) by (auto simp: rcv_ok_def rcv_stored_def sendable_def sn_nat_def)
  have new: "end_ok m S T c G kcp2 \<and> got kcp \<subseteq> got kcp2 \<and> unat (sg_sn h) \<in> got kcp2"
  proof (cases "0 \<le> itimediff (sg_sn h) (kc_rcv_nxt kcp)")
    case True
    note pd = parse_data_ok [OF rcv assms(2,4)]
    obtain b q nb n r where f: "ikcp_parse_data ?new kcp =
        kcp\<lparr>kc_rcv_buf := b, kc_rcv_queue := q, kc_nrcv_buf := nb, kc_nrcv_que := n, kc_rcv_nxt := r\<rparr>"
      using parse_data_frame by blast
    have "unat (sg_sn h) \<in> got kcp2"
      using pd(3) \<open>itimediff (sg_sn h) (kc_rcv_nxt kcp + kc_rcv_wnd kcp) < 0\<close> True
      by (simp add: kcp2_def sn_nat_def)
    then show ?thesis using end_ok_receive [OF assms(1) pd(1,2) f] pd(2) True by (simp add: kcp2_def)
  next
    case False
    then have "unat (sg_sn h) < unat (kc_rcv_nxt kcp)"
      using itimediff_small [OF small(2,1)] by linarith
    then show ?thesis using assms(1) False by (simp add: kcp2_def got_def)
  qed
  have pd: "ikcp_parse_data ?new k = (ikcp_parse_data ?new kcp)\<lparr>kc_acklist := as, kc_ackcount := n, kc_ackblock := b\<rparr>"
    unfolding ke by (rule parse_data_acks)
  have "kcp' = kcp2\<lparr>kc_acklist := as, kc_ackcount := n, kc_ackblock := b\<rparr>"
    using assms(3) True k pd by (auto simp: input_push_def kcp2_def ke split: if_splits)
  moreover have "unat ` fst ` set (take (unat n) as) \<subseteq> got kcp2" using as(2) acks(2) new by fastforce
  moreover have "got (kcp2\<lparr>kc_acklist := as, kc_ackcount := n, kc_ackblock := b\<rparr>) = got kcp2" by (simp add: got_def)
  ultimately show ?thesis using end_ok_acks [of m S T c G kcp2 n as b] new as(1) by simp
next
  case False
  then show ?thesis using assms by (simp add: input_push_def)
qed

end
