(* ===== verification/KcpReceive.thy ===== *)
theory KcpReceive
  imports KcpInv
begin

text \<open>
  What one end may find in a datagram of the other end, and that \<open>ikcp_input\<close> keeps the invariant on
  such a datagram.
\<close>

subsection \<open>Segments on the wire\<close>

definition wire_seg :: "ikcpseg \<Rightarrow> byte list" where
  "wire_seg seg = ikcp_encode_seg seg @ sg_data seg"

text \<open>A segment of an end that was given the fragments \<open>T\<close> to send and has received the numbers \<open>G\<close>.\<close>

definition wire_ok :: "fragment list \<Rightarrow> nat set \<Rightarrow> ikcpseg \<Rightarrow> bool" where
  "wire_ok T G seg \<longleftrightarrow> known_cmd (sg_cmd seg) \<and> len_ok seg \<and>
     unat (sg_una seg) < 2147483648 \<and> {..<unat (sg_una seg)} \<subseteq> G \<and>
     (sg_cmd seg = IKCP_CMD_PUSH \<longrightarrow> sendable T seg \<and> unat (sg_frg seg) < 256) \<and>
     (sg_cmd seg = IKCP_CMD_ACK \<longrightarrow> unat (sg_sn seg) \<in> G)"

definition datagram_ok :: "fragment list \<Rightarrow> nat set \<Rightarrow> byte list \<Rightarrow> bool" where
  "datagram_ok T G d \<longleftrightarrow> (\<exists>segs. d = concat (map wire_seg segs) \<and> (\<forall>seg \<in> set segs. wire_ok T G seg))"

lemma wire_ok_mono: "wire_ok T G seg \<Longrightarrow> G \<subseteq> G' \<Longrightarrow> wire_ok (T @ F) G' seg"
  by (auto simp: wire_ok_def sendable_def nth_append)

lemma datagram_ok_mono: "datagram_ok T G d \<Longrightarrow> G \<subseteq> G' \<Longrightarrow> datagram_ok (T @ F) G' d"
  by (auto simp: datagram_ok_def intro: wire_ok_mono)

lemma datagram_ok_Nil: "datagram_ok T G []"
  unfolding datagram_ok_def by (intro exI [of _ "[]"]) simp

lemma datagram_ok_snoc: "datagram_ok T G d \<Longrightarrow> wire_ok T G seg \<Longrightarrow> datagram_ok T G (d @ wire_seg seg)"
  unfolding datagram_ok_def by clarify (rule_tac x = "segs @ [seg]" in exI, auto)

lemma ucast_ucast_byte: "unat (w :: uint) < 256 \<Longrightarrow> ucast (ucast w :: byte) = w"
  by (simp add: word_unat_eq_iff unsigned_ucast_eq unsigned_take_bit_eq take_bit_nat_eq_self)

lemma as_read_cmd: "known_cmd (sg_cmd seg) \<Longrightarrow> sg_cmd (as_read seg) = sg_cmd seg"
  by (auto simp: as_read_def known_cmd_def ikcp_cmds intro!: ucast_ucast_byte)

lemma as_read_fields:
  "sg_sn (as_read seg) = sg_sn seg" "sg_una (as_read seg) = sg_una seg" "sg_len (as_read seg) = sg_len seg"
  by (simp_all add: as_read_def)

lemma content_as_read:
  assumes "known_cmd (sg_cmd seg)" "len_ok seg" "unat (sg_frg seg) < 256"
  shows "seg_content ((as_read seg)\<lparr>sg_data := take (unat (sg_len seg)) (sg_data seg @ rest)\<rparr>) = seg_content seg"
  using assms as_read_cmd [OF assms(1)]
  by (simp add: seg_content_def as_read_fields len_ok_def) (simp add: as_read_def ucast_ucast_byte)

subsection \<open>The steps of the loop\<close>

lemma input_ack_ok:
  assumes "end_ok m S T c G kcp" "unat (sg_sn h) \<in> G" "input_ack h kcp = Some kcp'"
  shows "end_ok m S T c G kcp' \<and> got kcp' = got kcp"
proof -
  have "\<exists>k. core k = core kcp \<and> kcp' = ikcp_shrink_buf (ikcp_parse_ack (sg_sn h) k)"
    using assms(3) by (fastforce simp: input_ack_def split: bind_splits if_splits dest: core_update_ack)
  then obtain k where k: "core k = core kcp" "kcp' = ikcp_shrink_buf (ikcp_parse_ack (sg_sn h) k)" by blast
  then have "end_ok m S T c G k" "got k = got kcp" using assms(1) core_eq [OF k(1)] by auto
  then show ?thesis using parse_ack_ok [OF _ assms(2)] core_eq [OF core_shrink] unfolding k(2) by auto
qed

lemma input_segment_ok:
  assumes "end_ok m S T c G kcp" "length S < 2147483648" "length T < 2147483648" "wire_ok T G seg"
    "input_segment (as_read seg) (sg_data seg @ rest) acked kcp = Some (acked', kcp')"
  shows "end_ok m S T c G kcp' \<and> got kcp \<subseteq> got kcp'"
proof -
  define k where "k = ikcp_shrink_buf (ikcp_parse_una (sg_una seg) (kcp\<lparr>kc_rmt_wnd := sg_wnd (as_read seg)\<rparr>))"
  have c0: "core (kcp\<lparr>kc_rmt_wnd := w\<rparr>) = core kcp" for w by (simp add: core_def)
  have una: "unat (sg_una seg) < 2147483648" "{..<unat (sg_una seg)} \<subseteq> G" and known: "known_cmd (sg_cmd seg)"
    using assms(4) by (auto simp: wire_ok_def)
  have k: "end_ok m S T c G k" "got k = got kcp"
    using parse_una_ok [OF _ assms(2) una, of m T c "kcp\<lparr>kc_rmt_wnd := sg_wnd (as_read seg)\<rparr>"] assms(1)
    by (simp_all add: k_def core_eq [OF core_shrink] core_eq [OF c0])
  note seg = assms(5) [unfolded input_segment_def Let_def as_read_fields as_read_cmd [OF known], folded k_def]
  consider "sg_cmd seg = IKCP_CMD_ACK" | "sg_cmd seg = IKCP_CMD_PUSH" | "sg_cmd seg \<noteq> IKCP_CMD_ACK" "sg_cmd seg \<noteq> IKCP_CMD_PUSH"
    by blast
  then show ?thesis
  proof cases
    case 1
    then have "input_ack (as_read seg) k = Some kcp'" using seg by auto
    moreover have "unat (sg_sn (as_read seg)) \<in> G" using 1 assms(4) by (simp add: wire_ok_def as_read_fields)
    ultimately show ?thesis using input_ack_ok [OF k(1)] k(2) by auto
  next
    case 2
    then have "input_push (as_read seg) (sg_data seg @ rest) k = Some kcp'"
      using seg by (auto simp: ikcp_cmds)
    moreover have "sendable T ((as_read seg)\<lparr>sg_data := take (unat (sg_len (as_read seg))) (sg_data seg @ rest)\<rparr>)"
      using 2 assms(4) sendable_content(1) [OF content_as_read]
      by (simp add: wire_ok_def as_read_fields)
    ultimately show ?thesis using input_push_ok [OF k(1) assms(3)] k(2) by auto
  next
    case 3
    then have "core kcp' = core k" using seg by (auto simp: core_def split: if_splits)
    note core_eq [OF this]
    then show ?thesis using k by simp
  qed
qed

lemma input_loop_ok:
  assumes "end_ok m S T c G kcp" "length S < 2147483648" "length T < 2147483648" "\<forall>seg \<in> set segs. wire_ok T G seg"
    "input_loop (concat (map wire_seg segs)) sz acked kcp = Some (r, acked', kcp')"
  shows "end_ok m S T c G kcp' \<and> got kcp \<subseteq> got kcp'"
  using assms(1,4,5)
proof (induction segs arbitrary: sz acked kcp)
  case Nil
  then have "input_loop [] sz acked kcp = Some (r, acked', kcp')" by simp
  then have "kcp' = kcp" unfolding input_loop.simps [of "[]" sz acked kcp] by (auto split: if_splits)
  then show ?case using Nil by simp
next
  case (Cons seg segs)
  let ?rest = "concat (map wire_seg segs)"
  obtain p where p: "ikcp_decode32u (ikcp_encode_seg seg @ sg_data seg @ ?rest) = Some (sg_conv seg, p)"
    "decode_header (sg_conv seg) p = Some (as_read seg, sg_data seg @ ?rest)"
    using decode_header_encode by blast
  have len: "unat (sg_len seg) = length (sg_data seg)" and wire: "wire_ok T G seg"
    using Cons.prems(2) by (auto simp: wire_ok_def len_ok_def)
  have loop: "input_loop (wire_seg seg @ ?rest) sz acked kcp = Some (r, acked', kcp')" using Cons.prems(3) by simp
  consider "kcp' = kcp"
    | acked1 kcp1 sz1 where "input_segment (as_read seg) (sg_data seg @ ?rest) acked kcp = Some (acked1, kcp1)"
      "input_loop ?rest sz1 acked1 kcp1 = Some (r, acked', kcp')"
    using loop unfolding input_loop.simps [of "wire_seg seg @ ?rest" sz acked kcp]
    by (cases "kc_conv kcp = sg_conv seg")
      (auto simp: wire_seg_def p as_read_fields len split: if_splits option.splits)
  then show ?case
  proof cases
    case 1
    then show ?thesis using Cons.prems(1) by simp
  next
    case 2
    have "end_ok m S T c G kcp1 \<and> got kcp \<subseteq> got kcp1"
      by (rule input_segment_ok [OF Cons.prems(1) assms(2,3) wire 2(1)])
    moreover from this have "end_ok m S T c G kcp' \<and> got kcp1 \<subseteq> got kcp'"
      using Cons.IH [OF _ _ 2(2)] Cons.prems(2) by simp
    ultimately show ?thesis by auto
  qed
qed

lemma parse_fastack_ok:
  assumes "end_ok m S T c G kcp"
  shows "end_ok m S T c G (ikcp_parse_fastack sn kcp) \<and> got (ikcp_parse_fastack sn kcp) = got kcp"
  using end_ok_content [OF assms count_skipped_content] assms by (simp add: ikcp_parse_fastack_def got_def)

theorem input_ok:
  assumes "end_ok m S T c G kcp" "length S < 2147483648" "length T < 2147483648" "datagram_ok T G d"
    "ikcp_input d sz kcp = Some (r, kcp')"
  shows "end_ok m S T c G kcp' \<and> got kcp \<subseteq> got kcp'"
proof -
  obtain segs where segs: "d = concat (map wire_seg segs)" "\<forall>seg \<in> set segs. wire_ok T G seg"
    using assms(4) by (auto simp: datagram_ok_def)
  show ?thesis
  proof (cases "input_loop d sz None kcp")
    case None
    then have "kcp' = kcp" using assms(5) by (auto simp: ikcp_input_def split: if_splits)
    then show ?thesis using assms(1) by simp
  next
    case (Some x)
    then obtain r1 acked k where loop: "input_loop d sz None kcp = Some (r1, acked, k)" by (cases x) auto
    define k2 where "k2 = (case acked of None \<Rightarrow> k | Some (maxack, latest_ts) \<Rightarrow> ikcp_parse_fastack maxack k)"
    have k: "end_ok m S T c G k \<and> got kcp \<subseteq> got k"
      using input_loop_ok [OF assms(1-3) segs(2)] segs(1) loop by blast
    then have k2: "end_ok m S T c G k2 \<and> got kcp \<subseteq> got k2"
      using parse_fastack_ok by (auto simp: k2_def split: option.splits)
    have "kcp' = kcp \<or> kcp' = k \<or> kcp' = k2 \<or> open_cwnd k2 = Some kcp'"
      using assms(5) loop
      by (simp add: ikcp_input_def Let_def k2_def [symmetric] split: if_splits bind_splits)
    moreover have "end_ok m S T c G kcp' \<and> got kcp \<subseteq> got kcp'" if "open_cwnd k2 = Some kcp'"
      using k2 core_eq [OF core_open_cwnd [OF that]] by simp
    ultimately show ?thesis using assms(1) k k2 by auto
  qed
qed

end
