(* ===== verification/KcpTransmit.thy ===== *)
theory KcpTransmit
  imports KcpReceive
begin

text \<open>
  \<open>ikcp_flush\<close> and \<open>ikcp_update\<close> keep the invariant of an end, and every datagram they send is one the
  other end may find: segments with the fragments this end was given, acknowledging what it has.
\<close>

subsection \<open>The output buffer\<close>

definition box_ok :: "fragment list \<Rightarrow> nat set \<Rightarrow> outbox \<Rightarrow> bool" where
  "box_ok S G box \<longleftrightarrow> datagram_ok S G (fst box) \<and> (\<forall>d \<in> set (snd box). datagram_ok S G d)"

lemma box_ok_empty: "box_ok S G ([], [])"
  by (simp add: box_ok_def datagram_ok_Nil)

lemma output_ok: "box_ok S G box \<Longrightarrow> ikcp_output kcp box = Some box' \<Longrightarrow> box_ok S G box'"
  by (auto simp: box_ok_def ikcp_output_def split: prod.splits if_splits)

lemma make_room_ok: "box_ok S G box \<Longrightarrow> make_room need kcp box = Some box' \<Longrightarrow> box_ok S G box'"
  by (auto simp: make_room_def box_ok_def ikcp_output_def datagram_ok_Nil split: if_splits prod.splits)

lemma put_seg_ok:
  assumes "box_ok S G box" "wire_ok S G seg" "put_bytes (wire_seg seg) kcp box = Some box'"
  shows "box_ok S G box'"
  using assms by (auto simp: box_ok_def put_bytes_def datagram_ok_snoc split: if_splits)

lemma put_header_ok:
  assumes "box_ok S G box" "wire_ok S G seg" "sg_data seg = []" "put_header seg kcp box = Some box'"
  shows "box_ok S G box'"
proof -
  obtain b where "make_room (sint IKCP_OVERHEAD) kcp box = Some b" "put_bytes (wire_seg seg) kcp b = Some box'"
    using assms(3,4) by (auto simp: put_header_def wire_seg_def split: bind_splits)
  then show ?thesis using make_room_ok put_seg_ok assms(1,2) by metis
qed

lemma put_segment_ok:
  assumes "box_ok S G box" "wire_ok S G seg" "put_segment seg kcp box = Some box'"
  shows "box_ok S G box'"
proof -
  have len: "unat (sg_len seg) = length (sg_data seg)" using assms(2) by (simp add: wire_ok_def len_ok_def)
  obtain b where "make_room (sint (IKCP_OVERHEAD + sg_len seg)) kcp box = Some b"
    "put_bytes (wire_seg seg) kcp b = Some box'"
    using assms(3) len by (auto simp: put_segment_def put_bytes_def wire_seg_def split: bind_splits if_splits)
  then show ?thesis using make_room_ok put_seg_ok assms(1,2) by metis
qed

subsection \<open>Acknowledgements and probes\<close>

definition header_ok :: "fragment list \<Rightarrow> nat set \<Rightarrow> ikcpseg \<Rightarrow> bool" where
  "header_ok S G seg \<longleftrightarrow> sg_data seg = [] \<and> sg_len seg = 0 \<and> unat (sg_una seg) < 2147483648 \<and> {..<unat (sg_una seg)} \<subseteq> G"

lemma header_wire_ok:
  assumes "header_ok S G seg"
  shows "unat sn \<in> G \<Longrightarrow> wire_ok S G (seg\<lparr>sg_cmd := IKCP_CMD_ACK, sg_sn := sn, sg_ts := ts\<rparr>)"
    and "wire_ok S G (seg\<lparr>sg_cmd := IKCP_CMD_WASK\<rparr>)" and "wire_ok S G (seg\<lparr>sg_cmd := IKCP_CMD_WINS\<rparr>)"
  using assms by (simp_all add: header_ok_def wire_ok_def known_cmd_def len_ok_def ikcp_cmds)

lemma flush_acks_ok:
  assumes "box_ok S G box" "header_ok S G seg" "sg_cmd seg = IKCP_CMD_ACK"
    "\<forall>i \<in> set is. \<forall>sn ts. ikcp_ack_get i kcp = Some (sn, ts) \<longrightarrow> unat sn \<in> G"
    "flush_acks is kcp seg box = Some (seg', box')"
  shows "box_ok S G box' \<and> header_ok S G seg' \<and> sg_wnd seg' = sg_wnd seg"
  using assms
proof (induction "is" arbitrary: seg box)
  case (Cons i "is")
  obtain b sn ts b2 where s: "make_room (sint IKCP_OVERHEAD) kcp box = Some b" "ikcp_ack_get i kcp = Some (sn, ts)"
    "put_bytes (ikcp_encode_seg (seg\<lparr>sg_sn := sn, sg_ts := ts\<rparr>)) kcp b = Some b2"
    "flush_acks is kcp (seg\<lparr>sg_sn := sn, sg_ts := ts\<rparr>) b2 = Some (seg', box')"
    using Cons.prems(5) by (auto simp: Let_def split: bind_splits)
  let ?seg = "seg\<lparr>sg_sn := sn, sg_ts := ts\<rparr>"
  have h: "header_ok S G ?seg" "sg_cmd ?seg = IKCP_CMD_ACK" using Cons.prems(2,3) by (simp_all add: header_ok_def)
  have "unat sn \<in> G" using Cons.prems(4) s(2) by simp
  then have "wire_ok S G ?seg"
    using Cons.prems(2,3) by (simp add: header_ok_def wire_ok_def known_cmd_def len_ok_def ikcp_cmds)
  moreover have "put_bytes (wire_seg ?seg) kcp b = Some b2" using s(3) h(1) by (simp add: wire_seg_def header_ok_def)
  ultimately have "box_ok S G b2" using put_seg_ok make_room_ok [OF Cons.prems(1) s(1)] by blast
  then show ?case using Cons.IH [OF _ h _ s(4)] Cons.prems(4) by simp
qed simp

lemma flush_probes_ok:
  assumes "box_ok S G box" "header_ok S G seg" "flush_probes kcp seg box = Some box'"
  shows "box_ok S G box'"
proof -
  have data: "sg_data (seg\<lparr>sg_cmd := c\<rparr>) = []" for c using assms(2) by (simp add: header_ok_def)
  obtain b where b: "b = box \<or> put_header (seg\<lparr>sg_cmd := IKCP_CMD_WASK\<rparr>) kcp box = Some b"
    "b = box' \<or> put_header (seg\<lparr>sg_cmd := IKCP_CMD_WINS\<rparr>) kcp b = Some box'"
    using assms(3) by (auto simp: flush_probes_def split: bind_splits if_splits)
  have "box_ok S G b" using b(1) put_header_ok [OF assms(1) header_wire_ok(2) [OF assms(2)] data] assms(1) by blast
  then show ?thesis using b(2) put_header_ok [OF _ header_wire_ok(3) [OF assms(2)] data] by blast
qed

lemma nat_sint_le: "nat (sint w) \<le> unat (w :: uint)"
proof (cases "unat w < 2147483648")
  case False
  then have "2147483648 \<le> int (unat w)" by linarith
  then have u: "2147483648 \<le> uint w" by simp
  have "signed_take_bit 31 (uint w) \<le> uint w - 2 ^ Suc 31"
    by (rule signed_take_bit_int_less_eq) (use u in simp)
  moreover have "uint w < 2 ^ Suc 31" using uint_lt2p [of w] by simp
  moreover have "sint w = signed_take_bit 31 (uint w)" by (simp add: sint_uint)
  ultimately have "sint w < 0" by linarith
  then show ?thesis by simp
qed (simp add: sint_unat32)

subsection \<open>From the queue to the buffer\<close>

lemma move_to_buf_ok:
  assumes "end_ok m S T c G kcp" "length S < 2147483648"
  shows "end_ok m S T c G (move_to_buf cwnd wnd (kc_snd_queue kcp) kcp)"
    and "got (move_to_buf cwnd wnd (kc_snd_queue kcp) kcp) = got kcp"
    and "kc_rcv_nxt (move_to_buf cwnd wnd (kc_snd_queue kcp) kcp) = kc_rcv_nxt kcp"
proof -
  let ?q = "kc_snd_queue kcp" and ?n = "unat (kc_snd_nxt kcp)"
  obtain j where j: "j \<le> length ?q" and eq: "move_to_buf cwnd wnd ?q kcp = kcp\<lparr>kc_snd_queue := drop j ?q,
     kc_snd_buf := kc_snd_buf kcp @ map2 (moved_seg kcp wnd) (take j ?q) (map (\<lambda>i. kc_snd_nxt kcp + of_nat i) [0..<j]),
     kc_nsnd_que := kc_nsnd_que kcp - of_nat j, kc_nsnd_buf := kc_nsnd_buf kcp + of_nat j,
     kc_snd_nxt := kc_snd_nxt kcp + of_nat j\<rparr>"
    using move_to_buf_eq by blast
  let ?new = "map2 (moved_seg kcp wnd) (take j ?q) (map (\<lambda>i. kc_snd_nxt kcp + of_nat i) [0..<j])"
  have cfg: "kc_mss kcp = of_nat m" "kc_stream kcp = 0" using assms(1) by (simp_all add: end_ok_def snd_ok_def)
  have ok: "?n \<le> length S" "map payload ?q = drop ?n S" "\<forall>seg \<in> set ?q. len_ok seg" "\<forall>seg \<in> set (kc_snd_buf kcp). sendable S seg"
    "{..<?n} \<subseteq> held kcp \<union> G"
    using assms(1) by (auto simp: end_ok_def snd_ok_def)
  have len: "length ?q = length S - ?n" using arg_cong [OF ok(2), of length] by simp
  have nxt: "unat (kc_snd_nxt kcp + of_nat i) = ?n + i" if "i \<le> j" for i
    using that j len ok(1) assms(2) by (intro unat_add_nat32) linarith
  have new: "?new ! i = moved_seg kcp wnd (?q ! i) (kc_snd_nxt kcp + of_nat i)" if "i < j" for i
    using that j by simp
  have nat: "sn_nat (?new ! i) = ?n + i" if "i < j" for i
    using new [OF that] nxt [of i] that by (simp add: sn_nat_def moved_seg_def)
  have send: "sendable S (?new ! i)" if "i < j" for i
  proof -
    have "payload (?q ! i) = drop ?n S ! i" using ok(2) that j by (metis nth_map order_less_le_trans)
    then have "payload (?q ! i) = S ! (?n + i)" using ok(1) by simp
    moreover have "len_ok (?q ! i)" using ok(3) that j by simp
    ultimately show ?thesis using new [OF that] nat [OF that] that j len
      by (simp add: sendable_def payload_def moved_seg_def len_ok_def)
  qed
  have ln: "length ?new = j" using j by simp
  have "sendable S seg" if "seg \<in> set ?new" for seg
    using send that ln by (metis in_set_conv_nth)
  moreover have "sn_nat ` set ?new = {?n..<?n + j}"
  proof -
    have "map sn_nat ?new = map (\<lambda>i. ?n + i) [0..<j]"
      using nat ln by (intro nth_equalityI) simp_all
    then have "sn_nat ` set ?new = (\<lambda>i. ?n + i) ` {0..<j}" by (metis list.set_map set_upt)
    then show ?thesis using image_add_atLeastLessThan [of ?n 0 j] by (simp add: add.commute)
  qed
  moreover have "map payload (drop j ?q) = drop (?n + j) S" using ok(2) by (metis drop_drop drop_map add.commute)
  ultimately have "snd_ok m S (move_to_buf cwnd wnd ?q kcp)"
    "held (move_to_buf cwnd wnd ?q kcp) = held kcp \<union> {?n..<?n + j}"
    unfolding eq using cfg ok nxt [of j] j len
    by (auto simp: snd_ok_def held_def image_Un dest: in_set_dropD)
  moreover have "{..<?n + j} = {..<?n} \<union> {?n..<?n + j}" by auto
  then have "{..<unat (kc_snd_nxt (move_to_buf cwnd wnd ?q kcp))} \<subseteq> held kcp \<union> {?n..<?n + j} \<union> G"
    using ok(5) nxt [of j] by (auto simp: eq)
  moreover have "rcv_ok T c (move_to_buf cwnd wnd ?q kcp)" "acks_ok (move_to_buf cwnd wnd ?q kcp)"
    using assms(1) by (simp_all add: eq end_ok_def rcv_ok_def rcv_stored_def acks_ok_def got_def)
  ultimately show "end_ok m S T c G (move_to_buf cwnd wnd ?q kcp)" unfolding end_ok_def by simp
  show "got (move_to_buf cwnd wnd ?q kcp) = got kcp" "kc_rcv_nxt (move_to_buf cwnd wnd ?q kcp) = kc_rcv_nxt kcp"
    by (simp_all add: eq got_def)
qed

subsection \<open>The segments of the send buffer\<close>

definition small_frags :: "fragment list \<Rightarrow> bool" where
  "small_frags S \<longleftrightarrow> (\<forall>f \<in> set S. unat (fst f) < 256)"

lemma sendable_small: "small_frags S \<Longrightarrow> sendable S seg \<Longrightarrow> unat (sg_frg seg) < 256"
  by (metis nth_mem payload_sel(1) sendable_def small_frags_def)

lemma content_resend [simp]: "seg_content (resend_update rtomin kcp seg why) = seg_content seg"
  by (cases why) (simp_all add: resend_update_def seg_content_def)

lemma content_stamp [simp]: "seg_content (seg\<lparr>sg_ts := t, sg_wnd := w, sg_una := u\<rparr>) = seg_content seg"
  by (simp add: seg_content_def)

lemma sendable_wire_ok:
  assumes "sendable S seg" "small_frags S" "unat (sg_una seg) < 2147483648" "{..<unat (sg_una seg)} \<subseteq> G"
  shows "wire_ok S G seg"
  using assms sendable_small [OF assms(2,1)] by (simp add: wire_ok_def sendable_def known_cmd_def ikcp_cmds)

lemma flush_segments_ok:
  assumes "box_ok S G box" "\<forall>seg \<in> set p. sendable S seg" "small_frags S"
    "unat (kc_rcv_nxt kcp) < 2147483648" "{..<unat (kc_rcv_nxt kcp)} \<subseteq> G"
    "flush_segments resent rtomin wnd p kcp change lost box = Some (p', kcp', change', lost', box')"
  shows "box_ok S G box' \<and> map seg_content p' = map seg_content p \<and> core kcp' = core kcp"
  using assms
proof (induction p arbitrary: kcp change lost box p')
  case (Cons seg p)
  define why where "why = why_send resent kcp seg"
  define kcp1 where "kcp1 = (if why = Timeout then kcp\<lparr>kc_xmit := kc_xmit kcp + 1\<rparr> else kcp)"
  define seg1 where "seg1 = resend_update rtomin kcp seg why"
  define seg2 where "seg2 = seg1\<lparr>sg_ts := kc_current kcp, sg_wnd := wnd, sg_una := kc_rcv_nxt kcp\<rparr>"
  define kcp2 where "kcp2 = (if kc_dead_link kcp1 \<le> sg_xmit seg2 then kcp1\<lparr>kc_state := - 1\<rparr> else kcp1)"
  have f1: "kc_current kcp1 = kc_current kcp" "kc_rcv_nxt kcp1 = kc_rcv_nxt kcp" "core kcp1 = core kcp"
    by (simp_all add: kcp1_def core_def)
  have c2: "core kcp2 = core kcp" using f1(3) by (simp add: kcp2_def core_def)
  note step = Cons.prems(6) [unfolded flush_segments.simps Let_def, folded why_def, folded kcp1_def seg1_def,
      unfolded f1(1,2), folded seg2_def, folded kcp2_def]
  obtain seg3 kcp3 box3 p3 change3 lost3 where s: "flush_segments resent rtomin wnd p kcp3 change3 lost3 box3 =
      Some (p3, kcp', change', lost', box')" "p' = seg3 # p3"
    "seg3 = seg1 \<and> kcp3 = kcp1 \<and> box3 = box \<or> seg3 = seg2 \<and> kcp3 = kcp2 \<and> put_segment seg2 kcp1 box = Some box3"
  proof (cases "why = Quiet")
    case True
    then obtain p3 where "flush_segments resent rtomin wnd p kcp1 change lost box = Some (p3, kcp', change', lost', box')"
      "p' = seg1 # p3"
      using Cons.prems(6)
      by (cases box) (auto simp: Let_def why_def [symmetric] seg1_def kcp1_def split: bind_splits)
    then show ?thesis using that by blast
  next
    case False
    then obtain b p3 r where "put_segment seg2 kcp1 box = Some b" "p' = seg2 # p3"
      "flush_segments resent rtomin wnd p kcp2 (if why = Fast then change + 1 else change) (lost \<or> why = Timeout) b =
        Some (p3, r)" "r = (kcp', change', lost', box')"
      using step by (auto split: bind_splits prod.splits)
    then show ?thesis using that by blast
  qed
  have send: "sendable S seg2" using Cons.prems(2) sendable_content(1) [of seg2 seg]
    by (simp add: seg2_def seg1_def)
  have "wire_ok S G seg2" using sendable_wire_ok [OF send Cons.prems(3)] Cons.prems(4,5) by (simp add: seg2_def)
  then have b3: "box_ok S G box3" using s(3) put_segment_ok Cons.prems(1) by blast
  have k3: "core kcp3 = core kcp" "seg_content seg3 = seg_content seg"
    using s(3) f1(3) c2 by (auto simp: seg1_def seg2_def)
  then have "kc_rcv_nxt kcp3 = kc_rcv_nxt kcp" by (simp add: core_def)
  then show ?case using Cons.IH [OF b3 _ Cons.prems(3) _ _ s(1)] Cons.prems(2,4,5) k3 s(2) by simp
qed simp

subsection \<open>A flush\<close>

lemma core_probe_window [simp]: "core (probe_window kcp) = core kcp"
  by (simp add: core_def probe_window_def Let_def)

lemma core_adjust_cwnd [simp]: "core (adjust_cwnd cwnd resent change lost kcp) = core kcp"
  by (simp add: core_def adjust_cwnd_def Let_def)

lemma end_ok_no_acks: "end_ok m S T c G kcp \<Longrightarrow> end_ok m S T c G (kcp\<lparr>kc_ackcount := 0\<rparr>)"
  by (auto simp: end_ok_def snd_ok_def rcv_ok_def rcv_stored_def acks_ok_def got_def held_def)

text \<open>The states a flush goes through: after the probes, and with the queue moved to the buffer.\<close>

definition flush_start :: "ikcpcb \<Rightarrow> ikcpcb" where
  "flush_start kcp = probe_window (kcp\<lparr>kc_ackcount := 0\<rparr>)"

definition flush_loaded :: "uint \<Rightarrow> ikcpcb \<Rightarrow> ikcpcb" where
  "flush_loaded wnd kcp = (let kcp = (flush_start kcp)\<lparr>kc_probe := 0\<rparr>
     in move_to_buf (flush_window kcp) wnd (kc_snd_queue kcp) kcp)"

lemma flush_parts:
  assumes "ikcp_flush kcp = Some (sent, kcp')" "kc_updated kcp \<noteq> 0"
  obtains seg box1 box2 resent rtomin buf k change lost box3 box4 where
    "flush_acks [0..<nat (sint (kc_ackcount kcp))] kcp (flush_header kcp) ([], []) = Some (seg, box1)"
    "flush_probes (flush_start kcp) seg box1 = Some box2"
    "flush_segments resent rtomin (sg_wnd seg) (kc_snd_buf (flush_loaded (sg_wnd seg) kcp)) (flush_loaded (sg_wnd seg) kcp) 0 False box2 =
       Some (buf, k, change, lost, box3)"
    "(if 0 < length (fst box3) then ikcp_output (k\<lparr>kc_snd_buf := buf\<rparr>) box3 else Some box3) = Some box4" "sent = snd box4"
    "kcp' = adjust_cwnd (flush_window ((flush_start kcp)\<lparr>kc_probe := 0\<rparr>)) resent change lost (k\<lparr>kc_snd_buf := buf\<rparr>)"
proof -
  define k2 where "k2 = (flush_start kcp)\<lparr>kc_probe := 0\<rparr>"
  note fl = assms(1) [unfolded ikcp_flush_def Let_def, folded flush_start_def, folded k2_def]
  obtain seg box1 where f1: "flush_acks [0..<nat (sint (kc_ackcount kcp))] kcp (flush_header kcp) ([], []) = Some (seg, box1)"
    using fl assms(2) by (auto split: bind_splits)
  obtain box2 where f2: "flush_probes (flush_start kcp) seg box1 = Some box2" using fl assms(2) f1 by (auto split: bind_splits)
  define k where "k = move_to_buf (flush_window k2) (sg_wnd seg) (kc_snd_queue k2) k2"
  have loaded: "flush_loaded (sg_wnd seg) kcp = k" by (simp add: flush_loaded_def k_def k2_def Let_def)
  define resent where "resent = (if 0 < kc_fastresend k then of_int (kc_fastresend k) else - 1 :: uint)"
  define rtomin where "rtomin = (if kc_nodelay k = 0 then of_int (kc_rx_rto k div 8) else 0 :: uint)"
  have rest: "do {
        (buf, kcp, change, lost, box) \<leftarrow> flush_segments resent rtomin (sg_wnd seg) (kc_snd_buf k) k 0 False box2;
        box \<leftarrow> (if 0 < length (fst box) then ikcp_output (kcp\<lparr>kc_snd_buf := buf\<rparr>) box else Some box);
        Some (snd box, adjust_cwnd (flush_window k2) resent change lost (kcp\<lparr>kc_snd_buf := buf\<rparr>))
      } = Some (sent, kcp')"
    using fl assms(2) f1 f2 unfolding resent_def rtomin_def k_def by simp
  obtain buf k4 change lost box3 where f3: "flush_segments resent rtomin (sg_wnd seg) (kc_snd_buf k) k 0 False box2 =
      Some (buf, k4, change, lost, box3)"
    using rest by (auto split: bind_splits)
  have "\<exists>box4. (if 0 < length (fst box3) then ikcp_output (k4\<lparr>kc_snd_buf := buf\<rparr>) box3 else Some box3) = Some box4 \<and>
      sent = snd box4 \<and> kcp' = adjust_cwnd (flush_window k2) resent change lost (k4\<lparr>kc_snd_buf := buf\<rparr>)"
    using rest f3 by (auto split: bind_splits)
  then show ?thesis using that [OF f1 f2 f3 [folded loaded]] unfolding k2_def by blast
qed

lemma flush_ok:
  assumes "end_ok m S T c G kcp" "length S < 2147483648" "length T < 2147483648" "small_frags S"
    "ikcp_flush kcp = Some (sent, kcp')"
  shows "end_ok m S T c G kcp' \<and> got kcp' = got kcp \<and> (\<forall>d \<in> set sent. datagram_ok S (got kcp) d)"
proof (cases "kc_updated kcp = 0")
  case True
  then show ?thesis using assms(1,5) by (auto simp: ikcp_flush_def)
next
  case False
  define k2 where "k2 = (flush_start kcp)\<lparr>kc_probe := 0\<rparr>"
  define wnd where "wnd = sg_wnd (flush_header kcp)"
  define k3 where "k3 = move_to_buf (flush_window k2) wnd (kc_snd_queue k2) k2"
  have rcv: "unat (kc_rcv_nxt kcp) < 2147483648" "{..<unat (kc_rcv_nxt kcp)} \<subseteq> got kcp"
    using assms(1,3) by (auto simp: end_ok_def rcv_ok_def rcv_stored_def got_def)
  have header: "header_ok S (got kcp) (flush_header kcp)" "sg_cmd (flush_header kcp) = IKCP_CMD_ACK"
    using rcv by (simp_all add: header_ok_def flush_header_def ikcp_segment_new_def)
  have acks: "\<forall>i \<in> set [0..<nat (sint (kc_ackcount kcp))]. \<forall>sn ts. ikcp_ack_get i kcp = Some (sn, ts) \<longrightarrow> unat sn \<in> got kcp"
  proof (intro ballI allI impI)
    fix i sn ts assume i: "i \<in> set [0..<nat (sint (kc_ackcount kcp))]" "ikcp_ack_get i kcp = Some (sn, ts)"
    then have "i < unat (kc_ackcount kcp)" "i < length (kc_acklist kcp)" "kc_acklist kcp ! i = (sn, ts)"
      using nat_sint_le [of "kc_ackcount kcp"] by (auto simp: ikcp_ack_get_def split: if_splits)
    then have "(sn, ts) \<in> set (take (unat (kc_ackcount kcp)) (kc_acklist kcp))" by (force simp: in_set_conv_nth)
    then show "unat sn \<in> got kcp" using assms(1) by (force simp: end_ok_def acks_ok_def)
  qed
  from assms(5) False show ?thesis
  proof (rule flush_parts)
    fix seg box1 box2 resent rtomin buf k4 change lost box3 box4
    assume f1: "flush_acks [0..<nat (sint (kc_ackcount kcp))] kcp (flush_header kcp) ([], []) = Some (seg, box1)"
      and f2: "flush_probes (flush_start kcp) seg box1 = Some box2"
      and f3: "flush_segments resent rtomin (sg_wnd seg) (kc_snd_buf (flush_loaded (sg_wnd seg) kcp)) (flush_loaded (sg_wnd seg) kcp) 0 False box2 =
         Some (buf, k4, change, lost, box3)"
      and f4: "(if 0 < length (fst box3) then ikcp_output (k4\<lparr>kc_snd_buf := buf\<rparr>) box3 else Some box3) = Some box4"
      and f: "sent = snd box4"
        "kcp' = adjust_cwnd (flush_window ((flush_start kcp)\<lparr>kc_probe := 0\<rparr>)) resent change lost (k4\<lparr>kc_snd_buf := buf\<rparr>)"
    have b1: "box_ok S (got kcp) box1" "header_ok S (got kcp) seg" "sg_wnd seg = wnd"
      using flush_acks_ok [OF box_ok_empty header acks f1] by (simp_all add: wnd_def)
    have b2: "box_ok S (got kcp) box2" by (rule flush_probes_ok [OF b1(1,2) f2])
    have loaded: "flush_loaded wnd kcp = k3" by (simp add: flush_loaded_def k3_def k2_def Let_def)
    have "core k2 = core (kcp\<lparr>kc_ackcount := 0\<rparr>)" by (simp add: k2_def flush_start_def core_def probe_window_def Let_def)
    note c2 = core_eq [OF this]
    have e2: "end_ok m S T c G k2" "got k2 = got kcp" "kc_rcv_nxt k2 = kc_rcv_nxt kcp"
      using end_ok_no_acks [OF assms(1)] c2(2)
      by (simp_all add: c2(1)) (simp_all add: got_def k2_def flush_start_def probe_window_def Let_def)
    note k3 = move_to_buf_ok [OF e2(1) assms(2), where cwnd = "flush_window k2" and wnd = wnd, folded k3_def]
    have p: "\<forall>seg \<in> set (kc_snd_buf k3). sendable S seg" using k3(1) by (simp add: end_ok_def snd_ok_def)
    have seg: "box_ok S (got kcp) box3" "map seg_content buf = map seg_content (kc_snd_buf k3)" "core k4 = core k3"
      using flush_segments_ok [OF b2 p assms(4) _ _ f3 [unfolded b1(3), unfolded loaded]] rcv k3(3) e2(3) by auto
    have e4: "end_ok m S T c G k4" "got k4 = got kcp" "kc_snd_buf k4 = kc_snd_buf k3"
      using k3(1,2) e2(2) core_eq [OF seg(3)] seg(3) by (simp_all add: core_def)
    have "end_ok m S T c G (k4\<lparr>kc_snd_buf := buf\<rparr>)" using end_ok_content [OF e4(1)] seg(2) e4(3) by simp
    moreover have "got (k4\<lparr>kc_snd_buf := buf\<rparr>) = got kcp" using e4(2) by (simp add: got_def)
    moreover have "box_ok S (got kcp) box4" using f4 seg(1) output_ok by (auto split: if_splits)
    ultimately show ?thesis unfolding f core_eq [OF core_adjust_cwnd] by (simp add: box_ok_def)
  qed
qed

theorem update_ok:
  assumes "end_ok m S T c G kcp" "length S < 2147483648" "length T < 2147483648" "small_frags S"
    "ikcp_update now kcp = Some (sent, kcp')"
  shows "end_ok m S T c G kcp' \<and> got kcp' = got kcp \<and> (\<forall>d \<in> set sent. datagram_ok S (got kcp) d)"
proof -
  define k1 where "k1 = (if kc_updated kcp = 0 then kcp\<lparr>kc_current := now, kc_updated := 1, kc_ts_flush := now\<rparr>
    else kcp\<lparr>kc_current := now\<rparr>)"
  define slap where "slap = itimediff now (kc_ts_flush k1)"
  define k2 where "k2 = (if 10000 \<le> slap \<or> slap < - 10000 then k1\<lparr>kc_ts_flush := now\<rparr> else k1)"
  have "\<exists>t. ikcp_update now kcp = ikcp_flush (k2\<lparr>kc_ts_flush := t\<rparr>) \<or> ikcp_update now kcp = Some ([], k2)"
    unfolding ikcp_update_def Let_def by (auto simp: k1_def k2_def slap_def)
  then consider t where "ikcp_flush (k2\<lparr>kc_ts_flush := t\<rparr>) = Some (sent, kcp')" | "sent = []" "kcp' = k2"
    using assms(5) by auto
  then show ?thesis
  proof cases
    case 1
    have "core (k2\<lparr>kc_ts_flush := t\<rparr>) = core kcp" by (simp add: core_def k1_def k2_def)
    note c = core_eq [OF this]
    show ?thesis using flush_ok [OF _ assms(2-4) 1, where c = c and G = G] assms(1) by (simp add: c)
  next
    case 2
    have "core k2 = core kcp" by (simp add: core_def k1_def k2_def)
    note c = core_eq [OF this]
    show ?thesis using assms(1) by (simp add: c 2)
  qed
qed

end
