(* ===== verification/KcpFit.thy ===== *)
theory KcpFit
  imports KcpTransmit
begin

text \<open>
  The output buffer of \<open>ikcp_flush\<close>.  As long as the size of a datagram is not changed on the way, no
  segment is larger than a datagram allows: whatever the user sends and whatever bytes arrive, an
  update returns, writes inside its buffer, and sends datagrams that fit.
\<close>

subsection \<open>The output buffer\<close>

definition box_fits :: "nat \<Rightarrow> outbox \<Rightarrow> bool" where
  "box_fits M box \<longleftrightarrow> length (fst box) \<le> M \<and> (\<forall>d \<in> set (snd box). 0 < length d \<and> length d \<le> M)"

definition phys_ok :: "nat \<Rightarrow> ikcpcb \<Rightarrow> bool" where
  "phys_ok M kcp \<longleftrightarrow> unat (kc_mtu kcp) = M \<and> 50 \<le> M \<and> M < 2147483648 \<and> M \<le> kc_buffer kcp \<and> kc_output kcp"

definition phys :: "ikcpcb \<Rightarrow> uint \<times> nat \<times> bool" where
  "phys kcp = (kc_mtu kcp, kc_buffer kcp, kc_output kcp)"

lemma phys_ok_eq: "phys kcp' = phys kcp \<Longrightarrow> phys_ok M kcp' = phys_ok M kcp"
  by (simp add: phys_def phys_ok_def)

lemma output_fits:
  assumes "box_fits M box" "phys_ok M kcp"
  obtains box' where "ikcp_output kcp box = Some box'" "box_fits M box'"
proof -
  have "\<exists>box'. ikcp_output kcp box = Some box' \<and> box_fits M box'"
    using assms by (cases box) (auto simp: ikcp_output_def box_fits_def phys_ok_def)
  then show ?thesis using that by blast
qed

lemma make_room_fits:
  assumes "box_fits M box" "phys_ok M kcp" "need \<le> int M"
  obtains box' where "make_room need kcp box = Some box'" "box_fits M box'" "int (length (fst box')) + need \<le> int M"
proof (cases "sint (kc_mtu kcp) < int (length (fst box)) + need")
  case True
  obtain box2 where "ikcp_output kcp box = Some box2" "box_fits M box2" using output_fits assms(1,2) .
  then show ?thesis using True assms(3) by (intro that [of "([], snd box2)"])
    (auto simp: make_room_def box_fits_def split: prod.splits)
next
  case False
  then show ?thesis using assms(1,2) that [of box]
    by (simp add: make_room_def phys_ok_def sint_unat32)
qed

lemma put_bytes_fits:
  assumes "box_fits M box" "phys_ok M kcp" "length (fst box) + length bs \<le> M"
  shows "put_bytes bs kcp box = Some (fst box @ bs, snd box) \<and> box_fits M (fst box @ bs, snd box)"
  using assms by (simp add: put_bytes_def box_fits_def phys_ok_def)

lemma put_header_fits:
  assumes "box_fits M box" "phys_ok M kcp"
  obtains box' where "put_header seg kcp box = Some box'" "box_fits M box'"
proof -
  have "sint IKCP_OVERHEAD \<le> int M" using assms(2) by (simp add: IKCP_OVERHEAD_def phys_ok_def)
  then obtain b where b: "make_room (sint IKCP_OVERHEAD) kcp box = Some b" "box_fits M b"
    "int (length (fst b)) + sint IKCP_OVERHEAD \<le> int M"
    using make_room_fits assms by blast
  then have "length (fst b) + length (ikcp_encode_seg seg) \<le> M" by (simp add: IKCP_OVERHEAD_def)
  note put = put_bytes_fits [OF b(2) assms(2) this]
  show ?thesis using that put b(1) by (simp add: put_header_def)
qed

definition seg_fits :: "nat \<Rightarrow> ikcpseg \<Rightarrow> bool" where
  "seg_fits M seg \<longleftrightarrow> len_ok seg \<and> length (sg_data seg) + 24 \<le> M"

lemma put_segment_fits:
  assumes "box_fits M box" "phys_ok M kcp" "seg_fits M seg"
  obtains box' where "put_segment seg kcp box = Some box'" "box_fits M box'"
proof -
  have len: "unat (sg_len seg) = length (sg_data seg)" "length (sg_data seg) + 24 \<le> M" "M < 2147483648"
    using assms(2,3) by (auto simp: seg_fits_def len_ok_def phys_ok_def)
  have "unat (IKCP_OVERHEAD + sg_len seg) = 24 + length (sg_data seg)"
    using len by (subst unat_add_small) (simp_all add: IKCP_OVERHEAD_def)
  then have need: "sint (IKCP_OVERHEAD + sg_len seg) = int (24 + length (sg_data seg))"
    using len by (simp add: sint_unat32)
  then obtain b where b: "make_room (sint (IKCP_OVERHEAD + sg_len seg)) kcp box = Some b" "box_fits M b"
    "int (length (fst b)) + sint (IKCP_OVERHEAD + sg_len seg) \<le> int M"
    using make_room_fits assms(1,2) len(2) by (metis of_nat_mono add.commute)
  then have room: "length (fst b) + 24 + length (sg_data seg) \<le> M" using need by simp
  have "length (fst b) + length (ikcp_encode_seg seg) \<le> M" using room by simp
  note put = put_bytes_fits [OF b(2) assms(2) this]
  have "length (fst (fst b @ ikcp_encode_seg seg, snd b)) + length (take (unat (sg_len seg)) (sg_data seg)) \<le> M"
    using room len by simp
  note put2 = put_bytes_fits [OF conjunct2 [OF put] assms(2) this]
  show ?thesis using that put put2 b(1) len(1) by (simp add: put_segment_def)
qed

subsection \<open>A flush\<close>

lemma flush_acks_fits:
  assumes "box_fits M box" "phys_ok M kcp" "\<forall>i \<in> set is. i < length (kc_acklist kcp)"
  shows "\<exists>seg' box'. flush_acks is kcp seg box = Some (seg', box') \<and> box_fits M box'"
  using assms(1,3)
proof (induction "is" arbitrary: seg box)
  case (Cons i "is")
  obtain sn ts where a: "ikcp_ack_get i kcp = Some (sn, ts)"
    using Cons.prems(2) by (cases "kc_acklist kcp ! i") (simp add: ikcp_ack_get_def)
  obtain b where "put_header (seg\<lparr>sg_sn := sn, sg_ts := ts\<rparr>) kcp box = Some b" "box_fits M b"
    using put_header_fits [OF Cons.prems(1) assms(2)] .
  note b = this
  obtain seg' box' where "flush_acks is kcp (seg\<lparr>sg_sn := sn, sg_ts := ts\<rparr>) b = Some (seg', box')" "box_fits M box'"
    using Cons.IH [OF b(2), of "seg\<lparr>sg_sn := sn, sg_ts := ts\<rparr>"] Cons.prems(2) by force
  then show ?case using a b(1) by (cases box') (auto simp: put_header_def split: bind_splits)
qed simp

lemma maybe_header_fits:
  assumes "box_fits M box" "phys_ok M kcp"
  obtains box' where "(if c then put_header seg kcp box else Some box) = Some box'" "box_fits M box'"
proof (cases c)
  case True
  obtain b where "put_header seg kcp box = Some b" "box_fits M b" using put_header_fits [OF assms] .
  then show ?thesis using True that by simp
qed (use assms(1) that in simp)

lemma flush_probes_fits:
  assumes "box_fits M box" "phys_ok M kcp"
  obtains box' where "flush_probes kcp seg box = Some box'" "box_fits M box'"
proof -
  obtain b where b: "(if kc_probe kcp AND IKCP_ASK_SEND \<noteq> 0 then put_header (seg\<lparr>sg_cmd := IKCP_CMD_WASK\<rparr>) kcp box else Some box) = Some b"
    "box_fits M b" using maybe_header_fits [OF assms] .
  obtain b2 where "(if kc_probe kcp AND IKCP_ASK_TELL \<noteq> 0 then put_header (seg\<lparr>sg_cmd := IKCP_CMD_WINS\<rparr>) kcp b else Some b) = Some b2"
    "box_fits M b2" using maybe_header_fits [OF b(2) assms(2)] .
  then show ?thesis using that b(1) unfolding flush_probes_def by simp
qed

lemma seg_fits_content: "seg_content seg' = seg_content seg \<Longrightarrow> seg_fits M seg' = seg_fits M seg"
  by (simp add: seg_content_def seg_fits_def len_ok_def)

lemma flush_segments_fits:
  assumes "box_fits M box" "phys_ok M kcp" "\<forall>seg \<in> set p. seg_fits M seg"
  shows "\<exists>p' kcp' change' lost' box'. flush_segments resent rtomin wnd p kcp change lost box = Some (p', kcp', change', lost', box') \<and>
    box_fits M box' \<and> map seg_content p' = map seg_content p \<and> phys kcp' = phys kcp \<and> core kcp' = core kcp"
  using assms
proof (induction p arbitrary: kcp change lost box)
  case (Cons seg p)
  define why where "why = why_send resent kcp seg"
  define kcp1 where "kcp1 = (if why = Timeout then kcp\<lparr>kc_xmit := kc_xmit kcp + 1\<rparr> else kcp)"
  define seg1 where "seg1 = resend_update rtomin kcp seg why"
  define seg2 where "seg2 = seg1\<lparr>sg_ts := kc_current kcp, sg_wnd := wnd, sg_una := kc_rcv_nxt kcp\<rparr>"
  define kcp2 where "kcp2 = (if kc_dead_link kcp1 \<le> sg_xmit seg2 then kcp1\<lparr>kc_state := - 1\<rparr> else kcp1)"
  define lost2 where "lost2 = (lost \<or> why = Timeout)"
  define change2 where "change2 = (if why = Fast then change + 1 else change)"
  have f1: "kc_current kcp1 = kc_current kcp" "kc_rcv_nxt kcp1 = kc_rcv_nxt kcp"
    by (simp_all add: kcp1_def)
  have f: "phys kcp1 = phys kcp" "phys kcp2 = phys kcp" "core kcp1 = core kcp" "core kcp2 = core kcp"
    by (simp_all add: kcp1_def kcp2_def phys_def core_def)
  have c: "seg_content seg1 = seg_content seg" "seg_content seg2 = seg_content seg" by (simp_all add: seg1_def seg2_def)
  have step: "flush_segments resent rtomin wnd (seg # p) kcp change lost box = do {
      (seg, kcp, box) \<leftarrow> (if why = Quiet then Some (seg1, kcp1, box)
        else do { box \<leftarrow> put_segment seg2 kcp1 box; Some (seg2, kcp2, box) });
      (p, r) \<leftarrow> flush_segments resent rtomin wnd p kcp change2 lost2 box;
      Some (seg # p, r) }"
    unfolding flush_segments.simps Let_def why_def [symmetric] kcp1_def [symmetric] seg1_def [symmetric]
      f1 seg2_def [symmetric] kcp2_def [symmetric] lost2_def [symmetric] change2_def [symmetric] by (rule refl)
  have segs: "\<forall>seg \<in> set p. seg_fits M seg" using Cons.prems(3) by simp
  have p: "phys_ok M kcp1" "phys_ok M kcp2" using Cons.prems(2) f phys_ok_eq by blast+
  show ?case
  proof (cases "why = Quiet")
    case True
    show ?thesis using Cons.IH [OF Cons.prems(1) p(1) segs, of change2 lost2] f c unfolding step
      by (auto simp: True)
  next
    case False
    have "seg_fits M seg2" using Cons.prems(3) seg_fits_content [OF c(2)] by simp
    then obtain b where b: "put_segment seg2 kcp1 box = Some b" "box_fits M b"
      using put_segment_fits Cons.prems(1) p(1) by blast
    show ?thesis using Cons.IH [OF b(2) p(2) segs, of change2 lost2] f c b(1) False unfolding step by auto
  qed
qed simp

text \<open>The invariant: the segments that wait or are under way fit into a datagram.\<close>

definition room_ok :: "nat \<Rightarrow> ikcpcb \<Rightarrow> bool" where
  "room_ok M kcp \<longleftrightarrow> phys_ok M kcp \<and> kc_mss kcp = of_nat (M - 24) \<and>
     (\<forall>seg \<in> set (kc_snd_queue kcp) \<union> set (kc_snd_buf kcp). seg_fits M seg) \<and>
     unat (kc_ackcount kcp) \<le> length (kc_acklist kcp)"

lemma flush_fits:
  assumes "room_ok M kcp"
  shows "\<exists>sent kcp'. ikcp_flush kcp = Some (sent, kcp') \<and> room_ok M kcp' \<and> (\<forall>d \<in> set sent. 0 < length d \<and> length d \<le> M)"
proof (cases "kc_updated kcp = 0")
  case True
  then show ?thesis using assms by (simp add: ikcp_flush_def)
next
  case False
  define k1 where "k1 = probe_window (kcp\<lparr>kc_ackcount := 0\<rparr>)"
  define k2 where "k2 = k1\<lparr>kc_probe := 0\<rparr>"
  have phys: "phys_ok M kcp" and segs: "\<forall>seg \<in> set (kc_snd_queue kcp) \<union> set (kc_snd_buf kcp). seg_fits M seg"
    and acks: "unat (kc_ackcount kcp) \<le> length (kc_acklist kcp)"
    using assms by (auto simp: room_ok_def)
  have same: "phys k1 = phys kcp" "phys k2 = phys kcp" "kc_snd_queue k2 = kc_snd_queue kcp" "kc_snd_buf k2 = kc_snd_buf kcp"
    "kc_mss k2 = kc_mss kcp" "kc_acklist k2 = kc_acklist kcp" "kc_ackcount k2 = 0"
    by (simp_all add: k2_def k1_def phys_def probe_window_def Let_def)
  have "\<forall>i \<in> set [0..<nat (sint (kc_ackcount kcp))]. i < length (kc_acklist kcp)"
    using nat_sint_le [of "kc_ackcount kcp"] acks by auto
  then obtain seg box1 where f1: "flush_acks [0..<nat (sint (kc_ackcount kcp))] kcp (flush_header kcp) ([], []) = Some (seg, box1)"
    "box_fits M box1"
    using flush_acks_fits [of M "([], [])" kcp "[0..<nat (sint (kc_ackcount kcp))]" "flush_header kcp"] phys
    by (auto simp: box_fits_def)
  obtain box2 where f2: "flush_probes k1 seg box1 = Some box2" "box_fits M box2"
    using flush_probes_fits [OF f1(2)] phys phys_ok_eq [OF same(1)] by blast
  define k where "k = move_to_buf (flush_window k2) (sg_wnd seg) (kc_snd_queue k2) k2"
  define resent where "resent = (if 0 < kc_fastresend k then of_int (kc_fastresend k) else - 1 :: uint)"
  define rtomin where "rtomin = (if kc_nodelay k = 0 then of_int (kc_rx_rto k div 8) else 0 :: uint)"
  obtain j where k: "k = k2\<lparr>kc_snd_queue := drop j (kc_snd_queue k2),
     kc_snd_buf := kc_snd_buf k2 @ map2 (moved_seg k2 (sg_wnd seg)) (take j (kc_snd_queue k2)) (map (\<lambda>i. kc_snd_nxt k2 + of_nat i) [0..<j]),
     kc_nsnd_que := kc_nsnd_que k2 - of_nat j, kc_nsnd_buf := kc_nsnd_buf k2 + of_nat j,
     kc_snd_nxt := kc_snd_nxt k2 + of_nat j\<rparr>"
    using move_to_buf_eq [of "kc_snd_queue k2" "flush_window k2" "sg_wnd seg" k2] unfolding k_def by blast
  have moved: "seg_fits M (moved_seg k2 w s n) = seg_fits M s" for w s n
    by (simp add: moved_seg_def seg_fits_def len_ok_def)
  have ksegs: "\<forall>s \<in> set (kc_snd_buf k). seg_fits M s" "\<forall>s \<in> set (kc_snd_queue k). seg_fits M s"
    using segs same(3,4) by (auto simp: k moved dest!: set_zip_leftD in_set_takeD dest: in_set_dropD)
  have kphys: "phys k = phys kcp" using same(2) by (simp add: k phys_def)
  obtain buf k4 change lost box3 where f3: "flush_segments resent rtomin (sg_wnd seg) (kc_snd_buf k) k 0 False box2 =
      Some (buf, k4, change, lost, box3)" "box_fits M box3" "map seg_content buf = map seg_content (kc_snd_buf k)" "phys k4 = phys k"
      "core k4 = core k"
    using flush_segments_fits [OF f2(2) _ ksegs(1)] phys phys_ok_eq [OF kphys] by metis
  have k4phys: "phys (k4\<lparr>kc_snd_buf := buf\<rparr>) = phys kcp" using f3(4) kphys by (simp add: phys_def)
  obtain box4 where f4: "(if 0 < length (fst box3) then ikcp_output (k4\<lparr>kc_snd_buf := buf\<rparr>) box3 else Some box3) = Some box4"
    "box_fits M box4"
  proof (cases "0 < length (fst box3)")
    case True
    obtain b where "ikcp_output (k4\<lparr>kc_snd_buf := buf\<rparr>) box3 = Some b" "box_fits M b"
      using output_fits [OF f3(2)] phys phys_ok_eq [OF k4phys] by blast
    then show ?thesis using that True by simp
  qed (use that f3(2) in simp)
  let ?k5 = "adjust_cwnd (flush_window k2) resent change lost (k4\<lparr>kc_snd_buf := buf\<rparr>)"
  have flush: "ikcp_flush kcp = Some (snd box4, ?k5)"
    unfolding ikcp_flush_def Let_def k1_def [symmetric] k2_def [symmetric]
    using False f1(1) f2(1) f3(1) f4(1) unfolding resent_def rtomin_def k_def by simp
  have "\<forall>s \<in> set buf. seg_fits M s"
  proof
    fix s assume "s \<in> set buf"
    then have "seg_content s \<in> seg_content ` set (kc_snd_buf k)" using arg_cong [OF f3(3), of set] by auto
    then show "seg_fits M s" using ksegs(1) seg_fits_content by blast
  qed
  moreover have "kc_snd_queue k4 = kc_snd_queue k" "kc_mss k4 = kc_mss kcp" "kc_ackcount k4 = 0"
    using f3(5) same by (simp_all add: core_def k)
  moreover have "phys ?k5 = phys kcp" using k4phys by (simp add: adjust_cwnd_def Let_def phys_def)
  then have "phys_ok M ?k5" using phys phys_ok_eq by blast
  ultimately have "room_ok M ?k5" using ksegs(2) assms by (auto simp: room_ok_def adjust_cwnd_def Let_def)
  then show ?thesis using flush f4(2) by (auto simp: box_fits_def)
qed

lemma update_fits:
  assumes "room_ok M kcp"
  shows "\<exists>sent kcp'. ikcp_update now kcp = Some (sent, kcp') \<and> room_ok M kcp' \<and> (\<forall>d \<in> set sent. 0 < length d \<and> length d \<le> M)"
proof -
  define k1 where "k1 = (if kc_updated kcp = 0 then kcp\<lparr>kc_current := now, kc_updated := 1, kc_ts_flush := now\<rparr>
    else kcp\<lparr>kc_current := now\<rparr>)"
  define slap where "slap = itimediff now (kc_ts_flush k1)"
  define k2 where "k2 = (if 10000 \<le> slap \<or> slap < - 10000 then k1\<lparr>kc_ts_flush := now\<rparr> else k1)"
  have "\<exists>t. ikcp_update now kcp = ikcp_flush (k2\<lparr>kc_ts_flush := t\<rparr>) \<or> ikcp_update now kcp = Some ([], k2)"
    unfolding ikcp_update_def Let_def by (auto simp: k1_def k2_def slap_def)
  moreover have "room_ok M k2" "room_ok M (k2\<lparr>kc_ts_flush := t\<rparr>)" for t
    using assms by (simp_all add: room_ok_def phys_ok_def k2_def k1_def)
  ultimately show ?thesis using flush_fits by (metis empty_iff list.set(1))
qed

subsection \<open>The other operations\<close>

text \<open>What an operation that only takes segments off the send buffer does to the invariant.\<close>

definition leaner :: "ikcpcb \<Rightarrow> ikcpcb \<Rightarrow> bool" where
  "leaner kcp kcp' \<longleftrightarrow> phys kcp' = phys kcp \<and> kc_mss kcp' = kc_mss kcp \<and> kc_snd_queue kcp' = kc_snd_queue kcp \<and>
     seg_content ` set (kc_snd_buf kcp') \<subseteq> seg_content ` set (kc_snd_buf kcp) \<and>
     (unat (kc_ackcount kcp) \<le> length (kc_acklist kcp) \<longrightarrow> unat (kc_ackcount kcp') \<le> length (kc_acklist kcp'))"

lemma leaner_refl [simp, intro]: "leaner kcp kcp"
  by (simp add: leaner_def)

lemma leaner_trans [trans]:
  assumes "leaner a b" "leaner b c"
  shows "leaner a c"
proof -
  have "seg_content ` set (kc_snd_buf c) \<subseteq> seg_content ` set (kc_snd_buf a)"
    by (rule subset_trans [of _ "seg_content ` set (kc_snd_buf b)"]) (use assms in \<open>simp_all add: leaner_def\<close>)
  then show ?thesis using assms by (simp add: leaner_def)
qed

lemma room_ok_leaner:
  assumes "room_ok M kcp" "leaner kcp kcp'"
  shows "room_ok M kcp'"
proof -
  have "seg_fits M s" if "s \<in> set (kc_snd_buf kcp')" for s
  proof -
    have "seg_content s \<in> seg_content ` set (kc_snd_buf kcp)" using assms(2) that by (auto simp: leaner_def)
    then obtain s' where s': "s' \<in> set (kc_snd_buf kcp)" "seg_content s = seg_content s'" by blast
    then have "seg_fits M s'" using assms(1) by (simp add: room_ok_def)
    then show ?thesis using seg_fits_content [OF s'(2)] by simp
  qed
  moreover have "phys kcp' = phys kcp" using assms(2) by (simp add: leaner_def)
  then have "phys_ok M kcp'" using phys_ok_eq assms(1) unfolding room_ok_def by blast
  ultimately show ?thesis using assms by (auto simp: room_ok_def leaner_def)
qed

lemma leaner_shrink: "leaner kcp (ikcp_shrink_buf kcp)"
  by (simp add: leaner_def ikcp_shrink_buf_def phys_def)

lemma leaner_update_ack: "ikcp_update_ack rtt kcp = Some kcp' \<Longrightarrow> leaner kcp kcp'"
  by (auto simp: leaner_def phys_def ikcp_update_ack_def Let_def split: bind_splits if_splits)

lemma leaner_open_cwnd: "open_cwnd kcp = Some kcp' \<Longrightarrow> leaner kcp kcp'"
  by (auto simp: leaner_def phys_def open_cwnd_def Let_def split: bind_splits if_splits)

lemma leaner_parse_una: "leaner kcp (ikcp_parse_una una kcp)"
proof -
  obtain j where "ikcp_parse_una una kcp =
      kcp\<lparr>kc_snd_buf := drop j (kc_snd_buf kcp), kc_nsnd_buf := kc_nsnd_buf kcp - of_nat j\<rparr>"
    using drop_una_eq [of "kc_snd_buf kcp" una kcp] by (auto simp: ikcp_parse_una_def)
  then show ?thesis by (auto simp: leaner_def phys_def dest: in_set_dropD)
qed

lemma leaner_parse_ack: "leaner kcp (ikcp_parse_ack sn kcp)"
  using remove_sn_set(1) [of sn "kc_snd_buf kcp"] by (auto simp: ikcp_parse_ack_def leaner_def phys_def split: prod.splits)

lemma leaner_parse_fastack: "leaner kcp (ikcp_parse_fastack sn kcp)"
  using arg_cong [OF count_skipped_content [of sn "kc_snd_buf kcp"], of set]
  by (simp add: ikcp_parse_fastack_def leaner_def phys_def)

lemma leaner_ack_push: "ikcp_ack_push sn ts kcp = Some kcp' \<Longrightarrow> leaner kcp kcp'"
proof (cases "unat (kc_ackcount kcp) \<le> length (kc_acklist kcp)")
  case True
  assume "ikcp_ack_push sn ts kcp = Some kcp'"
  then obtain as n b where "kcp' = kcp\<lparr>kc_acklist := as, kc_ackcount := n, kc_ackblock := b\<rparr>" "unat n \<le> length as"
    using ack_push_ok [OF True] by blast
  then show ?thesis by (simp add: leaner_def phys_def)
next
  case False
  assume "ikcp_ack_push sn ts kcp = Some kcp'"
  then show ?thesis using False
    by (auto simp: ikcp_ack_push_def leaner_def phys_def Let_def split: bind_splits if_splits)
qed

lemma leaner_parse_data: "leaner kcp (ikcp_parse_data new kcp)"
proof -
  obtain b q nb n r where "ikcp_parse_data new kcp =
      kcp\<lparr>kc_rcv_buf := b, kc_rcv_queue := q, kc_nrcv_buf := nb, kc_nrcv_que := n, kc_rcv_nxt := r\<rparr>"
    using parse_data_frame by blast
  then show ?thesis by (simp add: leaner_def phys_def)
qed

lemma leaner_input_segment:
  assumes "input_segment h data acked kcp = Some (acked', kcp')"
  shows "leaner kcp kcp'"
proof -
  define k where "k = ikcp_shrink_buf (ikcp_parse_una (sg_una h) (kcp\<lparr>kc_rmt_wnd := sg_wnd h\<rparr>))"
  have "leaner kcp (kcp\<lparr>kc_rmt_wnd := sg_wnd h\<rparr>)" by (simp add: leaner_def phys_def)
  then have k: "leaner kcp k" unfolding k_def using leaner_parse_una leaner_shrink leaner_trans by blast
  have "input_ack h k = Some kcp' \<or> input_push h data k = Some kcp' \<or>
      kcp' = k\<lparr>kc_probe := kc_probe k OR IKCP_ASK_TELL\<rparr> \<or> kcp' = k"
    using assms unfolding input_segment_def Let_def k_def [symmetric] by (auto split: if_splits)
  then consider (ack) "input_ack h k = Some kcp'" | (push) "input_push h data k = Some kcp'"
    | (tell) "kcp' = k\<lparr>kc_probe := kc_probe k OR IKCP_ASK_TELL\<rparr>" | (none) "kcp' = k" by blast
  then have "leaner k kcp'"
  proof cases
    case ack
    have "\<exists>k2. leaner k k2 \<and> kcp' = ikcp_shrink_buf (ikcp_parse_ack (sg_sn h) k2)"
      using ack by (fastforce simp: input_ack_def split: bind_splits if_splits dest: leaner_update_ack)
    then show ?thesis using leaner_parse_ack leaner_shrink leaner_trans by blast
  next
    case push
    have "kcp' = k \<or> (\<exists>k2. ikcp_ack_push (sg_sn h) (sg_ts h) k = Some k2 \<and>
        (kcp' = k2 \<or> (\<exists>new. kcp' = ikcp_parse_data new k2)))"
      using push by (auto simp: input_push_def split: bind_splits if_splits)
    then show ?thesis using leaner_ack_push leaner_parse_data leaner_trans leaner_refl by blast
  qed (simp_all add: leaner_def phys_def)
  then show ?thesis using k leaner_trans by blast
qed

lemma leaner_input_loop: "input_loop data sz acked kcp = Some (r, acked', kcp') \<Longrightarrow> leaner kcp kcp'"
proof (induction data sz acked kcp rule: input_loop.induct)
  case (1 data sz acked kcp)
  show ?case
  proof (cases "kcp' = kcp")
    case False
    obtain conv p h rest acked2 kcp2 where s: "\<not> sz < sint IKCP_OVERHEAD" "ikcp_decode32u data = Some (conv, p)"
      "conv = kc_conv kcp" "decode_header conv p = Some (h, rest)"
      "\<not> (sz - uint IKCP_OVERHEAD < uint (sg_len h) \<or> sint (sg_len h) < 0)" "known_cmd (sg_cmd h)"
      "input_segment h rest acked kcp = Some (acked2, kcp2)"
      "input_loop (drop (unat (sg_len h)) rest) (sz - uint IKCP_OVERHEAD - uint (sg_len h)) acked2 kcp2 = Some (r, acked', kcp')"
      using 1(2) False unfolding input_loop.simps [of data sz acked kcp]
      by (auto split: if_splits option.splits)
    have "leaner kcp2 kcp'"
      using 1(1) [OF s(1,2) refl, of "(h, rest)" h rest "(acked2, kcp2)" acked2 kcp2] s by auto
    then show ?thesis using leaner_input_segment [OF s(7)] leaner_trans by blast
  qed simp
qed

lemma leaner_input:
  assumes "ikcp_input data sz kcp = Some (r, kcp')"
  shows "leaner kcp kcp'"
proof (cases "input_loop data sz None kcp")
  case None
  then have "kcp' = kcp" using assms by (auto simp: ikcp_input_def split: if_splits)
  then show ?thesis by simp
next
  case (Some x)
  then obtain r1 acked k where loop: "input_loop data sz None kcp = Some (r1, acked, k)" by (cases x) auto
  define k2 where "k2 = (case acked of None \<Rightarrow> k | Some (maxack, latest_ts) \<Rightarrow> ikcp_parse_fastack maxack k)"
  have k: "leaner kcp k" using leaner_input_loop [OF loop] .
  then have k2: "leaner kcp k2" using leaner_parse_fastack leaner_trans by (auto simp: k2_def split: option.splits)
  have "kcp' = kcp \<or> kcp' = k \<or> kcp' = k2 \<or> open_cwnd k2 = Some kcp'"
    using assms loop
    by (simp add: ikcp_input_def Let_def k2_def [symmetric] split: if_splits bind_splits)
  then show ?thesis using k k2 leaner_open_cwnd leaner_trans by blast
qed

lemma leaner_recv:
  assumes "ikcp_recv len kcp = Some (r, bs, kcp')"
  shows "leaner kcp kcp'"
proof -
  have merge: "leaner k k'" if "merge_fragments peek q buf n k = Some (buf', n', k')" for peek q buf n k buf' n' k'
    using that
  proof (induction q arbitrary: buf n k)
    case (Cons seg q)
    let ?k = "if peek then k else k\<lparr>kc_rcv_queue := q, kc_nrcv_que := kc_nrcv_que k - 1\<rparr>"
    have "leaner k ?k" by (simp add: leaner_def phys_def)
    moreover have "leaner ?k k'" using Cons by (auto simp: Let_def split: if_splits)
    ultimately show ?case by (rule leaner_trans)
  qed simp
  have move: "leaner k (move_available p k)" for p k
    using move_available_eq [of p k] by (auto simp: leaner_def phys_def)
  have tell: "leaner k (k\<lparr>kc_probe := w\<rparr>)" for k w by (simp add: leaner_def phys_def)
  consider "kcp' = kcp" | buf n k where "merge_fragments (len < 0) (kc_rcv_queue kcp) [] 0 kcp = Some (buf, n, k)"
      "kcp' = move_available (kc_rcv_buf k) k \<or> (\<exists>w. kcp' = (move_available (kc_rcv_buf k) k)\<lparr>kc_probe := w\<rparr>)"
  proof -
    have "kcp' = kcp \<or> (\<exists>buf n k. merge_fragments (len < 0) (kc_rcv_queue kcp) [] 0 kcp = Some (buf, n, k) \<and>
      (kcp' = move_available (kc_rcv_buf k) k \<or> (\<exists>w. kcp' = (move_available (kc_rcv_buf k) k)\<lparr>kc_probe := w\<rparr>)))"
      using assms by (auto simp: ikcp_recv_def Let_def split: if_splits bind_splits)
    then show ?thesis using that by blast
  qed
  then show ?thesis
  proof cases
    case 2
    have "leaner kcp (move_available (kc_rcv_buf k) k)" using leaner_trans [OF merge [OF 2(1)] move] .
    then show ?thesis using 2(2) leaner_trans [OF _ tell] by blast
  qed simp
qed

text \<open>What is sent is cut to fit, in message and in stream mode.\<close>

lemma send_fragments_fits:
  assumes "send_fragments n buf len kcp = Some kcp'" "sint (kc_mss kcp) = int M - 24" "24 \<le> M" "M < 2147483648"
  shows "\<exists>segs x. kcp' = kcp\<lparr>kc_snd_queue := kc_snd_queue kcp @ segs, kc_nsnd_que := x\<rparr> \<and> (\<forall>seg \<in> set segs. seg_fits M seg)"
  using assms(1,2)
proof (induction n arbitrary: buf len kcp)
  case 0
  then show ?case by (intro exI [of _ "[]"] exI [of _ "kc_nsnd_que kcp"]) simp
next
  case (Suc n)
  define size where "size = (if sint (kc_mss kcp) < len then sint (kc_mss kcp) else len)"
  define seg where "seg = (ikcp_segment_new (take (nat size) buf))\<lparr>sg_frg := if kc_stream kcp = 0 then of_nat n else 0\<rparr>"
  let ?k = "kcp\<lparr>kc_snd_queue := kc_snd_queue kcp @ [seg], kc_nsnd_que := kc_nsnd_que kcp + 1\<rparr>"
  have s: "0 \<le> size" "size \<le> int (length buf)" "send_fragments n (drop (nat size) buf) (len - size) ?k = Some kcp'"
    using Suc.prems(1) by (auto simp: Let_def size_def [symmetric] seg_def [symmetric] split: if_splits)
  have "size \<le> int M - 24" using Suc.prems(2) by (auto simp: size_def)
  then have "length (take (nat size) buf) + 24 \<le> M" using s(1,2) assms(3) by simp
  then have fit: "seg_fits M seg"
    using assms(4) by (simp add: seg_def seg_fits_def len_ok_def ikcp_segment_new_def unat_of_nat32)
  obtain segs x where "kcp' = ?k\<lparr>kc_snd_queue := kc_snd_queue ?k @ segs, kc_nsnd_que := x\<rparr>" "\<forall>seg \<in> set segs. seg_fits M seg"
    using Suc.IH [OF s(3)] Suc.prems(2) by auto
  then show ?case using fit by (intro exI [of _ "seg # segs"] exI [of _ x]) auto
qed

lemma segment_new_fits:
  assumes "length bs + 24 \<le> M" "M < 2147483648"
  shows "seg_fits M (ikcp_segment_new bs)"
  using assms by (simp add: seg_fits_def len_ok_def ikcp_segment_new_def unat_of_nat32)

lemma extend_last_fits:
  assumes "room_ok M kcp" "extend_last buf len kcp = Some (buf', len', kcp')"
  shows "room_ok M kcp' \<and> kc_stream kcp' = kc_stream kcp"
proof (cases "kc_snd_queue kcp = [] \<or> \<not> sg_len (last (kc_snd_queue kcp)) < kc_mss kcp")
  case True
  then show ?thesis using assms by (auto simp: extend_last_def split: if_splits)
next
  case False
  define old where "old = last (kc_snd_queue kcp)"
  have mem: "old \<in> set (kc_snd_queue kcp)" using False by (simp add: old_def)
  define capacity where "capacity = sint (kc_mss kcp - sg_len old)"
  define extend where "extend = (if len < capacity then len else capacity)"
  define new where "new = ikcp_segment_new (take (unat (sg_len old)) (sg_data old) @ take (nat extend) buf)"
  have s: "0 \<le> extend" "extend \<le> int (length buf)"
    "kcp' = kcp\<lparr>kc_snd_queue := butlast (kc_snd_queue kcp) @ [new]\<rparr>"
    using assms(2) False
    by (auto simp: extend_last_def Let_def old_def [symmetric] capacity_def [symmetric] extend_def [symmetric] new_def [symmetric]
        split: if_splits)
  have M: "50 \<le> M" "M < 2147483648" "kc_mss kcp = of_nat (M - 24)" using assms(1) by (auto simp: room_ok_def phys_ok_def)
  have len: "unat (sg_len old) = length (sg_data old)" "length (sg_data old) + 24 \<le> M"
    using assms(1) mem by (auto simp: room_ok_def seg_fits_def len_ok_def)
  have "M - 24 < 4294967296" using M by linarith
  then have mss: "unat (kc_mss kcp) = M - 24" unfolding M(3) by (rule unat_of_nat32)
  have "unat (kc_mss kcp - sg_len old) = M - 24 - length (sg_data old)"
    using mss len by (subst unat_sub_small) simp_all
  then have "capacity = int (M - 24 - length (sg_data old))" using M by (simp add: capacity_def sint_unat32)
  then have "extend \<le> int (M - 24 - length (sg_data old))" by (auto simp: extend_def)
  then have "length (take (unat (sg_len old)) (sg_data old) @ take (nat extend) buf) + 24 \<le> M"
    using s(1,2) len by simp
  then have "seg_fits M new" using M(2) unfolding new_def by (rule segment_new_fits)
  then show ?thesis using assms(1) unfolding s(3) by (auto simp: room_ok_def phys_ok_def dest: in_set_butlastD)
qed

lemma send_fits:
  assumes "room_ok M kcp" "ikcp_send buf len kcp = Some (r, kcp')"
  shows "room_ok M kcp'"
proof -
  have frag: "room_ok M k'" if "room_ok M k" "send_fragments n b l k = Some k'" for n b l k k'
  proof -
    have M: "50 \<le> M" "M < 2147483648" "kc_mss k = of_nat (M - 24)" using that(1) by (auto simp: room_ok_def phys_ok_def)
    then have "M - 24 < 2147483648" "int (M - 24) = int M - 24" by linarith+
    then have "sint (kc_mss k) = int M - 24" unfolding M(3) by (simp only: sint_of_nat32)
    then have "\<exists>segs x. k' = k\<lparr>kc_snd_queue := kc_snd_queue k @ segs, kc_nsnd_que := x\<rparr> \<and> (\<forall>seg \<in> set segs. seg_fits M seg)"
      using send_fragments_fits [OF that(2)] M by auto
    then show ?thesis using that(1) by (auto simp: room_ok_def phys_ok_def)
  qed
  have "kcp' = kcp \<or> (\<exists>b l k n. (if kc_stream kcp \<noteq> 0 then extend_last buf len kcp else Some (buf, len, kcp)) = Some (b, l, k) \<and>
      (kcp' = k \<or> send_fragments n b l k = Some kcp'))"
    using assms(2) by (fastforce simp: ikcp_send_def Let_def split: bind_splits if_splits)
  then show ?thesis
  proof (elim disjE exE conjE)
    fix b l k n
    assume e: "(if kc_stream kcp \<noteq> 0 then extend_last buf len kcp else Some (buf, len, kcp)) = Some (b, l, k)"
    have k: "room_ok M k" using e assms(1) extend_last_fits [OF assms(1), of buf len b l k] by (auto split: if_splits)
    {
      assume "kcp' = k"
      then show ?thesis using k by simp
    next
      assume "send_fragments n b l k = Some kcp'"
      then show ?thesis using frag k by blast
    }
  qed (use assms(1) in simp)
qed

subsection \<open>Any use of a control block\<close>

text \<open>Whatever calls its user makes, after the size of a datagram is set, and whatever bytes it is fed.\<close>

inductive kcp_use :: "int \<Rightarrow> ikcpcb \<Rightarrow> bool" where
  start: "50 \<le> mtu \<Longrightarrow> mtu \<le> 1431655741 \<Longrightarrow> kcp_use mtu (snd (ikcp_setmtu mtu (ikcp_setoutput (ikcp_create conv))))"
| send: "kcp_use mtu kcp \<Longrightarrow> ikcp_send buf len kcp = Some (r, kcp') \<Longrightarrow> kcp_use mtu kcp'"
| recv: "kcp_use mtu kcp \<Longrightarrow> ikcp_recv len kcp = Some (r, bs, kcp') \<Longrightarrow> kcp_use mtu kcp'"
| input: "kcp_use mtu kcp \<Longrightarrow> ikcp_input data sz kcp = Some (r, kcp') \<Longrightarrow> kcp_use mtu kcp'"
| update: "kcp_use mtu kcp \<Longrightarrow> ikcp_update now kcp = Some (sent, kcp') \<Longrightarrow> kcp_use mtu kcp'"
| flush: "kcp_use mtu kcp \<Longrightarrow> ikcp_flush kcp = Some (sent, kcp') \<Longrightarrow> kcp_use mtu kcp'"
| wndsize: "kcp_use mtu kcp \<Longrightarrow> kcp_use mtu (ikcp_wndsize sndwnd rcvwnd kcp)"
| nodelay: "kcp_use mtu kcp \<Longrightarrow> kcp_use mtu (ikcp_nodelay nodelay interval resend nc kcp)"
| interval: "kcp_use mtu kcp \<Longrightarrow> kcp_use mtu (ikcp_interval interval kcp)"
| streaming: "kcp_use mtu kcp \<Longrightarrow> kcp_use mtu (kcp\<lparr>kc_stream := n\<rparr>)"

lemma kcp_use_room: "kcp_use mtu kcp \<Longrightarrow> room_ok (nat mtu) kcp"
proof (induction rule: kcp_use.induct)
  case (start mtu conv)
  define M where "M = nat mtu"
  have M: "mtu = int M" "50 \<le> M" "M \<le> 1431655741" using start by (simp_all add: M_def)
  have "(of_nat M + 24) * 3 = (of_nat ((M + 24) * 3) :: uint)" by simp
  moreover have "(M + 24) * 3 < 4294967296" using M(3) by simp
  ultimately have "unat ((of_nat M + 24) * 3 :: uint) = (M + 24) * 3" by (simp only: unat_of_nat32)
  moreover have "(of_nat M - 24 :: uint) = of_nat (M - 24)" using M by simp
  ultimately show ?case using M
    by (simp add: ikcp_setmtu_def ikcp_setoutput_def ikcp_create_def IKCP_OVERHEAD_def room_ok_def phys_ok_def unat_of_nat32)
next
  case (update mtu kcp now sent kcp')
  then show ?case using update_fits [of "nat mtu" kcp now] by auto
next
  case (flush mtu kcp sent kcp')
  then show ?case using flush_fits [of "nat mtu" kcp] by auto
qed (auto intro: send_fits room_ok_leaner leaner_recv leaner_input,
     auto simp: room_ok_def phys_ok_def ikcp_wndsize_def ikcp_nodelay_def ikcp_interval_def Let_def)



text \<open>When the size is reduced while larger segments wait, the buffer is overrun.\<close>

theorem kcp_setmtu_overrun:
  "(let kcp = snd (ikcp_setmtu 400 (ikcp_setoutput (ikcp_create 7)));
        kcp = snd (the (ikcp_send (replicate 300 0) 300 (ikcp_nodelay 1 10 0 1 kcp)));
        kcp = snd (ikcp_setmtu 50 kcp)
    in ikcp_update 0 kcp) = None"
  by code_simp

end
