(* ===== verification/KcpTimers.thy ===== *)
theory KcpTimers
  imports KcpFit
begin

text \<open>
  Times and acknowledgements of one end: the bounds of the retransmission timeout and the forged
  acknowledgement that breaks its arithmetic, the growth of the list of pending acknowledgements, the
  promise of \<open>ikcp_check\<close>, and that what is not acknowledged is sent again.
\<close>

subsection \<open>Headers\<close>

text \<open>C35: the segment header that \<open>ikcp_encode_seg\<close> writes is read back field by field by the decoding steps
  of \<open>ikcp_input\<close>, whatever follows it, when the command, the fragment number and the window fit into
  the one and two bytes they have on the wire.\<close>

theorem kcp_header_roundtrip:
  assumes "unat (sg_cmd seg) < 256" "unat (sg_frg seg) < 256" "unat (sg_wnd seg) < 65536"
  shows "\<exists>p h. ikcp_decode32u (ikcp_encode_seg seg @ data) = Some (sg_conv seg, p) \<and>
    decode_header (sg_conv seg) p = Some (h, data) \<and> ikcp_encode_seg h = ikcp_encode_seg seg \<and>
    (sg_conv h, sg_cmd h, sg_frg h, sg_wnd h, sg_ts h, sg_sn h, sg_una h, sg_len h) =
    (sg_conv seg, sg_cmd seg, sg_frg seg, sg_wnd seg, sg_ts seg, sg_sn seg, sg_una seg, sg_len seg)"
proof -
  have "ucast (ucast (sg_wnd seg) :: 16 word) = sg_wnd seg"
    using assms(3) by (simp add: word_unat_eq_iff unsigned_ucast_eq unsigned_take_bit_eq take_bit_nat_eq_self)
  then have "(sg_conv (as_read seg), sg_cmd (as_read seg), sg_frg (as_read seg), sg_wnd (as_read seg), sg_ts (as_read seg),
      sg_sn (as_read seg), sg_una (as_read seg), sg_len (as_read seg)) =
    (sg_conv seg, sg_cmd seg, sg_frg seg, sg_wnd seg, sg_ts seg, sg_sn seg, sg_una seg, sg_len seg)"
    using assms(1,2) by (simp add: as_read_def ucast_ucast_byte)
  moreover from this have "ikcp_encode_seg (as_read seg) = ikcp_encode_seg seg" by (simp add: ikcp_encode_seg_def)
  ultimately show ?thesis using decode_header_encode [of seg data] by auto
qed

definition example_seg :: ikcpseg where
  "example_seg = (ikcp_segment_new [])\<lparr>sg_conv := 7, sg_cmd := IKCP_CMD_PUSH, sg_frg := 3, sg_wnd := 128, sg_ts := 0x01020304,
     sg_sn := 5, sg_una := 4, sg_len := 2\<rparr>"

theorem kcp_header_roundtrip_witness:
  "\<exists>p h. ikcp_decode32u (ikcp_encode_seg example_seg @ [1, 2]) = Some (7, p) \<and> decode_header 7 p = Some (h, [1, 2]) \<and>
    sg_ts h = 0x01020304"
  using kcp_header_roundtrip [of example_seg "[1, 2]"] by (auto simp: example_seg_def ikcp_cmds ikcp_segment_new_def)

subsection \<open>The retransmission timeout\<close>

definition rtt_ok :: "ikcpcb \<Rightarrow> bool" where
  "rtt_ok kcp \<longleftrightarrow> 0 \<le> kc_rx_srtt kcp \<and> kc_rx_srtt kcp < 268435456 \<and> 0 \<le> kc_rx_rttval kcp \<and> kc_rx_rttval kcp < 268435456 \<and>
     0 \<le> kc_rx_minrto kcp \<and> kc_rx_minrto kcp \<le> 60000"

lemma sint_ibound:
  assumes "0 \<le> lo" "lo \<le> 60000"
  shows "lo \<le> sint (ibound (of_int lo) w IKCP_RTO_MAX) \<and> sint (ibound (of_int lo) w IKCP_RTO_MAX) \<le> 60000"
proof -
  obtain n where n: "lo = int n" "n \<le> 60000" using assms by (metis nat_le_iff nonneg_int_cases of_nat_le_iff of_nat_numeral)
  have lo: "unat (of_nat n :: uint) = n" using n(2) by (intro unat_of_nat32) simp
  have M: "unat IKCP_RTO_MAX = 60000" by (simp add: IKCP_RTO_MAX_def)
  have b: "unat (ibound (of_nat n) w IKCP_RTO_MAX) = min (max n (unat w)) 60000"
    using lo M by (auto simp: ibound_def imin_def imax_def word_le_nat_alt)
  then have "sint (ibound (of_nat n) w IKCP_RTO_MAX) = int (min (max n (unat w)) 60000)"
    by (subst sint_unat32) simp_all
  then show ?thesis using n by simp
qed

lemma sdiv_nonneg: "0 \<le> a \<Longrightarrow> 0 < b \<Longrightarrow> (a :: int) sdiv b = a div b"
  by (cases "a = 0") (simp_all add: signed_divide_int_def)

lemma int32_small: "0 \<le> n \<Longrightarrow> n \<le> 2147483647 \<Longrightarrow> int32 n = Some n"
  by (simp add: int32_def)

text \<open>C12: as long as round trip times are below \<open>2 ^ 28\<close> milliseconds (three days), the estimate of a round
  trip never overflows, stays below that bound, and the timeout it gives lies between the minimum
  that is set and 60 seconds.\<close>

theorem kcp_rto_bounds:
  assumes "rtt_ok kcp" "0 \<le> rtt" "rtt < 268435456"
  shows "\<exists>kcp'. ikcp_update_ack rtt kcp = Some kcp' \<and> rtt_ok kcp' \<and> kc_rx_minrto kcp \<le> kc_rx_rto kcp' \<and> kc_rx_rto kcp' \<le> 60000"
proof -
  have ok: "0 \<le> kc_rx_srtt kcp" "kc_rx_srtt kcp < 268435456" "0 \<le> kc_rx_rttval kcp" "kc_rx_rttval kcp < 268435456"
    "0 \<le> kc_rx_minrto kcp" "kc_rx_minrto kcp \<le> 60000"
    using assms(1) by (simp_all add: rtt_ok_def)
  note rto = sint_ibound [OF ok(5,6)]
  show ?thesis
  proof (cases "kc_rx_srtt kcp = 0")
    case True
    have "0 \<le> rtt div 2" "rtt div 2 < 268435456" using assms(2,3) by auto
    then show ?thesis using True ok(5,6) assms(2,3) rto
      by (simp add: ikcp_update_ack_def sdiv_nonneg int32_small Let_def rtt_ok_def)
  next
    case False
    define delta where "delta = \<bar>rtt - kc_rx_srtt kcp\<bar>"
    have d: "int32 (rtt - kc_rx_srtt kcp) = Some (rtt - kc_rx_srtt kcp)"
      "(if rtt - kc_rx_srtt kcp < 0 then - (rtt - kc_rx_srtt kcp) else rtt - kc_rx_srtt kcp) = delta"
      "0 \<le> delta" "delta < 268435456"
      using ok(1,2) assms(2,3) by (simp_all add: int32_def delta_def)
    have v: "0 \<le> (3 * kc_rx_rttval kcp + delta) div 4" "(3 * kc_rx_rttval kcp + delta) div 4 < 268435456"
      using ok(3,4) d(3,4) by (simp_all add: div_less_iff_less_mult)
    have s: "0 \<le> (7 * kc_rx_srtt kcp + rtt) div 8" "(7 * kc_rx_srtt kcp + rtt) div 8 < 268435456"
      using ok(1,2) assms(2,3) by (simp_all add: div_less_iff_less_mult)
    show ?thesis using False ok d v s assms(2,3) rto
      by (simp add: ikcp_update_ack_def sdiv_nonneg int32_small Let_def rtt_ok_def)
  qed
qed

theorem kcp_rto_bounds_witness:
  "\<exists>kcp'. ikcp_update_ack 250 (ikcp_create 7) = Some kcp' \<and> rtt_ok kcp' \<and> 100 \<le> kc_rx_rto kcp' \<and> kc_rx_rto kcp' \<le> 60000"
  using kcp_rto_bounds [of "ikcp_create 7" 250] by (simp add: rtt_ok_def ikcp_create_def IKCP_RTO_MIN_def)

text \<open>The time in an acknowledgement is believed: before the first round trip was measured, one datagram
  with an acknowledgement whose time is \<open>2 ^ 30\<close> milliseconds or more before the present makes the
  estimate overflow a signed number, which is undefined behaviour.\<close>

theorem kcp_forged_time:
  assumes "kc_rx_srtt kcp = 0" "sg_conv seg = kc_conv kcp" "sg_cmd seg = IKCP_CMD_ACK" "sg_len seg = 0"
    "1073741824 \<le> itimediff (kc_current kcp) (sg_ts seg)"
  shows "ikcp_input (ikcp_encode_seg seg) 24 kcp = None"
proof -
  have known: "known_cmd (sg_cmd seg)" using assms(3) by (simp add: known_cmd_def)
  obtain p where p: "ikcp_decode32u (ikcp_encode_seg seg @ []) = Some (sg_conv seg, p)"
    "decode_header (sg_conv seg) p = Some (as_read seg, [])"
    using decode_header_encode [of seg "[]"] by auto
  have over: "ikcp_update_ack (itimediff (kc_current kcp) (sg_ts seg)) k = None" if "kc_rx_srtt k = 0" for k
  proof -
    define n where "n = itimediff (kc_current kcp) (sg_ts seg)"
    have "1073741824 \<le> n" using assms(5) by (simp add: n_def)
    then have "536870912 \<le> n div 2" by presburger
    then have "int32 (4 * (n sdiv 2)) = None" using \<open>1073741824 \<le> n\<close> by (simp add: int32_def sdiv_nonneg)
    then show ?thesis using that by (simp add: ikcp_update_ack_def n_def [symmetric])
  qed
  define k where "k = ikcp_shrink_buf (ikcp_parse_una (sg_una seg) (kcp\<lparr>kc_rmt_wnd := sg_wnd (as_read seg)\<rparr>))"
  obtain j where j: "ikcp_parse_una (sg_una seg) (kcp\<lparr>kc_rmt_wnd := sg_wnd (as_read seg)\<rparr>) =
      kcp\<lparr>kc_rmt_wnd := sg_wnd (as_read seg), kc_snd_buf := drop j (kc_snd_buf kcp), kc_nsnd_buf := kc_nsnd_buf kcp - of_nat j\<rparr>"
    using drop_una_eq [of "kc_snd_buf kcp" "sg_una seg" "kcp\<lparr>kc_rmt_wnd := sg_wnd (as_read seg)\<rparr>"]
    by (auto simp: ikcp_parse_una_def)
  have k: "kc_rx_srtt k = 0" "kc_current k = kc_current kcp" using assms(1) by (simp_all add: k_def j ikcp_shrink_buf_def)
  have ts: "sg_ts (as_read seg) = sg_ts seg" by (simp add: as_read_def)
  have "input_ack (as_read seg) k = None"
    using over [OF k(1)] assms(5) k(2) ts by (simp add: input_ack_def)
  then have "input_segment (as_read seg) [] None kcp = None"
    unfolding input_segment_def Let_def as_read_fields as_read_cmd [OF known] k_def using assms(3) by simp
  then have "input_loop (ikcp_encode_seg seg) 24 None kcp = None"
    using p assms(2,4) known
    by (subst input_loop.simps) (simp add: IKCP_OVERHEAD_def as_read_fields as_read_cmd)
  then show ?thesis by (simp add: ikcp_input_def IKCP_OVERHEAD_def)
qed

theorem kcp_forged_time_witness:
  "ikcp_input (ikcp_encode_seg (example_seg\<lparr>sg_cmd := IKCP_CMD_ACK, sg_ts := 0x80000001, sg_len := 0\<rparr>)) 24 (ikcp_create 7) = None"
proof -
  have "itimediff 0 0x80000001 = 2147483647" by code_simp
  then show ?thesis by (intro kcp_forged_time) (simp_all add: ikcp_create_def example_seg_def)
qed

subsection \<open>The list of acknowledgements\<close>

lemma grow_block_power:
  assumes "unat newsize \<le> 2147483648" "unat b = 2 ^ i" "i \<le> 31"
  shows "\<exists>r. grow_block newsize b = Some r \<and> newsize \<le> r"
  using assms(2,3)
proof (induction "31 - i" arbitrary: i b)
  case 0
  then have "unat b = 2147483648" by simp
  then have "\<not> b < newsize" using assms(1) by (simp add: word_less_nat_alt)
  then have "grow_block newsize b = Some b" using grow_block.simps [of newsize b] by (simp only: if_False)
  then show ?case using \<open>\<not> b < newsize\<close> by simp
next
  case (Suc d)
  show ?case
  proof (cases "b < newsize")
    case True
    have "i < 31" using Suc.hyps(2) by simp
    then have "(2 :: nat) ^ Suc i \<le> 2 ^ 31" by (intro power_increasing) simp_all
    then have "unat (push_bit 1 b) = 2 ^ Suc i" using Suc.prems(1)
      by (simp add: push_bit_eq_mult unat_word_ariths)
    then have "\<exists>r. grow_block newsize (push_bit 1 b) = Some r \<and> newsize \<le> r"
      using Suc.hyps \<open>i < 31\<close> by (intro Suc.hyps(1) [of "Suc i"]) auto
    then show ?thesis using True by (subst grow_block.simps) simp
  next
    case False
    then have "grow_block newsize b = Some b" using grow_block.simps [of newsize b] by (simp only: if_False)
    then show ?thesis using False by simp
  qed
qed

lemma grow_block_stops:
  "grow_block newsize b = Some r \<Longrightarrow> b = 0 \<or> (\<exists>i < 32. unat b = 2 ^ i) \<Longrightarrow> newsize \<le> r \<and> (r = 0 \<or> (\<exists>i < 32. unat r = 2 ^ i))"
proof (induction rule: grow_block.raw_induct [rotated, consumes 1, case_names step])
  case (step f n w r)
  show ?case
  proof (cases "w < n")
    case True
    have "push_bit 1 w = 0 \<or> (\<exists>i < 32. unat (push_bit 1 w) = 2 ^ i)"
    proof (cases "w = 0")
      case False
      then obtain i where i: "i < 32" "unat w = 2 ^ i" using step by auto
      show ?thesis
      proof (cases "i = 31")
        case True
        then have "unat (push_bit 1 w) = 0" using i(2) by (simp add: push_bit_eq_mult unat_word_ariths)
        then show ?thesis by (simp add: unat_eq_0)
      next
        case False
        then have "(2 :: nat) ^ Suc i \<le> 2 ^ 31" using i(1) by (intro power_increasing) simp_all
        then have "unat (push_bit 1 w) = 2 ^ Suc i" using i(2) by (simp add: push_bit_eq_mult unat_word_ariths)
        then show ?thesis using i(1) False by (intro disjI2 exI [of _ "Suc i"]) simp
      qed
    qed simp
    then show ?thesis using step True by simp
  next
    case False
    then show ?thesis using step by auto
  qed
qed

text \<open>The acknowledgements that are pending.\<close>

definition ack_pairs :: "ikcpcb \<Rightarrow> (uint \<times> uint) list" where
  "ack_pairs kcp = take (unat (kc_ackcount kcp)) (kc_acklist kcp)"

text \<open>C33: while fewer than \<open>2 ^ 31\<close> acknowledgements are pending, the loop that doubles the size of the list
  ends and the new acknowledgement is added at its end, inside the allocated array; one more and the
  doubling reaches 0 and the loop never ends.\<close>

theorem kcp_ack_push:
  assumes "length (kc_acklist kcp) = unat (kc_ackblock kcp)" "kc_ackcount kcp \<le> kc_ackblock kcp"
  shows "(unat (kc_ackcount kcp) < 2147483648 \<longrightarrow> (\<exists>kcp'. ikcp_ack_push sn ts kcp = Some kcp' \<and>
      ack_pairs kcp' = ack_pairs kcp @ [(sn, ts)] \<and> length (kc_acklist kcp') = unat (kc_ackblock kcp') \<and>
      kc_ackcount kcp' \<le> kc_ackblock kcp')) \<and>
    (unat (kc_ackcount kcp) = 2147483648 \<and> kc_ackblock kcp = kc_ackcount kcp \<longrightarrow> ikcp_ack_push sn ts kcp = None)"
proof (intro conjI impI)
  let ?n = "unat (kc_ackcount kcp)"
  assume small: "?n < 2147483648"
  have inc: "unat (kc_ackcount kcp + 1) = Suc ?n" using small by (intro unat_inc) simp
  have block: "?n \<le> unat (kc_ackblock kcp)" using assms(2) by (simp add: word_le_nat_alt)
  obtain as b where as: "?n < length as" "take ?n as = ack_pairs kcp" "length as = unat b"
    "ikcp_ack_push sn ts kcp = Some (kcp\<lparr>kc_acklist := as[?n := (sn, ts)], kc_ackcount := kc_ackcount kcp + 1, kc_ackblock := b\<rparr>)"
  proof (cases "kc_ackblock kcp < kc_ackcount kcp + 1")
    case True
    obtain b where b: "grow_block (kc_ackcount kcp + 1) 8 = Some b" "kc_ackcount kcp + 1 \<le> b"
      using grow_block_power [of "kc_ackcount kcp + 1" 8 3] inc small by auto
    then have "?n < unat b" using inc by (simp add: word_le_nat_alt)
    then show ?thesis using True b(1) assms(1) block
      by (intro that [of "take ?n (kc_acklist kcp) @ replicate (unat b - ?n) (0, 0)" b])
        (simp_all add: ikcp_ack_push_def ack_pairs_def min_absorb2)
  next
    case False
    then have "?n < unat (kc_ackblock kcp)" using inc by (simp add: word_less_nat_alt)
    then show ?thesis using False assms(1)
      by (intro that [of "kc_acklist kcp" "kc_ackblock kcp"]) (simp_all add: ikcp_ack_push_def ack_pairs_def)
  qed
  have "take (Suc ?n) (as[?n := (sn, ts)]) = take ?n as @ [(sn, ts)]" using as(1) by (simp add: take_Suc_conv_app_nth)
  then show "\<exists>kcp'. ikcp_ack_push sn ts kcp = Some kcp' \<and> ack_pairs kcp' = ack_pairs kcp @ [(sn, ts)] \<and>
      length (kc_acklist kcp') = unat (kc_ackblock kcp') \<and> kc_ackcount kcp' \<le> kc_ackblock kcp'"
    using as inc by (simp add: ack_pairs_def word_le_nat_alt)
next
  assume big: "unat (kc_ackcount kcp) = 2147483648 \<and> kc_ackblock kcp = kc_ackcount kcp"
  have inc: "unat (kc_ackcount kcp + 1) = 2147483649" using big by (simp add: unat_inc)
  have "grow_block (kc_ackcount kcp + 1) 8 = None"
  proof (cases "grow_block (kc_ackcount kcp + 1) 8")
    case (Some r)
    have "kc_ackcount kcp + 1 \<le> r \<and> (r = 0 \<or> (\<exists>i < 32. unat r = 2 ^ i))"
    proof (rule grow_block_stops [OF Some])
      have "unat (8 :: uint) = 2 ^ 3" by simp
      then show "(8 :: uint) = 0 \<or> (\<exists>i < 32. unat (8 :: uint) = 2 ^ i)" by (intro disjI2 exI [of _ 3]) simp
    qed
    then obtain i where i: "i < 32" "2147483649 \<le> (2 :: nat) ^ i" using inc by (auto simp: word_le_nat_alt)
    then have "(2 :: nat) ^ i \<le> 2 ^ 31" by (intro power_increasing) simp_all
    then show ?thesis using i(2) by simp
  qed simp
  moreover have "kc_ackblock kcp < kc_ackcount kcp + 1" using big inc by (simp add: word_less_nat_alt)
  ultimately show "ikcp_ack_push sn ts kcp = None" by (simp add: ikcp_ack_push_def)
qed

theorem kcp_ack_push_witness:
  "\<exists>kcp'. ikcp_ack_push 5 9 (ikcp_create 7) = Some kcp' \<and> ack_pairs kcp' = [(5, 9)]"
  using kcp_ack_push [of "ikcp_create 7" 5 9] by (auto simp: ikcp_create_def ack_pairs_def)

subsection \<open>When to call again\<close>

lemma check_packets_bound:
  assumes "check_packets current p m = Some r"
  shows "r \<le> m \<and> (\<forall>seg \<in> set p. r \<le> itimediff (sg_resendts seg) current \<and> 0 < itimediff (sg_resendts seg) current)"
  using assms by (induction p arbitrary: m) (fastforce simp: Let_def split: if_splits)+

lemma itimediff_bounds: "- 2147483648 \<le> itimediff a b" "itimediff a b \<le> 2147483647"
  using sint_greater_eq [of "a - b"] sint_less [of "a - b"] by (simp_all add: itimediff_def)

lemma itimediff_shift:
  assumes "- 2147483648 \<le> itimediff a b - int d" "itimediff a b - int d < 2147483648"
  shows "itimediff a (b + of_nat d) = itimediff a b - int d"
proof -
  have "(word_of_int (sint (a - b) - int d) :: uint) = a - (b + of_nat d)" by simp
  then show ?thesis unfolding itimediff_def
    using sint_word_of_int32 [of "sint (a - b) - int d"] assms by (simp only: itimediff_def)
qed

lemma itimediff_swap:
  assumes "- 2147483648 < itimediff a b"
  shows "itimediff b a = - itimediff a b"
proof -
  have "(word_of_int (- sint (a - b)) :: uint) = b - a" by simp
  then show ?thesis unfolding itimediff_def
    using sint_word_of_int32 [of "- sint (a - b)"] assms itimediff_bounds(2) [of a b]
    by (simp only: itimediff_def)
qed

text \<open>C13: \<open>ikcp_check\<close> is a promise: at every time before the one it returns, an update would only note
  the time, it would not flush, and no segment that waits for its acknowledgement would be due; and the
  time is at most an interval away.\<close>

theorem kcp_check_promise:
  assumes "kc_updated kcp \<noteq> 0" "d < unat (ikcp_check current kcp - current)"
  shows "ikcp_update (current + of_nat d) kcp = Some ([], kcp\<lparr>kc_current := current + of_nat d\<rparr>) \<and>
    (\<forall>seg \<in> set (kc_snd_buf kcp). itimediff (current + of_nat d) (sg_resendts seg) < 0) \<and>
    ikcp_check current kcp - current \<le> kc_interval kcp"
proof -
  let ?t = "kc_ts_flush kcp" and ?now = "current + of_nat d :: uint"
  define slap where "slap = itimediff current ?t"
  have ne: "ikcp_check current kcp \<noteq> current" using assms(2) by auto
  have s: "slap < 10000" "- 10000 \<le> slap" "slap < 0"
    using ne assms(1) by (auto simp: ikcp_check_def Let_def slap_def itimediff_def split: if_splits)
  obtain r where r: "check_packets current (kc_snd_buf kcp) 2147483647 = Some r"
    using ne assms(1) s by (cases "check_packets current (kc_snd_buf kcp) 2147483647")
      (auto simp: ikcp_check_def Let_def slap_def [symmetric])
  note bound = check_packets_bound [OF r]
  define m where "m = (if r < itimediff ?t current then r else itimediff ?t current)"
  have flush: "itimediff ?t current = - slap" using s(2) itimediff_swap [of current ?t] by (simp add: slap_def)
  have c: "ikcp_check current kcp = current + (if kc_interval kcp \<le> of_int m then kc_interval kcp else of_int m)"
    using assms(1) s r by (simp add: ikcp_check_def Let_def slap_def [symmetric] m_def)
  have m: "m \<le> - slap" "m \<le> r" by (auto simp: m_def flush)
  have d: "d < unat (of_int m :: uint)" and le: "ikcp_check current kcp - current \<le> kc_interval kcp"
    using assms(2) by (auto simp: c word_le_nat_alt split: if_splits)
  have "check_packets current p x = Some r \<Longrightarrow> 0 < x \<Longrightarrow> 0 < r" for p x
    by (induction p arbitrary: x) (auto simp: Let_def split: if_splits)
  from this [OF r] have pos: "0 < m" using flush s(3) by (simp add: m_def)
  have dm: "int d < m"
  proof -
    obtain k where k: "m = int k" using pos by (metis less_imp_le nonneg_int_cases)
    then have "k < 4294967296" using m(1) s(2) by simp
    then show ?thesis using d k by (simp add: unat_of_nat32)
  qed
  have now: "itimediff ?t ?now = - slap - int d"
    using itimediff_shift [of ?t current d] flush dm m(1) s pos by simp
  then have slap_now: "itimediff ?now ?t = slap + int d" using itimediff_swap [of ?t ?now] dm m(1) s by simp
  have "ikcp_update ?now kcp = Some ([], kcp\<lparr>kc_current := ?now\<rparr>)"
    using assms(1) slap_now dm m(1) s by (simp add: ikcp_update_def Let_def)
  moreover have "itimediff ?now (sg_resendts seg) < 0" if "seg \<in> set (kc_snd_buf kcp)" for seg
  proof -
    have r2: "r \<le> itimediff (sg_resendts seg) current" using bound that by blast
    then have "itimediff (sg_resendts seg) ?now = itimediff (sg_resendts seg) current - int d"
      using itimediff_shift [of "sg_resendts seg" current d] itimediff_bounds(2) [of "sg_resendts seg" current] dm m(2) by simp
    then show ?thesis using itimediff_swap [of "sg_resendts seg" ?now] r2 dm m(2) by simp
  qed
  ultimately show ?thesis using le by blast
qed

theorem kcp_check_promise_witness:
  "ikcp_update (100 + of_nat 99) (snd (the (ikcp_update 100 (ikcp_setoutput (ikcp_create 7))))) =
    Some ([], (snd (the (ikcp_update 100 (ikcp_setoutput (ikcp_create 7)))))\<lparr>kc_current := 199\<rparr>)"
proof -
  define kcp where "kcp = snd (the (ikcp_update 100 (ikcp_setoutput (ikcp_create 7))))"
  have "kc_updated kcp \<noteq> 0" "99 < unat (ikcp_check 100 kcp - 100)" unfolding kcp_def by code_simp+
  then show ?thesis using kcp_check_promise [of kcp 99 100] by (simp add: kcp_def)
qed

end
