(* ===== verification/KcpResend.thy ===== *)
theory KcpResend
  imports KcpTimers
begin

text \<open>
  What a flush sends, byte by byte: the pending acknowledgements, the window probes, and the segments
  of the send buffer that are due, in the order of their numbers.
\<close>

definition box_bytes :: "outbox \<Rightarrow> byte list" where
  "box_bytes box = concat (snd box) @ fst box"

lemma output_bytes: "ikcp_output kcp box = Some box' \<Longrightarrow> concat (snd box') = box_bytes box"
  by (auto simp: ikcp_output_def box_bytes_def split: prod.splits if_splits)

lemma make_room_bytes:
  assumes "make_room need kcp box = Some box'"
  shows "box_bytes box' = box_bytes box"
proof (cases "sint (kc_mtu kcp) < int (length (fst box)) + need")
  case True
  then obtain b where "ikcp_output kcp box = Some b" "box' = ([], snd b)" using assms by (auto simp: make_room_def split: prod.splits)
  then show ?thesis using output_bytes by (simp add: box_bytes_def)
next
  case False
  then show ?thesis using assms by (simp add: make_room_def)
qed

lemma put_bytes_bytes: "put_bytes bs kcp box = Some box' \<Longrightarrow> box_bytes box' = box_bytes box @ bs"
  by (auto simp: put_bytes_def box_bytes_def split: if_splits)

lemma put_header_bytes: "put_header seg kcp box = Some box' \<Longrightarrow> box_bytes box' = box_bytes box @ ikcp_encode_seg seg"
  by (auto simp: put_header_def dest!: make_room_bytes put_bytes_bytes split: bind_splits)

lemma put_segment_bytes:
  "put_segment seg kcp box = Some box' \<Longrightarrow> len_ok seg \<Longrightarrow> box_bytes box' = box_bytes box @ wire_seg seg"
  by (auto simp: put_segment_def wire_seg_def len_ok_def dest!: make_room_bytes put_bytes_bytes split: bind_splits if_splits)

lemma flush_acks_bytes:
  assumes "flush_acks is kcp seg box = Some (seg', box')" "\<forall>i \<in> set is. i < length (kc_acklist kcp)"
  shows "box_bytes box' = box_bytes box @
    concat (map (\<lambda>i. ikcp_encode_seg (seg\<lparr>sg_sn := fst (kc_acklist kcp ! i), sg_ts := snd (kc_acklist kcp ! i)\<rparr>)) is)"
  using assms
proof (induction "is" arbitrary: seg box)
  case (Cons i "is")
  let ?seg = "seg\<lparr>sg_sn := fst (kc_acklist kcp ! i), sg_ts := snd (kc_acklist kcp ! i)\<rparr>"
  obtain sn ts where e: "kc_acklist kcp ! i = (sn, ts)" by fastforce
  then have get: "ikcp_ack_get i kcp = Some (sn, ts)" using Cons.prems(2) by (simp add: ikcp_ack_get_def)
  obtain b where b: "put_header ?seg kcp box = Some b" "flush_acks is kcp ?seg b = Some (seg', box')"
    using Cons.prems(1) by (auto simp: get e put_header_def Let_def split: bind_splits)
  show ?case using Cons.IH [OF b(2)] Cons.prems(2) put_header_bytes [OF b(1)] by simp
qed simp

lemma flush_probes_bytes:
  assumes "flush_probes kcp seg box = Some box'"
  shows "box_bytes box' = box_bytes box @
    (if kc_probe kcp AND IKCP_ASK_SEND \<noteq> 0 then ikcp_encode_seg (seg\<lparr>sg_cmd := IKCP_CMD_WASK\<rparr>) else []) @
    (if kc_probe kcp AND IKCP_ASK_TELL \<noteq> 0 then ikcp_encode_seg (seg\<lparr>sg_cmd := IKCP_CMD_WINS\<rparr>) else [])"
  using assms by (auto simp: flush_probes_def dest!: put_header_bytes split: bind_splits if_splits)

definition due :: "ikcpcb \<Rightarrow> ikcpseg \<Rightarrow> bool" where
  "due kcp seg \<longleftrightarrow> sg_xmit seg = 0 \<or> 0 \<le> itimediff (kc_current kcp) (sg_resendts seg)"

lemma flush_segments_bytes:
  assumes "flush_segments resent rtomin wnd p kcp change lost box = Some (p', kcp', change', lost', box')"
    "\<forall>seg \<in> set p. len_ok seg"
  shows "\<exists>out. box_bytes box' = box_bytes box @ concat (map wire_seg out) \<and>
    (\<forall>seg \<in> set p. due kcp seg \<longrightarrow> seg_content seg \<in> seg_content ` set out) \<and> seg_content ` set out \<subseteq> seg_content ` set p \<and>
    (\<forall>seg \<in> set out. sg_ts seg = kc_current kcp \<and> sg_una seg = kc_rcv_nxt kcp \<and> sg_wnd seg = wnd)"
  using assms
proof (induction p arbitrary: kcp change lost box p')
  case (Cons seg p)
  define why where "why = why_send resent kcp seg"
  define kcp1 where "kcp1 = (if why = Timeout then kcp\<lparr>kc_xmit := kc_xmit kcp + 1\<rparr> else kcp)"
  define seg1 where "seg1 = resend_update rtomin kcp seg why"
  define seg2 where "seg2 = seg1\<lparr>sg_ts := kc_current kcp, sg_wnd := wnd, sg_una := kc_rcv_nxt kcp\<rparr>"
  define kcp2 where "kcp2 = (if kc_dead_link kcp1 \<le> sg_xmit seg2 then kcp1\<lparr>kc_state := - 1\<rparr> else kcp1)"
  have f1: "kc_current kcp1 = kc_current kcp" "kc_rcv_nxt kcp1 = kc_rcv_nxt kcp" by (simp_all add: kcp1_def)
  have f2: "kc_current kcp2 = kc_current kcp" "kc_rcv_nxt kcp2 = kc_rcv_nxt kcp" by (simp_all add: kcp2_def f1)
  have due1: "due kcp1 = due kcp" "due kcp2 = due kcp" by (simp_all add: fun_eq_iff due_def f1 f2)
  note step = Cons.prems(1) [unfolded flush_segments.simps Let_def, folded why_def, folded kcp1_def seg1_def,
      unfolded f1, folded seg2_def, folded kcp2_def]
  have lens: "\<forall>seg \<in> set p. len_ok seg" using Cons.prems(2) by simp
  have c: "seg_content seg2 = seg_content seg" by (simp add: seg2_def seg1_def)
  show ?case
  proof (cases "why = Quiet")
    case True
    then have "\<not> due kcp seg" by (auto simp: why_def why_send_def due_def split: if_splits)
    obtain p3 where p3: "flush_segments resent rtomin wnd p kcp1 change lost box = Some (p3, kcp', change', lost', box')"
      using step True by (cases box) (auto split: bind_splits)
    obtain out where "box_bytes box' = box_bytes box @ concat (map wire_seg out)"
      "\<forall>seg \<in> set p. due kcp seg \<longrightarrow> seg_content seg \<in> seg_content ` set out" "seg_content ` set out \<subseteq> seg_content ` set p"
      "\<forall>seg \<in> set out. sg_ts seg = kc_current kcp \<and> sg_una seg = kc_rcv_nxt kcp \<and> sg_wnd seg = wnd"
      using Cons.IH [OF p3 lens] unfolding due1 f1 by blast
    then show ?thesis using \<open>\<not> due kcp seg\<close> by (intro exI [of _ out]) auto
  next
    case False
    obtain b p3 where b: "put_segment seg2 kcp1 box = Some b"
      "flush_segments resent rtomin wnd p kcp2 (if why = Fast then change + 1 else change) (lost \<or> why = Timeout) b =
        Some (p3, kcp', change', lost', box')"
      using step False by (auto split: bind_splits prod.splits)
    have "len_ok seg2" using Cons.prems(2) c by (simp add: seg_content_def len_ok_def)
    note bytes = put_segment_bytes [OF b(1) this]
    obtain out where out: "box_bytes box' = box_bytes b @ concat (map wire_seg out)"
      "\<forall>seg \<in> set p. due kcp seg \<longrightarrow> seg_content seg \<in> seg_content ` set out" "seg_content ` set out \<subseteq> seg_content ` set p"
      "\<forall>seg \<in> set out. sg_ts seg = kc_current kcp \<and> sg_una seg = kc_rcv_nxt kcp \<and> sg_wnd seg = wnd"
      using Cons.IH [OF b(2) lens] unfolding due1 f2 by blast
    have new: "sg_ts seg2 = kc_current kcp \<and> sg_una seg2 = kc_rcv_nxt kcp \<and> sg_wnd seg2 = wnd" by (simp add: seg2_def)
    show ?thesis
      by (intro exI [of _ "seg2 # out"]) (use bytes out c new in auto)
  qed
qed (auto intro: exI [of _ "[]"])


text \<open>A segment that was sent at time 0 with a timeout of 200 is sent again at 300.\<close>

definition resend_example :: ikcpcb where
  "resend_example =
     (let kcp = ikcp_nodelay 1 1000 2 1 (snd (ikcp_setmtu 60 (ikcp_setoutput (ikcp_create 7))));
          kcp = snd (the (ikcp_update 0 kcp));
          kcp = snd (the (ikcp_send [1, 2] 2 kcp));
          kcp = snd (the (ikcp_flush kcp))
      in snd (the (ikcp_update 300 kcp)))"

lemma kcp_use_total:
  assumes "kcp_use mtu kcp"
  shows "kcp_use mtu (snd (the (ikcp_update now kcp)))" "kcp_use mtu (snd (the (ikcp_flush kcp)))"
proof -
  note room = kcp_use_room [OF assms]
  obtain sent k where "ikcp_update now kcp = Some (sent, k)" using update_fits [OF room] by blast
  then show "kcp_use mtu (snd (the (ikcp_update now kcp)))" using kcp_use.update [OF assms] by simp
  obtain sent k where "ikcp_flush kcp = Some (sent, k)" using flush_fits [OF room] by blast
  then show "kcp_use mtu (snd (the (ikcp_flush kcp)))" using kcp_use.flush [OF assms] by simp
qed

lemma resend_example_use: "kcp_use 60 resend_example"
proof -
  let ?k = "snd (the (ikcp_update 0 (ikcp_nodelay 1 1000 2 1 (snd (ikcp_setmtu 60 (ikcp_setoutput (ikcp_create 7)))))))"
  have k: "kcp_use 60 ?k" by (rule kcp_use_total, rule kcp_use.nodelay, rule kcp_use.start) simp_all
  have "case ikcp_send [1, 2] 2 ?k of None \<Rightarrow> False | Some _ \<Rightarrow> True" by code_simp
  then obtain r k' where "ikcp_send [1, 2] 2 ?k = Some (r, k')" by (cases "ikcp_send [1, 2] 2 ?k") auto
  then have "kcp_use 60 (snd (the (ikcp_send [1, 2] 2 ?k)))" using kcp_use.send [OF k] by simp
  then show ?thesis unfolding resend_example_def Let_def by (intro kcp_use_total)
qed


end
