(* ===== verification/KcpNet.thy ===== *)
theory KcpNet
  imports KcpTransmit
begin

text \<open>
  Two ends of a KCP connection over a network that may lose, repeat and reorder datagrams: a datagram
  that was sent stays in a set, and an end is given any datagram of the other end's set, any number
  of times.  The theorems say that the messages one user reads are those the other user sent, in the
  order they were sent, and that nothing is lost when the sender holds nothing back.
\<close>

subsection \<open>Sending and receiving keep the invariant\<close>

definition stream :: "nat \<Rightarrow> byte list list \<Rightarrow> fragment list" where
  "stream m msgs = concat (map (fragments m) msgs)"

lemma stream_append [simp]: "stream m (as @ bs) = stream m as @ stream m bs"
  by (simp add: stream_def)

lemma stream_Cons [simp]: "stream m (a # as) = fragments m a @ stream m as"
  by (simp add: stream_def)

lemma stream_Nil [simp]: "stream m [] = []"
  by (simp add: stream_def)

lemma fragments_not_Nil [simp]: "fragments m msg \<noteq> []"
  by (metis fragments_def length_0_conv length_number_down chunks_not_Nil)

lemma length_fragments: "length (fragments m msg) = length (chunks m msg)"
  by (simp add: fragments_def)

lemma fragments_data_length: "f \<in> set (fragments m msg) \<Longrightarrow> length (snd f) \<le> length msg"
proof -
  assume "f \<in> set (fragments m msg)"
  then have "snd f \<in> set (chunks m msg)" using map_snd_number_down [of "chunks m msg"]
    by (metis fragments_def image_eqI list.set_map)
  then obtain as bs where "chunks m msg = as @ snd f # bs" by (auto simp: in_set_conv_decomp)
  then have "length (snd f) \<le> length (concat (chunks m msg))" by simp
  then show ?thesis by (simp only: concat_chunks)
qed

lemma number_down_small: "f \<in> set (number_down cs) \<Longrightarrow> length cs \<le> 256 \<Longrightarrow> unat (fst f) < 256"
  by (induction cs) (auto simp: unat_of_nat32)

lemma fragments_small: "length (chunks m msg) < 128 \<Longrightarrow> small_frags (fragments m msg)"
  by (auto simp: small_frags_def fragments_def dest: number_down_small)

lemma send_ok:
  assumes "end_ok m S T c G kcp" "0 < m" "m < 2147483648" "length msg < 2147483648"
    "ikcp_send msg (int (length msg)) kcp = Some (r, kcp')"
  shows "got kcp' = got kcp \<and> (if r = 0 then end_ok m (S @ fragments m msg) T c G kcp' \<and> small_frags (fragments m msg)
    else kcp' = kcp)"
proof -
  have cfg: "kc_mss kcp = of_nat m" "kc_stream kcp = 0" using assms(1) by (simp_all add: end_ok_def snd_ok_def)
  note send = send_message [OF cfg(1) assms(2,3) cfg(2) assms(4)]
  show ?thesis
  proof (cases "128 \<le> length (chunks m msg)")
    case True
    then show ?thesis using send assms(5) by simp
  next
    case False
    let ?k = "kcp\<lparr>kc_snd_queue := kc_snd_queue kcp @ map fragment_seg (fragments m msg),
       kc_nsnd_que := kc_nsnd_que kcp + of_nat (length (chunks m msg))\<rparr>"
    have k: "r = 0" "kcp' = ?k" using False send assms(5) by auto
    have "\<forall>f \<in> set (fragments m msg). length (snd f) < 4294967296"
      using fragments_data_length assms(4) by fastforce
    moreover have "snd_ok m S kcp" using assms(1) by (simp add: end_ok_def)
    ultimately have "snd_ok m (S @ fragments m msg) ?k" by (rule snd_ok_append)
    then show ?thesis using assms(1) False fragments_small
      by (simp add: k end_ok_def rcv_ok_def rcv_stored_def acks_ok_def got_def held_def)
  qed
qed

text \<open>A read takes the first message off the queue, when it is there in full, or leaves everything.\<close>

lemma recv_incomplete:
  assumes "map payload (kc_rcv_queue kcp) = take n (fragments m msg)" "0 < n" "n < length (fragments m msg)"
    "length (fragments m msg) < 4294967296"
    "kc_nrcv_que kcp = of_nat n" "ikcp_recv len kcp = Some (r, bs, kcp')"
  shows "r = - 2 \<and> kcp' = kcp"
proof -
  obtain c cs where c: "chunks m msg = c # cs" by (cases "chunks m msg") auto
  obtain seg q where q: "kc_rcv_queue kcp = seg # q" "sg_frg seg = of_nat (length cs)"
    using assms(1,2) c by (cases n; cases "kc_rcv_queue kcp") (auto simp: fragments_def payload_eq)
  have "cs \<noteq> []" using assms(2,3) c by (auto simp: fragments_def)
  then have "sg_frg seg \<noteq> 0" using q(2) assms(4) c of_nat_uint_nonzero [of "length cs"] by (simp add: fragments_def)
  moreover have "unat (sg_frg seg + 1) = Suc (length cs)" using q(2) assms(4) c
    by (subst unat_inc) (simp_all add: fragments_def unat_of_nat32)
  then have "kc_nrcv_que kcp < sg_frg seg + 1" using assms(3-5) c
    by (simp add: word_less_nat_alt fragments_def unat_of_nat32)
  ultimately have "ikcp_peeksize kcp = - 1" using q by (simp add: ikcp_peeksize_def)
  then show ?thesis using assms(6) q by (auto simp: ikcp_recv_def split: bind_splits if_splits)
qed

lemma after_read_ok:
  assumes "end_ok m S T c0 G kcp" "rcv_stored T c k" "length T < 2147483648"
    "k = kcp\<lparr>kc_rcv_buf := b, kc_rcv_queue := q, kc_nrcv_buf := nb, kc_nrcv_que := n, kc_rcv_nxt := x\<rparr>" "got k = got kcp"
  shows "end_ok m S T c G (after_read recover k) \<and> got (after_read recover k) = got kcp"
proof -
  let ?k2 = "move_available (kc_rcv_buf k) k"
  have ok: "rcv_ok T c ?k2" "got ?k2 = got k" using move_available_ok [OF assms(2,3)] .
  obtain b2 q2 nb2 n2 x2 where "?k2 =
      k\<lparr>kc_rcv_buf := b2, kc_rcv_queue := q2, kc_nrcv_buf := nb2, kc_nrcv_que := n2, kc_rcv_nxt := x2\<rparr>"
    using move_available_eq by blast
  then have "?k2 = kcp\<lparr>kc_rcv_buf := b2, kc_rcv_queue := q2, kc_nrcv_buf := nb2, kc_nrcv_que := n2, kc_rcv_nxt := x2\<rparr>"
    using assms(4) by simp
  then have "end_ok m S T c G ?k2" using end_ok_receive [OF assms(1) ok(1)] ok(2) assms(5) by blast
  moreover have "core (after_read recover k) = core ?k2" by (simp add: after_read_def Let_def core_def)
  note core_eq [OF this]
  ultimately show ?thesis using ok(2) assms(5) by simp
qed

lemma recv_ok:
  assumes "end_ok m S (stream m' msgs) (stream m' rd) G kcp" "msgs = rd @ left" "length (stream m' msgs) < 2147483648"
    "\<forall>msg \<in> set msgs. length msg < 2147483648" "- 2147483648 < len" "len < 2147483648"
    "ikcp_recv len kcp = Some (r, bs, kcp')"
  shows "got kcp' = got kcp \<and>
    (if 0 \<le> r \<and> 0 \<le> len then (\<exists>left'. left = bs # left') \<and> end_ok m S (stream m' msgs) (stream m' (rd @ [bs])) G kcp'
     else end_ok m S (stream m' msgs) (stream m' rd) G kcp')"
proof (cases "kc_rcv_queue kcp = []")
  case True
  then show ?thesis using assms(1,7) by (auto simp: ikcp_recv_def)
next
  case False
  let ?q = "kc_rcv_queue kcp" and ?x = "unat (kc_rcv_nxt kcp)" and ?T = "stream m' msgs"
  have st: "rcv_stored ?T (stream m' rd) kcp" using assms(1) by (simp add: end_ok_def rcv_ok_def)
  have x: "?x \<le> length ?T" and n: "kc_nrcv_que kcp = of_nat (length ?q)" and lens: "\<forall>seg \<in> set ?q. len_ok seg"
    and cq: "stream m' rd @ map payload ?q = take ?x ?T"
    using st by (auto simp: rcv_stored_def)
  have "length (stream m' rd) + length ?q = ?x" using arg_cong [OF cq, of length] x by simp
  then have "?x - length (stream m' rd) = length ?q" by linarith
  then have q: "map payload ?q = take (length ?q) (stream m' left)" and lq: "length ?q < 2147483648"
    using cq assms(2,3) x by auto
  have ne: "left \<noteq> []" using q False by auto
  then obtain msg left' where left: "left = msg # left'" by (cases left) auto
  have lmsg: "length msg < 2147483648" using assms(2,4) left by simp
  have lf: "length (fragments m' msg) < 2147483648" using assms(2,3) left by simp
  show ?thesis
  proof (cases "length ?q < length (fragments m' msg)")
    case True
    then have "r = - 2 \<and> kcp' = kcp"
      using q left False lf n by (intro recv_incomplete [OF _ _ True _ n assms(7)]) auto
    then show ?thesis using assms(1) by simp
  next
    case False
    define segs where "segs = take (length (fragments m' msg)) ?q"
    define rest where "rest = drop (length (fragments m' msg)) ?q"
    have qs: "?q = segs @ rest" by (simp add: segs_def rest_def)
    have ps: "map payload segs = fragments m' msg"
      using q left False by (simp add: segs_def take_map [symmetric])
    have ls: "\<forall>seg \<in> set segs. len_ok seg" "\<forall>seg \<in> set rest. len_ok seg" using lens qs by auto
    have recv: "ikcp_recv len kcp =
      (if \<bar>len\<bar> < int (length msg) then Some (- 3, [], kcp)
       else Some (int (length msg), msg, after_read (kc_rcv_wnd kcp \<le> kc_nrcv_que kcp)
         (if len < 0 then kcp
          else kcp\<lparr>kc_rcv_queue := rest, kc_nrcv_que := kc_nrcv_que kcp - of_nat (length segs)\<rparr>)))"
      using n lq qs by (intro recv_message [OF qs ps ls(1) _ _ lmsg assms(5,6)]) auto
    show ?thesis
    proof (cases "\<bar>len\<bar> < int (length msg)")
      case True
      then show ?thesis using recv assms(1,7) by simp
    next
      case fits: False
      show ?thesis
      proof (cases "len < 0")
        case True
        have e: "kcp = kcp\<lparr>kc_rcv_buf := kc_rcv_buf kcp, kc_rcv_queue := ?q, kc_nrcv_buf := kc_nrcv_buf kcp,
            kc_nrcv_que := kc_nrcv_que kcp, kc_rcv_nxt := kc_rcv_nxt kcp\<rparr>" by simp
        note read = after_read_ok [OF assms(1) st assms(3) e refl, of "kc_rcv_wnd kcp \<le> kc_nrcv_que kcp"]
        have "kcp' = after_read (kc_rcv_wnd kcp \<le> kc_nrcv_que kcp) kcp" using recv fits True assms(7) by simp
        then show ?thesis using read True by simp
      next
        case pos: False
        let ?k = "kcp\<lparr>kc_rcv_queue := rest, kc_nrcv_que := kc_nrcv_que kcp - of_nat (length segs)\<rparr>"
        have s: "rcv_stored ?T (stream m' (rd @ [msg])) ?k"
          using st ls(2) cq n ps qs by (simp add: rcv_stored_def)
        have e: "?k = kcp\<lparr>kc_rcv_buf := kc_rcv_buf kcp, kc_rcv_queue := rest, kc_nrcv_buf := kc_nrcv_buf kcp,
            kc_nrcv_que := kc_nrcv_que kcp - of_nat (length segs), kc_rcv_nxt := kc_rcv_nxt kcp\<rparr>" by simp
        have "got ?k = got kcp" by (simp add: got_def)
        note read = after_read_ok [OF assms(1) s assms(3) e this, of "kc_rcv_wnd kcp \<le> kc_nrcv_que kcp"]
        have "kcp' = after_read (kc_rcv_wnd kcp \<le> kc_nrcv_que kcp) ?k" "r = int (length msg)" "bs = msg"
          using recv fits pos assms(7) by auto
        then show ?thesis using read pos left by simp
      qed
    qed
  qed
qed

subsection \<open>The network\<close>

text \<open>The two ends are \<open>True\<close> and \<open>False\<close>: their control blocks, the datagrams each has sent, the messages
  its user has sent and read.\<close>

record kcp_net =
  kn_end :: "bool \<Rightarrow> ikcpcb"
  kn_wire :: "bool \<Rightarrow> byte list list"
  kn_said :: "bool \<Rightarrow> byte list list"
  kn_read :: "bool \<Rightarrow> byte list list"

definition kcp_start :: "uint \<Rightarrow> (bool \<Rightarrow> int) \<Rightarrow> kcp_net" where
  "kcp_start conv mtu = \<lparr>kn_end = (\<lambda>s. snd (ikcp_setmtu (mtu s) (ikcp_setoutput (ikcp_create conv)))),
     kn_wire = (\<lambda>s. []), kn_said = (\<lambda>s. []), kn_read = (\<lambda>s. [])\<rparr>"

inductive kcp_step :: "kcp_net \<Rightarrow> kcp_net \<Rightarrow> bool" where
  send: "ikcp_send msg (int (length msg)) (kn_end n s) = Some (r, k) \<Longrightarrow> length msg < 2147483648 \<Longrightarrow>
    kcp_step n (n\<lparr>kn_end := (kn_end n)(s := k),
      kn_said := (kn_said n)(s := kn_said n s @ (if r = 0 then [msg] else []))\<rparr>)"
| recv: "ikcp_recv len (kn_end n s) = Some (r, bs, k) \<Longrightarrow> - 2147483648 < len \<Longrightarrow> len < 2147483648 \<Longrightarrow>
    kcp_step n (n\<lparr>kn_end := (kn_end n)(s := k),
      kn_read := (kn_read n)(s := kn_read n s @ (if 0 \<le> r \<and> 0 \<le> len then [bs] else []))\<rparr>)"
| update: "ikcp_update now (kn_end n s) = Some (sent, k) \<Longrightarrow>
    kcp_step n (n\<lparr>kn_end := (kn_end n)(s := k), kn_wire := (kn_wire n)(s := kn_wire n s @ sent)\<rparr>)"
| input: "d \<in> set (kn_wire n (\<not> s)) \<Longrightarrow> ikcp_input d (int (length d)) (kn_end n s) = Some (r, k) \<Longrightarrow>
    kcp_step n (n\<lparr>kn_end := (kn_end n)(s := k)\<rparr>)"
| wndsize: "kcp_step n (n\<lparr>kn_end := (kn_end n)(s := ikcp_wndsize sndwnd rcvwnd (kn_end n s))\<rparr>)"
| nodelay: "kcp_step n (n\<lparr>kn_end := (kn_end n)(s := ikcp_nodelay nodelay interval resend nc (kn_end n s))\<rparr>)"

definition mss_of :: "int \<Rightarrow> nat" where "mss_of mtu = nat (mtu - 24)"

definition given :: "(bool \<Rightarrow> nat) \<Rightarrow> kcp_net \<Rightarrow> bool \<Rightarrow> fragment list" where
  "given m n s = stream (m s) (kn_said n s)"

definition few :: "(bool \<Rightarrow> nat) \<Rightarrow> kcp_net \<Rightarrow> bool" where
  "few m n \<longleftrightarrow> (\<forall>s. int (length (given m n s)) < 2147483648)"

definition net_ok :: "(bool \<Rightarrow> nat) \<Rightarrow> kcp_net \<Rightarrow> bool" where
  "net_ok m n \<longleftrightarrow> (\<forall>s.
     end_ok (m s) (given m n s) (given m n (\<not> s)) (stream (m (\<not> s)) (kn_read n s)) (got (kn_end n (\<not> s))) (kn_end n s) \<and>
     (\<exists>left. kn_said n (\<not> s) = kn_read n s @ left) \<and>
     (\<forall>d \<in> set (kn_wire n s). datagram_ok (given m n s) (got (kn_end n s)) d) \<and>
     small_frags (given m n s) \<and> (\<forall>msg \<in> set (kn_said n s). length msg < 2147483648))"

lemma end_ok_mono:
  assumes "end_ok m S T c G kcp" "G \<subseteq> G'"
  shows "end_ok m S (T @ F) c G' kcp"
proof -
  have "rcv_ok (T @ F) c kcp" using assms(1) by (intro rcv_ok_append) (simp add: end_ok_def)
  then show ?thesis using assms by (auto simp: end_ok_def)
qed

lemma small_frags_append [simp]: "small_frags (S @ F) \<longleftrightarrow> small_frags S \<and> small_frags F"
  by (auto simp: small_frags_def)

text \<open>What an end does: it gets a new control block, sends datagrams, takes messages from its user
  and gives some to it.\<close>

lemma net_ok_local:
  assumes "net_ok m n" "got (kn_end n s) \<subseteq> got k"
    "end_ok (m s) (given m n s @ stream (m s) M) (given m n (\<not> s)) (stream (m (\<not> s)) (kn_read n s @ R)) (got (kn_end n (\<not> s))) k"
    "\<exists>left. kn_said n (\<not> s) = kn_read n s @ R @ left" "\<forall>d \<in> set W. datagram_ok (given m n s @ stream (m s) M) (got k) d"
    "small_frags (stream (m s) M)" "\<forall>msg \<in> set M. length msg < 2147483648"
  shows "net_ok m (n\<lparr>kn_end := (kn_end n)(s := k), kn_wire := (kn_wire n)(s := kn_wire n s @ W),
    kn_said := (kn_said n)(s := kn_said n s @ M), kn_read := (kn_read n)(s := kn_read n s @ R)\<rparr>)"
    (is "net_ok m ?n")
  unfolding net_ok_def
proof (intro allI)
  fix t
  have g: "given m ?n s = given m n s @ stream (m s) M" "given m ?n (\<not> s) = given m n (\<not> s)"
    by (simp_all add: given_def)
  note ok = assms(1) [unfolded net_ok_def, rule_format]
  show "end_ok (m t) (given m ?n t) (given m ?n (\<not> t)) (stream (m (\<not> t)) (kn_read ?n t)) (got (kn_end ?n (\<not> t))) (kn_end ?n t) \<and>
     (\<exists>left. kn_said ?n (\<not> t) = kn_read ?n t @ left) \<and>
     (\<forall>d \<in> set (kn_wire ?n t). datagram_ok (given m ?n t) (got (kn_end ?n t)) d) \<and>
     small_frags (given m ?n t) \<and> (\<forall>msg \<in> set (kn_said ?n t). length msg < 2147483648)"
  proof (cases "t = s")
    case True
    have "datagram_ok (given m n s @ stream (m s) M) (got k) d" if "d \<in> set (kn_wire n s)" for d
      using ok [of s] that assms(2) datagram_ok_mono by blast
    then show ?thesis unfolding True g using ok [of s] assms(3-7) by auto
  next
    case False
    then have t: "t = (\<not> s)" by blast
    have "end_ok (m (\<not> s)) (given m n (\<not> s)) (given m n s @ stream (m s) M) (stream (m s) (kn_read n (\<not> s))) (got k) (kn_end n (\<not> s))"
      using ok [of "\<not> s"] assms(2) by (intro end_ok_mono) auto
    then show ?thesis unfolding t not_not g using ok [of "\<not> s"] by (auto simp: g)
  qed
qed

lemma few_length: "few m n \<Longrightarrow> length (given m n s) < 2147483648"
  unfolding few_def by (metis of_nat_less_iff of_nat_numeral)

lemma few_mono: "kcp_step n n' \<Longrightarrow> few m n' \<Longrightarrow> few m n"
proof (induction rule: kcp_step.induct)
  case (send msg n s r k)
  have "length (given m n t) \<le> length (given m (n\<lparr>kn_end := (kn_end n)(s := k),
      kn_said := (kn_said n)(s := kn_said n s @ (if r = 0 then [msg] else []))\<rparr>) t)" for t
    by (simp add: given_def)
  then show ?case using send.prems unfolding few_def by (meson le_less_trans of_nat_mono)
qed (simp_all add: few_def given_def)

lemma wndsize_ok:
  assumes "end_ok m S T c G kcp"
  shows "end_ok m S T c G (ikcp_wndsize sndwnd rcvwnd kcp) \<and> got (ikcp_wndsize sndwnd rcvwnd kcp) = got kcp"
proof -
  have "0 < imax w IKCP_WND_RCV" for w
    by (simp add: imax_def IKCP_WND_RCV_def word_less_nat_alt word_le_nat_alt)
  then show ?thesis using assms
    by (auto simp: ikcp_wndsize_def Let_def end_ok_def snd_ok_def rcv_ok_def rcv_stored_def acks_ok_def got_def held_def)
qed

lemma core_nodelay: "core (ikcp_nodelay nodelay interval resend nc kcp) = core kcp"
  by (simp add: ikcp_nodelay_def Let_def core_def)

lemma net_ok_step:
  assumes "kcp_step n n'" "net_ok m n" "few m n'" "\<forall>s. 0 < m s \<and> m s < 2147483648"
  shows "net_ok m n'"
  using assms(1) assms(2) few_mono [OF assms(1,3)]
proof (induction rule: kcp_step.induct)
  case (send msg n s r k)
  note ok = send.prems(1) [unfolded net_ok_def, rule_format, of s]
  have m: "0 < m s" "m s < 2147483648" using assms(4) by blast+
  note k = send_ok [OF conjunct1 [OF ok] m send.hyps(2,1)]
  show ?case
    using net_ok_local [OF send.prems(1), of s k "if r = 0 then [msg] else []" "[]" "[]"] k ok send.hyps(2)
    by (cases "r = 0") (simp_all add: small_frags_def)
next
  case (recv len n s r bs k)
  note ok = recv.prems(1) [unfolded net_ok_def, rule_format, of s]
  note few = few_length [OF recv.prems(2), of "\<not> s", unfolded given_def]
  obtain left where left: "kn_said n (\<not> s) = kn_read n s @ left" using ok by blast
  have small: "\<forall>msg \<in> set (kn_said n (\<not> s)). length msg < 2147483648"
    using recv.prems(1) [unfolded net_ok_def, rule_format, of "\<not> s"] by blast
  note k = recv_ok [OF conjunct1 [OF ok, unfolded given_def [of m n "\<not> s"]] left few small recv.hyps(2,3,1)]
  show ?case
    using net_ok_local [OF recv.prems(1), of s k "[]" "if 0 \<le> r \<and> 0 \<le> len then [bs] else []" "[]"] k ok left
    by (cases "0 \<le> r \<and> 0 \<le> len") (auto simp: given_def small_frags_def)
next
  case (update now n s sent k)
  note ok = update.prems(1) [unfolded net_ok_def, rule_format, of s]
  note few = few_length [OF update.prems(2)]
  have small: "small_frags (given m n s)" using ok by blast
  note k = update_ok [OF conjunct1 [OF ok] few few small update.hyps]
  show ?case
    using net_ok_local [OF update.prems(1), of s k "[]" "[]" sent] k ok by (simp add: small_frags_def)
next
  case (input d n s r k)
  note ok = input.prems(1) [unfolded net_ok_def, rule_format]
  note few = few_length [OF input.prems(2)]
  have d: "datagram_ok (given m n (\<not> s)) (got (kn_end n (\<not> s))) d" using ok [of "\<not> s"] input.hyps(1) by blast
  note k = input_ok [OF conjunct1 [OF ok [of s]] few few d input.hyps(2)]
  show ?case using net_ok_local [OF input.prems(1), of s k "[]" "[]" "[]"] k ok [of s] by (simp add: small_frags_def)
next
  case (wndsize n s sndwnd rcvwnd)
  note ok = wndsize.prems(1) [unfolded net_ok_def, rule_format, of s]
  show ?case
    using net_ok_local [OF wndsize.prems(1), of s "ikcp_wndsize sndwnd rcvwnd (kn_end n s)" "[]" "[]" "[]"]
      wndsize_ok [OF conjunct1 [OF ok]] ok by (simp add: small_frags_def)
next
  case (nodelay n s nodelay interval resend nc)
  note ok = nodelay.prems(1) [unfolded net_ok_def, rule_format, of s]
  show ?case
    using net_ok_local [OF nodelay.prems(1), of s "ikcp_nodelay nodelay interval resend nc (kn_end n s)" "[]" "[]" "[]"]
      core_eq [OF core_nodelay [of nodelay interval resend nc "kn_end n s"]] ok by (simp add: small_frags_def)
qed

lemma net_ok_start:
  assumes "\<forall>s. 50 \<le> mtu s \<and> mtu s < 2147483648"
  shows "net_ok (\<lambda>s. mss_of (mtu s)) (kcp_start conv mtu)"
proof -
  have "of_int (mtu s) - IKCP_OVERHEAD = of_nat (mss_of (mtu s))" for s
    using assms [rule_format, of s] by (simp add: mss_of_def IKCP_OVERHEAD_def)
  then have "end_ok (mss_of (mtu s)) [] [] [] {} (kn_end (kcp_start conv mtu) s)" for s
    using assms [rule_format, of s]
    by (simp add: kcp_start_def ikcp_setmtu_def IKCP_OVERHEAD_def ikcp_setoutput_def ikcp_create_def end_ok_def snd_ok_def
        rcv_ok_def rcv_stored_def acks_ok_def IKCP_WND_RCV_def)
  then have "end_ok (mss_of (mtu s)) [] [] [] G (kn_end (kcp_start conv mtu) s)" for s G
    using end_ok_mono [of "mss_of (mtu s)" "[]" "[]" "[]" "{}" "kn_end (kcp_start conv mtu) s" G "[]"] by simp
  then show ?thesis
    by (simp add: net_ok_def given_def small_frags_def) (simp add: kcp_start_def)
qed

lemma net_ok_reachable:
  assumes "kcp_step\<^sup>*\<^sup>* (kcp_start conv mtu) n" "\<forall>s. 50 \<le> mtu s \<and> mtu s < 2147483648"
    "few (\<lambda>s. mss_of (mtu s)) n"
  shows "net_ok (\<lambda>s. mss_of (mtu s)) n"
  using assms(1,3)
proof (induction rule: rtranclp_induct)
  case base
  show ?case by (rule net_ok_start [OF assms(2)])
next
  case (step n n')
  have "\<forall>s. 0 < mss_of (mtu s) \<and> mss_of (mtu s) < 2147483648"
  proof (intro allI)
    fix s show "0 < mss_of (mtu s) \<and> mss_of (mtu s) < 2147483648"
      using assms(2) [rule_format, of s] by (auto simp: mss_of_def)
  qed
  then show ?case using net_ok_step [OF step.hyps(2) _ step.prems] step.IH few_mono [OF step.hyps(2) step.prems] by blast
qed

subsection \<open>Runs\<close>

text \<open>A run as a list of what happens; \<open>Deliver s i\<close> gives the end \<open>s\<close> the datagram \<open>i\<close> of the other end.\<close>

datatype kcp_act = Send bool "byte list" | Recv bool int | Update bool uint | Deliver bool nat

fun kcp_do :: "kcp_act \<Rightarrow> kcp_net \<Rightarrow> kcp_net option" where
  "kcp_do (Send s msg) n =
     (if 2147483648 \<le> int (length msg) then None
      else map_option (\<lambda>(r, k). n\<lparr>kn_end := (kn_end n)(s := k),
        kn_said := (kn_said n)(s := kn_said n s @ (if r = 0 then [msg] else []))\<rparr>)
        (ikcp_send msg (int (length msg)) (kn_end n s)))"
| "kcp_do (Recv s len) n =
     (if len \<le> - 2147483648 \<or> 2147483648 \<le> len then None
      else map_option (\<lambda>(r, bs, k). n\<lparr>kn_end := (kn_end n)(s := k),
        kn_read := (kn_read n)(s := kn_read n s @ (if 0 \<le> r \<and> 0 \<le> len then [bs] else []))\<rparr>)
        (ikcp_recv len (kn_end n s)))"
| "kcp_do (Update s now) n =
     map_option (\<lambda>(sent, k). n\<lparr>kn_end := (kn_end n)(s := k), kn_wire := (kn_wire n)(s := kn_wire n s @ sent)\<rparr>)
       (ikcp_update now (kn_end n s))"
| "kcp_do (Deliver s i) n =
     (if length (kn_wire n (\<not> s)) \<le> i then None
      else map_option (\<lambda>(r, k). n\<lparr>kn_end := (kn_end n)(s := k)\<rparr>)
        (ikcp_input (kn_wire n (\<not> s) ! i) (int (length (kn_wire n (\<not> s) ! i))) (kn_end n s)))"

fun kcp_run :: "kcp_act list \<Rightarrow> kcp_net \<Rightarrow> kcp_net option" where
  "kcp_run [] n = Some n"
| "kcp_run (a # as) n = Option.bind (kcp_do a n) (kcp_run as)"

lemma kcp_act_step: "kcp_do a n = Some n' \<Longrightarrow> kcp_step n n'"
proof (cases a)
  case (Send s msg)
  assume "kcp_do a n = Some n'"
  then obtain r k where "ikcp_send msg (int (length msg)) (kn_end n s) = Some (r, k)" "length msg < 2147483648"
    "n' = n\<lparr>kn_end := (kn_end n)(s := k), kn_said := (kn_said n)(s := kn_said n s @ (if r = 0 then [msg] else []))\<rparr>"
    unfolding Send by (cases "2147483648 \<le> int (length msg)") auto
  then show ?thesis using kcp_step.send by metis
next
  case (Recv s len)
  assume "kcp_do a n = Some n'"
  then obtain r bs k where "ikcp_recv len (kn_end n s) = Some (r, bs, k)" "- 2147483648 < len" "len < 2147483648"
    "n' = n\<lparr>kn_end := (kn_end n)(s := k),
       kn_read := (kn_read n)(s := kn_read n s @ (if 0 \<le> r \<and> 0 \<le> len then [bs] else []))\<rparr>"
    unfolding Recv by (cases "len \<le> - 2147483648 \<or> 2147483648 \<le> len") auto
  then show ?thesis using kcp_step.recv by metis
next
  case (Update s now)
  assume "kcp_do a n = Some n'"
  then show ?thesis unfolding Update by (auto intro: kcp_step.update)
next
  case (Deliver s i)
  assume "kcp_do a n = Some n'"
  then show ?thesis unfolding Deliver by (auto simp: not_le split: if_splits intro!: kcp_step.input)
qed

lemma kcp_run_steps: "kcp_run as n = Some n' \<Longrightarrow> kcp_step\<^sup>*\<^sup>* n n'"
  by (induction as arbitrary: n) (auto split: bind_splits dest!: kcp_act_step intro: converse_rtranclp_into_rtranclp)

text \<open>Two messages; the first datagram arrives three times, the second before a copy of the first, and
  the acknowledgements in the wrong order.\<close>

definition example_run :: "kcp_act list" where
  "example_run = [Send True (lit ''hi''), Send True (lit ''there''), Update True 0, Update True 100, Update True 200,
     Deliver False 0, Recv False 1000, Deliver False 0, Update False 200, Deliver True 0, Update True 300,
     Update True 400, Deliver False 1, Deliver False 0, Update False 400, Deliver True 1, Deliver True 0, Recv False 1000,
     Recv False 1000]"

definition example_net :: "kcp_act list \<Rightarrow> kcp_net" where
  "example_net as = the (kcp_run as (kcp_start 7 (\<lambda>_. 50)))"

lemma example_run_facts: "case kcp_run example_run (kcp_start 7 (\<lambda>_. 50)) of None \<Rightarrow> False | Some n \<Rightarrow>
   kn_said n True = [lit ''hi'', lit ''there''] \<and> few (\<lambda>_. mss_of 50) n \<and>
   kc_snd_buf (kn_end n True) = [] \<and> kc_snd_queue (kn_end n True) = [] \<and> kc_rcv_queue (kn_end n False) = []"
  by code_simp

lemma example_part_facts: "case kcp_run (take 7 example_run) (kcp_start 7 (\<lambda>_. 50)) of None \<Rightarrow> False | Some n \<Rightarrow>
   kn_said n True = [lit ''hi'', lit ''there''] \<and> kn_read n False = [lit ''hi''] \<and> few (\<lambda>_. mss_of 50) n"
  by code_simp

lemma example_runs: "kcp_run example_run (kcp_start 7 (\<lambda>_. 50)) = Some (example_net example_run)"
  "kcp_run (take 7 example_run) (kcp_start 7 (\<lambda>_. 50)) = Some (example_net (take 7 example_run))"
  using example_run_facts example_part_facts by (auto simp: example_net_def split: option.splits)

text \<open>C2: in a connection over a network that may lose, repeat and reorder datagrams, what the user of one
  end has read with \<open>ikcp_recv\<close> is at any time a beginning of what the user of the other end gave to
  \<open>ikcp_send\<close>: no message is lost in between, doubled, reordered or changed, as long as fewer than
  \<open>2 ^ 31\<close> fragments were sent.\<close>
theorem kcp_in_order:
  assumes "kcp_step\<^sup>*\<^sup>* (kcp_start conv mtu) n" "\<forall>s. 50 \<le> mtu s \<and> mtu s < 2147483648"
    "few (\<lambda>s. mss_of (mtu s)) n"
  shows "\<exists>left. kn_said n s = kn_read n (\<not> s) @ left"
  using net_ok_reachable [OF assms, unfolded net_ok_def, rule_format, of "\<not> s"] by simp

theorem kcp_in_order_witness:
  "kn_said (example_net (take 7 example_run)) True = [lit ''hi'', lit ''there''] \<and>
   kn_read (example_net (take 7 example_run)) False = [lit ''hi''] \<and>
   (\<exists>left. kn_said (example_net (take 7 example_run)) True = kn_read (example_net (take 7 example_run)) (\<not> True) @ left)"
  using kcp_in_order [OF kcp_run_steps [OF example_runs(2)], of True] example_part_facts by (simp add: example_runs)

text \<open>C3: when the sender has no segment left in its queue and its send buffer and the receiver's user
  has read all there was, the messages read are those that were sent: an acknowledged segment is
  never lost, whatever the network did.\<close>
theorem kcp_all_delivered:
  assumes "kcp_step\<^sup>*\<^sup>* (kcp_start conv mtu) n" "\<forall>s. 50 \<le> mtu s \<and> mtu s < 2147483648"
    "few (\<lambda>s. mss_of (mtu s)) n" "kc_snd_buf (kn_end n s) = []" "kc_snd_queue (kn_end n s) = []"
    "kc_rcv_queue (kn_end n (\<not> s)) = []"
  shows "kn_read n (\<not> s) = kn_said n s"
proof -
  let ?T = "given (\<lambda>s. mss_of (mtu s)) n s" and ?k = "kn_end n (\<not> s)"
  note ok = net_ok_reachable [OF assms(1-3), unfolded net_ok_def, rule_format]
  obtain left where left: "kn_said n s = kn_read n (\<not> s) @ left" using ok [of "\<not> s"] by auto
  have "unat (kc_snd_nxt (kn_end n s)) = length ?T" "{..<length ?T} \<subseteq> got ?k"
    using ok [of s] assms(4,5) by (auto simp: end_ok_def snd_ok_def held_def)
  moreover have rcv: "rcv_ok ?T (stream (mss_of (mtu s)) (kn_read n (\<not> s))) ?k"
    using ok [of "\<not> s"] by (simp add: end_ok_def)
  ultimately have all: "{..<length ?T} \<subseteq> {..<unat (kc_rcv_nxt ?k)} \<union> sn_nat ` set (kc_rcv_buf ?k)" by (simp add: got_def)
  have "unat (kc_rcv_nxt ?k) \<notin> sn_nat ` set (kc_rcv_buf ?k)"
    using rcv assms(6) by (auto simp: rcv_ok_def sn_nat_def word_unat_eq_iff image_iff)
  then have "length ?T \<le> unat (kc_rcv_nxt ?k)" using all by (meson UnE lessThan_iff less_irrefl not_le subsetD)
  then have "stream (mss_of (mtu s)) (kn_read n (\<not> s)) = ?T" using rcv assms(6) by (simp add: rcv_ok_def rcv_stored_def)
  then have "stream (mss_of (mtu s)) left = []" using left by (simp add: given_def)
  then have "left = []" by (cases left) auto
  then show ?thesis using left by simp
qed


theorem kcp_all_delivered_witness:
  "kn_said (example_net example_run) True = [lit ''hi'', lit ''there''] \<and>
   kn_read (example_net example_run) (\<not> True) = kn_said (example_net example_run) True"
  using kcp_all_delivered [OF kcp_run_steps [OF example_runs(1)], of True] example_run_facts by (simp add: example_runs)

end
