(* ===== verification/KcpMain.thy ===== *)
theory KcpMain
  imports KcpResend KcpNet OsCalls
begin

text \<open>
  KcpUdp/main.cpp: a program that sends one message over and over to a peer and prints what it
  receives.  The clock and the two calls on datagrams are the record \<open>udp_os\<close>: \<open>recvfrom\<close> returns at most as
  many bytes as it is asked for, and the rest of a datagram is lost.  The byte arrays, which are used here
  to collect bytes only, are lists; what is handed to the stream is kept.
\<close>

subsection \<open>The program\<close>

record 'w udp_os =
  uo_now :: "'w \<Rightarrow> int \<times> 'w"
  uo_recvfrom :: "int \<Rightarrow> nat \<Rightarrow> 'w \<Rightarrow> (sockaddr_in \<times> byte list) option \<times> 'w"
  uo_sendto :: "int \<Rightarrow> byte list \<Rightarrow> sockaddr_in \<Rightarrow> 'w \<Rightarrow> 'w"

record kcp_user =
  ku_coveKey :: uint
  ku_addr :: sockaddr_in
  ku_fd :: int

record 'w kcp_client =
  kl_user :: kcp_user
  kl_kcp :: ikcpcb
  kl_nextUpdate :: uint
  kl_printed :: "byte list list"
  kl_world :: 'w

text \<open>The calls of the output function, one for each datagram.\<close>

definition updSend :: "'w udp_os \<Rightarrow> kcp_user \<Rightarrow> byte list \<Rightarrow> 'w \<Rightarrow> 'w" where
  "updSend u user buf = uo_sendto u (ku_fd user) buf (ku_addr user)"

definition getCurrentTime :: "'w udp_os \<Rightarrow> 'w \<Rightarrow> uint \<times> 'w" where
  "getCurrentTime u w = (case uo_now u w of (ms, w) \<Rightarrow> (of_int ms, w))"

definition isSameAddr :: "sockaddr_in \<Rightarrow> sockaddr_in \<Rightarrow> bool" where
  "isSameAddr a b \<longleftrightarrow> sin_addr a = sin_addr b \<and> sin_port a = sin_port b"

text \<open>The end of this function is reached without a \<open>return\<close>.\<close>

definition vaildRecvLen :: "int \<Rightarrow> bool option" where
  "vaildRecvLen len = (if len < 0 then Some False else if len < 24 then Some False else None)"

partial_function (option) drain_socket :: "'w udp_os \<Rightarrow> kcp_user \<Rightarrow> byte list \<Rightarrow> 'w \<Rightarrow> (byte list \<times> 'w) option" where
  "drain_socket u user udpMsg w = (case uo_recvfrom u (ku_fd user) 1024 w of
     (None, w) \<Rightarrow> Some (udpMsg, w)
   | (Some (fromAddr, bs), w) \<Rightarrow>
       if \<not> isSameAddr fromAddr (ku_addr user) then Some (udpMsg, w) else drain_socket u user (udpMsg @ bs) w)"

declare drain_socket.simps [code]

partial_function (option) read_messages :: "byte list \<Rightarrow> ikcpcb \<Rightarrow> (byte list \<times> ikcpcb) option" where
  "read_messages recvMsg kcp = (case ikcp_recv 1024 kcp of
     None \<Rightarrow> None
   | Some (r, bs, kcp) \<Rightarrow> if r < 0 then Some (recvMsg, kcp) else read_messages (recvMsg @ bs) kcp)"

declare read_messages.simps [code]

text \<open>A turn of the loop.\<close>

definition kcp_turn :: "'w udp_os \<Rightarrow> byte list \<Rightarrow> 'w kcp_client \<Rightarrow> 'w kcp_client option" where
  "kcp_turn u msg c = do {
     let (now, w) = getCurrentTime u (kl_world c);
     (next, kcp, w) \<leftarrow>
       (if kl_nextUpdate c \<le> now
        then do {
          (sent, kcp) \<leftarrow> ikcp_update now (kl_kcp c);
          Some (ikcp_check now kcp, kcp, fold (updSend u (kl_user c)) sent w)
        }
        else Some (kl_nextUpdate c, kl_kcp c, w));
     (udpMsg, w) \<leftarrow> drain_socket u (kl_user c) [] w;
     kcp \<leftarrow> (if udpMsg \<noteq> [] then map_option snd (ikcp_input udpMsg (int (length udpMsg)) kcp) else Some kcp);
     (recvMsg, kcp) \<leftarrow> read_messages [] kcp;
     (_, kcp) \<leftarrow> ikcp_send msg (int (length msg)) kcp;
     Some (c\<lparr>kl_kcp := kcp, kl_nextUpdate := next, kl_world := w,
       kl_printed := kl_printed c @ (if recvMsg \<noteq> [] then [recvMsg] else [])\<rparr>)
   }"

fun kcp_turns :: "'w udp_os \<Rightarrow> byte list \<Rightarrow> nat \<Rightarrow> 'w kcp_client \<Rightarrow> 'w kcp_client option" where
  "kcp_turns u msg 0 c = Some c"
| "kcp_turns u msg (Suc n) c = do { c \<leftarrow> kcp_turn u msg c; kcp_turns u msg n c }"

definition kcp_main :: "'w os \<Rightarrow> 'w udp_os \<Rightarrow> nat \<Rightarrow> byte list list \<Rightarrow> 'w \<Rightarrow> (int + 'w kcp_client) option" where
  "kcp_main os u n argv w =
     (if length argv < 5 then Some (Inl (- 1))
      else do {
        port \<leftarrow> arg_atoi (argv ! 2);
        key \<leftarrow> arg_atoi (argv ! 3);
        let addr = \<lparr>sin_addr = (case os_inet_aton os (argv ! 1) of None \<Rightarrow> 0 | Some a \<Rightarrow> a), sin_port = net_short (of_int port)\<rparr>;
        let (fd, w) = os_socket os w;
        let w = os_setNoBlock os fd w;
        let (_, w) = os_bind os fd \<lparr>sin_addr = 0, sin_port = net_short (of_int port)\<rparr> w;
        let kcp = ikcp_nodelay 0 10 2 0 (ikcp_setoutput (ikcp_create (of_int key)));
        map_option Inr (kcp_turns u (argv ! 4) n
          \<lparr>kl_user = \<lparr>ku_coveKey = of_int key, ku_addr = addr, ku_fd = fd\<rparr>, kl_kcp = kcp, kl_nextUpdate = 0, kl_printed = [],
            kl_world = w\<rparr>)
      })"

subsection \<open>Datagrams that are cut off\<close>

text \<open>The datagrams that wait are received whole, up to the size of the buffer each.\<close>

inductive arrives :: "'w udp_os \<Rightarrow> kcp_user \<Rightarrow> 'w \<Rightarrow> byte list list \<Rightarrow> 'w \<Rightarrow> bool" for u user where
  no_more: "uo_recvfrom u (ku_fd user) 1024 w = (None, w') \<Longrightarrow> arrives u user w [] w'"
| one_more: "uo_recvfrom u (ku_fd user) 1024 w = (Some (addr, take 1024 d), w1) \<Longrightarrow> isSameAddr addr (ku_addr user) \<Longrightarrow>
    arrives u user w1 ds w' \<Longrightarrow> arrives u user w (d # ds) w'"

lemma drain_arrives: "arrives u user w ds w' \<Longrightarrow> drain_socket u user acc w = Some (acc @ concat (map (take 1024) ds), w')"
proof (induction arbitrary: acc rule: arrives.induct)
  case (no_more w w')
  then show ?case by (subst drain_socket.simps) simp
next
  case (one_more w addr d w1 ds w')
  then show ?case by (subst drain_socket.simps) simp
qed

lemma input_cut_off:
  assumes "sg_conv seg = kc_conv kcp" "len_ok seg" "1000 < length (sg_data seg)" "length (sg_data seg) < 2147483648"
  shows "ikcp_input (take 1024 (wire_seg seg)) 1024 kcp = Some (- 2, kcp)"
proof -
  have t: "take 1024 (wire_seg seg) = ikcp_encode_seg seg @ take 1000 (sg_data seg)" by (simp add: wire_seg_def)
  obtain p where p: "ikcp_decode32u (take 1024 (wire_seg seg)) = Some (sg_conv seg, p)"
    "decode_header (sg_conv seg) p = Some (as_read seg, take 1000 (sg_data seg))"
    using decode_header_encode [of seg "take 1000 (sg_data seg)"] t by auto
  have len: "unat (sg_len seg) = length (sg_data seg)" using assms(2) by (simp add: len_ok_def)
  then have "1000 < uint (sg_len seg)" using assms(3) by (metis of_nat_less_iff of_nat_numeral uint_nat)
  then have "input_loop (take 1024 (wire_seg seg)) 1024 None kcp = Some (- 2, None, kcp)"
    using p assms(1) by (subst input_loop.simps) (simp add: IKCP_OVERHEAD_def as_read_fields)
  then show ?thesis by (simp add: ikcp_input_def IKCP_OVERHEAD_def)
qed

lemma read_nothing: "kc_rcv_queue kcp = [] \<Longrightarrow> read_messages acc kcp = Some (acc, kcp)"
  by (subst read_messages.simps) (simp add: ikcp_recv_def)


text \<open>A socket as the list of the datagrams that wait.\<close>

definition list_udp :: "int \<Rightarrow> ((sockaddr_in \<times> byte list) list) udp_os" where
  "list_udp now = \<lparr>uo_now = (\<lambda>w. (now, w)),
     uo_recvfrom = (\<lambda>fd n w. case w of [] \<Rightarrow> (None, w) | (a, d) # ds \<Rightarrow> (Some (a, take n d), ds)),
     uo_sendto = (\<lambda>fd bs a w. w)\<rparr>"

lemma list_udp_arrives:
  assumes "\<forall>x \<in> set w. isSameAddr (fst x) (ku_addr user)"
  shows "arrives (list_udp now) user w (map snd w) []"
  using assms
proof (induction w)
  case Nil
  have "arrives (list_udp now) user [] [] []" by (rule no_more) (simp add: list_udp_def)
  then show ?case by simp
next
  case (Cons x w)
  obtain a d where x: "x = (a, d)" by fastforce
  have "arrives (list_udp now) user (x # w) (d # map snd w) []"
    by (rule one_more [of _ _ _ a]) (use Cons x in \<open>simp_all add: list_udp_def\<close>)
  then show ?case by (simp add: x)
qed

definition big_seg :: ikcpseg where
  "big_seg = (ikcp_segment_new (replicate 1376 0))\<lparr>sg_conv := 7, sg_cmd := IKCP_CMD_PUSH\<rparr>"

definition example_client :: "((sockaddr_in \<times> byte list) list) kcp_client" where
  "example_client = (let addr = \<lparr>sin_addr = 1, sin_port = 2\<rparr> in \<lparr>kl_user = \<lparr>ku_coveKey = 7, ku_addr = addr, ku_fd = 3\<rparr>,
     kl_kcp = ikcp_setoutput (ikcp_create 7), kl_nextUpdate = 100, kl_printed = [], kl_world = [(addr, wire_seg big_seg)]\<rparr>)"


text \<open>A message that is longer than the buffer stays at the head of the queue: the reader gets nothing.\<close>

lemma kcp_client_stuck:
  assumes "kc_rcv_queue kcp = segs @ rest" "map payload segs = fragments m msg" "\<forall>seg \<in> set segs. len_ok seg"
    "kc_nrcv_que kcp = of_nat (length (segs @ rest))" "length (segs @ rest) < 4294967296" "length msg < 2147483648"
    "1024 < length msg"
  shows "read_messages acc kcp = Some (acc, kcp)"
  using recv_message [OF assms(1-6), of 1024] assms(7) by (subst read_messages.simps) simp

text \<open>In stream mode an error comes after a part of the bytes was taken.\<close>

lemma kcp_stream_partial:
  "(let kcp = (snd (ikcp_setmtu 50 (ikcp_create 7)))\<lparr>kc_stream := 1\<rparr>;
        kcp = snd (the (ikcp_send [1] 1 kcp))
    in map_option (\<lambda>(r, k). (r, map sg_len (kc_snd_queue k))) (ikcp_send (replicate 3400 2) 3400 kcp)) = Some (- 2, [26])"
  by code_simp

text \<open>What a user checks with \<open>vaildRecvLen\<close>: the good case has no result.\<close>

lemma vaildRecvLen_undefined: "24 \<le> len \<Longrightarrow> vaildRecvLen len = None"
  by (simp add: vaildRecvLen_def)

end
